(* ===== verification/Pintos_Prelude.thy ===== *)
theory Pintos_Prelude
  imports Main "HOL-Library.Word" "HOL-Library.Monad_Syntax" "HOL-Library.Multiset"
begin

text \<open>
  What the components share: the machine types of the 32-bit kernel, assertions as a value
  of the option monad, C's truncating division, the functional reading of the
  list operations that \<^verbatim>\<open>lib/kernel/list.c\<close> implements on pointers, and the contract of a
  comparison function (\<^verbatim>\<open>list_less_func\<close>) as a locale with the lemmas its clients use.
\<close>

unbundle bit_operations_syntax

section \<open>Machine types, assertions\<close>

type_synonym u8 = "8 word"
type_synonym u32 = "32 word"
type_synonym u64 = "64 word"
type_synonym addr = nat

abbreviation NULL :: addr where "NULL \<equiv> 0"

text \<open>
  \<^verbatim>\<open>ASSERT\<close> and \<^verbatim>\<open>PANIC\<close> (\<^verbatim>\<open>lib/debug.h\<close>) halt the kernel. An operation that may
  halt has an option type and \<open>None\<close> is the halted kernel.
\<close>

definition ASSERT :: "bool \<Rightarrow> unit option" where
  "ASSERT c = (if c then Some () else None)"

lemma ASSERT_bind_Some [simp]:
  "(ASSERT c \<bind> f = Some y) \<longleftrightarrow> c \<and> f () = Some y"
  by (simp add: ASSERT_def)

lemma ASSERT_True [simp]: "c \<Longrightarrow> ASSERT c \<bind> f = f ()"
  by (simp add: ASSERT_def)

lemma ASSERT_False [simp]: "\<not> c \<Longrightarrow> ASSERT c \<bind> f = None"
  by (simp add: ASSERT_def)

text \<open>\<open>wp m P\<close>: the operation does not halt the kernel and its result satisfies \<open>P\<close>.\<close>

definition wp :: "'a option \<Rightarrow> ('a \<Rightarrow> bool) \<Rightarrow> bool" where
  "wp m P \<longleftrightarrow> (\<exists>x. m = Some x \<and> P x)"

lemma wp_simps [simp]:
  "wp (Some x) P \<longleftrightarrow> P x"
  "wp None P \<longleftrightarrow> False"
  "wp (m \<bind> f) P \<longleftrightarrow> wp m (\<lambda>x. wp (f x) P)"
  "wp (map_option g m) P \<longleftrightarrow> wp m (\<lambda>x. P (g x))"
  "wp (ASSERT c) P' \<longleftrightarrow> c \<and> P' ()"
  by (auto simp: wp_def ASSERT_def bind_eq_Some_conv)

lemma wp_if [simp]: "wp (if c then m else m') P \<longleftrightarrow> (if c then wp m P else wp m' P)"
  by simp

lemma wp_mono: "wp m P \<Longrightarrow> (\<And>x. m = Some x \<Longrightarrow> P x \<Longrightarrow> Q x) \<Longrightarrow> wp m Q"
  by (auto simp: wp_def)

lemma wp_conj: "wp m P \<Longrightarrow> wp m Q \<Longrightarrow> wp m (\<lambda>x. P x \<and> Q x)"
  by (auto simp: wp_def)

lemma wp_Some_iff: "m = Some x \<Longrightarrow> wp m P \<longleftrightarrow> P x"
  by (simp add: wp_def)

text \<open>The named collections: the definitions of a component's operations, its invariants.\<close>

named_theorems op_defs "definitions of modelled operations"
named_theorems inv_defs "definitions of invariants"
named_theorems unat_simps "values of words of the source's widths as natural numbers"

lemma in_set_tl: "x \<in> set (tl xs) \<Longrightarrow> x \<in> set xs"
  by (cases xs) auto

section \<open>C integer arithmetic\<close>

text \<open>
  \<open>/\<close> and \<open>%\<close> on signed C integers truncate towards zero. \<open>s32\<close> is the value of
  an \<^verbatim>\<open>int\<close> after reduction to 32-bit two's complement.
\<close>

definition c_div :: "int \<Rightarrow> int \<Rightarrow> int" where
  "c_div a b = sgn a * sgn b * (\<bar>a\<bar> div \<bar>b\<bar>)"

definition c_mod :: "int \<Rightarrow> int \<Rightarrow> int" where
  "c_mod a b = a - b * c_div a b"

definition s32 :: "int \<Rightarrow> int" where
  "s32 x = (x + 2 ^ 31) mod 2 ^ 32 - 2 ^ 31"

definition in_s32 :: "int \<Rightarrow> bool" where
  "in_s32 x \<longleftrightarrow> - (2 ^ 31) \<le> x \<and> x < 2 ^ 31"

lemma s32_id [simp]: "in_s32 x \<Longrightarrow> s32 x = x"
  by (simp add: s32_def in_s32_def)

lemma in_s32_s32 [simp]: "in_s32 (s32 x)"
  unfolding in_s32_def s32_def
  using pos_mod_bound [of "2 ^ 32" "x + 2 ^ 31"] pos_mod_sign [of "2 ^ 32" "x + 2 ^ 31"]
  by simp

lemma s32_sint: "s32 x = sint (word_of_int x :: u32)"
  by (simp add: s32_def sint_sbintrunc' signed_take_bit_eq_take_bit_shift take_bit_eq_mod)

lemma c_div_nonneg [simp]: "0 \<le> a \<Longrightarrow> 0 < b \<Longrightarrow> c_div a b = a div b"
  by (cases "a = 0") (simp_all add: c_div_def)

lemma c_div_neg: "a \<le> 0 \<Longrightarrow> 0 < b \<Longrightarrow> c_div a b = - ((- a) div b)"
  by (cases "a = 0") (simp_all add: c_div_def)

lemma c_div_mono: "a \<le> a' \<Longrightarrow> 0 < b \<Longrightarrow> c_div a b \<le> c_div a' b"
proof (cases "0 \<le> a")
  case True
  assume "a \<le> a'" "0 < b"
  with True show ?thesis by (simp add: zdiv_mono1)
next
  case False
  assume le: "a \<le> a'" and b: "0 < b"
  show ?thesis
  proof (cases "0 \<le> a'")
    case True
    have "0 \<le> (- a) div b" using False b by (simp add: pos_imp_zdiv_nonneg_iff)
    moreover have "0 \<le> a' div b" using True b by (simp add: pos_imp_zdiv_nonneg_iff)
    ultimately show ?thesis using False True b by (simp add: c_div_neg)
  next
    case neg: False
    have "(- a') div b \<le> (- a) div b" using le b by (simp add: zdiv_mono1)
    then show ?thesis using False neg b by (simp add: c_div_neg)
  qed
qed

lemma c_div_mod: "a = b * c_div a b + c_mod a b"
  by (simp add: c_mod_def)

section \<open>Lists ordered by a comparison function\<close>

text \<open>
  The functional reading of \<^verbatim>\<open>list_insert_ordered\<close>, \<^verbatim>\<open>list_min\<close> and \<^verbatim>\<open>list_max\<close>: the
  pointer programs of \<open>Kernel_List\<close> are proved to compute them, and the scheduler's queues
  are stated with them.
\<close>

definition insert_ordered :: "('a \<Rightarrow> 'a \<Rightarrow> bool) \<Rightarrow> 'a \<Rightarrow> 'a list \<Rightarrow> 'a list" where
  "insert_ordered lt x xs =
     takeWhile (\<lambda>y. \<not> lt x y) xs @ x # dropWhile (\<lambda>y. \<not> lt x y) xs"

fun first_min :: "('a \<Rightarrow> 'a \<Rightarrow> bool) \<Rightarrow> 'a \<Rightarrow> 'a list \<Rightarrow> 'a" where
  "first_min lt m [] = m"
| "first_min lt m (e # es) = first_min lt (if lt e m then e else m) es"

fun first_max :: "('a \<Rightarrow> 'a \<Rightarrow> bool) \<Rightarrow> 'a \<Rightarrow> 'a list \<Rightarrow> 'a" where
  "first_max lt m [] = m"
| "first_max lt m (e # es) = first_max lt (if lt m e then e else m) es"

abbreviation in_order :: "('a \<Rightarrow> 'a \<Rightarrow> bool) \<Rightarrow> 'a list \<Rightarrow> bool" where
  "in_order lt xs \<equiv> sorted_wrt (\<lambda>a b. \<not> lt b a) xs"

lemma mset_insert_ordered [simp]: "mset (insert_ordered lt x xs) = add_mset x (mset xs)"
  unfolding insert_ordered_def
  by (induction xs) auto

lemma set_insert_ordered [simp]: "set (insert_ordered lt x xs) = insert x (set xs)"
  by (metis mset_insert_ordered set_mset_add_mset_insert set_mset_mset)

lemma length_insert_ordered [simp]: "length (insert_ordered lt x xs) = Suc (length xs)"
  by (metis mset_insert_ordered size_add_mset size_mset)

lemma distinct_insert_ordered [simp]:
  "distinct (insert_ordered lt x xs) \<longleftrightarrow> x \<notin> set xs \<and> distinct xs"
  by (metis mset_insert_ordered distinct.simps(2) mset.simps(2) mset_eq_imp_distinct_iff)

lemma insert_ordered_not_Nil [simp]: "insert_ordered lt x xs \<noteq> []"
  by (simp add: insert_ordered_def)

lemma insert_ordered_Nil [simp]: "insert_ordered lt x [] = [x]"
  by (simp add: insert_ordered_def)

lemma insert_ordered_Cons [simp]:
  "insert_ordered lt x (y # ys) = (if lt x y then x # y # ys else y # insert_ordered lt x ys)"
  by (simp add: insert_ordered_def)

lemma insert_ordered_cong:
  "(\<And>y. y \<in> set xs \<Longrightarrow> lt x y = lt' x y) \<Longrightarrow>
     insert_ordered lt x xs = insert_ordered lt' x xs"
  by (induction xs) auto

lemma first_min_in: "first_min lt m es \<in> insert m (set es)"
proof (induction es arbitrary: m)
  case Nil
  then show ?case by simp
next
  case (Cons e es)
  show ?case using Cons.IH [of "if lt e m then e else m"] by (auto split: if_splits)
qed

lemma first_max_min: "first_max lt m es = first_min (\<lambda>a b. lt b a) m es"
  by (induction es arbitrary: m) auto

lemma first_max_in: "first_max lt m es \<in> insert m (set es)"
  by (simp only: first_max_min first_min_in)

text \<open>
  What \<^verbatim>\<open>list.h\<close> asks of a \<^verbatim>\<open>list_less_func\<close>: a strict order whose "neither is less" is an
  equivalence. Every comparison function of the kernel interprets this locale.
\<close>

locale less_func =
  fixes lt :: "'a \<Rightarrow> 'a \<Rightarrow> bool"
  assumes irrefl: "\<not> lt x x"
    and trans: "lt x y \<Longrightarrow> lt y z \<Longrightarrow> lt x z"
    and neg_trans: "\<not> lt x y \<Longrightarrow> \<not> lt y z \<Longrightarrow> \<not> lt x z"
begin

lemma asym: "lt x y \<Longrightarrow> \<not> lt y x"
  using irrefl trans by blast

lemma insert_ordered_in_order: "in_order lt xs \<Longrightarrow> in_order lt (insert_ordered lt x xs)"
proof (induction xs)
  case Nil
  then show ?case by simp
next
  case (Cons y ys)
  show ?case
  proof (cases "lt x y")
    case True
    then have "\<not> lt z x" if "z \<in> set ys" for z
      using Cons.prems that trans by auto
    with True Cons.prems show ?thesis by (auto dest: asym)
  next
    case False
    with Cons show ?thesis by auto
  qed
qed

text \<open>Among equals the earlier insertion stays in front (first in, first out).\<close>

lemma insert_ordered_stable:
  "in_order lt xs \<Longrightarrow> \<not> lt x y \<Longrightarrow> \<not> lt y x \<Longrightarrow> y \<in> set xs \<Longrightarrow>
     \<exists>us vs. insert_ordered lt x xs = us @ x # vs \<and> y \<in> set us"
proof (induction xs)
  case Nil
  then show ?case by simp
next
  case (Cons z zs)
  have nz: "\<not> lt x z"
    using Cons.prems irrefl neg_trans [of x y z] by auto
  show ?case
  proof (cases "y = z")
    case True
    with nz show ?thesis
      by (simp add: insert_ordered_def) (metis append_Cons list.set_intros(1))
  next
    case False
    with Cons obtain us vs where "insert_ordered lt x zs = us @ x # vs" "y \<in> set us"
      by auto
    with nz show ?thesis by (simp) (metis append_Cons list.set_intros(2))
  qed
qed

lemma first_min_least: "y \<in> insert m (set es) \<Longrightarrow> \<not> lt y (first_min lt m es)"
proof (induction es arbitrary: m y)
  case Nil
  then show ?case by (simp add: irrefl)
next
  case (Cons e es)
  let ?m = "if lt e m then e else m"
  have le: "\<not> lt ?m (first_min lt ?m es)" by (rule Cons.IH) simp
  have "\<not> lt m ?m" "\<not> lt e ?m" by (auto simp: irrefl asym)
  with le have "\<not> lt m (first_min lt ?m es)" "\<not> lt e (first_min lt ?m es)"
    using neg_trans by blast+
  with Cons.prems Cons.IH [of y ?m] show ?case by auto
qed

text \<open>Of several least elements the earliest is returned.\<close>

lemma first_min_earliest:
  "\<exists>us vs. m # es = us @ first_min lt m es # vs \<and> (\<forall>u\<in>set us. lt (first_min lt m es) u)"
proof (induction es arbitrary: m)
  case Nil
  show ?case by (intro exI [of _ "[]"]) simp
next
  case (Cons e es)
  show ?case
  proof (cases "lt e m")
    case True
    obtain us vs where *: "e # es = us @ first_min lt e es # vs"
      and lts: "\<forall>u\<in>set us. lt (first_min lt e es) u" using Cons.IH by blast
    have "\<not> lt e (first_min lt e es)" by (rule first_min_least) simp
    with True have "lt (first_min lt e es) m"
      using neg_trans by blast
    moreover have "first_min lt m (e # es) = first_min lt e es" using True by simp
    moreover have "m # e # es = (m # us) @ first_min lt e es # vs" using * by simp
    ultimately show ?thesis using lts by (metis set_ConsD)
  next
    case False
    obtain us vs where *: "m # es = us @ first_min lt m es # vs"
      and lts: "\<forall>u\<in>set us. lt (first_min lt m es) u" using Cons.IH by blast
    show ?thesis
    proof (cases us)
      case Nil
      with * have "first_min lt m es = m" by (metis append_Nil list.inject)
      with False show ?thesis by (intro exI [of _ "[]"] exI [of _ "e # es"]) simp
    next
      case (Cons u us')
      with * lts have "lt (first_min lt m es) m" by simp
      with False have "lt (first_min lt m es) e" using neg_trans by blast
      moreover have "first_min lt m (e # es) = first_min lt m es" using False by simp
      moreover have "m # e # es = (m # e # us') @ first_min lt m es # vs"
        using * Cons by (metis append_Cons list.inject)
      moreover have "\<forall>u\<in>set us'. lt (first_min lt m es) u" using lts Cons by simp
      ultimately show ?thesis using \<open>lt (first_min lt m es) m\<close> by (metis set_ConsD)
    qed
  qed
qed

lemma hd_least: "in_order lt xs \<Longrightarrow> y \<in> set xs \<Longrightarrow> \<not> lt y (hd xs)"
  by (cases xs) (auto simp: irrefl)

end

text \<open>Ordering by a key: the shape of every comparison function of the kernel.\<close>

lemma less_func_key: "less_func (\<lambda>a b. (f a :: 'b :: linorder) < f b)"
  by unfold_locales auto

lemma less_func_key_greater: "less_func (\<lambda>a b. (f a :: 'b :: linorder) > f b)"
  by unfold_locales auto

lemma in_order_cong:
  "(\<And>a b. a \<in> set xs \<Longrightarrow> b \<in> set xs \<Longrightarrow> lt a b = lt' a b) \<Longrightarrow>
     in_order lt xs = in_order lt' xs"
  by (induction xs) auto

section \<open>Words as natural numbers\<close>

lemma unat_less_32: "unat (x :: u32) < 2 ^ 32"
  using unsigned_less [of x] by simp

lemma unat_less_64: "unat (x :: u64) < 2 ^ 64"
  using unsigned_less [of x] by simp

lemma unat_word_32: "m < 2 ^ 32 \<Longrightarrow> unat (word_of_nat m :: u32) = m"
  by (simp add: unat_of_nat)

lemma unat_word_64: "m < 2 ^ 64 \<Longrightarrow> unat (word_of_nat m :: u64) = m"
  by (simp add: unat_of_nat)

lemma unat_ucast_32 [unat_simps]: "unat (ucast (x :: u64) :: u32) = unat x mod 2 ^ 32"
  by (simp add: unsigned_ucast_eq take_bit_eq_mod)

lemma unat_ucast_64 [unat_simps]: "unat (ucast (x :: u32) :: u64) = unat x"
  using unat_less_32 [of x] by (simp add: unsigned_ucast_eq take_bit_nat_eq_self)

lemma ucast_word_of_nat: "(ucast (x :: u32) :: u64) = word_of_nat (unat x)"
  by (simp add: word_unat_eq_iff unat_ucast_64)

lemma unat_drop_bit [unat_simps]: "unat (drop_bit k x) = unat x div 2 ^ k"
  unfolding unat_drop_bit_eq by (rule drop_bit_eq_div)

lemma unat_push_bit:
  fixes x :: "'a :: len word"
  assumes "unat x * 2 ^ j < 2 ^ LENGTH('a)"
  shows "unat (push_bit j x) = unat x * 2 ^ j"
proof -
  have "push_bit j x = word_of_nat (unat x * 2 ^ j)" by (simp add: push_bit_eq_mult)
  then show ?thesis using assms by (simp only: unat_of_nat mod_less)
qed

end
