(* ===== verification/Kernel_List.thy ===== *)
theory Kernel_List
  imports Pintos_Prelude
begin

text \<open>
  The doubly linked lists of \<^verbatim>\<open>lib/kernel/list.c\<close>, on pointers. The heap of the model is
  the two link fields of every \<^verbatim>\<open>struct list_elem\<close>; a \<^verbatim>\<open>struct list\<close> at address \<open>l\<close> has its
  head element at \<open>l\<close> and its tail element right behind it. Each operation is the C
  function on this heap, with the assertions of the code; \<open>list_rep\<close> relates a heap to the list
  of the interior elements, and the lemmas state what each operation does to that list.
\<close>

section \<open>Elements, headers, links\<close>

record links =
  link_prev :: "addr \<Rightarrow> addr"
  link_next :: "addr \<Rightarrow> addr"

definition sizeof_list_elem :: nat where "sizeof_list_elem = 8"

text \<open>The addresses \<^verbatim>\<open>&list->head\<close> and \<^verbatim>\<open>&list->tail\<close>; the operations that compute them assert first that the list is not null.\<close>

definition list_head :: "addr \<Rightarrow> addr" where "list_head l = l"

definition list_tail :: "addr \<Rightarrow> addr" where "list_tail l = l + sizeof_list_elem"

definition set_prev :: "addr \<Rightarrow> addr \<Rightarrow> links \<Rightarrow> links" where
  "set_prev e v h = h\<lparr>link_prev := (link_prev h)(e := v)\<rparr>"

definition set_next :: "addr \<Rightarrow> addr \<Rightarrow> links \<Rightarrow> links" where
  "set_next e v h = h\<lparr>link_next := (link_next h)(e := v)\<rparr>"

definition is_head :: "links \<Rightarrow> addr \<Rightarrow> bool" where
  "is_head h e \<longleftrightarrow> e \<noteq> NULL \<and> link_prev h e = NULL \<and> link_next h e \<noteq> NULL"

definition is_interior :: "links \<Rightarrow> addr \<Rightarrow> bool" where
  "is_interior h e \<longleftrightarrow> e \<noteq> NULL \<and> link_prev h e \<noteq> NULL \<and> link_next h e \<noteq> NULL"

definition is_tail :: "links \<Rightarrow> addr \<Rightarrow> bool" where
  "is_tail h e \<longleftrightarrow> e \<noteq> NULL \<and> link_prev h e \<noteq> NULL \<and> link_next h e = NULL"

section \<open>Operations\<close>

definition list_init :: "addr \<Rightarrow> links \<Rightarrow> links option" where
  "list_init l h = do {
     ASSERT (l \<noteq> NULL);
     let h = set_prev (list_head l) NULL h;
     let h = set_next (list_head l) (list_tail l) h;
     let h = set_prev (list_tail l) (list_head l) h;
     Some (set_next (list_tail l) NULL h)
   }"

definition list_begin :: "links \<Rightarrow> addr \<Rightarrow> addr option" where
  "list_begin h l = do { ASSERT (l \<noteq> NULL); Some (link_next h (list_head l)) }"

definition list_next :: "links \<Rightarrow> addr \<Rightarrow> addr option" where
  "list_next h e = do { ASSERT (is_head h e \<or> is_interior h e); Some (link_next h e) }"

definition list_end :: "addr \<Rightarrow> addr option" where
  "list_end l = do { ASSERT (l \<noteq> NULL); Some (list_tail l) }"

definition list_rbegin :: "links \<Rightarrow> addr \<Rightarrow> addr option" where
  "list_rbegin h l = do { ASSERT (l \<noteq> NULL); Some (link_prev h (list_tail l)) }"

definition list_prev :: "links \<Rightarrow> addr \<Rightarrow> addr option" where
  "list_prev h e = do { ASSERT (is_interior h e \<or> is_tail h e); Some (link_prev h e) }"

definition list_rend :: "addr \<Rightarrow> addr option" where
  "list_rend l = do { ASSERT (l \<noteq> NULL); Some (list_head l) }"

definition list_insert :: "addr \<Rightarrow> addr \<Rightarrow> links \<Rightarrow> links option" where
  "list_insert before e h = do {
     ASSERT (is_interior h before \<or> is_tail h before);
     ASSERT (e \<noteq> NULL);
     let h = set_prev e (link_prev h before) h;
     let h = set_next e before h;
     let h = set_next (link_prev h before) e h;
     Some (set_prev before e h)
   }"

definition list_splice :: "addr \<Rightarrow> addr \<Rightarrow> addr \<Rightarrow> links \<Rightarrow> links option" where
  "list_splice before first las h = do {
     ASSERT (is_interior h before \<or> is_tail h before);
     if first = las then Some h
     else do {
       las \<leftarrow> list_prev h las;
       ASSERT (is_interior h first);
       ASSERT (is_interior h las);
       let h = set_next (link_prev h first) (link_next h las) h;
       let h = set_prev (link_next h las) (link_prev h first) h;
       let h = set_prev first (link_prev h before) h;
       let h = set_next las before h;
       let h = set_next (link_prev h before) first h;
       Some (set_prev before las h)
     }
   }"

definition list_push_front :: "addr \<Rightarrow> addr \<Rightarrow> links \<Rightarrow> links option" where
  "list_push_front l e h = do { b \<leftarrow> list_begin h l; list_insert b e h }"

definition list_push_back :: "addr \<Rightarrow> addr \<Rightarrow> links \<Rightarrow> links option" where
  "list_push_back l e h = do { b \<leftarrow> list_end l; list_insert b e h }"

text \<open>\<open>list_remove\<close> returns the element that followed the removed one.\<close>

definition list_remove :: "addr \<Rightarrow> links \<Rightarrow> (addr \<times> links) option" where
  "list_remove e h = do {
     ASSERT (is_interior h e);
     let h = set_next (link_prev h e) (link_next h e) h;
     let h = set_prev (link_next h e) (link_prev h e) h;
     Some (link_next h e, h)
   }"

definition list_empty :: "links \<Rightarrow> addr \<Rightarrow> bool option" where
  "list_empty h l = do { b \<leftarrow> list_begin h l; e \<leftarrow> list_end l; Some (b = e) }"

definition list_front :: "links \<Rightarrow> addr \<Rightarrow> addr option" where
  "list_front h l = do {
     em \<leftarrow> list_empty h l; ASSERT (\<not> em); Some (link_next h (list_head l)) }"

definition list_back :: "links \<Rightarrow> addr \<Rightarrow> addr option" where
  "list_back h l = do {
     em \<leftarrow> list_empty h l; ASSERT (\<not> em); Some (link_prev h (list_tail l)) }"

definition list_pop_front :: "addr \<Rightarrow> links \<Rightarrow> (addr \<times> links) option" where
  "list_pop_front l h = do {
     e \<leftarrow> list_front h l; (_, h') \<leftarrow> list_remove e h; Some (e, h') }"

definition list_pop_back :: "addr \<Rightarrow> links \<Rightarrow> (addr \<times> links) option" where
  "list_pop_back l h = do {
     e \<leftarrow> list_back h l; (_, h') \<leftarrow> list_remove e h; Some (e, h') }"

text \<open>The traversals may not return on a heap that is not a list: they are partial functions.\<close>

partial_function (option) list_size_loop ::
  "links \<Rightarrow> addr \<Rightarrow> addr \<Rightarrow> nat \<Rightarrow> nat option" where
  "list_size_loop h e fin cnt =
     (if e = fin then Some cnt
      else do { e' \<leftarrow> list_next h e; list_size_loop h e' fin (cnt + 1) })"

definition list_size :: "links \<Rightarrow> addr \<Rightarrow> nat option" where
  "list_size h l = do { b \<leftarrow> list_begin h l; e \<leftarrow> list_end l; list_size_loop h b e 0 }"

partial_function (option) insert_pos_loop ::
  "(addr \<Rightarrow> addr \<Rightarrow> bool) \<Rightarrow> addr \<Rightarrow> links \<Rightarrow> addr \<Rightarrow> addr \<Rightarrow> addr option" where
  "insert_pos_loop lt x h e fin =
     (if e = fin then Some e
      else if lt x e then Some e
      else do { e' \<leftarrow> list_next h e; insert_pos_loop lt x h e' fin })"

definition list_insert_ordered ::
  "addr \<Rightarrow> addr \<Rightarrow> (addr \<Rightarrow> addr \<Rightarrow> bool) \<Rightarrow> links \<Rightarrow> links option" where
  "list_insert_ordered l x lt h = do {
     ASSERT (l \<noteq> NULL);
     ASSERT (x \<noteq> NULL);
     b \<leftarrow> list_begin h l;
     fin \<leftarrow> list_end l;
     e \<leftarrow> insert_pos_loop lt x h b fin;
     list_insert e x h
   }"

partial_function (option) list_max_loop ::
  "(addr \<Rightarrow> addr \<Rightarrow> bool) \<Rightarrow> links \<Rightarrow> addr \<Rightarrow> addr \<Rightarrow> addr \<Rightarrow> addr option" where
  "list_max_loop lt h m e fin =
     (if e = fin then Some m
      else do { e' \<leftarrow> list_next h e;
                list_max_loop lt h (if lt m e then e else m) e' fin })"

definition list_max :: "addr \<Rightarrow> (addr \<Rightarrow> addr \<Rightarrow> bool) \<Rightarrow> links \<Rightarrow> addr option" where
  "list_max l lt h = do {
     m \<leftarrow> list_begin h l;
     fin \<leftarrow> list_end l;
     if m \<noteq> fin then do { e \<leftarrow> list_next h m; list_max_loop lt h m e fin } else Some m
   }"

partial_function (option) list_min_loop ::
  "(addr \<Rightarrow> addr \<Rightarrow> bool) \<Rightarrow> links \<Rightarrow> addr \<Rightarrow> addr \<Rightarrow> addr \<Rightarrow> addr option" where
  "list_min_loop lt h m e fin =
     (if e = fin then Some m
      else do { e' \<leftarrow> list_next h e;
                list_min_loop lt h (if lt e m then e else m) e' fin })"

definition list_min :: "addr \<Rightarrow> (addr \<Rightarrow> addr \<Rightarrow> bool) \<Rightarrow> links \<Rightarrow> addr option" where
  "list_min l lt h = do {
     m \<leftarrow> list_begin h l;
     fin \<leftarrow> list_end l;
     if m \<noteq> fin then do { e \<leftarrow> list_next h m; list_min_loop lt h m e fin } else Some m
   }"


section \<open>The list a heap represents\<close>

fun linked :: "links \<Rightarrow> addr list \<Rightarrow> bool" where
  "linked h [] \<longleftrightarrow> True"
| "linked h [a] \<longleftrightarrow> True"
| "linked h (a # b # r) \<longleftrightarrow> link_next h a = b \<and> link_prev h b = a \<and> linked h (b # r)"

text \<open>
  A chain is a whole list with its two header elements: distinct non-null elements, linked
  both ways, null outside the ends.
\<close>

definition chain :: "links \<Rightarrow> addr list \<Rightarrow> bool" where
  "chain h ys \<longleftrightarrow> distinct ys \<and> NULL \<notin> set ys \<and> linked h ys \<and>
     link_prev h (hd ys) = NULL \<and> link_next h (last ys) = NULL"

definition nodes :: "addr \<Rightarrow> addr list \<Rightarrow> addr list" where
  "nodes l xs = list_head l # xs @ [list_tail l]"

definition list_rep :: "links \<Rightarrow> addr \<Rightarrow> addr list \<Rightarrow> bool" where
  "list_rep h l xs \<longleftrightarrow> chain h (nodes l xs)"

lemma link_sel_upd [simp]:
  "link_next (set_prev e v h) = link_next h"
  "link_prev (set_prev e v h) = (link_prev h)(e := v)"
  "link_prev (set_next e v h) = link_prev h"
  "link_next (set_next e v h) = (link_next h)(e := v)"
  by (simp_all add: set_prev_def set_next_def)

lemma linked_append:
  "linked h (xs @ y # ys) \<longleftrightarrow> linked h (xs @ [y]) \<and> linked h (y # ys)"
proof (induction xs)
  case Nil
  then show ?case by simp
next
  case (Cons x xs)
  then show ?case by (cases xs) auto
qed

lemma linked_snoc2:
  "linked h (xs @ [a, b]) \<longleftrightarrow> linked h (xs @ [a]) \<and> link_next h a = b \<and> link_prev h b = a"
  using linked_append [of h xs a "[b]"] by simp

text \<open>\<open>linked\<close> reads the next field of all but the last and the previous field of all but the first.\<close>

lemma linked_cong:
  "(\<And>a. a \<in> set (butlast ys) \<Longrightarrow> link_next h' a = link_next h a) \<Longrightarrow>
   (\<And>a. a \<in> set (tl ys) \<Longrightarrow> link_prev h' a = link_prev h a) \<Longrightarrow>
     linked h' ys = linked h ys"
proof (induction ys rule: linked.induct)
  case (3 h a b r)
  have "linked h' (b # r) = linked h (b # r)"
  proof (rule "3.IH")
    show "link_next h' x = link_next h x" if "x \<in> set (butlast (b # r))" for x
      using "3.prems"(1) [of x] that by simp
    show "link_prev h' x = link_prev h x" if "x \<in> set (tl (b # r))" for x
      using "3.prems"(2) [of x] that by simp
  qed
  moreover have "link_next h' a = link_next h a" "link_prev h' b = link_prev h b"
    using "3.prems"(1) [of a] "3.prems"(2) [of b] by auto
  ultimately show ?case by simp
qed auto

lemma linked_cong_left:
  "(\<And>a. a \<in> set P \<Longrightarrow> link_next h' a = link_next h a) \<Longrightarrow>
   (\<And>a. a \<in> set (P @ [p]) \<Longrightarrow> link_prev h' a = link_prev h a) \<Longrightarrow>
     linked h' (P @ [p]) = linked h (P @ [p])"
  by (rule linked_cong) (auto dest: list.set_sel(2) [rotated])

lemma linked_cong_right:
  "(\<And>a. a \<in> set (q # S) \<Longrightarrow> link_next h' a = link_next h a) \<Longrightarrow>
   (\<And>a. a \<in> set S \<Longrightarrow> link_prev h' a = link_prev h a) \<Longrightarrow>
     linked h' (q # S) = linked h (q # S)"
  by (rule linked_cong) (auto dest: in_set_butlastD split: if_splits)

lemma linked_neighbours:
  "linked h (P @ a # b # S) \<Longrightarrow> link_next h a = b \<and> link_prev h b = a"
  using linked_append [of h P a "b # S"] by simp

lemma hd_snoc2: "hd (P @ [p, e]) = hd (P @ [p])"
  by (cases P) auto

lemma chain_split:
  "chain h (P @ p # q # S) \<longleftrightarrow>
     distinct (P @ p # q # S) \<and> NULL \<notin> set (P @ p # q # S) \<and>
     linked h (P @ [p]) \<and> linked h (q # S) \<and> link_next h p = q \<and> link_prev h q = p \<and>
     link_prev h (hd (P @ [p])) = NULL \<and> link_next h (last (q # S)) = NULL"
  using linked_append [of h P p "q # S"] linked_snoc2 [of h P p q]
  unfolding chain_def by (cases P) auto

text \<open>Every element of a chain but the first has a predecessor; all but the last a successor.\<close>

lemma chain_interior:
  "chain h (P @ p # e # q # S) \<Longrightarrow> is_interior h e \<and> link_prev h e = p \<and> link_next h e = q"
  using linked_neighbours [of h P p e "q # S"] linked_neighbours [of h "P @ [p]" e q S]
  by (simp add: chain_def is_interior_def)

lemma chain_tail:
  "chain h (P @ [p, t]) \<Longrightarrow> is_tail h t \<and> link_prev h t = p"
  using linked_neighbours [of h P p t "[]"] by (simp add: chain_def is_tail_def)

lemma chain_head:
  "chain h (a # q # S) \<Longrightarrow> is_head h a \<and> link_next h a = q"
  by (simp add: chain_def is_head_def)

lemma chain_has_prev:
  "chain h (P @ p # b # S) \<Longrightarrow> (is_interior h b \<or> is_tail h b) \<and> link_prev h b = p"
  using chain_tail [of h P p b] chain_interior [of h P p b "hd S" "tl S"] by (cases S) simp_all

lemma chain_has_next:
  "chain h (P @ b # q # S) \<Longrightarrow> (is_head h b \<or> is_interior h b) \<and> link_next h b = q"
proof (cases P rule: rev_cases)
  case Nil
  assume "chain h (P @ b # q # S)"
  with Nil chain_head [of h b q S] show ?thesis by simp
next
  case (snoc P' p)
  assume "chain h (P @ b # q # S)"
  with snoc chain_interior [of h P' p b q S] show ?thesis by simp
qed

text \<open>A chain is not affected by changes outside it.\<close>

lemma chain_frame:
  "chain h ys \<Longrightarrow> ys \<noteq> [] \<Longrightarrow>
   (\<And>a. a \<in> set ys \<Longrightarrow> link_next h' a = link_next h a \<and> link_prev h' a = link_prev h a) \<Longrightarrow>
     chain h' ys"
  unfolding chain_def using linked_cong [of ys h' h]
  by (auto dest: in_set_butlastD list.set_sel(2))

section \<open>Insertion and removal on chains\<close>

lemma list_insert_chain:
  assumes ch: "chain h (P @ p # b # S)" and e: "e \<notin> set (P @ p # b # S)" "e \<noteq> NULL"
  shows "\<exists>h'. list_insert b e h = Some h' \<and> chain h' (P @ p # e # b # S) \<and>
    (\<forall>a. a \<notin> {p, e, b} \<longrightarrow> link_next h' a = link_next h a \<and> link_prev h' a = link_prev h a)"
proof -
  let ?h = "set_prev b e (set_next p e (set_next e b (set_prev e p h)))"
  have pre: "is_interior h b \<or> is_tail h b" "link_prev h b = p" using chain_has_prev [OF ch] by auto
  note sp = ch [unfolded chain_split]
  have "linked ?h (P @ [p]) = linked h (P @ [p])"
    by (rule linked_cong_left) (use sp e in auto)
  moreover have "linked ?h (b # S) = linked h (b # S)"
    by (rule linked_cong_right) (use sp e in auto)
  moreover have "hd (P @ [p]) \<noteq> e \<and> hd (P @ [p]) \<noteq> b" using sp e by (cases P) auto
  moreover have "last (b # S) \<noteq> e \<and> last (b # S) \<noteq> p"
    using sp e by (cases S rule: rev_cases) auto
  ultimately have "chain ?h ((P @ [p]) @ e # b # S)"
    unfolding chain_split using sp e by (auto simp: linked_snoc2 hd_snoc2)
  then have "chain ?h (P @ p # e # b # S)" by simp
  moreover have "list_insert b e h = Some ?h"
    using pre e sp by (simp add: list_insert_def Let_def)
  ultimately show ?thesis by auto
qed

lemma list_remove_chain:
  assumes ch: "chain h (P @ p # e # q # S)"
  shows "\<exists>h'. list_remove e h = Some (q, h') \<and> chain h' (P @ p # q # S) \<and>
    (\<forall>a. a \<notin> {p, q} \<longrightarrow> link_next h' a = link_next h a \<and> link_prev h' a = link_prev h a)"
proof -
  let ?h = "set_prev q p (set_next p q h)"
  have int: "is_interior h e" "link_prev h e = p" "link_next h e = q"
    using chain_interior [OF ch] by auto
  note sp = ch [unfolded chain_split]
  have lq: "linked h (q # S)" using sp by (cases S) auto
  have "linked ?h (P @ [p]) = linked h (P @ [p])"
    by (rule linked_cong_left) (use sp in auto)
  moreover have "linked ?h (q # S) = linked h (q # S)"
    by (rule linked_cong_right) (use sp in auto)
  moreover have "hd (P @ [p]) \<noteq> q" using sp by (cases P) auto
  moreover have "last (q # S) \<noteq> p" using sp by (cases S rule: rev_cases) auto
  ultimately have "chain ?h (P @ p # q # S)"
    unfolding chain_split using sp lq by auto
  moreover have "list_remove e h = Some (q, ?h)"
    using int sp by (auto simp: list_remove_def Let_def)
  ultimately show ?thesis by auto
qed


section \<open>What the operations do to the represented list\<close>

definition unchanged :: "addr set \<Rightarrow> links \<Rightarrow> links \<Rightarrow> bool" where
  "unchanged A h h' \<longleftrightarrow>
     (\<forall>a. a \<notin> A \<longrightarrow> link_next h' a = link_next h a \<and> link_prev h' a = link_prev h a)"

lemma unchanged_refl [simp]: "unchanged A h h"
  by (simp add: unchanged_def)

lemma unchanged_trans: "unchanged A h h' \<Longrightarrow> unchanged B h' h'' \<Longrightarrow> unchanged (A \<union> B) h h''"
  by (simp add: unchanged_def)

lemma unchanged_mono: "unchanged A h h' \<Longrightarrow> A \<subseteq> B \<Longrightarrow> unchanged B h h'"
  by (auto simp: unchanged_def)

lemma set_nodes [simp]: "set (nodes l xs) = {list_head l, list_tail l} \<union> set xs"
  by (auto simp: nodes_def)

lemma list_rep_frame:
  "list_rep h l xs \<Longrightarrow> unchanged A h h' \<Longrightarrow> set (nodes l xs) \<inter> A = {} \<Longrightarrow> list_rep h' l xs"
  unfolding list_rep_def unchanged_def
  by (erule chain_frame) (simp add: nodes_def, blast)

lemma list_rep_distinct:
  "list_rep h l xs \<Longrightarrow> distinct xs \<and> list_head l \<notin> set xs \<and> list_tail l \<notin> set xs \<and>
     NULL \<notin> set xs \<and> l \<noteq> NULL"
  by (auto simp: list_rep_def chain_def nodes_def list_head_def)

lemma list_rep_not_NULL [dest]: "list_rep h l xs \<Longrightarrow> l \<noteq> NULL"
  by (simp add: list_rep_distinct)

lemma list_init_rep:
  "l \<noteq> NULL \<Longrightarrow>
     \<exists>h'. list_init l h = Some h' \<and> list_rep h' l [] \<and> unchanged (set (nodes l [])) h h'"
  by (auto simp: list_init_def list_rep_def chain_def nodes_def unchanged_def list_head_def
      list_tail_def sizeof_list_elem_def Let_def)

text \<open>The first element from a point on, or the tail.\<close>

abbreviation first_of :: "addr \<Rightarrow> addr list \<Rightarrow> addr" where
  "first_of l ys \<equiv> hd (ys @ [list_tail l])"

lemma nodes_split:
  "\<exists>S. nodes l (xs @ e # ys) = (list_head l # xs) @ e # first_of l ys # S"
  "\<exists>S. nodes l xs = list_head l # first_of l xs # S"
  by (cases ys; simp add: nodes_def) (cases xs; simp add: nodes_def)

lemma nodes_split_prev:
  "\<exists>P S. nodes l (xs @ ys) = P @ last (list_head l # xs) # first_of l ys # S \<and>
     P = butlast (list_head l # xs) \<and> S = tl (ys @ [list_tail l])"
proof -
  have "list_head l # xs = butlast (list_head l # xs) @ [last (list_head l # xs)]" by simp
  moreover have "ys @ [list_tail l] = first_of l ys # tl (ys @ [list_tail l])" by simp
  moreover have "nodes l (xs @ ys) = (list_head l # xs) @ (ys @ [list_tail l])"
    by (simp add: nodes_def)
  ultimately show ?thesis by (metis append.assoc append_Cons append_Nil)
qed

lemma list_begin_rep: "list_rep h l xs \<Longrightarrow> list_begin h l = Some (first_of l xs)"
proof -
  assume r: "list_rep h l xs"
  obtain S where "nodes l xs = list_head l # first_of l xs # S" using nodes_split(2) by blast
  with r have "link_next h (list_head l) = first_of l xs"
    unfolding list_rep_def by (metis chain_head)
  with list_rep_not_NULL [OF r] show ?thesis by (simp add: list_begin_def)
qed

lemma list_next_rep: "list_rep h l (xs @ e # ys) \<Longrightarrow> list_next h e = Some (first_of l ys)"
proof -
  assume r: "list_rep h l (xs @ e # ys)"
  obtain S where "nodes l (xs @ e # ys) = (list_head l # xs) @ e # first_of l ys # S"
    using nodes_split(1) by blast
  with r have "(is_head h e \<or> is_interior h e) \<and> link_next h e = first_of l ys"
    unfolding list_rep_def by (metis chain_has_next)
  then show ?thesis by (simp add: list_next_def)
qed

lemma list_prev_rep:
  "list_rep h l (xs @ ys) \<Longrightarrow> list_prev h (first_of l ys) = Some (last (list_head l # xs))"
proof -
  assume r: "list_rep h l (xs @ ys)"
  obtain P S where "nodes l (xs @ ys) = P @ last (list_head l # xs) # first_of l ys # S"
    using nodes_split_prev by blast
  with r have "(is_interior h (first_of l ys) \<or> is_tail h (first_of l ys)) \<and>
      link_prev h (first_of l ys) = last (list_head l # xs)"
    unfolding list_rep_def by (metis chain_has_prev)
  then show ?thesis by (simp add: list_prev_def)
qed

lemma list_end_rep: "list_rep h l xs \<Longrightarrow> list_end l = Some (list_tail l)"
  by (drule list_rep_not_NULL) (simp add: list_end_def)

lemma first_of_tail: "list_rep h l (xs @ ys) \<Longrightarrow> first_of l ys = list_tail l \<longleftrightarrow> ys = []"
  using list_rep_distinct [of h l "xs @ ys"] by (cases ys) auto

lemma list_empty_rep: "list_rep h l xs \<Longrightarrow> list_empty h l = Some (xs = [])"
  using first_of_tail [of h l "[]" xs] by (simp add: list_empty_def list_begin_rep list_end_rep)

lemma list_front_rep: "list_rep h l (x # xs) \<Longrightarrow> list_front h l = Some x"
  using list_begin_rep [of h l "x # xs"]
  by (auto simp: list_front_def list_empty_rep list_begin_def bind_eq_Some_conv ASSERT_def
      split: if_splits)

lemma list_back_rep: "list_rep h l (xs @ [x]) \<Longrightarrow> list_back h l = Some x"
  using list_prev_rep [of h l "xs @ [x]" "[]"]
  by (auto simp: list_back_def list_empty_rep list_prev_def)

lemma list_insert_rep:
  assumes r: "list_rep h l (xs @ ys)" and e: "e \<notin> set (nodes l (xs @ ys))" "e \<noteq> NULL"
  shows "\<exists>h'. list_insert (first_of l ys) e h = Some h' \<and> list_rep h' l (xs @ e # ys) \<and>
     unchanged (set (nodes l (e # xs @ ys))) h h'"
proof -
  obtain P S where n: "nodes l (xs @ ys) = P @ last (list_head l # xs) # first_of l ys # S"
    and P: "P = butlast (list_head l # xs)" and S: "S = tl (ys @ [list_tail l])"
    using nodes_split_prev by blast
  have n': "nodes l (xs @ e # ys) = P @ last (list_head l # xs) # e # first_of l ys # S"
    using P S append_butlast_last_id [of "list_head l # xs"]
    by (simp add: nodes_def)
  have mem: "last (list_head l # xs) \<in> set (nodes l (xs @ ys))"
    "first_of l ys \<in> set (nodes l (xs @ ys))" by (auto simp only: n set_append list.set Un_iff insert_iff)
  have "e \<notin> set (P @ last (list_head l # xs) # first_of l ys # S)" using e(1) unfolding n .
  then obtain h' where ins: "list_insert (first_of l ys) e h = Some h'"
    and rep: "list_rep h' l (xs @ e # ys)"
    and un: "\<forall>a. a \<notin> {last (list_head l # xs), e, first_of l ys} \<longrightarrow>
      link_next h' a = link_next h a \<and> link_prev h' a = link_prev h a"
    using list_insert_chain [OF r [unfolded list_rep_def n]] e(2) unfolding list_rep_def n' by blast
  have "set (nodes l (e # xs @ ys)) = insert e (set (nodes l (xs @ ys)))" by auto
  with un mem have "unchanged (set (nodes l (e # xs @ ys))) h h'"
    unfolding unchanged_def by (metis insertE insertI1 insertI2 singletonD)
  with ins rep show ?thesis by blast
qed

lemma list_remove_rep:
  assumes r: "list_rep h l (xs @ e # ys)"
  shows "\<exists>h'. list_remove e h = Some (first_of l ys, h') \<and> list_rep h' l (xs @ ys) \<and>
     unchanged (set (nodes l (xs @ ys))) h h'"
proof -
  obtain P S where n: "nodes l (xs @ ys) = P @ last (list_head l # xs) # first_of l ys # S"
    and P: "P = butlast (list_head l # xs)" and S: "S = tl (ys @ [list_tail l])"
    using nodes_split_prev by blast
  have n': "nodes l (xs @ e # ys) = P @ last (list_head l # xs) # e # first_of l ys # S"
    using P S append_butlast_last_id [of "list_head l # xs"]
    by (simp add: nodes_def)
  have mem: "last (list_head l # xs) \<in> set (nodes l (xs @ ys))"
    "first_of l ys \<in> set (nodes l (xs @ ys))" by (auto simp only: n set_append list.set Un_iff insert_iff)
  obtain h' where rem: "list_remove e h = Some (first_of l ys, h')" and rep: "list_rep h' l (xs @ ys)"
    and un: "\<forall>a. a \<notin> {last (list_head l # xs), first_of l ys} \<longrightarrow>
      link_next h' a = link_next h a \<and> link_prev h' a = link_prev h a"
    using list_remove_chain [OF r [unfolded list_rep_def n']] unfolding list_rep_def n by blast
  from un mem have "unchanged (set (nodes l (xs @ ys))) h h'"
    unfolding unchanged_def by (metis insertE singletonD)
  with rem rep show ?thesis by blast
qed


lemma list_push_front_rep:
  "list_rep h l xs \<Longrightarrow> e \<notin> set (nodes l xs) \<Longrightarrow> e \<noteq> NULL \<Longrightarrow>
     \<exists>h'. list_push_front l e h = Some h' \<and> list_rep h' l (e # xs) \<and>
       unchanged (set (nodes l (e # xs))) h h'"
  using list_insert_rep [of h l "[]" xs e]
  by (simp add: list_push_front_def list_begin_rep)

lemma list_push_back_rep:
  "list_rep h l xs \<Longrightarrow> e \<notin> set (nodes l xs) \<Longrightarrow> e \<noteq> NULL \<Longrightarrow>
     \<exists>h'. list_push_back l e h = Some h' \<and> list_rep h' l (xs @ [e]) \<and>
       unchanged (set (nodes l (e # xs))) h h'"
  using list_insert_rep [of h l xs "[]" e]
  by (simp add: list_push_back_def list_end_rep)

lemma list_pop_front_rep:
  "list_rep h l (x # xs) \<Longrightarrow>
     \<exists>h'. list_pop_front l h = Some (x, h') \<and> list_rep h' l xs \<and> unchanged (set (nodes l xs)) h h'"
  using list_remove_rep [of h l "[]" x xs]
  by (auto simp: list_pop_front_def list_front_rep)

lemma list_pop_back_rep:
  "list_rep h l (xs @ [x]) \<Longrightarrow>
     \<exists>h'. list_pop_back l h = Some (x, h') \<and> list_rep h' l xs \<and> unchanged (set (nodes l xs)) h h'"
  using list_remove_rep [of h l xs x "[]"]
  by (auto simp: list_pop_back_def list_back_rep)

text \<open>Popping an empty list trips the assertion of \<^verbatim>\<open>list_front\<close> and \<^verbatim>\<open>list_back\<close>.\<close>

lemma list_pop_empty:
  "list_rep h l [] \<Longrightarrow> list_pop_front l h = None \<and> list_pop_back l h = None"
  by (simp add: list_pop_front_def list_pop_back_def list_front_def list_back_def list_empty_rep)

lemma first_of_not_tail:
  "list_rep h l (xs @ y # ys) \<Longrightarrow> y \<noteq> list_tail l"
  by (drule list_rep_distinct) auto

lemma list_size_loop_rep:
  "list_rep h l (xs @ ys) \<Longrightarrow>
     list_size_loop h (first_of l ys) (list_tail l) cnt = Some (cnt + length ys)"
proof (induction ys arbitrary: xs cnt)
  case Nil
  then show ?case by (simp add: list_size_loop.simps)
next
  case (Cons y ys)
  have "list_size_loop h (first_of l ys) (list_tail l) (cnt + 1) = Some (cnt + 1 + length ys)"
    by (rule Cons.IH [of "xs @ [y]"]) (use Cons.prems in simp)
  then show ?case
    using list_next_rep [OF Cons.prems] first_of_not_tail [OF Cons.prems]
    by (simp add: list_size_loop.simps)
qed

lemma list_size_rep: "list_rep h l xs \<Longrightarrow> list_size h l = Some (length xs)"
  using list_size_loop_rep [of h l "[]" xs 0]
  by (simp add: list_size_def list_begin_rep list_end_rep)

lemma insert_pos_loop_rep:
  "list_rep h l (xs @ ys) \<Longrightarrow>
     insert_pos_loop lt x h (first_of l ys) (list_tail l) =
       Some (first_of l (dropWhile (\<lambda>y. \<not> lt x y) ys))"
proof (induction ys arbitrary: xs)
  case Nil
  then show ?case by (simp add: insert_pos_loop.simps)
next
  case (Cons y ys)
  have "insert_pos_loop lt x h (first_of l ys) (list_tail l) =
      Some (first_of l (dropWhile (\<lambda>y. \<not> lt x y) ys))"
    by (rule Cons.IH [of "xs @ [y]"]) (use Cons.prems in simp)
  then show ?case
    using list_next_rep [OF Cons.prems] first_of_not_tail [OF Cons.prems]
    by (simp add: insert_pos_loop.simps)
qed

lemma list_insert_ordered_rep:
  assumes r: "list_rep h l xs" and e: "e \<notin> set (nodes l xs)" "e \<noteq> NULL"
  shows "\<exists>h'. list_insert_ordered l e lt h = Some h' \<and> list_rep h' l (insert_ordered lt e xs) \<and>
     unchanged (set (nodes l (e # xs))) h h'"
proof -
  let ?t = "takeWhile (\<lambda>y. \<not> lt e y) xs" and ?d = "dropWhile (\<lambda>y. \<not> lt e y) xs"
  have td: "?t @ ?d = xs" by simp
  have "insert_pos_loop lt e h (first_of l xs) (list_tail l) = Some (first_of l ?d)"
    using insert_pos_loop_rep [of h l "[]" xs lt e] r by simp
  then have "list_insert_ordered l e lt h = list_insert (first_of l ?d) e h"
    using r e list_rep_not_NULL [OF r]
    by (simp add: list_insert_ordered_def list_begin_rep list_end_rep)
  moreover have "\<exists>h'. list_insert (first_of l ?d) e h = Some h' \<and> list_rep h' l (?t @ e # ?d) \<and>
      unchanged (set (nodes l (e # ?t @ ?d))) h h'"
    by (rule list_insert_rep) (use r e in \<open>simp_all only: td, simp_all\<close>)
  ultimately show ?thesis by (simp only: insert_ordered_def td) 
qed

lemma list_min_loop_rep:
  "list_rep h l (xs @ ys) \<Longrightarrow>
     list_min_loop lt h m (first_of l ys) (list_tail l) = Some (first_min lt m ys)"
proof (induction ys arbitrary: xs m)
  case Nil
  then show ?case by (simp add: list_min_loop.simps)
next
  case (Cons y ys)
  have "list_min_loop lt h m' (first_of l ys) (list_tail l) = Some (first_min lt m' ys)" for m'
    by (rule Cons.IH [of "xs @ [y]"]) (use Cons.prems in simp)
  then show ?case
    using list_next_rep [OF Cons.prems] first_of_not_tail [OF Cons.prems]
    by (subst list_min_loop.simps) simp
qed

lemma list_max_loop_rep:
  "list_rep h l (xs @ ys) \<Longrightarrow>
     list_max_loop lt h m (first_of l ys) (list_tail l) = Some (first_max lt m ys)"
proof (induction ys arbitrary: xs m)
  case Nil
  then show ?case by (simp add: list_max_loop.simps)
next
  case (Cons y ys)
  have "list_max_loop lt h m' (first_of l ys) (list_tail l) = Some (first_max lt m' ys)" for m'
    by (rule Cons.IH [of "xs @ [y]"]) (use Cons.prems in simp)
  then show ?case
    using list_next_rep [OF Cons.prems] first_of_not_tail [OF Cons.prems]
    by (subst list_max_loop.simps) simp
qed

lemma list_min_rep:
  "list_rep h l xs \<Longrightarrow>
     list_min l lt h = Some (case xs of [] \<Rightarrow> list_tail l | x # xs' \<Rightarrow> first_min lt x xs')"
  using list_min_loop_rep [of h l "[hd xs]" "tl xs"] list_next_rep [of h l "[]" "hd xs" "tl xs"]
    first_of_tail [of h l "[]" xs]
  by (cases xs) (simp_all add: list_min_def list_begin_rep list_end_rep)

lemma list_max_rep:
  "list_rep h l xs \<Longrightarrow>
     list_max l lt h = Some (case xs of [] \<Rightarrow> list_tail l | x # xs' \<Rightarrow> first_max lt x xs')"
  using list_max_loop_rep [of h l "[hd xs]" "tl xs"] list_next_rep [of h l "[]" "hd xs" "tl xs"]
    first_of_tail [of h l "[]" xs]
  by (cases xs) (simp_all add: list_max_def list_begin_rep list_end_rep)


section \<open>The interface its clients rely on\<close>

text \<open>
  What the kernel's queues ask of the list: a priority queue is fed by \<^verbatim>\<open>list_insert_ordered\<close> or
  \<^verbatim>\<open>list_push_back\<close> and served by \<^verbatim>\<open>list_pop_front\<close>. The clients' lemmas are proved from the
  laws alone; the interpretation below discharges the laws for the pointer programs.
\<close>

primrec insert_all :: "('e \<Rightarrow> 'h \<Rightarrow> 'h option) \<Rightarrow> 'e list \<Rightarrow> 'h \<Rightarrow> 'h option" where
  "insert_all ins [] h = Some h"
| "insert_all ins (e # es) h = do { h' \<leftarrow> ins e h; insert_all ins es h' }"

primrec pop_all :: "('h \<Rightarrow> ('e \<times> 'h) option) \<Rightarrow> nat \<Rightarrow> 'h \<Rightarrow> ('e list \<times> 'h) option" where
  "pop_all pop 0 h = Some ([], h)"
| "pop_all pop (Suc n) h = do { (e, h') \<leftarrow> pop h; (es, h'') \<leftarrow> pop_all pop n h'; Some (e # es, h'') }"

locale kernel_list =
  fixes rep :: "'h \<Rightarrow> 'l \<Rightarrow> 'e list \<Rightarrow> bool"
    and fresh :: "'l \<Rightarrow> 'e list \<Rightarrow> 'e \<Rightarrow> bool"
    and push_back :: "'l \<Rightarrow> 'e \<Rightarrow> 'h \<Rightarrow> 'h option"
    and insert_ord :: "'l \<Rightarrow> 'e \<Rightarrow> ('e \<Rightarrow> 'e \<Rightarrow> bool) \<Rightarrow> 'h \<Rightarrow> 'h option"
    and pop_front :: "'l \<Rightarrow> 'h \<Rightarrow> ('e \<times> 'h) option"
  assumes push_back: "rep h l xs \<Longrightarrow> fresh l xs e \<Longrightarrow>
      \<exists>h'. push_back l e h = Some h' \<and> rep h' l (xs @ [e])"
    and insert_ord: "rep h l xs \<Longrightarrow> fresh l xs e \<Longrightarrow>
      \<exists>h'. insert_ord l e lt h = Some h' \<and> rep h' l (insert_ordered lt e xs)"
    and pop_front: "rep h l (x # xs) \<Longrightarrow> \<exists>h'. pop_front l h = Some (x, h') \<and> rep h' l xs"
    and fresh_set: "fresh l xs e \<Longrightarrow> set ys \<subseteq> insert d (set xs) \<Longrightarrow> e \<noteq> d \<Longrightarrow> fresh l ys e"
begin

lemma pop_all_order: "rep h l xs \<Longrightarrow> \<exists>h'. pop_all (pop_front l) (length xs) h = Some (xs, h') \<and> rep h' l []"
proof (induction xs arbitrary: h)
  case (Cons x xs)
  obtain h1 where "pop_front l h = Some (x, h1)" "rep h1 l xs" using pop_front [OF Cons.prems] by blast
  with Cons.IH show ?case by force
qed simp

lemma push_back_all:
  "rep h l xs \<Longrightarrow> distinct es \<Longrightarrow> (\<And>e. e \<in> set es \<Longrightarrow> fresh l xs e) \<Longrightarrow>
     \<exists>h'. insert_all (push_back l) es h = Some h' \<and> rep h' l (xs @ es)"
proof (induction es arbitrary: h xs)
  case (Cons e es)
  obtain h1 where h1: "push_back l e h = Some h1" "rep h1 l (xs @ [e])"
    using push_back [of h l xs e] Cons.prems by auto
  have "fresh l (xs @ [e]) d" if "d \<in> set es" for d
    by (rule fresh_set [of l xs d _ e]) (use Cons.prems(2,3) that in auto)
  with Cons.IH [OF h1(2)] Cons.prems(2) h1(1) show ?case by auto
qed simp

lemma insert_ord_all:
  "rep h l xs \<Longrightarrow> distinct es \<Longrightarrow> (\<And>e. e \<in> set es \<Longrightarrow> fresh l xs e) \<Longrightarrow>
     \<exists>h'. insert_all (\<lambda>e. insert_ord l e lt) es h = Some h' \<and> rep h' l (fold (insert_ordered lt) es xs)"
proof (induction es arbitrary: h xs)
  case (Cons e es)
  obtain h1 where h1: "insert_ord l e lt h = Some h1" "rep h1 l (insert_ordered lt e xs)"
    using insert_ord [of h l xs e] Cons.prems by auto
  have "fresh l (insert_ordered lt e xs) d" if "d \<in> set es" for d
    by (rule fresh_set [of l xs d _ e]) (use Cons.prems(2,3) that in auto)
  with Cons.IH [OF h1(2)] Cons.prems(2) h1(1) show ?case by auto
qed simp

text \<open>A queue fed by ordered insertion is served in order.\<close>

lemma ordered_service:
  assumes "less_func lt" and "rep h l []" and "distinct es" and "\<And>e. e \<in> set es \<Longrightarrow> fresh l [] e"
  shows "\<exists>h' zs h''. insert_all (\<lambda>e. insert_ord l e lt) es h = Some h' \<and>
    pop_all (pop_front l) (length es) h' = Some (zs, h'') \<and> mset zs = mset es \<and> in_order lt zs"
proof -
  let ?zs = "fold (insert_ordered lt) es []"
  have gen: "mset (fold (insert_ordered lt) es xs) = mset es + mset xs \<and>
      (in_order lt xs \<longrightarrow> in_order lt (fold (insert_ordered lt) es xs))" for xs
    by (induction es arbitrary: xs) (auto simp: less_func.insert_ordered_in_order [OF assms(1)])
  obtain h' where "insert_all (\<lambda>e. insert_ord l e lt) es h = Some h'" "rep h' l ?zs"
    using insert_ord_all [OF assms(2-4)] by blast
  moreover have "length ?zs = length es" using gen [of "[]"] by (metis add_0_right mset.simps(1) size_mset)
  ultimately show ?thesis using pop_all_order [of h' l ?zs] gen [of "[]"] by auto
qed

end

definition fresh_elem :: "addr \<Rightarrow> addr list \<Rightarrow> addr \<Rightarrow> bool" where
  "fresh_elem l xs e \<longleftrightarrow> e \<notin> set (nodes l xs) \<and> e \<noteq> NULL"

interpretation kl: kernel_list list_rep fresh_elem list_push_back list_insert_ordered list_pop_front
proof unfold_locales
  fix h l xs e
  assume "list_rep h l xs" "fresh_elem l xs e"
  then show "\<exists>h'. list_push_back l e h = Some h' \<and> list_rep h' l (xs @ [e])"
    and "\<exists>h'. list_insert_ordered l e lt h = Some h' \<and> list_rep h' l (insert_ordered lt e xs)" for lt
    using list_push_back_rep [of h l xs e] list_insert_ordered_rep [of h l xs e lt]
    by (auto simp: fresh_elem_def)
next
  fix h l x xs
  assume "list_rep h l (x # xs)"
  then show "\<exists>h'. list_pop_front l h = Some (x, h') \<and> list_rep h' l xs"
    using list_pop_front_rep by blast
qed (auto simp: fresh_elem_def)

section \<open>Properties\<close>

text \<open>A concrete heap for the witnesses: the list at 100 holding the elements 300, 200 and 400.\<close>

definition demo_links :: links where
  "demo_links = \<lparr>link_prev = (\<lambda>_. 0)(108 := 400, 400 := 200, 200 := 300, 300 := 100),
     link_next = (\<lambda>_. 0)(100 := 300, 300 := 200, 200 := 400, 400 := 108)\<rparr>"

lemma demo_links_rep: "list_rep demo_links 100 [300, 200, 400]"
  by (simp add: list_rep_def chain_def nodes_def demo_links_def list_head_def list_tail_def
      sizeof_list_elem_def)

definition demo_empty :: links where
  "demo_empty = \<lparr>link_prev = (\<lambda>_. 0)(108 := 100), link_next = (\<lambda>_. 0)(100 := 108)\<rparr>"

lemma demo_empty_rep: "list_rep demo_empty 100 []"
  by (simp add: list_rep_def chain_def nodes_def demo_empty_def list_head_def list_tail_def
      sizeof_list_elem_def)

text \<open>
  The kernel's priority queues. Elements put into an initialised list one by one with
  \<^verbatim>\<open>list_insert_ordered\<close>, whatever their order, come out of repeated \<^verbatim>\<open>list_pop_front\<close> in
  the order of the comparison function, each exactly once; no assertion on the way fails.
\<close>

lemma ordered_queue_service:
  assumes "less_func lt" and "list_rep h l []" and "distinct es"
    and "\<And>e. e \<in> set es \<Longrightarrow> e \<noteq> NULL \<and> e \<noteq> list_head l \<and> e \<noteq> list_tail l"
  shows "\<exists>h' zs h''. insert_all (\<lambda>e. list_insert_ordered l e lt) es h = Some h' \<and>
    pop_all (list_pop_front l) (length es) h' = Some (zs, h'') \<and> mset zs = mset es \<and> in_order lt zs"
  by (rule kl.ordered_service [OF assms(1-3)]) (use assms(4) in \<open>simp add: fresh_elem_def\<close>)

lemma ordered_queue_service_witness:
  "\<exists>h' zs h''. insert_all (\<lambda>e. list_insert_ordered 100 e (<)) [300, 200, 400] demo_empty = Some h' \<and>
    pop_all (list_pop_front 100) (length [300, 200, 400 :: nat]) h' = Some (zs, h'') \<and>
    mset zs = mset [300, 200, 400] \<and> in_order (<) zs"
  by (rule ordered_queue_service [OF less_func_key [of "\<lambda>x. x"] demo_empty_rep])
    (auto simp: list_head_def list_tail_def sizeof_list_elem_def)

text \<open>
  \<^verbatim>\<open>list_remove\<close> takes exactly the given element out, keeps the order of the others and
  returns the element that followed; and putting it back in front of that element with
  \<^verbatim>\<open>list_insert\<close> restores the list. Neither touches memory outside the list.
\<close>

theorem list_remove_insert:
  assumes "list_rep h l (xs @ e # ys)"
  shows "\<exists>p h1 h2. list_remove e h = Some (p, h1) \<and> p = first_of l ys \<and> list_rep h1 l (xs @ ys) \<and>
    list_insert p e h1 = Some h2 \<and> list_rep h2 l (xs @ e # ys) \<and>
    unchanged (set (nodes l (xs @ e # ys))) h h2"
proof -
  obtain h1 where h1: "list_remove e h = Some (first_of l ys, h1)" "list_rep h1 l (xs @ ys)"
    "unchanged (set (nodes l (xs @ ys))) h h1" using list_remove_rep [OF assms] by blast
  have "e \<notin> set (nodes l (xs @ ys))" "e \<noteq> NULL"
    using list_rep_distinct [OF assms] by auto
  then obtain h2 where h2: "list_insert (first_of l ys) e h1 = Some h2" "list_rep h2 l (xs @ e # ys)"
    "unchanged (set (nodes l (e # xs @ ys))) h1 h2" using list_insert_rep [OF h1(2)] by blast
  have "unchanged (set (nodes l (xs @ e # ys))) h h2"
    by (rule unchanged_mono [OF unchanged_trans [OF h1(3) h2(3)]]) auto
  with h1 h2 show ?thesis by blast
qed

theorem list_remove_insert_witness:
  "\<exists>p h1 h2. list_remove 200 demo_links = Some (p, h1) \<and> p = first_of 100 [400] \<and>
    list_rep h1 100 ([300] @ [400]) \<and>
    list_insert p 200 h1 = Some h2 \<and> list_rep h2 100 ([300] @ 200 # [400]) \<and>
    unchanged (set (nodes 100 ([300] @ 200 # [400]))) demo_links h2"
  by (rule list_remove_insert) (simp add: demo_links_rep)

end
