(* ===== verification/Kernel_List_Sort.thy ===== *)
theory Kernel_List_Sort
  imports Kernel_List
begin

text \<open>
  The algorithms of \<^verbatim>\<open>lib/kernel/list.c\<close> that rearrange a whole list: \<^verbatim>\<open>list_reverse\<close>,
  \<^verbatim>\<open>list_unique\<close> and the in-place natural merge sort \<^verbatim>\<open>list_sort\<close> with its helpers. The
  merge sort is proved to return (its loops are partial functions), to keep every assertion, to
  permute the elements, to order them and to be stable.
\<close>

section \<open>Operations\<close>

definition swap_links :: "addr \<Rightarrow> links \<Rightarrow> links" where
  "swap_links e h = set_next e (link_prev h e) (set_prev e (link_next h e) h)"

partial_function (option) list_reverse_loop :: "addr \<Rightarrow> addr \<Rightarrow> links \<Rightarrow> links option" where
  "list_reverse_loop e fin h =
     (if e = fin then Some h
      else let h' = swap_links e h in list_reverse_loop (link_prev h' e) fin h')"

definition list_reverse :: "addr \<Rightarrow> links \<Rightarrow> links option" where
  "list_reverse l h = do {
     em \<leftarrow> list_empty h l;
     if em then Some h
     else do {
       b \<leftarrow> list_begin h l;
       fin \<leftarrow> list_end l;
       h \<leftarrow> list_reverse_loop b fin h;
       let f = link_next h (list_head l);
       let h = set_prev (list_tail l) f (set_next (list_head l) (link_prev h (list_tail l)) h);
       let a = link_next h (list_head l);
       let z = link_prev h (list_tail l);
       let t = link_prev h a;
       let h = set_prev a (link_next h z) h;
       Some (set_next z t h)
     }
   }"

text \<open>A null \<^verbatim>\<open>duplicates\<close> is \<open>None\<close>.\<close>

partial_function (option) list_unique_loop ::
  "(addr \<Rightarrow> addr \<Rightarrow> bool) \<Rightarrow> addr \<Rightarrow> addr option \<Rightarrow> addr \<Rightarrow> links \<Rightarrow> links option" where
  "list_unique_loop lt fin dups e h = do {
     n \<leftarrow> list_next h e;
     if n = fin then Some h
     else if \<not> lt e n \<and> \<not> lt n e
     then do {
       r \<leftarrow> list_remove n h;
       h' \<leftarrow> (case dups of None \<Rightarrow> Some (snd r) | Some d \<Rightarrow> list_push_back d n (snd r));
       list_unique_loop lt fin dups e h' }
     else list_unique_loop lt fin dups n h }"

definition list_unique ::
  "addr \<Rightarrow> addr option \<Rightarrow> (addr \<Rightarrow> addr \<Rightarrow> bool) \<Rightarrow> links \<Rightarrow> links option" where
  "list_unique l dups lt h = do {
     ASSERT (l \<noteq> NULL);
     em \<leftarrow> list_empty h l;
     if em then Some h
     else do { e \<leftarrow> list_begin h l; fin \<leftarrow> list_end l; list_unique_loop lt fin dups e h }
   }"

partial_function (option) is_sorted_loop ::
  "(addr \<Rightarrow> addr \<Rightarrow> bool) \<Rightarrow> links \<Rightarrow> addr \<Rightarrow> addr \<Rightarrow> bool option" where
  "is_sorted_loop lt h a b = do {
     a' \<leftarrow> list_next h a;
     if a' = b then Some True
     else do {
       p \<leftarrow> list_prev h a';
       if lt a' p then Some False else is_sorted_loop lt h a' b } }"

definition is_sorted ::
  "(addr \<Rightarrow> addr \<Rightarrow> bool) \<Rightarrow> links \<Rightarrow> addr \<Rightarrow> addr \<Rightarrow> bool option" where
  "is_sorted lt h a b = (if a \<noteq> b then is_sorted_loop lt h a b else Some True)"

partial_function (option) find_end_loop ::
  "(addr \<Rightarrow> addr \<Rightarrow> bool) \<Rightarrow> links \<Rightarrow> addr \<Rightarrow> addr \<Rightarrow> addr option" where
  "find_end_loop lt h a b = do {
     a' \<leftarrow> list_next h a;
     if a' = b then Some a'
     else do {
       p \<leftarrow> list_prev h a';
       if lt a' p then Some a' else find_end_loop lt h a' b } }"

definition find_end_of_run ::
  "(addr \<Rightarrow> addr \<Rightarrow> bool) \<Rightarrow> links \<Rightarrow> addr \<Rightarrow> addr \<Rightarrow> addr option" where
  "find_end_of_run lt h a b = do {
     ASSERT (a \<noteq> NULL); ASSERT (b \<noteq> NULL); ASSERT (a \<noteq> b);
     find_end_loop lt h a b }"

partial_function (option) inplace_merge_loop ::
  "(addr \<Rightarrow> addr \<Rightarrow> bool) \<Rightarrow> addr \<Rightarrow> addr \<Rightarrow> addr \<Rightarrow> links \<Rightarrow> links option" where
  "inplace_merge_loop lt a0 a1b0 b1 h =
     (if a0 \<noteq> a1b0 \<and> a1b0 \<noteq> b1
      then if \<not> lt a1b0 a0
        then do { a0' \<leftarrow> list_next h a0; inplace_merge_loop lt a0' a1b0 b1 h }
        else do {
          n \<leftarrow> list_next h a1b0;
          p \<leftarrow> list_prev h n;
          h' \<leftarrow> list_splice a0 p n h;
          inplace_merge_loop lt a0 n b1 h' }
      else Some h)"

definition inplace_merge ::
  "(addr \<Rightarrow> addr \<Rightarrow> bool) \<Rightarrow> addr \<Rightarrow> addr \<Rightarrow> addr \<Rightarrow> links \<Rightarrow> links option" where
  "inplace_merge lt a0 a1b0 b1 h = do {
     ASSERT (a0 \<noteq> NULL); ASSERT (a1b0 \<noteq> NULL); ASSERT (b1 \<noteq> NULL);
     s1 \<leftarrow> is_sorted lt h a0 a1b0; ASSERT s1;
     s2 \<leftarrow> is_sorted lt h a1b0 b1; ASSERT s2;
     inplace_merge_loop lt a0 a1b0 b1 h }"

text \<open>One pass over the list, from \<open>a0\<close>; \<open>cnt\<close> is \<^verbatim>\<open>output_run_cnt\<close>.\<close>

partial_function (option) list_sort_pass ::
  "(addr \<Rightarrow> addr \<Rightarrow> bool) \<Rightarrow> addr \<Rightarrow> addr \<Rightarrow> nat \<Rightarrow> links \<Rightarrow> (nat \<times> links) option" where
  "list_sort_pass lt fin a0 cnt h =
     (if a0 \<noteq> fin
      then do {
        a1b0 \<leftarrow> find_end_of_run lt h a0 fin;
        if a1b0 = fin then Some (cnt + 1, h)
        else do {
          b1 \<leftarrow> find_end_of_run lt h a1b0 fin;
          h' \<leftarrow> inplace_merge lt a0 a1b0 b1 h;
          list_sort_pass lt fin b1 (cnt + 1) h' } }
      else Some (cnt, h))"

partial_function (option) list_sort_loop ::
  "(addr \<Rightarrow> addr \<Rightarrow> bool) \<Rightarrow> addr \<Rightarrow> links \<Rightarrow> links option" where
  "list_sort_loop lt l h = do {
     a0 \<leftarrow> list_begin h l;
     fin \<leftarrow> list_end l;
     r \<leftarrow> list_sort_pass lt fin a0 0 h;
     if fst r > 1 then list_sort_loop lt l (snd r) else Some (snd r) }"

definition list_sort :: "addr \<Rightarrow> (addr \<Rightarrow> addr \<Rightarrow> bool) \<Rightarrow> links \<Rightarrow> links option" where
  "list_sort l lt h = do {
     ASSERT (l \<noteq> NULL);
     h \<leftarrow> list_sort_loop lt l h;
     b \<leftarrow> list_begin h l;
     fin \<leftarrow> list_end l;
     s \<leftarrow> is_sorted lt h b fin;
     ASSERT s;
     Some h }"


section \<open>Reversal\<close>

definition swapped_on :: "addr set \<Rightarrow> links \<Rightarrow> links" where
  "swapped_on A h =
     h\<lparr>link_prev := (\<lambda>a. if a \<in> A then link_next h a else link_prev h a),
       link_next := (\<lambda>a. if a \<in> A then link_prev h a else link_next h a)\<rparr>"

lemma swapped_on_sel [simp]:
  "link_prev (swapped_on A h) a = (if a \<in> A then link_next h a else link_prev h a)"
  "link_next (swapped_on A h) a = (if a \<in> A then link_prev h a else link_next h a)"
  by (simp_all add: swapped_on_def)

lemma swap_links_sel [simp]:
  "link_prev (swap_links e h) a = (if a = e then link_next h e else link_prev h a)"
  "link_next (swap_links e h) a = (if a = e then link_prev h e else link_next h a)"
  by (simp_all add: swap_links_def)

lemma swapped_on_swap:
  "y \<notin> A \<Longrightarrow> swapped_on A (swap_links y h) = swapped_on (insert y A) h"
  by (rule links.equality) (auto simp: fun_eq_iff swapped_on_def swap_links_def set_prev_def set_next_def)

lemma list_reverse_loop_swaps:
  "distinct (ys @ [fin]) \<Longrightarrow> linked h (ys @ [fin]) \<Longrightarrow>
     list_reverse_loop (hd (ys @ [fin])) fin h = Some (swapped_on (set ys) h)"
proof (induction ys arbitrary: h)
  case Nil
  then show ?case by (simp add: list_reverse_loop.simps swapped_on_def)
next
  case (Cons y ys)
  let ?h = "swap_links y h"
  have nx: "link_next h y = hd (ys @ [fin])" using Cons.prems(2) by (cases ys) auto
  have "linked ?h (ys @ [fin]) = linked h (ys @ [fin])"
    by (rule linked_cong_left) (use Cons.prems(1) in auto)
  moreover have "linked h (ys @ [fin])" using Cons.prems(2) by (cases ys) auto
  ultimately have "list_reverse_loop (hd (ys @ [fin])) fin ?h = Some (swapped_on (set ys) ?h)"
    using Cons.IH Cons.prems(1) by simp
  then show ?case using Cons.prems(1) nx
    by (simp add: list_reverse_loop.simps [of y] swapped_on_swap)
qed

lemma linked_rev:
  "linked h xs \<Longrightarrow> (\<And>x. x \<in> set (butlast xs) \<Longrightarrow> link_prev h' x = link_next h x) \<Longrightarrow>
   (\<And>x. x \<in> set (tl xs) \<Longrightarrow> link_next h' x = link_prev h x) \<Longrightarrow> linked h' (rev xs)"
proof (induction h xs rule: linked.induct)
  case (3 h a b r)
  have "linked h' (rev (b # r))"
  proof (rule "3.IH")
    show "linked h (b # r)" using "3.prems"(1) by simp
    show "link_prev h' x = link_next h x" if "x \<in> set (butlast (b # r))" for x
      using "3.prems"(2) [of x] that by simp
    show "link_next h' x = link_prev h x" if "x \<in> set (tl (b # r))" for x
      using "3.prems"(3) [of x] that by simp
  qed
  moreover have "link_next h' b = a" "link_prev h' a = b"
    using "3.prems"(1) "3.prems"(2) [of a] "3.prems"(3) [of b] by auto
  ultimately show ?case by (simp add: linked_snoc2)
qed auto

lemma list_reverse_rep:
  assumes r: "list_rep h l xs"
  shows "\<exists>h'. list_reverse l h = Some h' \<and> list_rep h' l (rev xs) \<and> unchanged (set (nodes l xs)) h h'"
proof (cases "xs = []")
  case True
  with r show ?thesis by (simp add: list_reverse_def list_empty_rep)
next
  case False
  let ?hd = "list_head l" and ?tl = "list_tail l" and ?a = "last xs" and ?z = "hd xs"
  have ch: "chain h (?hd # xs @ [?tl])" using r by (simp add: list_rep_def nodes_def)
  have d: "distinct xs" "?hd \<notin> set xs" "?tl \<notin> set xs" "NULL \<notin> set xs" "?hd \<noteq> ?tl"
      "?hd \<noteq> NULL" "?tl \<noteq> NULL"
    using ch by (auto simp: chain_def)
  have az: "?a \<in> set xs" "?z \<in> set xs" using False by auto
  then have ne: "?z \<noteq> ?hd" "?z \<noteq> ?tl" "?a \<noteq> ?hd" "?a \<noteq> ?tl" using d by metis+
  have ends: "link_next h ?hd = ?z" "link_prev h ?z = ?hd" "linked h (xs @ [?tl])"
    using ch False by (cases xs; simp add: chain_def)+
  have "xs @ [?tl] = butlast xs @ ?a # [?tl]"
    using append_butlast_last_id [OF False] by (metis append.assoc append_Cons append_Nil)
  with ends(3) have ends': "linked h xs" "link_next h ?a = ?tl" "link_prev h ?tl = ?a"
    using False linked_append [of h "butlast xs" ?a "[?tl]"] by (simp_all)
  have nulls: "link_prev h ?hd = NULL" "link_next h ?tl = NULL" using ch by (simp_all add: chain_def)
  have loop: "list_reverse_loop ?z ?tl h = Some (swapped_on (set xs) h)"
    using list_reverse_loop_swaps [of xs ?tl h] d ends(3) False by simp
  let ?h1 = "set_prev ?tl ?z (set_next ?hd ?a (swapped_on (set xs) h))"
  let ?h2 = "set_next ?z ?tl (set_prev ?a ?hd ?h1)"
  have val: "list_reverse l h = Some ?h2"
    using r False loop d ne ends ends'
    by (auto simp: list_reverse_def list_empty_rep list_begin_rep list_end_rep Let_def)
  define h2 where "h2 = ?h2"
  have lk: "linked h2 (rev xs)"
  proof (rule linked_rev [OF ends'(1)])
    show "link_prev h2 x = link_next h x" if "x \<in> set (butlast xs)" for x
    proof -
      have "x \<in> set xs" "x \<noteq> ?a"
        using that d(1) append_butlast_last_id [OF False]
        by (auto dest: in_set_butlastD) (metis distinct_append disjoint_iff list.set_intros(1))
      with d show ?thesis by (auto simp: h2_def)
    qed
    show "link_next h2 x = link_prev h x" if "x \<in> set (tl xs)" for x
      using that d False by (cases xs) (auto simp: h2_def)
  qed
  have rx: "rev xs = ?a # rev (butlast xs)" "rev xs = rev (tl xs) @ [?z]"
    using False by (metis append_butlast_last_id rev.simps(2) rev_append rev_rev_ident append_Cons
        append_Nil rev_singleton_conv) (metis False list.collapse rev.simps(2))
  have n: "link_next h2 ?hd = ?a" "link_prev h2 ?a = ?hd" "link_next h2 ?z = ?tl"
      "link_prev h2 ?tl = ?z" "link_prev h2 ?hd = NULL" "link_next h2 ?tl = NULL"
    using d ne nulls by (auto simp: h2_def)
  have "linked h2 (?hd # rev xs)" using rx(1) lk n by (metis linked.simps(3))
  then have "linked h2 ((?hd # rev (tl xs)) @ ?z # [?tl])"
    using n rx(2) linked_append [of h2 "?hd # rev (tl xs)" ?z "[?tl]"] by simp
  then have "linked h2 (?hd # rev xs @ [?tl])" using rx(2) by simp
  then have "chain h2 (?hd # rev xs @ [?tl])" using d n by (simp add: chain_def)
  moreover have "unchanged (set (nodes l xs)) h h2"
    using az by (auto simp: unchanged_def h2_def)
  moreover have "list_reverse l h = Some h2" using val by (simp add: h2_def)
  ultimately show ?thesis by (simp add: list_rep_def nodes_def)
qed


section \<open>Removal of adjacent duplicates\<close>

text \<open>The kept elements after \<open>e\<close> and the removed ones, in order.\<close>

fun unique_split :: "('a \<Rightarrow> 'a \<Rightarrow> bool) \<Rightarrow> 'a \<Rightarrow> 'a list \<Rightarrow> 'a list \<times> 'a list" where
  "unique_split lt e [] = ([], [])"
| "unique_split lt e (n # ns) =
     (if \<not> lt e n \<and> \<not> lt n e
      then (fst (unique_split lt e ns), n # snd (unique_split lt e ns))
      else (n # fst (unique_split lt n ns), snd (unique_split lt n ns)))"

text \<open>\<open>dups_rep\<close>: the optional second list, apart from the first one.\<close>

definition dups_rep :: "links \<Rightarrow> addr option \<Rightarrow> addr list \<Rightarrow> addr set \<Rightarrow> bool" where
  "dups_rep h dups ds A \<longleftrightarrow>
     (case dups of None \<Rightarrow> True | Some d \<Rightarrow> list_rep h d ds \<and> set (nodes d ds) \<inter> A = {})"

lemma unique_step_rep:
  assumes r: "list_rep h l (P @ n # ns)" and dr: "dups_rep h dups ds (set (nodes l (P @ n # ns)))"
  shows "\<exists>h1 h2. list_remove n h = Some (first_of l ns, h1) \<and>
    (case dups of None \<Rightarrow> Some h1 | Some d \<Rightarrow> list_push_back d n h1) = Some h2 \<and>
    list_rep h2 l (P @ ns) \<and> dups_rep h2 dups (ds @ [n]) (set (nodes l (P @ ns)))"
proof -
  obtain h1 where h1: "list_remove n h = Some (first_of l ns, h1)" "list_rep h1 l (P @ ns)"
    "unchanged (set (nodes l (P @ ns))) h h1"
    using list_remove_rep [OF r] by blast
  have nn: "n \<noteq> NULL" "n \<notin> set (nodes l (P @ ns))"
    using list_rep_distinct [OF r] by auto
  show ?thesis
  proof (cases dups)
    case None
    with h1 show ?thesis by (auto simp: dups_rep_def)
  next
    case (Some d)
    with dr have d: "list_rep h d ds" "set (nodes d ds) \<inter> set (nodes l (P @ n # ns)) = {}"
      by (simp_all add: dups_rep_def)
    have "list_rep h1 d ds" by (rule list_rep_frame [OF d(1) h1(3)]) (use d(2) in auto)
    then obtain h2 where h2: "list_push_back d n h1 = Some h2" "list_rep h2 d (ds @ [n])"
      "unchanged (set (nodes d (n # ds))) h1 h2"
      using list_push_back_rep [of h1 d ds n] d(2) nn(1) by auto
    have "list_rep h2 l (P @ ns)" by (rule list_rep_frame [OF h1(2) h2(3)]) (use d(2) nn in auto)
    with h1 h2 Some d(2) nn show ?thesis by (auto simp: dups_rep_def)
  qed
qed

lemma list_unique_loop_rep:
  "list_rep h l (P @ e # ns) \<Longrightarrow> dups_rep h dups ds (set (nodes l (P @ e # ns))) \<Longrightarrow>
     \<exists>h'. list_unique_loop lt (list_tail l) dups e h = Some h' \<and>
       list_rep h' l (P @ e # fst (unique_split lt e ns)) \<and>
       dups_rep h' dups (ds @ snd (unique_split lt e ns)) (set (nodes l (P @ e # fst (unique_split lt e ns))))"
proof (induction ns arbitrary: P e h ds)
  case Nil
  then show ?case
    using list_next_rep [OF Nil.prems(1)] by (simp add: list_unique_loop.simps)
next
  case (Cons n ns)
  have nx: "list_next h e = Some n" using list_next_rep [OF Cons.prems(1)] by simp
  have nt: "n \<noteq> list_tail l" using first_of_not_tail [of h l "P @ [e]" n ns] Cons.prems(1) by simp
  show ?case
  proof (cases "\<not> lt e n \<and> \<not> lt n e")
    case True
    obtain h1 h2 where h: "list_remove n h = Some (first_of l ns, h1)"
      "(case dups of None \<Rightarrow> Some h1 | Some d \<Rightarrow> list_push_back d n h1) = Some h2"
      and r2: "list_rep h2 l (P @ e # ns)"
      and d2: "dups_rep h2 dups (ds @ [n]) (set (nodes l (P @ e # ns)))"
      using unique_step_rep [of h l "P @ [e]" n ns dups ds] Cons.prems by auto
    have "list_unique_loop lt (list_tail l) dups e h = list_unique_loop lt (list_tail l) dups e h2"
      by (subst list_unique_loop.simps) (use nx nt True h in \<open>cases dups; simp\<close>)
    with Cons.IH [OF r2 d2] True show ?thesis by simp
  next
    case False
    have "list_unique_loop lt (list_tail l) dups e h = list_unique_loop lt (list_tail l) dups n h"
      by (subst list_unique_loop.simps) (use nx nt False in auto)
    with Cons.IH [of h "P @ [e]" n ds] Cons.prems False show ?thesis
      by (auto simp del: set_nodes)
  qed
qed

lemma list_unique_rep:
  assumes r: "list_rep h l (x # xs)" and d: "dups_rep h dups ds (set (nodes l (x # xs)))"
  shows "\<exists>h'. list_unique l dups lt h = Some h' \<and> list_rep h' l (x # fst (unique_split lt x xs)) \<and>
    dups_rep h' dups (ds @ snd (unique_split lt x xs)) (set (nodes l (x # fst (unique_split lt x xs))))"
proof -
  have "list_unique l dups lt h = list_unique_loop lt (list_tail l) dups x h"
    using r list_rep_not_NULL [OF r]
    by (simp add: list_unique_def list_empty_rep list_begin_rep list_end_rep)
  with list_unique_loop_rep [of h l "[]" x xs dups ds lt] r d show ?thesis by simp
qed

text \<open>On an ordered list, no two of the kept elements are equal for the comparison function.\<close>

lemma unique_split_mset:
  "mset xs = mset (fst (unique_split lt e xs)) + mset (snd (unique_split lt e xs))"
  by (induction xs arbitrary: e) auto

context less_func
begin

lemma unique_split_strict:
  "in_order lt (e # xs) \<Longrightarrow> sorted_wrt lt (e # fst (unique_split lt e xs))"
proof (induction xs arbitrary: e)
  case Nil
  then show ?case by simp
next
  case (Cons n ns)
  show ?case
  proof (cases "\<not> lt e n \<and> \<not> lt n e")
    case True
    with Cons.IH [of e] Cons.prems show ?thesis by simp
  next
    case False
    with Cons.prems have "lt e n" by auto
    moreover have "sorted_wrt lt (n # fst (unique_split lt n ns))" using Cons.IH [of n] Cons.prems by simp
    ultimately show ?thesis using False trans [OF \<open>lt e n\<close>] by auto
  qed
qed

end


section \<open>Runs and merges\<close>

text \<open>The rest of the run that starts with \<open>x\<close>, and what follows the run.\<close>

fun run_of :: "('a \<Rightarrow> 'a \<Rightarrow> bool) \<Rightarrow> 'a \<Rightarrow> 'a list \<Rightarrow> 'a list \<times> 'a list" where
  "run_of lt x [] = ([], [])"
| "run_of lt x (y # ys) =
     (if lt y x then ([], y # ys) else (y # fst (run_of lt y ys), snd (run_of lt y ys)))"

fun merge_runs :: "('a \<Rightarrow> 'a \<Rightarrow> bool) \<Rightarrow> 'a list \<Rightarrow> 'a list \<Rightarrow> 'a list" where
  "merge_runs lt [] ys = ys"
| "merge_runs lt (x # xs) [] = x # xs"
| "merge_runs lt (x # xs) (y # ys) =
     (if \<not> lt y x then x # merge_runs lt xs (y # ys) else y # merge_runs lt (x # xs) ys)"

lemma run_of_append: "ys = fst (run_of lt x ys) @ snd (run_of lt x ys)"
  by (induction ys arbitrary: x) auto

lemma run_of_length: "length (snd (run_of lt x ys)) \<le> length ys"
  by (induction ys arbitrary: x) (auto intro: le_SucI)

text \<open>A list is ordered step by step: no element is less than the one before it.\<close>

fun no_descent :: "('a \<Rightarrow> 'a \<Rightarrow> bool) \<Rightarrow> 'a list \<Rightarrow> bool" where
  "no_descent lt (x # y # ys) \<longleftrightarrow> \<not> lt y x \<and> no_descent lt (y # ys)"
| "no_descent lt xs \<longleftrightarrow> True"

lemma run_no_descent: "no_descent lt (x # fst (run_of lt x ys))"
  by (induction ys arbitrary: x) auto

fun descents :: "('a \<Rightarrow> 'a \<Rightarrow> bool) \<Rightarrow> 'a list \<Rightarrow> nat" where
  "descents lt (x # y # ys) = (if lt y x then 1 else 0) + descents lt (y # ys)"
| "descents lt xs = 0"

lemma descents_run:
  "descents lt (x # ys) =
     (case snd (run_of lt x ys) of [] \<Rightarrow> 0 | y # r \<Rightarrow> 1 + descents lt (y # r))"
  by (induction ys arbitrary: x) auto

lemma descents_append: "descents lt (xs @ ys) \<le> descents lt xs + 1 + descents lt ys"
proof (induction xs)
  case Nil
  then show ?case by simp
next
  case (Cons x xs)
  then show ?case by (cases xs; cases ys) auto
qed

lemma descents_zero: "descents lt xs = 0 \<longleftrightarrow> no_descent lt xs"
  by (induction lt xs rule: no_descent.induct) auto

text \<open>One pass of the sort on lists: adjacent runs are merged pairwise; the count of output runs.\<close>

function sort_pass :: "('a \<Rightarrow> 'a \<Rightarrow> bool) \<Rightarrow> 'a list \<Rightarrow> 'a list \<times> nat" where
  "sort_pass lt [] = ([], 0)"
| "sort_pass lt (x # xs) =
     (case snd (run_of lt x xs) of
        [] \<Rightarrow> (x # xs, 1)
      | y # ys \<Rightarrow>
          (let r = sort_pass lt (snd (run_of lt y ys))
           in (merge_runs lt (x # fst (run_of lt x xs)) (y # fst (run_of lt y ys)) @ fst r, Suc (snd r))))"
  by pat_completeness auto
termination
proof (relation "measure (\<lambda>(lt, xs). length xs)", goal_cases)
  case (2 lt x xs y ys)
  then show ?case using run_of_length [of lt x xs] run_of_length [of lt y ys] by simp
qed simp

lemma merge_runs_mset: "mset (merge_runs lt xs ys) = mset xs + mset ys"
  by (induction lt xs ys rule: merge_runs.induct) auto

lemma merge_runs_set: "set (merge_runs lt xs ys) = set xs \<union> set ys"
  by (induction lt xs ys rule: merge_runs.induct) auto

lemma merge_induct [case_names Nil_left Nil_right Cons]:
  "(\<And>ys. P [] ys) \<Longrightarrow> (\<And>x xs. P (x # xs) []) \<Longrightarrow>
   (\<And>x xs y ys. P xs (y # ys) \<Longrightarrow> P (x # xs) ys \<Longrightarrow> P (x # xs) (y # ys)) \<Longrightarrow> P xs ys"
  by induction_schema (pat_completeness, lexicographic_order)

lemma sort_pass_count: "snd (sort_pass lt xs) \<le> (descents lt xs + 2) div 2"
proof (induction lt xs rule: sort_pass.induct)
  case (2 lt x xs)
  show ?case
  proof (cases "snd (run_of lt x xs)")
    case (Cons y ys)
    have "descents lt (x # xs) = 1 + descents lt (y # ys)"
      using Cons by (simp add: descents_run [of lt x])
    moreover have "descents lt (y # ys) = (case snd (run_of lt y ys) of [] \<Rightarrow> 0
        | z # r \<Rightarrow> 1 + descents lt (z # r))" by (rule descents_run)
    ultimately show ?thesis using "2.IH" [OF Cons] Cons
      by (cases "snd (run_of lt y ys)") (auto simp: Let_def)
  qed simp
qed simp

lemma sort_pass_mset: "mset (fst (sort_pass lt xs)) = mset xs"
proof (induction lt xs rule: sort_pass.induct)
  case (2 lt x xs)
  show ?case
  proof (cases "snd (run_of lt x xs)")
    case (Cons y ys)
    have "mset xs = mset (fst (run_of lt x xs)) + mset (y # ys)"
      using run_of_append [of xs lt x] Cons by (metis mset_append)
    moreover have "mset ys = mset (fst (run_of lt y ys)) + mset (snd (run_of lt y ys))"
      using run_of_append [of ys lt y] by (metis mset_append)
    ultimately show ?thesis using "2.IH" [OF Cons] Cons
      by (simp add: Let_def merge_runs_mset)
  qed simp
qed simp

text \<open>Two elements are equivalent when neither is less.\<close>

abbreviation same_key :: "('a \<Rightarrow> 'a \<Rightarrow> bool) \<Rightarrow> 'a \<Rightarrow> 'a \<Rightarrow> bool" where
  "same_key lt a b \<equiv> \<not> lt a b \<and> \<not> lt b a"

context less_func
begin

lemma no_descent_in_order: "no_descent lt xs = in_order lt xs"
proof (induction xs)
  case (Cons x xs)
  show ?case
  proof (cases xs)
    case (Cons y ys)
    with Cons.IH show ?thesis using neg_trans [of _ y x] by auto
  qed simp
qed simp

lemma run_in_order: "in_order lt (x # fst (run_of lt x ys))"
  using run_no_descent no_descent_in_order by metis

lemma merge_runs_in_order:
  "in_order lt xs \<Longrightarrow> in_order lt ys \<Longrightarrow> in_order lt (merge_runs lt xs ys)"
proof (induction xs ys rule: merge_induct)
  case (Cons x xs y ys)
  show ?case
  proof (cases "lt y x")
    case True
    then have "\<not> lt z y" if "z \<in> set (x # xs)" for z
      using that Cons.prems(1) trans [of z y x] asym by auto
    with True Cons show ?thesis by (auto simp: merge_runs_set)
  next
    case False
    then have "\<not> lt z x" if "z \<in> set (y # ys)" for z
      using that Cons.prems(2) neg_trans [of z y x] by auto
    with False Cons show ?thesis by (auto simp: merge_runs_set)
  qed
qed simp_all

text \<open>The merge keeps the order of equivalent elements, those of the first run first.\<close>

lemma merge_runs_stable:
  "in_order lt xs \<Longrightarrow>
     filter (same_key lt k) (merge_runs lt xs ys) = filter (same_key lt k) xs @ filter (same_key lt k) ys"
proof (induction xs ys rule: merge_induct)
  case (Cons x xs y ys)
  show ?case
  proof (cases "lt y x \<and> same_key lt k y")
    case True
    then have "lt k z" if "z \<in> set (x # xs)" for z
    proof -
      have "\<not> lt z x" using that Cons.prems irrefl by auto
      then have "lt y z" using True neg_trans by blast
      then show ?thesis using True neg_trans by blast
    qed
    then have "filter (same_key lt k) (x # xs) = []" by (auto simp: filter_empty_conv)
    with True Cons show ?thesis by simp
  next
    case False
    with Cons show ?thesis by auto
  qed
qed simp_all

lemma sort_pass_induct [case_names Nil One Two]:
  assumes "P []" and "\<And>x xs. snd (run_of lt x xs) = [] \<Longrightarrow> P (x # xs)"
    and "\<And>x xs y ys. snd (run_of lt x xs) = y # ys \<Longrightarrow> P (snd (run_of lt y ys)) \<Longrightarrow> P (x # xs)"
  shows "P zs"
proof (induction zs rule: length_induct)
  case (1 zs)
  show ?case
  proof (cases zs)
    case Nil
    with assms(1) show ?thesis by simp
  next
    case (Cons x xs)
    show ?thesis
    proof (cases "snd (run_of lt x xs)")
      case Nil
      with assms(2) \<open>zs = x # xs\<close> show ?thesis by simp
    next
      case (Cons y ys)
      then have "length (snd (run_of lt y ys)) < length zs"
        using \<open>zs = x # xs\<close> run_of_length [of lt x xs] run_of_length [of lt y ys] by simp
      with 1 assms(3) [OF Cons] \<open>zs = x # xs\<close> show ?thesis by blast
    qed
  qed
qed

lemma sort_pass_descents: "xs \<noteq> [] \<Longrightarrow> descents lt (fst (sort_pass lt xs)) < snd (sort_pass lt xs)"
proof (induction xs rule: sort_pass_induct)
  case (Two x xs y ys)
  let ?m = "merge_runs lt (x # fst (run_of lt x xs)) (y # fst (run_of lt y ys))"
  have "in_order lt ?m" by (rule merge_runs_in_order) (rule run_in_order)+
  then have m: "descents lt ?m = 0" by (simp only: descents_zero no_descent_in_order)
  show ?case
  proof (cases "snd (run_of lt y ys)")
    case Nil
    with Two m show ?thesis by (simp add: Let_def)
  next
    case (Cons z zs)
    with Two m descents_append [of lt ?m "fst (sort_pass lt (snd (run_of lt y ys)))"]
    show ?thesis by (simp add: Let_def)
  qed
qed (simp_all add: descents_run)

lemma sort_pass_stable:
  "filter (same_key lt k) (fst (sort_pass lt xs)) = filter (same_key lt k) xs"
proof (induction xs rule: sort_pass_induct)
  case (Two x xs y ys)
  have "filter (same_key lt k) (merge_runs lt (x # fst (run_of lt x xs)) (y # fst (run_of lt y ys))) =
    filter (same_key lt k) (x # fst (run_of lt x xs)) @ filter (same_key lt k) (y # fst (run_of lt y ys))"
    by (rule merge_runs_stable) (rule run_in_order)
  moreover have "x # xs = (x # fst (run_of lt x xs)) @ (y # fst (run_of lt y ys)) @ snd (run_of lt y ys)"
    using run_of_append [of xs lt x] run_of_append [of ys lt y] Two.hyps by simp
  then have "filter (same_key lt k) (x # xs) = filter (same_key lt k) (x # fst (run_of lt x xs)) @
      filter (same_key lt k) (y # fst (run_of lt y ys)) @ filter (same_key lt k) (snd (run_of lt y ys))"
    by (metis filter_append)
  moreover have "fst (sort_pass lt (x # xs)) =
      merge_runs lt (x # fst (run_of lt x xs)) (y # fst (run_of lt y ys)) @
      fst (sort_pass lt (snd (run_of lt y ys)))"
    using Two.hyps by (simp add: Let_def)
  ultimately show ?case using Two.IH by (simp only: filter_append append_assoc)
qed simp_all

text \<open>A pass that leaves more than one run removes descents; one that leaves one run sorts.\<close>

lemma sort_pass_progress:
  assumes "snd (sort_pass lt xs) > 1"
  shows "descents lt (fst (sort_pass lt xs)) < descents lt xs"
proof -
  have "xs \<noteq> []" using assms by auto
  then show ?thesis
    using sort_pass_descents [of xs] sort_pass_count [of lt xs] assms by linarith
qed

lemma sort_pass_done:
  assumes "snd (sort_pass lt xs) \<le> 1"
  shows "in_order lt (fst (sort_pass lt xs))"
proof (cases "xs = []")
  case False
  then have "descents lt (fst (sort_pass lt xs)) = 0" using sort_pass_descents [of xs] assms by simp
  then show ?thesis by (simp only: descents_zero no_descent_in_order)
qed simp

end


section \<open>The pointer programs compute runs and merges\<close>

lemma first_of_neq:
  "list_rep h l (P @ A @ S) \<Longrightarrow> first_of l (A @ S) = first_of l S \<longleftrightarrow> A = []"
  using list_rep_distinct [of h l "P @ A @ S"] by (cases A; cases S) auto

lemma is_sorted_loop_rep:
  "list_rep h l (P @ x # A @ S) \<Longrightarrow>
     is_sorted_loop lt h x (first_of l S) = Some (no_descent lt (x # A))"
proof (induction A arbitrary: P x)
  case Nil
  then show ?case
    using list_next_rep [OF Nil.prems] by (simp add: is_sorted_loop.simps)
next
  case (Cons y A)
  have nx: "list_next h x = Some y" using list_next_rep [OF Cons.prems] by simp
  have ne: "y \<noteq> first_of l S" using first_of_neq [of h l "P @ [x]" "y # A" S] Cons.prems by simp
  have pv: "list_prev h y = Some x"
    using list_prev_rep [of h l "P @ [x]" "y # A @ S"] Cons.prems by simp
  have "is_sorted_loop lt h y (first_of l S) = Some (no_descent lt (y # A))"
    by (rule Cons.IH [of "P @ [x]"]) (use Cons.prems in simp)
  then show ?case by (subst is_sorted_loop.simps) (use nx ne pv in simp)
qed

lemma is_sorted_rep:
  "list_rep h l (P @ A @ S) \<Longrightarrow>
     is_sorted lt h (first_of l (A @ S)) (first_of l S) = Some (no_descent lt A)"
  using first_of_neq [of h l P A S] is_sorted_loop_rep [of h l P "hd A" "tl A" S lt]
  by (cases A) (auto simp: is_sorted_def)

lemma find_end_loop_rep:
  "list_rep h l (P @ x # ys) \<Longrightarrow>
     find_end_loop lt h x (list_tail l) = Some (first_of l (snd (run_of lt x ys)))"
proof (induction ys arbitrary: P x)
  case Nil
  then show ?case
    using list_next_rep [OF Nil.prems] by (simp add: find_end_loop.simps)
next
  case (Cons y ys)
  have nx: "list_next h x = Some y" using list_next_rep [OF Cons.prems] by simp
  have ne: "y \<noteq> list_tail l" using first_of_not_tail [of h l "P @ [x]" y ys] Cons.prems by simp
  have pv: "list_prev h y = Some x"
    using list_prev_rep [of h l "P @ [x]" "y # ys"] Cons.prems by simp
  have "find_end_loop lt h y (list_tail l) = Some (first_of l (snd (run_of lt y ys)))"
    by (rule Cons.IH [of "P @ [x]"]) (use Cons.prems in simp)
  then show ?case by (subst find_end_loop.simps) (use nx ne pv in simp)
qed

lemma find_end_of_run_rep:
  assumes "list_rep h l (P @ x # ys)"
  shows "find_end_of_run lt h x (list_tail l) = Some (first_of l (snd (run_of lt x ys)))"
  using find_end_loop_rep [OF assms] first_of_not_tail [OF assms] list_rep_distinct [OF assms]
    list_rep_not_NULL [OF assms]
  by (simp add: find_end_of_run_def list_tail_def)

text \<open>Splicing a single element is a removal followed by an insertion.\<close>

lemma list_splice_single:
  assumes r: "list_rep h l (P @ b # A @ y # S)"
  shows "\<exists>h'. list_splice b y (first_of l S) h = Some h' \<and> list_rep h' l (P @ y # b # A @ S) \<and>
    unchanged (set (nodes l (P @ b # A @ y # S))) h h'"
proof -
  let ?n = "first_of l S"
  obtain h1 where h1: "list_remove y h = Some (?n, h1)" "list_rep h1 l (P @ b # A @ S)"
    "unchanged (set (nodes l (P @ b # A @ S))) h h1"
    using list_remove_rep [of h l "P @ b # A" y S] r by auto
  have y: "y \<notin> set (nodes l (P @ b # A @ S))" "y \<noteq> NULL" using list_rep_distinct [OF r] by auto
  obtain h2 where h2: "list_insert b y h1 = Some h2" "list_rep h2 l (P @ y # b # A @ S)"
    "unchanged (set (nodes l (y # P @ b # A @ S))) h1 h2"
    using list_insert_rep [of h1 l P "b # A @ S" y] h1(2) y by auto
  have yn: "y \<noteq> ?n" using first_of_neq [of h l "P @ b # A" "[y]" S] r by simp
  have py: "list_prev h ?n = Some y"
    using list_prev_rep [of h l "P @ b # A @ [y]" S] r by simp
  have bi: "is_interior h b \<or> is_tail h b"
    using list_prev_rep [of h l P "b # A @ y # S"] r
    by (auto simp: list_prev_def bind_eq_Some_conv ASSERT_def split: if_splits)
  have yi: "is_interior h y" using h1(1) by (auto simp: list_remove_def)
  have "list_splice b y ?n h = Some h2"
    using bi yi py yn h1(1) h2(1)
    by (auto simp: list_splice_def list_remove_def list_insert_def Let_def)
  moreover have "unchanged (set (nodes l (P @ b # A @ y # S))) h h2"
    using unchanged_trans [OF h1(3) h2(3)] by (rule unchanged_mono) auto
  ultimately show ?thesis using h2(2) by blast
qed

lemma inplace_merge_loop_rep:
  "list_rep h l (P @ A @ B @ S) \<Longrightarrow>
     \<exists>h'. inplace_merge_loop lt (first_of l (A @ B @ S)) (first_of l (B @ S)) (first_of l S) h = Some h' \<and>
       list_rep h' l (P @ merge_runs lt A B @ S)"
proof (induction A B arbitrary: P h rule: merge_induct)
  case (Nil_left B)
  then show ?case by (subst inplace_merge_loop.simps) simp
next
  case (Nil_right a A)
  then show ?case by (subst inplace_merge_loop.simps) simp
next
  case (Cons a A b B)
  have ne: "a \<noteq> b" "b \<noteq> first_of l S"
    using first_of_neq [of h l P "a # A" "b # B @ S"] first_of_neq [of h l "P @ a # A" "b # B" S]
      Cons.prems by simp_all
  show ?case
  proof (cases "lt b a")
    case False
    have "list_next h a = Some (first_of l (A @ b # B @ S))"
      using list_next_rep [of h l P a "A @ b # B @ S"] Cons.prems by simp
    then have "inplace_merge_loop lt a b (first_of l S) h =
        inplace_merge_loop lt (first_of l (A @ b # B @ S)) b (first_of l S) h"
      by (subst inplace_merge_loop.simps) (use ne False in simp)
    with Cons.IH(1) [of h "P @ [a]"] Cons.prems False show ?thesis by simp
  next
    case True
    have nx: "list_next h b = Some (first_of l (B @ S))"
      using list_next_rep [of h l "P @ a # A" b "B @ S"] Cons.prems by simp
    have pv: "list_prev h (first_of l (B @ S)) = Some b"
      using list_prev_rep [of h l "P @ a # A @ [b]" "B @ S"] Cons.prems by simp
    obtain h1 where h1: "list_splice a b (first_of l (B @ S)) h = Some h1"
      and r1: "list_rep h1 l (P @ b # a # A @ B @ S)"
      using list_splice_single [of h l P a A b "B @ S"] Cons.prems by auto
    have "inplace_merge_loop lt a b (first_of l S) h =
        inplace_merge_loop lt a (first_of l (B @ S)) (first_of l S) h1"
      by (subst inplace_merge_loop.simps) (use ne True nx pv h1 in simp)
    with Cons.IH(2) [of h1 "P @ [b]"] r1 True show ?thesis by simp
  qed
qed

lemma first_of_not_NULL: "list_rep h l (P @ S) \<Longrightarrow> first_of l S \<noteq> NULL"
  using list_rep_distinct [of h l "P @ S"] by (cases S) (auto simp: list_tail_def)

lemma inplace_merge_rep:
  assumes r: "list_rep h l (P @ A @ B @ S)" and "no_descent lt A" "no_descent lt B"
  shows "\<exists>h'. inplace_merge lt (first_of l (A @ B @ S)) (first_of l (B @ S)) (first_of l S) h = Some h' \<and>
       list_rep h' l (P @ merge_runs lt A B @ S)"
  using inplace_merge_loop_rep [OF r, of lt] is_sorted_rep [OF r, of lt]
    is_sorted_rep [of h l "P @ A" B S lt] assms first_of_not_NULL [of h l P "A @ B @ S"]
    first_of_not_NULL [of h l "P @ A" "B @ S"] first_of_not_NULL [of h l "P @ A @ B" S]
  by (simp add: inplace_merge_def)


lemma list_sort_pass_rep:
  "list_rep h l (P @ xs) \<Longrightarrow>
     \<exists>h'. list_sort_pass lt (list_tail l) (first_of l xs) cnt h = Some (cnt + snd (sort_pass lt xs), h') \<and>
       list_rep h' l (P @ fst (sort_pass lt xs))"
proof (induction lt xs arbitrary: P cnt h rule: sort_pass.induct)
  case (1 lt)
  then show ?case by (subst list_sort_pass.simps) simp
next
  case (2 lt x xs)
  let ?a = "x # fst (run_of lt x xs)"
  have ne: "x \<noteq> list_tail l" using first_of_not_tail [OF "2.prems"] .
  have fe: "find_end_of_run lt h x (list_tail l) = Some (first_of l (snd (run_of lt x xs)))"
    by (rule find_end_of_run_rep [OF "2.prems"])
  show ?case
  proof (cases "snd (run_of lt x xs)")
    case Nil
    with fe ne "2.prems" show ?thesis by (subst list_sort_pass.simps) simp
  next
    case (Cons y ys)
    let ?b = "y # fst (run_of lt y ys)" and ?s = "snd (run_of lt y ys)"
    have xs: "x # xs = ?a @ ?b @ ?s"
      using run_of_append [of xs lt x] run_of_append [of ys lt y] Cons by simp
    have r: "list_rep h l (P @ ?a @ ?b @ ?s)" using "2.prems" by (simp only: xs [symmetric])
    have r2: "list_rep h l ((P @ ?a) @ y # ys)"
      using r run_of_append [of ys lt y] by simp
    have fe2: "find_end_of_run lt h y (list_tail l) = Some (first_of l ?s)"
      by (rule find_end_of_run_rep [OF r2])
    have ney: "y \<noteq> list_tail l" using first_of_not_tail [OF r2] .
    obtain h1 where h1: "inplace_merge lt x y (first_of l ?s) h = Some h1"
      and rr: "list_rep h1 l (P @ merge_runs lt ?a ?b @ ?s)"
      using inplace_merge_rep [OF r] run_no_descent [of lt x xs] run_no_descent [of lt y ys] by auto
    have "list_sort_pass lt (list_tail l) x cnt h =
        list_sort_pass lt (list_tail l) (first_of l ?s) (cnt + 1) h1"
      by (subst list_sort_pass.simps) (use ne ney fe fe2 Cons h1 in simp)
    moreover obtain h' where "list_sort_pass lt (list_tail l) (first_of l ?s) (cnt + 1) h1 =
        Some (cnt + 1 + snd (sort_pass lt ?s), h')"
      "list_rep h' l ((P @ merge_runs lt ?a ?b) @ fst (sort_pass lt ?s))"
      using "2.IH" [OF Cons, of h1 "P @ merge_runs lt ?a ?b" "cnt + 1"] rr by auto
    ultimately show ?thesis using Cons by (simp add: Let_def)
  qed
qed

lemma list_sort_loop_rep:
  assumes "less_func lt"
  shows "list_rep h l xs \<Longrightarrow>
     \<exists>h' zs. list_sort_loop lt l h = Some h' \<and> list_rep h' l zs \<and> mset zs = mset xs \<and>
       in_order lt zs \<and> (\<forall>k. filter (same_key lt k) zs = filter (same_key lt k) xs)"
proof (induction "descents lt xs" arbitrary: xs h rule: less_induct)
  case less
  let ?ys = "fst (sort_pass lt xs)" and ?n = "snd (sort_pass lt xs)"
  obtain h1 where h1: "list_sort_pass lt (list_tail l) (first_of l xs) 0 h = Some (?n, h1)"
    and r1: "list_rep h1 l ?ys"
    using list_sort_pass_rep [of h l "[]" xs lt 0] less.prems by auto
  have unfold: "list_sort_loop lt l h = (if ?n > 1 then list_sort_loop lt l h1 else Some h1)"
    by (subst list_sort_loop.simps) (use h1 less.prems in \<open>simp add: list_begin_rep list_end_rep\<close>)
  note st = less_func.sort_pass_stable [OF assms]
  show ?case
  proof (cases "?n > 1")
    case True
    with less.hyps [OF less_func.sort_pass_progress [OF assms True] r1] unfold st
    show ?thesis by (auto simp: sort_pass_mset)
  next
    case False
    with unfold r1 st less_func.sort_pass_done [OF assms, of xs]
    show ?thesis by (auto simp: sort_pass_mset)
  qed
qed

lemma list_sort_rep:
  assumes lt: "less_func lt" and r: "list_rep h l xs"
  shows "\<exists>h' zs. list_sort l lt h = Some h' \<and> list_rep h' l zs \<and> mset zs = mset xs \<and>
    in_order lt zs \<and> (\<forall>k. filter (same_key lt k) zs = filter (same_key lt k) xs)"
proof -
  obtain h' zs where s: "list_sort_loop lt l h = Some h'" "list_rep h' l zs" "mset zs = mset xs"
    "in_order lt zs" "\<forall>k. filter (same_key lt k) zs = filter (same_key lt k) xs"
    using list_sort_loop_rep [OF lt r] by blast
  have "is_sorted lt h' (first_of l zs) (list_tail l) = Some True"
    using is_sorted_rep [of h' l "[]" zs "[]" lt] s less_func.no_descent_in_order [OF lt, of zs] by simp
  then have "list_sort l lt h = Some h'"
    using s(1,2) list_rep_not_NULL [OF r] by (simp add: list_sort_def list_begin_rep list_end_rep)
  with s show ?thesis by blast
qed

section \<open>Properties\<close>

text \<open>
  C14 \<^verbatim>\<open>list_sort\<close>, the in-place natural merge sort, returns on every list and every
  comparison function of the contract, none of its assertions fails, and the list it leaves
  is a permutation of the old one, in order, in which equal elements keep their order.
\<close>

theorem list_sort_correct:
  assumes "less_func lt" and "list_rep h l xs"
  shows "\<exists>h' zs. list_sort l lt h = Some h' \<and> list_rep h' l zs \<and> mset zs = mset xs \<and>
    in_order lt zs \<and> (\<forall>k. filter (same_key lt k) zs = filter (same_key lt k) xs)"
  by (rule list_sort_rep [OF assms])

theorem list_sort_correct_witness:
  "\<exists>h' zs. list_sort 100 (<) demo_links = Some h' \<and> list_rep h' 100 zs \<and>
    mset zs = mset [300, 200, 400] \<and> in_order (<) zs \<and>
    (\<forall>k. filter (same_key (<) k) zs = filter (same_key (<) k) [300, 200, 400])"
  by (rule list_sort_correct [OF less_func_key [of "\<lambda>x. x"] demo_links_rep])

text \<open>
  \<^verbatim>\<open>list_unique\<close> on an ordered list: what stays has no two equal elements, what is
  removed goes to the second list behind its old elements, and no element is lost.
\<close>

theorem list_unique_ordered:
  assumes "less_func lt" and "list_rep h l (x # xs)" and "in_order lt (x # xs)"
    and "list_rep h d ds" and "set (nodes d ds) \<inter> set (nodes l (x # xs)) = {}"
  shows "\<exists>h' ks rs. list_unique l (Some d) lt h = Some h' \<and> list_rep h' l (x # ks) \<and>
    list_rep h' d (ds @ rs) \<and> mset (ks @ rs) = mset xs \<and> sorted_wrt lt (x # ks)"
proof -
  let ?ks = "fst (unique_split lt x xs)" and ?rs = "snd (unique_split lt x xs)"
  obtain h' where "list_unique l (Some d) lt h = Some h'" "list_rep h' l (x # ?ks)"
    "dups_rep h' (Some d) (ds @ ?rs) (set (nodes l (x # ?ks)))"
    using list_unique_rep [OF assms(2), of "Some d" ds lt] assms(4,5) by (auto simp: dups_rep_def)
  then show ?thesis
    using less_func.unique_split_strict [OF assms(1,3)] unique_split_mset [of xs lt x]
    by (auto simp: dups_rep_def)
qed

definition demo_two :: links where
  "demo_two = \<lparr>link_prev = (\<lambda>_. 0)(108 := 400, 400 := 300, 300 := 200, 200 := 100, 508 := 500),
     link_next = (\<lambda>_. 0)(100 := 200, 200 := 300, 300 := 400, 400 := 108, 500 := 508)\<rparr>"

theorem list_unique_ordered_witness:
  "\<exists>h' ks rs. list_unique 100 (Some 500) (\<lambda>a b. a div 200 < b div 200) demo_two = Some h' \<and>
    list_rep h' 100 (200 # ks) \<and> list_rep h' 500 ([] @ rs) \<and> mset (ks @ rs) = mset [300, 400] \<and>
    sorted_wrt (\<lambda>a b. a div 200 < b div 200) (200 # ks)"
  by (rule list_unique_ordered [OF less_func_key [of "\<lambda>x. x div 200"]])
    (simp_all add: list_rep_def chain_def nodes_def demo_two_def list_head_def list_tail_def
      sizeof_list_elem_def)

text \<open>\<^verbatim>\<open>list_reverse\<close> reverses the list in place and touches nothing else.\<close>

theorem list_reverse_correct:
  assumes "list_rep h l xs"
  shows "\<exists>h' h''. list_reverse l h = Some h' \<and> list_rep h' l (rev xs) \<and>
    unchanged (set (nodes l xs)) h h' \<and> list_reverse l h' = Some h'' \<and> list_rep h'' l xs"
proof -
  obtain h' where h': "list_reverse l h = Some h'" "list_rep h' l (rev xs)"
    "unchanged (set (nodes l xs)) h h'" using list_reverse_rep [OF assms] by blast
  obtain h'' where "list_reverse l h' = Some h''" "list_rep h'' l xs"
    using list_reverse_rep [OF h'(2)] by auto
  with h' show ?thesis by blast
qed

theorem list_reverse_correct_witness:
  "\<exists>h' h''. list_reverse 100 demo_links = Some h' \<and> list_rep h' 100 (rev [300, 200, 400]) \<and>
    unchanged (set (nodes 100 [300, 200, 400])) demo_links h' \<and>
    list_reverse 100 h' = Some h'' \<and> list_rep h'' 100 [300, 200, 400]"
  by (rule list_reverse_correct [OF demo_links_rep])

end
