(* ===== verification/Bitmap.thy ===== *)
theory Bitmap
  imports Pintos_Prelude
begin

text \<open>
  The bitmaps of \<^verbatim>\<open>lib/kernel/bitmap.c\<close>: an array of 32-bit elements read as an array of
  bits. Sizes and indexes are \<^verbatim>\<open>size_t\<close> values, natural numbers below \<open>2 ^ 32\<close> with the
  wrap-around of additions written out. An access beyond the element array is \<open>None\<close>, like a
  failed assertion. \<open>bm_bits\<close> is the array of bits a bitmap stands for; every operation is
  characterised on it, and the contract the page allocator and the free map rely on is the
  locale \<open>bit_allocator\<close>.
\<close>

section \<open>Representation\<close>

definition size_add :: "nat \<Rightarrow> nat \<Rightarrow> nat" where
  "size_add a b = (a + b) mod 2 ^ 32"

definition ELEM_BITS :: nat where "ELEM_BITS = 32"

definition BITMAP_ERROR :: nat where "BITMAP_ERROR = 2 ^ 32 - 1"

record bitmap =
  bit_cnt :: nat
  bits :: "u32 list"

definition elem_idx :: "nat \<Rightarrow> nat" where
  "elem_idx bit_idx = bit_idx div ELEM_BITS"

definition bit_mask :: "nat \<Rightarrow> u32" where
  "bit_mask bit_idx = push_bit (bit_idx mod ELEM_BITS) 1"

definition elem_cnt :: "nat \<Rightarrow> nat" where
  "elem_cnt bit_count = size_add bit_count (ELEM_BITS - 1) div ELEM_BITS"

definition byte_cnt :: "nat \<Rightarrow> nat" where
  "byte_cnt bit_count = 4 * elem_cnt bit_count"

definition last_mask :: "bitmap \<Rightarrow> u32" where
  "last_mask b =
     (let last_bits = bit_cnt b mod ELEM_BITS
      in if last_bits \<noteq> 0 then push_bit last_bits 1 - 1 else - 1)"

section \<open>Single bits\<close>

text \<open>Read-modify-write of one element of the array.\<close>

definition upd_elem :: "bitmap \<Rightarrow> nat \<Rightarrow> (u32 \<Rightarrow> u32) \<Rightarrow> bitmap option" where
  "upd_elem b idx f = do {
     ASSERT (idx < length (bits b));
     Some (b\<lparr>bits := (bits b)[idx := f (bits b ! idx)]\<rparr>) }"

definition bitmap_mark :: "bitmap \<Rightarrow> nat \<Rightarrow> bitmap option" where
  "bitmap_mark b bit_idx = upd_elem b (elem_idx bit_idx) (\<lambda>w. w OR bit_mask bit_idx)"

definition bitmap_reset :: "bitmap \<Rightarrow> nat \<Rightarrow> bitmap option" where
  "bitmap_reset b bit_idx = upd_elem b (elem_idx bit_idx) (\<lambda>w. w AND NOT (bit_mask bit_idx))"

definition bitmap_flip :: "bitmap \<Rightarrow> nat \<Rightarrow> bitmap option" where
  "bitmap_flip b bit_idx = upd_elem b (elem_idx bit_idx) (\<lambda>w. w XOR bit_mask bit_idx)"

definition bitmap_size :: "bitmap \<Rightarrow> nat" where
  "bitmap_size b = bit_cnt b"

definition bitmap_set :: "bitmap \<Rightarrow> nat \<Rightarrow> bool \<Rightarrow> bitmap option" where
  "bitmap_set b idx value = do {
     ASSERT (idx < bit_cnt b);
     if value then bitmap_mark b idx else bitmap_reset b idx }"

definition bitmap_test :: "bitmap \<Rightarrow> nat \<Rightarrow> bool option" where
  "bitmap_test b idx = do {
     ASSERT (idx < bit_cnt b);
     ASSERT (elem_idx idx < length (bits b));
     Some ((bits b ! elem_idx idx) AND bit_mask idx \<noteq> 0) }"

section \<open>Multiple bits\<close>

text \<open>The loops count \<open>i\<close> from 0 to \<open>cnt\<close>; the last argument is \<open>cnt - i\<close>.\<close>

fun set_multiple_loop :: "bitmap \<Rightarrow> nat \<Rightarrow> bool \<Rightarrow> nat \<Rightarrow> nat \<Rightarrow> bitmap option" where
  "set_multiple_loop b start value i 0 = Some b"
| "set_multiple_loop b start value i (Suc n) = do {
     b' \<leftarrow> bitmap_set b (size_add start i) value;
     set_multiple_loop b' start value (Suc i) n }"

definition bitmap_set_multiple :: "bitmap \<Rightarrow> nat \<Rightarrow> nat \<Rightarrow> bool \<Rightarrow> bitmap option" where
  "bitmap_set_multiple b start cnt value = do {
     ASSERT (start \<le> bit_cnt b);
     ASSERT (size_add start cnt \<le> bit_cnt b);
     set_multiple_loop b start value 0 cnt }"

definition bitmap_set_all :: "bitmap \<Rightarrow> bool \<Rightarrow> bitmap option" where
  "bitmap_set_all b value = bitmap_set_multiple b 0 (bitmap_size b) value"

fun count_loop :: "bitmap \<Rightarrow> nat \<Rightarrow> bool \<Rightarrow> nat \<Rightarrow> nat \<Rightarrow> nat \<Rightarrow> nat option" where
  "count_loop b start value value_cnt i 0 = Some value_cnt"
| "count_loop b start value value_cnt i (Suc n) = do {
     t \<leftarrow> bitmap_test b (size_add start i);
     count_loop b start value (if t = value then value_cnt + 1 else value_cnt) (Suc i) n }"

definition bitmap_count :: "bitmap \<Rightarrow> nat \<Rightarrow> nat \<Rightarrow> bool \<Rightarrow> nat option" where
  "bitmap_count b start cnt value = do {
     ASSERT (start \<le> bit_cnt b);
     ASSERT (size_add start cnt \<le> bit_cnt b);
     count_loop b start value 0 0 cnt }"

fun contains_loop :: "bitmap \<Rightarrow> nat \<Rightarrow> bool \<Rightarrow> nat \<Rightarrow> nat \<Rightarrow> bool option" where
  "contains_loop b start value i 0 = Some False"
| "contains_loop b start value i (Suc n) = do {
     t \<leftarrow> bitmap_test b (size_add start i);
     if t = value then Some True else contains_loop b start value (Suc i) n }"

definition bitmap_contains :: "bitmap \<Rightarrow> nat \<Rightarrow> nat \<Rightarrow> bool \<Rightarrow> bool option" where
  "bitmap_contains b start cnt value = do {
     ASSERT (start \<le> bit_cnt b);
     ASSERT (size_add start cnt \<le> bit_cnt b);
     contains_loop b start value 0 cnt }"

definition bitmap_any :: "bitmap \<Rightarrow> nat \<Rightarrow> nat \<Rightarrow> bool option" where
  "bitmap_any b start cnt = bitmap_contains b start cnt True"

definition bitmap_none :: "bitmap \<Rightarrow> nat \<Rightarrow> nat \<Rightarrow> bool option" where
  "bitmap_none b start cnt = map_option Not (bitmap_contains b start cnt True)"

definition bitmap_all :: "bitmap \<Rightarrow> nat \<Rightarrow> nat \<Rightarrow> bool option" where
  "bitmap_all b start cnt = map_option Not (bitmap_contains b start cnt False)"

text \<open>The scan loop runs \<open>i\<close> up to \<^verbatim>\<open>last\<close>, which is \<open>bit_cnt - cnt\<close>.\<close>

function scan_loop :: "bitmap \<Rightarrow> nat \<Rightarrow> bool \<Rightarrow> nat \<Rightarrow> nat \<Rightarrow> nat option" where
  "scan_loop b cnt value las i =
     (if i \<le> las
      then do {
        c \<leftarrow> bitmap_contains b i cnt (\<not> value);
        if \<not> c then Some i else scan_loop b cnt value las (Suc i) }
      else Some BITMAP_ERROR)"
  by pat_completeness auto
termination
  by (relation "measure (\<lambda>(b, cnt, value, las, i). Suc las - i)") auto

definition bitmap_scan :: "bitmap \<Rightarrow> nat \<Rightarrow> nat \<Rightarrow> bool \<Rightarrow> nat option" where
  "bitmap_scan b start cnt value = do {
     ASSERT (start \<le> bit_cnt b);
     if cnt \<le> bit_cnt b then scan_loop b cnt value (bit_cnt b - cnt) start
     else Some BITMAP_ERROR }"

definition bitmap_scan_and_flip ::
  "bitmap \<Rightarrow> nat \<Rightarrow> nat \<Rightarrow> bool \<Rightarrow> (nat \<times> bitmap) option" where
  "bitmap_scan_and_flip b start cnt value = do {
     idx \<leftarrow> bitmap_scan b start cnt value;
     if idx \<noteq> BITMAP_ERROR
     then do { b' \<leftarrow> bitmap_set_multiple b idx cnt (\<not> value); Some (idx, b') }
     else Some (idx, b) }"

section \<open>Creation\<close>

definition bitmap_buf_size :: "nat \<Rightarrow> nat" where
  "bitmap_buf_size bit_count = 8 + byte_cnt bit_count"

text \<open>
  The storage comes from \<^verbatim>\<open>malloc\<close> or from the caller, with unspecified contents: the
  arguments \<open>hdr\<close> (did the allocation of the header succeed) and \<open>mem\<close> (the element array, \<open>None\<close>
  when its allocation failed, and always \<open>None\<close> for zero bytes). The result
  \<open>Some None\<close> is the null pointer.
\<close>

definition bitmap_create :: "bool \<Rightarrow> u32 list option \<Rightarrow> nat \<Rightarrow> bitmap option option" where
  "bitmap_create hdr mem bit_count =
     (if hdr then
        (if mem \<noteq> None \<or> bit_count = 0
         then map_option Some
           (bitmap_set_all \<lparr>bit_cnt = bit_count, bits = (case mem of None \<Rightarrow> [] | Some w \<Rightarrow> w)\<rparr> False)
         else Some None)
      else Some None)"

definition bitmap_create_in_buf :: "nat \<Rightarrow> u32 list \<Rightarrow> nat \<Rightarrow> bitmap option" where
  "bitmap_create_in_buf bit_count block block_size = do {
     ASSERT (block_size \<ge> bitmap_buf_size bit_count);
     bitmap_set_all \<lparr>bit_cnt = bit_count, bits = block\<rparr> False }"

definition bitmap_file_size :: "bitmap \<Rightarrow> nat" where
  "bitmap_file_size b = byte_cnt (bit_cnt b)"


section \<open>The array of bits\<close>

definition bm_wf :: "bitmap \<Rightarrow> bool" where
  "bm_wf b \<longleftrightarrow> bit_cnt b + ELEM_BITS \<le> 2 ^ 32 \<and> elem_cnt (bit_cnt b) \<le> length (bits b)"

definition bm_bits :: "bitmap \<Rightarrow> bool list" where
  "bm_bits b = map (\<lambda>i. bit (bits b ! (i div 32)) (i mod 32)) [0..<bit_cnt b]"

lemma length_bm_bits [simp]: "length (bm_bits b) = bit_cnt b"
  by (simp add: bm_bits_def)

lemma bm_bits_nth [simp]:
  "i < bit_cnt b \<Longrightarrow> bm_bits b ! i = bit (bits b ! (i div 32)) (i mod 32)"
  by (simp add: bm_bits_def)

lemma elem_idx_bound: "bm_wf b \<Longrightarrow> i < bit_cnt b \<Longrightarrow> i div 32 < length (bits b)"
  by (auto simp: bm_wf_def elem_cnt_def size_add_def ELEM_BITS_def)

lemma bit_bit_mask [simp]:
  "j < 32 \<Longrightarrow> bit (bit_mask i) j \<longleftrightarrow> j = i mod 32"
  by (auto simp: bit_mask_def ELEM_BITS_def bit_simps)

lemma upd_elem_bits:
  assumes wf: "bm_wf b" and i: "i < bit_cnt b"
    and f: "\<And>w j. j < 32 \<Longrightarrow> bit (f w) j = (if j = i mod 32 then g (bit w j) else bit w j)"
  shows "\<exists>b'. upd_elem b (elem_idx i) f = Some b' \<and> bm_wf b' \<and> bit_cnt b' = bit_cnt b \<and>
    bm_bits b' = (bm_bits b)[i := g (bm_bits b ! i)]"
proof -
  let ?b = "b\<lparr>bits := (bits b)[i div 32 := f (bits b ! (i div 32))]\<rparr>"
  have lt: "i div 32 < length (bits b)" using elem_idx_bound [OF wf i] .
  have "bm_bits ?b = (bm_bits b)[i := g (bm_bits b ! i)]"
  proof (rule nth_equalityI)
    fix k assume "k < length (bm_bits ?b)"
    then have k: "k < bit_cnt b" by simp
    have "k div 32 = i div 32 \<and> k mod 32 = i mod 32 \<longleftrightarrow> k = i"
      by (metis div_mult_mod_eq)
    then show "bm_bits ?b ! k = (bm_bits b)[i := g (bm_bits b ! i)] ! k"
      using k i lt by (auto simp: nth_list_update bm_bits_def f)
  qed simp
  moreover have "bm_wf ?b" using wf by (simp add: bm_wf_def)
  moreover have "upd_elem b (elem_idx i) f = Some ?b"
    using lt by (simp add: upd_elem_def elem_idx_def ELEM_BITS_def)
  ultimately show ?thesis by auto
qed

lemma bitmap_mark_bits:
  "bm_wf b \<Longrightarrow> i < bit_cnt b \<Longrightarrow>
     \<exists>b'. bitmap_mark b i = Some b' \<and> bm_wf b' \<and> bit_cnt b' = bit_cnt b \<and> bm_bits b' = (bm_bits b)[i := True]"
  unfolding bitmap_mark_def using upd_elem_bits [of b i _ "\<lambda>_. True"] by (simp add: bit_or_iff)

lemma bitmap_reset_bits:
  "bm_wf b \<Longrightarrow> i < bit_cnt b \<Longrightarrow>
     \<exists>b'. bitmap_reset b i = Some b' \<and> bm_wf b' \<and> bit_cnt b' = bit_cnt b \<and> bm_bits b' = (bm_bits b)[i := False]"
  unfolding bitmap_reset_def using upd_elem_bits [of b i _ "\<lambda>_. False"]
  by (simp add: bit_and_iff bit_not_iff)

lemma bitmap_flip_bits:
  "bm_wf b \<Longrightarrow> i < bit_cnt b \<Longrightarrow>
     \<exists>b'. bitmap_flip b i = Some b' \<and> bm_wf b' \<and> bit_cnt b' = bit_cnt b \<and>
       bm_bits b' = (bm_bits b)[i := \<not> bm_bits b ! i]"
  unfolding bitmap_flip_def using upd_elem_bits [of b i _ Not] by (simp add: bit_xor_iff)

lemma bitmap_set_bits:
  "bm_wf b \<Longrightarrow> i < bit_cnt b \<Longrightarrow>
     \<exists>b'. bitmap_set b i v = Some b' \<and> bm_wf b' \<and> bit_cnt b' = bit_cnt b \<and> bm_bits b' = (bm_bits b)[i := v]"
  using bitmap_mark_bits [of b i] bitmap_reset_bits [of b i] by (cases v) (simp_all add: bitmap_set_def)

lemma bitmap_test_bits:
  "bm_wf b \<Longrightarrow> i < bit_cnt b \<Longrightarrow> bitmap_test b i = Some (bm_bits b ! i)"
  using elem_idx_bound [of b i]
  by (simp add: bitmap_test_def elem_idx_def ELEM_BITS_def bit_mask_def bit_iff_and_push_bit_not_eq_0)

lemma bitmap_test_out: "\<not> i < bit_cnt b \<Longrightarrow> bitmap_test b i = None"
  by (simp add: bitmap_test_def)

text \<open>Ranges: the bits from \<open>s\<close> to \<open>s + n\<close>, exclusive.\<close>

definition set_range :: "bool list \<Rightarrow> nat \<Rightarrow> nat \<Rightarrow> bool \<Rightarrow> bool list" where
  "set_range xs s n v = take s xs @ replicate n v @ drop (s + n) xs"

lemma length_set_range [simp]: "s + n \<le> length xs \<Longrightarrow> length (set_range xs s n v) = length xs"
  by (simp add: set_range_def)

lemma nth_set_range:
  "s + n \<le> length xs \<Longrightarrow> k < length xs \<Longrightarrow>
     set_range xs s n v ! k = (if s \<le> k \<and> k < s + n then v else xs ! k)"
  by (auto simp: set_range_def nth_append nth_take)

lemma set_range_Suc:
  "s + Suc n \<le> length xs \<Longrightarrow> set_range (xs[s := v]) (Suc s) n v = set_range xs s (Suc n) v"
  by (rule nth_equalityI) (auto simp: nth_set_range nth_list_update)

lemma size_add_small [simp]: "a + b < 2 ^ 32 \<Longrightarrow> size_add a b = a + b"
  by (simp add: size_add_def)

lemma bm_wf_bound: "bm_wf b \<Longrightarrow> k \<le> bit_cnt b \<Longrightarrow> k < 2 ^ 32"
  by (simp add: bm_wf_def ELEM_BITS_def)

lemma set_multiple_loop_bits:
  "bm_wf b \<Longrightarrow> s + i + n \<le> bit_cnt b \<Longrightarrow>
     \<exists>b'. set_multiple_loop b s v i n = Some b' \<and> bm_wf b' \<and> bit_cnt b' = bit_cnt b \<and>
       bm_bits b' = set_range (bm_bits b) (s + i) n v"
proof (induction n arbitrary: b i)
  case 0
  then show ?case by (simp add: set_range_def)
next
  case (Suc n)
  have sz: "size_add s i = s + i"
    using bm_wf_bound [OF Suc.prems(1), of "s + i"] Suc.prems(2) by simp
  obtain b1 where b1: "bitmap_set b (s + i) v = Some b1" "bm_wf b1" "bit_cnt b1 = bit_cnt b"
    "bm_bits b1 = (bm_bits b)[s + i := v]"
    using bitmap_set_bits [OF Suc.prems(1), of "s + i" v] Suc.prems(2) by auto
  obtain b2 where "set_multiple_loop b1 s v (Suc i) n = Some b2" "bm_wf b2" "bit_cnt b2 = bit_cnt b1"
    "bm_bits b2 = set_range (bm_bits b1) (s + Suc i) n v"
    using Suc.IH [OF b1(2), of "Suc i"] Suc.prems(2) b1(3) by auto
  with b1 sz set_range_Suc [of "s + i" n "bm_bits b" v] Suc.prems(2) show ?case by simp
qed

lemma bitmap_set_multiple_bits:
  "bm_wf b \<Longrightarrow> s + n \<le> bit_cnt b \<Longrightarrow>
     \<exists>b'. bitmap_set_multiple b s n v = Some b' \<and> bm_wf b' \<and> bit_cnt b' = bit_cnt b \<and>
       bm_bits b' = set_range (bm_bits b) s n v"
  using set_multiple_loop_bits [of b s 0 n v] bm_wf_bound [of b "s + n"]
  by (simp add: bitmap_set_multiple_def)

lemma bitmap_set_all_bits:
  "bm_wf b \<Longrightarrow>
     \<exists>b'. bitmap_set_all b v = Some b' \<and> bm_wf b' \<and> bit_cnt b' = bit_cnt b \<and>
       bm_bits b' = replicate (bit_cnt b) v"
  using bitmap_set_multiple_bits [of b 0 "bit_cnt b" v]
  by (simp add: bitmap_set_all_def bitmap_size_def set_range_def)

lemma ex_range_Suc:
  "(\<exists>k. a \<le> k \<and> k < a + Suc n \<and> P k) \<longleftrightarrow> P a \<or> (\<exists>k. Suc a \<le> k \<and> k < Suc a + n \<and> P k)"
  (is "?l \<longleftrightarrow> ?r")
proof
  assume ?l
  then obtain k where "a \<le> k" "k < a + Suc n" "P k" by blast
  then show ?r by (cases "k = a") (auto intro!: exI [of _ k])
next
  assume ?r
  then show ?l
  proof
    assume "P a"
    then show ?l by (intro exI [of _ a]) simp
  next
    assume "\<exists>k. Suc a \<le> k \<and> k < Suc a + n \<and> P k"
    then obtain k where "Suc a \<le> k" "k < Suc a + n" "P k" by blast
    then show ?l by (intro exI [of _ k]) simp
  qed
qed

lemma contains_loop_bits:
  "bm_wf b \<Longrightarrow> s + i + n \<le> bit_cnt b \<Longrightarrow>
     contains_loop b s v i n = Some (\<exists>k. s + i \<le> k \<and> k < s + i + n \<and> bm_bits b ! k = v)"
proof (induction n arbitrary: i)
  case 0
  then show ?case by auto
next
  case (Suc n)
  have sz: "size_add s i = s + i"
    using bm_wf_bound [OF Suc.prems(1), of "s + i"] Suc.prems(2) by simp
  have t: "bitmap_test b (s + i) = Some (bm_bits b ! (s + i))"
    using bitmap_test_bits [OF Suc.prems(1)] Suc.prems(2) by simp
  with Suc.IH [of "Suc i"] Suc.prems sz show ?case
    using ex_range_Suc [of "s + i" n "\<lambda>k. bm_bits b ! k = v"] by simp
qed


lemma bitmap_contains_bits:
  "bm_wf b \<Longrightarrow> s + n \<le> bit_cnt b \<Longrightarrow>
     bitmap_contains b s n v = Some (\<exists>k. s \<le> k \<and> k < s + n \<and> bm_bits b ! k = v)"
  using contains_loop_bits [of b s 0 n v] bm_wf_bound [of b "s + n"]
  by (simp add: bitmap_contains_def)

lemma bitmap_all_bits:
  "bm_wf b \<Longrightarrow> s + n \<le> bit_cnt b \<Longrightarrow>
     bitmap_all b s n = Some (\<forall>k. s \<le> k \<and> k < s + n \<longrightarrow> bm_bits b ! k)"
  by (auto simp: bitmap_all_def bitmap_contains_bits simp del: bm_bits_nth)

lemma count_loop_bits:
  "bm_wf b \<Longrightarrow> s + i + n \<le> bit_cnt b \<Longrightarrow>
     count_loop b s v c i n = Some (c + length (filter (\<lambda>x. x = v) (take n (drop (s + i) (bm_bits b)))))"
proof (induction n arbitrary: i c)
  case 0
  then show ?case by simp
next
  case (Suc n)
  have sz: "size_add s i = s + i"
    using bm_wf_bound [OF Suc.prems(1), of "s + i"] Suc.prems(2) by simp
  have t: "bitmap_test b (s + i) = Some (bm_bits b ! (s + i))"
    using bitmap_test_bits [OF Suc.prems(1)] Suc.prems(2) by simp
  have "drop (s + i) (bm_bits b) = bm_bits b ! (s + i) # drop (s + Suc i) (bm_bits b)"
    using Suc.prems(2) Cons_nth_drop_Suc [of "s + i" "bm_bits b"] by simp
  with Suc.IH [of "Suc i"] Suc.prems sz t show ?case by (simp del: bm_bits_nth)
qed

lemma bitmap_count_bits:
  "bm_wf b \<Longrightarrow> s + n \<le> bit_cnt b \<Longrightarrow>
     bitmap_count b s n v = Some (length (filter (\<lambda>x. x = v) (take n (drop s (bm_bits b)))))"
  using count_loop_bits [of b s 0 n v 0] bm_wf_bound [of b "s + n"]
  by (simp add: bitmap_count_def)

text \<open>The first group of \<open>n\<close> bits equal to \<open>v\<close> at or after \<open>s\<close>.\<close>

definition group_at :: "bool list \<Rightarrow> nat \<Rightarrow> bool \<Rightarrow> nat \<Rightarrow> bool" where
  "group_at xs n v i \<longleftrightarrow> i + n \<le> length xs \<and> (\<forall>k. i \<le> k \<and> k < i + n \<longrightarrow> xs ! k = v)"

definition first_group :: "bool list \<Rightarrow> nat \<Rightarrow> nat \<Rightarrow> bool \<Rightarrow> nat \<Rightarrow> bool" where
  "first_group xs s n v i \<longleftrightarrow> s \<le> i \<and> group_at xs n v i \<and> (\<forall>j. s \<le> j \<and> j < i \<longrightarrow> \<not> group_at xs n v j)"

lemma bitmap_contains_group:
  "bm_wf b \<Longrightarrow> i + n \<le> bit_cnt b \<Longrightarrow> bitmap_contains b i n (\<not> v) = Some (\<not> group_at (bm_bits b) n v i)"
  by (auto simp: bitmap_contains_bits group_at_def simp del: bm_bits_nth)

lemma scan_loop_bits:
  assumes wf: "bm_wf b" and n: "n \<le> bit_cnt b"
  shows "(\<exists>i. scan_loop b n v (bit_cnt b - n) s = Some i \<and> first_group (bm_bits b) s n v i) \<or>
    scan_loop b n v (bit_cnt b - n) s = Some BITMAP_ERROR \<and> (\<forall>i\<ge>s. \<not> group_at (bm_bits b) n v i)"
proof (induction "Suc (bit_cnt b - n) - s" arbitrary: s)
  case 0
  then have "\<not> s \<le> bit_cnt b - n" by simp
  then show ?case using n by (subst scan_loop.simps) (auto simp: group_at_def)
next
  case (Suc m)
  then have le: "s \<le> bit_cnt b - n" and m: "m = Suc (bit_cnt b - n) - Suc s" by auto
  have c: "bitmap_contains b s n (\<not> v) = Some (\<not> group_at (bm_bits b) n v s)"
    using bitmap_contains_group [OF wf] le n by simp
  show ?case
  proof (cases "group_at (bm_bits b) n v s")
    case True
    then have "scan_loop b n v (bit_cnt b - n) s = Some s"
      by (subst scan_loop.simps) (use le c in simp)
    with True show ?thesis by (auto simp: first_group_def)
  next
    case False
    then have "scan_loop b n v (bit_cnt b - n) s = scan_loop b n v (bit_cnt b - n) (Suc s)"
      by (subst scan_loop.simps) (use le c in simp)
    moreover have "first_group (bm_bits b) (Suc s) n v i \<Longrightarrow> first_group (bm_bits b) s n v i" for i
      using False by (auto simp: first_group_def) (metis Suc_leI le_neq_implies_less)
    moreover have "(\<forall>i\<ge>Suc s. \<not> group_at (bm_bits b) n v i) \<Longrightarrow> (\<forall>i\<ge>s. \<not> group_at (bm_bits b) n v i)"
      using False by (metis Suc_leI le_neq_implies_less)
    ultimately show ?thesis using Suc.hyps(1) [OF m] by metis
  qed
qed

lemma bitmap_scan_bits:
  assumes wf: "bm_wf b" and s: "s \<le> bit_cnt b"
  shows "(\<exists>i. bitmap_scan b s n v = Some i \<and> first_group (bm_bits b) s n v i) \<or>
    bitmap_scan b s n v = Some BITMAP_ERROR \<and> (\<forall>i\<ge>s. \<not> group_at (bm_bits b) n v i)"
proof (cases "n \<le> bit_cnt b")
  case True
  then show ?thesis using scan_loop_bits [OF wf True, of v s] s by (simp add: bitmap_scan_def)
next
  case False
  then show ?thesis using s by (simp add: bitmap_scan_def group_at_def)
qed

lemma first_group_bound: "bm_wf b \<Longrightarrow> first_group (bm_bits b) s n v i \<Longrightarrow> i \<noteq> BITMAP_ERROR"
  using bm_wf_bound [of b "i + n"] by (auto simp: first_group_def group_at_def BITMAP_ERROR_def bm_wf_def ELEM_BITS_def)

lemma bitmap_scan_and_flip_bits:
  assumes wf: "bm_wf b" and s: "s \<le> bit_cnt b"
  shows "(\<exists>i b'. bitmap_scan_and_flip b s n v = Some (i, b') \<and> i \<noteq> BITMAP_ERROR \<and> bm_wf b' \<and>
      first_group (bm_bits b) s n v i \<and> bm_bits b' = set_range (bm_bits b) i n (\<not> v)) \<or>
    bitmap_scan_and_flip b s n v = Some (BITMAP_ERROR, b) \<and> (\<forall>i\<ge>s. \<not> group_at (bm_bits b) n v i)"
proof -
  consider i where "bitmap_scan b s n v = Some i" "first_group (bm_bits b) s n v i"
    | "bitmap_scan b s n v = Some BITMAP_ERROR" "\<forall>i\<ge>s. \<not> group_at (bm_bits b) n v i"
    using bitmap_scan_bits [OF wf s] by blast
  then show ?thesis
  proof cases
    case (1 i)
    then have "i + n \<le> bit_cnt b" by (simp add: first_group_def group_at_def)
    then obtain b' where "bitmap_set_multiple b i n (\<not> v) = Some b'" "bm_wf b'"
      "bm_bits b' = set_range (bm_bits b) i n (\<not> v)"
      using bitmap_set_multiple_bits [OF wf, of i n] by blast
    with 1 first_group_bound [OF wf 1(2)] show ?thesis by (auto simp: bitmap_scan_and_flip_def)
  next
    case 2
    then show ?thesis by (simp add: bitmap_scan_and_flip_def)
  qed
qed

section \<open>The contract of an allocator of consecutive bits\<close>

text \<open>
  The page allocator (\<^verbatim>\<open>palloc.c\<close>) and the free map (\<^verbatim>\<open>free-map.c\<close>) use a bitmap as a pool:
  \<open>alloc\<close> is \<open>bitmap_scan_and_flip\<close> for clear bits from 0, \<open>release\<close> is
  \<open>bitmap_set_multiple\<close> to false.
\<close>

locale bit_allocator =
  fixes wf :: "'b \<Rightarrow> bool" and bits_of :: "'b \<Rightarrow> bool list" and err :: nat
    and alloc :: "'b \<Rightarrow> nat \<Rightarrow> (nat \<times> 'b) option"
    and release :: "'b \<Rightarrow> nat \<Rightarrow> nat \<Rightarrow> 'b option"
  assumes alloc_cases: "wf b \<Longrightarrow>
      (\<exists>i b'. alloc b n = Some (i, b') \<and> i \<noteq> err \<and> wf b' \<and> first_group (bits_of b) 0 n False i \<and>
         bits_of b' = set_range (bits_of b) i n True) \<or>
      alloc b n = Some (err, b) \<and> (\<forall>i. \<not> group_at (bits_of b) n False i)"
    and release_ok: "wf b \<Longrightarrow> i + n \<le> length (bits_of b) \<Longrightarrow>
      \<exists>b'. release b i n = Some b' \<and> wf b' \<and> bits_of b' = set_range (bits_of b) i n False"
begin

lemma alloc_some:
  assumes "wf b" "alloc b n = Some (i, b')" "i \<noteq> err"
  shows "wf b' \<and> first_group (bits_of b) 0 n False i \<and> bits_of b' = set_range (bits_of b) i n True"
  using alloc_cases [OF assms(1), of n] assms(2,3) by auto

lemma alloc_fresh:
  assumes "wf b" "alloc b n = Some (i, b')" "i \<noteq> err"
  shows "i + n \<le> length (bits_of b) \<and>
    (\<forall>k. i \<le> k \<and> k < i + n \<longrightarrow> \<not> bits_of b ! k \<and> bits_of b' ! k)"
  using alloc_some [OF assms] by (auto simp: first_group_def group_at_def nth_set_range)

text \<open>What is allocated is not handed out again while it is held.\<close>

lemma alloc_disjoint:
  assumes "wf b" "alloc b n = Some (i, b1)" "i \<noteq> err" "alloc b1 m = Some (j, b2)" "j \<noteq> err"
  shows "{i..<i + n} \<inter> {j..<j + m} = {}"
proof -
  have "wf b1" using alloc_some [OF assms(1-3)] by blast
  then have "\<not> bits_of b1 ! k" if "j \<le> k" "k < j + m" for k
    using alloc_fresh [OF _ assms(4,5)] that by blast
  moreover have "bits_of b1 ! k" if "i \<le> k" "k < i + n" for k
    using alloc_fresh [OF assms(1-3)] that by blast
  ultimately show ?thesis by fastforce
qed

text \<open>Releasing what was allocated restores the pool.\<close>

lemma alloc_release:
  assumes "wf b" "alloc b n = Some (i, b1)" "i \<noteq> err"
  shows "\<exists>b2. release b1 i n = Some b2 \<and> wf b2 \<and> bits_of b2 = bits_of b"
proof -
  have b1: "wf b1" "bits_of b1 = set_range (bits_of b) i n True" "group_at (bits_of b) n False i"
    using alloc_some [OF assms] by (auto simp: first_group_def)
  then have le: "i + n \<le> length (bits_of b)" by (simp add: group_at_def)
  obtain b2 where b2: "release b1 i n = Some b2" "wf b2"
    "bits_of b2 = set_range (bits_of b1) i n False"
    using release_ok [OF b1(1), of i n] b1(2) le by auto
  have "bits_of b2 = bits_of b"
    by (rule nth_equalityI) (use b1 b2(3) le in \<open>auto simp: nth_set_range group_at_def\<close>)
  with b2 show ?thesis by blast
qed

end

interpretation bm: bit_allocator bm_wf bm_bits BITMAP_ERROR
  "\<lambda>b n. bitmap_scan_and_flip b 0 n False" "\<lambda>b i n. bitmap_set_multiple b i n False"
proof unfold_locales
  fix b :: bitmap and n
  assume "bm_wf b"
  from bitmap_scan_and_flip_bits [OF this, of 0 n False]
  show "(\<exists>i b'. bitmap_scan_and_flip b 0 n False = Some (i, b') \<and> i \<noteq> BITMAP_ERROR \<and> bm_wf b' \<and>
      first_group (bm_bits b) 0 n False i \<and> bm_bits b' = set_range (bm_bits b) i n True) \<or>
    bitmap_scan_and_flip b 0 n False = Some (BITMAP_ERROR, b) \<and>
      (\<forall>i. \<not> group_at (bm_bits b) n False i)"
    by simp
next
  fix b :: bitmap and i n
  assume "bm_wf b" "i + n \<le> length (bm_bits b)"
  then show "\<exists>b'. bitmap_set_multiple b i n False = Some b' \<and> bm_wf b' \<and>
      bm_bits b' = set_range (bm_bits b) i n False"
    using bitmap_set_multiple_bits [of b i n False] by auto
qed

section \<open>Properties\<close>

definition demo_bitmap :: bitmap where
  "demo_bitmap = \<lparr>bit_cnt = 40, bits = [0xFFFFFF0F, 0xFE]\<rparr>"

lemma demo_bitmap_wf: "bm_wf demo_bitmap"
  by (simp add: bm_wf_def demo_bitmap_def elem_cnt_def size_add_def ELEM_BITS_def)

lemma bitmap_scan_and_flip_zero:
  assumes "bm_wf b" "start \<le> bit_cnt b"
  shows "bitmap_scan_and_flip b start 0 v = Some (start, b)"
proof -
  obtain i b' where f: "bitmap_scan_and_flip b start 0 v = Some (i, b')" "first_group (bm_bits b) start 0 v i"
    using bitmap_scan_and_flip_bits [OF assms, of 0 v] assms by (fastforce simp: group_at_def)
  have "group_at (bm_bits b) 0 v start" using assms unfolding group_at_def by (auto simp del: bm_bits_nth)
  then have "i = start" using f(2) by (auto simp: first_group_def not_less_iff_gr_or_eq)
  moreover have "b' = b"
    using f(1) by (auto simp: bitmap_scan_and_flip_def bitmap_set_multiple_def bind_eq_Some_conv ASSERT_def split: if_splits)
  ultimately show ?thesis using f(1) by simp
qed

text \<open>
  C15 \<^verbatim>\<open>bitmap_scan_and_flip\<close> returns the first group of \<open>cnt\<close> consecutive bits, at \<open>start\<close> or behind it, that all have
  the wanted value and flips exactly those bits, or reports that no group exists and leaves the
  bitmap alone. It never fails an assertion for a start inside the bitmap. A group of no bits is found at once: for a \<open>cnt\<close> of
  zero the result is \<open>start\<close> and the bitmap stays as it is, where the comment in the code says that the result is 0.
\<close>

theorem bitmap_scan_and_flip_correct:
  assumes "bm_wf b" and "start \<le> bit_cnt b"
  shows "((\<exists>i b'. bitmap_scan_and_flip b start cnt v = Some (i, b') \<and> i \<noteq> BITMAP_ERROR \<and> bm_wf b' \<and>
      first_group (bm_bits b) start cnt v i \<and> bm_bits b' = set_range (bm_bits b) i cnt (\<not> v)) \<or>
    bitmap_scan_and_flip b start cnt v = Some (BITMAP_ERROR, b) \<and>
      (\<forall>i\<ge>start. \<not> group_at (bm_bits b) cnt v i)) \<and>
    bitmap_scan_and_flip b start 0 v = Some (start, b)"
  using bitmap_scan_and_flip_bits [OF assms] bitmap_scan_and_flip_zero [OF assms] by blast

theorem bitmap_scan_and_flip_correct_witness:
  "((\<exists>i b'. bitmap_scan_and_flip demo_bitmap 1 2 False = Some (i, b') \<and> i \<noteq> BITMAP_ERROR \<and> bm_wf b' \<and>
      first_group (bm_bits demo_bitmap) 1 2 False i \<and>
      bm_bits b' = set_range (bm_bits demo_bitmap) i 2 (\<not> False)) \<or>
    bitmap_scan_and_flip demo_bitmap 1 2 False = Some (BITMAP_ERROR, demo_bitmap) \<and>
      (\<forall>i\<ge>1. \<not> group_at (bm_bits demo_bitmap) 2 False i)) \<and>
    bitmap_scan_and_flip demo_bitmap 1 0 False = Some (1, demo_bitmap)"
  by (rule bitmap_scan_and_flip_correct [OF demo_bitmap_wf]) (simp add: demo_bitmap_def)

text \<open>
  \<^verbatim>\<open>bitmap_count\<close> and \<^verbatim>\<open>bitmap_contains\<close> agree with the bits they stand for on every range inside
  the bitmap, and \<^verbatim>\<open>bitmap_set_multiple\<close> changes exactly its range, so that the count of set bits
  in the range is then the whole range.
\<close>

theorem bitmap_set_then_count:
  assumes "bm_wf b" and "start + cnt \<le> bit_cnt b"
  shows "\<exists>b'. bitmap_set_multiple b start cnt v = Some b' \<and> bm_wf b' \<and>
    bm_bits b' = set_range (bm_bits b) start cnt v \<and>
    bitmap_count b' start cnt v = Some cnt \<and>
    bitmap_contains b' start cnt (\<not> v) = Some False"
proof -
  obtain b' where b': "bitmap_set_multiple b start cnt v = Some b'" "bm_wf b'"
    "bm_bits b' = set_range (bm_bits b) start cnt v"
    using bitmap_set_multiple_bits [OF assms] by blast
  then have len: "bit_cnt b' = bit_cnt b" using length_bm_bits [of b'] assms(2) by simp
  have all: "\<forall>k. start \<le> k \<and> k < start + cnt \<longrightarrow> bm_bits b' ! k = v"
    using b'(3) assms(2) by (simp add: nth_set_range del: bm_bits_nth)
  then have "\<forall>x\<in>set (take cnt (drop start (bm_bits b'))). x = v"
    using assms(2) len by (auto simp: in_set_conv_nth simp del: bm_bits_nth)
  then have "filter (\<lambda>x. x = v) (take cnt (drop start (bm_bits b'))) = take cnt (drop start (bm_bits b'))"
    by simp
  then have "bitmap_count b' start cnt v = Some cnt"
    using bitmap_count_bits [OF b'(2), of start cnt v] assms(2) len by simp
  moreover have "bitmap_contains b' start cnt (\<not> v) = Some False"
    using bitmap_contains_bits [OF b'(2), of start cnt "\<not> v"] assms(2) len all
    by (auto simp del: bm_bits_nth)
  ultimately show ?thesis using b' by blast
qed

theorem bitmap_set_then_count_witness:
  "\<exists>b'. bitmap_set_multiple demo_bitmap 30 6 True = Some b' \<and> bm_wf b' \<and>
    bm_bits b' = set_range (bm_bits demo_bitmap) 30 6 True \<and>
    bitmap_count b' 30 6 True = Some 6 \<and> bitmap_contains b' 30 6 (\<not> True) = Some False"
  by (rule bitmap_set_then_count [OF demo_bitmap_wf]) (simp add: demo_bitmap_def)

end
