(* ===== verification/Fixed_Point.thy ===== *)
theory Fixed_Point
  imports Complex_Main Pintos_Prelude
begin

text \<open>
  The 17.14 fixed-point arithmetic of \<^verbatim>\<open>threads/fixed-point.h\<close> and the three formulas of the
  multi-level feedback queue scheduler (\<^verbatim>\<open>threads/thread.c\<close>) built from it. Values are the
  integers of a 32-bit \<^verbatim>\<open>int\<close>; every macro that computes in \<^verbatim>\<open>int\<close> reduces its result with \<open>s32\<close>,
  the two that go through \<^verbatim>\<open>int64_t\<close> reduce once at the cast (a product of two \<^verbatim>\<open>int\<close> values always
  fits \<^verbatim>\<open>int64_t\<close>). A division by zero is \<open>None\<close>. The lemmas show for which loads no reduction
  happens, and that priorities are always within their range.
\<close>

section \<open>The macros\<close>

definition FP_Q :: nat where "FP_Q = 14"

definition FP_F :: int where "FP_F = 2 ^ FP_Q"

definition FP_FROM_INT :: "int \<Rightarrow> int" where
  "FP_FROM_INT n = s32 (n * FP_F)"

definition FP_TO_INT_TRUNC :: "int \<Rightarrow> int" where
  "FP_TO_INT_TRUNC x = c_div x FP_F"

definition FP_TO_INT_ROUND :: "int \<Rightarrow> int" where
  "FP_TO_INT_ROUND x =
     (if x \<ge> 0 then c_div (s32 (x + c_div FP_F 2)) FP_F else c_div (s32 (x - c_div FP_F 2)) FP_F)"

definition FP_ADD :: "int \<Rightarrow> int \<Rightarrow> int" where
  "FP_ADD x y = s32 (x + y)"

definition FP_SUB :: "int \<Rightarrow> int \<Rightarrow> int" where
  "FP_SUB x y = s32 (x - y)"

definition FP_ADD_INT :: "int \<Rightarrow> int \<Rightarrow> int" where
  "FP_ADD_INT x n = s32 (x + s32 (n * FP_F))"

definition FP_SUB_INT :: "int \<Rightarrow> int \<Rightarrow> int" where
  "FP_SUB_INT x n = s32 (x - s32 (n * FP_F))"

definition FP_MUL :: "int \<Rightarrow> int \<Rightarrow> int" where
  "FP_MUL x y = s32 (c_div (x * y) FP_F)"

definition FP_MUL_INT :: "int \<Rightarrow> int \<Rightarrow> int" where
  "FP_MUL_INT x n = s32 (x * n)"

definition FP_DIV :: "int \<Rightarrow> int \<Rightarrow> int option" where
  "FP_DIV x y = (if y = 0 then None else Some (s32 (c_div (x * FP_F) y)))"

definition FP_DIV_INT :: "int \<Rightarrow> int \<Rightarrow> int option" where
  "FP_DIV_INT x n = (if n = 0 then None else Some (s32 (c_div x n)))"

section \<open>The scheduler's formulas\<close>

definition PRI_MIN :: int where "PRI_MIN = 0"
definition PRI_DEFAULT :: int where "PRI_DEFAULT = 31"
definition PRI_MAX :: int where "PRI_MAX = 63"

text \<open>\<open>priority_formula\<close>: the value \<^verbatim>\<open>thread_priority_calc_mlfqs\<close> assigns.\<close>

definition priority_formula :: "int \<Rightarrow> int \<Rightarrow> int option" where
  "priority_formula recent_cpu nice = do {
     q \<leftarrow> FP_DIV_INT recent_cpu 4;
     let new_priority = FP_TO_INT_TRUNC (FP_SUB (FP_SUB (FP_FROM_INT PRI_MAX) q)
                          (FP_FROM_INT (s32 (nice * 2))));
     let new_priority = (if new_priority > PRI_MAX then PRI_MAX else new_priority);
     let new_priority = (if new_priority < PRI_MIN then PRI_MIN else new_priority);
     Some new_priority }"

text \<open>\<open>recent_cpu_formula\<close>: the value \<^verbatim>\<open>thread_recent_cpu_calc_mlfqs\<close> assigns.\<close>

definition recent_cpu_formula :: "int \<Rightarrow> int \<Rightarrow> int \<Rightarrow> int option" where
  "recent_cpu_formula load_avg recent_cpu nice = do {
     coeff \<leftarrow> FP_DIV (FP_MUL_INT load_avg 2) (FP_ADD_INT (FP_MUL_INT load_avg 2) 1);
     Some (FP_ADD_INT (FP_MUL coeff recent_cpu) nice) }"

text \<open>\<open>load_avg_formula\<close>: the value \<^verbatim>\<open>load_avg_calc_mlfqs\<close> assigns.\<close>

definition load_avg_formula :: "int \<Rightarrow> int \<Rightarrow> int option" where
  "load_avg_formula load_avg ready_threads =
     FP_DIV_INT (FP_ADD_INT (FP_MUL_INT load_avg 59) ready_threads) 60"

section \<open>Ranges\<close>

lemma FP_F_val: "FP_F = 16384" by (simp add: FP_F_def FP_Q_def)

lemma s32_val: "- 2147483648 \<le> x \<Longrightarrow> x \<le> 2147483647 \<Longrightarrow> s32 x = x"
  by (rule s32_id) (simp add: in_s32_def)

lemma c_div_between:
  assumes "0 < b" "- (b * m) \<le> a" "a \<le> b * n" "0 \<le> m" "0 \<le> n"
  shows "- m \<le> c_div a b" "c_div a b \<le> n"
proof -
  have "c_div (- (b * m)) b = - m" using assms by (simp add: c_div_neg)
  with c_div_mono [OF assms(2,1)] show "- m \<le> c_div a b" by simp
  have "c_div (b * n) b = n" using assms by simp
  with c_div_mono [OF assms(3,1)] show "c_div a b \<le> n" by simp
qed

lemma priority_formula_range:
  "\<exists>p. priority_formula recent_cpu nice = Some p \<and> PRI_MIN \<le> p \<and> p \<le> PRI_MAX"
  by (auto simp: priority_formula_def FP_DIV_INT_def Let_def PRI_MIN_def PRI_MAX_def)

text \<open>
  As long as \<^verbatim>\<open>nice\<close> is not far outside of its documented range (-20 to 20) nothing wraps, whatever \<^verbatim>\<open>recent_cpu\<close> is. \<^verbatim>\<open>thread_set_nice\<close>
  accepts any \<^verbatim>\<open>int\<close>; for a large one the formula wraps around.
\<close>

lemma priority_formula_exact:
  assumes "in_s32 recent_cpu" "\<bar>nice\<bar> \<le> 40000"
  shows "priority_formula recent_cpu nice =
    Some (max 0 (min 63 (c_div (63 * 16384 - c_div recent_cpu 4 - nice * 2 * 16384) 16384)))"
proof -
  have "- 536870912 \<le> c_div recent_cpu 4" "c_div recent_cpu 4 \<le> 536870912"
    using c_div_between [of 4 536870912 recent_cpu 536870912] assms by (auto simp: in_s32_def)
  then show ?thesis using assms(2)
    by (simp add: priority_formula_def FP_DIV_INT_def FP_SUB_def FP_FROM_INT_def FP_TO_INT_TRUNC_def
        FP_F_val PRI_MIN_def PRI_MAX_def Let_def s32_val)
qed

lemma nice_wraps_around: "priority_formula 0 70000 = Some PRI_MAX"
  by (simp add: priority_formula_def FP_DIV_INT_def FP_SUB_def FP_FROM_INT_def FP_TO_INT_TRUNC_def FP_F_val PRI_MIN_def PRI_MAX_def s32_def)

text \<open>C division is the quotient rounded toward zero.\<close>

lemma c_div_real:
  assumes "0 < b"
  shows "\<bar>real_of_int (c_div a b) - a / b\<bar> < 1" "0 \<le> a \<Longrightarrow> c_div a b \<le> a / b" "a \<le> 0 \<Longrightarrow> c_div a b \<ge> a / b"
proof -
  have f: "x div b = \<lfloor>x / b\<rfloor>" for x by (simp add: floor_divide_of_int_eq)
  show le: "c_div a b \<le> a / b" if "0 \<le> a" using that assms by (simp add: f)
  show ge: "c_div a b \<ge> a / b" if "a \<le> 0"
    using that assms of_int_floor_le [of "- (real_of_int a / b)"] by (simp add: c_div_neg f [of "- a"]) linarith
  show "\<bar>real_of_int (c_div a b) - a / b\<bar> < 1"
  proof (cases "0 \<le> a")
    case True
    then show ?thesis using le assms by (simp add: f abs_less_iff) linarith
  next
    case False
    then show ?thesis using ge assms by (simp add: c_div_neg f [of "- a"] abs_less_iff) linarith
  qed
qed

text \<open>
  The load average is a weighted mean of the numbers of ready threads: with at most \<open>R\<close> of them,
  and \<open>R\<close> at most 2184, it stays between 0 and \<open>R\<close> and no intermediate value wraps.
\<close>

lemma load_avg_formula_exact:
  assumes "0 \<le> la" "la \<le> R * FP_F" "0 \<le> r" "r \<le> R" "R \<le> 2184"
  shows "load_avg_formula la r = Some ((59 * la + r * FP_F) div 60)"
    "0 \<le> (59 * la + r * FP_F) div 60" "(59 * la + r * FP_F) div 60 \<le> R * FP_F"
proof -
  have b: "la \<le> R * 16384" "R * 16384 \<le> 2184 * 16384" "r * 16384 \<le> R * 16384"
    using assms by (auto simp: FP_F_val)
  have q: "0 \<le> (59 * la + r * 16384) div 60" "(59 * la + r * 16384) div 60 \<le> R * 16384"
    using assms b by (auto simp: pos_imp_zdiv_nonneg_iff)
  then show "load_avg_formula la r = Some ((59 * la + r * FP_F) div 60)"
    using assms b
    by (simp add: load_avg_formula_def FP_DIV_INT_def FP_ADD_INT_def FP_MUL_INT_def FP_F_val s32_val
        mult.commute)
  show "0 \<le> (59 * la + r * FP_F) div 60" "(59 * la + r * FP_F) div 60 \<le> R * FP_F"
    using q by (simp_all add: FP_F_val)
qed

text \<open>
  The decay factor \<open>2 * load_avg / (2 * load_avg + 1)\<close> is below one, so that \<^verbatim>\<open>recent_cpu\<close> stays
  bounded: with at most \<open>R\<close> threads (\<open>R\<close> at most 545), 100 ticks a second and a \<^verbatim>\<open>nice\<close> of at most
  20, its magnitude before the recalculation never exceeds \<open>cpu_bound R\<close>, and nothing wraps.
\<close>

definition cpu_bound :: "int \<Rightarrow> int" where
  "cpu_bound R = 120 * FP_F * (2 * R + 1)"

lemma decay_factor:
  assumes "0 \<le> la" "la \<le> R * FP_F" "0 \<le> R"
  defines "c \<equiv> (2 * la * FP_F) div (2 * la + FP_F)"
  shows "0 \<le> c" "c < FP_F" "c * (2 * R + 1) \<le> 2 * R * FP_F"
proof -
  have F: "0 < FP_F" by (simp add: FP_F_val)
  let ?d = "2 * la + FP_F"
  have d: "0 < ?d" using assms(1) F by simp
  show c0: "0 \<le> c" unfolding c_def using assms(1) F d by (simp add: pos_imp_zdiv_nonneg_iff)
  have cd: "c * ?d \<le> 2 * la * FP_F"
    unfolding c_def using pos_mod_sign [OF d, of "2 * la * FP_F"]
      div_mult_mod_eq [of "2 * la * FP_F" ?d] by linarith
  then have "c * FP_F \<le> 2 * la * (FP_F - c)" by (simp add: algebra_simps)
  moreover have lt: "c < FP_F"
  proof (rule ccontr)
    assume "\<not> c < FP_F"
    then have "FP_F * ?d \<le> c * ?d" using d by (intro mult_right_mono) auto
    with cd mult_pos_pos [OF F F] show False by (simp add: algebra_simps)
  qed
  ultimately have "c * FP_F \<le> 2 * (R * FP_F) * (FP_F - c)"
    using assms(2) by (meson mult_left_mono mult_right_mono order.trans diff_ge_0_iff_ge less_imp_le zero_le_numeral)
  then have "c * FP_F \<le> (2 * R * (FP_F - c)) * FP_F" by (simp add: algebra_simps)
  then have "c \<le> 2 * R * (FP_F - c)" using F by simp
  then show "c * (2 * R + 1) \<le> 2 * R * FP_F" by (simp add: algebra_simps)
  show "c < FP_F" by (rule lt)
qed

lemma recent_cpu_formula_exact:
  assumes la: "0 \<le> la" "la \<le> R * FP_F" and R: "0 \<le> R" "R \<le> 545"
    and rc: "\<bar>rc\<bar> \<le> cpu_bound R" and nice: "\<bar>nice\<bar> \<le> 20"
  defines "c \<equiv> (2 * la * FP_F) div (2 * la + FP_F)"
  defines "rc' \<equiv> c_div (c * rc) FP_F + nice * FP_F"
  shows "recent_cpu_formula la rc nice = Some rc'" "\<bar>rc'\<bar> + 100 * FP_F \<le> cpu_bound R"
proof -
  note c = decay_factor [OF la R(1), folded c_def]
  let ?q = "c_div (c * rc) FP_F" and ?m = "2 * R * (120 * FP_F)"
  have "c * \<bar>rc\<bar> \<le> c * cpu_bound R" using rc c(1) by (rule mult_left_mono)
  also have "\<dots> = c * (2 * R + 1) * (120 * FP_F)" by (simp add: cpu_bound_def)
  also have "\<dots> \<le> 2 * R * FP_F * (120 * FP_F)"
    by (rule mult_right_mono [OF c(3)]) (simp add: FP_F_val)
  finally have "c * \<bar>rc\<bar> \<le> FP_F * ?m" by (simp add: algebra_simps)
  then have ab: "\<bar>c * rc\<bar> \<le> FP_F * ?m" using c(1) by (simp add: abs_mult)
  have q: "- ?m \<le> ?q" "?q \<le> ?m"
    using c_div_between [of FP_F ?m "c * rc" ?m] ab R(1) by (simp_all add: FP_F_val abs_le_iff)
  have la2: "la \<le> 545 * 16384" using la(2) R(2) by (simp add: FP_F_val)
  have coeff: "FP_DIV (FP_MUL_INT la 2) (FP_ADD_INT (FP_MUL_INT la 2) 1) = Some c"
    using la(1) la2 c(1,2)
    by (simp add: FP_DIV_def FP_MUL_INT_def FP_ADD_INT_def FP_F_val s32_val c_def mult.commute)
  have m: "?m \<le> 2 * 545 * (120 * 16384)" using R by (simp add: FP_F_val)
  have "FP_MUL c rc = ?q"
    unfolding FP_MUL_def by (rule s32_val) (use q m in linarith)+
  moreover have "s32 (nice * FP_F) = nice * FP_F"
    by (rule s32_val) (use nice in \<open>auto simp: FP_F_val abs_le_iff\<close>)
  moreover have n: "- (20 * FP_F) \<le> nice * FP_F" "nice * FP_F \<le> 20 * FP_F"
    using nice by (auto simp: FP_F_val abs_le_iff)
  moreover have "s32 (?q + nice * FP_F) = ?q + nice * FP_F"
    by (rule s32_val) (use q m n in \<open>simp add: FP_F_val\<close>)+
  ultimately show "recent_cpu_formula la rc nice = Some rc'"
    unfolding rc'_def by (simp only: recent_cpu_formula_def coeff bind.bind_lunit) (simp add: FP_ADD_INT_def)
  show "\<bar>rc'\<bar> + 100 * FP_F \<le> cpu_bound R"
    using q n unfolding cpu_bound_def rc'_def by (simp add: abs_le_iff algebra_simps)
qed

text \<open>How far the two rounded operations are from the formula over the real numbers.\<close>

lemma recent_cpu_error:
  assumes la: "0 \<le> la"
  defines "c \<equiv> (2 * la * FP_F) div (2 * la + FP_F)"
  shows "\<bar>real_of_int (c_div (c * rc) FP_F) - 2 * la / (2 * la + FP_F) * rc\<bar> \<le> \<bar>rc\<bar> / FP_F + 1"
proof -
  have F: "0 < FP_F" by (simp add: FP_F_val)
  define D :: real where "D = 2 * la * FP_F / (2 * la + FP_F)"
  have "real_of_int c \<le> D" "D < real_of_int c + 1" unfolding c_def D_def
    using floor_divide_of_int_eq [of "2 * la * FP_F" "2 * la + FP_F", where ?'a = real]
      floor_correct [of "real_of_int (2 * la * FP_F) / real_of_int (2 * la + FP_F)"] by simp_all
  then have "\<bar>c - D\<bar> * \<bar>rc\<bar> \<le> 1 * real_of_int \<bar>rc\<bar>" by (intro mult_mono) auto
  then have "\<bar>(c - D) * rc / FP_F\<bar> \<le> \<bar>rc\<bar> / FP_F" using F by (simp add: abs_mult divide_right_mono)
  moreover have "(c - D) * rc / FP_F = real_of_int (c * rc) / FP_F - 2 * la / (2 * la + FP_F) * rc"
    using F la by (simp add: D_def field_simps)
  moreover have "\<bar>real_of_int (c_div (c * rc) FP_F) - real_of_int (c * rc) / FP_F\<bar> < 1" by (rule c_div_real(1) [OF F])
  ultimately show ?thesis by linarith
qed

text \<open>Limiting two numbers to a range does not move them apart.\<close>

lemma limit_close: "\<bar>max a (min b y) - max a (min b x)\<bar> \<le> \<bar>y - x\<bar>" for a b x y :: real
  by (simp add: max_def min_def)

section \<open>Properties\<close>

text \<open>
  C12 The priority of the feedback scheduler is \<open>PRI_MAX - recent_cpu / 4 - 2 * nice\<close>, limited to the range of priorities and rounded to an integer, with an
  error below \<open>1 + 2 ^ -14\<close>, and never outside of the range: for every \<^verbatim>\<open>int\<close> as \<^verbatim>\<open>recent_cpu\<close> and each \<^verbatim>\<open>nice\<close> of a magnitude up to 40000, far
  beyond the documented 20. (The code does not check \<^verbatim>\<open>nice\<close>; for 70000 the computation wraps around.)
\<close>

theorem mlfqs_priority_value:
  assumes "in_s32 c" "\<bar>n\<bar> \<le> 40000"
  shows "\<exists>p. priority_formula c n = Some p \<and> PRI_MIN \<le> p \<and> p \<le> PRI_MAX \<and>
    \<bar>real_of_int p - max PRI_MIN (min PRI_MAX (PRI_MAX - (c / FP_F) / 4 - 2 * n))\<bar> < 1 + 1 / 2 ^ 14"
proof -
  define N where "N = 63 * 16384 - c_div c 4 - n * 2 * 16384"
  define x :: real where "x = 63 - (c / 16384) / 4 - 2 * n"
  have "real_of_int N = 16384 * x + (c / 4 - c_div c 4)" by (simp add: N_def x_def field_simps)
  then have "\<bar>N / 16384 - x\<bar> < 1 / 16384" using c_div_real(1) [of 4 c] by (simp add: abs_less_iff field_simps)
  moreover have "\<bar>real_of_int (c_div N 16384) - N / 16384\<bar> < 1" using c_div_real(1) [of 16384 N] by simp
  ultimately have "\<bar>real_of_int (c_div N 16384) - x\<bar> < 1 + 1 / 2 ^ 14" unfolding abs_less_iff by (simp add: field_simps)
  then have "\<bar>real_of_int (max 0 (min 63 (c_div N 16384))) - max 0 (min 63 x)\<bar> < 1 + 1 / 2 ^ 14"
    using limit_close [of 0 63 "c_div N 16384" x] by (simp only: of_int_max of_int_min of_int_0 of_int_numeral)
  then show ?thesis using priority_formula_exact [OF assms] by (simp add: N_def x_def PRI_MIN_def PRI_MAX_def FP_F_val)
qed

theorem mlfqs_priority_value_witness:
  "\<exists>p. priority_formula 819200 5 = Some p \<and> PRI_MIN \<le> p \<and> p \<le> PRI_MAX \<and>
    \<bar>real_of_int p - max PRI_MIN (min PRI_MAX (PRI_MAX - (819200 / FP_F) / 4 - 2 * 5))\<bar> < 1 + 1 / 2 ^ 14"
  using mlfqs_priority_value [of 819200 5] by (simp add: in_s32_def)

text \<open>
  C13 The recalculation that runs once per second, in a system of at most \<open>R\<close> ready threads, \<open>R\<close> at most 545, for a thread whose \<^verbatim>\<open>nice\<close> is in the documented
  range of -20 to 20: no operation overflows, so \<^verbatim>\<open>load_avg\<close> becomes 59/60 of its value plus 1/60 of the number of ready threads and stays between
  0 and \<open>R\<close>, and \<^verbatim>\<open>recent_cpu\<close> becomes \<open>2 * load_avg / (2 * load_avg + 1) * recent_cpu + nice\<close> up to the rounding of the two fixed-point
  operations; it is so far below its bound that the 100 increments until the next recalculation keep it there.
\<close>

theorem mlfqs_second_bounded:
  assumes "0 \<le> la" "la \<le> R * FP_F" "0 \<le> r" "r \<le> R" "R \<le> 545" "\<bar>rc\<bar> \<le> cpu_bound R" "\<bar>nice\<bar> \<le> 20"
  shows "\<exists>la' rc'. load_avg_formula la r = Some la' \<and> la' = (59 * la + r * FP_F) div 60 \<and> 0 \<le> la' \<and> la' \<le> R * FP_F \<and>
    recent_cpu_formula la' rc nice = Some rc' \<and>
    rc' = c_div ((2 * la' * FP_F) div (2 * la' + FP_F) * rc) FP_F + nice * FP_F \<and>
    \<bar>real_of_int rc' - (2 * la' / (2 * la' + FP_F) * rc + nice * FP_F)\<bar> \<le> \<bar>rc\<bar> / FP_F + 1 \<and>
    \<bar>rc'\<bar> + 100 * FP_F \<le> cpu_bound R \<and> cpu_bound R < 2 ^ 31"
proof -
  define la' where "la' = (59 * la + r * FP_F) div 60"
  define rc' where "rc' = c_div ((2 * la' * FP_F) div (2 * la' + FP_F) * rc) FP_F + nice * FP_F"
  have R: "R \<le> 2184" "0 \<le> R" using assms by auto
  note la = load_avg_formula_exact [OF assms(1-4) R(1), folded la'_def]
  note rc = recent_cpu_formula_exact [OF la(2,3) R(2) assms(5-7), folded rc'_def]
  have "real_of_int rc' - (2 * la' / (2 * la' + FP_F) * rc + nice * FP_F) =
    real_of_int (c_div ((2 * la' * FP_F) div (2 * la' + FP_F) * rc) FP_F) - 2 * la' / (2 * la' + FP_F) * rc" by (simp add: rc'_def)
  then have "\<bar>real_of_int rc' - (2 * la' / (2 * la' + FP_F) * rc + nice * FP_F)\<bar> \<le> \<bar>rc\<bar> / FP_F + 1"
    using recent_cpu_error [OF la(2), of rc] by (simp only:)
  then have "\<bar>real_of_int rc' - (2 * real_of_int la' / real_of_int (2 * la' + FP_F) * rc + real_of_int (nice * FP_F))\<bar>
      \<le> \<bar>real_of_int rc\<bar> / FP_F + 1" by (simp only: of_int_mult of_int_numeral of_int_abs)
  moreover have "cpu_bound R < 2 ^ 31" using assms(5) by (simp add: cpu_bound_def FP_F_val)
  ultimately show ?thesis
    by - (rule exI [of _ la'], rule exI [of _ rc'], intro conjI la'_def rc'_def la rc)
qed

theorem mlfqs_second_bounded_witness:
  "\<exists>la' rc'. load_avg_formula 16384 3 = Some la' \<and> la' = (59 * 16384 + 3 * FP_F) div 60 \<and> 0 \<le> la' \<and> la' \<le> 60 * FP_F \<and>
    recent_cpu_formula la' 500000 (-5) = Some rc' \<and>
    rc' = c_div ((2 * la' * FP_F) div (2 * la' + FP_F) * 500000) FP_F + (-5) * FP_F \<and>
    \<bar>real_of_int rc' - (2 * la' / (2 * la' + FP_F) * 500000 + (-5) * FP_F)\<bar> \<le> 500000 / FP_F + 1 \<and>
    \<bar>rc'\<bar> + 100 * FP_F \<le> cpu_bound 60 \<and> cpu_bound 60 < 2 ^ 31"
  using mlfqs_second_bounded [of 16384 60 3 500000 "-5"] by (simp add: cpu_bound_def FP_F_val)

end
