(* ===== verification/Vaddr.thy ===== *)
theory Vaddr
  imports Pintos_Prelude
begin

text \<open>
  Virtual addresses (\<^verbatim>\<open>threads/vaddr.h\<close>): pages and the mapping of physical memory. An address is a natural
  number below \<open>2 ^ 32\<close>; masking the offset bits is the remainder of the division by the page size.
\<close>

definition PGBITS :: nat where "PGBITS = 12"
definition PGSIZE :: nat where "PGSIZE = 4096"
definition PHYS_BASE :: addr where "PHYS_BASE = 0xc0000000"

definition pg_ofs :: "addr \<Rightarrow> nat" where
  "pg_ofs va = va mod PGSIZE"

definition pg_no :: "addr \<Rightarrow> nat" where
  "pg_no va = va div 2 ^ PGBITS"

definition pg_round_up :: "addr \<Rightarrow> addr" where
  "pg_round_up va = (let x = (va + PGSIZE - 1) mod 2 ^ 32 in x - pg_ofs x)"

definition pg_round_down :: "addr \<Rightarrow> addr" where
  "pg_round_down va = va - pg_ofs va"

definition is_user_vaddr :: "addr \<Rightarrow> bool" where
  "is_user_vaddr vaddr \<longleftrightarrow> vaddr < PHYS_BASE"

definition is_kernel_vaddr :: "addr \<Rightarrow> bool" where
  "is_kernel_vaddr vaddr \<longleftrightarrow> vaddr \<ge> PHYS_BASE"

definition ptov :: "addr \<Rightarrow> addr option" where
  "ptov paddr = do { ASSERT (paddr < PHYS_BASE); Some ((paddr + PHYS_BASE) mod 2 ^ 32) }"

definition vtop :: "addr \<Rightarrow> addr option" where
  "vtop vaddr = do { ASSERT (is_kernel_vaddr vaddr); Some (vaddr - PHYS_BASE) }"

lemma PGSIZE_pow: "2 ^ PGBITS = PGSIZE"
  by (simp add: PGBITS_def PGSIZE_def)

lemma PGSIZE_pos [simp]: "0 < PGSIZE" "PGSIZE \<noteq> 0"
  by (simp_all add: PGSIZE_def)

lemma pg_round_down_eq: "pg_round_down va = PGSIZE * pg_no va"
  by (simp add: pg_round_down_def pg_no_def pg_ofs_def PGSIZE_pow minus_mod_eq_mult_div)

lemma pg_no_page [simp]: "pg_no (PGSIZE * n) = n" "pg_ofs (PGSIZE * n) = 0"
  by (simp_all add: pg_no_def pg_ofs_def PGSIZE_pow)

lemma pg_ofs_less: "pg_ofs va < PGSIZE"
  by (simp add: pg_ofs_def)

lemma pg_split: "va = PGSIZE * pg_no va + pg_ofs va"
  by (simp add: pg_no_def pg_ofs_def PGSIZE_pow)

lemma pg_no_add: "pg_ofs p = 0 \<Longrightarrow> pg_no (p + PGSIZE * n) = pg_no p + n"
  by (auto simp: pg_no_def pg_ofs_def PGSIZE_pow)

lemma vtop_ptov: "paddr < 2 ^ 32 - PHYS_BASE \<Longrightarrow> do { v \<leftarrow> ptov paddr; vtop v } = Some paddr"
  by (simp add: ptov_def vtop_def is_kernel_vaddr_def PHYS_BASE_def)

end
