(* ===== verification/Kernel_State.thy ===== *)
theory Kernel_State
  imports Kernel_List Fixed_Point Vaddr
begin

text \<open>
  The state of the kernel's threads, the interrupt level and the scheduler core of
  \<^verbatim>\<open>threads/thread.c\<close> (\<^verbatim>\<open>thread_current\<close>, \<^verbatim>\<open>thread_block\<close>, \<^verbatim>\<open>thread_unblock\<close>, \<^verbatim>\<open>thread_yield\<close>,
  \<^verbatim>\<open>thread_exit\<close>, \<^verbatim>\<open>schedule\<close>), for the kernel built without \<^verbatim>\<open>USERPROG\<close>.

  The machine has one processor. A stretch of code that runs with interrupts off and does not
  switch threads is atomic, so every operation is a function on the state up to the next point
  where another thread or an interrupt can intervene. What the thread still has to do when it
  continues is on its kernel stack: the field \<open>frames\<close> holds those return points, innermost
  first. \<open>None\<close> is a kernel panic (a failed assertion). The lists are those of
  \<open>Kernel_List\<close>, on the level of the represented element sequences.
\<close>

section \<open>Types\<close>

type_synonym tptr = addr

datatype intr_level = INTR_OFF | INTR_ON

datatype thread_status = THREAD_RUNNING | THREAD_READY | THREAD_BLOCKED | THREAD_DYING

text \<open>
  Which semaphore: one of a client, the one inside the lock at an address, the one that
  \<^verbatim>\<open>cond_wait\<close> has on the stack of a waiting thread, or \<^verbatim>\<open>idle_started\<close> on the stack of
  \<^verbatim>\<open>thread_start\<close>.
\<close>

datatype sref = Sema addr | Lock_Sema addr | Waiter_Sema tptr | Idle_Started

text \<open>Where \<^verbatim>\<open>sema_down\<close> returns to: its caller's end, or the second half of \<^verbatim>\<open>lock_acquire\<close>.\<close>

datatype after_down = Ret | Take addr

text \<open>What a new thread runs: the idle loop or code of a client.\<close>

datatype thread_func = Idle_func | Client_func

text \<open>
  The return points. \<open>Set_level\<close>: restore the interrupt level and return; \<open>Iret\<close>: return from an
  interrupt; \<open>Sema_loop\<close>: back in the loop of \<^verbatim>\<open>sema_down\<close>; \<open>Lock_take\<close>, \<open>Lock_hold\<close>: the ends of
  \<^verbatim>\<open>lock_acquire\<close> and \<^verbatim>\<open>lock_try_acquire\<close>; \<open>Sema_up\<close>, \<open>Sema_down\<close>, \<open>Lock_acquire\<close>: calls still to be
  made; \<open>Broadcast\<close>: the loop of \<^verbatim>\<open>cond_broadcast\<close>; \<open>Tid_take\<close>, \<open>Tid_store\<close>: in \<^verbatim>\<open>allocate_tid\<close> and
  after it; \<open>Create_rest\<close>, \<open>Create_check\<close>: the end of \<^verbatim>\<open>thread_create\<close>, up to \<^verbatim>\<open>thread_unblock\<close> and
  after it; \<open>Init_rest\<close>: the end of \<^verbatim>\<open>thread_init\<close>; \<open>Enable\<close>: \<^verbatim>\<open>intr_enable\<close> in \<^verbatim>\<open>thread_start\<close>;
  \<open>Kernel_thread\<close>: the first code of a thread; \<open>Idle_start\<close>, \<open>Idle_loop\<close>, \<open>Idle_sti\<close>: the beginning
  of the idle thread and the two halves of its loop; \<open>Sleep_done\<close>: the end of \<^verbatim>\<open>timer_sleep\<close>.
\<close>

datatype frame =
    Set_level intr_level
  | Iret
  | Sema_loop sref intr_level after_down
  | Sema_down sref after_down
  | Sema_up sref
  | Lock_take addr
  | Lock_hold addr
  | Lock_acquire addr
  | Broadcast addr addr
  | Tid_take tptr
  | Tid_store tptr int
  | Create_rest tptr thread_func
  | Create_check tptr
  | Init_rest
  | Enable
  | Kernel_thread thread_func
  | Idle_start
  | Idle_loop
  | Idle_sti
  | Sleep_done intr_level

record thread =
  tid :: int
  status :: thread_status
  name :: string
  stack :: nat
  base_priority :: int
  donations :: "(addr \<times> tptr) list"
  priority :: int
  waiting_lock :: addr
  nice :: int
  recent_cpu :: int
  magic :: u32
  frames :: "frame list"

record semaphore =
  sema_value :: u32
  waiters :: "tptr list"

record kstate =
  cur :: tptr
  threads :: "tptr \<Rightarrow> thread"
  ready_list :: "tptr list"
  all_list :: "tptr list"
  idle_thread :: tptr
  initial_thread :: tptr
  semas :: "sref \<Rightarrow> semaphore"
  holder :: "addr \<Rightarrow> tptr"
  cond_waiters :: "addr \<Rightarrow> tptr list"
  level :: intr_level
  in_external_intr :: bool
  yield_on_return :: bool
  thread_ticks :: u32
  idle_ticks :: int
  kernel_ticks :: int
  load_avg :: int
  mlfqs :: bool
  ticks :: int
  sleep_list :: "(int \<times> tptr) list"
  next_tid :: int

definition THREAD_MAGIC :: u32 where "THREAD_MAGIC = 0xcd6abf4b"
definition TIME_SLICE :: u32 where "TIME_SLICE = 4"

text \<open>The address of \<^verbatim>\<open>tid_lock\<close>.\<close>

definition TID_LOCK :: addr where "TID_LOCK = 4"

abbreviation prio :: "kstate \<Rightarrow> tptr \<Rightarrow> int" where
  "prio s t \<equiv> priority (threads s t)"

definition upd :: "tptr \<Rightarrow> (thread \<Rightarrow> thread) \<Rightarrow> kstate \<Rightarrow> kstate" where
  "upd t f s = s\<lparr>threads := (threads s)(t := f (threads s t))\<rparr>"

definition set_status :: "tptr \<Rightarrow> thread_status \<Rightarrow> kstate \<Rightarrow> kstate" where
  "set_status t st = upd t (\<lambda>th. th\<lparr>status := st\<rparr>)"

definition push :: "frame list \<Rightarrow> kstate \<Rightarrow> kstate" where
  "push fs s = upd (cur s) (\<lambda>th. th\<lparr>frames := fs @ frames th\<rparr>) s"

definition set_sema :: "sref \<Rightarrow> (semaphore \<Rightarrow> semaphore) \<Rightarrow> kstate \<Rightarrow> kstate" where
  "set_sema q f s = s\<lparr>semas := (semas s)(q := f (semas s q))\<rparr>"

section \<open>Interrupt level (\<^verbatim>\<open>threads/interrupt.c\<close>)\<close>

definition intr_context :: "kstate \<Rightarrow> bool" where
  "intr_context s = in_external_intr s"

definition intr_get_level :: "kstate \<Rightarrow> intr_level" where
  "intr_get_level s = level s"

definition intr_enable :: "kstate \<Rightarrow> (intr_level \<times> kstate) option" where
  "intr_enable s = do {
     let old_level = intr_get_level s;
     ASSERT (\<not> intr_context s);
     Some (old_level, s\<lparr>level := INTR_ON\<rparr>) }"

definition intr_disable :: "kstate \<Rightarrow> intr_level \<times> kstate" where
  "intr_disable s = (intr_get_level s, s\<lparr>level := INTR_OFF\<rparr>)"

definition intr_set_level :: "intr_level \<Rightarrow> kstate \<Rightarrow> (intr_level \<times> kstate) option" where
  "intr_set_level lev s = (if lev = INTR_ON then intr_enable s else Some (intr_disable s))"

text \<open>The common use, where the returned old level is ignored.\<close>

abbreviation restore_level :: "intr_level \<Rightarrow> kstate \<Rightarrow> kstate option" where
  "restore_level lev s \<equiv> map_option snd (intr_set_level lev s)"

definition intr_yield_on_return :: "kstate \<Rightarrow> kstate option" where
  "intr_yield_on_return s = do {
     ASSERT (intr_context s);
     Some (s\<lparr>yield_on_return := True\<rparr>) }"

section \<open>The scheduler\<close>

definition is_thread :: "kstate \<Rightarrow> tptr \<Rightarrow> bool" where
  "is_thread s t \<longleftrightarrow> t \<noteq> NULL \<and> magic (threads s t) = THREAD_MAGIC"

definition running_thread :: "kstate \<Rightarrow> tptr" where
  "running_thread s = cur s"

definition thread_current :: "kstate \<Rightarrow> tptr option" where
  "thread_current s = do {
     let t = running_thread s;
     ASSERT (is_thread s t);
     ASSERT (status (threads s t) = THREAD_RUNNING);
     Some t }"

definition priority_greater :: "kstate \<Rightarrow> tptr \<Rightarrow> tptr \<Rightarrow> bool" where
  "priority_greater s a b \<longleftrightarrow> prio s a > prio s b"

interpretation pg: less_func "priority_greater s" for s
  by unfold_locales (auto simp: priority_greater_def)

definition ready_insert :: "tptr \<Rightarrow> kstate \<Rightarrow> kstate" where
  "ready_insert t s = s\<lparr>ready_list := insert_ordered (priority_greater s) t (ready_list s)\<rparr>"

definition next_thread_to_run :: "kstate \<Rightarrow> tptr \<times> kstate" where
  "next_thread_to_run s =
     (case ready_list s of
        [] \<Rightarrow> (idle_thread s, s)
      | t # ts \<Rightarrow> (t, s\<lparr>ready_list := ts\<rparr>))"

text \<open>\<^verbatim>\<open>palloc_free_page\<close> overwrites a page with \<open>0xcc\<close>, which destroys the magic number.\<close>

definition free_thread_page :: "tptr \<Rightarrow> kstate \<Rightarrow> kstate" where
  "free_thread_page t = upd t (\<lambda>th. th\<lparr>magic := 0xcccccccc\<rparr>)"

definition thread_schedule_tail :: "tptr \<Rightarrow> kstate \<Rightarrow> kstate option" where
  "thread_schedule_tail prv s = do {
     let c = running_thread s;
     ASSERT (intr_get_level s = INTR_OFF);
     let s = set_status c THREAD_RUNNING s;
     let s = s\<lparr>thread_ticks := 0\<rparr>;
     if prv \<noteq> NULL \<and> status (threads s prv) = THREAD_DYING \<and> prv \<noteq> initial_thread s
     then do {
       ASSERT (prv \<noteq> c);
       Some (free_thread_page prv s) }
     else Some s }"

text \<open>\<^verbatim>\<open>switch_threads\<close> continues on the stack of the next thread and returns the previous one.\<close>

definition schedule :: "kstate \<Rightarrow> kstate option" where
  "schedule s = do {
     let c = running_thread s;
     let (nxt, s) = next_thread_to_run s;
     ASSERT (intr_get_level s = INTR_OFF);
     ASSERT (status (threads s c) \<noteq> THREAD_RUNNING);
     ASSERT (is_thread s nxt);
     if c \<noteq> nxt then thread_schedule_tail c (s\<lparr>cur := nxt\<rparr>) else thread_schedule_tail NULL s }"

definition thread_block :: "kstate \<Rightarrow> kstate option" where
  "thread_block s = do {
     ASSERT (\<not> intr_context s);
     ASSERT (intr_get_level s = INTR_OFF);
     c \<leftarrow> thread_current s;
     schedule (set_status c THREAD_BLOCKED s) }"

definition thread_unblock :: "tptr \<Rightarrow> kstate \<Rightarrow> kstate option" where
  "thread_unblock t s = do {
     ASSERT (is_thread s t);
     let (old_level, s) = intr_disable s;
     ASSERT (status (threads s t) = THREAD_BLOCKED);
     let s = ready_insert t s;
     let s = set_status t THREAD_READY s;
     restore_level old_level s }"

definition thread_yield :: "kstate \<Rightarrow> kstate option" where
  "thread_yield s = do {
     c \<leftarrow> thread_current s;
     ASSERT (\<not> intr_context s);
     let (old_level, s) = intr_disable s;
     let s = (if c \<noteq> idle_thread s then ready_insert c s else s);
     let s = set_status c THREAD_READY s;
     schedule (push [Set_level old_level] s) }"

definition thread_exit :: "kstate \<Rightarrow> kstate option" where
  "thread_exit s = do {
     ASSERT (\<not> intr_context s);
     let (_, s) = intr_disable s;
     c \<leftarrow> thread_current s;
     let s = s\<lparr>all_list := remove1 c (all_list s)\<rparr>;
     c \<leftarrow> thread_current s;
     schedule (set_status c THREAD_DYING s) }"

definition thread_tid :: "kstate \<Rightarrow> int option" where
  "thread_tid s = map_option (\<lambda>c. tid (threads s c)) (thread_current s)"

definition thread_name :: "kstate \<Rightarrow> string option" where
  "thread_name s = map_option (\<lambda>c. name (threads s c)) (thread_current s)"

primrec foreach_loop :: "(tptr \<Rightarrow> kstate \<Rightarrow> kstate option) \<Rightarrow> tptr list \<Rightarrow> kstate \<Rightarrow> kstate option" where
  "foreach_loop func [] s = Some s"
| "foreach_loop func (t # ts) s = do { s \<leftarrow> func t s; foreach_loop func ts s }"

definition thread_foreach :: "(tptr \<Rightarrow> kstate \<Rightarrow> kstate option) \<Rightarrow> kstate \<Rightarrow> kstate option" where
  "thread_foreach func s = do {
     ASSERT (intr_get_level s = INTR_OFF);
     foreach_loop func (all_list s) s }"

end
