(* ===== verification/Synch.thy ===== *)
theory Synch
  imports Kernel_State
begin

text \<open>
  \<^verbatim>\<open>threads/synch.c\<close>: semaphores, locks with priority donation, condition variables. An
  operation that can lose the processor leaves its return points on the caller's stack with
  \<open>push\<close>; they are carried out by the machine of \<open>Kernel_Machine\<close>. A \<^verbatim>\<open>donate_elem\<close> is the pair of
  the lock and the donor.
\<close>

section \<open>Semaphores\<close>

definition sema_init :: "sref \<Rightarrow> u32 \<Rightarrow> kstate \<Rightarrow> kstate" where
  "sema_init q v = set_sema q (\<lambda>_. \<lparr>sema_value = v, waiters = []\<rparr>)"

text \<open>Return from \<^verbatim>\<open>sema_down\<close> to its caller.\<close>

definition down_return :: "after_down \<Rightarrow> kstate \<Rightarrow> kstate" where
  "down_return k s = (case k of Ret \<Rightarrow> s | Take l \<Rightarrow> push [Lock_take l] s)"

text \<open>The loop of \<^verbatim>\<open>sema_down\<close>: the code at and after the test, entered with interrupts off.\<close>

definition sema_loop :: "sref \<Rightarrow> intr_level \<Rightarrow> after_down \<Rightarrow> kstate \<Rightarrow> kstate option" where
  "sema_loop q old_level k s =
     (if sema_value (semas s q) = 0
      then do {
        c \<leftarrow> thread_current s;
        let s = set_sema q (\<lambda>m. m\<lparr>waiters := waiters m @ [c]\<rparr>) s;
        thread_block (push [Sema_loop q old_level k] s) }
      else do {
        let s = set_sema q (\<lambda>m. m\<lparr>sema_value := sema_value m - 1\<rparr>) s;
        s \<leftarrow> restore_level old_level s;
        Some (down_return k s) })"

definition sema_down :: "sref \<Rightarrow> after_down \<Rightarrow> kstate \<Rightarrow> kstate option" where
  "sema_down q k s = do {
     ASSERT (\<not> intr_context s);
     let (old_level, s) = intr_disable s;
     sema_loop q old_level k s }"

definition sema_try_down :: "sref \<Rightarrow> kstate \<Rightarrow> (bool \<times> kstate) option" where
  "sema_try_down q s = do {
     let (old_level, s) = intr_disable s;
     let (success, s) =
       (if sema_value (semas s q) > 0
        then (True, set_sema q (\<lambda>m. m\<lparr>sema_value := sema_value m - 1\<rparr>) s)
        else (False, s));
     s \<leftarrow> restore_level old_level s;
     Some (success, s) }"

definition thread_priority_greater :: "kstate \<Rightarrow> tptr \<Rightarrow> tptr \<Rightarrow> bool" where
  "thread_priority_greater s a b \<longleftrightarrow> prio s a > prio s b"

interpretation tpg: less_func "thread_priority_greater s" for s
  by unfold_locales (auto simp: thread_priority_greater_def)

text \<open>Unblocking the waiter that \<^verbatim>\<open>sema_up\<close> chooses.\<close>

definition sema_wake :: "sref \<Rightarrow> kstate \<Rightarrow> kstate option" where
  "sema_wake q s =
     (case waiters (semas s q) of
        [] \<Rightarrow> Some s
      | w # ws \<Rightarrow>
          (let max_thread = first_min (thread_priority_greater s) w ws;
               s = set_sema q (\<lambda>m. m\<lparr>waiters := remove1 max_thread (waiters m)\<rparr>) s
           in thread_unblock max_thread s))"

definition sema_up :: "sref \<Rightarrow> kstate \<Rightarrow> kstate option" where
  "sema_up q s = do {
     let (old_level, s) = intr_disable s;
     s \<leftarrow> sema_wake q s;
     let s = set_sema q (\<lambda>m. m\<lparr>sema_value := sema_value m + 1\<rparr>) s;
     if \<not> intr_context s
     then thread_yield (push [Set_level old_level] s)
     else restore_level old_level s }"

section \<open>Priority donation\<close>

definition max_donation :: "kstate \<Rightarrow> int \<Rightarrow> (addr \<times> tptr) list \<Rightarrow> int" where
  "max_donation s = foldl (\<lambda>new_priority (l, donor).
      if prio s donor > new_priority then prio s donor else new_priority)"

definition donate_priority_update :: "tptr \<Rightarrow> kstate \<Rightarrow> kstate" where
  "donate_priority_update t s =
     upd t (\<lambda>th. th\<lparr>priority := max_donation s (base_priority th) (donations th)\<rparr>) s"

definition donor_priority_greater :: "kstate \<Rightarrow> addr \<times> tptr \<Rightarrow> addr \<times> tptr \<Rightarrow> bool" where
  "donor_priority_greater s da db \<longleftrightarrow> prio s (snd da) > prio s (snd db)"

interpretation dpg: less_func "donor_priority_greater s" for s
  by unfold_locales (auto simp: donor_priority_greater_def)

text \<open>
  The loop of \<^verbatim>\<open>lock_acquire\<close> along the chain of holders. It does not end when the chain is a
  cycle (a deadlock); then the value is \<open>None\<close>.
\<close>

partial_function (option) donate_chain :: "tptr \<Rightarrow> kstate \<Rightarrow> kstate option" where
  "donate_chain t s =
     (if t \<noteq> NULL
      then (let s = donate_priority_update t s
            in if waiting_lock (threads s t) \<noteq> NULL
               then donate_chain (holder s (waiting_lock (threads s t))) s
               else Some s)
      else Some s)"

declare donate_chain.simps [code]

section \<open>Locks\<close>

definition lock_init :: "addr \<Rightarrow> kstate \<Rightarrow> kstate option" where
  "lock_init l s = do {
     ASSERT (l \<noteq> NULL);
     Some (sema_init (Lock_Sema l) 1 (s\<lparr>holder := (holder s)(l := NULL)\<rparr>)) }"

definition lock_held_by_current_thread :: "addr \<Rightarrow> kstate \<Rightarrow> bool option" where
  "lock_held_by_current_thread l s = do {
     ASSERT (l \<noteq> NULL);
     c \<leftarrow> thread_current s;
     Some (holder s l = c) }"

text \<open>The part of \<^verbatim>\<open>lock_acquire\<close> that registers the donation.\<close>

definition lock_donate :: "addr \<Rightarrow> kstate \<Rightarrow> kstate option" where
  "lock_donate l s =
     (if \<not> mlfqs s \<and> holder s l \<noteq> NULL
      then do {
        c \<leftarrow> thread_current s;
        let s = upd c (\<lambda>th. th\<lparr>waiting_lock := l\<rparr>) s;
        let s = upd (holder s l) (\<lambda>th. th\<lparr>donations :=
                  insert_ordered (donor_priority_greater s) (l, c) (donations th)\<rparr>) s;
        donate_chain (holder s l) s }
      else Some s)"

definition lock_acquire :: "addr \<Rightarrow> kstate \<Rightarrow> kstate option" where
  "lock_acquire l s = do {
     ASSERT (l \<noteq> NULL);
     ASSERT (\<not> intr_context s);
     held \<leftarrow> lock_held_by_current_thread l s;
     ASSERT (\<not> held);
     let (old_level, s) = intr_disable s;
     s \<leftarrow> lock_donate l s;
     s \<leftarrow> restore_level old_level s;
     Some (push [Sema_down (Lock_Sema l) (Take l)] s) }"

definition lock_take :: "addr \<Rightarrow> kstate \<Rightarrow> kstate option" where
  "lock_take l s = do {
     ASSERT (holder s l = NULL);
     c \<leftarrow> thread_current s;
     Some (s\<lparr>holder := (holder s)(l := c)\<rparr>) }"

definition lock_hold :: "addr \<Rightarrow> kstate \<Rightarrow> kstate option" where
  "lock_hold l s = do {
     c \<leftarrow> thread_current s;
     Some (s\<lparr>holder := (holder s)(l := c)\<rparr>) }"

definition lock_try_acquire :: "addr \<Rightarrow> kstate \<Rightarrow> (bool \<times> kstate) option" where
  "lock_try_acquire l s = do {
     ASSERT (l \<noteq> NULL);
     held \<leftarrow> lock_held_by_current_thread l s;
     ASSERT (\<not> held);
     (success, s) \<leftarrow> sema_try_down (Lock_Sema l) s;
     Some (success, if success then push [Lock_hold l] s else s) }"

text \<open>
  The loop of \<^verbatim>\<open>lock_release\<close> over the donation list of the current thread \<open>c\<close>: entries for the
  lock are removed, and their donors no longer count as waiting for it.
\<close>

primrec drop_donations :: "addr \<Rightarrow> tptr \<Rightarrow> (addr \<times> tptr) list \<Rightarrow> kstate \<Rightarrow> kstate" where
  "drop_donations l c [] s = s"
| "drop_donations l c (de # des) s =
     (if fst de = l
      then (let s = upd c (\<lambda>th. th\<lparr>donations := remove1 de (donations th)\<rparr>) s;
                s = (if waiting_lock (threads s (snd de)) = l
                     then upd (snd de) (\<lambda>th. th\<lparr>waiting_lock := NULL\<rparr>) s else s)
            in drop_donations l c des s)
      else drop_donations l c des s)"

definition lock_undonate :: "addr \<Rightarrow> tptr \<Rightarrow> kstate \<Rightarrow> kstate" where
  "lock_undonate l c s =
     (if \<not> mlfqs s
      then donate_priority_update c (drop_donations l c (donations (threads s c)) s)
      else s)"

definition lock_release :: "addr \<Rightarrow> kstate \<Rightarrow> kstate option" where
  "lock_release l s = do {
     ASSERT (l \<noteq> NULL);
     held \<leftarrow> lock_held_by_current_thread l s;
     ASSERT held;
     let (old_level, s) = intr_disable s;
     c \<leftarrow> thread_current s;
     let s = lock_undonate l c s;
     ASSERT (holder s l = c);
     let s = s\<lparr>holder := (holder s)(l := NULL)\<rparr>;
     s \<leftarrow> restore_level old_level s;
     Some (push [Sema_up (Lock_Sema l)] s) }"

section \<open>Condition variables\<close>

definition cond_init :: "addr \<Rightarrow> kstate \<Rightarrow> kstate option" where
  "cond_init c s = do {
     ASSERT (c \<noteq> NULL);
     Some (s\<lparr>cond_waiters := (cond_waiters s)(c := [])\<rparr>) }"

definition cond_wait :: "addr \<Rightarrow> addr \<Rightarrow> kstate \<Rightarrow> kstate option" where
  "cond_wait cv l s = do {
     ASSERT (cv \<noteq> NULL);
     ASSERT (l \<noteq> NULL);
     ASSERT (\<not> intr_context s);
     held \<leftarrow> lock_held_by_current_thread l s;
     ASSERT held;
     let s = sema_init (Waiter_Sema (cur s)) 0 s;
     let s = s\<lparr>cond_waiters := (cond_waiters s)(cv := cond_waiters s cv @ [cur s])\<rparr>;
     lock_release l (push [Sema_down (Waiter_Sema (cur s)) Ret, Lock_acquire l] s) }"

text \<open>
  \<^verbatim>\<open>cond_sema_priority_greater\<close> reads the front of both semaphores' waiter lists; \<^verbatim>\<open>list_front\<close>
  asserts that they are not empty.
\<close>

definition cond_sema_priority_greater :: "kstate \<Rightarrow> tptr \<Rightarrow> tptr \<Rightarrow> bool option" where
  "cond_sema_priority_greater s a b = do {
     let wa = waiters (semas s (Waiter_Sema a));
     let wb = waiters (semas s (Waiter_Sema b));
     ASSERT (wa \<noteq> []);
     ASSERT (wb \<noteq> []);
     Some (prio s (hd wa) > prio s (hd wb)) }"

primrec cond_min :: "kstate \<Rightarrow> tptr \<Rightarrow> tptr list \<Rightarrow> tptr option" where
  "cond_min s m [] = Some m"
| "cond_min s m (e # es) = do {
     c \<leftarrow> cond_sema_priority_greater s e m;
     cond_min s (if c then e else m) es }"

definition cond_signal :: "addr \<Rightarrow> addr \<Rightarrow> kstate \<Rightarrow> kstate option" where
  "cond_signal cv l s = do {
     ASSERT (cv \<noteq> NULL);
     ASSERT (l \<noteq> NULL);
     ASSERT (\<not> intr_context s);
     held \<leftarrow> lock_held_by_current_thread l s;
     ASSERT held;
     case cond_waiters s cv of
       [] \<Rightarrow> Some s
     | w # ws \<Rightarrow> do {
         m \<leftarrow> cond_min s w ws;
         let s = s\<lparr>cond_waiters := (cond_waiters s)(cv := remove1 m (cond_waiters s cv))\<rparr>;
         sema_up (Waiter_Sema m) s } }"

text \<open>One round of the loop of \<^verbatim>\<open>cond_broadcast\<close>; the return point \<open>Broadcast\<close> is the next round.\<close>

definition cond_broadcast :: "addr \<Rightarrow> addr \<Rightarrow> kstate \<Rightarrow> kstate option" where
  "cond_broadcast cv l s = do {
     ASSERT (cv \<noteq> NULL);
     ASSERT (l \<noteq> NULL);
     if cond_waiters s cv = [] then Some s
     else cond_signal cv l (push [Broadcast cv l] s) }"

end
