(* ===== verification/Threads.thy ===== *)
theory Threads
  imports Synch
begin

text \<open>
  The rest of \<^verbatim>\<open>threads/thread.c\<close>: creation of threads and their identifiers, priorities and
  the feedback scheduler's recalculations, the idle thread, the start of the thread system.
  The page that \<^verbatim>\<open>palloc_get_page\<close> returns to \<^verbatim>\<open>thread_create\<close> is an argument.
\<close>

section \<open>Creation\<close>

text \<open>
  The values of \<^verbatim>\<open>nice\<close> and \<^verbatim>\<open>recent_cpu\<close> of a new thread: those of its creator under the feedback
  scheduler, the zeros of \<^verbatim>\<open>memset\<close> otherwise.
\<close>

definition inherit_mlfqs :: "tptr \<Rightarrow> kstate \<Rightarrow> (int \<times> int) option" where
  "inherit_mlfqs t s =
     (if mlfqs s \<and> t \<noteq> initial_thread s
      then do { c \<leftarrow> thread_current s; Some (nice (threads s c), recent_cpu (threads s c)) }
      else Some (0, 0))"

definition init_thread :: "tptr \<Rightarrow> string \<Rightarrow> int \<Rightarrow> kstate \<Rightarrow> kstate option" where
  "init_thread t nm pri s = do {
     ASSERT (t \<noteq> NULL);
     ASSERT (PRI_MIN \<le> pri \<and> pri \<le> PRI_MAX);
     (n, r) \<leftarrow> inherit_mlfqs t s;
     let s = upd t (\<lambda>th. \<lparr>tid = 0, status = THREAD_BLOCKED, name = take 15 nm, stack = t + PGSIZE,
               base_priority = pri, donations = [], priority = pri, waiting_lock = NULL,
               nice = n, recent_cpu = r, magic = THREAD_MAGIC, frames = frames th\<rparr>) s;
     let (old_level, s) = intr_disable s;
     let s = s\<lparr>all_list := all_list s @ [t]\<rparr>;
     restore_level old_level s }"

definition alloc_frame :: "tptr \<Rightarrow> nat \<Rightarrow> kstate \<Rightarrow> kstate option" where
  "alloc_frame t sz s = do {
     ASSERT (is_thread s t);
     ASSERT (sz mod 4 = 0);
     Some (upd t (\<lambda>th. th\<lparr>stack := stack th - sz\<rparr>) s) }"

text \<open>\<^verbatim>\<open>allocate_tid\<close>: acquire \<^verbatim>\<open>tid_lock\<close>; the return point \<open>Tid_take\<close> is the code under the lock.\<close>

definition allocate_tid :: "tptr \<Rightarrow> kstate \<Rightarrow> kstate option" where
  "allocate_tid t s = lock_acquire TID_LOCK (push [Tid_take t] s)"

definition tid_take :: "tptr \<Rightarrow> kstate \<Rightarrow> kstate option" where
  "tid_take t s = do {
     let new_tid = next_tid s;
     let s = s\<lparr>next_tid := s32 (next_tid s + 1)\<rparr>;
     lock_release TID_LOCK (push [Tid_store t new_tid] s) }"

definition tid_store :: "tptr \<Rightarrow> int \<Rightarrow> kstate \<Rightarrow> kstate" where
  "tid_store t new_tid = upd t (\<lambda>th. th\<lparr>tid := new_tid\<rparr>)"

definition TID_ERROR :: int where "TID_ERROR = -1"

text \<open>
  \<open>Inl TID_ERROR\<close>: no page; \<open>Inr\<close>: the state in which the new thread is being set up.
  \<^verbatim>\<open>PAL_ZERO\<close> clears the page, so that nothing is on the new stack.
\<close>

definition thread_create :: "string \<Rightarrow> int \<Rightarrow> thread_func \<Rightarrow> tptr \<Rightarrow> kstate \<Rightarrow> (int + kstate) option" where
  "thread_create nm pri fn page s =
     (if page = NULL then Some (Inl TID_ERROR)
      else do {
        let s = upd page (\<lambda>th. th\<lparr>frames := []\<rparr>) s;
        s \<leftarrow> init_thread page nm pri s;
        s \<leftarrow> allocate_tid page (push [Create_rest page fn] s);
        Some (Inr s) })"

definition create_rest :: "tptr \<Rightarrow> thread_func \<Rightarrow> kstate \<Rightarrow> kstate option" where
  "create_rest t fn s = do {
     s \<leftarrow> alloc_frame t 12 s;
     s \<leftarrow> alloc_frame t 4 s;
     s \<leftarrow> alloc_frame t 28 s;
     let s = upd t (\<lambda>th. th\<lparr>frames := [Kernel_thread fn]\<rparr>) s;
     thread_unblock t (push [Create_check t] s) }"

definition create_check :: "tptr \<Rightarrow> kstate \<Rightarrow> kstate option" where
  "create_check t s = do {
     c \<leftarrow> thread_current s;
     if prio s t > prio s c then thread_yield s else Some s }"

definition kernel_thread :: "thread_func \<Rightarrow> kstate \<Rightarrow> kstate option" where
  "kernel_thread fn s = do {
     (_, s) \<leftarrow> intr_enable s;
     Some (case fn of Idle_func \<Rightarrow> push [Idle_start] s | Client_func \<Rightarrow> s) }"

section \<open>The feedback scheduler\<close>

definition thread_priority_calc_mlfqs :: "tptr \<Rightarrow> kstate \<Rightarrow> kstate option" where
  "thread_priority_calc_mlfqs t s =
     (if t = idle_thread s then Some s
      else do {
        p \<leftarrow> priority_formula (recent_cpu (threads s t)) (nice (threads s t));
        Some (upd t (\<lambda>th. th\<lparr>priority := p\<rparr>) s) })"

definition thread_recent_cpu_calc_mlfqs :: "tptr \<Rightarrow> kstate \<Rightarrow> kstate option" where
  "thread_recent_cpu_calc_mlfqs t s =
     (if t = idle_thread s then Some s
      else do {
        r \<leftarrow> recent_cpu_formula (load_avg s) (recent_cpu (threads s t)) (nice (threads s t));
        Some (upd t (\<lambda>th. th\<lparr>recent_cpu := r\<rparr>) s) })"

definition load_avg_calc_mlfqs :: "kstate \<Rightarrow> kstate option" where
  "load_avg_calc_mlfqs s = do {
     let ready_threads = int (length (ready_list s));
     c \<leftarrow> thread_current s;
     let ready_threads = (if c \<noteq> idle_thread s then ready_threads + 1 else ready_threads);
     l \<leftarrow> load_avg_formula (load_avg s) ready_threads;
     Some (s\<lparr>load_avg := l\<rparr>) }"

definition thread_recent_cpu_incre :: "tptr \<Rightarrow> kstate \<Rightarrow> kstate" where
  "thread_recent_cpu_incre t s =
     (if t = idle_thread s then s
      else upd t (\<lambda>th. th\<lparr>recent_cpu := FP_ADD_INT (recent_cpu th) 1\<rparr>) s)"

definition thread_tick :: "kstate \<Rightarrow> kstate option" where
  "thread_tick s = do {
     t \<leftarrow> thread_current s;
     let s = (if t = idle_thread s then s\<lparr>idle_ticks := idle_ticks s + 1\<rparr>
              else s\<lparr>kernel_ticks := kernel_ticks s + 1\<rparr>);
     let s = s\<lparr>thread_ticks := thread_ticks s + 1\<rparr>;
     if thread_ticks s \<ge> TIME_SLICE then intr_yield_on_return s else Some s }"

section \<open>Priorities\<close>

text \<open>The test that ends \<^verbatim>\<open>thread_set_priority\<close> and \<^verbatim>\<open>thread_set_nice\<close>.\<close>

definition yield_if_lower :: "tptr \<Rightarrow> intr_level \<Rightarrow> kstate \<Rightarrow> kstate option" where
  "yield_if_lower c old_level s =
     (case ready_list s of
        [] \<Rightarrow> restore_level old_level s
      | nextt # _ \<Rightarrow>
          if prio s nextt > prio s c then thread_yield (push [Set_level old_level] s)
          else restore_level old_level s)"

definition thread_set_priority :: "int \<Rightarrow> kstate \<Rightarrow> kstate option" where
  "thread_set_priority new_priority s =
     (if mlfqs s then Some s
      else do {
        let (old_level, s) = intr_disable s;
        c \<leftarrow> thread_current s;
        let s = upd c (\<lambda>th. th\<lparr>base_priority := new_priority\<rparr>) s;
        let s = donate_priority_update c s;
        yield_if_lower c old_level s })"

definition thread_set_nice :: "int \<Rightarrow> kstate \<Rightarrow> kstate option" where
  "thread_set_nice n s = do {
     let (old_level, s) = intr_disable s;
     c \<leftarrow> thread_current s;
     let s = upd c (\<lambda>th. th\<lparr>nice := n\<rparr>) s;
     s \<leftarrow> thread_priority_calc_mlfqs c s;
     yield_if_lower c old_level s }"

definition thread_get_priority :: "kstate \<Rightarrow> int option" where
  "thread_get_priority s = map_option (prio s) (thread_current s)"

definition thread_get_nice :: "kstate \<Rightarrow> int option" where
  "thread_get_nice s = map_option (\<lambda>c. nice (threads s c)) (thread_current s)"

definition thread_get_load_avg :: "kstate \<Rightarrow> int" where
  "thread_get_load_avg s = FP_TO_INT_ROUND (FP_MUL_INT (load_avg s) 100)"

definition thread_get_recent_cpu :: "kstate \<Rightarrow> int option" where
  "thread_get_recent_cpu s =
     map_option (\<lambda>c. FP_TO_INT_ROUND (FP_MUL_INT (recent_cpu (threads s c)) 100)) (thread_current s)"

section \<open>The idle thread, the start of the system\<close>

definition idle_start :: "kstate \<Rightarrow> kstate option" where
  "idle_start s = do {
     c \<leftarrow> thread_current s;
     let s = s\<lparr>idle_thread := c\<rparr>;
     sema_up Idle_Started (push [Idle_loop] s) }"

definition idle_loop :: "kstate \<Rightarrow> kstate option" where
  "idle_loop s = do {
     let (_, s) = intr_disable s;
     thread_block (push [Idle_sti] s) }"

definition idle_sti :: "kstate \<Rightarrow> kstate" where
  "idle_sti s = push [Idle_loop] (s\<lparr>level := INTR_ON\<rparr>)"

definition thread_init :: "kstate \<Rightarrow> kstate option" where
  "thread_init s = do {
     ASSERT (intr_get_level s = INTR_OFF);
     s \<leftarrow> lock_init TID_LOCK s;
     let s = s\<lparr>ready_list := [], all_list := []\<rparr>;
     let s = s\<lparr>initial_thread := running_thread s\<rparr>;
     s \<leftarrow> init_thread (initial_thread s) ''main'' PRI_DEFAULT s;
     let s = set_status (initial_thread s) THREAD_RUNNING s;
     allocate_tid (initial_thread s) (push [Init_rest] s) }"

definition init_rest :: "kstate \<Rightarrow> kstate" where
  "init_rest s =
     (if mlfqs s
      then (upd (initial_thread s) (\<lambda>th. th\<lparr>nice := 0, recent_cpu := 0\<rparr>) s)\<lparr>load_avg := 0\<rparr>
      else s)"

definition thread_start :: "tptr \<Rightarrow> kstate \<Rightarrow> kstate option" where
  "thread_start page s = do {
     let s = sema_init Idle_Started 0 s;
     r \<leftarrow> thread_create ''idle'' PRI_MIN Idle_func page
           (push [Enable, Sema_down Idle_Started Ret] s);
     case r of Inl _ \<Rightarrow> Some (push [Enable, Sema_down Idle_Started Ret] s) | Inr s \<Rightarrow> Some s }"

end
