(* ===== verification/Timer.thy ===== *)
theory Timer
  imports Threads
begin

text \<open>
  \<^verbatim>\<open>devices/timer.c\<close>: the tick counter, sleeping threads, the timer interrupt; and the common
  interrupt entry of \<^verbatim>\<open>threads/interrupt.c\<close> for external interrupts. Tick counts are \<^verbatim>\<open>int64_t\<close>.
\<close>

definition s64 :: "int \<Rightarrow> int" where
  "s64 x = (x + 2 ^ 63) mod 2 ^ 64 - 2 ^ 63"

definition TIMER_FREQ :: int where "TIMER_FREQ = 100"

definition time_less :: "int \<times> tptr \<Rightarrow> int \<times> tptr \<Rightarrow> bool" where
  "time_less a b \<longleftrightarrow> fst a < fst b"

interpretation tl: less_func time_less
  by unfold_locales (auto simp: time_less_def)

definition timer_init :: "kstate \<Rightarrow> kstate" where
  "timer_init s = s\<lparr>sleep_list := []\<rparr>"

definition timer_ticks :: "kstate \<Rightarrow> int" where
  "timer_ticks s = ticks s"

definition timer_elapsed :: "int \<Rightarrow> kstate \<Rightarrow> int" where
  "timer_elapsed thn s = s64 (timer_ticks s - thn)"

definition timer_sleep :: "int \<Rightarrow> kstate \<Rightarrow> kstate option" where
  "timer_sleep n s = do {
     ASSERT (intr_get_level s = INTR_ON);
     let (old_level, s) = intr_disable s;
     let start = timer_ticks s;
     c \<leftarrow> thread_current s;
     let s = s\<lparr>sleep_list := insert_ordered time_less (s64 (start + n), c) (sleep_list s)\<rparr>;
     thread_block (push [Sleep_done old_level] s) }"

section \<open>Real-time delays\<close>

text \<open>
  \<open>loops_per_tick\<close> is the calibrated speed of the processor. Busy waiting changes nothing of the
  state; \<open>real_time_delay\<close> is the number of iterations.
\<close>

definition real_time_delay :: "u32 \<Rightarrow> int \<Rightarrow> int \<Rightarrow> int option" where
  "real_time_delay loops_per_tick num denom = do {
     ASSERT (c_mod denom 1000 = 0);
     ASSERT (c_div denom 1000 \<noteq> 0);
     Some (s64 (c_div (s64 (c_div (s64 (uint loops_per_tick * num)) 1000 * TIMER_FREQ)) (c_div denom 1000))) }"

definition real_time_sleep :: "u32 \<Rightarrow> int \<Rightarrow> int \<Rightarrow> kstate \<Rightarrow> kstate option" where
  "real_time_sleep loops_per_tick num denom s = do {
     ASSERT (denom \<noteq> 0);
     let tks = s64 (c_div (s64 (num * TIMER_FREQ)) denom);
     ASSERT (intr_get_level s = INTR_ON);
     if tks > 0 then timer_sleep tks s
     else do { _ \<leftarrow> real_time_delay loops_per_tick num denom; Some s } }"

definition timer_msleep :: "u32 \<Rightarrow> int \<Rightarrow> kstate \<Rightarrow> kstate option" where
  "timer_msleep lpt ms = real_time_sleep lpt ms 1000"

definition timer_usleep :: "u32 \<Rightarrow> int \<Rightarrow> kstate \<Rightarrow> kstate option" where
  "timer_usleep lpt us = real_time_sleep lpt us (1000 * 1000)"

definition timer_nsleep :: "u32 \<Rightarrow> int \<Rightarrow> kstate \<Rightarrow> kstate option" where
  "timer_nsleep lpt ns = real_time_sleep lpt ns (1000 * 1000 * 1000)"

definition timer_mdelay :: "u32 \<Rightarrow> int \<Rightarrow> int option" where
  "timer_mdelay lpt ms = real_time_delay lpt ms 1000"

definition timer_udelay :: "u32 \<Rightarrow> int \<Rightarrow> int option" where
  "timer_udelay lpt us = real_time_delay lpt us (1000 * 1000)"

definition timer_ndelay :: "u32 \<Rightarrow> int \<Rightarrow> int option" where
  "timer_ndelay lpt ns = real_time_delay lpt ns (1000 * 1000 * 1000)"

section \<open>The timer interrupt\<close>

primrec wake_loop :: "(int \<times> tptr) list \<Rightarrow> kstate \<Rightarrow> kstate option" where
  "wake_loop [] s = Some s"
| "wake_loop (f # fs) s =
     (if fst f > ticks s then Some s
      else do {
        let s = s\<lparr>sleep_list := fs\<rparr>;
        s \<leftarrow> thread_unblock (snd f) s;
        c \<leftarrow> thread_current s;
        s \<leftarrow> (if prio s (snd f) > prio s c then intr_yield_on_return s else Some s);
        wake_loop fs s })"

definition mlfqs_tick :: "kstate \<Rightarrow> kstate option" where
  "mlfqs_tick s = do {
     c \<leftarrow> thread_current s;
     let s = thread_recent_cpu_incre c s;
     s \<leftarrow> (if c_mod (ticks s) TIMER_FREQ = 0
           then do { s \<leftarrow> load_avg_calc_mlfqs s; thread_foreach thread_recent_cpu_calc_mlfqs s }
           else Some s);
     if c_mod (ticks s) 4 = 0 then thread_foreach thread_priority_calc_mlfqs s else Some s }"

definition timer_interrupt :: "kstate \<Rightarrow> kstate option" where
  "timer_interrupt s = do {
     let s = s\<lparr>ticks := s64 (ticks s + 1)\<rparr>;
     s \<leftarrow> wake_loop (sleep_list s) s;
     s \<leftarrow> (if mlfqs s then mlfqs_tick s else Some s);
     thread_tick s }"

section \<open>External interrupts (\<^verbatim>\<open>intr_handler\<close>)\<close>

text \<open>
  \<open>handler\<close> is the registered handler. Acknowledging the interrupt at the PIC changes no state of
  the kernel.
\<close>

definition intr_handler_ext :: "(kstate \<Rightarrow> kstate option) \<Rightarrow> kstate \<Rightarrow> kstate option" where
  "intr_handler_ext handler s = do {
     ASSERT (intr_get_level s = INTR_OFF);
     ASSERT (\<not> intr_context s);
     let s = s\<lparr>in_external_intr := True, yield_on_return := False\<rparr>;
     s \<leftarrow> handler s;
     ASSERT (intr_get_level s = INTR_OFF);
     ASSERT (intr_context s);
     let s = s\<lparr>in_external_intr := False\<rparr>;
     if yield_on_return s then thread_yield s else Some s }"

text \<open>The processor saves the flags on the stack and enters an interrupt gate with interrupts off.\<close>

definition interrupt :: "(kstate \<Rightarrow> kstate option) \<Rightarrow> kstate \<Rightarrow> kstate option" where
  "interrupt handler s = intr_handler_ext handler (push [Iret] (s\<lparr>level := INTR_OFF\<rparr>))"

end
