(* ===== verification/Kernel_Machine.thy ===== *)
theory Kernel_Machine
  imports Timer
begin

text \<open>
  The machine that runs the kernel: the current thread either executes code of a client, which
  may call an operation of the kernel, or carries out the innermost return point of its
  stack; with interrupts on, the timer or another device may interrupt at any point between two
  atomic sections. \<open>legal\<close> is what the documentation of the operations asks of a client.
\<close>

section \<open>Return points\<close>

definition pop_frame :: "kstate \<Rightarrow> kstate" where
  "pop_frame s = upd (cur s) (\<lambda>th. th\<lparr>frames := tl (frames th)\<rparr>) s"

fun run_frame :: "frame \<Rightarrow> kstate \<Rightarrow> kstate option" where
  "run_frame (Set_level lev) s = restore_level lev s"
| "run_frame Iret s = Some (s\<lparr>level := INTR_ON\<rparr>)"
| "run_frame (Sema_loop q lev k) s = sema_loop q lev k s"
| "run_frame (Sema_down q k) s = sema_down q k s"
| "run_frame (Sema_up q) s = sema_up q s"
| "run_frame (Lock_take l) s = lock_take l s"
| "run_frame (Lock_hold l) s = lock_hold l s"
| "run_frame (Lock_acquire l) s = lock_acquire l s"
| "run_frame (Broadcast cv l) s = cond_broadcast cv l s"
| "run_frame (Tid_take t) s = tid_take t s"
| "run_frame (Tid_store t new_tid) s = Some (tid_store t new_tid s)"
| "run_frame (Create_rest t fn) s = create_rest t fn s"
| "run_frame (Create_check t) s = create_check t s"
| "run_frame Init_rest s = Some (init_rest s)"
| "run_frame Enable s = map_option snd (intr_enable s)"
| "run_frame (Kernel_thread fn) s = kernel_thread fn s"
| "run_frame Idle_start s = idle_start s"
| "run_frame Idle_loop s = idle_loop s"
| "run_frame Idle_sti s = Some (idle_sti s)"
| "run_frame (Sleep_done lev) s = restore_level lev s"

definition resume :: "kstate \<Rightarrow> kstate option" where
  "resume s =
     (case frames (threads s (cur s)) of
        [] \<Rightarrow> None
      | f # fs \<Rightarrow> run_frame f (pop_frame s))"

section \<open>Calls of the clients\<close>

datatype call =
    C_sema_down addr
  | C_sema_try_down addr
  | C_sema_up addr
  | C_lock_acquire addr
  | C_lock_try_acquire addr
  | C_lock_release addr
  | C_cond_wait addr addr
  | C_cond_signal addr addr
  | C_cond_broadcast addr addr
  | C_thread_create string int tptr
  | C_thread_exit
  | C_thread_yield
  | C_thread_set_priority int
  | C_thread_set_nice int
  | C_timer_sleep int
  | C_intr_enable
  | C_intr_disable

fun run_call :: "call \<Rightarrow> kstate \<Rightarrow> kstate option" where
  "run_call (C_sema_down a) s = sema_down (Sema a) Ret s"
| "run_call (C_sema_try_down a) s = map_option snd (sema_try_down (Sema a) s)"
| "run_call (C_sema_up a) s = sema_up (Sema a) s"
| "run_call (C_lock_acquire l) s = lock_acquire l s"
| "run_call (C_lock_try_acquire l) s = map_option snd (lock_try_acquire l s)"
| "run_call (C_lock_release l) s = lock_release l s"
| "run_call (C_cond_wait cv l) s = cond_wait cv l s"
| "run_call (C_cond_signal cv l) s = cond_signal cv l s"
| "run_call (C_cond_broadcast cv l) s = cond_broadcast cv l s"
| "run_call (C_thread_create nm pri page) s =
     map_option (\<lambda>r. case r of Inl _ \<Rightarrow> s | Inr s' \<Rightarrow> s') (thread_create nm pri Client_func page s)"
| "run_call C_thread_exit s = thread_exit s"
| "run_call C_thread_yield s = thread_yield s"
| "run_call (C_thread_set_priority p) s = thread_set_priority p s"
| "run_call (C_thread_set_nice n) s = thread_set_nice n s"
| "run_call (C_timer_sleep n) s = timer_sleep n s"
| "run_call C_intr_enable s = map_option snd (intr_enable s)"
| "run_call C_intr_disable s = Some (snd (intr_disable s))"

section \<open>Steps\<close>

text \<open>\<open>Device a\<close>: an interrupt of a device whose handler ups a semaphore of a client.\<close>

datatype event = Call call | Resume | Tick | Device addr

fun step :: "event \<Rightarrow> kstate \<Rightarrow> kstate option" where
  "step (Call c) s = run_call c s"
| "step Resume s = resume s"
| "step Tick s = interrupt timer_interrupt s"
| "step (Device a) s = interrupt (sema_up (Sema a)) s"

fun enabled :: "event \<Rightarrow> kstate \<Rightarrow> bool" where
  "enabled (Call c) s \<longleftrightarrow> frames (threads s (cur s)) = []"
| "enabled Resume s \<longleftrightarrow> frames (threads s (cur s)) \<noteq> []"
| "enabled Tick s \<longleftrightarrow> level s = INTR_ON"
| "enabled (Device a) s \<longleftrightarrow> level s = INTR_ON"

text \<open>The chain of lock holders that \<^verbatim>\<open>lock_acquire\<close> follows ends within \<open>n\<close> threads.\<close>

fun chain_ends :: "nat \<Rightarrow> kstate \<Rightarrow> tptr \<Rightarrow> bool" where
  "chain_ends 0 s t \<longleftrightarrow> t = NULL"
| "chain_ends (Suc n) s t \<longleftrightarrow>
     t = NULL \<or> waiting_lock (threads s t) = NULL \<or>
     chain_ends n s (holder s (waiting_lock (threads s t)))"

text \<open>Acquiring the lock closes no cycle of waiting threads.\<close>

definition no_deadlock :: "addr \<Rightarrow> kstate \<Rightarrow> bool" where
  "no_deadlock l s \<longleftrightarrow>
     (\<exists>n\<le>length (all_list s).
        chain_ends n (upd (cur s) (\<lambda>th. th\<lparr>waiting_lock := l\<rparr>) s) (holder s l))"

text \<open>Every waiter of the condition is asleep on its semaphore, or there is at most one.\<close>

definition cond_ready :: "addr \<Rightarrow> kstate \<Rightarrow> bool" where
  "cond_ready cv s \<longleftrightarrow>
     length (cond_waiters s cv) \<le> 1 \<or>
     (\<forall>w\<in>set (cond_waiters s cv). waiters (semas s (Waiter_Sema w)) \<noteq> [])"

text \<open>Locks of clients: any address but \<^verbatim>\<open>NULL\<close> and that of \<^verbatim>\<open>tid_lock\<close>.\<close>

definition client_lock :: "addr \<Rightarrow> bool" where
  "client_lock l \<longleftrightarrow> l \<noteq> NULL \<and> l \<noteq> TID_LOCK"

fun legal_call :: "call \<Rightarrow> kstate \<Rightarrow> bool" where
  "legal_call (C_lock_acquire l) s \<longleftrightarrow>
     client_lock l \<and> holder s l \<noteq> cur s \<and> (\<not> mlfqs s \<longrightarrow> no_deadlock l s)"
| "legal_call (C_lock_try_acquire l) s \<longleftrightarrow> client_lock l \<and> holder s l \<noteq> cur s"
| "legal_call (C_lock_release l) s \<longleftrightarrow> client_lock l \<and> holder s l = cur s"
| "legal_call (C_cond_wait cv l) s \<longleftrightarrow> cv \<noteq> NULL \<and> client_lock l \<and> holder s l = cur s"
| "legal_call (C_cond_signal cv l) s \<longleftrightarrow>
     cv \<noteq> NULL \<and> client_lock l \<and> holder s l = cur s \<and> cond_ready cv s"
| "legal_call (C_cond_broadcast cv l) s \<longleftrightarrow>
     cv \<noteq> NULL \<and> client_lock l \<and> holder s l = cur s \<and> cond_ready cv s"
| "legal_call (C_thread_create nm pri page) s \<longleftrightarrow>
     PRI_MIN \<le> pri \<and> pri \<le> PRI_MAX \<and> page \<notin> set (all_list s) \<and> (\<not> mlfqs s \<longrightarrow> no_deadlock TID_LOCK s)"
| "legal_call C_thread_exit s \<longleftrightarrow> (\<forall>l. holder s l \<noteq> cur s)"
| "legal_call (C_timer_sleep n) s \<longleftrightarrow> level s = INTR_ON"
| "legal_call c s \<longleftrightarrow> True"

text \<open>
  What is asked of a step: the caller's obligations, no deadlock when a lock is acquired, and under
  the feedback scheduler no more threads than its arithmetic is made for.
\<close>

definition legal :: "event \<Rightarrow> kstate \<Rightarrow> bool" where
  "legal e s \<longleftrightarrow> enabled e s \<and>
     (case e of
        Call c \<Rightarrow> legal_call c s
      | Resume \<Rightarrow>
          (case hd (frames (threads s (cur s))) of
             Lock_acquire l \<Rightarrow> \<not> mlfqs s \<longrightarrow> no_deadlock l s
           | Broadcast cv l \<Rightarrow> cond_ready cv s
           | _ \<Rightarrow> True)
      | Tick \<Rightarrow> mlfqs s \<longrightarrow> length (all_list s) < 2184
      | Device a \<Rightarrow> True)"

text \<open>
  The start: \<^verbatim>\<open>thread_init\<close>, then \<^verbatim>\<open>thread_start\<close>, run to their ends without an interrupt. (Interrupts come on at the end of \<^verbatim>\<open>thread_start\<close>;
  those that arrive before it returns are not part of the runs.)
\<close>

definition blank :: "bool \<Rightarrow> (addr \<Rightarrow> u32) \<Rightarrow> tptr \<Rightarrow> kstate" where
  "blank mq v main = \<lparr>cur = main,
     threads = (\<lambda>_. \<lparr>tid = 0, status = THREAD_RUNNING, name = [], stack = 0, base_priority = 0,
       donations = [], priority = 0, waiting_lock = NULL, nice = 0, recent_cpu = 0, magic = 0, frames = []\<rparr>),
     ready_list = [], all_list = [], idle_thread = NULL, initial_thread = NULL,
     semas = (\<lambda>q. \<lparr>sema_value = (case q of Sema a \<Rightarrow> v a | Lock_Sema _ \<Rightarrow> 1 | _ \<Rightarrow> 0), waiters = []\<rparr>),
     holder = (\<lambda>_. NULL), cond_waiters = (\<lambda>_. []), level = INTR_OFF, in_external_intr = False,
     yield_on_return = False, thread_ticks = 0, idle_ticks = 0, kernel_ticks = 0, load_avg = 0,
     mlfqs = mq, ticks = 0, sleep_list = [], next_tid = 1\<rparr>"

fun run_resume :: "nat \<Rightarrow> kstate \<Rightarrow> kstate option" where
  "run_resume 0 s = Some s"
| "run_resume (Suc n) s =
     (if frames (threads s (cur s)) = [] then Some s else do { s \<leftarrow> resume s; run_resume n s })"

definition boot :: "bool \<Rightarrow> (addr \<Rightarrow> u32) \<Rightarrow> tptr \<Rightarrow> tptr \<Rightarrow> kstate option" where
  "boot mq v main idle_page = do {
     s \<leftarrow> thread_init (blank mq v main);
     s \<leftarrow> run_resume 20 s;
     s \<leftarrow> thread_start idle_page s;
     run_resume 40 s }"

inductive reachable :: "kstate \<Rightarrow> bool" where
  booted: "main \<noteq> NULL \<Longrightarrow> page \<noteq> NULL \<Longrightarrow> main \<noteq> page \<Longrightarrow> boot mq v main page = Some s \<Longrightarrow> reachable s"
| stepped: "reachable s \<Longrightarrow> legal e s \<Longrightarrow> step e s = Some s' \<Longrightarrow> reachable s'"

end
