(* ===== verification/Synch_Invariant.thy ===== *)
theory Synch_Invariant
  imports Kernel_Invariant
begin

text \<open>
  The operations of the kernel keep the invariant of \<open>Kernel_Invariant\<close> and halt in none of their
  assertions. \<open>mid s0 s\<close> is the situation inside an operation: \<open>s0\<close> satisfied the invariant, and so far
  only the stack of the current thread and fields that the invariant does not mention differ.
\<close>

section \<open>Inside an operation\<close>

definition mid :: "kstate \<Rightarrow> kstate \<Rightarrow> bool" where
  "mid s0 s \<longleftrightarrow> kinv0 s0 \<and> run_ok s0 \<and> all_list s = all_list s0 \<and> ready_list s = ready_list s0 \<and>
     idle_thread s = idle_thread s0 \<and> semas s = semas s0 \<and> holder s = holder s0 \<and>
     sleep_list s = sleep_list s0 \<and> cur s = cur s0 \<and> load_avg s = load_avg s0 \<and>
     (\<forall>t. st s t = st s0 t \<and> magic (threads s t) = magic (threads s0 t)) \<and>
     (\<forall>t. t \<noteq> cur s0 \<longrightarrow> fr s t = fr s0 t) \<and>
     (\<forall>f\<in>set (fr s (cur s0)). \<not> blocking f)"

lemma midD:
  assumes "mid s0 s"
  shows "kinv0 s0" "run_ok s0" "all_list s = all_list s0" "ready_list s = ready_list s0"
    "idle_thread s = idle_thread s0" "semas s = semas s0" "holder s = holder s0"
    "sleep_list s = sleep_list s0" "cur s = cur s0" "st s t = st s0 t"
    "magic (threads s t) = magic (threads s0 t)" "t \<noteq> cur s0 \<Longrightarrow> fr s t = fr s0 t"
    "f \<in> set (fr s (cur s0)) \<Longrightarrow> \<not> blocking f" "load_avg s = load_avg s0"
  using assms by (auto simp: mid_def)

lemma mid_queues: "mid s0 s \<Longrightarrow> queues_ok s"
  by (rule queues_cong [of s0])
    (auto simp: midD kinv0D, metis midD(2) run_okD(2) thread_status.distinct(3) midD(12))

lemma mid_run: "mid s0 s \<Longrightarrow> run_ok s"
  by (simp add: run_ok_def mid_def)

lemma mid_current: "mid s0 s \<Longrightarrow> thread_current s = Some (cur s0)"
  using thread_current_run [OF mid_queues mid_run] midD(9) by fastforce

text \<open>The stack of the current thread is one it may have in this state.\<close>

definition stack_ok :: "kstate \<Rightarrow> kstate \<Rightarrow> frame list \<Rightarrow> bool" where
  "stack_ok s0 s fs \<longleftrightarrow> pc (cur s0) (cur s0 = idle_thread s0) (strip fs) \<and>
     (\<forall>l. must_hold (strip fs) = Some l \<longrightarrow> holder s l = cur s0) \<and>
     (holder s TID_LOCK = cur s0 \<longrightarrow> must_hold (strip fs) = Some TID_LOCK) \<and>
     (\<forall>l. Lock_acquire l \<in> set fs \<longrightarrow> holder s l \<noteq> cur s0) \<and>
     (\<forall>x. creating x fs \<longrightarrow> creating x (fr s0 (cur s0)))"

lemma stack_ok_same: "kinv0 s \<Longrightarrow> run_ok s \<Longrightarrow> stack_ok s s (fr s (cur s))"
  using kinv0D(4) [OF _ run_okD(1), of s] unfolding stack_ok_def pc_ok_def by blast

lemma stack_ok_improper [simp]: "\<not> proper f \<Longrightarrow> stack_ok s0 s (f # fs) = stack_ok s0 s fs"
  by (cases f) (auto simp: stack_ok_def)

lemma stack_ok_cong: "holder s' = holder s \<Longrightarrow> stack_ok s0 s' fs = stack_ok s0 s fs"
  by (simp add: stack_ok_def)

text \<open>Tokens that \<open>s'\<close> adds to those of \<open>s0\<close> balance.\<close>

definition balanced :: "kstate \<Rightarrow> kstate \<Rightarrow> bool" where
  "balanced s0 s' \<longleftrightarrow> (\<forall>l. l \<noteq> NULL \<longrightarrow>
      unat (sema_value (semas s' (Lock_Sema l))) + (if holder s' l = NULL then 0 else 1) + tokens l (fr s' (cur s0)) =
      unat (sema_value (semas s0 (Lock_Sema l))) + (if holder s0 l = NULL then 0 else 1) + tokens l (fr s0 (cur s0)))"

text \<open>Locks pass between the current thread and nobody.\<close>

definition passes :: "kstate \<Rightarrow> kstate \<Rightarrow> bool" where
  "passes s0 s' \<longleftrightarrow> (\<forall>l. holder s' l \<noteq> holder s0 l \<longrightarrow>
     holder s0 l \<in> {NULL, cur s0} \<and> holder s' l \<in> {NULL, cur s0})"

lemma kinv0_op:
  assumes k: "kinv0 s0" "run_ok s0" and q: "queues_ok s'"
    and same: "all_list s' = all_list s0" "idle_thread s' = idle_thread s0" "load_avg s' = load_avg s0"
      "in_order time_less (sleep_list s0) \<Longrightarrow> in_order time_less (sleep_list s')"
    and others: "\<And>t. t \<noteq> cur s0 \<Longrightarrow> fr s' t = fr s0 t"
    and newborn: "\<And>t. t \<in> set (all_list s0) \<Longrightarrow> t \<noteq> cur s0 \<Longrightarrow> fr s0 t = [] \<Longrightarrow> st s0 t = THREAD_BLOCKED \<Longrightarrow>
      st s' t = THREAD_BLOCKED"
    and ok: "passes s0 s'" "stack_ok s0 s' (fr s' (cur s0))" "\<forall>f\<in>set (tl (fr s' (cur s0))). \<not> blocking f"
      "balanced s0 s'"
  shows "kinv0 s'"
  by (rule kinv0_step [OF k(1) q, of "cur s0"])
    (use run_okD(1) [OF k(2)] running_not_created [OF k(1) run_okD(2) [OF k(2)]] same others newborn ok in
      \<open>simp_all add: passes_def stack_ok_def balanced_def\<close>)

lemma kinvI: "kinv0 s \<Longrightarrow> run_ok s \<Longrightarrow> \<forall>f\<in>set (fr s (cur s)). \<not> blocking f \<Longrightarrow> kinv s"
  by (simp add: kinv_iff)

section \<open>Giving up the processor\<close>

lemma thread_yield_wp:
  assumes k: "kinv0 s" and r: "run_ok s" and nb: "\<forall>f\<in>set (fr s (cur s)). \<not> blocking f"
    and ni: "\<not> in_external_intr s"
  shows "wp (thread_yield s) (\<lambda>s'. kinv s' \<and> switched (push [Set_level (level s)] s) s')"
proof -
  let ?c = "cur s"
  define s1 where "s1 = push [Set_level (level s)] (set_status ?c THREAD_READY
    (if ?c \<noteq> idle_thread s then ready_insert ?c (s\<lparr>level := INTR_OFF\<rparr>) else s\<lparr>level := INTR_OFF\<rparr>))"
  have fr1: "fr s1 t = (if t = ?c then Set_level (level s) # fr s t else fr s t)" for t
    by (simp add: s1_def state_defs)
  have q: "queues_ok s1"
    by (rule queues_yield [OF kinv0D(1) [OF k] r]) (auto simp: s1_def state_defs)
  have "kinv0 s1"
  proof (rule kinv0_op [OF k r q])
    show "stack_ok s s1 (fr s1 ?c)"
      using stack_ok_same [OF k r] stack_ok_cong [of s1 s s] by (simp add: fr1) (simp add: s1_def state_defs)
  qed (use fr1 nb in \<open>auto simp: s1_def state_defs passes_def balanced_def\<close>)
  then have "kpre s1"
    using run_okD(3) [OF r] by (auto simp: kpre_def s1_def state_defs)
  moreover have "thread_yield s = schedule s1"
    using ni thread_current_run [OF kinv0D(1) [OF k] r]
    by (auto simp: thread_yield_def s1_def intr_disable_def state_defs upd_def)
  moreover have "switched (push [Set_level (level s)] s) s'" if "switched s1 s'" for s'
    using that by (auto simp: switched_def s1_def state_defs)
  ultimately show ?thesis using schedule_wp [of s1] by (auto elim: wp_mono)
qed

lemma thread_block_wp:
  assumes "kpre (set_status (cur s) THREAD_BLOCKED s)" "thread_current s = Some (cur s)"
    "\<not> in_external_intr s" "level s = INTR_OFF"
  shows "wp (thread_block s) (\<lambda>s'. kinv s' \<and> switched s s')"
proof -
  have "switched s s'" if "switched (set_status (cur s) THREAD_BLOCKED s) s'" for s'
    using that by (auto simp: switched_def state_defs)
  with schedule_wp [OF assms(1)] assms show ?thesis
    by (auto simp: thread_block_def state_defs elim: wp_mono)
qed

section \<open>Semaphores\<close>

lemma pc_down_ret:
  "pc t b (Sema_loop q lv Ret # R) \<Longrightarrow> pc t b R \<and> must_hold R = None \<and> (\<forall>l. q \<noteq> Lock_Sema l)"
  by (auto simp: pc_simps)

lemma pc_down_take:
  "pc t b (Sema_loop q lv (Take l) # R) \<Longrightarrow> q = Lock_Sema l \<and> l \<noteq> NULL \<and> pc t b (Lock_take l # R)"
  by (auto simp: pc_simps after_lock_def client_lock_def TID_LOCK_def)

lemma unat_dec: "(v :: u32) \<noteq> 0 \<Longrightarrow> Suc (unat (v - 1)) = unat v"
  by (metis Suc_pred' unat_gt_0 unat_minus_one)

lemma restore_level_wp [simp]:
  "wp (intr_set_level lev s) P \<longleftrightarrow> (lev = INTR_ON \<longrightarrow> \<not> in_external_intr s) \<and> P (level s, s\<lparr>level := lev\<rparr>)"
  by (cases lev) (auto simp: intr_set_level_def intr_enable_def intr_disable_def state_defs Let_def)

lemma sema_loop_wp:
  assumes m: "mid s0 s" and ni: "\<not> in_external_intr s" and lev: "level s = INTR_OFF"
    and ok: "stack_ok s0 s (Sema_loop q lv k # fr s (cur s0))"
    and tok: "\<And>l. l \<noteq> NULL \<Longrightarrow> tokens l (fr s (cur s0)) = tokens l (fr s0 (cur s0))"
  shows "wp (sema_loop q lv k s) (\<lambda>s'. kinv s' \<and> \<not> in_external_intr s')"
proof (cases "sema_value (semas s q) = 0")
  case True
  let ?c = "cur s0"
  define s1 where "s1 = push [Sema_loop q lv k] (set_sema q (\<lambda>m. m\<lparr>waiters := waiters m @ [?c]\<rparr>) s)"
  define s2 where "s2 = set_status ?c THREAD_BLOCKED s1"
  note mD = midD [OF m]
  have fr2: "fr s2 t = (if t = ?c then Sema_loop q lv k # fr s t else fr s t)" for t
    by (simp add: s1_def s2_def state_defs mD)
  have q2: "queues_ok s2"
    by (rule queues_block [OF mid_queues [OF m] mid_run [OF m]])
      (use queuesD(4) [OF mid_queues [OF m]] in \<open>auto simp: s1_def s2_def state_defs mD\<close>)
  have "kinv0 s2"
  proof (rule kinv0_op [OF mD(1,2) q2])
    show "stack_ok s0 s2 (fr s2 ?c)"
      using ok stack_ok_cong [of s2 s s0] by (simp add: fr2) (simp add: s1_def s2_def state_defs)
    show "balanced s0 s2" using tok by (simp add: balanced_def fr2) (simp add: s1_def s2_def state_defs mD)
  qed (use fr2 mD in \<open>auto simp: s1_def s2_def state_defs passes_def\<close>)
  then have "kpre (set_status (cur s1) THREAD_BLOCKED s1)"
    using run_okD(3) [OF mD(2)] lev by (auto simp: kpre_def s1_def s2_def state_defs mD)
  moreover have "thread_current s1 = Some (cur s1)"
    using mid_current [OF m] by (simp add: thread_current_def is_thread_def s1_def state_defs mD Let_def)
  moreover have "\<not> in_external_intr s1" "level s1 = INTR_OFF" using ni lev by (simp_all add: s1_def state_defs)
  ultimately have "wp (thread_block s1) (\<lambda>s'. kinv s' \<and> switched s1 s')" by (rule thread_block_wp)
  then show ?thesis
    using True mid_current [OF m] ni
    by (auto simp: sema_loop_def s1_def switched_def Let_def state_defs elim!: wp_mono)
next
  case False
  let ?c = "cur s0"
  note mD = midD [OF m]
  define s1 where "s1 = (set_sema q (\<lambda>m. m\<lparr>sema_value := sema_value m - 1\<rparr>) s)\<lparr>level := lv\<rparr>"
  define s2 where "s2 = down_return k s1"
  define gs where "gs = (case k of Ret \<Rightarrow> [] | Take l \<Rightarrow> [Lock_take l])"
  have fr2: "fr s2 t = (if t = ?c then gs @ fr s t else fr s t)" for t
    by (cases k) (simp_all add: s1_def s2_def state_defs mD down_return_def gs_def)
  have sel: "all_list s2 = all_list s" "idle_thread s2 = idle_thread s" "cur s2 = ?c" "holder s2 = holder s"
    "in_external_intr s2 = in_external_intr s" "st s2 t = st s t" "ready_list s2 = ready_list s"
    "sleep_list s2 = sleep_list s" "magic (threads s2 t) = magic (threads s t)"
    "load_avg s2 = load_avg s" "semas s2 = (semas s)(q := (semas s q)\<lparr>sema_value := sema_value (semas s q) - 1\<rparr>)" for t
    by (cases k; simp add: s1_def s2_def state_defs mD down_return_def)+
  have q2: "queues_ok s2"
  proof (rule queues_cong [OF mid_queues [OF m]])
    fix t assume "t \<in> set (all_list s)"
    show "st s2 t = st s t \<and> magic (threads s2 t) = magic (threads s t) \<and> (st s t = THREAD_BLOCKED \<longrightarrow> fr s2 t = fr s t)"
      using run_okD(2) [OF mD(2)] by (auto simp: sel fr2 mD)
  qed (auto simp: sel)
  have pcl: "pc ?c (?c = idle_thread s0) (Sema_loop q lv k # strip (fr s ?c))"
    using ok by (simp add: stack_ok_def)
  have gs: "stack_ok s0 s (gs @ fr s ?c) \<and> (\<forall>f\<in>set gs. \<not> blocking f) \<and>
    (\<forall>l. l \<noteq> NULL \<longrightarrow> unat (sema_value (semas s2 (Lock_Sema l))) + tokens l gs = unat (sema_value (semas s (Lock_Sema l))))"
  proof (cases k)
    case Ret
    with pc_down_ret [OF pcl [unfolded Ret]] ok show ?thesis by (auto simp: stack_ok_def gs_def sel)
  next
    case (Take l)
    with pc_down_take [of ?c _ q lv l] pcl have "q = Lock_Sema l" "pc ?c (?c = idle_thread s0) (Lock_take l # strip (fr s ?c))"
      by auto
    with Take ok unat_dec [OF False] show ?thesis by (simp add: stack_ok_def gs_def sel)
  qed
  then have nb: "\<forall>f\<in>set (gs @ fr s ?c). \<not> blocking f"
    and bal: "\<And>l. l \<noteq> NULL \<Longrightarrow> unat (sema_value (semas s2 (Lock_Sema l))) + tokens l gs
      = unat (sema_value (semas s (Lock_Sema l)))" using mD(13) by auto
  have so: "stack_ok s0 s2 (fr s2 ?c)" using gs stack_ok_cong [of s2 s s0] by (simp add: fr2 sel)
  have "kinv0 s2"
  proof (rule kinv0_op [OF mD(1,2) q2 _ _ _ _ _ _ _ so])
    show "\<forall>f\<in>set (tl (fr s2 ?c)). \<not> blocking f"
      using nb by (auto simp: fr2 dest: in_set_tl)
    show "balanced s0 s2"
    proof (unfold balanced_def, intro allI impI)
      fix l :: nat assume "l \<noteq> NULL"
      from bal [OF this] tok [OF this]
      show "unat (sema_value (semas s2 (Lock_Sema l))) + (if holder s2 l = NULL then 0 else 1) + tokens l (fr s2 ?c) =
        unat (sema_value (semas s0 (Lock_Sema l))) + (if holder s0 l = NULL then 0 else 1) + tokens l (fr s0 ?c)"
        by (simp add: fr2 sel(4) mD)
    qed
  qed (auto simp: sel mD fr2 passes_def)
  moreover have "run_ok s2" using run_okD [OF mD(2)] by (simp add: run_ok_def sel mD)
  ultimately have "kinv s2"
    using nb by (intro kinvI) (auto simp: fr2 sel)
  then show ?thesis using False ni sel(5) by (simp add: sema_loop_def s1_def s2_def state_defs Let_def)
qed

lemma sema_down_wp:
  assumes m: "mid s0 s" and ni: "\<not> in_external_intr s"
    and ok: "stack_ok s0 s (Sema_loop q (level s) k # fr s (cur s0))"
    and tok: "\<And>l. l \<noteq> NULL \<Longrightarrow> tokens l (fr s (cur s0)) = tokens l (fr s0 (cur s0))"
  shows "wp (sema_down q k s) (\<lambda>s'. kinv s' \<and> \<not> in_external_intr s')"
proof -
  have "mid s0 (s\<lparr>level := INTR_OFF\<rparr>)" using m by (simp add: mid_def)
  then have "wp (sema_loop q (level s) k (s\<lparr>level := INTR_OFF\<rparr>)) (\<lambda>s'. kinv s' \<and> \<not> in_external_intr s')"
    by (rule sema_loop_wp) (use ni ok tok in \<open>simp_all add: stack_ok_def\<close>)
  then show ?thesis using ni by (simp add: sema_down_def intr_disable_def state_defs)
qed

text \<open>What waking a waiter leaves alone.\<close>

definition woken :: "kstate \<Rightarrow> kstate \<Rightarrow> bool" where
  "woken s s' \<longleftrightarrow> all_list s' = all_list s \<and> idle_thread s' = idle_thread s \<and> holder s' = holder s \<and>
     cur s' = cur s \<and> level s' = level s \<and> load_avg s' = load_avg s \<and> in_external_intr s' = in_external_intr s \<and>
     cond_waiters s' = cond_waiters s \<and> mlfqs s' = mlfqs s \<and> ticks s' = ticks s \<and>
     (\<forall>q. sema_value (semas s' q) = sema_value (semas s q)) \<and>
     (\<forall>t. fr s' t = fr s t \<and> prio s' t = prio s t \<and> donations (threads s' t) = donations (threads s t) \<and>
        base_priority (threads s' t) = base_priority (threads s t) \<and>
        waiting_lock (threads s' t) = waiting_lock (threads s t)) \<and>
     (\<forall>t. st s' t \<noteq> st s t \<longrightarrow> st s t = THREAD_BLOCKED \<and> st s' t = THREAD_READY \<and> fr s t \<noteq> [])"

lemma wokenD:
  assumes "woken s s'"
  shows "all_list s' = all_list s" "idle_thread s' = idle_thread s" "holder s' = holder s" "cur s' = cur s"
    "level s' = level s" "in_external_intr s' = in_external_intr s"
    "sema_value (semas s' q) = sema_value (semas s q)" "fr s' t = fr s t"
    "st s' t \<noteq> st s t \<Longrightarrow> st s t = THREAD_BLOCKED \<and> st s' t = THREAD_READY \<and> fr s t \<noteq> []"
    "load_avg s' = load_avg s"
  using assms by (auto simp: woken_def)

lemma woken_refl [simp]: "woken s s" by (simp add: woken_def)

lemma woken_run: "woken s s' \<Longrightarrow> run_ok s \<Longrightarrow> run_ok s'"
  unfolding run_ok_def using wokenD [of s s'] by (metis thread_status.distinct(1,3))

lemma priority_greater_level [simp]: "priority_greater (s\<lparr>level := lev\<rparr>) = priority_greater s"
  by (intro ext) (simp add: priority_greater_def)

lemma thread_unblock_eq:
  assumes "is_thread s t" "st s t = THREAD_BLOCKED" "level s = INTR_ON \<Longrightarrow> \<not> in_external_intr s"
  shows "thread_unblock t s = Some (set_status t THREAD_READY (ready_insert t s))"
  using assms
  by (cases "level s")
    (auto simp: thread_unblock_def intr_set_level_def intr_enable_def intr_disable_def state_defs is_thread_def
      Let_def upd_def intro!: kstate.equality)

lemma sema_wake_wp:
  assumes q: "queues_ok s" and i: "waits_on (fr s (idle_thread s)) = None"
    and lev: "level s = INTR_ON \<Longrightarrow> \<not> in_external_intr s"
  shows "wp (sema_wake sr s) (\<lambda>s'. queues_ok s' \<and> woken s s' \<and> sleep_list s' = sleep_list s)"
proof (cases "waiters (semas s sr)")
  case Nil
  then show ?thesis using q by (simp add: sema_wake_def)
next
  case (Cons w ws)
  note qd = queuesD [OF q]
  define t where "t = first_min (thread_priority_greater s) w ws"
  have t: "t \<in> set (waiters (semas s sr))" using first_min_in [of _ w ws] by (simp add: t_def Cons)
  then have tb: "t \<in> set (all_list s)" "st s t = THREAD_BLOCKED" "waits_on (fr s t) = Some sr"
    using qd(10) [of t sr] by auto
  define s1 where "s1 = set_sema sr (\<lambda>m. m\<lparr>waiters := remove1 t (waiters m)\<rparr>) s"
  define s2 where "s2 = set_status t THREAD_READY (ready_insert t s1)"
  have "sema_wake sr s = Some s2"
    using Cons thread_unblock_eq [of s1 t] tb qd(6,7) [OF tb(1)] lev
    by (simp add: sema_wake_def t_def [symmetric] s1_def s2_def is_thread_def set_sema_def)
  moreover have "t \<noteq> idle_thread s" using tb(3) i by auto
  then have "queues_ok s2"
  proof (rule queues_unblock [OF q tb(1,2), of s2 "priority_greater s1"])
    show "waiters (semas s2 q') = remove1 t (waiters (semas s q'))" for q'
      using qd(10) [of t q'] tb(3) by (simp add: s1_def s2_def state_defs remove1_idem)
    show "set (map snd (sleep_list s2)) = set (map snd (sleep_list s)) - {t}"
      using qd(11) [of t] tb(3) by (auto simp: s1_def s2_def state_defs waits_on_Some)
  qed (use qd(4) in \<open>simp_all add: s1_def s2_def state_defs\<close>)
  moreover have "woken s s2" using tb by (auto simp: woken_def s1_def s2_def state_defs)
  moreover have "sleep_list s2 = sleep_list s" by (simp add: s1_def s2_def state_defs)
  ultimately show ?thesis by (simp add: wp_def)
qed

lemma token_unique:
  assumes "locks_ok s" "c \<in> set (all_list s)" "tokens l (fr s c) \<ge> 1" "l \<noteq> NULL"
  shows "sema_value (semas s (Lock_Sema l)) = 0" "holder s l = NULL" "tokens l (fr s c) = 1"
proof -
  have "tokens l (fr s c) \<le> (\<Sum>t\<in>set (all_list s). tokens l (fr s t))"
    by (rule member_le_sum) (use assms(2) in auto)
  moreover have "lock_token s l = 1" using assms(1,4) by (simp add: locks_ok_def)
  ultimately have "unat (sema_value (semas s (Lock_Sema l))) = 0" "holder s l = NULL" "tokens l (fr s c) = 1"
    using assms(3) unfolding lock_token_def by (cases "holder s l = NULL"; simp)+
  then show "sema_value (semas s (Lock_Sema l)) = 0" "holder s l = NULL" "tokens l (fr s c) = 1"
    by (simp_all add: unat_eq_zero)
qed

lemma sema_up_wp:
  assumes m: "mid s0 s" and ni: "\<not> in_external_intr s" and ok: "stack_ok s0 s (fr s (cur s0))"
    and tok: "\<And>l. l \<noteq> NULL \<Longrightarrow>
      tokens l (fr s (cur s0)) + (if q = Lock_Sema l then 1 else 0) = tokens l (fr s0 (cur s0))"
  shows "wp (sema_up q s) (\<lambda>s'. kinv s' \<and> \<not> in_external_intr s')"
proof -
  let ?c = "cur s0" and ?s = "s\<lparr>level := INTR_OFF\<rparr>"
  note mD = midD [OF m] and k = kinv0D [OF midD(1) [OF m]]
  have mq: "queues_ok ?s" by (rule queues_cong [OF mid_queues [OF m]]) simp_all
  have "pc ?c (?c = idle_thread s0) (strip (fr s ?c))" using ok by (simp add: stack_ok_def)
  then have idle: "waits_on (fr ?s (idle_thread ?s)) = None"
    using idle_frames(1) [OF mD(1)] mD(5,12,13) pc_idle_frames [of ?c]
    by (cases "idle_thread s0 = ?c"; cases "fr s ?c") auto
  obtain s2 where wake: "sema_wake q ?s = Some s2" and q2: "queues_ok s2" and w2: "woken ?s s2"
    and sl: "sleep_list s2 = sleep_list s"
    using sema_wake_wp [OF mq idle, of q] by (auto simp: wp_def)
  note wD = wokenD [OF w2, simplified]
  define s3 where "s3 = push [Set_level (level s)] (set_sema q (\<lambda>m. m\<lparr>sema_value := sema_value m + 1\<rparr>) s2)"
  have run2: "run_ok s2" by (rule woken_run [OF w2]) (use mid_run [OF m] in \<open>simp add: run_ok_def\<close>)
  have fr3: "fr s3 t = (if t = ?c then Set_level (level s) # fr s t else fr s t)" for t
    by (simp add: s3_def state_defs wD mD)
  have run3: "run_ok s3" using run2 by (simp add: run_ok_def s3_def state_defs)
  have q3: "queues_ok s3"
  proof (rule queues_cong [OF q2])
    fix t assume "t \<in> set (all_list s2)"
    show "st s3 t = st s2 t \<and> magic (threads s3 t) = magic (threads s2 t) \<and> (st s2 t = THREAD_BLOCKED \<longrightarrow> fr s3 t = fr s2 t)"
      using run_okD(2) [OF run2] by (auto simp: s3_def state_defs)
  qed (auto simp: s3_def state_defs)
  have so: "stack_ok s0 s3 (fr s3 ?c)"
    using ok stack_ok_cong [of s3 s s0] by (simp add: fr3) (simp add: s3_def state_defs wD)
  have "kinv0 s3"
  proof (rule kinv0_op [OF mD(1,2) q3 _ _ _ _ _ _ _ so])
    show "balanced s0 s3"
    proof (unfold balanced_def, intro allI impI)
      fix l :: nat assume l: "l \<noteq> NULL"
      have "q = Lock_Sema l \<Longrightarrow> sema_value (semas s0 (Lock_Sema l)) = 0"
        using token_unique(1) [OF k(3) run_okD(1) [OF mD(2)] _ l] tok [OF l] by simp
      with tok [OF l]
      show "unat (sema_value (semas s3 (Lock_Sema l))) + (if holder s3 l = NULL then 0 else 1) + tokens l (fr s3 ?c) =
        unat (sema_value (semas s0 (Lock_Sema l))) + (if holder s0 l = NULL then 0 else 1) + tokens l (fr s0 ?c)"
        by (cases "q = Lock_Sema l") (simp_all add: fr3, simp_all add: s3_def state_defs wD mD)
    qed
    show "\<forall>f\<in>set (tl (fr s3 ?c)). \<not> blocking f" using mD(13) by (simp add: fr3)
    fix t assume "t \<in> set (all_list s0)" "t \<noteq> ?c" "fr s0 t = []" "st s0 t = THREAD_BLOCKED"
    then show "st s3 t = THREAD_BLOCKED"
      using wD(9) [of t] by (auto simp: s3_def state_defs mD)
  qed (auto simp: fr3 mD s3_def state_defs wD passes_def sl)
  then have "wp (thread_yield s3) (\<lambda>s'. kinv s' \<and> switched (push [Set_level (level s3)] s3) s')"
    by (rule thread_yield_wp [OF _ run3])
      (use mD(13) ni in \<open>auto simp: fr3 s3_def state_defs wD mD split: if_splits\<close>)
  then show ?thesis
    using wake ni wD(6)
    by (auto simp: sema_up_def intr_disable_def Let_def s3_def switched_def state_defs elim!: wp_mono)
qed

section \<open>Operations without a switch\<close>

definition quiet :: "kstate \<Rightarrow> kstate \<Rightarrow> bool" where
  "quiet s s' \<longleftrightarrow> all_list s' = all_list s \<and> ready_list s' = ready_list s \<and> idle_thread s' = idle_thread s \<and>
     sleep_list s' = sleep_list s \<and> cur s' = cur s \<and> load_avg s' = load_avg s \<and> (\<forall>q. waiters (semas s' q) = waiters (semas s q)) \<and>
     (\<forall>t. st s' t = st s t \<and> magic (threads s' t) = magic (threads s t)) \<and>
     (\<forall>t. t \<noteq> cur s \<longrightarrow> fr s' t = fr s t)"

lemma op_quiet0:
  assumes k: "kinv0 s0" "run_ok s0" and q: "quiet s0 s'"
    and ok: "passes s0 s'" "stack_ok s0 s' (fr s' (cur s0))" "\<forall>f\<in>set (fr s' (cur s0)). \<not> blocking f"
      "balanced s0 s'"
  shows "kinv0 s' \<and> run_ok s'"
proof
  have fr: "t \<noteq> cur s0 \<Longrightarrow> fr s' t = fr s0 t" for t using q by (simp add: quiet_def)
  have "queues_ok s'"
  proof (rule queues_cong [OF kinv0D(1) [OF k(1)]])
    fix t assume "t \<in> set (all_list s0)"
    show "st s' t = st s0 t \<and> magic (threads s' t) = magic (threads s0 t) \<and> (st s0 t = THREAD_BLOCKED \<longrightarrow> fr s' t = fr s0 t)"
      using run_okD(2) [OF k(2)] q fr [of t] by (cases "t = cur s0") (auto simp: quiet_def)
  qed (use q in \<open>simp_all add: quiet_def\<close>)
  then show "kinv0 s'"
    by (rule kinv0_op [OF k]) (use q ok in \<open>auto simp: quiet_def dest: in_set_tl\<close>)
  show "run_ok s'" using k(2) q by (simp add: run_ok_def quiet_def)
qed

lemma op_quiet:
  assumes k: "kinv0 s0" "run_ok s0" and q: "quiet s0 s'"
    and ok: "passes s0 s'" "stack_ok s0 s' (fr s' (cur s0))" "\<forall>f\<in>set (fr s' (cur s0)). \<not> blocking f"
      "balanced s0 s'"
  shows "kinv s'"
  using op_quiet0 [OF assms] ok(3) q by (intro kinvI) (auto simp: quiet_def)

text \<open>Updates of donation lists, awaited locks and priorities.\<close>

definition dsame :: "kstate \<Rightarrow> kstate \<Rightarrow> bool" where
  "dsame s s' \<longleftrightarrow> cur s' = cur s \<and> ready_list s' = ready_list s \<and> all_list s' = all_list s \<and>
     idle_thread s' = idle_thread s \<and> semas s' = semas s \<and> holder s' = holder s \<and> level s' = level s \<and>
     in_external_intr s' = in_external_intr s \<and> mlfqs s' = mlfqs s \<and> sleep_list s' = sleep_list s \<and>
     ticks s' = ticks s \<and> load_avg s' = load_avg s \<and> cond_waiters s' = cond_waiters s \<and> yield_on_return s' = yield_on_return s \<and>
     (\<forall>t. st s' t = st s t \<and> magic (threads s' t) = magic (threads s t) \<and> fr s' t = fr s t)"

lemma dsame_sel:
  assumes "dsame s s'"
  shows "cur s' = cur s" "ready_list s' = ready_list s" "all_list s' = all_list s" "idle_thread s' = idle_thread s"
    "semas s' = semas s" "holder s' = holder s" "level s' = level s" "in_external_intr s' = in_external_intr s"
    "mlfqs s' = mlfqs s" "sleep_list s' = sleep_list s" "ticks s' = ticks s" "cond_waiters s' = cond_waiters s"
    "yield_on_return s' = yield_on_return s"
    "st s' t = st s t" "magic (threads s' t) = magic (threads s t)" "fr s' t = fr s t"
    "load_avg s' = load_avg s"
  using assms by (auto simp: dsame_def)

lemma dsame_refl [simp]: "dsame s s" by (simp add: dsame_def)

lemma dsame_trans: "dsame s s' \<Longrightarrow> dsame s' s'' \<Longrightarrow> dsame s s''"
  by (simp add: dsame_def)

lemma dsame_upd:
  "dsame s (upd t (\<lambda>th. th\<lparr>donations := D th\<rparr>) s)"
  "dsame s (upd t (\<lambda>th. th\<lparr>waiting_lock := w\<rparr>) s)"
  "dsame s (upd t (\<lambda>th. th\<lparr>priority := P th\<rparr>) s)"
  "dsame s (upd t (\<lambda>th. th\<lparr>base_priority := b\<rparr>) s)"
  by (simp_all add: dsame_def)

lemma dsame_priority_update: "dsame s (donate_priority_update t s)"
  unfolding donate_priority_update_def by (rule dsame_upd(3))

lemma dsame_drop: "dsame s (drop_donations l c des s)"
proof (induction des arbitrary: s)
  case (Cons de des)
  let ?s1 = "upd c (\<lambda>th. th\<lparr>donations := remove1 de (donations th)\<rparr>) s"
  let ?s2 = "if waiting_lock (threads ?s1 (snd de)) = l then upd (snd de) (\<lambda>th. th\<lparr>waiting_lock := NULL\<rparr>) ?s1 else ?s1"
  have "dsame s ?s2" using dsame_trans [OF dsame_upd(1) dsame_upd(2)] dsame_upd(1) by (auto split: if_splits)
  with Cons.IH [of ?s2] Cons.IH [of s] show ?case by (auto simp: Let_def intro: dsame_trans)
qed simp

lemma dsame_chain: "donate_chain t s = Some s' \<Longrightarrow> dsame s s'"
proof (induction rule: donate_chain.raw_induct [where P = "\<lambda>t s s'. dsame s s'", rotated 1, consumes 1])
  case (1 f t s s')
  show ?case
    using 1(2) dsame_priority_update [of s t]
    by (auto simp: Let_def split: if_splits intro: dsame_trans [OF _ 1(1)])
qed

lemma chain_ends_cong:
  "(\<And>t. waiting_lock (threads s' t) = waiting_lock (threads s t)) \<Longrightarrow> holder s' = holder s \<Longrightarrow>
     chain_ends n s' t = chain_ends n s t"
  by (induction n arbitrary: t) simp_all

lemma donate_chain_ends: "chain_ends n s t \<Longrightarrow> \<exists>s'. donate_chain t s = Some s'"
proof (induction n arbitrary: s t)
  case 0
  then show ?case by (subst donate_chain.simps) simp
next
  case (Suc n)
  let ?s = "donate_priority_update t s"
  have "chain_ends n ?s u = chain_ends n s u" for u
    by (rule chain_ends_cong) (simp_all add: donate_priority_update_def)
  with Suc.IH [of ?s] Suc.prems show ?case
    by (subst donate_chain.simps) (auto simp: Let_def donate_priority_update_def)
qed

section \<open>Locks\<close>

lemma mid_held: "mid s0 s \<Longrightarrow> lock_held_by_current_thread l s = (if l = NULL then None else Some (holder s0 l = cur s0))"
  using mid_current [of s0 s] by (simp add: lock_held_by_current_thread_def midD(7) ASSERT_def)

lemma mid_level: "mid s0 s \<Longrightarrow> mid s0 (s\<lparr>level := lv\<rparr>)"
  by (simp add: mid_def)

lemma no_deadlock_cong:
  assumes "all_list s' = all_list s" "holder s' = holder s" "cur s' = cur s"
    "\<And>t. waiting_lock (threads s' t) = waiting_lock (threads s t)"
  shows "no_deadlock l s' = no_deadlock l s"
proof -
  have "chain_ends n (upd (cur s) (\<lambda>th. th\<lparr>waiting_lock := l\<rparr>) s') t =
      chain_ends n (upd (cur s) (\<lambda>th. th\<lparr>waiting_lock := l\<rparr>) s) t" for n t
    by (rule chain_ends_cong) (simp_all add: assms)
  then show ?thesis by (simp add: no_deadlock_def assms)
qed

lemma lock_donate_wp:
  assumes nd: "\<not> mlfqs s \<Longrightarrow> no_deadlock l s" and c: "thread_current s = Some (cur s)"
  shows "wp (lock_donate l s) (dsame s)"
proof (cases "\<not> mlfqs s \<and> holder s l \<noteq> NULL")
  case True
  let ?s1 = "upd (cur s) (\<lambda>th. th\<lparr>waiting_lock := l\<rparr>) s"
  let ?s2 = "upd (holder s l) (\<lambda>th. th\<lparr>donations :=
    insert_ordered (donor_priority_greater ?s1) (l, cur s) (donations th)\<rparr>) ?s1"
  obtain n where "chain_ends n ?s1 (holder s l)" using nd True by (auto simp: no_deadlock_def)
  moreover have "chain_ends n ?s2 t = chain_ends n ?s1 t" for t by (rule chain_ends_cong) simp_all
  ultimately obtain s' where s': "donate_chain (holder s l) ?s2 = Some s'" using donate_chain_ends [of n ?s2] by auto
  have "dsame s ?s2" using dsame_trans [OF dsame_upd(2) dsame_upd(1)] .
  with dsame_chain [OF s'] have "dsame s s'" by (rule dsame_trans [rotated])
  with s' True c show ?thesis by (simp add: lock_donate_def Let_def)
next
  case False
  then show ?thesis unfolding lock_donate_def by (simp only: if_False wp_simps dsame_refl)
qed

lemma lock_acquire_wp:
  assumes m: "mid s0 s" and ni: "\<not> in_external_intr s" and l: "l \<noteq> NULL" "holder s0 l \<noteq> cur s0"
    and nd: "\<not> mlfqs s \<Longrightarrow> no_deadlock l s"
    and ok: "stack_ok s0 s (Sema_down (Lock_Sema l) (Take l) # fr s (cur s0))"
    and tok: "\<And>l. l \<noteq> NULL \<Longrightarrow> tokens l (fr s (cur s0)) = tokens l (fr s0 (cur s0))"
  shows "wp (lock_acquire l s) (\<lambda>s'. kinv s' \<and> \<not> in_external_intr s')"
proof -
  let ?s = "s\<lparr>level := INTR_OFF\<rparr>" and ?c = "cur s0"
  note mD = midD [OF m]
  have fin: "kinv s2 \<and> \<not> in_external_intr s2"
    if d: "dsame ?s s1" and s2: "s2 = push [Sema_down (Lock_Sema l) (Take l)] (s1\<lparr>level := level s\<rparr>)" for s1 s2
  proof -
    note D = dsame_sel [OF d, simplified]
    have fr2: "fr s2 t = (if t = ?c then Sema_down (Lock_Sema l) (Take l) # fr s t else fr s t)" for t
      by (simp add: s2 state_defs D mD)
    have "kinv s2"
    proof (rule op_quiet [OF mD(1,2)])
      show "quiet s0 s2" by (simp add: quiet_def s2 state_defs D mD)
      show "stack_ok s0 s2 (fr s2 ?c)"
        using ok stack_ok_cong [of s2 s s0] by (simp add: fr2) (simp add: s2 state_defs D)
      show "balanced s0 s2" using tok by (simp add: balanced_def fr2) (simp add: s2 state_defs D mD)
    qed (use mD(13) in \<open>auto simp: fr2 passes_def, auto simp: s2 state_defs D mD\<close>)
    then show ?thesis using ni by (simp add: s2 state_defs D)
  qed
  have cur: "thread_current ?s = Some (cur s0)" by (rule mid_current [OF mid_level [OF m]])
  have "wp (lock_donate l ?s) (dsame ?s)"
    using lock_donate_wp [of ?s l] nd no_deadlock_cong [of ?s s l] mD(9) cur by simp
  then obtain s1 where s1: "lock_donate l ?s = Some s1" and d: "dsame ?s s1" by (auto simp: wp_def)
  have "wp (lock_acquire l s) (\<lambda>s'. s' = push [Sema_down (Lock_Sema l) (Take l)] (s1\<lparr>level := level s\<rparr>))"
    using l ni s1 mid_held [OF m, of l] dsame_sel(8) [OF d]
    by (simp add: lock_acquire_def intr_disable_def Let_def intr_get_level_def intr_context_def)
  with fin [OF d] show ?thesis by (auto elim: wp_mono)
qed

lemma lock_set_holder:
  assumes m: "mid s0 s" and ni: "\<not> in_external_intr s" and l: "l \<noteq> NULL"
    and ok: "stack_ok s0 (s\<lparr>holder := (holder s)(l := cur s0)\<rparr>) (fr s (cur s0))"
    and tok: "\<And>l'. l' \<noteq> NULL \<Longrightarrow> tokens l' (fr s (cur s0)) + (if l' = l then 1 else 0) = tokens l' (fr s0 (cur s0))"
  shows "holder s l = NULL" "kinv (s\<lparr>holder := (holder s)(l := cur s0)\<rparr>)"
proof -
  let ?s = "s\<lparr>holder := (holder s)(l := cur s0)\<rparr>"
  note mD = midD [OF m]
  have c: "cur s0 \<in> set (all_list s0)" by (rule run_okD(1) [OF mD(2)])
  then have cN: "cur s0 \<noteq> NULL" by (rule queuesD(6) [OF kinv0D(1) [OF mD(1)]])
  have h: "holder s0 l = NULL"
    using token_unique(2) [OF kinv0D(3) [OF mD(1)] c _ l] tok [OF l] by simp
  then show "holder s l = NULL" by (simp add: mD)
  show "kinv ?s"
  proof (rule op_quiet [OF mD(1,2)])
    show "quiet s0 ?s" by (simp add: quiet_def mD)
    show "passes s0 ?s" using h by (simp add: passes_def mD)
    show "balanced s0 ?s"
    proof (unfold balanced_def, intro allI impI)
      fix l' :: nat assume "l' \<noteq> NULL"
      from tok [OF this] h cN
      show "unat (sema_value (semas ?s (Lock_Sema l'))) + (if holder ?s l' = NULL then 0 else 1) + tokens l' (fr ?s (cur s0)) =
        unat (sema_value (semas s0 (Lock_Sema l'))) + (if holder s0 l' = NULL then 0 else 1) + tokens l' (fr s0 (cur s0))"
        by (cases "l' = l") (simp_all add: mD)
    qed
  qed (use ok mD(13) in auto)
qed

lemma lock_take_wp:
  assumes "mid s0 s" "\<not> in_external_intr s" "l \<noteq> NULL"
    "stack_ok s0 (s\<lparr>holder := (holder s)(l := cur s0)\<rparr>) (fr s (cur s0))"
    "\<And>l'. l' \<noteq> NULL \<Longrightarrow> tokens l' (fr s (cur s0)) + (if l' = l then 1 else 0) = tokens l' (fr s0 (cur s0))"
  shows "wp (lock_take l s) (\<lambda>s'. kinv s' \<and> \<not> in_external_intr s')"
    "wp (lock_hold l s) (\<lambda>s'. kinv s' \<and> \<not> in_external_intr s')"
  using lock_set_holder [OF assms] mid_current [OF assms(1)] assms(2)
  by (simp_all add: lock_take_def lock_hold_def)

lemma lock_release_wp:
  assumes m: "mid s0 s" and ni: "\<not> in_external_intr s" and l: "l \<noteq> NULL" "holder s0 l = cur s0"
    and ok: "stack_ok s0 (s\<lparr>holder := (holder s)(l := NULL)\<rparr>) (Sema_up (Lock_Sema l) # fr s (cur s0))"
    and tok: "\<And>l. l \<noteq> NULL \<Longrightarrow> tokens l (fr s (cur s0)) = tokens l (fr s0 (cur s0))"
  shows "wp (lock_release l s) (\<lambda>s'. kinv s' \<and> \<not> in_external_intr s')"
proof -
  let ?s = "s\<lparr>level := INTR_OFF\<rparr>" and ?c = "cur s0"
  note mD = midD [OF m]
  define s1 where "s1 = lock_undonate l ?c ?s"
  have d: "dsame ?s s1"
    unfolding s1_def lock_undonate_def using dsame_trans [OF dsame_drop dsame_priority_update] by auto
  note D = dsame_sel [OF d, simplified]
  define s2 where "s2 = push [Sema_up (Lock_Sema l)] (s1\<lparr>holder := (holder s1)(l := NULL), level := level s\<rparr>)"
  have fr2: "fr s2 t = (if t = ?c then Sema_up (Lock_Sema l) # fr s t else fr s t)" for t
    by (simp add: s2_def state_defs D mD)
  have cN: "?c \<noteq> NULL" by (rule queuesD(6) [OF kinv0D(1) [OF mD(1)] run_okD(1) [OF mD(2)]])
  have "kinv s2"
  proof (rule op_quiet [OF mD(1,2)])
    show "quiet s0 s2" by (simp add: quiet_def s2_def state_defs D mD)
    show "stack_ok s0 s2 (fr s2 ?c)"
      using ok stack_ok_cong [of s2 "s\<lparr>holder := (holder s)(l := NULL)\<rparr>" s0]
      by (simp add: fr2) (simp add: s2_def state_defs D)
    show "balanced s0 s2"
      using tok l cN by (simp add: balanced_def fr2) (simp add: s2_def state_defs D mD)
    show "passes s0 s2" using l by (simp add: passes_def s2_def state_defs D mD)
  qed (use mD(13) in \<open>auto simp: fr2\<close>)
  moreover have "wp (lock_release l s) (\<lambda>s'. s' = s2)"
    using l ni mid_held [OF m, of l] mid_current [OF mid_level [OF m], of INTR_OFF]
    by (simp add: lock_release_def intr_disable_def intr_get_level_def Let_def s1_def [symmetric] D mD s2_def)
  moreover have "\<not> in_external_intr s2" using ni by (simp add: s2_def state_defs D)
  ultimately show ?thesis by (auto elim: wp_mono)
qed

lemma sema_try_down_wp:
  assumes "level s = INTR_ON \<Longrightarrow> \<not> in_external_intr s"
  shows "wp (sema_try_down q s) (\<lambda>(b, s'). b = (sema_value (semas s q) \<noteq> 0) \<and>
    s' = (if b then set_sema q (\<lambda>m. m\<lparr>sema_value := sema_value m - 1\<rparr>) s else s))"
  using assms
  by (cases "sema_value (semas s q) = 0")
    (auto simp: sema_try_down_def intr_disable_def Let_def state_defs word_gt_0 intro!: kstate.equality)

lemma try_quiet:
  assumes m: "kinv0 s0" "run_ok s0" and nb: "\<forall>f\<in>set (fr s0 (cur s0)). \<not> blocking f"
    and v: "sema_value (semas s0 q) \<noteq> 0"
    and gs: "gs = (case q of Lock_Sema l \<Rightarrow> [Lock_hold l] | _ \<Rightarrow> [])" and ok: "stack_ok s0 s0 (gs @ fr s0 (cur s0))"
  shows "kinv (push gs (set_sema q (\<lambda>m. m\<lparr>sema_value := sema_value m - 1\<rparr>) s0))"
proof (rule op_quiet [OF m])
  let ?s = "push gs (set_sema q (\<lambda>m. m\<lparr>sema_value := sema_value m - 1\<rparr>) s0)"
  show "quiet s0 ?s" by (simp add: quiet_def state_defs)
  show "stack_ok s0 ?s (fr ?s (cur s0))" using ok stack_ok_cong [of ?s s0 s0] by (simp add: state_defs)
  show "balanced s0 ?s"
    using unat_dec [OF v] by (cases q) (auto simp: balanced_def state_defs gs)
qed (use nb gs in \<open>auto simp: state_defs passes_def split: sref.splits\<close>)

end
