(* ===== verification/Kernel_Safety.thy ===== *)
theory Kernel_Safety
  imports Synch_Invariant
begin

text \<open>
  The remaining operations keep the invariant: condition variables, creation and exit of threads, sleeping,
  the idle loop, priorities, and the timer interrupt. The theory ends with the step of the machine: from a
  state with the invariant, every legal event leads to a state with the invariant.
\<close>

section \<open>Condition variables\<close>

lemma waiter_sema_empty:
  assumes k: "kinv0 s" and r: "run_ok s"
  shows "waiters (semas s (Waiter_Sema (cur s))) = []"
proof -
  have "t \<notin> set (waiters (semas s (Waiter_Sema (cur s))))" for t
  proof
    assume "t \<in> set (waiters (semas s (Waiter_Sema (cur s))))"
    then have t: "t \<in> set (all_list s)" "st s t = THREAD_BLOCKED" "waits_on (fr s t) = Some (Waiter_Sema (cur s))"
      using queuesD(10) [OF kinv0D(1) [OF k]] by auto
    then obtain lev j gs where "fr s t = Sema_loop (Waiter_Sema (cur s)) lev j # gs" by (auto simp: waits_on_Some)
    with pc_okD(1) [OF kinv0D(4) [OF k t(1)]] have "t = cur s" by (auto simp: pc_simps)
    with t(2) run_okD(2) [OF r] show False by simp
  qed
  then show ?thesis by (metis list.set_intros(1) neq_Nil_conv)
qed

lemma kinv_mid:
  assumes "kinv s" "frames (threads s (cur s)) = f # fs"
  shows "mid s (pop_frame s)"
  using assms pc_okD(2) [OF kinv0D(4) [of s "cur s"]]
  by (auto simp: kinv_iff mid_def state_defs run_ok_def)

lemma kinv_mid_same:
  assumes "kinv s" "\<forall>f\<in>set (fr s (cur s)). \<not> blocking f"
  shows "mid s s"
  using assms by (simp add: kinv_iff mid_def)

lemma cond_wait_wp:
  assumes k: "kinv s0" and e: "fr s0 (cur s0) = []" and ni: "\<not> in_external_intr s0"
    and l: "cv \<noteq> NULL" "client_lock l" "holder s0 l = cur s0" and ci: "cur s0 \<noteq> idle_thread s0"
  shows "wp (cond_wait cv l s0) (\<lambda>s'. kinv s' \<and> \<not> in_external_intr s')"
proof -
  let ?c = "cur s0"
  have k0: "kinv0 s0" "run_ok s0" using k by (auto simp: kinv_iff)
  have m0: "mid s0 s0" using kinv_mid_same [OF k] e by simp
  have nh: "holder s0 TID_LOCK \<noteq> ?c"
    using pc_okD(9) [OF kinv0D(4) [OF k0(1) run_okD(1) [OF k0(2)]]] e by auto
  define s1 where "s1 = (sema_init (Waiter_Sema ?c) 0 s0)\<lparr>cond_waiters := (cond_waiters s0)(cv := cond_waiters s0 cv @ [?c])\<rparr>"
  have k1: "kinv0 s1 \<and> run_ok s1"
  proof (rule op_quiet0 [OF k0])
    show "quiet s0 s1" using waiter_sema_empty [OF k0] by (simp add: quiet_def s1_def sema_init_def state_defs)
    show "stack_ok s0 s1 (fr s1 ?c)"
      using stack_ok_same [OF k0] stack_ok_cong [of s1 s0 s0] by (simp add: s1_def sema_init_def state_defs)
  qed (use e in \<open>auto simp: s1_def sema_init_def state_defs passes_def balanced_def\<close>)
  have sel: "cur s1 = ?c" "holder s1 = holder s0" "fr s1 t = fr s0 t" "idle_thread s1 = idle_thread s0"
    "in_external_intr s1 = in_external_intr s0" for t
    by (simp_all add: s1_def sema_init_def state_defs)
  let ?s2 = "push [Sema_down (Waiter_Sema ?c) Ret, Lock_acquire l] s1"
  have cN: "?c \<noteq> NULL" using queuesD(6) [OF kinv0D(1) [OF k0(1)] run_okD(1) [OF k0(2)]] .
  have "wp (lock_release l ?s2) (\<lambda>s'. kinv s' \<and> \<not> in_external_intr s')"
  proof (rule lock_release_wp)
    show "mid s1 ?s2" using k1 e by (auto simp: mid_def state_defs sel)
    show "stack_ok s1 (?s2\<lparr>holder := (holder ?s2)(l := NULL)\<rparr>) (Sema_up (Lock_Sema l) # fr ?s2 (cur s1))"
      using l e ci cN nh by (auto simp: stack_ok_def state_defs sel pc_simps after_up_def)
  qed (use l e ni sel in \<open>auto simp: state_defs client_lock_def\<close>)
  moreover have "cond_wait cv l s0 = lock_release l ?s2"
    using l ni mid_held [OF m0, of l]
    by (simp add: cond_wait_def s1_def state_defs client_lock_def Let_def sema_init_def)
  ultimately show ?thesis by simp
qed

lemma cond_min_Some:
  assumes "\<forall>w\<in>insert m (set ws). waiters (semas s (Waiter_Sema w)) \<noteq> []"
  shows "\<exists>x. cond_min s m ws = Some x"
  using assms by (induction ws arbitrary: m) (auto simp: cond_sema_priority_greater_def)

lemma cond_signal_wp:
  assumes m: "mid s0 s" and ni: "\<not> in_external_intr s" and l: "cv \<noteq> NULL" "l \<noteq> NULL" "holder s0 l = cur s0"
    and rdy: "cond_ready cv s" and ok: "stack_ok s0 s (fr s (cur s0))"
    and tok: "\<And>l. l \<noteq> NULL \<Longrightarrow> tokens l (fr s (cur s0)) = tokens l (fr s0 (cur s0))"
  shows "wp (cond_signal cv l s) (\<lambda>s'. kinv s' \<and> \<not> in_external_intr s')"
proof (cases "cond_waiters s cv")
  case Nil
  have "quiet s0 s" using m by (simp add: quiet_def mid_def)
  then have "kinv s"
    by (rule op_quiet [OF midD(1,2) [OF m]])
      (use ok tok midD(13) [OF m] in \<open>auto simp: passes_def balanced_def midD [OF m]\<close>)
  with Nil show ?thesis using l ni mid_held [OF m, of l] by (simp add: cond_signal_def state_defs)
next
  case (Cons w ws)
  have "\<exists>x. cond_min s w ws = Some x"
    using rdy cond_min_Some [of w ws s] Cons by (cases ws) (auto simp: cond_ready_def)
  then obtain x where x: "cond_min s w ws = Some x" by blast
  let ?s = "s\<lparr>cond_waiters := (cond_waiters s)(cv := remove1 x (cond_waiters s cv))\<rparr>"
  have "wp (sema_up (Waiter_Sema x) ?s) (\<lambda>s'. kinv s' \<and> \<not> in_external_intr s')"
  proof (rule sema_up_wp)
    show "mid s0 ?s" using m by (simp add: mid_def)
    show "stack_ok s0 ?s (fr ?s (cur s0))" using ok by (simp add: stack_ok_def)
  qed (use ni tok in auto)
  with Cons x show ?thesis using l ni mid_held [OF m, of l] by (simp add: cond_signal_def state_defs)
qed

lemma cond_broadcast_wp:
  assumes m: "mid s0 s" and ni: "\<not> in_external_intr s" and l: "cv \<noteq> NULL" "client_lock l" "holder s0 l = cur s0"
    and rdy: "cond_ready cv s" and e: "strip (fr s (cur s0)) = []" and ci: "cur s0 \<noteq> idle_thread s0"
    and nh: "holder s0 TID_LOCK \<noteq> cur s0" and nc: "\<And>x. \<not> creating x (fr s (cur s0))" and la: "\<And>l. Lock_acquire l \<notin> set (fr s (cur s0))"
    and tok: "\<And>l. l \<noteq> NULL \<Longrightarrow> tokens l (fr s (cur s0)) = tokens l (fr s0 (cur s0))"
  shows "wp (cond_broadcast cv l s) (\<lambda>s'. kinv s' \<and> \<not> in_external_intr s')"
proof (cases "cond_waiters s cv = []")
  case True
  have "quiet s0 s" using m by (simp add: quiet_def mid_def)
  moreover have "stack_ok s0 s (fr s (cur s0))" using e ci nc la nh by (simp add: stack_ok_def pc_simps midD [OF m])
  ultimately have "kinv s"
    by (intro op_quiet [OF midD(1,2) [OF m]])
      (use tok midD(13) [OF m] in \<open>auto simp: passes_def balanced_def midD [OF m]\<close>)
  with True show ?thesis using l ni by (simp add: cond_broadcast_def client_lock_def)
next
  case False
  let ?s = "push [Broadcast cv l] s"
  have "wp (cond_signal cv l ?s) (\<lambda>s'. kinv s' \<and> \<not> in_external_intr s')"
  proof (rule cond_signal_wp)
    show "mid s0 ?s" using m by (auto simp: mid_def state_defs)
    show "stack_ok s0 ?s (fr ?s (cur s0))"
      using l e ci nc la nh by (auto simp: stack_ok_def state_defs midD [OF m] pc_simps)
    show "cond_ready cv ?s" using rdy by (simp add: cond_ready_def state_defs)
  qed (use l ni tok in \<open>auto simp: state_defs client_lock_def midD [OF m]\<close>)
  with False show ?thesis using l by (simp add: cond_broadcast_def client_lock_def)
qed

section \<open>Creation and exit\<close>

lemma queues_created:
  assumes q: "queues_ok s" and p: "page \<notin> set (all_list s)" "page \<noteq> NULL"
    and a: "all_list s' = all_list s @ [page]" "idle_thread s' = idle_thread s" "ready_list s' = ready_list s"
      "sleep_list s' = sleep_list s" "\<And>q. waiters (semas s' q) = waiters (semas s q)"
    and st: "st s' page = THREAD_BLOCKED" "fr s' page = []" "magic (threads s' page) = THREAD_MAGIC"
    and ot: "\<And>t. t \<noteq> page \<Longrightarrow> st s' t = st s t \<and> magic (threads s' t) = magic (threads s t) \<and>
      (st s t = THREAD_BLOCKED \<longrightarrow> fr s' t = fr s t)"
  shows "queues_ok s'"
proof -
  note qd = queuesD [OF q]
  have R: "t \<in> set (ready_list s) \<longleftrightarrow> t \<in> set (all_list s @ [page]) \<and> st s' t = THREAD_READY \<and> t \<noteq> idle_thread s" for t
    using qd(9) [of t] p(1) st(1) ot [of t] by (cases "t = page") auto
  have W: "t \<in> set (waiters (semas s q)) \<longleftrightarrow>
      t \<in> set (all_list s @ [page]) \<and> st s' t = THREAD_BLOCKED \<and> waits_on (fr s' t) = Some q" for q t
    using qd(10) [of t q] p(1) st ot [of t] by (cases "t = page") auto
  have S: "t \<in> set (map snd (sleep_list s)) \<longleftrightarrow>
      t \<in> set (all_list s @ [page]) \<and> st s' t = THREAD_BLOCKED \<and> sleeping (fr s' t)" for t
    using qd(11) [of t] p(1) st ot [of t] by (cases "t = page") auto
  have A: "t \<noteq> NULL \<and> magic (threads s' t) = THREAD_MAGIC \<and> st s' t \<noteq> THREAD_DYING"
    if "t \<in> set (all_list s @ [page])" for t
    using that p st ot [of t] qd(6-8) [of t] by (cases "t = page") auto
  show ?thesis unfolding queues_ok_def a using R W S A qd(1-5) p(1) by simp
qed

lemma kinv0_create:
  assumes k: "kinv0 s" "run_ok s" and e: "fr s (cur s) = []" and ci: "cur s \<noteq> idle_thread s"
    and q: "queues_ok s'" and p: "page \<notin> set (all_list s)" "page \<noteq> NULL"
    and a: "all_list s' = all_list s @ [page]" "idle_thread s' = idle_thread s" "holder s' = holder s"
      "\<And>q. sema_value (semas s' q) = sema_value (semas s q)" "load_avg s' = load_avg s" "sleep_list s' = sleep_list s"
    and st: "st s' page = THREAD_BLOCKED" "fr s' page = []" "fr s' (cur s) = [Create_rest page Client_func]"
    and ot: "\<And>t. t \<noteq> page \<Longrightarrow> st s' t = st s t" "\<And>t. t \<noteq> page \<Longrightarrow> t \<noteq> cur s \<Longrightarrow> fr s' t = fr s t"
  shows "kinv0 s'"
proof -
  let ?c = "cur s"
  have c: "?c \<in> set (all_list s)" by (rule run_okD(1) [OF k(2)])
  have pi: "page \<noteq> idle_thread s" using p(1) queuesD(5) [OF kinv0D(1) [OF k(1)]] by auto
  have old: "u \<noteq> page" if "u \<in> set (all_list s)" for u using that p(1) by auto
  have nc: "\<not> creating page (fr s u)" if "u \<in> set (all_list s)" for u
    using pc_okD(5) [OF kinv0D(4) [OF k(1) that], of page] p(1) by auto
  have "pc_ok s' t" if t: "t \<in> set (all_list s')" for t
  proof -
    consider "t = page" | "t = ?c" | "t \<in> set (all_list s)" "t \<noteq> ?c" "t \<noteq> page" using t a(1) by auto
    then show ?thesis
    proof cases
      case 1
      moreover have "holder s TID_LOCK \<noteq> page" using kinv0D(3) [OF k(1)] p by (auto simp: locks_ok_def)
      ultimately show ?thesis using st pi a(2,3) by (simp add: pc_ok_def pc_simps)
    next
      case 2
      have "u = ?c" if "u \<in> set (all_list s')" "creating page (fr s' u)" for u
        using that a(1) ot(2) [of u] st(2) nc [of u] by (cases "u = page"; cases "u = ?c") auto
      moreover have "holder s TID_LOCK \<noteq> ?c" using pc_okD(9) [OF kinv0D(4) [OF k(1) c]] e by auto
      ultimately show ?thesis using 2 st ci a(1-3) by (auto simp: pc_ok_def pc_simps)
    next
      case 3
      note P = pc_okD [OF kinv0D(4) [OF k(1) 3(1)]]
      have fr: "fr s' t = fr s t" using ot(2) 3 by simp
      have "x \<in> set (all_list s') \<and> st s' x = THREAD_BLOCKED \<and> fr s' x = [] \<and>
          (\<forall>u\<in>set (all_list s'). creating x (fr s' u) \<longrightarrow> u = t)" if "creating x (fr s t)" for x
      proof -
        have x: "x \<in> set (all_list s)" "st s x = THREAD_BLOCKED" "fr s x = []" using P(5-7) that by auto
        then have xc: "x \<noteq> ?c" using run_okD(2) [OF k(2)] by auto
        have "creating x (fr s' u) \<longrightarrow> u = t" if "u \<in> set (all_list s')" for u
          using that a(1) P(8) [OF \<open>creating x (fr s t)\<close>, of u] ot(2) [of u] st(2,3) old [OF x(1)]
          by (cases "u = page"; cases "u = ?c") auto
        then show ?thesis using x xc old [OF x(1)] ot [of x] a(1) by auto
      qed
      then show ?thesis unfolding pc_ok_def fr using P(1-4,9) a(2,3) by auto
    qed
  qed
  moreover have "locks_ok s'"
  proof -
    have "(\<Sum>t\<in>set (all_list s'). tokens l (fr s' t)) = (\<Sum>t\<in>set (all_list s). tokens l (fr s t))" for l
    proof -
      have "(\<Sum>t\<in>set (all_list s'). tokens l (fr s' t)) = (\<Sum>t\<in>set (all_list s). tokens l (fr s' t))"
        using p(1) st(2) by (simp add: a(1))
      also have "\<dots> = (\<Sum>t\<in>set (all_list s). tokens l (fr s t))"
      proof (rule sum.cong)
        fix t assume "t \<in> set (all_list s)"
        then show "tokens l (fr s' t) = tokens l (fr s t)"
          using old ot(2) [of t] e st(3) by (cases "t = ?c") auto
      qed simp
      finally show ?thesis .
    qed
    then have "lock_token s' l = lock_token s l" for l by (simp add: lock_token_def a)
    then show ?thesis using kinv0D(3) [OF k(1)] by (simp add: locks_ok_def a)
  qed
  moreover have "load_ok s'" "sleep_ok s'" using kinv0D(5,6) [OF k(1)] by (simp_all add: load_ok_def sleep_ok_def a)
  ultimately show ?thesis using q by (simp add: kinv0_def pcs_ok_def)
qed

lemma client_not_idle: "kinv s \<Longrightarrow> fr s (cur s) = [] \<Longrightarrow> cur s \<noteq> idle_thread s"
  using idle_frames(3) [of s] by (auto simp: kinv_iff)

lemma thread_create_wp:
  assumes k: "kinv s0" and e: "fr s0 (cur s0) = []" and ni: "\<not> in_external_intr s0"
    and pri: "PRI_MIN \<le> pri" "pri \<le> PRI_MAX" and p: "page \<notin> set (all_list s0)" "page \<noteq> NULL"
    and nd: "\<not> mlfqs s0 \<Longrightarrow> no_deadlock TID_LOCK s0"
  shows "wp (thread_create nm pri Client_func page s0) (\<lambda>r. case r of Inl _ \<Rightarrow> False
    | Inr s' \<Rightarrow> kinv s' \<and> \<not> in_external_intr s')"
proof -
  let ?c = "cur s0"
  have k0: "kinv0 s0" "run_ok s0" using k by (auto simp: kinv_iff)
  have ci: "?c \<noteq> idle_thread s0" by (rule client_not_idle [OF k e])
  have nh: "holder s0 TID_LOCK \<noteq> ?c"
    using pc_okD(9) [OF kinv0D(4) [OF k0(1) run_okD(1) [OF k0(2)]]] e by auto
  have cp: "?c \<noteq> page" using run_okD(1) [OF k0(2)] p(1) by auto
  let ?z = "upd page (\<lambda>th. th\<lparr>frames := []\<rparr>) s0"
  have "run_ok ?z" using k0(2) p(1) by (auto simp: run_ok_def)
  moreover have "queues_ok ?z" by (rule queues_cong [OF kinv0D(1) [OF k0(1)]]) (use p in auto)
  ultimately have cur: "thread_current ?z = Some ?c" by (simp add: thread_current_run)
  obtain n r where nr: "inherit_mlfqs page ?z = Some (n, r)"
    using cur unfolding inherit_mlfqs_def by (cases "mlfqs s0 \<and> page \<noteq> initial_thread s0") auto
  define s1 where "s1 = (upd page (\<lambda>th. \<lparr>tid = 0, status = THREAD_BLOCKED, name = take 15 nm, stack = page + PGSIZE,
    base_priority = pri, donations = [], priority = pri, waiting_lock = NULL,
    nice = n, recent_cpu = r, magic = THREAD_MAGIC, frames = []\<rparr>) s0)\<lparr>all_list := all_list s0 @ [page]\<rparr>"
  have i1: "init_thread page nm pri ?z = Some s1"
    using nr p(2) pri ni
    by (cases "level s0")
      (auto simp: init_thread_def intr_disable_def intr_set_level_def intr_enable_def Let_def s1_def upd_def
        state_defs intro!: kstate.equality)
  define s2 where "s2 = push [Create_rest page Client_func] s1"
  have sel: "cur s2 = ?c" "all_list s2 = all_list s0 @ [page]" "idle_thread s2 = idle_thread s0" "holder s2 = holder s0"
    "semas s2 = semas s0" "in_external_intr s2 = in_external_intr s0" "ready_list s2 = ready_list s0"
    "sleep_list s2 = sleep_list s0" "mlfqs s2 = mlfqs s0" "load_avg s2 = load_avg s0"
    by (simp_all add: s2_def s1_def state_defs)
  have th: "threads s2 t = (if t = ?c then (threads s0 t)\<lparr>frames := [Create_rest page Client_func]\<rparr>
      else threads s1 t)" for t
    using e cp by (simp add: s2_def s1_def state_defs)
  have ths: "t \<noteq> page \<Longrightarrow> threads s1 t = threads s0 t" for t by (simp add: s1_def)
  have thp: "st s1 page = THREAD_BLOCKED" "fr s1 page = []" "magic (threads s1 page) = THREAD_MAGIC"
    by (simp_all add: s1_def)
  have q2: "queues_ok s2"
    by (rule queues_created [OF kinv0D(1) [OF k0(1)] p])
      (use cp thp ths run_okD(2) [OF k0(2)] in \<open>auto simp: sel th\<close>)
  have k2: "kinv0 s2"
    by (rule kinv0_create [OF k0 e ci q2 p]) (use cp thp ths in \<open>auto simp: sel th\<close>)
  have r2: "run_ok s2"
    using run_okD [OF k0(2)] cp thp(1) p(1) by (auto simp: run_ok_def sel th) (metis ths run_okD(3) [OF k0(2)])
  let ?s3 = "push [Tid_take page] s2"
  have w: "waiting_lock (threads ?s3 t) = (if t = page then NULL else waiting_lock (threads s0 t))" for t
    using cp by (simp add: state_defs sel th s1_def)
  have nd3: "no_deadlock TID_LOCK ?s3" if "\<not> mlfqs ?s3"
  proof -
    have "\<not> mlfqs s0" using that by (simp add: state_defs sel)
    then obtain n where n: "n \<le> length (all_list s0)"
      "chain_ends n (upd ?c (\<lambda>th. th\<lparr>waiting_lock := TID_LOCK\<rparr>) s0) (holder s0 TID_LOCK)"
      using nd by (auto simp: no_deadlock_def)
    have "chain_ends n (upd ?c (\<lambda>th. th\<lparr>waiting_lock := TID_LOCK\<rparr>) s0) t \<Longrightarrow>
        chain_ends n (upd ?c (\<lambda>th. th\<lparr>waiting_lock := TID_LOCK\<rparr>) ?s3) t" for t
      using cp by (induction n arbitrary: t) (auto simp: state_defs sel th s1_def split: if_splits)
    with n show ?thesis unfolding no_deadlock_def by (intro exI [of _ n]) (simp add: state_defs sel)
  qed
  have "wp (lock_acquire TID_LOCK ?s3) (\<lambda>s'. kinv s' \<and> \<not> in_external_intr s')"
  proof (rule lock_acquire_wp)
    show "mid s2 ?s3" using k2 r2 cp by (auto simp: mid_def state_defs sel th)
    show "stack_ok s2 ?s3 (Sema_down (Lock_Sema TID_LOCK) (Take TID_LOCK) # fr ?s3 (cur s2))"
      using ci nh by (auto simp: stack_ok_def state_defs sel th pc_simps after_lock_def)
  qed (use ni nh nd3 in \<open>auto simp: state_defs sel th TID_LOCK_def\<close>)
  then show ?thesis
    using i1 p(2) by (simp add: thread_create_def allocate_tid_def s2_def Let_def)
qed

lemma create_rest_wp:
  assumes m: "mid s0 s" and ni: "\<not> in_external_intr s" and cr: "creating x (fr s0 (cur s0))"
    and e: "strip (fr s (cur s0)) = []" and nh: "holder s0 TID_LOCK \<noteq> cur s0" and ci: "cur s0 \<noteq> idle_thread s0"
    and nc: "\<And>x. \<not> creating x (fr s (cur s0))" and la: "\<And>l. Lock_acquire l \<notin> set (fr s (cur s0))"
    and tok: "\<And>l. l \<noteq> NULL \<Longrightarrow> tokens l (fr s (cur s0)) = tokens l (fr s0 (cur s0))"
  shows "wp (create_rest x Client_func s) (\<lambda>s'. kinv s' \<and> \<not> in_external_intr s')"
proof -
  let ?c = "cur s0"
  note mD = midD [OF m]
  have c: "?c \<in> set (all_list s0)" by (rule run_okD(1) [OF mD(2)])
  note P = pc_okD [OF kinv0D(4) [OF mD(1) c]]
  have x: "x \<in> set (all_list s0)" "st s0 x = THREAD_BLOCKED" "fr s0 x = []" using P(5-7) [OF cr] by auto
  have xc: "x \<noteq> ?c" using x(2) run_okD(2) [OF mD(2)] by auto
  have xi: "x \<noteq> idle_thread s0" using idle_frames(3) [OF mD(1)] x(3) by auto
  have xN: "x \<noteq> NULL" "magic (threads s0 x) = THREAD_MAGIC" using queuesD(6,7) [OF kinv0D(1) [OF mD(1)] x(1)] by auto
  define s1 where "s1 = push [Create_check x] s"
  have fr1: "fr s1 t = (if t = ?c then Create_check x # fr s t else fr s t)" for t
    by (simp add: s1_def state_defs mD)
  have k1: "kinv0 s1 \<and> run_ok s1"
  proof (rule op_quiet0 [OF mD(1,2)])
    show "quiet s0 s1" by (simp add: quiet_def s1_def state_defs mD)
    show "stack_ok s0 s1 (fr s1 ?c)"
      using e nh ci nc la by (auto simp: stack_ok_def fr1 pc_simps) (auto simp: s1_def state_defs mD)
  qed (use mD(13) tok in \<open>auto simp: fr1 passes_def balanced_def, auto simp: s1_def state_defs mD\<close>)
  have noc: "\<not> creating x (fr s1 u)" if "u \<in> set (all_list s0)" for u
    using P(8) [OF cr that] nc mD(12) [of u] by (cases "u = ?c") (auto simp: fr1)
  define s2 where "s2 = upd x (\<lambda>th. th\<lparr>stack := stack th - 12 - 4 - 28, frames := [Kernel_thread Client_func]\<rparr>) s1"
  define s3 where "s3 = set_status x THREAD_READY (ready_insert x s2)"
  have q3: "queues_ok s3"
  proof (rule queues_unblock [OF kinv0D(1) [OF conjunct1 [OF k1]], of x])
    show "waiters (semas s3 q) = remove1 x (waiters (semas s1 q))" for q
      using queuesD(10) [OF kinv0D(1) [OF mD(1)], of x q] x(3)
      by (simp add: s1_def s2_def s3_def state_defs mD remove1_idem)
    show "set (map snd (sleep_list s3)) = set (map snd (sleep_list s1)) - {x}"
      using queuesD(11) [OF kinv0D(1) [OF mD(1)], of x] x(3)
      by (auto simp: s1_def s2_def s3_def state_defs mD)
    show "distinct (map snd (sleep_list s3))"
      using queuesD(4) [OF kinv0D(1) [OF mD(1)]] by (simp add: s1_def s2_def s3_def state_defs mD)
    show "ready_list s3 = insert_ordered (priority_greater s2) x (ready_list s1)"
      by (simp add: s1_def s2_def s3_def state_defs mD)
  qed (use x xi xc in \<open>auto simp: s1_def s2_def s3_def state_defs mD\<close>)
  have fr3: "fr s3 t = (if t = x then [Kernel_thread Client_func] else fr s1 t)" for t
    by (simp add: s2_def s3_def state_defs)
  have "kinv0 s3"
  proof (rule kinv0_step [OF conjunct1 [OF k1] q3, of x])
    have "holder s0 TID_LOCK \<noteq> x" using pc_okD(9) [OF kinv0D(4) [OF mD(1) x(1)]] x(3) by auto
    then show "holder s3 TID_LOCK = x \<Longrightarrow> must_hold (strip (fr s3 x)) = Some TID_LOCK"
      by (simp add: s1_def s2_def s3_def state_defs mD)
    show "x \<in> set (all_list s1)" "\<And>u. u \<in> set (all_list s1) \<Longrightarrow> \<not> creating x (fr s1 u)"
      using x(1) noc by (auto simp: s1_def state_defs mD)
    show "pc x (x = idle_thread s1) (strip (fr s3 x))" using xi by (simp add: fr3 pc_simps s1_def state_defs mD)
    show "unat (sema_value (semas s3 (Lock_Sema l))) + (if holder s3 l = NULL then 0 else 1) + tokens l (fr s3 x) =
      unat (sema_value (semas s1 (Lock_Sema l))) + (if holder s1 l = NULL then 0 else 1) + tokens l (fr s1 x)" for l
      using xc x(3) by (simp add: fr3 fr1 mD(12)) (simp add: s2_def s3_def state_defs)
  qed (use fr3 in \<open>auto simp: s2_def s3_def state_defs\<close>)
  moreover have sel: "cur s3 = ?c" "all_list s3 = all_list s0" "in_external_intr s3 = in_external_intr s"
    "st s3 t = (if t = x then THREAD_READY else st s0 t)" for t
    by (simp_all add: s1_def s2_def s3_def state_defs mD)
  moreover have "run_ok s3"
    unfolding run_ok_def sel using c xc run_okD(3) [OF mD(2)] by simp
  moreover have "\<forall>f\<in>set (fr s3 (cur s3)). \<not> blocking f"
    using mD(13) xc by (simp add: sel(1) fr3 fr1)
  ultimately have "kinv s3" by (intro kinvI)
  moreover have "create_rest x Client_func s = Some s3"
    using xN x(2) xc ni thread_unblock_eq [of s2 x]
    by (simp add: create_rest_def alloc_frame_def is_thread_def mD s1_def s2_def s3_def state_defs Let_def upd_def
        fun_upd_twist)
  moreover have "\<not> in_external_intr s3" using ni by (simp add: sel(3))
  ultimately show ?thesis by simp
qed

lemma thread_exit_wp:
  assumes k: "kinv s0" and e: "fr s0 (cur s0) = []" and ni: "\<not> in_external_intr s0"
    and h: "\<And>l. holder s0 l \<noteq> cur s0"
  shows "wp (thread_exit s0) (\<lambda>s'. kinv s' \<and> \<not> in_external_intr s')"
proof -
  let ?c = "cur s0"
  have k0: "kinv0 s0" "run_ok s0" using k by (auto simp: kinv_iff)
  note qd = queuesD [OF kinv0D(1) [OF k0(1)]] and rd = run_okD [OF k0(2)]
  have ci: "?c \<noteq> idle_thread s0" by (rule client_not_idle [OF k e])
  define s1 where "s1 = set_status ?c THREAD_DYING (s0\<lparr>level := INTR_OFF, all_list := remove1 ?c (all_list s0)\<rparr>)"
  have sel: "cur s1 = ?c" "set (all_list s1) = set (all_list s0) - {?c}" "distinct (all_list s1)"
    "idle_thread s1 = idle_thread s0" "holder s1 = holder s0" "semas s1 = semas s0"
    "ready_list s1 = ready_list s0" "sleep_list s1 = sleep_list s0" "level s1 = INTR_OFF"
    "in_external_intr s1 = in_external_intr s0"
    using qd(1) by (simp_all add: s1_def state_defs)
  have th: "fr s1 t = fr s0 t" "magic (threads s1 t) = magic (threads s0 t)"
    "st s1 t = (if t = ?c then THREAD_DYING else st s0 t)" for t by (simp_all add: s1_def state_defs)
  have "queues_ok s1"
    unfolding queues_ok_def sel th using qd rd(2) ci sel(3) by (auto split: if_splits)
  moreover have "pc_ok s1 t" if t: "t \<in> set (all_list s0)" "t \<noteq> ?c" for t
  proof -
    have "x \<noteq> ?c" if "creating x (fr s0 t)" for x
      using running_not_created [OF k0(1) rd(2) t(1)] that by auto
    then show ?thesis using kinv0D(4) [OF k0(1) t(1)] unfolding pc_ok_def th sel by auto
  qed
  moreover have "locks_ok s1"
  proof -
    have "(\<Sum>t\<in>set (all_list s0) - {?c}. tokens l (fr s0 t)) = (\<Sum>t\<in>set (all_list s0). tokens l (fr s0 t))" for l
      using sum.remove [OF _ rd(1), of "\<lambda>t. tokens l (fr s0 t)"] e by simp
    then have "lock_token s1 l = lock_token s0 l" for l unfolding lock_token_def sel th by simp
    then show ?thesis using kinv0D(3) [OF k0(1)] h unfolding locks_ok_def sel by auto
  qed
  moreover have "load_ok s1" "sleep_ok s1"
    using kinv0D(5,6) [OF k0(1)] by (simp_all add: load_ok_def sleep_ok_def s1_def state_defs)
  ultimately have "kpre s1"
    using rd by (auto simp: kpre_def kinv0_def pcs_ok_def sel th)
  from schedule_wp [OF this] have "wp (schedule s1) (\<lambda>s'. kinv s' \<and> \<not> in_external_intr s')"
    using ni sel(10) by (auto simp: switched_def elim: wp_mono)
  moreover have "thread_exit s0 = schedule s1"
    using ni thread_current_run [OF kinv0D(1) [OF k0(1)] k0(2)]
    by (simp add: thread_exit_def intr_disable_def s1_def thread_current_def is_thread_def state_defs Let_def)
  ultimately show ?thesis by simp
qed

section \<open>Sleeping, the idle loop\<close>

lemma block_wp:
  assumes m: "mid s0 s" and ni: "\<not> in_external_intr s" and lev: "level s = INTR_OFF"
    and f: "f = Idle_sti \<and> sl = sleep_list s \<or> (\<exists>lv w. f = Sleep_done lv \<and> sl = insert_ordered time_less (w, cur s0) (sleep_list s))"
    and ok: "stack_ok s0 s (f # fr s (cur s0))"
    and tok: "\<And>l. l \<noteq> NULL \<Longrightarrow> tokens l (fr s (cur s0)) = tokens l (fr s0 (cur s0))"
  shows "wp (thread_block (push [f] (s\<lparr>sleep_list := sl\<rparr>))) (\<lambda>s'. kinv s' \<and> \<not> in_external_intr s')"
proof -
  let ?c = "cur s0"
  note mD = midD [OF m]
  define s1 where "s1 = push [f] (s\<lparr>sleep_list := sl\<rparr>)"
  define s2 where "s2 = set_status ?c THREAD_BLOCKED s1"
  have fb: "blocking f" "waits_on (f # fs) = None" "tokens l (f # fs) = tokens l fs" for fs l using f by auto
  have fr2: "fr s2 t = (if t = ?c then f # fr s t else fr s t)" for t
    by (simp add: s1_def s2_def state_defs mD)
  have nots: "?c \<notin> set (map snd (sleep_list s))"
    using queuesD(11) [OF kinv0D(1) [OF mD(1)], of ?c] run_okD(2) [OF mD(2)] by (simp add: mD)
  have msl: "mset (map snd sl) = mset (map snd (sleep_list s)) + (if sleeping (f # fr s ?c) then {#?c#} else {#})"
    using f by (auto simp: mset_map)
  have "set (map snd sl) = set (map snd (sleep_list s)) \<union> (if sleeping (f # fr s ?c) then {?c} else {})"
    using f by auto
  moreover have "distinct (map snd sl)"
  proof -
    have "distinct (map snd sl) = distinct (if sleeping (f # fr s ?c) then ?c # map snd (sleep_list s) else map snd (sleep_list s))"
      by (rule mset_eq_imp_distinct_iff) (use msl in simp)
    then show ?thesis using nots queuesD(4) [OF mid_queues [OF m]] by simp
  qed
  moreover have sel: "all_list s2 = all_list s" "idle_thread s2 = idle_thread s" "ready_list s2 = ready_list s"
    "semas s2 = semas s" "sleep_list s2 = sl" "st s2 t = (if t = ?c then THREAD_BLOCKED else st s t)"
    "magic (threads s2 t) = magic (threads s t)" for t by (simp_all add: s1_def s2_def state_defs mD)
  ultimately have q2: "queues_ok s2"
    by (intro queues_block [OF mid_queues [OF m] mid_run [OF m]]) (simp_all only: sel fr2 fb mD(9) refl if_True if_False, simp_all)
  have "kinv0 s2"
  proof (rule kinv0_op [OF mD(1,2) q2])
    show "in_order time_less (sleep_list s2)" if "in_order time_less (sleep_list s0)"
      using that f tl.insert_ordered_in_order by (auto simp: sel mD)
    show "stack_ok s0 s2 (fr s2 ?c)"
      using ok stack_ok_cong [of s2 s s0] by (simp add: fr2) (simp add: s1_def s2_def state_defs)
    show "balanced s0 s2" using tok by (simp only: balanced_def fr2 if_True refl fb(3)) (simp add: s1_def s2_def state_defs mD)
  qed (use fr2 mD in \<open>auto simp: s1_def s2_def state_defs passes_def\<close>)
  then have "kpre (set_status (cur s1) THREAD_BLOCKED s1)"
    using run_okD(3) [OF mD(2)] lev by (auto simp: kpre_def s1_def s2_def state_defs mD)
  moreover have "thread_current s1 = Some (cur s1)"
    using mid_current [OF m] by (simp add: thread_current_def is_thread_def s1_def state_defs mD Let_def)
  moreover have "\<not> in_external_intr s1" "level s1 = INTR_OFF" using ni lev by (simp_all add: s1_def state_defs)
  ultimately have "wp (thread_block s1) (\<lambda>s'. kinv s' \<and> switched s1 s')" by (rule thread_block_wp)
  then show ?thesis using ni by (auto simp: s1_def switched_def state_defs elim!: wp_mono)
qed

lemma timer_sleep_wp:
  assumes k: "kinv s0" and e: "fr s0 (cur s0) = []" and ni: "\<not> in_external_intr s0" and lev: "level s0 = INTR_ON"
  shows "wp (timer_sleep n s0) (\<lambda>s'. kinv s' \<and> \<not> in_external_intr s')"
proof -
  have k0: "kinv0 s0" "run_ok s0" using k by (auto simp: kinv_iff)
  have m: "mid s0 (s0\<lparr>level := INTR_OFF\<rparr>)" using mid_level [OF kinv_mid_same [OF k]] e by simp
  have nh: "holder s0 TID_LOCK \<noteq> cur s0"
    using pc_okD(9) [OF kinv0D(4) [OF k0(1) run_okD(1) [OF k0(2)]]] e by auto
  let ?sl = "insert_ordered time_less (s64 (ticks s0 + n), cur s0) (sleep_list s0)"
  have "wp (thread_block (push [Sleep_done (level s0)] (s0\<lparr>level := INTR_OFF, sleep_list := ?sl\<rparr>)))
      (\<lambda>s'. kinv s' \<and> \<not> in_external_intr s')"
    by (rule block_wp [OF m, simplified])
      (use ni e nh client_not_idle [OF k e] in \<open>auto simp: stack_ok_def pc_simps\<close>)
  then show ?thesis
    using lev mid_current [OF m] by (simp add: timer_sleep_def intr_disable_def timer_ticks_def state_defs Let_def)
qed

lemma idle_loop_wp:
  assumes m: "mid s0 s" and ni: "\<not> in_external_intr s" and e: "strip (fr s (cur s0)) = []"
    and ci: "cur s0 = idle_thread s0" and nh: "holder s0 TID_LOCK \<noteq> cur s0"
    and nc: "\<And>x. \<not> creating x (fr s (cur s0))" and la: "\<And>l. Lock_acquire l \<notin> set (fr s (cur s0))"
    and tok: "\<And>l. l \<noteq> NULL \<Longrightarrow> tokens l (fr s (cur s0)) = tokens l (fr s0 (cur s0))"
  shows "wp (idle_loop s) (\<lambda>s'. kinv s' \<and> \<not> in_external_intr s')"
proof -
  let ?s = "s\<lparr>level := INTR_OFF\<rparr>"
  have "wp (thread_block (push [Idle_sti] (?s\<lparr>sleep_list := sleep_list ?s\<rparr>))) (\<lambda>s'. kinv s' \<and> \<not> in_external_intr s')"
    by (rule block_wp [OF mid_level [OF m]])
      (use ni e ci nh nc la tok in \<open>auto simp: stack_ok_def pc_simps midD [OF m]\<close>)
  then show ?thesis by (simp add: idle_loop_def intr_disable_def)
qed

section \<open>Priorities\<close>

lemma kinv0_dsame: "kinv0 s \<Longrightarrow> dsame s s' \<Longrightarrow> kinv0 s'"
  using kinv0_cong [of s' s] by (simp add: dsame_sel)

lemma run_ok_dsame: "run_ok s \<Longrightarrow> dsame s s' \<Longrightarrow> run_ok s'"
  by (simp add: run_ok_def dsame_sel)

lemma kinv0_push_improper:
  assumes k: "kinv0 s" "run_ok s" and nb: "\<forall>f\<in>set (fr s (cur s)). \<not> blocking f" and f: "\<not> proper f"
  shows "kinv0 (push [f] s) \<and> run_ok (push [f] s)"
proof (rule op_quiet0 [OF k])
  show "stack_ok s (push [f] s) (fr (push [f] s) (cur s))"
    using stack_ok_same [OF k] stack_ok_cong [of "push [f] s" s s] f by (simp add: state_defs)
  show "\<forall>f'\<in>set (fr (push [f] s) (cur s)). \<not> blocking f'" using nb f by (cases f) (auto simp: state_defs)
  show "balanced s (push [f] s)" using f by (cases f) (auto simp: balanced_def state_defs)
qed (simp_all add: quiet_def passes_def state_defs)

lemma yield_if_lower_wp:
  assumes k: "kinv0 s" "run_ok s" and nb: "\<forall>f\<in>set (fr s (cur s)). \<not> blocking f" and ni: "\<not> in_external_intr s"
  shows "wp (yield_if_lower c lv s) (\<lambda>s'. kinv s' \<and> \<not> in_external_intr s')"
proof -
  note p = kinv0_push_improper [OF k nb, of "Set_level lv"]
  have "wp (thread_yield (push [Set_level lv] s)) (\<lambda>s'. kinv s' \<and> switched (push [Set_level (level (push [Set_level lv] s))] (push [Set_level lv] s)) s')"
    by (rule thread_yield_wp) (use p nb ni in \<open>auto simp: state_defs\<close>)
  then have y: "wp (thread_yield (push [Set_level lv] s)) (\<lambda>s'. kinv s' \<and> \<not> in_external_intr s')"
    using ni by (auto simp: switched_def state_defs elim!: wp_mono)
  have "kinv0 (s\<lparr>level := lv\<rparr>)" using kinv0_cong [of "s\<lparr>level := lv\<rparr>" s] k by simp
  then have "kinv (s\<lparr>level := lv\<rparr>)" using k nb by (intro kinvI) (auto simp: run_ok_def)
  with y ni show ?thesis by (auto simp: yield_if_lower_def split: list.splits)
qed

lemma thread_set_priority_wp:
  assumes k: "kinv s" and e: "fr s (cur s) = []" and ni: "\<not> in_external_intr s"
  shows "wp (thread_set_priority p s) (\<lambda>s'. kinv s' \<and> \<not> in_external_intr s')"
proof (cases "mlfqs s")
  case True
  then show ?thesis using k ni by (simp add: thread_set_priority_def)
next
  case False
  let ?s = "s\<lparr>level := INTR_OFF\<rparr>"
  let ?s2 = "donate_priority_update (cur s) (upd (cur s) (\<lambda>th. th\<lparr>base_priority := p\<rparr>) ?s)"
  have k0: "kinv0 ?s" "run_ok ?s" using k kinv0_cong [of ?s s] by (auto simp: kinv_iff run_ok_def)
  have d: "dsame ?s ?s2" by (rule dsame_trans [OF dsame_upd(4) dsame_priority_update])
  have "wp (yield_if_lower (cur s) (level s) ?s2) (\<lambda>s'. kinv s' \<and> \<not> in_external_intr s')"
    by (rule yield_if_lower_wp [OF kinv0_dsame [OF k0(1) d] run_ok_dsame [OF k0(2) d]])
      (use e ni in \<open>simp_all add: dsame_sel [OF d]\<close>)
  moreover have "thread_current ?s = Some (cur s)" using thread_current_run [OF kinv0D(1) [OF k0(1)] k0(2)] by simp
  ultimately show ?thesis using False by (simp add: thread_set_priority_def intr_disable_def state_defs Let_def)
qed

lemma priority_calc_wp: "wp (thread_priority_calc_mlfqs t s) (dsame s)"
  using priority_formula_range [of "recent_cpu (threads s t)" "nice (threads s t)"]
  by (auto simp: thread_priority_calc_mlfqs_def dsame_upd)

lemma thread_set_nice_wp:
  assumes k: "kinv s" and e: "fr s (cur s) = []" and ni: "\<not> in_external_intr s"
  shows "wp (thread_set_nice n s) (\<lambda>s'. kinv s' \<and> \<not> in_external_intr s')"
proof -
  let ?s = "s\<lparr>level := INTR_OFF\<rparr>"
  let ?s1 = "upd (cur s) (\<lambda>th. th\<lparr>nice := n\<rparr>) ?s"
  have k0: "kinv0 ?s" "run_ok ?s" using k kinv0_cong [of ?s s] by (auto simp: kinv_iff run_ok_def)
  obtain s2 where s2: "thread_priority_calc_mlfqs (cur s) ?s1 = Some s2" and d1: "dsame ?s1 s2"
    using priority_calc_wp [of "cur s" ?s1] by (auto simp: wp_def)
  have d: "dsame ?s s2" by (rule dsame_trans [OF _ d1]) (simp add: dsame_def)
  have "wp (yield_if_lower (cur s) (level s) s2) (\<lambda>s'. kinv s' \<and> \<not> in_external_intr s')"
    by (rule yield_if_lower_wp [OF kinv0_dsame [OF k0(1) d] run_ok_dsame [OF k0(2) d]])
      (use e ni in \<open>simp_all add: dsame_sel [OF d]\<close>)
  moreover have "thread_current ?s = Some (cur s)" using thread_current_run [OF kinv0D(1) [OF k0(1)] k0(2)] by simp
  ultimately show ?thesis using s2 by (simp add: thread_set_nice_def intr_disable_def state_defs Let_def)
qed

lemma thread_yield_ok:
  assumes "kinv0 s" "run_ok s" "\<forall>f\<in>set (fr s (cur s)). \<not> blocking f" "\<not> in_external_intr s"
  shows "wp (thread_yield s) (\<lambda>s'. kinv s' \<and> \<not> in_external_intr s')"
  using thread_yield_wp [OF assms] assms(4) by (auto simp: switched_def state_defs elim!: wp_mono)

section \<open>Interrupts\<close>

text \<open>The state in which a handler of an external interrupt runs.\<close>

definition handling :: "kstate \<Rightarrow> bool" where
  "handling s \<longleftrightarrow> kinv0 s \<and> run_ok s \<and> (\<forall>f\<in>set (fr s (cur s)). \<not> blocking f) \<and>
     in_external_intr s \<and> level s = INTR_OFF"

lemma kinv0_woken:
  assumes k: "kinv0 s" and q: "queues_ok s'" and w: "woken s s'" and sl: "sleep_ok s'"
  shows "kinv0 s'"
proof -
  note W = wokenD [OF w]
  have "pc_ok s' t" if "t \<in> set (all_list s)" for t
  proof -
    have "st s' x = THREAD_BLOCKED" if "st s x = THREAD_BLOCKED" "fr s x = []" for x
      using W(9) [of x] that by auto
    then show ?thesis using kinv0D(4) [OF k that] unfolding pc_ok_def W by blast
  qed
  moreover have "locks_ok s'" using kinv0D(3) [OF k] unfolding locks_ok_def lock_token_def W .
  ultimately show ?thesis using q sl kinv0D(5) [OF k] by (simp add: kinv0_def pcs_ok_def load_ok_def W)
qed

lemma handling_woken:
  assumes h: "handling s" and q: "queues_ok s'" and w: "woken s s'" and sl: "sleep_ok s'"
  shows "handling s'"
  using h kinv0_woken [OF _ q w sl] woken_run [OF w] unfolding handling_def wokenD [OF w] by blast

lemma handling_dsame:
  assumes h: "handling s" and d: "dsame s s'"
  shows "handling s'"
  using h kinv0_dsame [OF _ d] run_ok_dsame [OF _ d] unfolding handling_def dsame_sel [OF d] by blast

lemma handling_cong:
  assumes "handling s" "all_list s' = all_list s" "ready_list s' = ready_list s" "idle_thread s' = idle_thread s"
    "\<And>q. waiters (semas s' q) = waiters (semas s q)" "\<And>l. sema_value (semas s' (Lock_Sema l)) = sema_value (semas s (Lock_Sema l))"
    "holder s' = holder s" "sleep_list s' = sleep_list s" "load_ok s'" "cur s' = cur s"
    "level s' = level s" "in_external_intr s' = in_external_intr s" "threads s' = threads s"
  shows "handling s'"
proof -
  have k: "kinv0 s" using assms(1) by (simp add: handling_def)
  have "queues_ok s'" by (rule queues_cong [OF kinv0D(1) [OF k]]) (simp_all add: assms(2-8,13))
  moreover have "pcs_ok s' = pcs_ok s" unfolding pcs_ok_def pc_ok_def assms(2,4,7,13) ..
  moreover have "locks_ok s' = locks_ok s" unfolding locks_ok_def lock_token_def assms(2,6,7,13) ..
  ultimately have "kinv0 s'" using kinv0D(2,3,6) [OF k] assms(8,9) by (simp add: kinv0_def sleep_ok_def)
  moreover have "run_ok s' = run_ok s" unfolding run_ok_def assms(2,10,13) ..
  ultimately show ?thesis using assms(1) unfolding handling_def assms(10-13) by blast
qed

lemma handling_current: "handling s \<Longrightarrow> thread_current s = Some (cur s)"
  using thread_current_run [OF kinv0D(1)] by (auto simp: handling_def)

lemma yield_on_return_wp: "handling s \<Longrightarrow> wp (intr_yield_on_return s) (\<lambda>s'. handling s' \<and> sleep_list s' = sleep_list s \<and>
    ready_list s' = ready_list s \<and> mlfqs s' = mlfqs s \<and> ticks s' = ticks s \<and> cur s' = cur s)"
  using handling_cong [of s "s\<lparr>yield_on_return := True\<rparr>"] kinv0D(5) [of s]
  by (simp add: intr_yield_on_return_def load_ok_def state_defs) (simp add: handling_def)

text \<open>Waking the threads whose time has come.\<close>

lemma wake_one:
  assumes h: "handling s" and sl: "sleep_list s = (w, t) # fs"
  shows "thread_unblock t (s\<lparr>sleep_list := fs\<rparr>) = Some (set_status t THREAD_READY (ready_insert t (s\<lparr>sleep_list := fs\<rparr>)))"
    "handling (set_status t THREAD_READY (ready_insert t (s\<lparr>sleep_list := fs\<rparr>)))"
proof -
  let ?s = "s\<lparr>sleep_list := fs\<rparr>"
  let ?s' = "set_status t THREAD_READY (ready_insert t ?s)"
  have k: "kinv0 s" using h by (simp add: handling_def)
  note qd = queuesD [OF kinv0D(1) [OF k]]
  have t: "t \<in> set (all_list s)" "st s t = THREAD_BLOCKED" "sleeping (fr s t)"
    using qd(11) [of t] sl by auto
  have "t \<noteq> idle_thread s" using idle_frames(2) [OF k] t(3) by auto
  then have "queues_ok ?s'"
  proof (rule queues_unblock [OF kinv0D(1) [OF k] t(1,2)])
    show "waiters (semas ?s' q) = remove1 t (waiters (semas s q))" for q
      using qd(10) [of t q] t(3) by (auto simp: state_defs remove1_idem sleeping_iff)
    show "set (map snd (sleep_list ?s')) = set (map snd (sleep_list s)) - {t}" "distinct (map snd (sleep_list ?s'))"
      using qd(4) sl by (auto simp: state_defs)
  qed (simp_all add: state_defs)
  moreover have "woken s ?s'" using t by (auto simp: woken_def state_defs)
  moreover have "sleep_ok ?s'" using kinv0D(6) [OF k] sl by (simp add: sleep_ok_def state_defs)
  ultimately show "handling ?s'" by (rule handling_woken [OF h])
  show "thread_unblock t ?s = Some ?s'"
    by (rule thread_unblock_eq) (use t h qd(6,7) [OF t(1)] in \<open>auto simp: is_thread_def handling_def\<close>)
qed

lemma wake_loop_wp:
  "handling s \<Longrightarrow> sleep_list s = fs \<Longrightarrow>
     wp (wake_loop fs s) (\<lambda>s'. handling s' \<and> mlfqs s' = mlfqs s \<and> length (ready_list s') \<le> length (ready_list s) + length fs)"
proof (induction fs arbitrary: s)
  case Nil
  then show ?case by simp
next
  case (Cons f fs)
  obtain w t where f: "f = (w, t)" by (cases f)
  let ?s' = "set_status t THREAD_READY (ready_insert t (s\<lparr>sleep_list := fs\<rparr>))"
  note W = wake_one [OF Cons.prems(1) Cons.prems(2) [unfolded f]]
  have sel: "sleep_list ?s' = fs" "mlfqs ?s' = mlfqs s" "length (ready_list ?s') = Suc (length (ready_list s))"
    "in_external_intr ?s' = in_external_intr s"
    by (simp_all add: state_defs)
  have fin: "wp (wake_loop fs s2) (\<lambda>s'. handling s' \<and> mlfqs s' = mlfqs s \<and> length (ready_list s') \<le> Suc (length (ready_list s) + length fs))"
    if "handling s2" "sleep_list s2 = fs" "mlfqs s2 = mlfqs s" "ready_list s2 = ready_list ?s'" for s2
    using Cons.IH [OF that(1,2)] that(3,4) sel(3) by (auto elim!: wp_mono)
  have y: "wp (intr_yield_on_return ?s') (\<lambda>s2. wp (wake_loop fs s2) (\<lambda>s'. handling s' \<and> mlfqs s' = mlfqs s \<and>
      length (ready_list s') \<le> Suc (length (ready_list s) + length fs)))"
    using yield_on_return_wp [OF W(2)] sel fin by (auto elim!: wp_mono)
  show ?case
    using Cons.prems(1) W handling_current [OF W(2)] fin [OF W(2) sel(1,2) refl] y
    by (simp add: f Let_def)
qed

lemma foreach_dsame:
  assumes "\<And>t s. load_ok s \<Longrightarrow> wp (func t s) (dsame s)"
  shows "load_ok s \<Longrightarrow> wp (foreach_loop func ts s) (dsame s)"
proof (induction ts arbitrary: s)
  case (Cons t ts)
  obtain s1 where s1: "func t s = Some s1" "dsame s s1" using assms [OF Cons.prems] by (auto simp: wp_def)
  then have "load_ok s1" using Cons.prems by (simp add: load_ok_def dsame_sel)
  from Cons.IH [OF this] s1 show ?case by (auto elim!: wp_mono intro: dsame_trans)
qed simp

lemma recent_cpu_formula_Some:
  assumes "0 \<le> la" "la \<le> 2184 * FP_F"
  shows "\<exists>r. recent_cpu_formula la rc n = Some r"
proof -
  have "FP_ADD_INT (FP_MUL_INT la 2) 1 \<noteq> 0"
    using assms by (simp add: FP_ADD_INT_def FP_MUL_INT_def FP_F_val s32_val)
  then show ?thesis by (simp add: recent_cpu_formula_def FP_DIV_def)
qed

lemma recent_cpu_calc_wp: "load_ok s \<Longrightarrow> wp (thread_recent_cpu_calc_mlfqs t s) (dsame s)"
  using recent_cpu_formula_Some [of "load_avg s" "recent_cpu (threads s t)" "nice (threads s t)"]
  by (auto simp: thread_recent_cpu_calc_mlfqs_def load_ok_def dsame_def)

lemma load_avg_calc_wp:
  assumes h: "handling s" and n: "length (ready_list s) < 2184"
  shows "wp (load_avg_calc_mlfqs s) (\<lambda>s'. handling s' \<and> ticks s' = ticks s)"
proof -
  let ?r = "if cur s \<noteq> idle_thread s then int (length (ready_list s)) + 1 else int (length (ready_list s))"
  have la: "0 \<le> load_avg s" "load_avg s \<le> 2184 * FP_F"
    using h by (auto simp: handling_def kinv0_def load_ok_def)
  note F = load_avg_formula_exact [OF la, of ?r]
  let ?s = "s\<lparr>load_avg := (59 * load_avg s + ?r * FP_F) div 60\<rparr>"
  have "handling ?s"
    by (rule handling_cong [OF h]) (use F(2,3) n in \<open>simp_all add: load_ok_def\<close>)
  then show ?thesis
    using F(1) n handling_current [OF h] by (simp add: load_avg_calc_mlfqs_def Let_def)
qed

lemma mlfqs_tick_wp:
  assumes h: "handling s" and n: "length (ready_list s) < 2184"
  shows "wp (mlfqs_tick s) handling"
proof -
  let ?s = "thread_recent_cpu_incre (cur s) s"
  have d: "dsame s ?s" by (simp add: thread_recent_cpu_incre_def dsame_def)
  have hs: "handling ?s" by (rule handling_dsame [OF h d])
  have lev: "handling s' \<Longrightarrow> intr_get_level s' = INTR_OFF \<and> load_ok s'" for s'
    by (simp add: handling_def kinv0_def state_defs)
  have fe: "wp (thread_foreach func s') handling"
    if "handling s'" "\<And>t s. load_ok s \<Longrightarrow> wp (func t s) (dsame s)" for func s'
  proof -
    have "wp (foreach_loop func (all_list s') s') (dsame s')"
      by (rule foreach_dsame [OF that(2)]) (use lev [OF that(1)] in auto)
    then have "wp (foreach_loop func (all_list s') s') handling"
      by (rule wp_mono) (rule handling_dsame [OF that(1)])
    then show ?thesis using lev [OF that(1)] by (simp add: thread_foreach_def)
  qed
  have sec: "wp (if c_mod (ticks ?s) TIMER_FREQ = 0
      then do { s \<leftarrow> load_avg_calc_mlfqs ?s; thread_foreach thread_recent_cpu_calc_mlfqs s } else Some ?s) handling"
    using load_avg_calc_wp [OF hs] fe [OF _ recent_cpu_calc_wp] hs n dsame_sel(2) [OF d]
    by (auto elim!: wp_mono)
  have "wp (if c_mod (ticks s') 4 = 0 then thread_foreach thread_priority_calc_mlfqs s' else Some s') handling"
    if "handling s'" for s' using fe [OF that priority_calc_wp] that by simp
  with sec show ?thesis
    using handling_current [OF h] unfolding mlfqs_tick_def by (auto simp: Let_def elim!: wp_mono)
qed

lemma thread_tick_wp:
  assumes h: "handling s"
  shows "wp (thread_tick s) handling"
proof -
  define s1 where "s1 = (if cur s = idle_thread s then s\<lparr>idle_ticks := idle_ticks s + 1\<rparr>
    else s\<lparr>kernel_ticks := kernel_ticks s + 1\<rparr>)"
  define s2 where "s2 = s1\<lparr>thread_ticks := thread_ticks s1 + 1\<rparr>"
  have "handling s2"
    by (rule handling_cong [OF h]) (use h in \<open>simp_all add: s1_def s2_def handling_def kinv0_def load_ok_def\<close>)
  with yield_on_return_wp [of s2] handling_current [OF h] show ?thesis
    by (auto simp: thread_tick_def Let_def s1_def [symmetric] s2_def [symmetric] elim!: wp_mono)
qed

lemma timer_interrupt_wp:
  assumes h: "handling s" and n: "mlfqs s \<Longrightarrow> length (ready_list s) + length (sleep_list s) < 2184"
  shows "wp (timer_interrupt s) handling"
proof -
  let ?s = "s\<lparr>ticks := s64 (ticks s + 1)\<rparr>"
  have "handling ?s" by (rule handling_cong [OF h]) (use h in \<open>simp_all add: handling_def kinv0_def load_ok_def\<close>)
  from wake_loop_wp [OF this refl]
  have "wp (wake_loop (sleep_list ?s) ?s) (\<lambda>s1. wp (if mlfqs s1 then mlfqs_tick s1 else Some s1) (\<lambda>s2. wp (thread_tick s2) handling))"
  proof (rule wp_mono)
    fix s1 assume h1: "handling s1 \<and> mlfqs s1 = mlfqs ?s \<and>
      length (ready_list s1) \<le> length (ready_list ?s) + length (sleep_list ?s)"
    then have "wp (if mlfqs s1 then mlfqs_tick s1 else Some s1) handling" using n mlfqs_tick_wp [of s1] by auto
    then show "wp (if mlfqs s1 then mlfqs_tick s1 else Some s1) (\<lambda>s2. wp (thread_tick s2) handling)"
      by (rule wp_mono) (rule thread_tick_wp)
  qed
  then show ?thesis by (simp add: timer_interrupt_def Let_def)
qed

lemma sema_up_handler_wp:
  assumes h: "handling s" and q: "\<And>l. Lock_Sema l \<noteq> q"
  shows "wp (sema_up q s) handling"
proof -
  have k: "kinv0 s" and lv: "level s = INTR_OFF" "in_external_intr s" using h by (auto simp: handling_def)
  have eq: "s\<lparr>level := INTR_OFF\<rparr> = s" using lv by simp
  obtain s1 where s1: "sema_wake q s = Some s1" and q1: "queues_ok s1" and w1: "woken s s1"
    and sl: "sleep_list s1 = sleep_list s"
    using sema_wake_wp [OF kinv0D(1) [OF k] idle_frames(1) [OF k], of q] lv by (auto simp: wp_def)
  let ?s2 = "set_sema q (\<lambda>m. m\<lparr>sema_value := sema_value m + 1\<rparr>) s1"
  have h1: "handling s1"
    by (rule handling_woken [OF h q1 w1]) (use kinv0D(6) [OF k] in \<open>simp add: sleep_ok_def sl\<close>)
  have h2: "handling ?s2"
    by (rule handling_cong [OF h1]) (use h1 q in \<open>simp_all add: set_sema_def handling_def kinv0_def load_ok_def\<close>)
  have eq2: "?s2\<lparr>level := INTR_OFF\<rparr> = ?s2" and ctx: "in_external_intr ?s2"
    using h1 by (simp_all add: handling_def set_sema_def)
  then show ?thesis
    using s1 lv h2 by (simp add: sema_up_def intr_disable_def Let_def intr_context_def intr_get_level_def eq)
qed

lemma interrupt_wp:
  assumes k: "kinv s" and ni: "\<not> in_external_intr s" and on: "level s = INTR_ON"
    and hd: "\<And>s'. handling s' \<Longrightarrow> mlfqs s' = mlfqs s \<Longrightarrow> ready_list s' = ready_list s \<Longrightarrow> sleep_list s' = sleep_list s \<Longrightarrow>
      wp (handler s') handling"
  shows "wp (interrupt handler s) (\<lambda>s'. kinv s' \<and> \<not> in_external_intr s')"
proof -
  have k0: "kinv0 s" "run_ok s" and nb: "\<forall>f\<in>set (fr s (cur s)). \<not> blocking f" using k on by (auto simp: kinv_iff)
  let ?s0 = "push [Iret] (s\<lparr>level := INTR_OFF\<rparr>)"
  let ?s = "?s0\<lparr>in_external_intr := True, yield_on_return := False\<rparr>"
  note p = kinv0_push_improper [OF k0 nb, of Iret]
  have "kinv0 ?s" using kinv0_cong [of ?s "push [Iret] s"] p by (simp add: state_defs)
  then have hs: "handling ?s" using p nb by (auto simp: handling_def run_ok_def state_defs)
  have fin: "wp (if yield_on_return s' then thread_yield (s'\<lparr>in_external_intr := False\<rparr>) else Some (s'\<lparr>in_external_intr := False\<rparr>))
      (\<lambda>s'. kinv s' \<and> \<not> in_external_intr s')" if h: "handling s'" for s'
  proof -
    let ?t = "s'\<lparr>in_external_intr := False\<rparr>"
    have t: "kinv0 ?t" "run_ok ?t" "\<forall>f\<in>set (fr ?t (cur ?t)). \<not> blocking f"
      using h kinv0_cong [of ?t s'] by (auto simp: handling_def run_ok_def)
    show ?thesis using thread_yield_ok [OF t] kinvI [OF t] by simp
  qed
  have "wp (handler ?s) handling" by (rule hd [OF hs]) (simp_all add: state_defs)
  then obtain s' where s': "handler ?s = Some s'" "handling s'" by (auto simp: wp_def)
  have "interrupt handler s =
    (if yield_on_return s' then thread_yield (s'\<lparr>in_external_intr := False\<rparr>) else Some (s'\<lparr>in_external_intr := False\<rparr>))"
    using ni s' unfolding interrupt_def intr_handler_ext_def by (simp add: Let_def state_defs handling_def)
  with fin [OF s'(2)] show ?thesis by simp
qed

lemma queue_lengths:
  assumes "queues_ok s"
  shows "length (ready_list s) + length (sleep_list s) \<le> length (all_list s)"
proof -
  note qd = queuesD [OF assms]
  let ?R = "set (ready_list s)" and ?S = "set (map snd (sleep_list s))"
  have "?R \<union> ?S \<subseteq> set (all_list s)" "?R \<inter> ?S = {}"
    using qd(9) qd(11) by (blast, metis disjoint_iff thread_status.distinct(7))
  then have "card ?R + card ?S \<le> card (set (all_list s))"
    by (metis List.finite_set card_Un_disjoint card_mono)
  moreover have "card ?R = length (ready_list s)" "card ?S = length (sleep_list s)"
    "card (set (all_list s)) = length (all_list s)"
    using distinct_card [OF qd(2)] distinct_card [OF qd(4)] distinct_card [OF qd(1)] by simp_all
  ultimately show ?thesis by simp
qed

section \<open>Return points\<close>

lemma strip_idem [simp]: "strip (strip fs) = strip fs"
  by (simp add: strip_def)

lemma creating_strip: "creating x (strip fs) = creating x fs"
  by (auto simp: creating_def strip_def)

lemma tokens_strip: "tokens l (strip fs) = tokens l fs"
  by (induction fs) (auto split: if_splits)

lemma stack_ok_strip: "stack_ok s0 s (strip fs) = stack_ok s0 s fs"
  by (auto simp: stack_ok_def creating_strip) (auto simp: strip_def)

lemma frame_quiet:
  assumes k: "kinv s" and F: "fr s (cur s) = f # fs" and q: "quiet s s'" and h: "holder s' = holder s" "semas s' = semas s"
    and g: "fr s' (cur s) = gs @ fs" "\<forall>g\<in>set gs. \<not> blocking g"
    and ok: "stack_ok s s (gs @ fs)" and tok: "\<And>l. l \<noteq> NULL \<Longrightarrow> tokens l (gs @ fs) = tokens l (f # fs)"
  shows "kinv s'"
proof (rule op_quiet)
  show "kinv0 s" "run_ok s" using k by (auto simp: kinv_iff)
  then have "\<forall>f\<in>set fs. \<not> blocking f" using pc_okD(2) [OF kinv0D(4) [OF _ run_okD(1)], of s] F by auto
  then show "\<forall>f\<in>set (fr s' (cur s)). \<not> blocking f" using g by auto
  show "stack_ok s s' (fr s' (cur s))" using ok g(1) stack_ok_cong [OF h(1)] by simp
  show "balanced s s'" using tok F g(1) by (simp add: balanced_def h)
qed (use q h in \<open>auto simp: passes_def\<close>)

lemma pc_down_loop: "pc t b (Sema_down q k # R) \<Longrightarrow> pc t b (Sema_loop q lev k # R)"
  by (auto simp: pc_simps)

lemma pc_up_rest: "pc t b (Sema_up q # R) \<Longrightarrow>
    pc t b R \<and> must_hold R = None \<and> (\<exists>l. q = Lock_Sema l \<and> l \<noteq> NULL)"
  by (auto simp: pc_simps after_up_def client_lock_def TID_LOCK_def)

text \<open>The facts about a state that is about to carry out a return point.\<close>

lemma frame_facts:
  assumes k: "kinv s" and F: "fr s (cur s) = f # fs"
  shows "mid s (pop_frame s)" "fr (pop_frame s) (cur s) = fs" "kinv0 s" "run_ok s"
    "stack_ok s (pop_frame s) (f # fs)" "pc (cur s) (cur s = idle_thread s) (strip (f # fs))"
    "holder s TID_LOCK = cur s \<Longrightarrow> must_hold (strip (f # fs)) = Some TID_LOCK"
    "must_hold (strip (f # fs)) = Some l \<Longrightarrow> holder s l = cur s"
    "Lock_acquire l \<in> set (f # fs) \<Longrightarrow> holder s l \<noteq> cur s" "cur s \<noteq> NULL"
    "thread_current (pop_frame s) = Some (cur s)"
    "cur (pop_frame s) = cur s" "holder (pop_frame s) = holder s" "in_external_intr (pop_frame s) = in_external_intr s"
    "mlfqs (pop_frame s) = mlfqs s" "level (pop_frame s) = level s"
proof -
  show k0: "kinv0 s" "run_ok s" using k by (auto simp: kinv_iff)
  show m: "mid s (pop_frame s)" by (rule kinv_mid [OF k F])
  show "fr (pop_frame s) (cur s) = fs" using F by (simp add: state_defs)
  show "stack_ok s (pop_frame s) (f # fs)"
    using stack_ok_same [OF k0] stack_ok_cong [of "pop_frame s" s s] F by (simp add: state_defs)
  note P = pc_okD [OF kinv0D(4) [OF k0(1) run_okD(1) [OF k0(2)]]]
  show "pc (cur s) (cur s = idle_thread s) (strip (f # fs))" using P(1) F by simp
  show "holder s TID_LOCK = cur s \<Longrightarrow> must_hold (strip (f # fs)) = Some TID_LOCK" using P(9) F by simp
  show "must_hold (strip (f # fs)) = Some l \<Longrightarrow> holder s l = cur s" using P(3) F by simp
  show "Lock_acquire l \<in> set (f # fs) \<Longrightarrow> holder s l \<noteq> cur s" using P(4) F by simp
  show "cur s \<noteq> NULL" by (rule queuesD(6) [OF kinv0D(1) [OF k0(1)] run_okD(1) [OF k0(2)]])
  show "thread_current (pop_frame s) = Some (cur s)" by (rule mid_current [OF m])
qed (simp_all add: state_defs)

abbreviation good :: "kstate \<Rightarrow> bool" where
  "good s \<equiv> kinv s \<and> \<not> in_external_intr s"

lemma run_down_wp:
  assumes k: "good s" and F: "fr s (cur s) = f # fs" and f: "f = Sema_loop q lv j \<or> f = Sema_down q j \<or> f = Sema_up q"
  shows "wp (run_frame f (pop_frame s)) good"
proof -
  have k': "kinv s" and ni: "\<not> in_external_intr s" using k by auto
  note A = frame_facts [OF k' F]
  consider "f = Sema_loop q lv j" | "f = Sema_down q j" | "f = Sema_up q" using f by blast
  then show ?thesis
  proof cases
    case 1
    then have "level s = INTR_OFF" using k' F by (cases "level s") (auto simp: kinv_iff)
    then show ?thesis
      unfolding 1 run_frame.simps
      by (intro sema_loop_wp [OF A(1)]) (use 1 A(2,5,14,16) ni F in auto)
  next
    case 2
    have "stack_ok s (pop_frame s) (Sema_loop q (level s) j # fs)"
      using A(5,6) pc_down_loop [of "cur s" _ q j] unfolding 2 stack_ok_def by auto
    then show ?thesis
      unfolding 2 run_frame.simps
      by (intro sema_down_wp [OF A(1)]) (use 2 A(2,5,14,16) ni F in auto)
  next
    case 3
    have "pc (cur s) (cur s = idle_thread s) (Sema_up q # strip fs)" using A(6) by (simp add: 3)
    note P = pc_up_rest [OF this]
    have "stack_ok s (pop_frame s) fs" using A(5,6) P unfolding 3 stack_ok_def by auto
    then show ?thesis
      unfolding 3 run_frame.simps
      by (intro sema_up_wp [OF A(1)]) (use 3 A(2,5,14,16) ni F in auto)
  qed
qed

lemma run_lock_wp:
  assumes k: "good s" and F: "fr s (cur s) = f # fs"
    and f: "f = Lock_take l \<or> f = Lock_hold l \<or> f = Lock_acquire l \<and> (\<not> mlfqs s \<longrightarrow> no_deadlock l s) \<or>
      f = Broadcast cv l \<and> cond_ready cv s"
  shows "wp (run_frame f (pop_frame s)) good"
proof -
  have k': "kinv s" and ni: "\<not> in_external_intr s" using k by auto
  note A = frame_facts [OF k' F]
  have nd: "no_deadlock l (pop_frame s) = no_deadlock l s" by (rule no_deadlock_cong) (simp_all add: state_defs)
  let ?h = "(pop_frame s)\<lparr>holder := (holder s)(l := cur s)\<rparr>"
  consider "f = Lock_take l" | "f = Lock_hold l" | "f = Lock_acquire l" "\<not> mlfqs s \<longrightarrow> no_deadlock l s"
    | "f = Broadcast cv l" "cond_ready cv s" using f by blast
  then show ?thesis
  proof cases
    case 1
    have l: "l \<noteq> NULL" "stack_ok s ?h (strip fs)"
      using A(5,6,7) unfolding 1 stack_ok_strip [of _ _ "_ # _", symmetric]
      by (auto simp: stack_ok_def pc_simps after_lock_def client_lock_def TID_LOCK_def)
    then show ?thesis
      unfolding 1 run_frame.simps
      by (intro lock_take_wp(1) [OF A(1)]) (use 1 A(2,13,14) ni F in \<open>auto simp: stack_ok_strip\<close>)
  next
    case 2
    have l: "l \<noteq> NULL" "stack_ok s ?h (strip fs)"
      using A(5,6,7) unfolding 2 stack_ok_strip [of _ _ "_ # _", symmetric]
      by (auto simp: stack_ok_def pc_simps client_lock_def TID_LOCK_def)
    then show ?thesis
      unfolding 2 run_frame.simps
      by (intro lock_take_wp(2) [OF A(1)]) (use 2 A(2,13,14) ni F in \<open>auto simp: stack_ok_strip\<close>)
  next
    case 3
    have l: "l \<noteq> NULL" "stack_ok s (pop_frame s) (strip (Sema_down (Lock_Sema l) (Take l) # fs))"
      using A(5,6,7) unfolding 3(1) stack_ok_strip [of _ _ "_ # _", symmetric]
      by (auto simp: stack_ok_def pc_simps after_lock_def client_lock_def)
    then show ?thesis
      unfolding 3(1) run_frame.simps
      by (intro lock_acquire_wp [OF A(1)]) (use 3 A(2,9,14,15) nd ni F in \<open>auto simp: stack_ok_strip simp del: strip_simps\<close>)
  next
    case 4
    have R: "strip fs = []" "cv \<noteq> NULL" "client_lock l" "cur s \<noteq> idle_thread s"
      using A(6) unfolding 4(1) by (auto simp: pc_simps)
    moreover have "cond_ready cv (pop_frame s)" using 4(2) by (simp add: cond_ready_def state_defs)
    moreover have "\<not> creating x fs" "Lock_acquire l' \<notin> set fs" for x l'
      using R(1) creating_strip [of x fs] by (auto simp: strip_def filter_empty_conv)
    ultimately show ?thesis
      unfolding 4(1) run_frame.simps
      by (intro cond_broadcast_wp [OF A(1)])
        (use 4 A(2,7,8,14) ni F in \<open>auto simp: client_lock_def\<close>)
  qed
qed

lemma quiet_pop:
  "s' = (pop_frame s)\<lparr>level := lv\<rparr> \<Longrightarrow> quiet s s' \<and> holder s' = holder s \<and> semas s' = semas s"
  "s' = push gs ((pop_frame s)\<lparr>level := lv\<rparr>) \<Longrightarrow> quiet s s' \<and> holder s' = holder s \<and> semas s' = semas s"
  by (simp_all add: quiet_def state_defs)

lemma run_simple_wp:
  assumes k: "good s" and F: "fr s (cur s) = f # fs"
    and f: "f \<in> {Iret, Idle_sti} \<or> (\<exists>lv. f = Set_level lv \<or> f = Sleep_done lv) \<or> (\<exists>x i. f = Tid_store x i) \<or> (\<exists>fn. f = Kernel_thread fn)"
  shows "wp (run_frame f (pop_frame s)) good"
proof -
  have k': "kinv s" and ni: "\<not> in_external_intr s" using k by auto
  note A = frame_facts [OF k' F]
  have ok0: "stack_ok s s (strip (f # fs))" unfolding stack_ok_strip using stack_ok_same [OF A(3,4)] F by simp
  have frs: "fr ((pop_frame s)\<lparr>level := lv\<rparr>) (cur s) = [] @ fs" for lv using A(2) by simp
  have lev: "good ((pop_frame s)\<lparr>level := lv\<rparr>)" if "stack_ok s s (strip fs)" "\<And>l. tokens l (f # fs) = tokens l fs" for lv
    using frame_quiet [OF k' F _ _ _ frs] quiet_pop(1) [OF refl] that ni A(14) by (simp add: stack_ok_strip)
  consider "f = Iret \<or> (\<exists>lv. f = Set_level lv)" | lv where "f = Sleep_done lv" | "f = Idle_sti"
    | x i where "f = Tid_store x i" | fn where "f = Kernel_thread fn" using f by blast
  then show ?thesis
  proof cases
    case 1
    then have "good ((pop_frame s)\<lparr>level := lv\<rparr>)" for lv using lev ok0 by auto
    with 1 show ?thesis using ni A(14) by auto
  next
    case 2
    have "strip fs = []" "cur s \<noteq> idle_thread s" using A(6) unfolding 2 by (auto simp: pc_simps)
    then have "stack_ok s s (strip fs)" using A(7) 2 by (auto simp: stack_ok_def pc_simps)
    then have "good ((pop_frame s)\<lparr>level := lv\<rparr>)" using lev 2 by simp
    then show ?thesis using ni A(14) by (simp add: 2)
  next
    case 3
    have R: "strip fs = []" "cur s = idle_thread s" using A(6) unfolding 3 by (auto simp: pc_simps)
    let ?s = "push [Idle_loop] ((pop_frame s)\<lparr>level := INTR_ON\<rparr>)"
    have "stack_ok s s (strip ([Idle_loop] @ fs))" using R A(7) 3 by (auto simp: stack_ok_def pc_simps)
    then have "kinv ?s"
      by (intro frame_quiet [OF k' F])
        (use quiet_pop(2) [of ?s "[Idle_loop]" INTR_ON s] A(2,12) 3 in \<open>auto simp: stack_ok_strip push_def simp del: strip_simps\<close>)
    then show ?thesis using ni A(14) by (simp add: 3 idle_sti_def push_def)
  next
    case (4 x i)
    let ?s = "tid_store x i (pop_frame s)"
    have R: "strip fs = [Create_rest x Client_func]" "cur s \<noteq> idle_thread s"
      using A(6) unfolding 4 by (auto simp: pc_simps)
    then have "stack_ok s s (strip ([] @ fs))"
      using ok0 A(7) 4 by (auto simp: stack_ok_def pc_simps)
    then have "kinv ?s"
      by (intro frame_quiet [OF k' F, of _ "[]"])
        (use A(2) 4 F in \<open>auto simp: quiet_def tid_store_def state_defs stack_ok_strip simp del: strip_simps\<close>)
    then show ?thesis using ni A(14) by (simp add: 4 tid_store_def)
  next
    case (5 fn)
    have R: "strip fs = []" "cur s \<noteq> idle_thread s" "fn = Client_func" using A(6) unfolding 5 by (auto simp: pc_simps)
    then have "stack_ok s s (strip fs)" using A(7) 5 by (auto simp: stack_ok_def pc_simps)
    then have "good ((pop_frame s)\<lparr>level := INTR_ON\<rparr>)" using lev 5 by simp
    then show ?thesis using ni A(14) R(3) by (simp add: 5 kernel_thread_def intr_enable_def intr_context_def Let_def)
  qed
qed

lemma run_create_wp:
  assumes k: "good s" and F: "fr s (cur s) = f # fs"
    and f: "f = Tid_take x \<or> f = Create_rest x fn \<or> f = Create_check x \<or> f = Idle_loop"
  shows "wp (run_frame f (pop_frame s)) good"
proof -
  have k': "kinv s" and ni: "\<not> in_external_intr s" using k by auto
  note A = frame_facts [OF k' F]
  consider "f = Tid_take x" | "f = Create_rest x fn" | "f = Create_check x" | "f = Idle_loop" using f by blast
  then show ?thesis
  proof cases
    case 1
    let ?s1 = "(pop_frame s)\<lparr>next_tid := s32 (next_tid s + 1)\<rparr>"
    let ?s = "push [Tid_store x (next_tid s)] ?s1"
    have R: "strip fs = [Create_rest x Client_func]" "cur s \<noteq> idle_thread s"
      using A(6) unfolding 1 by (auto simp: pc_simps)
    have h: "holder s TID_LOCK = cur s" using A(8) [of TID_LOCK] by (simp add: 1)
    have "stack_ok s (?s\<lparr>holder := (holder ?s)(TID_LOCK := NULL)\<rparr>) (strip (Sema_up (Lock_Sema TID_LOCK) # fr ?s (cur s)))"
      using R A(5) A(10,12) unfolding 1 stack_ok_strip [of _ _ "_ # _", symmetric]
      by (auto simp: stack_ok_def pc_simps after_up_def push_def A(2,12,13))
    then have "wp (lock_release TID_LOCK ?s) good"
      by (intro lock_release_wp)
        (use A(1,2,12,14) ni h 1 F in \<open>auto simp: mid_def push_def stack_ok_strip TID_LOCK_def simp del: strip_simps\<close>)
    moreover have "next_tid (pop_frame s) = next_tid s" by (simp add: state_defs upd_def)
    ultimately show ?thesis by (simp add: 1 tid_take_def Let_def)
  next
    case 2
    have R: "strip fs = []" "cur s \<noteq> idle_thread s" "fn = Client_func" using A(6) unfolding 2 by (auto simp: pc_simps)
    moreover have "\<not> creating x fs" "Lock_acquire l' \<notin> set fs" for x l'
      using R(1) creating_strip [of x fs] by (auto simp: strip_def filter_empty_conv)
    ultimately show ?thesis
      unfolding 2 run_frame.simps
      by (simp only:) (intro create_rest_wp [OF A(1)], use 2 A(2,7,14) ni F in auto)
  next
    case 3
    have R: "strip fs = []" "cur s \<noteq> idle_thread s" using A(6) unfolding 3 by (auto simp: pc_simps)
    then have "stack_ok s s (strip ([] @ fs))" using A(7) 3 by (auto simp: stack_ok_def pc_simps)
    then have kp: "kinv (pop_frame s)"
      by (intro frame_quiet [OF k' F, of _ "[]"])
        (use A(2) 3 F in \<open>auto simp: quiet_def state_defs stack_ok_strip simp del: strip_simps\<close>)
    moreover have "\<forall>f\<in>set (fr (pop_frame s) (cur (pop_frame s))). \<not> blocking f" using midD(13) [OF A(1)] A(12) by simp
    ultimately have "wp (thread_yield (pop_frame s)) good"
      using ni A(14) by (intro thread_yield_ok) (auto simp: kinv_iff)
    with kp show ?thesis using ni A(11,14) by (simp add: 3 create_check_def)
  next
    case 4
    have R: "strip fs = []" "cur s = idle_thread s" using A(6) unfolding 4 by (auto simp: pc_simps)
    moreover have "\<not> creating x fs" "Lock_acquire l' \<notin> set fs" for x l'
      using R(1) creating_strip [of x fs] by (auto simp: strip_def filter_empty_conv)
    ultimately show ?thesis
      unfolding 4 run_frame.simps
      by (intro idle_loop_wp [OF A(1)]) (use 4 A(2,7,14) ni F in auto)
  qed
qed

lemma resume_wp:
  assumes k: "good s" and l: "legal Resume s"
  shows "wp (resume s) good"
proof -
  obtain f fs where F: "fr s (cur s) = f # fs" using l by (cases "fr s (cur s)") (auto simp: legal_def)
  have "pc (cur s) (cur s = idle_thread s) (strip (f # fs))" using frame_facts(6) [OF _ F] k by blast
  then have "wp (run_frame f (pop_frame s)) good"
    using run_down_wp [OF k F] run_lock_wp [OF k F] run_simple_wp [OF k F] run_create_wp [OF k F] l
    by (cases f) (auto simp: legal_def F pc_simps simp del: run_frame.simps)
  then show ?thesis by (simp add: resume_def F)
qed

section \<open>The machine\<close>

lemma call_wp:
  assumes k: "good s" and l: "legal (Call c) s"
  shows "wp (run_call c s) good"
proof -
  have k': "kinv s" and ni: "\<not> in_external_intr s" using k by auto
  have k0: "kinv0 s" "run_ok s" using k' by (auto simp: kinv_iff)
  have e: "fr s (cur s) = []" and lc: "legal_call c s" using l by (auto simp: legal_def)
  have ci: "cur s \<noteq> idle_thread s" by (rule client_not_idle [OF k' e])
  have m: "mid s s" using kinv_mid_same [OF k'] e by simp
  have nh: "holder s TID_LOCK \<noteq> cur s"
    using pc_okD(9) [OF kinv0D(4) [OF k0(1) run_okD(1) [OF k0(2)]]] e by auto
  have cN: "cur s \<noteq> NULL" by (rule queuesD(6) [OF kinv0D(1) [OF k0(1)] run_okD(1) [OF k0(2)]])
  have lev: "kinv (s\<lparr>level := lv\<rparr>)" for lv
    using kinv0_cong [of "s\<lparr>level := lv\<rparr>" s] k0 e by (intro kinvI) (auto simp: run_ok_def)
  note so = stack_ok_def pc_simps after_lock_def after_up_def
  show ?thesis
  proof (cases c)
    case (C_sema_down a)
    then show ?thesis using sema_down_wp [OF m ni, of "Sema a" Ret] e ci nh by (simp add: so)
  next
    case (C_sema_try_down a)
    have "stack_ok s s []" using ci nh by (simp add: so)
    then have "kinv (push [] (set_sema (Sema a) (\<lambda>m. m\<lparr>sema_value := sema_value m - 1\<rparr>) s))"
      if "sema_value (semas s (Sema a)) \<noteq> 0" using try_quiet [OF k0 _ that, of "[]"] e by simp
    moreover have "push [] s' = s'" for s' by (simp add: push_def upd_def)
    ultimately show ?thesis
      using sema_try_down_wp [of s "Sema a"] ni k' C_sema_try_down
      by (cases "sema_value (semas s (Sema a)) = 0") (auto simp: set_sema_def elim!: wp_mono)
  next
    case (C_sema_up a)
    then show ?thesis using sema_up_wp [OF m ni, of "Sema a"] e ci nh by (simp add: so)
  next
    case (C_lock_acquire x)
    then show ?thesis using lock_acquire_wp [OF m ni, of x] lc e ci nh by (simp add: so client_lock_def)
  next
    case (C_lock_try_acquire x)
    have "stack_ok s s [Lock_hold x]" using ci nh lc C_lock_try_acquire by (simp add: so)
    then have "kinv (push [Lock_hold x] (set_sema (Lock_Sema x) (\<lambda>m. m\<lparr>sema_value := sema_value m - 1\<rparr>) s))"
      if "sema_value (semas s (Lock_Sema x)) \<noteq> 0" using try_quiet [OF k0 _ that, of "[Lock_hold x]"] e by simp
    moreover have "wp (sema_try_down (Lock_Sema x) s) (\<lambda>(b, s'). b = (sema_value (semas s (Lock_Sema x)) \<noteq> 0) \<and>
        s' = (if b then set_sema (Lock_Sema x) (\<lambda>m. m\<lparr>sema_value := sema_value m - 1\<rparr>) s else s))"
      using sema_try_down_wp [of s "Lock_Sema x"] ni by blast
    ultimately show ?thesis
      using ni k' lc mid_held [OF m, of x] C_lock_try_acquire
      by (cases "sema_value (semas s (Lock_Sema x)) = 0")
        (auto simp: lock_try_acquire_def client_lock_def push_def set_sema_def elim!: wp_mono)
  next
    case (C_lock_release x)
    then show ?thesis using lock_release_wp [OF m ni, of x] lc e ci nh cN by (simp add: so client_lock_def)
  next
    case (C_cond_wait cv x)
    then show ?thesis using cond_wait_wp [OF k' e ni] lc ci by simp
  next
    case (C_cond_signal cv x)
    then show ?thesis using cond_signal_wp [OF m ni, of cv x] lc e ci nh by (simp add: so client_lock_def)
  next
    case (C_cond_broadcast cv x)
    then show ?thesis using cond_broadcast_wp [OF m ni, of cv x] lc e ci nh by simp
  next
    case (C_thread_create nm pri page)
    show ?thesis
    proof (cases "page = NULL")
      case True
      then show ?thesis using k by (simp add: C_thread_create thread_create_def)
    next
      case False
      then show ?thesis
        using thread_create_wp [OF k' e ni, of pri page nm] lc C_thread_create
        by (auto elim!: wp_mono split: sum.splits)
    qed
  next
    case C_thread_exit
    then show ?thesis using thread_exit_wp [OF k' e ni] lc by simp
  next
    case C_thread_yield
    then show ?thesis using thread_yield_ok [OF k0] e ni by simp
  next
    case (C_thread_set_priority p)
    then show ?thesis using thread_set_priority_wp [OF k' e ni] by simp
  next
    case (C_thread_set_nice n)
    then show ?thesis using thread_set_nice_wp [OF k' e ni] by simp
  next
    case (C_timer_sleep n)
    then show ?thesis using timer_sleep_wp [OF k' e ni] lc by simp
  next
    case C_intr_enable
    then show ?thesis using lev ni by (simp add: intr_enable_def intr_context_def Let_def)
  next
    case C_intr_disable
    then show ?thesis using lev ni by (simp add: intr_disable_def)
  qed
qed

lemma step_good:
  assumes "good s" "legal e s"
  shows "wp (step e s) good"
proof (cases e)
  case (Call c)
  then show ?thesis using call_wp assms by simp
next
  case Resume
  then show ?thesis using resume_wp assms by simp
next
  case Tick
  have "length (ready_list s) + length (sleep_list s) \<le> length (all_list s)"
    using assms queue_lengths [of s] by (auto simp: kinv_iff kinv0_def)
  with Tick show ?thesis
    using assms interrupt_wp [of s timer_interrupt] timer_interrupt_wp by (auto simp: legal_def)
next
  case (Device a)
  then show ?thesis
    using assms interrupt_wp [of s "sema_up (Sema a)"] sema_up_handler_wp by (auto simp: legal_def)
qed

section \<open>The start\<close>

lemma run_resume_numeral:
  "run_resume (numeral k) s =
     (if frames (threads s (cur s)) = [] then Some s else do { s \<leftarrow> resume s; run_resume (pred_numeral k) s })"
  by (simp add: numeral_eq_Suc)

lemmas boot_defs = boot_def blank_def thread_init_def lock_init_def sema_init_def init_thread_def inherit_mlfqs_def
  allocate_tid_def lock_acquire_def lock_held_by_current_thread_def thread_current_def is_thread_def
  lock_donate_def intr_disable_def intr_set_level_def intr_enable_def resume_def sema_down_def sema_loop_def
  down_return_def lock_take_def tid_take_def lock_release_def lock_undonate_def donate_priority_update_def
  max_donation_def tid_store_def sema_up_def sema_wake_def thread_yield_def schedule_def next_thread_to_run_def
  thread_schedule_tail_def thread_block_def thread_unblock_def init_rest_def thread_start_def thread_create_def
  create_rest_def alloc_frame_def create_check_def kernel_thread_def idle_start_def
  PRI_DEFAULT_def PRI_MIN_def PRI_MAX_def TID_LOCK_def state_defs upd_def run_resume_numeral

text \<open>The threads after the start.\<close>

definition main_thread :: "tptr \<Rightarrow> thread" where
  "main_thread t = \<lparr>tid = 1, status = THREAD_RUNNING, name = ''main'', stack = t + PGSIZE, base_priority = PRI_DEFAULT,
     donations = [], priority = PRI_DEFAULT, waiting_lock = NULL, nice = 0, recent_cpu = 0, magic = THREAD_MAGIC,
     frames = []\<rparr>"

definition inited :: "bool \<Rightarrow> (addr \<Rightarrow> u32) \<Rightarrow> tptr \<Rightarrow> kstate" where
  "inited mq v main = (blank mq v main)\<lparr>threads := (threads (blank mq v main))(main := main_thread main),
     all_list := [main], initial_thread := main, next_tid := 2\<rparr>"

lemma inited_eq:
  assumes "main \<noteq> NULL"
  shows "do { s \<leftarrow> thread_init (blank mq v main); run_resume 20 s } = Some (inited mq v main)"
  using assms
  by (cases mq)
    (simp_all add: boot_defs Let_def inited_def main_thread_def fun_upd_twist s32_val, auto simp: fun_eq_iff)

definition idle_rec :: "tptr \<Rightarrow> thread" where
  "idle_rec t = \<lparr>tid = 2, status = THREAD_READY, name = ''idle'', stack = t + PGSIZE - 44, base_priority = PRI_MIN,
     donations = [], priority = PRI_MIN, waiting_lock = NULL, nice = 0, recent_cpu = 0, magic = THREAD_MAGIC,
     frames = [Set_level INTR_OFF, Set_level INTR_ON, Idle_loop]\<rparr>"

definition booted_state :: "bool \<Rightarrow> (addr \<Rightarrow> u32) \<Rightarrow> tptr \<Rightarrow> tptr \<Rightarrow> kstate" where
  "booted_state mq v main page = (inited mq v main)\<lparr>threads := (threads (inited mq v main))(page := idle_rec page),
     all_list := [main, page], idle_thread := page, level := INTR_ON, next_tid := 3\<rparr>"

lemmas start_defs = boot_defs Let_def inited_def main_thread_def idle_rec_def booted_state_def PGSIZE_def fun_upd_twist s32_val

lemma start_plain:
  assumes "main \<noteq> NULL" "page \<noteq> NULL" "main \<noteq> page"
  shows "do { s \<leftarrow> thread_start page (inited False v main); run_resume 40 s } = Some (booted_state False v main page)"
  using assms by (simp add: start_defs, auto simp: fun_eq_iff)

lemma start_mlfqs:
  assumes "main \<noteq> NULL" "page \<noteq> NULL" "main \<noteq> page"
  shows "do { s \<leftarrow> thread_start page (inited True v main); run_resume 40 s } = Some (booted_state True v main page)"
  using assms by (simp add: start_defs, auto simp: fun_eq_iff)

lemma boot_eq:
  assumes "main \<noteq> NULL" "page \<noteq> NULL" "main \<noteq> page"
  shows "boot mq v main page = Some (booted_state mq v main page)"
proof -
  have "boot mq v main page = do { s \<leftarrow> thread_start page (inited mq v main); run_resume 40 s }"
    using inited_eq [OF assms(1), of mq v] unfolding boot_def by (metis bind_assoc bind.bind_lunit)
  also have "\<dots> = Some (booted_state mq v main page)"
    using start_plain [OF assms, of v] start_mlfqs [OF assms, of v] by (cases mq) simp_all
  finally show ?thesis .
qed

lemma boot_good:
  assumes "main \<noteq> NULL" "page \<noteq> NULL" "main \<noteq> page"
  shows "good (booted_state mq v main page)"
proof -
  let ?s = "booted_state mq v main page"
  have sel: "all_list ?s = [main, page]" "ready_list ?s = []" "idle_thread ?s = page" "cur ?s = main"
    "sleep_list ?s = []" "holder ?s l = NULL" "waiters (semas ?s q) = []" "sema_value (semas ?s (Lock_Sema l)) = 1"
    "level ?s = INTR_ON" "in_external_intr ?s = False" "load_avg ?s = 0" for l q
    by (simp_all add: booted_state_def inited_def blank_def)
  have th: "threads ?s main = main_thread main" "threads ?s page = idle_rec page"
    using assms by (simp_all add: booted_state_def inited_def)
  have "queues_ok ?s"
    using assms by (auto simp: queues_ok_def sel th main_thread_def idle_rec_def)
  moreover have "pcs_ok ?s"
    using assms by (auto simp: pcs_ok_def pc_ok_def sel th main_thread_def idle_rec_def pc_simps)
  moreover have "locks_ok ?s"
    using assms by (auto simp: locks_ok_def lock_token_def sel th main_thread_def idle_rec_def)
  moreover have "load_ok ?s" "sleep_ok ?s" by (simp_all add: load_ok_def sleep_ok_def sel FP_F_val)
  moreover have "run_ok ?s" using assms by (auto simp: run_ok_def sel th main_thread_def idle_rec_def)
  ultimately show ?thesis by (auto simp: kinv_iff kinv0_def sel th main_thread_def)
qed

text \<open>Every reachable state satisfies the invariant.\<close>

lemma reachable_good: "reachable s \<Longrightarrow> good s"
proof (induction rule: reachable.induct)
  case (booted main page mq v s)
  then show ?case using boot_good [of main page mq v] boot_eq [of main page mq v] by simp
next
  case (stepped s e s')
  then show ?case using step_good [of s e] by (simp add: wp_Some_iff)
qed

end
