(* ===== verification/Kernel_Theorems.thy ===== *)
theory Kernel_Theorems
  imports Kernel_Safety
begin

text \<open>
  The properties of the thread system that rest on the invariant: no legal step halts the
  kernel, a thread is in one queue only, locks exclude each other. The witnesses run the
  machine from the state after the start.
\<close>

section \<open>A concrete run\<close>

definition demo_state :: kstate where
  "demo_state = booted_state False (\<lambda>_. 0) 4096 8192"

lemma demo_reachable: "reachable demo_state"
  using booted [of 4096 8192 False "\<lambda>_. 0"] boot_eq [of 4096 8192 False "\<lambda>_. 0"] by (simp add: demo_state_def)

lemma demo_sel:
  "cur demo_state = 4096" "level demo_state = INTR_ON" "mlfqs demo_state = False" "ticks demo_state = 0"
  "fr demo_state 4096 = []" "holder demo_state l = NULL" "all_list demo_state = [4096, 8192]"
  "sleep_list demo_state = []" "ready_list demo_state = []"
  by (simp_all add: demo_state_def booted_state_def inited_def blank_def main_thread_def)

text \<open>A second state of the run: the main thread waits for a semaphore.\<close>

definition demo_wait :: kstate where
  "demo_wait = the (step (Call (C_sema_down 50)) demo_state)"

lemma demo_wait: "step (Call (C_sema_down 50)) demo_state = Some demo_wait \<and> waiters (semas demo_wait (Sema 50)) = [4096]"
proof -
  have "wp (step (Call (C_sema_down 50)) demo_state) (\<lambda>s'. waiters (semas s' (Sema 50)) = [4096])"
    by (simp add: demo_state_def booted_state_def inited_def blank_def boot_defs Let_def THREAD_MAGIC_def
        idle_rec_def main_thread_def)
  then show ?thesis by (auto simp: wp_def demo_wait_def simp del: step.simps)
qed

lemma demo_wait_reachable: "reachable demo_wait"
  by (rule reachable.stepped [OF demo_reachable, of "Call (C_sema_down 50)"])
    (use demo_wait in \<open>simp_all add: legal_def demo_sel del: step.simps\<close>)

lemma demo_wait_all: "all_list demo_wait = [4096, 8192]"
proof -
  have "wp (step (Call (C_sema_down 50)) demo_state) (\<lambda>s'. all_list s' = [4096, 8192])"
    by (simp add: demo_state_def booted_state_def inited_def blank_def boot_defs Let_def THREAD_MAGIC_def
        idle_rec_def main_thread_def)
  then show ?thesis using demo_wait by (auto simp: wp_def simp del: step.simps)
qed

text \<open>
  C1 In every state that the kernel can reach from its start, every step it is asked to make
  is made: no assertion of the thread system, the synchronisation primitives or the interrupt code fails,
  and no loop of theirs runs forever, as long as the callers keep the documented rules, no deadlock is
  closed and \<^verbatim>\<open>cond_signal\<close> finds its waiters asleep.
\<close>

theorem kernel_never_halts:
  assumes "reachable s" and "legal e s"
  shows "\<exists>s'. step e s = Some s' \<and> reachable s'"
proof -
  have "wp (step e s) good" by (rule step_good [OF reachable_good [OF assms(1)] assms(2)])
  then obtain s' where "step e s = Some s'" by (auto simp: wp_def)
  with reachable.stepped [OF assms] show ?thesis by blast
qed

theorem kernel_never_halts_witness:
  "\<exists>s'. step (Call (C_lock_acquire 100)) demo_state = Some s' \<and> reachable s'"
proof (rule kernel_never_halts [OF demo_reachable])
  have "no_deadlock 100 demo_state"
    unfolding no_deadlock_def by (rule exI [of _ 0]) (simp add: demo_sel)
  then show "legal (Call (C_lock_acquire 100)) demo_state"
    by (simp add: legal_def demo_sel client_lock_def TID_LOCK_def)
qed

text \<open>
  C4 The rule that lets \<^verbatim>\<open>elem\<close> serve two purposes (\<^verbatim>\<open>thread.h\<close>): in every reachable state exactly
  the current thread is marked running, the ready list holds exactly the ready threads
  other than the idle thread, each once, and no thread is in two of the ready list, the
  waiter lists of the semaphores and the sleep list.
\<close>

theorem threads_in_one_queue:
  assumes "reachable s" and "t \<in> set (all_list s)"
  shows "(st s t = THREAD_RUNNING \<longleftrightarrow> t = cur s) \<and>
    (t \<in> set (ready_list s) \<longleftrightarrow> st s t = THREAD_READY \<and> t \<noteq> idle_thread s) \<and>
    distinct (ready_list s) \<and> distinct (waiters (semas s q)) \<and> distinct (map snd (sleep_list s)) \<and>
    (t \<in> set (waiters (semas s q)) \<longrightarrow>
      t \<notin> set (ready_list s) \<and> t \<notin> snd ` set (sleep_list s) \<and> t \<noteq> cur s \<and>
      (\<forall>q'. t \<in> set (waiters (semas s q')) \<longrightarrow> q' = q)) \<and>
    (t \<in> snd ` set (sleep_list s) \<longrightarrow> t \<notin> set (ready_list s) \<and> t \<noteq> cur s)"
proof -
  have k: "kinv0 s" "run_ok s" using reachable_good [OF assms(1)] by (auto simp: kinv_iff)
  note qd = queuesD [OF kinv0D(1) [OF k(1)]] and rd = run_okD(3) [OF k(2) assms(2)]
  have "waits_on (fr s t) = Some q \<Longrightarrow> \<not> sleeping (fr s t)" by (auto simp: waits_on_Some)
  then show ?thesis
    using qd(2-4) qd(9) [of t] qd(10) [of t] qd(11) [of t] rd assms(2) by auto
qed

theorem threads_in_one_queue_witness:
  "4096 \<in> set (waiters (semas demo_wait (Sema 50))) \<and> 4096 \<notin> set (ready_list demo_wait) \<and>
    4096 \<notin> snd ` set (sleep_list demo_wait) \<and> 4096 \<noteq> cur demo_wait \<and> st demo_wait 4096 \<noteq> THREAD_RUNNING"
  using threads_in_one_queue [OF demo_wait_reachable, of 4096 "Sema 50"] demo_wait [THEN conjunct2]
  by (auto simp: demo_wait_all)

text \<open>
  C2 Mutual exclusion. In every reachable state a lock has exactly one token: either its semaphore has the value 1
  and nobody holds the lock, or the value is 0 and it has a holder, or the value is 0, nobody holds it and exactly one
  thread is between the semaphore and the field \<^verbatim>\<open>holder\<close> (taking or releasing the lock).
\<close>

definition passing :: "kstate \<Rightarrow> addr \<Rightarrow> tptr \<Rightarrow> bool" where
  "passing s l t \<longleftrightarrow> t \<in> set (all_list s) \<and>
     (Lock_take l \<in> set (fr s t) \<or> Lock_hold l \<in> set (fr s t) \<or> Sema_up (Lock_Sema l) \<in> set (fr s t))"

lemma tokens_pos: "tokens l fs = 0 \<longleftrightarrow>
    Lock_take l \<notin> set fs \<and> Lock_hold l \<notin> set fs \<and> Sema_up (Lock_Sema l) \<notin> set fs"
  by (auto simp: tokens_def filter_empty_conv)

theorem lock_mutual_exclusion:
  assumes "reachable s" and "l \<noteq> NULL"
  shows "sema_value (semas s (Lock_Sema l)) = 1 \<and> holder s l = NULL \<and> (\<forall>t. \<not> passing s l t) \<or>
    sema_value (semas s (Lock_Sema l)) = 0 \<and> holder s l \<in> set (all_list s) \<and> (\<forall>t. \<not> passing s l t) \<or>
    sema_value (semas s (Lock_Sema l)) = 0 \<and> holder s l = NULL \<and> (\<exists>!t. passing s l t)"
proof -
  have lk: "locks_ok s" using reachable_good [OF assms(1)] by (auto simp: kinv_iff kinv0_def)
  let ?v = "sema_value (semas s (Lock_Sema l))" and ?T = "\<Sum>t\<in>set (all_list s). tokens l (fr s t)"
  have one: "unat ?v + (if holder s l = NULL then 0 else 1) + ?T = 1"
    using lk assms(2) by (simp add: locks_ok_def lock_token_def)
  have p: "passing s l t \<longleftrightarrow> t \<in> set (all_list s) \<and> tokens l (fr s t) \<noteq> 0" for t
    using tokens_pos [of l "fr s t"] by (auto simp: passing_def)
  consider "unat ?v = 1" "holder s l = NULL" "?T = 0" | "unat ?v = 0" "holder s l \<noteq> NULL" "?T = 0"
    | "unat ?v = 0" "holder s l = NULL" "?T = 1" using one by (cases "holder s l = NULL"; cases ?T) auto
  then show ?thesis
  proof cases
    case 1
    then have "?v = 1" by (simp add: word_unat_eq_iff)
    with 1 show ?thesis by (simp add: p)
  next
    case 2
    then show ?thesis using lk by (simp add: p locks_ok_def unat_eq_zero)
  next
    case 3
    then obtain t where t: "t \<in> set (all_list s)" "tokens l (fr s t) = 1"
      "\<forall>u\<in>set (all_list s) - {t}. tokens l (fr s u) = 0"
      using sum_eq_1_iff [of "set (all_list s)" "\<lambda>t. tokens l (fr s t)"] by auto
    then have "\<exists>!t. passing s l t" unfolding p by (intro ex1I [of _ t]) (auto, metis Diff_iff neq0_conv singletonD)
    with 3 show ?thesis by (simp add: unat_eq_zero)
  qed
qed

theorem lock_mutual_exclusion_witness:
  "sema_value (semas demo_state (Lock_Sema 100)) = 1 \<and> holder demo_state 100 = NULL \<and> (\<forall>t. \<not> passing demo_state 100 t) \<or>
    sema_value (semas demo_state (Lock_Sema 100)) = 0 \<and> holder demo_state 100 \<in> set (all_list demo_state) \<and>
      (\<forall>t. \<not> passing demo_state 100 t) \<or>
    sema_value (semas demo_state (Lock_Sema 100)) = 0 \<and> holder demo_state 100 = NULL \<and> (\<exists>!t. passing demo_state 100 t)"
  by (rule lock_mutual_exclusion [OF demo_reachable]) simp

end
