(* ===== verification/Sleep_Theorems.thy ===== *)
theory Sleep_Theorems
  imports Kernel_Theorems
begin

text \<open>
  Sleeping threads (\<^verbatim>\<open>devices/timer.c\<close>): what one tick of the timer does to the sleep list, on every
  path through the wake-up loop, the recalculations of the feedback scheduler and the switch of
  threads at the end of the interrupt.
\<close>


section \<open>Sleeping\<close>

text \<open>What the parts of a timer tick leave alone.\<close>

definition keeps :: "kstate \<Rightarrow> kstate \<Rightarrow> bool" where
  "keeps s s' \<longleftrightarrow> ticks s' = ticks s \<and> sleep_list s' = sleep_list s \<and> all_list s' = all_list s \<and>
     idle_thread s' = idle_thread s \<and> (\<forall>t. waits_on (fr s' t) = waits_on (fr s t) \<and> sleeping (fr s' t) = sleeping (fr s t))"

lemma keeps_trans: "keeps s s' \<Longrightarrow> keeps s' s'' \<Longrightarrow> keeps s s''"
  by (simp add: keeps_def)

lemma keeps_refl [simp]: "keeps s s"
  by (simp add: keeps_def)

lemma dsame_keeps: "dsame s s' \<Longrightarrow> keeps s s'"
  by (simp add: keeps_def dsame_sel)

lemma wake_loop_filter:
  assumes "wake_loop fs s = Some s'" "sleep_list s = fs" "in_order time_less fs"
  shows "ticks s' = ticks s" "sleep_list s' = filter (\<lambda>f. fst f > ticks s) fs" "all_list s' = all_list s"
    "fr s' t = fr s t" "idle_thread s' = idle_thread s"
proof -
  have "ticks s' = ticks s \<and> sleep_list s' = filter (\<lambda>f. fst f > ticks s) fs \<and> all_list s' = all_list s \<and>
      (\<forall>t. fr s' t = fr s t) \<and> idle_thread s' = idle_thread s"
    using assms
  proof (induction fs arbitrary: s)
    case Nil
    then show ?case by simp
  next
    case (Cons f fs)
    show ?case
    proof (cases "fst f > ticks s")
      case True
      then have "\<forall>g\<in>set fs. fst g > ticks s" using Cons.prems(3) by (force simp: time_less_def)
      then show ?thesis using True Cons.prems by simp
    next
      case False
      then obtain s1 c s2 where
        s1: "thread_unblock (snd f) (s\<lparr>sleep_list := fs\<rparr>) = Some s1" and
        s2: "(if prio s1 (snd f) > prio s1 c then intr_yield_on_return s1 else Some s1) = Some s2" and
        w: "wake_loop fs s2 = Some s'"
        using Cons.prems(1) by (auto simp: Let_def bind_eq_Some_conv)
      have "ticks s1 = ticks s" "sleep_list s1 = fs" "all_list s1 = all_list s" "\<And>t. fr s1 t = fr s t"
        "idle_thread s1 = idle_thread s"
        using s1 by (auto simp: thread_unblock_def intr_disable_def intr_set_level_def intr_enable_def Let_def
            state_defs ASSERT_def split: if_splits)
      moreover have "s2 = s1 \<or> s2 = s1\<lparr>yield_on_return := True\<rparr>"
        using s2 by (auto simp: intr_yield_on_return_def ASSERT_def split: if_splits)
      ultimately have "ticks s2 = ticks s" "sleep_list s2 = fs" "all_list s2 = all_list s" "\<And>t. fr s2 t = fr s t"
        "idle_thread s2 = idle_thread s"
        by auto
      with Cons.IH [OF w] Cons.prems(3) False show ?thesis by auto
    qed
  qed
  then show "ticks s' = ticks s" "sleep_list s' = filter (\<lambda>f. fst f > ticks s) fs" "all_list s' = all_list s"
    "fr s' t = fr s t" "idle_thread s' = idle_thread s" by auto
qed

lemma mlfqs_tick_keeps:
  assumes "mlfqs_tick s = Some s'" "handling s" "length (ready_list s) < 2184"
  shows "keeps s s'"
proof -
  have fe: "keeps a b" if "thread_foreach func a = Some b" "load_ok a" "\<And>t s. load_ok s \<Longrightarrow> wp (func t s) (dsame s)" for func a b
    using foreach_dsame [of func a "all_list a", OF that(3,2)] that(1)
    by (auto simp: thread_foreach_def wp_def ASSERT_def split: if_splits intro: dsame_keeps)
  let ?s = "thread_recent_cpu_incre (cur s) s"
  have d: "dsame s ?s" by (simp add: thread_recent_cpu_incre_def dsame_def)
  have h: "handling ?s" by (rule handling_dsame [OF assms(2) d])
  have c: "thread_current s = Some (cur s)" by (rule handling_current [OF assms(2)])
  obtain s1 where s1: "(if c_mod (ticks ?s) TIMER_FREQ = 0
      then do { s \<leftarrow> load_avg_calc_mlfqs ?s; thread_foreach thread_recent_cpu_calc_mlfqs s } else Some ?s) = Some s1"
    and s2: "(if c_mod (ticks s1) 4 = 0 then thread_foreach thread_priority_calc_mlfqs s1 else Some s1) = Some s'"
    using assms(1) c unfolding mlfqs_tick_def by (auto simp: Let_def bind_eq_Some_conv)
  have "keeps ?s s1 \<and> load_ok s1"
  proof (cases "c_mod (ticks ?s) TIMER_FREQ = 0")
    case True
    then obtain l where l: "load_avg_calc_mlfqs ?s = Some l" "thread_foreach thread_recent_cpu_calc_mlfqs l = Some s1"
      using s1 by (auto simp: bind_eq_Some_conv)
    have hl: "handling l" using load_avg_calc_wp [OF h] l(1) assms(3) dsame_sel(2) [OF d] by (simp add: wp_def)
    then have ll: "load_ok l" by (simp add: handling_def kinv0_def)
    have "keeps ?s l" using l(1) by (auto simp: load_avg_calc_mlfqs_def Let_def bind_eq_Some_conv keeps_def)
    moreover have "keeps l s1" by (rule fe [OF l(2) ll recent_cpu_calc_wp])
    moreover have "load_avg s1 = load_avg l"
      using foreach_dsame [of thread_recent_cpu_calc_mlfqs l "all_list l", OF recent_cpu_calc_wp ll] l(2)
      by (auto simp: thread_foreach_def wp_def ASSERT_def dsame_sel split: if_splits)
    ultimately show ?thesis using ll keeps_trans by (auto simp: load_ok_def)
  next
    case False
    then show ?thesis using s1 h by (auto simp: handling_def kinv0_def)
  qed
  moreover have "keeps s1 s'" using s2 fe [OF _ _ priority_calc_wp] calculation by (auto split: if_splits)
  ultimately show ?thesis using dsame_keeps [OF d] keeps_trans by blast
qed

lemma thread_tick_keeps:
  assumes "thread_tick s = Some s'"
  shows "keeps s s'"
proof -
  obtain c where c: "thread_current s = Some c" using assms by (auto simp: thread_tick_def bind_eq_Some_conv)
  define s1 where "s1 = (if c = idle_thread s then s\<lparr>idle_ticks := idle_ticks s + 1\<rparr>
    else s\<lparr>kernel_ticks := kernel_ticks s + 1\<rparr>)"
  define s2 where "s2 = s1\<lparr>thread_ticks := thread_ticks s1 + 1\<rparr>"
  have "(if thread_ticks s2 \<ge> TIME_SLICE then intr_yield_on_return s2 else Some s2) = Some s'"
    using assms c unfolding thread_tick_def s2_def s1_def by (cases "c = idle_thread s") (simp_all add: Let_def cong: if_cong)
  then have "s' = s2 \<or> s' = s2\<lparr>yield_on_return := True\<rparr>"
    by (auto simp: intr_yield_on_return_def ASSERT_def split: if_splits)
  moreover have "keeps s s2" "keeps s2 (s2\<lparr>yield_on_return := True\<rparr>)" by (simp_all add: keeps_def s1_def s2_def)
  ultimately show ?thesis using keeps_trans by blast
qed

lemma thread_yield_keeps:
  assumes k: "kinv0 s" "run_ok s" and nb: "\<forall>f\<in>set (fr s (cur s)). \<not> blocking f" and ni: "\<not> in_external_intr s"
    and y: "thread_yield s = Some s'"
  shows "keeps s s'"
proof -
  have "switched (push [Set_level (level s)] s) s'" using thread_yield_wp [OF assms(1-4)] y by (simp add: wp_def)
  moreover have "waits_on (fr s (cur s)) = None" "\<not> sleeping (fr s (cur s))"
    using nb by (cases "fr s (cur s)"; simp)+
  ultimately show ?thesis unfolding switched_def keeps_def by (simp add: state_defs)
qed


text \<open>The whole interrupt, up to the threads it leaves asleep.\<close>

lemma timer_interrupt_sleep:
  assumes h: "handling s" and n: "mlfqs s \<Longrightarrow> length (ready_list s) + length (sleep_list s) < 2184"
    and e: "timer_interrupt s = Some s'"
  shows "keeps (s\<lparr>ticks := s64 (ticks s + 1), sleep_list := filter (\<lambda>f. fst f > s64 (ticks s + 1)) (sleep_list s)\<rparr>) s'"
proof -
  let ?s = "s\<lparr>ticks := s64 (ticks s + 1)\<rparr>"
  let ?t = "s\<lparr>ticks := s64 (ticks s + 1), sleep_list := filter (\<lambda>f. fst f > s64 (ticks s + 1)) (sleep_list s)\<rparr>"
  obtain s1 s2 where s1: "wake_loop (sleep_list ?s) ?s = Some s1" and s2: "(if mlfqs s1 then mlfqs_tick s1 else Some s1) = Some s2"
    and s3: "thread_tick s2 = Some s'"
    using e by (auto simp: timer_interrupt_def Let_def bind_eq_Some_conv)
  have "handling ?s" by (rule handling_cong [OF h]) (use h in \<open>simp_all add: handling_def kinv0_def load_ok_def\<close>)
  then have h1: "handling s1" "mlfqs s1 = mlfqs s" "length (ready_list s1) \<le> length (ready_list s) + length (sleep_list s)"
    using wake_loop_wp [of ?s "sleep_list s"] s1 by (simp_all add: wp_def)
  have "in_order time_less (sleep_list s)" using h by (simp add: handling_def kinv0_def sleep_ok_def)
  note W = wake_loop_filter [OF s1 refl, simplified, OF this]
  have "keeps ?t s1" using W by (simp add: keeps_def)
  moreover have "keeps s1 s2"
    using s2 mlfqs_tick_keeps [of s1 s2] h1 n by (auto split: if_splits)
  moreover have "keeps s2 s'" using s3 by (rule thread_tick_keeps)
  ultimately show ?thesis using keeps_trans by blast
qed

lemma tick_keeps:
  assumes r: "reachable s" and l: "legal Tick s" and e: "step Tick s = Some s'"
  shows "keeps (s\<lparr>ticks := s64 (ticks s + 1), sleep_list := filter (\<lambda>f. fst f > s64 (ticks s + 1)) (sleep_list s)\<rparr>) s'"
proof -
  have k0: "kinv0 s" "run_ok s" and ni: "\<not> in_external_intr s" and nb: "\<forall>f\<in>set (fr s (cur s)). \<not> blocking f"
    and n: "mlfqs s \<Longrightarrow> length (all_list s) < 2184"
    using reachable_good [OF r] l by (auto simp: kinv_iff legal_def)
  let ?s0 = "push [Iret] (s\<lparr>level := INTR_OFF\<rparr>)"
  let ?s = "?s0\<lparr>in_external_intr := True, yield_on_return := False\<rparr>"
  note p = kinv0_push_improper [OF k0 nb, of Iret]
  have "kinv0 ?s" using kinv0_cong [of ?s "push [Iret] s"] p by (simp add: state_defs)
  then have hs: "handling ?s" using p nb by (auto simp: handling_def run_ok_def state_defs)
  have m: "length (ready_list ?s) + length (sleep_list ?s) < 2184" if "mlfqs ?s"
    using queue_lengths [OF kinv0D(1) [OF k0(1)]] n that by (simp add: state_defs)
  obtain s2 where s2: "timer_interrupt ?s = Some s2" "handling s2"
    using timer_interrupt_wp [OF hs m] by (auto simp: wp_def)
  let ?t = "s2\<lparr>in_external_intr := False\<rparr>"
  have t: "kinv0 ?t" "run_ok ?t" "\<forall>f\<in>set (fr ?t (cur ?t)). \<not> blocking f"
    using s2(2) kinv0_cong [of ?t s2] by (auto simp: handling_def run_ok_def)
  have "(if yield_on_return s2 then thread_yield ?t else Some ?t) = Some s'"
    using ni s2 e by (simp add: interrupt_def intr_handler_ext_def Let_def state_defs handling_def)
  then have "keeps ?t s'" using thread_yield_keeps [OF t] by (auto split: if_splits)
  moreover have "keeps s2 ?t" by (simp add: keeps_def)
  moreover note timer_interrupt_sleep [OF hs m s2(1)]
  moreover have "waits_on (fr s (cur s)) = None" "\<not> sleeping (fr s (cur s))" using nb by (cases "fr s (cur s)"; simp)+
  ultimately show ?thesis by (auto simp: keeps_def state_defs)
qed

text \<open>
  C16 Waking up. A tick of the timer in any reachable state advances the tick counter by one, takes from the sleep list
  exactly the threads whose time has come, leaves the others asleep in their order, and every thread whose time has
  come is ready or already running when the interrupt is over, whatever the recalculations of the
  feedback scheduler and the switch of threads at the end of the interrupt did.
\<close>

theorem tick_wakes_due:
  assumes "reachable s" and "legal Tick s"
  shows "\<exists>s'. step Tick s = Some s' \<and> ticks s' = s64 (ticks s + 1) \<and>
    sleep_list s' = filter (\<lambda>f. fst f > ticks s') (sleep_list s) \<and>
    (\<forall>f\<in>set (sleep_list s). fst f \<le> ticks s' \<longrightarrow> snd f \<in> set (ready_list s') \<or> snd f = cur s')"
proof -
  obtain s' where s': "step Tick s = Some s'" and g: "good s'"
    using step_good [OF reachable_good [OF assms(1)] assms(2)] by (auto simp: wp_def)
  note K = tick_keeps [OF assms s', unfolded keeps_def, simplified]
  have k: "kinv0 s" "kinv0 s'" "run_ok s'" using g reachable_good [OF assms(1)] by (auto simp: kinv_iff)
  note qd = queuesD [OF kinv0D(1) [OF k(1)]] and qd' = queuesD [OF kinv0D(1) [OF k(2)]]
  have "snd f \<in> set (ready_list s') \<or> snd f = cur s'" if f: "f \<in> set (sleep_list s)" "fst f \<le> ticks s'" for f
  proof -
    have t: "snd f \<in> set (all_list s)" "sleeping (fr s (snd f))" using qd(11) [of "snd f"] f(1) by auto
    then have t': "snd f \<in> set (all_list s')" "sleeping (fr s' (snd f))" using K by auto
    have "snd f \<notin> set (map snd (sleep_list s'))"
      using K f qd(4) by (auto simp: distinct_map dest: inj_onD)
    then have "st s' (snd f) \<noteq> THREAD_BLOCKED" using qd'(11) [of "snd f"] t' by auto
    moreover have "snd f \<noteq> idle_thread s'" using idle_frames(2) [OF k(2)] t'(2) by auto
    ultimately show ?thesis
      using qd'(8) [OF t'(1)] qd'(9) [of "snd f"] run_okD(3) [OF k(3) t'(1)] t'(1) by (cases "st s' (snd f)") auto
  qed
  with s' K show ?thesis by (intro exI [of _ s']) auto
qed

text \<open>The main thread asleep for two ticks, after the first of them.\<close>

definition demo_sleep :: kstate where
  "demo_sleep = the (step (Call (C_timer_sleep 1)) demo_state)"

lemma demo_sleep: "step (Call (C_timer_sleep 1)) demo_state = Some demo_sleep \<and> sleep_list demo_sleep = [(1, 4096)] \<and>
    ticks demo_sleep = 0 \<and> mlfqs demo_sleep = False \<and> fr demo_sleep (cur demo_sleep) = [Set_level INTR_OFF, Set_level INTR_ON, Idle_loop] \<and>
    
    level demo_sleep = INTR_OFF \<and> \<not> in_external_intr demo_sleep"
proof -
  have "wp (step (Call (C_timer_sleep 1)) demo_state) (\<lambda>s'. sleep_list s' = [(1, 4096)] \<and> ticks s' = 0 \<and> mlfqs s' = False \<and>
      fr s' (cur s') = [Set_level INTR_OFF, Set_level INTR_ON, Idle_loop] \<and> level s' = INTR_OFF \<and> \<not> in_external_intr s')"
    by (simp add: demo_state_def booted_state_def inited_def blank_def boot_defs Let_def THREAD_MAGIC_def
        idle_rec_def main_thread_def timer_sleep_def timer_ticks_def s64_def)
  then show ?thesis by (auto simp: wp_def demo_sleep_def simp del: step.simps)
qed

definition demo_idle1 :: kstate where
  "demo_idle1 = the (step Resume demo_sleep)"

lemma demo_idle1: "step Resume demo_sleep = Some demo_idle1 \<and> sleep_list demo_idle1 = [(1, 4096)] \<and>
    ticks demo_idle1 = 0 \<and> mlfqs demo_idle1 = False \<and> fr demo_idle1 (cur demo_idle1) = [Set_level INTR_ON, Idle_loop] \<and>
    \<not> in_external_intr demo_idle1"
  using demo_sleep by (simp add: demo_idle1_def resume_def state_defs intr_set_level_def intr_disable_def)

definition demo_idle :: kstate where
  "demo_idle = the (step Resume demo_idle1)"

lemma demo_idle: "step Resume demo_idle1 = Some demo_idle \<and> sleep_list demo_idle = [(1, 4096)] \<and>
    ticks demo_idle = 0 \<and> mlfqs demo_idle = False \<and> level demo_idle = INTR_ON"
  using demo_idle1 by (simp add: demo_idle_def resume_def state_defs intr_set_level_def intr_enable_def)

lemma demo_idle_reachable: "reachable demo_idle"
proof (rule reachable.stepped [of demo_idle1 Resume])
  show "reachable demo_idle1"
  proof (rule reachable.stepped [of demo_sleep Resume])
    show "reachable demo_sleep"
      by (rule reachable.stepped [OF demo_reachable, of "Call (C_timer_sleep 1)"])
        (use demo_sleep in \<open>simp_all add: legal_def demo_sel del: step.simps\<close>)
  qed (use demo_idle1 demo_sleep in \<open>simp_all add: legal_def del: step.simps\<close>)
qed (use demo_idle demo_idle1 in \<open>simp_all add: legal_def del: step.simps\<close>)

theorem tick_wakes_due_witness:
  "\<exists>s'. step Tick demo_idle = Some s' \<and> ticks s' = 1 \<and> sleep_list s' = [] \<and>
    (4096 \<in> set (ready_list s') \<or> 4096 = cur s')"
proof -
  have "legal Tick demo_idle" using demo_idle by (simp add: legal_def)
  from tick_wakes_due [OF demo_idle_reachable this] show ?thesis
    using demo_idle by (auto simp: s64_def simp del: step.simps)
qed

end
