(* ===== verification/Donation.thy ===== *)
theory Donation
  imports Kernel_Theorems
begin

text \<open>
  Priority donation (\<^verbatim>\<open>threads/synch.c\<close>, \<^verbatim>\<open>thread_set_priority\<close>) in all runs of the kernel under the priority scheduler: the donation lists and
  the fields \<^verbatim>\<open>waiting_lock\<close> describe the same relation between waiting threads and lock holders, and the priority of every thread is the
  greatest of its own and those of the threads that wait for its locks.
\<close>

section \<open>What operations leave of the donations\<close>

text \<open>If it returns, the result satisfies \<open>P\<close>.\<close>

definition post :: "'a option \<Rightarrow> ('a \<Rightarrow> bool) \<Rightarrow> bool" where
  "post m P \<longleftrightarrow> (\<forall>x. m = Some x \<longrightarrow> P x)"

lemma post_simps [simp]:
  "post None P" "post (Some x) P \<longleftrightarrow> P x" "post (m \<bind> f) P \<longleftrightarrow> post m (\<lambda>x. post (f x) P)"
  "post (map_option g k) P \<longleftrightarrow> post k (\<lambda>x. P (g x))" "post (ASSERT b) Q \<longleftrightarrow> (b \<longrightarrow> Q ())"
  "post (if b then n else n') P \<longleftrightarrow> (b \<longrightarrow> post n P) \<and> (\<not> b \<longrightarrow> post n' P)"
  by (auto simp: post_def bind_eq_Some_conv ASSERT_def split: if_splits)

lemma post_mono: "post m P \<Longrightarrow> (\<And>x. P x \<Longrightarrow> Q x) \<Longrightarrow> post m Q"
  by (simp add: post_def)

text \<open>Everything about donations is the same, and so are the stacks of all threads outside \<open>C\<close>.\<close>

definition dkeep :: "tptr set \<Rightarrow> kstate \<Rightarrow> kstate \<Rightarrow> bool" where
  "dkeep C s s' \<longleftrightarrow> mlfqs s' = mlfqs s \<and> holder s' = holder s \<and> all_list s' = all_list s \<and>
     (\<forall>t. prio s' t = prio s t \<and> base_priority (threads s' t) = base_priority (threads s t) \<and>
        donations (threads s' t) = donations (threads s t) \<and> waiting_lock (threads s' t) = waiting_lock (threads s t)) \<and>
     (\<forall>t. t \<notin> C \<longrightarrow> fr s' t = fr s t)"

definition dstay :: "kstate \<Rightarrow> kstate \<Rightarrow> bool" where
  "dstay s s' \<longleftrightarrow> dkeep {} s s' \<and> cur s' = cur s \<and> semas s' = semas s"

lemma dkeep_refl [simp]: "dkeep C s s"
  by (simp add: dkeep_def)

lemma dkeep_trans: "dkeep C s t \<Longrightarrow> dkeep D t u \<Longrightarrow> dkeep (C \<union> D) s u"
  by (simp add: dkeep_def)

lemma dkeep_mono: "dkeep C s t \<Longrightarrow> C \<subseteq> D \<Longrightarrow> dkeep D s t"
  by (auto simp: dkeep_def)

lemma dkeep_push [simp]: "cur s \<in> C \<Longrightarrow> dkeep C s (push fs s)"
  by (simp add: dkeep_def state_defs)

lemma post_restore: "post (intr_set_level lev s) (\<lambda>(l, s'). s' = s\<lparr>level := lev\<rparr>)"
  by (cases lev) (auto simp: intr_set_level_def intr_enable_def intr_disable_def post_def Let_def ASSERT_def bind_eq_Some_conv)

lemma schedule_dkeep: "post (schedule s) (dkeep {} s)"
  by (auto simp: schedule_def thread_schedule_tail_def next_thread_to_run_def Let_def state_defs dkeep_def split: list.splits)

lemma post_set_level [simp]:
  "post (intr_set_level lev s) Q \<longleftrightarrow> ((lev = INTR_ON \<longrightarrow> \<not> in_external_intr s) \<longrightarrow> Q (level s, s\<lparr>level := lev\<rparr>))"
  by (cases lev) (auto simp: intr_set_level_def intr_enable_def intr_disable_def state_defs Let_def)

lemma post_enable [simp]: "post (intr_enable s) Q \<longleftrightarrow> (\<not> in_external_intr s \<longrightarrow> Q (level s, s\<lparr>level := INTR_ON\<rparr>))"
  by (auto simp: intr_enable_def state_defs Let_def)

lemma post_current [simp]:
  "post (thread_current s) Q \<longleftrightarrow> (is_thread s (cur s) \<and> st s (cur s) = THREAD_RUNNING \<longrightarrow> Q (cur s))"
  by (auto simp: thread_current_def state_defs Let_def)

lemma post_yield_on_return [simp]:
  "post (intr_yield_on_return s) Q \<longleftrightarrow> (in_external_intr s \<longrightarrow> Q (s\<lparr>yield_on_return := True\<rparr>))"
  by (auto simp: intr_yield_on_return_def state_defs)

lemma thread_yield_dkeep: "post (thread_yield s) (dkeep {} (push [Set_level (level s)] s))"
proof -
  have "post (schedule s1) (dkeep {} (push [Set_level (level s)] s))"
    if "dkeep {} (push [Set_level (level s)] s) s1" for s1
    by (rule post_mono [OF schedule_dkeep]) (use dkeep_trans [OF that] in simp)
  then show ?thesis by (simp add: thread_yield_def Let_def intr_disable_def state_defs dkeep_def)
qed

lemma thread_block_dkeep: "post (thread_block s) (dkeep {} s)"
proof -
  have "post (schedule (set_status c THREAD_BLOCKED s)) (dkeep {} s)" for c
    by (rule post_mono [OF schedule_dkeep]) (simp add: dkeep_def state_defs)
  then show ?thesis by (simp add: thread_block_def)
qed

lemma thread_unblock_dstay: "post (thread_unblock t s) (dstay s)"
  by (simp add: thread_unblock_def intr_disable_def Let_def state_defs dstay_def dkeep_def)

lemma sema_wake_dkeep: "post (sema_wake q s) (\<lambda>s'. dkeep {} s s' \<and> cur s' = cur s \<and> level s' = level s)"
proof -
  have "post (thread_unblock t (set_sema q f s)) (\<lambda>s'. dkeep {} s s' \<and> cur s' = cur s \<and> level s' = level s)" for t f
    by (simp add: thread_unblock_def intr_disable_def Let_def state_defs dkeep_def)
  then show ?thesis by (simp add: sema_wake_def Let_def split: list.splits)
qed

text \<open>\<^verbatim>\<open>sema_up\<close> may give up the processor, which is seen on the stack of the caller only.\<close>

lemma sema_up_dkeep: "post (sema_up q s) (\<lambda>s'. dkeep {cur s} s s' \<and> strip (fr s' (cur s)) = strip (fr s (cur s)))"
proof -
  let ?Q = "\<lambda>s'. dkeep {cur s} s s' \<and> strip (fr s' (cur s)) = strip (fr s (cur s))"
  have fin: "post (if \<not> intr_context s2 then thread_yield (push [Set_level lv] s2) else restore_level lv s2) ?Q"
    if s2: "dkeep {} s s2" "cur s2 = cur s" for s2 lv
  proof -
    have "post (thread_yield (push [Set_level lv] s2)) ?Q"
      by (rule post_mono [OF thread_yield_dkeep]) (use s2 in \<open>auto simp: dkeep_def state_defs\<close>)
    then show ?thesis using s2 by (auto simp: dkeep_def)
  qed
  have "post (sema_wake q (s\<lparr>level := INTR_OFF\<rparr>)) (\<lambda>s1. post
      (let s2 = set_sema q (\<lambda>m. m\<lparr>sema_value := sema_value m + 1\<rparr>) s1
       in if \<not> intr_context s2 then thread_yield (push [Set_level (level s)] s2) else restore_level (level s) s2) ?Q)"
    by (rule post_mono [OF sema_wake_dkeep]) (unfold Let_def, rule fin, auto simp: dkeep_def state_defs)
  then show ?thesis by (simp add: sema_up_def intr_disable_def Let_def state_defs)
qed

lemma sema_loop_dkeep:
  "post (sema_loop q lv k s) (\<lambda>s'. dkeep {cur s} s s' \<and>
     (sema_value (semas s q) = 0 \<longrightarrow> fr s' (cur s) = Sema_loop q lv k # fr s (cur s)))"
proof (cases "sema_value (semas s q) = 0")
  case True
  have "post (thread_block (push [Sema_loop q lv k] (set_sema q f s)))
      (\<lambda>s'. dkeep {cur s} s s' \<and> fr s' (cur s) = Sema_loop q lv k # fr s (cur s))" for f
    by (rule post_mono [OF thread_block_dkeep]) (auto simp: dkeep_def state_defs)
  then show ?thesis using True by (simp add: sema_loop_def Let_def)
next
  case False
  then show ?thesis by (auto simp: sema_loop_def Let_def down_return_def state_defs dkeep_def split: after_down.splits)
qed

lemma sema_down_dkeep:
  "post (sema_down q k s) (\<lambda>s'. dkeep {cur s} s s' \<and>
     (sema_value (semas s q) = 0 \<longrightarrow> fr s' (cur s) = Sema_loop q (level s) k # fr s (cur s)))"
proof -
  have "post (sema_loop q (level s) k (s\<lparr>level := INTR_OFF\<rparr>)) (\<lambda>s'. dkeep {cur s} s s' \<and>
     (sema_value (semas s q) = 0 \<longrightarrow> fr s' (cur s) = Sema_loop q (level s) k # fr s (cur s)))"
    by (rule post_mono [OF sema_loop_dkeep]) (auto simp: dkeep_def)
  then show ?thesis by (simp add: sema_down_def intr_disable_def Let_def state_defs)
qed

lemma dkeep_flags [simp]:
  "dkeep C s (s'\<lparr>yield_on_return := b\<rparr>) = dkeep C s s'" "dkeep C s (s'\<lparr>in_external_intr := b\<rparr>) = dkeep C s s'"
  "dkeep C s (s'\<lparr>level := lv\<rparr>) = dkeep C s s'"
  by (simp_all add: dkeep_def)

lemma post_any: "(\<And>x. P x) \<Longrightarrow> post m P"
  by (simp add: post_def)

lemma cond_signal_dkeep: "post (cond_signal cv l s) (\<lambda>s'. dkeep {cur s} s s')"
proof -
  have "post (sema_up q (s\<lparr>cond_waiters := w\<rparr>)) (\<lambda>s'. dkeep {cur s} s s')" for q w
    by (rule post_mono [OF sema_up_dkeep]) (auto simp: dkeep_def)
  then show ?thesis
    by (auto simp: cond_signal_def lock_held_by_current_thread_def Let_def intro!: post_any split: list.splits)
qed

lemma cond_broadcast_dkeep: "post (cond_broadcast cv l s) (\<lambda>s'. dkeep {cur s} s s')"
proof -
  have "post (cond_signal cv l (push [Broadcast cv l] s)) (\<lambda>s'. dkeep {cur s} s s')"
    by (rule post_mono [OF cond_signal_dkeep]) (auto simp: dkeep_def state_defs)
  then show ?thesis by (simp add: cond_broadcast_def)
qed

lemma yield_if_lower_dkeep: "post (yield_if_lower c lv s) (\<lambda>s'. dkeep {cur s} s s')"
proof -
  have "post (thread_yield (push [Set_level lv] s)) (\<lambda>s'. dkeep {cur s} s s')"
    by (rule post_mono [OF thread_yield_dkeep]) (auto simp: dkeep_def state_defs)
  moreover have "dkeep {cur s} s (s\<lparr>level := lv\<rparr>)" by (simp add: dkeep_def)
  ultimately show ?thesis by (simp add: yield_if_lower_def split: list.splits)
qed

lemma block_dkeep: "dkeep {c} s s1 \<Longrightarrow> post (thread_block s1) (\<lambda>s'. dkeep {c} s s')"
  by (rule post_mono [OF thread_block_dkeep]) (use dkeep_trans in fastforce)

lemma timer_sleep_dkeep: "post (timer_sleep n s) (\<lambda>s'. dkeep {cur s} s s')"
  by (simp add: timer_sleep_def intr_disable_def Let_def, intro impI block_dkeep) (simp add: dkeep_def state_defs)

lemma idle_loop_dkeep: "post (idle_loop s) (\<lambda>s'. dkeep {cur s} s s')"
  by (simp add: idle_loop_def intr_disable_def, intro block_dkeep) (simp add: dkeep_def state_defs)

text \<open>The timer interrupt under the priority scheduler.\<close>

lemma wake_loop_dkeep: "post (wake_loop fs s) (\<lambda>s'. dkeep {} s s' \<and> cur s' = cur s)"
proof (induction fs arbitrary: s)
  case (Cons f fs)
  have step: "post (wake_loop fs s1) (\<lambda>s'. dkeep {} s s' \<and> cur s' = cur s)" if "dkeep {} s s1" "cur s1 = cur s" for s1
    by (rule post_mono [OF Cons.IH]) (use that in \<open>auto simp: dkeep_def\<close>)
  have "post (thread_unblock (snd f) (s\<lparr>sleep_list := fs\<rparr>)) (\<lambda>s1. dkeep {} s s1 \<and> cur s1 = cur s)"
    by (rule post_mono [OF thread_unblock_dstay]) (auto simp: dstay_def dkeep_def)
  then have "post (thread_unblock (snd f) (s\<lparr>sleep_list := fs\<rparr>)) (\<lambda>s1. is_thread s1 (cur s1) \<and> st s1 (cur s1) = THREAD_RUNNING \<longrightarrow>
      post (if prio s1 (snd f) > prio s1 (cur s1) then intr_yield_on_return s1 else Some s1)
        (\<lambda>s2. post (wake_loop fs s2) (\<lambda>s'. dkeep {} s s' \<and> cur s' = cur s)))"
    by (rule post_mono) (simp add: step)
  then show ?case by (simp add: Let_def)
qed simp

lemma timer_interrupt_dkeep:
  assumes "\<not> mlfqs s"
  shows "post (timer_interrupt s) (\<lambda>s'. dkeep {} s s' \<and> cur s' = cur s)"
proof -
  have "post (wake_loop fs (s\<lparr>ticks := n\<rparr>)) (\<lambda>s1. post (if mlfqs s1 then mlfqs_tick s1 else Some s1)
      (\<lambda>s2. post (thread_tick s2) (\<lambda>s'. dkeep {} s s' \<and> cur s' = cur s)))" for fs n
    by (rule post_mono [OF wake_loop_dkeep]) (use assms in \<open>auto simp: dkeep_def thread_tick_def Let_def\<close>)
  then show ?thesis by (simp add: timer_interrupt_def Let_def)
qed

lemma interrupt_dkeep:
  assumes "\<And>s1. mlfqs s1 = mlfqs s \<Longrightarrow> in_external_intr s1 \<Longrightarrow> post (handler s1) (\<lambda>s'. dkeep {cur s1} s1 s' \<and> strip (fr s' (cur s1)) = strip (fr s1 (cur s1)) \<and> cur s' = cur s1)"
  shows "post (interrupt handler s) (\<lambda>s'. dkeep {cur s} s s' \<and> strip (fr s' (cur s)) = strip (fr s (cur s)))"
proof -
  let ?Q = "\<lambda>s'. dkeep {cur s} s s' \<and> strip (fr s' (cur s)) = strip (fr s (cur s))"
  let ?s = "(push [Iret] (s\<lparr>level := INTR_OFF\<rparr>))\<lparr>in_external_intr := True, yield_on_return := False\<rparr>"
  have y: "post (if b then thread_yield (s1\<lparr>in_external_intr := False\<rparr>) else Some (s1\<lparr>in_external_intr := False\<rparr>)) ?Q"
    if "?Q s1" "cur s1 = cur s" for s1 b
  proof -
    have "post (thread_yield (s1\<lparr>in_external_intr := False\<rparr>)) ?Q"
      by (rule post_mono [OF thread_yield_dkeep]) (use that in \<open>auto simp: dkeep_def state_defs\<close>)
    then show ?thesis using that by (simp add: dkeep_def)
  qed
  have h: "post (handler ?s) (\<lambda>s'. ?Q s' \<and> cur s' = cur s)"
    by (rule post_mono [OF assms]) (auto simp: state_defs dkeep_def)
  have "post (handler ?s) (\<lambda>s1. level s1 = INTR_OFF \<longrightarrow> in_external_intr s1 \<longrightarrow>
      post (if yield_on_return s1 then thread_yield (s1\<lparr>in_external_intr := False\<rparr>) else Some (s1\<lparr>in_external_intr := False\<rparr>)) ?Q)"
    by (rule post_mono [OF h]) (use y in blast)
  then show ?thesis by (simp add: interrupt_def intr_handler_ext_def Let_def state_defs)
qed

section \<open>The invariant\<close>

text \<open>The lock that a thread is about to get: it is in the middle of \<^verbatim>\<open>lock_acquire\<close>, before the semaphore.\<close>

definition acquiring :: "frame list \<Rightarrow> addr option" where
  "acquiring fs = (case fs of Sema_down (Lock_Sema _) (Take l) # _ \<Rightarrow> Some l | Sema_loop (Lock_Sema _) _ (Take l) # _ \<Rightarrow> Some l | _ \<Rightarrow> None)"

definition waits_ok :: "kstate \<Rightarrow> bool" where
  "waits_ok s \<longleftrightarrow> (\<forall>t. waiting_lock (threads s t) \<noteq> NULL \<longrightarrow>
     t \<in> set (all_list s) \<and> acquiring (strip (fr s t)) = Some (waiting_lock (threads s t)))"

text \<open>The donation lists are the inverse of the fields \<^verbatim>\<open>waiting_lock\<close>.\<close>

definition donations_ok :: "kstate \<Rightarrow> bool" where
  "donations_ok s \<longleftrightarrow>
     (\<forall>t. waiting_lock (threads s t) \<noteq> NULL \<longrightarrow> holder s (waiting_lock (threads s t)) \<noteq> NULL \<and>
        (waiting_lock (threads s t), t) \<in> set (donations (threads s (holder s (waiting_lock (threads s t)))))) \<and>
     (\<forall>t l d. (l, d) \<in> set (donations (threads s t)) \<longrightarrow> l \<noteq> NULL \<and> waiting_lock (threads s d) = l \<and> holder s l = t)"

definition effective :: "kstate \<Rightarrow> tptr \<Rightarrow> bool" where
  "effective s t \<longleftrightarrow> prio s t = max_donation s (base_priority (threads s t)) (donations (threads s t))"

definition don_inv :: "kstate \<Rightarrow> bool" where
  "don_inv s \<longleftrightarrow> \<not> mlfqs s \<and> donations_ok s \<and> (\<forall>t. effective s t) \<and> waits_ok s"

lemma acquiring_simps [simp]:
  "acquiring [] = None" "acquiring (Sema_down (Lock_Sema l') (Take l) # fs) = Some l" "acquiring (Sema_loop (Lock_Sema l') lv (Take l) # fs) = Some l"
  by (simp_all add: acquiring_def)

lemma acquiring_Some:
  "acquiring fs = Some l \<longleftrightarrow> (\<exists>l' lv gs. fs = Sema_down (Lock_Sema l') (Take l) # gs \<or> fs = Sema_loop (Lock_Sema l') lv (Take l) # gs)"
  by (auto simp: acquiring_def split: list.splits frame.splits sref.splits after_down.splits)

lemma max_donation_cong: "(\<And>l d. (l, d) \<in> set ds \<Longrightarrow> prio s' d = prio s d) \<Longrightarrow> max_donation s' b ds = max_donation s b ds"
  unfolding max_donation_def by (rule foldl_cong) auto

lemma effective_cong:
  assumes "prio s' t = prio s t" "base_priority (threads s' t) = base_priority (threads s t)" "donations (threads s' t) = donations (threads s t)"
    "\<And>l d. (l, d) \<in> set (donations (threads s t)) \<Longrightarrow> prio s' d = prio s d"
  shows "effective s' t = effective s t"
  using max_donation_cong [of "donations (threads s t)" s' s] assms by (simp add: effective_def)

lemma don_inv_dkeep:
  assumes inv: "don_inv s" and k: "dkeep C s s'"
    and C: "\<And>c. c \<in> C \<Longrightarrow> waiting_lock (threads s c) \<noteq> NULL \<Longrightarrow> acquiring (strip (fr s' c)) = Some (waiting_lock (threads s c))"
  shows "don_inv s'"
proof -
  have "effective s' t = effective s t" for t using k by (intro effective_cong) (simp_all add: dkeep_def)
  moreover have "donations_ok s' = donations_ok s" using k by (simp add: donations_ok_def dkeep_def)
  moreover have "waits_ok s'" unfolding waits_ok_def
  proof (intro allI impI)
    fix t assume "waiting_lock (threads s' t) \<noteq> NULL"
    then have t: "waiting_lock (threads s t) \<noteq> NULL" using k by (simp add: dkeep_def)
    then have "t \<in> set (all_list s)" "acquiring (strip (fr s t)) = Some (waiting_lock (threads s t))"
      using inv by (auto simp: don_inv_def waits_ok_def)
    then show "t \<in> set (all_list s') \<and> acquiring (strip (fr s' t)) = Some (waiting_lock (threads s' t))"
      using k C [OF _ t] by (cases "t \<in> C") (simp_all add: dkeep_def)
  qed
  ultimately show ?thesis using inv k by (simp add: don_inv_def dkeep_def)
qed

section \<open>Donation along the chain of holders\<close>

lemma donations_ok_cong:
  assumes "holder s' = holder s" "\<And>t. donations (threads s' t) = donations (threads s t)" "\<And>t. waiting_lock (threads s' t) = waiting_lock (threads s t)"
  shows "donations_ok s' = donations_ok s"
  using assms by (simp add: donations_ok_def)

lemma donations_okD:
  assumes "donations_ok s"
  shows "waiting_lock (threads s t) \<noteq> NULL \<Longrightarrow> holder s (waiting_lock (threads s t)) \<noteq> NULL"
    "waiting_lock (threads s t) \<noteq> NULL \<Longrightarrow> (waiting_lock (threads s t), t) \<in> set (donations (threads s (holder s (waiting_lock (threads s t)))))"
    "(l, d) \<in> set (donations (threads s t)) \<Longrightarrow> l \<noteq> NULL \<and> waiting_lock (threads s d) = l \<and> holder s l = t"
  using assms by (auto simp: donations_ok_def)

lemma prio_update_sel [simp]:
  "base_priority (threads (donate_priority_update t s) u) = base_priority (threads s u)"
  "donations (threads (donate_priority_update t s) u) = donations (threads s u)"
  "waiting_lock (threads (donate_priority_update t s) u) = waiting_lock (threads s u)"
  "holder (donate_priority_update t s) = holder s"
  "prio (donate_priority_update t s) u = (if u = t then max_donation s (base_priority (threads s t)) (donations (threads s t)) else prio s u)"
  by (simp_all add: donate_priority_update_def)

text \<open>One round: afterwards only the holder of the lock that \<open>t\<close> waits for may have a priority that is out of date.\<close>

lemma prio_update_effective:
  assumes d: "donations_ok s" and e: "\<And>u. u \<noteq> t \<Longrightarrow> effective s u"
    and u: "waiting_lock (threads s t) = NULL \<or> u \<noteq> holder s (waiting_lock (threads s t))"
  shows "effective (donate_priority_update t s) u"
proof -
  let ?s = "donate_priority_update t s"
  have "prio ?s dn = prio s dn" if "(l, dn) \<in> set (donations (threads s u))" for l dn
  proof -
    have "dn \<noteq> t" using donations_okD(3) [OF d that] u by auto
    then show ?thesis by simp
  qed
  then have m: "max_donation ?s b (donations (threads s u)) = max_donation s b (donations (threads s u))" for b
    by (rule max_donation_cong)
  show ?thesis
  proof (cases "u = t")
    case True
    then show ?thesis using m by (simp add: effective_def)
  next
    case False
    then show ?thesis using m e [OF False] by (simp add: effective_def)
  qed
qed

text \<open>Priorities may differ, nothing else about donations does.\<close>

definition dlike :: "kstate \<Rightarrow> kstate \<Rightarrow> bool" where
  "dlike s s' \<longleftrightarrow> (\<forall>u. donations (threads s' u) = donations (threads s u) \<and> waiting_lock (threads s' u) = waiting_lock (threads s u) \<and>
     base_priority (threads s' u) = base_priority (threads s u))"

lemma donate_chain_effective:
  "donate_chain t s = Some s' \<Longrightarrow> t \<noteq> NULL \<longrightarrow> donations_ok s \<longrightarrow> (\<forall>u. u \<noteq> t \<longrightarrow> effective s u) \<longrightarrow> (\<forall>u. effective s' u) \<and> dlike s s'"
proof (induction rule: donate_chain.raw_induct [where P = "\<lambda>t s s'. t \<noteq> NULL \<longrightarrow> donations_ok s \<longrightarrow> (\<forall>u. u \<noteq> t \<longrightarrow> effective s u) \<longrightarrow>
    (\<forall>u. effective s' u) \<and> dlike s s'", rotated 1, consumes 1])
  case (1 f t s s')
  show ?case
  proof (intro impI)
    assume t: "t \<noteq> NULL" and d: "donations_ok s" and e: "\<forall>u. u \<noteq> t \<longrightarrow> effective s u"
    let ?s = "donate_priority_update t s" and ?w = "waiting_lock (threads s t)"
    have ok: "donations_ok ?s" using d donations_ok_cong [of ?s s] by simp
    note eff = prio_update_effective [OF d, of t]
    show "(\<forall>u. effective s' u) \<and> dlike s s'"
    proof (cases "?w = NULL")
      case True
      then have "s' = ?s" using 1(2) t by (simp add: Let_def)
      then show ?thesis using eff True e by (simp add: dlike_def)
    next
      case False
      then have "f (holder s ?w) ?s = Some s'" using 1(2) t by (simp add: Let_def)
      from 1(1) [OF this] show ?thesis using ok donations_okD(1) [OF d False] eff e by (auto simp: dlike_def)
    qed
  qed
qed

section \<open>Locks\<close>

lemma not_waiting: "don_inv s \<Longrightarrow> acquiring (strip (fr s t)) = None \<Longrightarrow> waiting_lock (threads s t) = NULL"
  by (auto simp: don_inv_def waits_ok_def)

lemma don_invD:
  assumes "don_inv s"
  shows "\<not> mlfqs s" "donations_ok s" "effective s t" "waits_ok s"
  using assms by (auto simp: don_inv_def)

text \<open>The registration of a donor.\<close>

definition add_donor :: "addr \<Rightarrow> tptr \<Rightarrow> kstate \<Rightarrow> kstate" where
  "add_donor l c s = (let s1 = upd c (\<lambda>th. th\<lparr>waiting_lock := l\<rparr>) s in
     upd (holder s l) (\<lambda>th. th\<lparr>donations := insert_ordered (donor_priority_greater s1) (l, c) (donations th)\<rparr>) s1)"

lemma add_donor_sel:
  "set (donations (threads (add_donor l c s) t)) = (if t = holder s l then insert (l, c) (set (donations (threads s t))) else set (donations (threads s t)))"
  "t \<noteq> holder s l \<Longrightarrow> donations (threads (add_donor l c s) t) = donations (threads s t)"
  "waiting_lock (threads (add_donor l c s) t) = (if t = c then l else waiting_lock (threads s t))"
  "base_priority (threads (add_donor l c s) t) = base_priority (threads s t)"
  "prio (add_donor l c s) t = prio s t" "holder (add_donor l c s) = holder s" "fr (add_donor l c s) t = fr s t"
  by (auto simp: add_donor_def Let_def)

lemma add_donor_ok:
  assumes d: "donations_ok s" and w: "waiting_lock (threads s c) = NULL" and h: "holder s l \<noteq> NULL" "l \<noteq> NULL"
  shows "donations_ok (add_donor l c s)"
  unfolding donations_ok_def
proof (intro conjI allI impI)
  fix t assume t: "waiting_lock (threads (add_donor l c s) t) \<noteq> NULL"
  then show "holder (add_donor l c s) (waiting_lock (threads (add_donor l c s) t)) \<noteq> NULL"
    using h donations_okD(1) [OF d, of t] by (simp add: add_donor_sel split: if_splits)
  show "(waiting_lock (threads (add_donor l c s) t), t)
      \<in> set (donations (threads (add_donor l c s) (holder (add_donor l c s) (waiting_lock (threads (add_donor l c s) t)))))"
    using t donations_okD(2) [OF d, of t] by (auto simp: add_donor_sel split: if_splits)
next
  fix t l' dn assume "(l', dn) \<in> set (donations (threads (add_donor l c s) t))"
  then have "(l', dn) = (l, c) \<and> t = holder s l \<or> (l', dn) \<in> set (donations (threads s t))"
    by (auto simp: add_donor_sel split: if_splits)
  then show "l' \<noteq> NULL" "waiting_lock (threads (add_donor l c s) dn) = l'" "holder (add_donor l c s) l' = t"
    using donations_okD(3) [OF d, of l' dn t] w h by (auto simp: add_donor_sel)
qed

lemma add_donor_effective:
  assumes "effective s u" "u \<noteq> holder s l"
  shows "effective (add_donor l c s) u"
proof -
  have "effective (add_donor l c s) u = effective s u"
    by (rule effective_cong) (use assms(2) in \<open>simp_all add: add_donor_sel\<close>)
  with assms(1) show ?thesis by simp
qed

lemma lock_donate_don:
  assumes inv: "donations_ok s" "\<And>t. effective s t" "\<not> mlfqs s" and w: "waiting_lock (threads s (cur s)) = NULL" and l: "l \<noteq> NULL"
  shows "post (lock_donate l s) (\<lambda>s'. dsame s s' \<and> donations_ok s' \<and> (\<forall>t. effective s' t) \<and>
     (\<forall>t. waiting_lock (threads s' t) = waiting_lock (threads s t) \<or> t = cur s \<and> waiting_lock (threads s' t) = l))"
proof (cases "holder s l = NULL")
  case True
  then show ?thesis using inv by (auto simp: lock_donate_def)
next
  case False
  let ?s = "add_donor l (cur s) s"
  have ok: "donations_ok ?s" using add_donor_ok [OF inv(1) w False l] .
  have "dsame s s' \<and> donations_ok s' \<and> (\<forall>t. effective s' t) \<and>
     (\<forall>t. waiting_lock (threads s' t) = waiting_lock (threads s t) \<or> t = cur s \<and> waiting_lock (threads s' t) = l)"
    if s': "donate_chain (holder s l) ?s = Some s'" for s'
  proof -
    have e: "\<forall>t. effective s' t" and k: "dlike ?s s'"
      using donate_chain_effective [OF s'] False ok add_donor_effective [OF inv(2)] by blast+
    have "dsame s ?s" unfolding add_donor_def Let_def by (rule dsame_trans [OF dsame_upd(2) dsame_upd(1)])
    then have ds: "dsame s s'" using dsame_chain [OF s'] by (rule dsame_trans)
    have "donations_ok s'" using donations_ok_cong [of s' ?s] ok k dsame_sel(6) [OF ds] by (simp add: dlike_def add_donor_sel)
    then show ?thesis using e ds k by (auto simp: dlike_def add_donor_sel)
  qed
  then have "post (donate_chain (holder s l) ?s) (\<lambda>s'. dsame s s' \<and> donations_ok s' \<and> (\<forall>t. effective s' t) \<and>
     (\<forall>t. waiting_lock (threads s' t) = waiting_lock (threads s t) \<or> t = cur s \<and> waiting_lock (threads s' t) = l))"
    unfolding post_def by blast
  then show ?thesis using False inv(3) by (simp add: lock_donate_def Let_def add_donor_def)
qed

lemma lock_acquire_don:
  assumes inv: "don_inv s" and w: "waiting_lock (threads s (cur s)) = NULL" and c: "cur s \<in> set (all_list s)"
  shows "post (lock_acquire l s) don_inv"
proof -
  let ?s = "s\<lparr>level := INTR_OFF\<rparr>"
  have don: "don_inv ?s" by (rule don_inv_dkeep [OF inv, of "{}"]) simp_all
  have fin: "don_inv (push [Sema_down (Lock_Sema l) (Take l)] (s1\<lparr>level := lv\<rparr>))"
    if s1: "dsame ?s s1" "donations_ok s1" "\<forall>t. effective s1 t"
      "\<forall>t. waiting_lock (threads s1 t) = waiting_lock (threads s t) \<or> t = cur s \<and> waiting_lock (threads s1 t) = l" for s1 lv
  proof -
    note D = dsame_sel [OF s1(1), simplified]
    let ?s2 = "push [Sema_down (Lock_Sema l) (Take l)] (s1\<lparr>level := lv\<rparr>)"
    have "donations_ok ?s2 = donations_ok s1" by (rule donations_ok_cong) (simp_all add: state_defs)
    moreover have "effective ?s2 t = effective s1 t" for t by (rule effective_cong) (simp_all add: state_defs)
    moreover have "waits_ok ?s2" unfolding waits_ok_def
    proof (intro allI impI)
      fix t assume "waiting_lock (threads ?s2 t) \<noteq> NULL"
      then have n: "waiting_lock (threads s1 t) \<noteq> NULL" by (simp add: state_defs split: if_splits)
      show "t \<in> set (all_list ?s2) \<and> acquiring (strip (fr ?s2 t)) = Some (waiting_lock (threads ?s2 t))"
      proof (cases "t = cur s")
        case True
        then have "waiting_lock (threads s1 t) = l" using spec [OF s1(4), of "cur s"] w n by auto
        then show ?thesis using True c by (simp add: state_defs D)
      next
        case False
        then have "waiting_lock (threads s1 t) = waiting_lock (threads s t)" using s1(4) by blast
        then show ?thesis using False n don_invD(4) [OF inv] by (simp add: state_defs D waits_ok_def)
      qed
    qed
    ultimately show ?thesis using s1(2,3) don_invD(1) [OF inv] by (simp add: don_inv_def state_defs D)
  qed
  have "l \<noteq> NULL \<Longrightarrow> post (lock_donate l ?s) (\<lambda>s'. dsame ?s s' \<and> donations_ok s' \<and> (\<forall>t. effective s' t) \<and>
     (\<forall>t. waiting_lock (threads s' t) = waiting_lock (threads s t) \<or> t = cur s \<and> waiting_lock (threads s' t) = l))"
    using lock_donate_don [of ?s l] don_invD [OF don] w by simp
  then have "l \<noteq> NULL \<Longrightarrow> post (lock_donate l ?s) (\<lambda>s1. don_inv (push [Sema_down (Lock_Sema l) (Take l)] (s1\<lparr>level := level s\<rparr>)))"
    by (rule post_mono) (blast, rule fin, blast+)
  then show ?thesis
    by (auto simp: lock_acquire_def lock_held_by_current_thread_def intr_disable_def state_defs Let_def elim!: post_mono)
qed

text \<open>Nobody waits for a lock that has no holder.\<close>

lemma set_holder_don:
  assumes inv: "don_inv s" and h: "holder s l = NULL"
  shows "don_inv (s\<lparr>holder := (holder s)(l := c)\<rparr>)"
proof -
  let ?s = "s\<lparr>holder := (holder s)(l := c)\<rparr>"
  have n: "waiting_lock (threads s t) \<noteq> l" if "waiting_lock (threads s t) \<noteq> NULL" for t
    using donations_okD(1) [OF don_invD(2) [OF inv] that] h by auto
  have "l' \<noteq> l" if "(l', d) \<in> set (donations (threads s t))" for l' d t
    using donations_okD(3) [OF don_invD(2) [OF inv] that] n [of d] by auto
  then have "donations_ok ?s"
    using don_invD(2) [OF inv] n unfolding donations_ok_def by auto
  moreover have "effective ?s t = effective s t" for t by (rule effective_cong) simp_all
  ultimately show ?thesis using inv by (simp add: don_inv_def waits_ok_def)
qed

lemma drop_donations_sel:
  "donations (threads (drop_donations l c des s) t) =
     (if t = c then fold remove1 (filter (\<lambda>de. fst de = l) des) (donations (threads s c)) else donations (threads s t))"
  "waiting_lock (threads (drop_donations l c des s) t) =
     (if (l, t) \<in> set des \<and> waiting_lock (threads s t) = l then NULL else waiting_lock (threads s t))"
  "base_priority (threads (drop_donations l c des s) t) = base_priority (threads s t)"
  "prio (drop_donations l c des s) t = prio s t"
  by (induction des arbitrary: s) (auto simp: Let_def split: if_splits)

lemma fold_remove1_filter: "fold remove1 (filter P xs) xs = filter (\<lambda>x. \<not> P x) xs"
proof (induction xs)
  case (Cons x xs)
  have "fold remove1 (filter P xs) (x # xs) = x # fold remove1 (filter P xs) xs" if "\<not> P x"
  proof -
    have "fold remove1 ys (x # zs) = x # fold remove1 ys zs" if "x \<notin> set ys" for ys zs
      using that by (induction ys arbitrary: zs) auto
    then show ?thesis using that by simp
  qed
  then show ?case using Cons by simp
qed simp

text \<open>\<^verbatim>\<open>lock_release\<close> takes all donations for the lock off the list and forgets what they gave.\<close>

lemma lock_undonate_sel:
  assumes "\<not> mlfqs s"
  shows "donations (threads (lock_undonate l c s) t) =
      (if t = c then filter (\<lambda>de. fst de \<noteq> l) (donations (threads s c)) else donations (threads s t))"
    "waiting_lock (threads (lock_undonate l c s) t) =
      (if (l, t) \<in> set (donations (threads s c)) \<and> waiting_lock (threads s t) = l then NULL else waiting_lock (threads s t))"
    "base_priority (threads (lock_undonate l c s) t) = base_priority (threads s t)"
    "prio (lock_undonate l c s) t =
      (if t = c then max_donation s (base_priority (threads s c)) (filter (\<lambda>de. fst de \<noteq> l) (donations (threads s c))) else prio s t)"
proof -
  have m: "max_donation (drop_donations l c des s) b ds = max_donation s b ds" for des b ds
    by (rule max_donation_cong) (simp add: drop_donations_sel)
  show "donations (threads (lock_undonate l c s) t) =
      (if t = c then filter (\<lambda>de. fst de \<noteq> l) (donations (threads s c)) else donations (threads s t))"
    "waiting_lock (threads (lock_undonate l c s) t) =
      (if (l, t) \<in> set (donations (threads s c)) \<and> waiting_lock (threads s t) = l then NULL else waiting_lock (threads s t))"
    "base_priority (threads (lock_undonate l c s) t) = base_priority (threads s t)"
    "prio (lock_undonate l c s) t =
      (if t = c then max_donation s (base_priority (threads s c)) (filter (\<lambda>de. fst de \<noteq> l) (donations (threads s c))) else prio s t)"
    using assms by (simp_all add: lock_undonate_def drop_donations_sel fold_remove1_filter m)
qed

lemma released_ok:
  assumes inv: "don_inv s" and w: "waiting_lock (threads s c) = NULL" and h: "holder s l = c"
  shows "donations_ok ((lock_undonate l c s)\<lparr>holder := (holder s)(l := NULL)\<rparr>)" (is "donations_ok ?s")
    "effective ((lock_undonate l c s)\<lparr>holder := (holder s)(l := NULL)\<rparr>) t"
proof -
  note I = don_invD [OF inv] and D = donations_okD [OF don_invD(2) [OF inv]]
  note sel = lock_undonate_sel [OF I(1), of l c]
  have wl: "waiting_lock (threads (lock_undonate l c s) t) = (if waiting_lock (threads s t) = l then NULL else waiting_lock (threads s t))" for t
    using D(2) [of t] h by (cases "waiting_lock (threads s t) = l") (auto simp: sel)
  have ds: "(l', d) \<in> set (donations (threads (lock_undonate l c s) t)) \<longleftrightarrow> (l', d) \<in> set (donations (threads s t)) \<and> l' \<noteq> l" for l' d t
    using D(3) [of l' d t] h by (auto simp: sel)
  show "donations_ok ?s" unfolding donations_ok_def
  proof (intro conjI allI impI)
    fix t assume t: "waiting_lock (threads ?s t) \<noteq> NULL"
    then have n: "waiting_lock (threads s t) \<noteq> NULL" "waiting_lock (threads s t) \<noteq> l" using wl [of t] by (auto split: if_splits)
    then show "holder ?s (waiting_lock (threads ?s t)) \<noteq> NULL"
      "(waiting_lock (threads ?s t), t) \<in> set (donations (threads ?s (holder ?s (waiting_lock (threads ?s t)))))"
      using D(1,2) [OF n(1)] wl [of t] by (auto simp: ds)
  next
    fix t l' d assume "(l', d) \<in> set (donations (threads ?s t))"
    then show "l' \<noteq> NULL" "waiting_lock (threads ?s d) = l'" "holder ?s l' = t" using D(3) [of l' d t] wl [of d] by (auto simp: ds)
  qed
  have "d \<noteq> c" if "(l', d) \<in> set (donations (threads s t))" for l' d using D(3) [OF that] w by auto
  then have "max_donation ?s b (donations (threads ?s t)) = max_donation s b (donations (threads ?s t))" for b
    by (intro max_donation_cong) (use ds in \<open>auto simp: sel\<close>)
  then show "effective ?s t" using I(3) [of t] by (simp add: effective_def sel)
qed

lemma lock_release_don:
  assumes inv: "don_inv s" and w: "waiting_lock (threads s (cur s)) = NULL"
  shows "post (lock_release l s) don_inv"
proof -
  let ?s = "s\<lparr>level := INTR_OFF\<rparr>"
  let ?s1 = "lock_undonate l (cur s) ?s"
  let ?s2 = "push [Sema_up (Lock_Sema l)] (?s1\<lparr>holder := (holder ?s)(l := NULL), level := level s\<rparr>)"
  have don: "don_inv ?s" by (rule don_inv_dkeep [OF inv, of "{}"]) simp_all
  have ds: "dsame ?s ?s1"
    unfolding lock_undonate_def using dsame_trans [OF dsame_drop dsame_priority_update] by auto
  note D = dsame_sel [OF ds, simplified]
  have "don_inv ?s2" if h: "holder s l = cur s"
  proof -
    let ?r = "?s1\<lparr>holder := (holder ?s)(l := NULL)\<rparr>"
    have r: "donations_ok ?r" "effective ?r t" for t using released_ok [OF don, of "cur s" l] w h by auto
    have "donations_ok ?s2 = donations_ok ?r" by (rule donations_ok_cong) (simp_all add: state_defs)
    moreover have "effective ?s2 t = effective ?r t" for t by (rule effective_cong) (simp_all add: state_defs)
    moreover have "waits_ok ?s2" unfolding waits_ok_def
    proof (intro allI impI)
      fix t assume "waiting_lock (threads ?s2 t) \<noteq> NULL"
      then have n: "waiting_lock (threads s t) \<noteq> NULL" "waiting_lock (threads ?s2 t) = waiting_lock (threads s t)"
        using lock_undonate_sel(2) [OF don_invD(1) [OF don], of l "cur s" t] by (auto simp: state_defs split: if_splits)
      moreover have "t \<noteq> cur s" using n w by auto
      ultimately show "t \<in> set (all_list ?s2) \<and> acquiring (strip (fr ?s2 t)) = Some (waiting_lock (threads ?s2 t))"
        using don_invD(4) [OF inv] by (simp add: state_defs D waits_ok_def)
    qed
    ultimately show ?thesis using r don_invD(1) [OF inv] by (simp add: don_inv_def state_defs D)
  qed
  then show ?thesis
    by (auto simp: lock_release_def lock_held_by_current_thread_def intr_disable_def state_defs Let_def D)
qed

section \<open>Calls and return points\<close>

text \<open>An operation that keeps the donations and whose caller waits for no lock.\<close>

lemma don_inv_self:
  assumes "don_inv s" "dkeep {cur s} s s'" "waiting_lock (threads s (cur s)) = NULL"
  shows "don_inv s'"
  by (rule don_inv_dkeep [OF assms(1,2)]) (use assms(3) in auto)

lemma post_self:
  assumes "don_inv s" "waiting_lock (threads s (cur s)) = NULL" "post m (\<lambda>s'. dkeep {cur s} s s')"
  shows "post m don_inv"
  by (rule post_mono [OF assms(3)]) (rule don_inv_self [OF assms(1) _ assms(2)])

lemma schedule_don: "don_inv s \<Longrightarrow> post (schedule s) don_inv"
  by (rule post_mono [OF schedule_dkeep]) (rule don_inv_dkeep, auto)

lemma waiting_push [simp]:
  "waiting_lock (threads (push gs s) t) = waiting_lock (threads s t)" "cur (push gs s) = cur s" "all_list (push gs s) = all_list s"
  by (simp_all add: state_defs)

lemma cond_wait_don:
  assumes inv: "don_inv s" and w: "waiting_lock (threads s (cur s)) = NULL"
  shows "post (cond_wait cv l s) don_inv"
proof -
  have "post (lock_release l (push gs (s\<lparr>semas := q, cond_waiters := cw\<rparr>))) don_inv" for cw q gs
    by (rule lock_release_don) (rule don_inv_self [OF inv], use w in \<open>simp_all add: dkeep_def state_defs\<close>)
  then show ?thesis
    by (auto simp: cond_wait_def lock_held_by_current_thread_def Let_def sema_init_def set_sema_def)
qed

lemma thread_exit_don:
  assumes inv: "don_inv s" and w: "waiting_lock (threads s (cur s)) = NULL"
  shows "post (thread_exit s) don_inv"
proof -
  let ?s = "set_status (cur s) THREAD_DYING (s\<lparr>level := INTR_OFF, all_list := remove1 (cur s) (all_list s)\<rparr>)"
  have "waits_ok ?s" using don_invD(4) [OF inv] w by (auto simp: waits_ok_def state_defs)
  moreover have "donations_ok ?s = donations_ok s" by (rule donations_ok_cong) (simp_all add: state_defs)
  moreover have "effective ?s t = effective s t" for t by (rule effective_cong) (simp_all add: state_defs)
  ultimately have "don_inv ?s" using inv by (simp add: don_inv_def state_defs)
  then show ?thesis using schedule_don by (simp add: thread_exit_def intr_disable_def Let_def)
qed

lemma set_priority_don:
  assumes inv: "don_inv s" and w: "waiting_lock (threads s (cur s)) = NULL"
  shows "post (thread_set_priority p s) don_inv"
proof -
  let ?s1 = "upd (cur s) (\<lambda>th. th\<lparr>base_priority := p\<rparr>) (s\<lparr>level := INTR_OFF\<rparr>)"
  let ?s = "donate_priority_update (cur s) ?s1"
  note I = don_invD [OF inv]
  have d: "donations_ok ?s1" using I(2) donations_ok_cong [of ?s1 s] by simp
  have "effective ?s1 u = effective s u" if "u \<noteq> cur s" for u by (rule effective_cong) (use that in simp_all)
  then have "effective ?s u" for u
    by (intro prio_update_effective [OF d]) (use I(3) w in simp_all)
  moreover have "donations_ok ?s" using d donations_ok_cong [of ?s ?s1] by simp
  moreover have "waits_ok ?s" using I(4) by (simp add: waits_ok_def donate_priority_update_def)
  ultimately have don: "don_inv ?s" using I(1) by (simp add: don_inv_def donate_priority_update_def)
  have "post (yield_if_lower c lv ?s) don_inv" for c lv
    by (rule post_self [OF don _ yield_if_lower_dkeep]) (use w in \<open>simp add: donate_priority_update_def\<close>)
  then show ?thesis using I(1) by (simp add: thread_set_priority_def intr_disable_def Let_def)
qed

text \<open>A page that is no thread has no part in a donation.\<close>

lemma stranger:
  assumes inv: "don_inv s" and lk: "locks_ok s" and p: "page \<notin> set (all_list s)" "page \<noteq> NULL"
  shows "waiting_lock (threads s page) = NULL" "donations (threads s page) = []" "(l, page) \<notin> set (donations (threads s t))"
proof -
  note D = donations_okD(3) [OF don_invD(2) [OF inv]]
  show w: "waiting_lock (threads s page) = NULL" using don_invD(4) [OF inv] p by (auto simp: waits_ok_def)
  have "(l, d) \<notin> set (donations (threads s page))" for l d
  proof
    assume "(l, d) \<in> set (donations (threads s page))"
    then have "holder s l = page" using D by blast
    then show False using lk p by (auto simp: locks_ok_def)
  qed
  then show "donations (threads s page) = []" by (metis list.set_intros(1) neq_Nil_conv surj_pair)
  show "(l, page) \<notin> set (donations (threads s t))" using D [of l page t] w by auto
qed

lemma new_thread_don:
  assumes inv: "don_inv s" and lk: "locks_ok s" and p: "page \<notin> set (all_list s)" "page \<noteq> NULL"
    and th: "donations th = []" "waiting_lock th = NULL" "priority th = base_priority th"
  shows "don_inv (s\<lparr>threads := (threads s)(page := th), all_list := all_list s @ [page]\<rparr>)" (is "don_inv ?s")
proof -
  note S = stranger [OF inv lk p]
  have "donations_ok ?s" unfolding donations_ok_def
  proof (intro conjI allI impI)
    fix t assume t: "waiting_lock (threads ?s t) \<noteq> NULL"
    then have "t \<noteq> page" "waiting_lock (threads s t) \<noteq> NULL" using th(2) by (auto split: if_splits)
    then show "holder ?s (waiting_lock (threads ?s t)) \<noteq> NULL"
      "(waiting_lock (threads ?s t), t) \<in> set (donations (threads ?s (holder ?s (waiting_lock (threads ?s t)))))"
      using donations_okD(1,2) [OF don_invD(2) [OF inv], of t] S(2) by (auto split: if_splits)
  next
    fix t l d assume "(l, d) \<in> set (donations (threads ?s t))"
    then have "(l, d) \<in> set (donations (threads s t))" using th(1) by (auto split: if_splits)
    then show "l \<noteq> NULL" "waiting_lock (threads ?s d) = l" "holder ?s l = t"
      using donations_okD(3) [OF don_invD(2) [OF inv]] S(3) [of l t] by (auto split: if_splits)
  qed
  moreover have "effective ?s t" for t
  proof (cases "t = page")
    case True
    then show ?thesis using th by (simp add: effective_def max_donation_def)
  next
    case False
    then have "effective ?s t = effective s t" by (intro effective_cong) (use S(3) in auto)
    then show ?thesis using don_invD(3) [OF inv] by simp
  qed
  moreover have "waits_ok ?s" using don_invD(4) [OF inv] th(2) by (auto simp: waits_ok_def)
  ultimately show ?thesis using don_invD(1) [OF inv] by (simp add: don_inv_def)
qed

lemma thread_create_don:
  assumes inv: "don_inv s" and k: "kinv s" and w: "waiting_lock (threads s (cur s)) = NULL" and p: "page \<notin> set (all_list s)"
  shows "post (thread_create nm pri fn page s) (\<lambda>r. case r of Inl _ \<Rightarrow> True | Inr s' \<Rightarrow> don_inv s')"
proof (cases "page = NULL")
  case True
  then show ?thesis by (simp add: thread_create_def)
next
  case False
  have lk: "locks_ok s" and c: "cur s \<in> set (all_list s)" using k by (auto simp: kinv_def kinv0_def)
  have "post (lock_acquire TID_LOCK (push [Tid_take page, Create_rest page fn]
      (s\<lparr>threads := (threads s)(page := th), all_list := all_list s @ [page]\<rparr>))) don_inv"
    if th: "donations th = []" "waiting_lock th = NULL" "priority th = base_priority th" for th
    by (rule lock_acquire_don, rule don_inv_self [OF new_thread_don [OF inv lk p False th]])
      (use w c p th in \<open>auto simp: dkeep_def state_defs\<close>)
  moreover have "push [a] (push [b] s') = push [a, b] s'" for a b s' by (simp add: push_def upd_def)
  ultimately show ?thesis using don_invD(1) [OF inv]
    by (auto simp: thread_create_def init_thread_def inherit_mlfqs_def allocate_tid_def intr_disable_def Let_def upd_def state_defs)
qed

lemma dkeep_pop [simp]: "cur s \<in> C \<Longrightarrow> dkeep C s (pop_frame s)"
  by (simp add: dkeep_def state_defs)

text \<open>A thread that has donated finds the semaphore of the lock at zero.\<close>

lemma waiting_zero:
  assumes inv: "don_inv s" and k: "kinv s" and w: "waiting_lock (threads s t) \<noteq> NULL"
  shows "sema_value (semas s (Lock_Sema (waiting_lock (threads s t)))) = 0"
proof -
  let ?l = "waiting_lock (threads s t)"
  have "holder s ?l \<noteq> NULL" using donations_okD(1) [OF don_invD(2) [OF inv] w] .
  moreover have "lock_token s ?l = 1" using k w by (auto simp: kinv_def kinv0_def locks_ok_def)
  ultimately have "unat (sema_value (semas s (Lock_Sema ?l))) = 0" by (simp add: lock_token_def)
  then show ?thesis by (simp add: unat_eq_zero)
qed

lemma resume_down_don:
  assumes inv: "don_inv s" and k: "good s" and F: "fr s (cur s) = f # fs"
    and f: "f = Sema_loop q lev kk \<or> f = Sema_down q kk"
  shows "post (run_frame f (pop_frame s)) don_inv"
proof -
  have "pc (cur s) (cur s = idle_thread s) (strip (f # fs))" using frame_facts(6) [OF _ F] k by blast
  then have q: "kk = Take l \<Longrightarrow> q = Lock_Sema l" for l using f by (auto simp: pc_simps)
  have "post (run_frame f (pop_frame s)) (\<lambda>s'. dkeep {cur s} (pop_frame s) s' \<and>
      (sema_value (semas s q) = 0 \<longrightarrow> (\<exists>lv. fr s' (cur s) = Sema_loop q lv kk # fs)))"
    using f
  proof
    assume "f = Sema_loop q lev kk"
    then show ?thesis
      by simp (rule post_mono [OF sema_loop_dkeep], use F in \<open>auto simp: state_defs\<close>)
  next
    assume "f = Sema_down q kk"
    then show ?thesis
      by simp (rule post_mono [OF sema_down_dkeep], use F in \<open>auto simp: state_defs\<close>)
  qed
  then show ?thesis
  proof (rule post_mono)
    fix s' assume s': "dkeep {cur s} (pop_frame s) s' \<and>
      (sema_value (semas s q) = 0 \<longrightarrow> (\<exists>lv. fr s' (cur s) = Sema_loop q lv kk # fs))"
    then have d: "dkeep {cur s} s s'" using dkeep_trans [OF dkeep_pop [of s "{cur s}"], of "{cur s}" s'] by simp
    show "don_inv s'"
    proof (rule don_inv_dkeep [OF inv d])
      fix c assume c: "c \<in> {cur s}" and w: "waiting_lock (threads s c) \<noteq> NULL"
      then have "acquiring (strip (fr s c)) = Some (waiting_lock (threads s c))" using don_invD(4) [OF inv] by (auto simp: waits_ok_def)
      then have kk: "kk = Take (waiting_lock (threads s c))" using f F c by (auto simp: acquiring_Some)
      then have q: "q = Lock_Sema (waiting_lock (threads s c))" by (rule q)
      then have "sema_value (semas s q) = 0" using waiting_zero [OF inv _ w] k by simp
      then obtain lv where "fr s' (cur s) = Sema_loop q lv kk # fs" using s' by auto
      then show "acquiring (strip (fr s' c)) = Some (waiting_lock (threads s c))" using c kk q by simp
    qed
  qed
qed

lemma create_rest_don:
  assumes inv: "don_inv s" and w: "waiting_lock (threads s (cur s)) = NULL" "waiting_lock (threads s x) = NULL"
  shows "post (create_rest x fn s) don_inv"
proof -
  have unb: "post (thread_unblock x s1) don_inv" if "dkeep {cur s, x} s s1" for s1
  proof (rule post_mono [OF thread_unblock_dstay])
    fix s' assume "dstay s1 s'"
    then have "dkeep {cur s, x} s s'" using dkeep_trans [OF that, of "{}" s'] by (simp add: dstay_def)
    then show "don_inv s'" by (rule don_inv_dkeep [OF inv]) (use w in auto)
  qed
  show ?thesis by (simp add: create_rest_def alloc_frame_def Let_def, intro impI unb) (simp add: dkeep_def state_defs)
qed

lemma pop_don:
  assumes "don_inv s" "acquiring (strip (fr s (cur s))) = None"
  shows "don_inv (pop_frame s)" "waiting_lock (threads (pop_frame s) (cur (pop_frame s))) = NULL"
proof -
  have w: "waiting_lock (threads s (cur s)) = NULL" by (rule not_waiting [OF assms])
  show "don_inv (pop_frame s)" by (rule don_inv_self [OF assms(1) _ w]) simp
  show "waiting_lock (threads (pop_frame s) (cur (pop_frame s))) = NULL" using w by (simp add: state_defs)
qed

lemma resume_lock_don:
  assumes inv: "don_inv s" and k: "good s" and F: "fr s (cur s) = f # fs"
    and f: "f = Lock_take l \<or> f = Lock_hold l \<or> f = Lock_acquire l \<or> f = Tid_take x"
  shows "post (run_frame f (pop_frame s)) don_inv"
proof -
  have "acquiring (strip (fr s (cur s))) = None" using f F by (auto simp: acquiring_def)
  note P = pop_don [OF inv this]
  have c: "cur s \<in> set (all_list s)" and lk: "locks_ok s" using k by (auto simp: kinv_def kinv0_def)
  have pcf: "pc (cur s) (cur s = idle_thread s) (strip (f # fs))" using frame_facts(6) [OF _ F] k by blast
  note sel = state_defs
  show ?thesis
    using f
  proof (elim disjE)
    assume f: "f = Lock_take l"
    then show ?thesis using set_holder_don [OF P(1)] by (auto simp: lock_take_def)
  next
    assume f: "f = Lock_hold l"
    then have "l \<noteq> NULL" "tokens l (fr s (cur s)) \<ge> 1" using pcf F by (auto simp: pc_simps client_lock_def)
    then have "holder s l = NULL" using token_unique(2) [OF lk c] by blast
    then have "holder (pop_frame s) l = NULL" by (simp add: state_defs)
    then show ?thesis using f set_holder_don [OF P(1)] by (auto simp: lock_hold_def)
  next
    assume f: "f = Lock_acquire l"
    then show ?thesis using lock_acquire_don [OF P] c by (simp add: state_defs)
  next
    assume f: "f = Tid_take x"
    have "post (lock_release TID_LOCK (push gs ((pop_frame s)\<lparr>next_tid := n\<rparr>))) don_inv" for gs n
      by (rule lock_release_don, rule don_inv_self [OF P(1)]) (use P(2) in \<open>simp_all add: dkeep_def state_defs\<close>)
    then show ?thesis using f by (simp add: tid_take_def Let_def)
  qed
qed

lemma yield_don:
  assumes "don_inv s"
  shows "post (thread_yield s) don_inv"
  by (rule post_mono [OF thread_yield_dkeep], rule don_inv_dkeep [OF assms, of "{cur s}"])
    (use assms in \<open>auto simp: dkeep_def state_defs don_inv_def waits_ok_def\<close>)

lemma create_check_don: "don_inv s \<Longrightarrow> post (create_check t s) don_inv"
  using yield_don by (simp add: create_check_def)

lemma resume_other_don:
  assumes inv: "don_inv s" and k: "good s" and F: "fr s (cur s) = f # fs"
    and f: "case f of Sema_up q \<Rightarrow> True | Broadcast cv l \<Rightarrow> True | Tid_store x i \<Rightarrow> True | Create_rest x fn \<Rightarrow> True | Create_check x \<Rightarrow> True
      | Kernel_thread fn \<Rightarrow> True | Idle_loop \<Rightarrow> True | Idle_sti \<Rightarrow> True | Sleep_done lv \<Rightarrow> True | _ \<Rightarrow> False"
  shows "post (run_frame f (pop_frame s)) don_inv"
proof -
  have a: "acquiring (strip (fr s (cur s))) = None" using f F by (auto simp: acquiring_def split: frame.splits)
  note P = pop_don [OF inv a]
  have pcf: "pc (cur s) (cur s = idle_thread s) (strip (f # fs))" using frame_facts(6) [OF _ F] k by blast
  show ?thesis
  proof (cases f)
    case (Sema_up q)
    have "post (sema_up q (pop_frame s)) (\<lambda>s'. dkeep {cur (pop_frame s)} (pop_frame s) s')"
      by (rule post_mono [OF sema_up_dkeep]) simp
    then show ?thesis using post_self [OF P] Sema_up by simp
  next
    case (Broadcast cv l)
    then show ?thesis using post_self [OF P cond_broadcast_dkeep] by simp
  next
    case (Tid_store x i)
    then show ?thesis using don_inv_dkeep [OF P(1), of "{}" "tid_store x i (pop_frame s)"] by (simp add: tid_store_def dkeep_def)
  next
    case (Create_rest x fn)
    then have fn: "fn = Client_func" using pcf by (auto simp: pc_simps)
    have "pc_ok s (cur s)" using k by (auto simp: kinv_def kinv0_def pcs_ok_def)
    then have "fr s x = []" using F Create_rest fn by (auto simp: pc_ok_def creating_def)
    then have "waiting_lock (threads s x) = NULL" using not_waiting [OF inv, of x] by simp
    then have "waiting_lock (threads (pop_frame s) x) = NULL" by (auto simp: state_defs)
    then show ?thesis using create_rest_don [OF P] Create_rest by simp
  next
    case (Create_check x)
    then show ?thesis using create_check_don [OF P(1)] by simp
  next
    case (Kernel_thread fn)
    have "don_inv (push gs ((pop_frame s)\<lparr>level := lv\<rparr>))" for gs lv
      by (rule don_inv_self [OF P(1) _ P(2)]) (simp add: dkeep_def state_defs)
    from this [of "[]"] this [of "[Idle_start]"] show ?thesis
      using Kernel_thread by (auto simp: kernel_thread_def push_def upd_def split: thread_func.splits)
  next
    case Idle_loop
    then show ?thesis using post_self [OF P idle_loop_dkeep] by simp
  next
    case Idle_sti
    have "don_inv (push [Idle_loop] ((pop_frame s)\<lparr>level := INTR_ON\<rparr>))"
      by (rule don_inv_self [OF P(1) _ P(2)]) (simp add: dkeep_def state_defs)
    then show ?thesis using Idle_sti by (simp add: idle_sti_def)
  next
    case (Sleep_done lv)
    then show ?thesis using don_inv_dkeep [OF P(1), of "{}"] by auto
  qed (use f in auto)
qed

lemma resume_don:
  assumes inv: "don_inv s" and k: "good s"
  shows "post (resume s) don_inv"
proof (cases "fr s (cur s)")
  case Nil
  then show ?thesis by (simp add: resume_def)
next
  case F: (Cons f fs)
  have pcf: "pc (cur s) (cur s = idle_thread s) (strip (f # fs))" using frame_facts(6) [OF _ F] k by blast
  have imp: "don_inv ((pop_frame s)\<lparr>level := lv\<rparr>)" if "\<not> proper f" for lv
  proof (rule don_inv_dkeep [OF inv, of "{cur s}"])
    fix c assume c: "c \<in> {cur s}" and w: "waiting_lock (threads s c) \<noteq> NULL"
    have "acquiring (strip (fr s c)) = Some (waiting_lock (threads s c))" using don_invD(4) [OF inv] w by (auto simp: waits_ok_def)
    then show "acquiring (strip (fr ((pop_frame s)\<lparr>level := lv\<rparr>) c)) = Some (waiting_lock (threads s c))"
      using that F c by (simp add: state_defs strip_def)
  qed simp
  have "post (run_frame f (pop_frame s)) don_inv"
  proof (cases f)
    case (Set_level lv)
    then show ?thesis using imp by auto
  next
    case Iret
    then show ?thesis using imp by auto
  next
    case (Sema_loop q lv kk)
    then show ?thesis by (intro resume_down_don [OF inv k F]) auto
  next
    case (Sema_down q kk)
    then show ?thesis by (intro resume_down_don [OF inv k F]) auto
  qed (use resume_lock_don [OF inv k F] resume_other_don [OF inv k F] pcf in \<open>simp_all add: pc_simps del: run_frame.simps\<close>)
  then show ?thesis by (simp add: resume_def F)
qed

lemma sema_up_handler_dkeep:
  assumes "in_external_intr s"
  shows "post (sema_up q s) (\<lambda>s'. dkeep {} s s' \<and> cur s' = cur s)"
proof -
  have "post (sema_wake q (s\<lparr>level := INTR_OFF\<rparr>)) (\<lambda>s1. dkeep {} s s1 \<and> cur s1 = cur s \<and> in_external_intr s1)"
    using assms by (auto simp: sema_wake_def thread_unblock_def intr_disable_def Let_def state_defs dkeep_def split: list.splits)
  then have "post (sema_wake q (s\<lparr>level := INTR_OFF\<rparr>)) (\<lambda>s1. post
      (let s2 = set_sema q (\<lambda>m. m\<lparr>sema_value := sema_value m + 1\<rparr>) s1
       in if \<not> intr_context s2 then thread_yield (push [Set_level (level s)] s2) else restore_level (level s) s2)
      (\<lambda>s'. dkeep {} s s' \<and> cur s' = cur s))"
    by (rule post_mono) (auto simp: Let_def state_defs dkeep_def)
  then show ?thesis by (simp add: sema_up_def intr_disable_def Let_def state_defs)
qed

lemma interrupt_don:
  assumes inv: "don_inv s" and h: "\<And>s1. mlfqs s1 = mlfqs s \<Longrightarrow> in_external_intr s1 \<Longrightarrow> post (handler s1) (\<lambda>s'. dkeep {} s1 s' \<and> cur s' = cur s1)"
  shows "post (interrupt handler s) don_inv"
proof (rule post_mono [OF interrupt_dkeep])
  fix s1 :: kstate assume "mlfqs s1 = mlfqs s" "in_external_intr s1"
  from h [OF this] show "post (handler s1) (\<lambda>s'. dkeep {cur s1} s1 s' \<and> strip (fr s' (cur s1)) = strip (fr s1 (cur s1)) \<and> cur s' = cur s1)"
    by (rule post_mono) (auto simp: dkeep_def)
next
  fix s' assume s': "dkeep {cur s} s s' \<and> strip (fr s' (cur s)) = strip (fr s (cur s))"
  show "don_inv s'"
    by (rule don_inv_dkeep [OF inv, of "{cur s}"]) (use s' don_invD(4) [OF inv] in \<open>auto simp: waits_ok_def\<close>)
qed

lemma call_don:
  assumes inv: "don_inv s" and k: "good s" and l: "legal (Call c) s" and n: "\<And>n. c \<noteq> C_thread_set_nice n"
  shows "post (run_call c s) don_inv"
proof -
  have e: "fr s (cur s) = []" and lc: "legal_call c s" using l by (auto simp: legal_def)
  have w: "waiting_lock (threads s (cur s)) = NULL" using not_waiting [OF inv, of "cur s"] e by simp
  have c: "cur s \<in> set (all_list s)" using k by (simp add: kinv_def)
  have lev: "don_inv (s\<lparr>level := lv\<rparr>)" for lv using don_inv_dkeep [OF inv, of "{}" "s\<lparr>level := lv\<rparr>"] by simp
  have sem: "don_inv (push gs (s\<lparr>semas := q\<rparr>))" for gs q
    by (rule don_inv_self [OF inv _ w]) (simp add: dkeep_def state_defs)
  have tryd: "post (sema_try_down q s) (\<lambda>(b, s'). s' = s \<or> (\<exists>q. s' = s\<lparr>semas := q\<rparr>))" for q
    by (auto simp: sema_try_down_def intr_disable_def Let_def state_defs)
  show ?thesis
  proof (cases c)
    case (C_sema_down a)
    have "post (sema_down (Sema a) Ret s) (\<lambda>s'. dkeep {cur s} s s')" by (rule post_mono [OF sema_down_dkeep]) simp
    then show ?thesis using C_sema_down post_self [OF inv w] by simp
  next
    case (C_sema_try_down a)
    have "post (sema_try_down (Sema a) s) (\<lambda>r. don_inv (snd r))"
      by (rule post_mono [OF tryd]) (use inv sem [of "[]"] in \<open>auto simp: push_def upd_def\<close>)
    then show ?thesis using C_sema_try_down by simp
  next
    case (C_sema_up a)
    have "post (sema_up (Sema a) s) (\<lambda>s'. dkeep {cur s} s s')" by (rule post_mono [OF sema_up_dkeep]) simp
    then show ?thesis using C_sema_up post_self [OF inv w] by simp
  next
    case (C_lock_acquire x)
    then show ?thesis using lock_acquire_don [OF inv w c] by simp
  next
    case (C_lock_try_acquire x)
    have "post (sema_try_down (Lock_Sema x) s) (\<lambda>(b, s'). don_inv (push [Lock_hold x] s') \<and> don_inv s')"
      by (rule post_mono [OF tryd]) (use inv sem [of "[]"] sem [of "[Lock_hold x]"] sem [of "[Lock_hold x]" "semas s"] in \<open>auto simp: push_def upd_def\<close>)
    then have "post (lock_try_acquire x s) (\<lambda>r. don_inv (snd r))"
      by (auto simp: lock_try_acquire_def lock_held_by_current_thread_def case_prod_beta elim!: post_mono)
    then show ?thesis using C_lock_try_acquire by simp
  next
    case (C_lock_release x)
    then show ?thesis using lock_release_don [OF inv w] by simp
  next
    case (C_cond_wait cv x)
    then show ?thesis using cond_wait_don [OF inv w] by simp
  next
    case (C_cond_signal cv x)
    then show ?thesis using post_self [OF inv w cond_signal_dkeep] by simp
  next
    case (C_cond_broadcast cv x)
    then show ?thesis using post_self [OF inv w cond_broadcast_dkeep] by simp
  next
    case (C_thread_create nm pri page)
    have "post (thread_create nm pri Client_func page s) (\<lambda>r. don_inv (case r of Inl _ \<Rightarrow> s | Inr s' \<Rightarrow> s'))"
      by (rule post_mono [OF thread_create_don [OF inv _ w]]) (use k lc C_thread_create inv in \<open>auto split: sum.splits\<close>)
    then show ?thesis using C_thread_create by simp
  next
    case C_thread_exit
    then show ?thesis using thread_exit_don [OF inv w] by simp
  next
    case C_thread_yield
    then show ?thesis using yield_don [OF inv] by simp
  next
    case (C_thread_set_priority p)
    then show ?thesis using set_priority_don [OF inv w] by simp
  next
    case (C_timer_sleep m)
    then show ?thesis using post_self [OF inv w timer_sleep_dkeep] by simp
  qed (use n lev in \<open>auto simp: intr_disable_def\<close>)
qed

lemma step_don:
  assumes inv: "don_inv s" and k: "good s" and l: "legal e s" and n: "\<And>n. e \<noteq> Call (C_thread_set_nice n)"
  shows "post (step e s) don_inv"
proof (cases e)
  case (Call c)
  then show ?thesis using call_don [OF inv k] l n by auto
next
  case Resume
  then show ?thesis using resume_don [OF inv k] by simp
next
  case Tick
  have "post (interrupt timer_interrupt s) don_inv"
    by (rule interrupt_don [OF inv timer_interrupt_dkeep]) (use don_invD(1) [OF inv] in simp)
  then show ?thesis using Tick by simp
next
  case (Device a)
  have "post (interrupt (sema_up (Sema a)) s) don_inv" by (rule interrupt_don [OF inv sema_up_handler_dkeep])
  then show ?thesis using Device by simp
qed

section \<open>Runs under the priority scheduler\<close>

text \<open>
  The runs from a start without \<^verbatim>\<open>-mlfqs\<close> in which no client calls \<^verbatim>\<open>thread_set_nice\<close>, which computes the priority from the
  feedback scheduler's formula whatever the scheduler is.
\<close>

inductive donating :: "kstate \<Rightarrow> bool" where
  donating_boot: "main \<noteq> NULL \<Longrightarrow> page \<noteq> NULL \<Longrightarrow> main \<noteq> page \<Longrightarrow> boot False v main page = Some s \<Longrightarrow> donating s"
| donating_step: "donating s \<Longrightarrow> legal e s \<Longrightarrow> (\<forall>n. e \<noteq> Call (C_thread_set_nice n)) \<Longrightarrow> step e s = Some s' \<Longrightarrow> donating s'"

lemma boot_don: "don_inv (booted_state False v main page)"
proof -
  let ?s = "booted_state False v main page"
  have th: "waiting_lock (threads ?s t) = NULL" "donations (threads ?s t) = []" "prio ?s t = base_priority (threads ?s t)" for t
    by (simp_all add: booted_state_def inited_def blank_def main_thread_def idle_rec_def)
  have "\<not> mlfqs ?s" by (simp add: booted_state_def inited_def blank_def)
  then show ?thesis using th by (simp add: don_inv_def donations_ok_def effective_def waits_ok_def max_donation_def)
qed

lemma donating_inv: "donating s \<Longrightarrow> don_inv s \<and> good s"
proof (induction rule: donating.induct)
  case (donating_boot main page v s)
  then show ?case using boot_don [of v main page] boot_good [of main page False v] boot_eq [of main page False v] by simp
next
  case (donating_step s e s')
  then show ?case using step_don [of s e] step_good [of s e] by (simp add: post_def wp_Some_iff)
qed

lemma max_donation_Max: "max_donation s b ds = Max (insert b (prio s ` snd ` set ds))"
proof (induction ds arbitrary: b)
  case (Cons d ds)
  have "Max (insert b (insert p A)) = Max (insert (max p b) A)" if "finite A" for p :: int and A
    using that by (cases "A = {}") (simp_all add: max.left_commute max.commute max.assoc)
  then have "Max (insert b (prio s ` snd ` set (d # ds))) = Max (insert (max (prio s (snd d)) b) (prio s ` snd ` set ds))" by simp
  moreover have "max_donation s b (d # ds) = max_donation s (max (prio s (snd d)) b) ds"
    by (cases d) (auto simp: max_donation_def max_def)
  ultimately show ?case using Cons by simp
qed (simp add: max_donation_def)

lemma donors: "donations_ok s \<Longrightarrow>
    snd ` set (donations (threads s t)) = {d. waiting_lock (threads s d) \<noteq> NULL \<and> holder s (waiting_lock (threads s d)) = t}"
  by (force simp: donations_ok_def)

text \<open>Legal steps one after the other.\<close>

fun run_events :: "event list \<Rightarrow> kstate \<Rightarrow> kstate option" where
  "run_events [] s = Some s"
| "run_events (e # es) s = (if legal e s then do { s \<leftarrow> step e s; run_events es s } else None)"

lemma run_events_donating:
  "donating s \<Longrightarrow> (\<And>n. Call (C_thread_set_nice n) \<notin> set es) \<Longrightarrow> run_events es s = Some s' \<Longrightarrow> donating s'"
proof (induction es arbitrary: s)
  case (Cons e es)
  from Cons.prems(3) obtain s1 where s1: "legal e s" "step e s = Some s1" "run_events es s1 = Some s'"
    by (auto simp: bind_eq_Some_conv simp del: step.simps split: if_splits)
  have "donating s1" by (rule donating_step [OF Cons.prems(1) s1(1) _ s1(2)]) (use Cons.prems(2) in auto)
  then show ?case using Cons.IH [OF _ _ s1(3)] Cons.prems(2) by auto
qed simp

lemma ex_le_Suc: "(\<exists>n\<le>Suc k. P n) \<longleftrightarrow> P (Suc k) \<or> (\<exists>n\<le>k. P n)" "(\<exists>n\<le>(0::nat). P n) \<longleftrightarrow> P 0"
  by (auto simp: le_Suc_eq)

text \<open>
  The main thread takes a lock and creates a thread of a higher priority, which runs at once, wants the lock, gives the main thread its priority
  and has to wait for it.
\<close>

lemmas run_simps = demo_state_def booted_state_def inited_def blank_def boot_defs Let_def THREAD_MAGIC_def
  idle_rec_def main_thread_def legal_def client_lock_def no_deadlock_def ex_le_Suc donor_priority_greater_def
  max_donation_def PGSIZE_def s32_val priority_greater_def


definition demo_creating :: kstate where
  "demo_creating = demo_state\<lparr>threads := (threads demo_state)(4096 := (main_thread 4096)\<lparr>frames := [Create_rest 12288 Client_func]\<rparr>,
       12288 := \<lparr>tid = 3, status = THREAD_BLOCKED, name = ''high'', stack = 16384, base_priority = 40, donations = [], priority = 40,
         waiting_lock = NULL, nice = 0, recent_cpu = 0, magic = THREAD_MAGIC, frames = []\<rparr>),
     all_list := [4096, 8192, 12288], next_tid := 4, holder := (holder demo_state)(100 := 4096),
     semas := (semas demo_state)(Lock_Sema 100 := \<lparr>sema_value = 0, waiters = []\<rparr>)\<rparr>"

definition demo_high :: kstate where
  "demo_high = demo_creating\<lparr>threads := (threads demo_state)(4096 := (main_thread 4096)\<lparr>status := THREAD_READY, frames := [Set_level INTR_ON]\<rparr>,
       12288 := \<lparr>tid = 3, status = THREAD_RUNNING, name = ''high'', stack = 16340, base_priority = 40, donations = [], priority = 40,
         waiting_lock = NULL, nice = 0, recent_cpu = 0, magic = THREAD_MAGIC, frames = []\<rparr>), cur := 12288, ready_list := [4096]\<rparr>"

lemma demo_creating_run:
  "run_events [Call (C_lock_acquire 100), Resume, Resume, Call (C_thread_create ''high'' 40 12288), Resume, Resume, Resume, Resume, Resume, Resume, Resume]
     demo_state = Some demo_creating"
  by (simp add: run_simps demo_creating_def, auto simp: fun_eq_iff)

lemma create_rest_eq:
  assumes "is_thread s t"
  shows "create_rest t fn s =
    thread_unblock t (push [Create_check t] (upd t (\<lambda>th. th\<lparr>stack := stack th - 44, frames := [Kernel_thread fn]\<rparr>) s))"
  using assms by (simp add: create_rest_def alloc_frame_def Let_def upd_def is_thread_def)

lemma demo_high_run: "run_events [Resume, Resume, Resume] demo_creating = Some demo_high"
  by (simp add: run_simps demo_creating_def demo_high_def create_rest_eq del: create_rest_def alloc_frame_def)

lemma demo_donated: "wp (run_events [Call (C_lock_acquire 100), Resume] demo_high)
    (\<lambda>s. waiting_lock (threads s 12288) = 100 \<and> holder s 100 = 4096 \<and> prio s 4096 = 40 \<and> base_priority (threads s 4096) = 31)"
  by (simp add: run_simps demo_creating_def demo_high_def donate_chain.simps)

lemma demo_donating: "donating demo_high"
proof -
  have "donating demo_state" using donating_boot [of 4096 8192 "\<lambda>_. 0"] boot_eq [of 4096 8192 False "\<lambda>_. 0"] by (simp add: demo_state_def)
  then have "donating demo_creating" by (rule run_events_donating [OF _ _ demo_creating_run]) simp
  then show ?thesis by (rule run_events_donating [OF _ _ demo_high_run]) simp
qed

text \<open>
  \<^verbatim>\<open>lock_release\<close> clears \<^verbatim>\<open>waiting_lock\<close> of every donor for the lock, not only of the one that gets it next: the others stay in the queue of the
  lock without a donation to its next holder.
\<close>

lemma release_forgets_waiters:
  assumes s: "donating s" and w: "waiting_lock (threads s d) = l" "l \<noteq> NULL" and s': "lock_release l s = Some s'"
  shows "waiting_lock (threads s' d) = NULL" "waiters (semas s' (Lock_Sema l)) = waiters (semas s (Lock_Sema l))"
proof -
  have inv: "don_inv s" using donating_inv [OF s] by blast
  let ?s = "s\<lparr>level := INTR_OFF\<rparr>"
  let ?s1 = "lock_undonate l (cur s) ?s"
  have ds: "dsame ?s ?s1"
    unfolding lock_undonate_def using dsame_trans [OF dsame_drop dsame_priority_update] by auto
  note D = dsame_sel [OF ds, simplified]
  have eq: "s' = push [Sema_up (Lock_Sema l)] (?s1\<lparr>holder := (holder s)(l := NULL), level := level s\<rparr>) \<and> holder s l = cur s"
    using s' by (cases "level s")
      (auto simp: lock_release_def lock_held_by_current_thread_def thread_current_def intr_disable_def intr_set_level_def intr_enable_def
        state_defs Let_def D bind_eq_Some_conv ASSERT_def split: if_splits)
  have "(l, d) \<in> set (donations (threads s (cur s)))" using donations_okD(2) [OF don_invD(2) [OF inv], of d] w eq by auto
  then have "waiting_lock (threads ?s1 d) = NULL" using lock_undonate_sel(2) [of ?s l "cur s" d] don_invD(1) [OF inv] w by auto
  then show "waiting_lock (threads s' d) = NULL" using eq by (auto simp: state_defs)
  show "waiters (semas s' (Lock_Sema l)) = waiters (semas s (Lock_Sema l))" using eq by (simp add: state_defs D)
qed

text \<open>A thread that asks for a lock another thread holds is registered as waiting for it.\<close>

lemma acquire_registers:
  assumes s: "donating s" and l: "legal (Call (C_lock_acquire l)) s" and h: "holder s l \<noteq> NULL"
  shows "\<exists>s'. lock_acquire l s = Some s' \<and> donating s' \<and> waiting_lock (threads s' (cur s)) = l \<and> holder s' = holder s"
proof -
  have inv: "don_inv s" and g: "good s" using donating_inv [OF s] by auto
  note I = don_invD [OF inv]
  let ?s = "s\<lparr>level := INTR_OFF\<rparr>"
  obtain s' where s': "lock_acquire l s = Some s'" using step_good [OF g l] by (auto simp: wp_def)
  have "donating s'" by (rule donating_step [OF s l]) (use s' in auto)
  have w: "waiting_lock (threads ?s (cur s)) = NULL" using not_waiting [OF inv, of "cur s"] l by (simp add: legal_def)
  have nl: "l \<noteq> NULL" using l by (auto simp: legal_def client_lock_def)
  have d: "donations_ok ?s" using I(2) donations_ok_cong [of ?s s] by simp
  have "effective ?s u = effective s u" for u by (rule effective_cong) simp_all
  then have e: "effective ?s u" for u using I(3) by simp
  have ok: "donations_ok (add_donor l (cur s) ?s)" using add_donor_ok [OF d w _ nl] h by simp
  obtain s1 where "donate_chain (holder s l) (add_donor l (cur s) ?s) = Some s1"
    and eq: "s' = push [Sema_down (Lock_Sema l) (Take l)] (s1\<lparr>level := level s\<rparr>)"
    using s' h I(1) by (cases "level s")
      (auto simp: lock_acquire_def lock_held_by_current_thread_def thread_current_def lock_donate_def add_donor_def intr_disable_def
        intr_set_level_def intr_enable_def state_defs Let_def bind_eq_Some_conv ASSERT_def split: if_splits)
  note ch = this(1)
  have "dlike (add_donor l (cur s) ?s) s1" using donate_chain_effective [OF ch] h ok add_donor_effective [OF e, of _ l "cur s"] by simp
  then have "waiting_lock (threads s' (cur s)) = l" unfolding eq by (simp add: dlike_def add_donor_sel state_defs)
  moreover have "holder s' = holder s" unfolding eq using dsame_sel(6) [OF dsame_chain [OF ch]] by (simp add: state_defs add_donor_sel)
  ultimately show ?thesis using s' \<open>donating s'\<close> by blast
qed

lemma effective_Max:
  assumes "donating s"
  shows "prio s t = Max (insert (base_priority (threads s t))
      (prio s ` {d. waiting_lock (threads s d) \<noteq> NULL \<and> holder s (waiting_lock (threads s d)) = t}))"
    "waiting_lock (threads s d) \<noteq> NULL \<Longrightarrow> prio s d \<le> prio s (holder s (waiting_lock (threads s d)))"
proof -
  have inv: "don_inv s" using donating_inv [OF assms] by blast
  have eff: "prio s u = Max (insert (base_priority (threads s u)) (prio s ` snd ` set (donations (threads s u))))" for u
    using don_invD(3) [OF inv, of u] by (simp add: effective_def max_donation_Max)
  show "prio s d \<le> prio s (holder s (waiting_lock (threads s d)))" if "waiting_lock (threads s d) \<noteq> NULL"
  proof -
    have "d \<in> snd ` set (donations (threads s (holder s (waiting_lock (threads s d)))))"
      unfolding donors [OF don_invD(2) [OF inv]] using that by simp
    then show ?thesis by (subst eff [of "holder s (waiting_lock (threads s d))"], intro Max_ge) auto
  qed
  show "prio s t = Max (insert (base_priority (threads s t))
      (prio s ` {d. waiting_lock (threads s d) \<noteq> NULL \<and> holder s (waiting_lock (threads s d)) = t}))"
    using eff [of t, unfolded donors [OF don_invD(2) [OF inv]]] .
qed

text \<open>
  C3 Priority donation, in every state of a run of the priority scheduler in which no client calls \<^verbatim>\<open>thread_set_nice\<close>. A thread is registered as waiting for a lock
  while its \<^verbatim>\<open>waiting_lock\<close> is that lock. (1) The priority of every thread is the greatest of its base priority and the priorities of the threads that are
  registered as waiting for a lock it holds. (2) So a registered thread's priority is at most that of the holder of its lock, and along a chain of
  locks and holders priorities never fall. (3) A thread that calls \<^verbatim>\<open>lock_acquire\<close> for a lock that another thread holds becomes registered for it, and the
  holder then has at least its priority. (4) \<^verbatim>\<open>lock_release\<close> ends the registration of all threads waiting for the lock, although they stay in its queue:
  nothing is claimed of the next holder, which does not receive the priority of those that keep waiting.
\<close>

theorem donation_effective:
  assumes "donating s"
  shows "prio s t = Max (insert (base_priority (threads s t))
      (prio s ` {d. waiting_lock (threads s d) \<noteq> NULL \<and> holder s (waiting_lock (threads s d)) = t})) \<and>
    (waiting_lock (threads s d) \<noteq> NULL \<longrightarrow> prio s d \<le> prio s (holder s (waiting_lock (threads s d)))) \<and>
    (legal (Call (C_lock_acquire l)) s \<and> holder s l \<noteq> NULL \<longrightarrow> (\<exists>s'. lock_acquire l s = Some s' \<and>
       waiting_lock (threads s' (cur s)) = l \<and> holder s' l = holder s l \<and> prio s' (cur s) \<le> prio s' (holder s l))) \<and>
    (waiting_lock (threads s d) = l \<and> l \<noteq> NULL \<and> lock_release l s = Some s'' \<longrightarrow>
       waiting_lock (threads s'' d) = NULL \<and> waiters (semas s'' (Lock_Sema l)) = waiters (semas s (Lock_Sema l)))"
proof -
  have "\<exists>s'. lock_acquire l s = Some s' \<and> waiting_lock (threads s' (cur s)) = l \<and> holder s' l = holder s l \<and> prio s' (cur s) \<le> prio s' (holder s l)"
    if a: "legal (Call (C_lock_acquire l)) s" "holder s l \<noteq> NULL"
  proof -
    obtain s' where s': "lock_acquire l s = Some s'" "donating s'" "waiting_lock (threads s' (cur s)) = l" "holder s' = holder s"
      using acquire_registers [OF assms a] by blast
    have "l \<noteq> NULL" using a(1) by (auto simp: legal_def client_lock_def)
    then show ?thesis using s' effective_Max(2) [OF s'(2), of "cur s"] by auto
  qed
  then show ?thesis using effective_Max [OF assms] release_forgets_waiters [OF assms] by blast
qed

theorem donation_effective_witness:
  "\<exists>s. donating s \<and> waiting_lock (threads s 12288) = 100 \<and> holder s 100 = 4096 \<and> base_priority (threads s 4096) = 31 \<and> prio s 4096 = 40 \<and>
     prio s 12288 \<le> prio s 4096"
proof -
  obtain s where s: "run_events [Call (C_lock_acquire 100), Resume] demo_high = Some s" "waiting_lock (threads s 12288) = 100"
    "holder s 100 = 4096" "prio s 4096 = 40" "base_priority (threads s 4096) = 31" using demo_donated by (auto simp: wp_def simp del: run_events.simps)
  have "donating s" by (rule run_events_donating [OF demo_donating _ s(1)]) simp
  with donation_effective [OF this, of 4096 12288] s(2-5) show ?thesis by auto
qed

end
