(* ===== verification/Ready_Order.thy ===== *)
theory Ready_Order
  imports Donation
begin

text \<open>
  The order of the ready list. Threads are inserted by priority, so the list is in order as long as the priority of no thread in it changes. Under the
  priority scheduler only a donation does that; the theory shows that in runs without donations the ready list is in order in every state.
\<close>

section \<open>Operations that keep the order\<close>

definition ordered :: "kstate \<Rightarrow> bool" where
  "ordered s \<longleftrightarrow> in_order (priority_greater s) (ready_list s)"

lemma ordered_same:
  assumes "ordered s" "ready_list s' = ready_list s" "\<And>t. t \<in> set (ready_list s) \<Longrightarrow> prio s' t = prio s t"
  shows "ordered s'"
  using assms(1) unfolding ordered_def assms(2) by (rule sorted_wrt_mono_rel [rotated]) (simp add: priority_greater_def assms(3))

lemma ordered_cong: "ready_list s' = ready_list s \<Longrightarrow> (\<And>t. prio s' t = prio s t) \<Longrightarrow> ordered s' = ordered s"
  using ordered_same [of s s'] ordered_same [of s' s] by metis

lemma ordered_sel [simp]:
  "ordered (s\<lparr>level := lv\<rparr>) = ordered s" "ordered (s\<lparr>semas := m\<rparr>) = ordered s" "ordered (s\<lparr>holder := h\<rparr>) = ordered s"
  "ordered (s\<lparr>cond_waiters := cw\<rparr>) = ordered s" "ordered (s\<lparr>all_list := al\<rparr>) = ordered s" "ordered (s\<lparr>cur := c\<rparr>) = ordered s"
  "ordered (s\<lparr>thread_ticks := n\<rparr>) = ordered s" "ordered (s\<lparr>sleep_list := sl\<rparr>) = ordered s" "ordered (s\<lparr>ticks := i\<rparr>) = ordered s"
  "ordered (s\<lparr>in_external_intr := b\<rparr>) = ordered s" "ordered (s\<lparr>yield_on_return := b\<rparr>) = ordered s" "ordered (s\<lparr>next_tid := i\<rparr>) = ordered s"
  "ordered (s\<lparr>idle_ticks := i\<rparr>) = ordered s" "ordered (s\<lparr>kernel_ticks := i\<rparr>) = ordered s" "ordered (s\<lparr>idle_thread := t\<rparr>) = ordered s"
  "ordered (push fs s) = ordered s" "ordered (pop_frame s) = ordered s" "ordered (set_status t x s) = ordered s" "ordered (set_sema q g s) = ordered s"
  by (rule ordered_cong; simp add: state_defs)+

lemma ordered_insert [simp]: "ordered s \<Longrightarrow> ordered (ready_insert t s)"
proof -
  assume "ordered s"
  then have "in_order (priority_greater s) (insert_ordered (priority_greater s) t (ready_list s))"
    unfolding ordered_def by (rule pg.insert_ordered_in_order)
  then show ?thesis by (simp add: ordered_def ready_insert_def priority_greater_def)
qed

lemma ordered_upd: "ordered s \<Longrightarrow> (priority (f (threads s t)) = prio s t \<or> t \<notin> set (ready_list s)) \<Longrightarrow> ordered (upd t f s)"
  by (rule ordered_same) (auto simp: upd_def)

lemma schedule_ordered: "ordered s \<Longrightarrow> post (schedule s) ordered"
  by (auto simp: schedule_def thread_schedule_tail_def next_thread_to_run_def free_thread_page_def Let_def intro!: ordered_upd split: list.splits)
    (auto simp: ordered_def priority_greater_def)

lemma thread_yield_ordered: "ordered s \<Longrightarrow> post (thread_yield s) ordered"
  by (simp add: thread_yield_def intr_disable_def Let_def schedule_ordered)

lemma thread_block_ordered: "ordered s \<Longrightarrow> post (thread_block s) ordered"
  by (simp add: thread_block_def schedule_ordered)

lemma thread_unblock_ordered: "ordered s \<Longrightarrow> post (thread_unblock t s) ordered"
  by (simp add: thread_unblock_def intr_disable_def Let_def)

lemma sema_wake_ordered: "ordered s \<Longrightarrow> post (sema_wake q s) ordered"
  by (simp add: sema_wake_def Let_def thread_unblock_ordered split: list.splits)

lemma sema_up_ordered: "ordered s \<Longrightarrow> post (sema_up q s) ordered"
  by (auto simp: sema_up_def intr_disable_def Let_def thread_yield_ordered intro!: post_mono [OF sema_wake_ordered])

lemma sema_loop_ordered: "ordered s \<Longrightarrow> post (sema_loop q lv k s) ordered"
  by (simp add: sema_loop_def Let_def thread_block_ordered down_return_def split: after_down.splits)

lemma sema_down_ordered: "ordered s \<Longrightarrow> post (sema_down q k s) ordered"
  by (simp add: sema_down_def intr_disable_def Let_def sema_loop_ordered)

lemma sema_try_down_ordered: "ordered s \<Longrightarrow> post (sema_try_down q s) (\<lambda>r. ordered (snd r))"
  by (simp add: sema_try_down_def intr_disable_def Let_def)

lemma cond_signal_ordered: "ordered s \<Longrightarrow> post (cond_signal cv l s) ordered"
  by (auto simp: cond_signal_def lock_held_by_current_thread_def Let_def sema_up_ordered intro!: post_any split: list.splits)

lemma cond_broadcast_ordered: "ordered s \<Longrightarrow> post (cond_broadcast cv l s) ordered"
  by (simp add: cond_broadcast_def cond_signal_ordered)

lemma yield_if_lower_ordered: "ordered s \<Longrightarrow> post (yield_if_lower c lv s) ordered"
  by (simp add: yield_if_lower_def thread_yield_ordered split: list.splits)

section \<open>Locks and threads\<close>

lemma keep_sel [simp]:
  "ready_list (push fs s) = ready_list s" "holder (push fs s) = holder s" "ready_list (set_sema q g s) = ready_list s" "cur (set_sema q g s) = cur s"
  "mlfqs (push fs s) = mlfqs s" "mlfqs (ready_insert t s) = mlfqs s" "mlfqs (set_status t x s) = mlfqs s"
  by (simp_all add: state_defs)

text \<open>The priority of the running thread may change: it is not in the list.\<close>

lemma drop_donations_ordered: "ordered s \<Longrightarrow> ordered (drop_donations l c des s) \<and> ready_list (drop_donations l c des s) = ready_list s"
proof (induction des arbitrary: s)
  case (Cons d des)
  have "ordered (upd t f s')" if "ordered s'" "\<And>th. priority (f th) = priority th" for t f s'
    using that by (intro ordered_upd) auto
  then show ?case using Cons by (simp add: Let_def)
qed simp

lemma lock_undonate_ordered: "ordered s \<Longrightarrow> c \<notin> set (ready_list s) \<Longrightarrow> ordered (lock_undonate l c s)"
  using drop_donations_ordered [of s l c "donations (threads s c)"]
  by (auto simp: lock_undonate_def donate_priority_update_def intro!: ordered_upd)

lemma lock_release_ordered: "ordered s \<Longrightarrow> cur s \<notin> set (ready_list s) \<Longrightarrow> post (lock_release l s) ordered"
  by (simp add: lock_release_def lock_held_by_current_thread_def intr_disable_def Let_def lock_undonate_ordered)

lemma lock_acquire_ordered: "ordered s \<Longrightarrow> holder s l = NULL \<Longrightarrow> post (lock_acquire l s) ordered"
  by (simp add: lock_acquire_def lock_held_by_current_thread_def lock_donate_def intr_disable_def Let_def)

lemma lock_try_acquire_ordered: "ordered s \<Longrightarrow> post (lock_try_acquire l s) (\<lambda>r. ordered (snd r))"
  using sema_try_down_ordered [of s "Lock_Sema l"]
  by (auto simp: lock_try_acquire_def lock_held_by_current_thread_def case_prod_beta elim!: post_mono)

lemma cond_wait_ordered: "ordered s \<Longrightarrow> cur s \<notin> set (ready_list s) \<Longrightarrow> post (cond_wait cv l s) ordered"
  by (simp add: cond_wait_def lock_held_by_current_thread_def Let_def sema_init_def lock_release_ordered)

lemma thread_exit_ordered: "ordered s \<Longrightarrow> post (thread_exit s) ordered"
  by (simp add: thread_exit_def intr_disable_def Let_def schedule_ordered)

lemma set_priority_ordered: "ordered s \<Longrightarrow> cur s \<notin> set (ready_list s) \<Longrightarrow> post (thread_set_priority p s) ordered"
  by (simp add: thread_set_priority_def intr_disable_def Let_def donate_priority_update_def yield_if_lower_ordered ordered_upd)

lemma thread_create_ordered:
  assumes "ordered s" "page \<notin> set (ready_list s)" "holder s TID_LOCK = NULL" "\<not> mlfqs s"
  shows "post (thread_create nm pri fn page s) (\<lambda>r. ordered (case r of Inl _ \<Rightarrow> s | Inr s' \<Rightarrow> s'))"
proof -
  have "ordered (upd page f s')" if "ordered s'" "ready_list s' = ready_list s" for f s'
    using that assms(2) by (intro ordered_upd) auto
  then show ?thesis using assms
    by (simp add: thread_create_def init_thread_def inherit_mlfqs_def allocate_tid_def intr_disable_def Let_def lock_acquire_ordered intr_get_level_def)
qed

lemma create_rest_ordered: "ordered s \<Longrightarrow> post (create_rest t fn s) ordered"
  by (simp add: create_rest_def alloc_frame_def Let_def ordered_upd thread_unblock_ordered)

lemma create_check_ordered: "ordered s \<Longrightarrow> post (create_check t s) ordered"
  by (simp add: create_check_def thread_yield_ordered)

lemma tid_take_ordered: "ordered s \<Longrightarrow> cur s \<notin> set (ready_list s) \<Longrightarrow> post (tid_take t s) ordered"
  by (simp add: tid_take_def Let_def lock_release_ordered)

lemma timer_sleep_ordered: "ordered s \<Longrightarrow> post (timer_sleep n s) ordered"
  by (simp add: timer_sleep_def intr_disable_def Let_def thread_block_ordered)

lemma idle_loop_ordered: "ordered s \<Longrightarrow> post (idle_loop s) ordered"
  by (simp add: idle_loop_def intr_disable_def thread_block_ordered)

section \<open>Interrupts\<close>

lemma wake_loop_ordered: "ordered s \<Longrightarrow> \<not> mlfqs s \<Longrightarrow> post (wake_loop fs s) (\<lambda>s'. ordered s' \<and> \<not> mlfqs s')"
proof (induction fs arbitrary: s)
  case (Cons f fs)
  have "post (thread_unblock (snd f) (s\<lparr>sleep_list := fs\<rparr>)) (\<lambda>s1. ordered s1 \<and> \<not> mlfqs s1)"
    using Cons.prems by (simp add: thread_unblock_def intr_disable_def Let_def)
  then show ?case using Cons by (auto simp: Let_def elim!: post_mono)
qed simp

lemma timer_interrupt_ordered: "ordered s \<Longrightarrow> \<not> mlfqs s \<Longrightarrow> post (timer_interrupt s) ordered"
  by (auto simp: timer_interrupt_def Let_def thread_tick_def intro!: post_mono [OF wake_loop_ordered])

lemma interrupt_ordered:
  assumes "ordered s" and h: "\<And>s1. ordered s1 \<Longrightarrow> mlfqs s1 = mlfqs s \<Longrightarrow> post (handler s1) ordered"
  shows "post (interrupt handler s) ordered"
proof -
  have "post (handler ((push [Iret] (s\<lparr>level := INTR_OFF\<rparr>))\<lparr>in_external_intr := True, yield_on_return := False\<rparr>)) ordered"
    by (rule h) (use assms(1) in simp_all)
  then show ?thesis
    by (auto simp: interrupt_def intr_handler_ext_def Let_def thread_yield_ordered elim!: post_mono)
qed

section \<open>Runs without donations\<close>

text \<open>The step gives priority to the holder of a lock: it is about to acquire a lock that another thread holds.\<close>

fun donates :: "event \<Rightarrow> kstate \<Rightarrow> bool" where
  "donates (Call (C_lock_acquire l)) s \<longleftrightarrow> holder s l \<noteq> NULL"
| "donates (Call (C_thread_create nm pri page)) s \<longleftrightarrow> holder s TID_LOCK \<noteq> NULL"
| "donates Resume s \<longleftrightarrow> (case frames (threads s (cur s)) of Lock_acquire l # _ \<Rightarrow> holder s l \<noteq> NULL | _ \<Rightarrow> False)"
| "donates e s \<longleftrightarrow> False"

inductive undonated :: "kstate \<Rightarrow> bool" where
  undonated_boot: "main \<noteq> NULL \<Longrightarrow> page \<noteq> NULL \<Longrightarrow> main \<noteq> page \<Longrightarrow> boot False v main page = Some s \<Longrightarrow> undonated s"
| undonated_step: "undonated s \<Longrightarrow> legal e s \<Longrightarrow> (\<forall>n. e \<noteq> Call (C_thread_set_nice n)) \<Longrightarrow> \<not> donates e s \<Longrightarrow> step e s = Some s' \<Longrightarrow> undonated s'"

lemma undonated_donating: "undonated s \<Longrightarrow> donating s"
  by (induction rule: undonated.induct) (auto intro: donating.intros)

lemma good_not_ready: "good s \<Longrightarrow> cur s \<notin> set (ready_list s) \<and> set (ready_list s) \<subseteq> set (all_list s)"
  using queuesD(9) [of s] by (auto simp: kinv_def kinv0_def)

lemma call_ordered:
  assumes o: "ordered s" and g: "good s" and m: "\<not> mlfqs s" and l: "legal (Call c) s" "\<not> donates (Call c) s" and n: "\<And>n. c \<noteq> C_thread_set_nice n"
  shows "post (run_call c s) ordered"
proof -
  note c = good_not_ready [OF g]
  have lc: "legal_call c s" using l(1) by (simp add: legal_def)
  show ?thesis
    using o c l(2) lc n m
    by (cases c)
      (auto simp: sema_down_ordered sema_up_ordered sema_try_down_ordered lock_acquire_ordered lock_try_acquire_ordered lock_release_ordered
        cond_wait_ordered cond_signal_ordered cond_broadcast_ordered thread_exit_ordered thread_yield_ordered set_priority_ordered
        timer_sleep_ordered intr_disable_def intro!: thread_create_ordered)
qed

lemma resume_ordered:
  assumes o: "ordered s" and g: "good s" and l: "\<not> donates Resume s"
  shows "post (resume s) ordered"
proof (cases "fr s (cur s)")
  case Nil
  then show ?thesis by (simp add: resume_def)
next
  case F: (Cons f fs)
  have p: "ordered (pop_frame s)" "cur (pop_frame s) \<notin> set (ready_list (pop_frame s))" "holder (pop_frame s) = holder s"
    using o good_not_ready [OF g] by (simp_all add: state_defs) (simp flip: pop_frame_def)
  have "pc (cur s) (cur s = idle_thread s) (strip (f # fs))" using frame_facts(6) [OF _ F] g by blast
  then have "post (run_frame f (pop_frame s)) ordered"
    using p l F
    by (cases f)
      (auto simp: pc_simps sema_loop_ordered sema_down_ordered sema_up_ordered lock_take_def lock_hold_def lock_acquire_ordered cond_broadcast_ordered
        tid_take_ordered tid_store_def create_rest_ordered create_check_ordered kernel_thread_def idle_loop_ordered idle_sti_def
        intro!: ordered_upd split: thread_func.splits)
  then show ?thesis by (simp add: resume_def F)
qed

lemma undonated_ordered: "undonated s \<Longrightarrow> ordered s"
proof (induction rule: undonated.induct)
  case (undonated_boot main page v s)
  then show ?case using boot_eq [of main page False v] by (auto simp: ordered_def booted_state_def inited_def blank_def)
next
  case (undonated_step s e s')
  have g: "good s" "\<not> mlfqs s" using donating_inv [OF undonated_donating [OF undonated_step(1)]] don_invD(1) by auto
  have "post (step e s) ordered"
  proof (cases e)
    case (Call c)
    then show ?thesis using call_ordered [OF undonated_step.IH g, of c] undonated_step(2-4) by simp
  next
    case Resume
    then show ?thesis using resume_ordered [OF undonated_step.IH g(1)] undonated_step(4) by simp
  next
    case Tick
    then show ?thesis using interrupt_ordered [OF undonated_step.IH, of timer_interrupt] timer_interrupt_ordered g(2) by simp
  next
    case (Device a)
    then show ?thesis using interrupt_ordered [OF undonated_step.IH, of "sema_up (Sema a)"] sema_up_ordered by simp
  qed
  then show ?case using undonated_step by (simp add: post_def)
qed

end
