(* ===== verification/Scheduling.thy ===== *)
theory Scheduling
  imports Ready_Order
begin

text \<open>
  Which thread runs next: what \<^verbatim>\<open>thread_yield\<close> and \<^verbatim>\<open>sema_up\<close> do with the ready list and with the waiters, in every reachable state, for calls
  from client code and from return points, and for \<^verbatim>\<open>sema_up\<close> in an interrupt handler.
\<close>

section \<open>Yielding\<close>

text \<open>The threads that can run, in the order in which the scheduler takes them once \<open>c\<close> is put among the ready threads.\<close>

abbreviation runnable :: "kstate \<Rightarrow> tptr \<Rightarrow> tptr list" where
  "runnable s c \<equiv> insert_ordered (priority_greater s) c (ready_list s)"

lemma thread_yield_eq:
  assumes "thread_current s = Some c" "\<not> in_external_intr s" "c \<noteq> idle_thread s" "runnable s c = n # ts" "is_thread s n"
  shows "thread_yield s = Some (set_status n THREAD_RUNNING (push [Set_level (level s)] (set_status c THREAD_READY s))
    \<lparr>level := INTR_OFF, ready_list := ts, cur := n, thread_ticks := 0\<rparr>)"
proof -
  have c: "cur s = c" using assms(1) by (auto simp: thread_current_def Let_def ASSERT_def bind_eq_Some_conv running_thread_def split: if_splits)
  have pg: "priority_greater (s\<lparr>level := INTR_OFF\<rparr>) = priority_greater s" by (simp add: fun_eq_iff priority_greater_def)
  show ?thesis using assms c
    by (auto simp: thread_yield_def schedule_def next_thread_to_run_def thread_schedule_tail_def intr_disable_def state_defs Let_def pg
        is_thread_def upd_def intro!: kstate.equality)
qed


text \<open>The state \<open>s\<close> in which an operation is called: by client code in \<open>s0\<close>, or by a return point that has been taken off the stack.\<close>

definition called_in :: "kstate \<Rightarrow> kstate \<Rightarrow> bool" where
  "called_in s0 s \<longleftrightarrow> reachable s0 \<and> (s = s0 \<or> s = pop_frame s0)"

lemma called_in_facts:
  assumes "called_in s0 s"
  shows "thread_current s = Some (cur s)" "\<not> in_external_intr s" "is_thread s (cur s)" "t \<in> set (ready_list s) \<Longrightarrow> is_thread s t"
    "distinct (waiters (semas s q))" "t \<in> set (waiters (semas s q)) \<Longrightarrow> is_thread s t \<and> st s t = THREAD_BLOCKED \<and> t \<noteq> cur s"
    "t \<in> set (ready_list s) \<Longrightarrow> st s t = THREAD_READY \<and> t \<noteq> cur s" "distinct (ready_list s)"
proof -
  have k: "kinv0 s0" "run_ok s0" "\<not> in_external_intr s0" using assms reachable_good [of s0] by (auto simp: called_in_def kinv_iff)
  note qd = queuesD [OF kinv0D(1) [OF k(1)]] and r = run_okD [OF k(2)]
  have eq: "cur s = cur s0" "ready_list s = ready_list s0" "semas s = semas s0" "in_external_intr s = in_external_intr s0"
    "\<And>t. magic (threads s t) = magic (threads s0 t)" "\<And>t. st s t = st s0 t"
    using assms by (auto simp: called_in_def pop_frame_def state_defs)
  show "\<not> in_external_intr s" using k(3) eq by simp
  show c: "is_thread s (cur s)" using qd(6,7) [OF r(1)] eq by (simp add: is_thread_def)
  then show "thread_current s = Some (cur s)" using r(2) eq by (simp add: thread_current_def running_thread_def Let_def)
  show "is_thread s t" if "t \<in> set (ready_list s)" using that qd(6,7) [of t] qd(9) [of t] eq by (simp add: is_thread_def)
  show "st s t = THREAD_READY \<and> t \<noteq> cur s" if "t \<in> set (ready_list s)" using that qd(9) [of t] r(2) eq by auto
  show "distinct (ready_list s)" "distinct (waiters (semas s q))" using qd(2,3) eq by auto
  show "is_thread s t \<and> st s t = THREAD_BLOCKED \<and> t \<noteq> cur s" if "t \<in> set (waiters (semas s q))"
    using that qd(6,7) [of t] qd(10) [of t q] r(2) eq by (auto simp: is_thread_def)
qed

text \<open>
  C6 The scheduler. In every reachable state \<^verbatim>\<open>thread_yield\<close> puts the calling thread in front of the first ready thread of a lower priority, runs the first of the list
  and keeps the others ready, in their order. If the ready list is in the order of priorities, it still is afterwards, no ready thread has a higher priority
  than the one that runs, and the yielding thread is behind every ready thread of its own priority (round robin). The list is in order in every
  state of a run under the priority scheduler without donations (\<open>undonated\<close>). It need not be in other states: the code inserts in order, but does not
  reorder the list when a donation or the feedback scheduler changes the priority of a thread in it.
\<close>

theorem yield_runs_highest:
  assumes "called_in s0 s" and "cur s \<noteq> idle_thread s"
  shows "\<exists>s'. thread_yield s = Some s' \<and>
    cur s' # ready_list s' = insert_ordered (priority_greater s) (cur s) (ready_list s) \<and>
    (\<forall>t. prio s' t = prio s t) \<and> st s' (cur s') = THREAD_RUNNING \<and> (\<forall>t\<in>set (ready_list s'). st s' t = THREAD_READY) \<and>
    (in_order (priority_greater s) (ready_list s) \<or> undonated s0 \<longrightarrow>
      in_order (priority_greater s') (ready_list s') \<and> (\<forall>t\<in>set (ready_list s'). prio s' t \<le> prio s' (cur s')) \<and>
      (\<forall>t\<in>set (ready_list s). prio s t = prio s (cur s) \<longrightarrow> (\<exists>us vs. cur s' # ready_list s' = us @ cur s # vs \<and> t \<in> set us)))"
proof -
  note C = called_in_facts [OF assms(1)]
  obtain n ts where L: "runnable s (cur s) = n # ts" by (cases "runnable s (cur s)") auto
  have set: "set (n # ts) = insert (cur s) (set (ready_list s))" unfolding L [symmetric] by simp
  then have n: "is_thread s n" using C(3,4) by (metis insertE list.set_intros(1))
  have d: "distinct (n # ts)" unfolding L [symmetric] using C(7,8) by auto
  obtain s' where s': "thread_yield s = Some s'" "cur s' = n" "ready_list s' = ts" "\<And>t. prio s' t = prio s t"
    "\<And>t. st s' t = (if t = n then THREAD_RUNNING else if t = cur s then THREAD_READY else st s t)"
    using thread_yield_eq [OF C(1,2) assms(2) L n] by (simp add: state_defs)
  have pg: "priority_greater s' = priority_greater s" by (simp add: fun_eq_iff priority_greater_def s'(4))
  have st: "st s' t = THREAD_READY" if "t \<in> set ts" for t
  proof -
    have "t \<noteq> n" "t = cur s \<or> t \<in> set (ready_list s)" using that d set by auto
    then show ?thesis using s'(5) [of t] C(7) by auto
  qed
  have un: "in_order (priority_greater s) (ready_list s)" if "undonated s0"
    using undonated_ordered [OF that] ordered_sel(17) [of s0] assms(1) by (auto simp: called_in_def ordered_def)
  have "in_order (priority_greater s) (n # ts)" if "in_order (priority_greater s) (ready_list s)"
    using pg.insert_ordered_in_order [OF that, of "cur s"] L by simp
  moreover have "\<exists>us vs. n # ts = us @ cur s # vs \<and> t \<in> set us"
    if "in_order (priority_greater s) (ready_list s)" "t \<in> set (ready_list s)" "prio s t = prio s (cur s)" for t
    using pg.insert_ordered_stable [OF that(1), of "cur s" t] that(2,3) L by (simp add: priority_greater_def)
  ultimately show ?thesis
    using s' st L un by (intro exI [of _ s']) (auto simp: pg priority_greater_def not_less)
qed


section \<open>Waking a waiter\<close>

text \<open>The choice among waiters: one of the highest priority, and of those the first.\<close>

definition chosen :: "kstate \<Rightarrow> tptr list \<Rightarrow> tptr \<Rightarrow> tptr list \<Rightarrow> bool" where
  "chosen s us t vs \<longleftrightarrow> (\<forall>u\<in>set us. prio s u < prio s t) \<and> (\<forall>v\<in>set vs. prio s v \<le> prio s t)"

lemma chosen_unique:
  "us @ t # vs = us' @ t' # vs' \<Longrightarrow> chosen s us t vs \<Longrightarrow> chosen s us' t' vs' \<Longrightarrow> us = us' \<and> t = t' \<and> vs = vs'"
proof (induction us arbitrary: us')
  case Nil
  then show ?case by (cases us') (auto simp: chosen_def)
next
  case (Cons u us)
  show ?case
  proof (cases us')
    case Nil
    then have "t' = u" "t \<in> set vs'" using Cons.prems(1) by auto
    then show ?thesis using Cons.prems(2,3) by (fastforce simp: chosen_def)
  next
    case (Cons u' us'')
    then show ?thesis using Cons.IH [of us''] Cons.prems by (simp add: chosen_def)
  qed
qed

lemma chosen_exists: "ws \<noteq> [] \<Longrightarrow> \<exists>us t vs. ws = us @ t # vs \<and> chosen s us t vs \<and> t = first_min (thread_priority_greater s) (hd ws) (tl ws)"
proof (cases ws)
  case (Cons w0 ws')
  let ?t = "first_min (thread_priority_greater s) w0 ws'"
  obtain us vs where uv: "w0 # ws' = us @ ?t # vs" "\<forall>u\<in>set us. thread_priority_greater s ?t u"
    using tpg.first_min_earliest by blast
  have "prio s v \<le> prio s ?t" if "v \<in> set (w0 # ws')" for v
    using tpg.first_min_least [of v w0 ws' s] that by (simp add: thread_priority_greater_def)
  moreover have "set vs \<subseteq> set (w0 # ws')" by (subst uv(1)) auto
  ultimately have "chosen s us ?t vs" using uv(2) by (auto simp: chosen_def thread_priority_greater_def)
  then show ?thesis unfolding Cons list.sel using uv(1) by blast
qed simp

lemma sema_wake_eq:
  assumes w: "waiters (semas s q) = us @ t # vs" "chosen s us t vs" "distinct (waiters (semas s q))"
    and th: "is_thread s t" "st s t = THREAD_BLOCKED" and off: "level s = INTR_OFF"
  shows "sema_wake q s = Some (set_status t THREAD_READY (ready_insert t (set_sema q (\<lambda>m. m\<lparr>waiters := us @ vs\<rparr>) s)))"
proof -
  have "first_min (thread_priority_greater s) (hd (us @ t # vs)) (tl (us @ t # vs)) = t"
    using chosen_exists [of "us @ t # vs" s] chosen_unique [OF _ w(2)] by fastforce
  moreover have "remove1 t (us @ t # vs) = us @ vs" using w(1,3) by (simp add: remove1_append)
  ultimately have "sema_wake q s = thread_unblock t (set_sema q (\<lambda>m. m\<lparr>waiters := us @ vs\<rparr>) s)"
    using w(1) by (cases us) (simp_all add: sema_wake_def set_sema_def)
  also have "\<dots> = Some (set_status t THREAD_READY (ready_insert t (set_sema q (\<lambda>m. m\<lparr>waiters := us @ vs\<rparr>) s)))"
    by (intro thread_unblock_eq) (use th off in \<open>auto simp: is_thread_def set_sema_def\<close>)
  finally show ?thesis .
qed


text \<open>The state after the chosen waiter \<open>t\<close> has been made ready and the value incremented, the processor not yet given away.\<close>

definition upped :: "sref \<Rightarrow> tptr \<Rightarrow> tptr list \<Rightarrow> kstate \<Rightarrow> kstate" where
  "upped q t ws s = set_status t THREAD_READY (s\<lparr>ready_list := insert_ordered (priority_greater s) t (ready_list s),
     semas := (semas s)(q := \<lparr>sema_value = sema_value (semas s q) + 1, waiters = ws\<rparr>)\<rparr>)"

lemma upped_sel [simp]:
  "cur (upped q t ws s) = cur s" "idle_thread (upped q t ws s) = idle_thread s" "in_external_intr (upped q t ws s) = in_external_intr s"
  "level (upped q t ws s) = level s" "ready_list (upped q t ws s) = insert_ordered (priority_greater s) t (ready_list s)"
  "semas (upped q t ws s) = (semas s)(q := \<lparr>sema_value = sema_value (semas s q) + 1, waiters = ws\<rparr>)"
  "yield_on_return (upped q t ws s) = yield_on_return s"
  "prio (upped q t ws s) u = prio s u" "st (upped q t ws s) u = (if u = t then THREAD_READY else st s u)"
  "is_thread (upped q t ws s) u = is_thread s u"
  by (simp_all add: upped_def state_defs is_thread_def)

lemma priority_greater_same [simp]:
  "priority_greater (s\<lparr>level := lv\<rparr>) = priority_greater s" "priority_greater (s\<lparr>semas := m\<rparr>) = priority_greater s"
  by (simp_all add: fun_eq_iff priority_greater_def)

lemma sema_up_eq:
  assumes w: "waiters (semas s q) = us @ t # vs" "chosen s us t vs" "distinct (waiters (semas s q))"
    and th: "is_thread s t" "st s t = THREAD_BLOCKED"
  shows "sema_up q s = (let s' = upped q t (us @ vs) (s\<lparr>level := INTR_OFF\<rparr>)
    in if in_external_intr s then restore_level (level s) s' else thread_yield (push [Set_level (level s)] s'))"
proof -
  let ?s = "s\<lparr>level := INTR_OFF\<rparr>"
  have u: "sema_wake q ?s = Some (set_status t THREAD_READY (ready_insert t (set_sema q (\<lambda>m. m\<lparr>waiters := us @ vs\<rparr>) ?s)))"
    by (rule sema_wake_eq) (use w th in \<open>simp_all add: is_thread_def chosen_def\<close>)
  have "set_sema q (\<lambda>m. m\<lparr>sema_value := sema_value m + 1\<rparr>) (set_status t THREAD_READY (ready_insert t (set_sema q (\<lambda>m. m\<lparr>waiters := us @ vs\<rparr>) ?s))) =
      upped q t (us @ vs) ?s"
    by (auto simp: upped_def state_defs upd_def intro!: kstate.equality)
  then show ?thesis
    by (simp add: sema_up_def intr_disable_def u Let_def intr_context_def intr_get_level_def)
qed


lemma sema_up_result:
  assumes "called_in s0 s" and u: "waiters (semas s q) = us @ t # vs" "chosen s us t vs"
    and t: "is_thread s t" "st s t = THREAD_BLOCKED" "t \<noteq> cur s" and c: "cur s \<noteq> idle_thread s"
  shows "\<exists>s'. sema_up q s = Some s' \<and> semas s' = (semas s)(q := \<lparr>sema_value = sema_value (semas s q) + 1, waiters = us @ vs\<rparr>) \<and>
    cur s' # ready_list s' = insert_ordered (priority_greater s) (cur s) (insert_ordered (priority_greater s) t (ready_list s)) \<and>
    st s' (cur s') = THREAD_RUNNING \<and> (\<forall>u\<in>set (ready_list s'). st s' u = THREAD_READY)"
proof -
  note C = called_in_facts [OF assms(1)]
  let ?L = "insert_ordered (priority_greater s) (cur s) (insert_ordered (priority_greater s) t (ready_list s))"
  let ?s = "push [Set_level (level s)] (upped q t (us @ vs) (s\<lparr>level := INTR_OFF\<rparr>))"
  obtain n ts where L: "?L = n # ts" by (cases ?L) auto
  have set: "set (n # ts) = {cur s, t} \<union> set (ready_list s)" unfolding L [symmetric] by auto
  have d: "distinct (n # ts)" unfolding L [symmetric] using C(7,8) t by auto
  have pg: "priority_greater ?s = priority_greater s" by (simp add: fun_eq_iff priority_greater_def state_defs upped_def)
  have "thread_current ?s = Some (cur s)" using C(1) t(3)
    by (simp add: thread_current_def running_thread_def Let_def state_defs upped_def is_thread_def ASSERT_def split: if_splits)
  moreover have "is_thread ?s n" using C(3,4) t(1) set by (auto simp: is_thread_def state_defs upped_def)
  moreover have "insert_ordered (priority_greater ?s) (cur s) (ready_list ?s) = n # ts" unfolding pg L [symmetric] by (simp add: state_defs)
  ultimately have y: "thread_yield ?s = Some (set_status n THREAD_RUNNING (push [Set_level (level ?s)] (set_status (cur s) THREAD_READY ?s))
      \<lparr>level := INTR_OFF, ready_list := ts, cur := n, thread_ticks := 0\<rparr>)"
    by (intro thread_yield_eq) (use C(2) c in \<open>simp_all add: state_defs\<close>)
  have "u = cur s \<or> u = t \<or> st s u = THREAD_READY" if "u \<in> set ts" for u using that set C(7) [of u] by auto
  moreover have "n \<notin> set ts" using d by simp
  ultimately show ?thesis unfolding L sema_up_eq [OF u C(5) t(1,2)] using C(2) y by (auto simp: state_defs)
qed

lemma sema_up_handler_result:
  assumes "called_in s0 s" and u: "waiters (semas s q) = us @ t # vs" "chosen s us t vs"
    and t: "is_thread s t" "st s t = THREAD_BLOCKED" "t \<noteq> cur s"
  shows "\<exists>s'. interrupt (sema_up q) s = Some s' \<and> semas s' = (semas s)(q := \<lparr>sema_value = sema_value (semas s q) + 1, waiters = us @ vs\<rparr>) \<and>
    cur s' = cur s \<and> ready_list s' = insert_ordered (priority_greater s) t (ready_list s) \<and> st s' t = THREAD_READY"
proof -
  note C = called_in_facts [OF assms(1)]
  let ?s = "push [Iret] (s\<lparr>level := INTR_OFF\<rparr>)\<lparr>in_external_intr := True, yield_on_return := False\<rparr>"
  have pg: "priority_greater ?s = priority_greater s" by (simp add: fun_eq_iff priority_greater_def state_defs)
  have off: "x\<lparr>level := INTR_OFF\<rparr> = x" "restore_level INTR_OFF x = Some x" if "level x = INTR_OFF" for x
    using that by (simp_all add: intr_set_level_def intr_disable_def)
  have "level ?s = INTR_OFF" "in_external_intr ?s" by (simp_all add: state_defs)
  moreover have "sema_up q ?s = (let s' = upped q t (us @ vs) (?s\<lparr>level := INTR_OFF\<rparr>)
      in if in_external_intr ?s then restore_level (level ?s) s' else thread_yield (push [Set_level (level ?s)] s'))"
    by (rule sema_up_eq) (use u t C(5) [of q] in \<open>simp_all add: chosen_def state_defs is_thread_def\<close>)
  ultimately have "sema_up q ?s = Some (upped q t (us @ vs) ?s)" by (simp only: off Let_def if_True upped_sel)
  then show ?thesis using C(2) pg by (simp add: interrupt_def intr_handler_ext_def intr_get_level_def intr_context_def Let_def) (simp add: state_defs)
qed

text \<open>
  C5 \<^verbatim>\<open>sema_up\<close>, called in any reachable state on a semaphore with waiters. It wakes one of the highest priority, and among those the one that has waited
  longest; the others keep waiting in their order, the value is incremented, and no other semaphore changes. Called by a thread, it then yields: the woken
  thread and after it the caller are inserted into the ready list and the first thread of the list runs. In an interrupt handler the interrupted thread stays the
  running one, and the woken thread is ready.
\<close>

theorem sema_up_wakes_highest:
  assumes "called_in s0 s" and "waiters (semas s q) \<noteq> []"
  shows "\<exists>us t vs. waiters (semas s q) = us @ t # vs \<and> (\<forall>u\<in>set us. prio s u < prio s t) \<and> (\<forall>v\<in>set vs. prio s v \<le> prio s t) \<and>
    (cur s \<noteq> idle_thread s \<longrightarrow> (\<exists>s'. sema_up q s = Some s' \<and>
       semas s' = (semas s)(q := \<lparr>sema_value = sema_value (semas s q) + 1, waiters = us @ vs\<rparr>) \<and>
       cur s' # ready_list s' = insert_ordered (priority_greater s) (cur s) (insert_ordered (priority_greater s) t (ready_list s)) \<and>
       st s' (cur s') = THREAD_RUNNING \<and> (\<forall>u\<in>set (ready_list s'). st s' u = THREAD_READY))) \<and>
    (level s = INTR_ON \<longrightarrow> (\<exists>s'. interrupt (sema_up q) s = Some s' \<and>
       semas s' = (semas s)(q := \<lparr>sema_value = sema_value (semas s q) + 1, waiters = us @ vs\<rparr>) \<and>
       cur s' = cur s \<and> ready_list s' = insert_ordered (priority_greater s) t (ready_list s) \<and> st s' t = THREAD_READY))"
proof -
  note C = called_in_facts [OF assms(1)]
  obtain us t vs where u: "waiters (semas s q) = us @ t # vs" "chosen s us t vs" using chosen_exists [OF assms(2)] by blast
  have t: "is_thread s t" "st s t = THREAD_BLOCKED" "t \<noteq> cur s" using C(6) [of t q] u(1) by auto
  note up = sema_up_result [OF assms(1) u(1,2) t] and hd = sema_up_handler_result [OF assms(1) u(1,2) t]
  show ?thesis using u up hd unfolding chosen_def by blast
qed


section \<open>Examples\<close>

lemma donating_reachable: "donating s \<Longrightarrow> reachable s"
  by (induction rule: donating.induct) (auto intro: reachable.booted reachable.stepped)

text \<open>The thread of priority 40 and another one of priority 45 wait for a semaphore; the main thread runs.\<close>

lemma demo_two_waiters:
  "wp (run_events [Call (C_sema_down 50), Resume, Call (C_thread_create ''top'' 45 20480), Resume, Resume, Resume, Resume, Resume, Resume, Resume,
      Resume, Resume, Resume, Call (C_sema_down 50), Resume] demo_high)
     (\<lambda>s. fr s 4096 = [] \<and> waiters (semas s (Sema 50)) = [12288, 20480] \<and> sema_value (semas s (Sema 50)) = 0 \<and> cur s = 4096 \<and>
       idle_thread s = 8192 \<and> prio s 4096 = 31 \<and> prio s 12288 = 40 \<and> prio s 20480 = 45 \<and> ready_list s = [] \<and> level s = INTR_ON)"
  by (simp add: run_simps demo_creating_def demo_high_def create_rest_eq del: create_rest_def alloc_frame_def)


text \<open>The running thread creates one of a low priority and gives up its own higher priority: two threads are ready.\<close>

lemma demo_two_ready:
  "wp (run_events [Call (C_thread_create ''low'' 20 20480), Resume, Resume, Resume, Resume, Resume, Resume, Resume, Resume, Resume,
      Call (C_thread_set_priority 31)] demo_high)
     (\<lambda>s. fr s 12288 = [] \<and> cur s = 12288 \<and> idle_thread s = 8192 \<and> prio s 4096 = 31 \<and> prio s 12288 = 31 \<and> prio s 20480 = 20 \<and>
       ready_list s = [4096, 20480])"
  by (simp add: run_simps demo_creating_def demo_high_def create_rest_eq thread_set_priority_def yield_if_lower_def del: create_rest_def alloc_frame_def)

lemma demo_run_called:
  assumes "wp (run_events es demo_high) P" "\<And>n. Call (C_thread_set_nice n) \<notin> set es"
  obtains s where "called_in s s" "P s"
  using assms(1) run_events_donating [OF demo_donating assms(2)] donating_reachable by (auto simp: wp_def called_in_def)

theorem sema_up_wakes_highest_witness:
  "\<exists>s s'. reachable s \<and> waiters (semas s (Sema 50)) = [12288, 20480] \<and> sema_up (Sema 50) s = Some s' \<and>
    semas s' (Sema 50) = \<lparr>sema_value = 1, waiters = [12288]\<rparr> \<and> cur s' = 20480 \<and> ready_list s' = [4096]"
proof -
  obtain s where s: "called_in s s" "waiters (semas s (Sema 50)) = [12288, 20480]" "sema_value (semas s (Sema 50)) = 0" "cur s = 4096" "idle_thread s = 8192"
    "prio s 4096 = 31" "prio s 12288 = 40" "prio s 20480 = 45" "ready_list s = []"
    by (rule demo_run_called [OF demo_two_waiters]) auto
  obtain us t vs s' where u: "[12288, 20480] = us @ t # vs" "\<forall>u\<in>set us. prio s u < prio s t" "\<forall>v\<in>set vs. prio s v \<le> prio s t" "sema_up (Sema 50) s = Some s'"
    "semas s' = (semas s)(Sema 50 := \<lparr>sema_value = 0 + 1, waiters = us @ vs\<rparr>)"
    "cur s' # ready_list s' = insert_ordered (priority_greater s) 4096 (insert_ordered (priority_greater s) t [])"
    using sema_up_wakes_highest [OF s(1), of "Sema 50"] unfolding s by auto
  have "us = [12288] \<and> t = 20480 \<and> vs = []" using u(1-3) s(7,8) by (auto simp: Cons_eq_append_conv)
  then show ?thesis using s u(4-6) by (auto simp: called_in_def priority_greater_def)
qed

theorem yield_runs_highest_witness:
  "\<exists>s s'. reachable s \<and> cur s = 12288 \<and> ready_list s = [4096, 20480] \<and> prio s 4096 = 31 \<and> prio s 12288 = 31 \<and> prio s 20480 = 20 \<and>
    in_order (priority_greater s) (ready_list s) \<and> thread_yield s = Some s' \<and> cur s' = 4096 \<and> ready_list s' = [12288, 20480] \<and>
    in_order (priority_greater s') (ready_list s')"
proof -
  obtain s where s: "called_in s s" "cur s = 12288" "idle_thread s = 8192" "prio s 4096 = 31" "prio s 12288 = 31" "prio s 20480 = 20"
    "ready_list s = [4096, 20480]"
    by (rule demo_run_called [OF demo_two_ready]) auto
  have o: "in_order (priority_greater s) (ready_list s)" using s by (simp add: priority_greater_def)
  obtain s' where "thread_yield s = Some s'" "cur s' # ready_list s' = insert_ordered (priority_greater s) 12288 [4096, 20480]"
    "in_order (priority_greater s') (ready_list s')"
    using yield_runs_highest [OF s(1)] o unfolding s by auto
  then show ?thesis using s o by (auto simp: called_in_def priority_greater_def)
qed

end
