(* ===== verification/Arith64.thy ===== *)
theory Arith64
  imports Pintos_Prelude
begin

text \<open>
  The 64-bit division of \<^verbatim>\<open>lib/arithmetic.c\<close>, on words of the source's widths. \<open>None\<close> is the divide
  error of the processor (a zero divisor, or a quotient that \<^verbatim>\<open>divl\<close> cannot return). The lemmas
  show that the routines compute the quotient for every divisor but zero and never trap
  there, and exactly when the remainder routines return the remainder.
\<close>

section \<open>The routines\<close>

definition divl :: "u64 \<Rightarrow> u32 \<Rightarrow> u32 option" where
  "divl n d =
     (if d = 0 \<or> unat n div unat d \<ge> 2 ^ 32 then None else Some (word_of_nat (unat n div unat d)))"

text \<open>One test of \<^verbatim>\<open>nlz\<close>: below the bound, count the bits and shift them out.\<close>

definition nlz_step :: "u32 \<Rightarrow> nat \<Rightarrow> nat \<times> u32 \<Rightarrow> nat \<times> u32" where
  "nlz_step b j p = (case p of (n, x) \<Rightarrow> if x \<le> b then (n + j, push_bit j x) else (n, x))"

definition nlz :: "u32 \<Rightarrow> nat" where
  "nlz x =
     (let p = nlz_step 0x0000FFFF 16 (0, x);
          p = nlz_step 0x00FFFFFF 8 p;
          p = nlz_step 0x0FFFFFFF 4 p;
          (n, x) = nlz_step 0x3FFFFFFF 2 p
      in if x \<le> 0x7FFFFFFF then n + 1 else n)"

definition udiv64 :: "u64 \<Rightarrow> u64 \<Rightarrow> u64 option" where
  "udiv64 n d =
     (if drop_bit 32 d = 0
      then (let b = push_bit 32 1;
                n1 = ucast (drop_bit 32 n) :: u32;
                n0 = ucast n :: u32;
                d0 = ucast d :: u32
            in if d0 = 0 then None
               else do {
                 q \<leftarrow> divl (b * ucast (n1 mod d0) + ucast n0) d0;
                 Some (ucast q + b * ucast (n1 div d0)) })
      else if n < d then Some 0
      else (let d1 = ucast (drop_bit 32 d) :: u32;
                s = nlz d1
            in do {
              q \<leftarrow> divl (drop_bit 1 n) (ucast (drop_bit 32 (push_bit s d)));
              let q = (ucast (drop_bit (31 - s) q) :: u64);
              Some (if n - (q - 1) * d < d then q - 1 else q) }))"

definition umod64 :: "u64 \<Rightarrow> u64 \<Rightarrow> u32 option" where
  "umod64 n d = do { q \<leftarrow> udiv64 n d; Some (ucast (n - d * q)) }"

definition sdiv64 :: "u64 \<Rightarrow> u64 \<Rightarrow> u64 option" where
  "sdiv64 n d = do {
     let n_abs = (if sint n \<ge> 0 then n else - n);
     let d_abs = (if sint d \<ge> 0 then d else - d);
     q_abs \<leftarrow> udiv64 n_abs d_abs;
     Some (if (sint n < 0) = (sint d < 0) then q_abs else - q_abs) }"

definition smod64 :: "u64 \<Rightarrow> u64 \<Rightarrow> u32 option" where
  "smod64 n d = do { q \<leftarrow> sdiv64 n d; Some (ucast (n - d * q)) }"

text \<open>The entry points of the compiler; the 32-bit remainders are extended to 64 bits.\<close>

definition divdi3 :: "u64 \<Rightarrow> u64 \<Rightarrow> u64 option" where
  "divdi3 n d = sdiv64 n d"

definition moddi3 :: "u64 \<Rightarrow> u64 \<Rightarrow> u64 option" where
  "moddi3 n d = map_option scast (smod64 n d)"

definition udivdi3 :: "u64 \<Rightarrow> u64 \<Rightarrow> u64 option" where
  "udivdi3 n d = udiv64 n d"

definition umoddi3 :: "u64 \<Rightarrow> u64 \<Rightarrow> u64 option" where
  "umoddi3 n d = map_option ucast (umod64 n d)"

section \<open>Counting leading zeros\<close>

text \<open>A step keeps the value times the counted power and raises the lower bound.\<close>

lemma nlz_step_bound:
  assumes "unat x = v * 2 ^ n" "2 ^ l \<le> unat x" "unat b = 2 ^ h - 1" "l + j = h" "h + j = 32" "nlz_step b j (n, x) = (n', x')"
  shows "unat x' = v * 2 ^ n'" "2 ^ h \<le> unat x'"
proof -
  have "unat x' = v * 2 ^ n' \<and> 2 ^ h \<le> unat x'"
  proof (cases "x \<le> b")
    case True
    then have lt: "unat x < 2 ^ h" using assms(3) by (simp add: word_le_nat_alt Suc_le_lessD le_diff_conv2 flip: less_Suc_eq_le)
    have "unat x * 2 ^ j < 2 ^ h * 2 ^ j" using lt by simp
    also have "\<dots> = 2 ^ 32" using assms(5) by (metis power_add)
    finally have "unat (push_bit j x) = unat x * 2 ^ j" by (intro unat_push_bit) simp
    moreover have "2 ^ h = 2 ^ l * (2 :: nat) ^ j" using assms(4) by (metis power_add)
    ultimately show ?thesis using True assms(1,2,6) by (auto simp: nlz_step_def power_add)
  next
    case False
    then have "2 ^ h \<le> unat x" using assms(3) by (simp add: word_le_nat_alt)
    with False assms(1,6) show ?thesis by (auto simp: nlz_step_def)
  qed
  then show "unat x' = v * 2 ^ n'" "2 ^ h \<le> unat x'" by auto
qed

lemma nlz_bounds:
  assumes "x \<noteq> 0"
  shows "2 ^ 31 \<le> unat x * 2 ^ nlz x" "unat x * 2 ^ nlz x < 2 ^ 32"
proof -
  obtain n1 x1 where 1: "nlz_step 0x0000FFFF 16 (0, x) = (n1, x1)" by fastforce
  obtain n2 x2 where 2: "nlz_step 0x00FFFFFF 8 (n1, x1) = (n2, x2)" by fastforce
  obtain n3 x3 where 3: "nlz_step 0x0FFFFFFF 4 (n2, x2) = (n3, x3)" by fastforce
  obtain n4 x4 where 4: "nlz_step 0x3FFFFFFF 2 (n3, x3) = (n4, x4)" by fastforce
  obtain n5 x5 where 5: "nlz_step 0x7FFFFFFF 1 (n4, x4) = (n5, x5)" by fastforce
  have "1 \<le> unat x" using assms by (simp add: unat_gt_0 Suc_le_eq)
  then have b1: "unat x1 = unat x * 2 ^ n1" "2 ^ 16 \<le> unat x1"
    using nlz_step_bound [of x "unat x" 0 0 _ 16, OF _ _ _ _ _ 1] by simp_all
  have b2: "unat x2 = unat x * 2 ^ n2" "2 ^ 24 \<le> unat x2" using nlz_step_bound [of x1 "unat x" n1 16 _ 24, OF b1 _ _ _ 2] by simp_all
  have b3: "unat x3 = unat x * 2 ^ n3" "2 ^ 28 \<le> unat x3" using nlz_step_bound [of x2 "unat x" n2 24 _ 28, OF b2 _ _ _ 3] by simp_all
  have b4: "unat x4 = unat x * 2 ^ n4" "2 ^ 30 \<le> unat x4" using nlz_step_bound [of x3 "unat x" n3 28 _ 30, OF b3 _ _ _ 4] by simp_all
  have b5: "unat x5 = unat x * 2 ^ n5" "2 ^ 31 \<le> unat x5" using nlz_step_bound [of x4 "unat x" n4 30 _ 31, OF b4 _ _ _ 5] by simp_all
  have "nlz x = (if x4 \<le> 0x7FFFFFFF then n4 + 1 else n4)" by (simp add: nlz_def 1 2 3 4)
  with 5 have "nlz x = n5" by (simp add: nlz_step_def split: if_splits)
  then show "2 ^ 31 \<le> unat x * 2 ^ nlz x" "unat x * 2 ^ nlz x < 2 ^ 32"
    using b5 unat_less_32 [of x5] by simp_all
qed

section \<open>The quotient\<close>

text \<open>The estimate behind the long branch: dividing by the leading bits is off by at most one.\<close>

lemma quotient_estimate:
  fixes n d v :: nat
  assumes n: "n < 2 ^ 64" and le: "2 ^ k * v \<le> d" and lt: "d < 2 ^ k * (v + 1)" and v: "2 ^ 31 \<le> v" and k: "1 \<le> k"
  shows "n div d \<le> n div (2 ^ k * v)" "n div (2 ^ k * v) \<le> n div d + 1"
proof -
  let ?w = "2 ^ k * v" and ?q = "n div (2 ^ k * v)"
  have w: "2 ^ (31 + k) \<le> ?w" using v by (simp add: power_add mult.commute)
  then have pos: "0 < ?w" by (metis less_le_trans zero_less_numeral zero_less_power)
  show "n div d \<le> ?q" using le pos by (rule div_le_mono2 [rotated])
  have qw: "?q * ?w \<le> n" by (rule div_times_less_eq_dividend)
  have "?q * 2 ^ (31 + k) \<le> ?q * ?w" using w by simp
  with qw n have "?q * 2 ^ (31 + k) < 2 ^ 64" by linarith
  then have qk: "?q * 2 ^ k < 2 ^ 33" by (simp add: power_add mult.left_commute mult.commute)
  obtain e where e: "d = ?w + e" "e < 2 ^ k" using le lt by (metis add_less_cancel_left distrib_left le_Suc_ex mult.right_neutral)
  have "?q * e \<le> d"
  proof (cases "k = 1")
    case True
    then have "?q * e \<le> ?q" using e(2) by (cases e) auto
    moreover have "?q < 2 ^ 32" using qk True by simp
    moreover have "2 ^ 32 \<le> d" using w le True by simp
    ultimately show ?thesis by linarith
  next
    case False
    then have "2 ^ 33 \<le> (2 :: nat) ^ (31 + k)" using k by (intro power_increasing) auto
    moreover have "?q * e \<le> ?q * 2 ^ k" using e(2) by simp
    ultimately show ?thesis using qk w le by linarith
  qed
  then have "?q * d \<le> n + d" using qw by (subst e(1), subst distrib_left) linarith
  moreover have "0 < d" using pos le by linarith
  ultimately have "?q \<le> (n + d) div d" by (simp add: less_eq_div_iff_mult_less_eq)
  then show "?q \<le> n div d + 1" using \<open>0 < d\<close> by (metis div_add_self2 less_not_refl)
qed

lemma divl_Some:
  assumes "d \<noteq> 0" "unat n < 2 ^ 32 * unat d"
  shows "\<exists>q. divl n d = Some q \<and> unat q = unat n div unat d"
proof -
  have "unat n div unat d < 2 ^ 32" using assms by (simp add: div_less_iff_less_mult unat_gt_0 mult.commute)
  then show ?thesis using assms(1) by (simp add: divl_def unat_of_nat)
qed

lemma div_by_digits:
  fixes N D b :: nat
  assumes "D \<noteq> 0"
  shows "N div D = (b * (N div b mod D) + N mod b) div D + b * (N div b div D)"
proof -
  have "N = b * (N div b) + N mod b" by simp
  moreover have "b * (N div b) = D * (b * (N div b div D)) + b * (N div b mod D)"
    by (metis distrib_left mult.left_commute mult_div_mod_eq)
  ultimately have "N = D * (b * (N div b div D)) + (b * (N div b mod D) + N mod b)" by linarith
  then have "N div D = (D * (b * (N div b div D)) + (b * (N div b mod D) + N mod b)) div D" by (rule arg_cong)
  then show ?thesis using assms by simp
qed

text \<open>The short branch: a divisor of 32 bits.\<close>

lemma udiv64_short:
  assumes d: "d \<noteq> 0" and s: "drop_bit 32 d = 0"
  shows "udiv64 n d = Some (n div d)"
proof -
  let ?N = "unat n" and ?D = "unat d" and ?b = "2 ^ 32 :: nat"
  have "?D div ?b = 0" using s by (metis unat_0 unat_drop_bit)
  then have Db: "?D < ?b" by (simp add: div_eq_0_iff)
  have D0: "?D \<noteq> 0" using d by (simp add: unat_eq_zero)
  define n1 n0 d0 where "n1 = (ucast (drop_bit 32 n) :: u32)" and "n0 = (ucast n :: u32)" and "d0 = (ucast d :: u32)"
  have Nb: "?N div ?b < ?b" using unat_less_64 [of n] by (simp add: div_less_iff_less_mult)
  have u: "unat n1 = ?N div ?b" "unat n0 = ?N mod ?b" "unat d0 = ?D"
    using Nb Db by (simp_all add: n1_def n0_def d0_def unat_simps)
  have d0: "d0 \<noteq> 0" using u(3) D0 by (metis unat_0)
  let ?r = "?N div ?b mod ?D"
  have b: "push_bit 32 1 = (word_of_nat ?b :: u64)" by (simp add: push_bit_eq_mult)
  have less: "?b * ?r + ?N mod ?b < ?b * ?D"
  proof -
    have "?b * ?r + ?b \<le> ?b * ?D" using D0 mult_le_mono2 [of "?r + 1" ?D ?b] by (simp add: Suc_le_eq)
    then show ?thesis using mod_less_divisor [of ?b ?N, OF zero_less_power [OF zero_less_numeral]] by linarith
  qed
  also have "?b * ?D \<le> ?b * ?b" using Db by simp
  finally have x: "unat (push_bit 32 1 * ucast (n1 mod d0) + ucast n0 :: u64) = ?b * ?r + ?N mod ?b"
    unfolding b ucast_word_of_nat of_nat_mult [symmetric] of_nat_add [symmetric]
    by (subst unat_word_64) (simp_all add: u unat_mod)
  obtain q where q: "divl (push_bit 32 1 * ucast (n1 mod d0) + ucast n0) d0 = Some q" "unat q = (?b * ?r + ?N mod ?b) div ?D"
    using divl_Some [OF d0] less x u(3) by metis
  have eq: "?N div ?D = unat q + ?b * (?N div ?b div ?D)" using div_by_digits [OF D0] q(2) by simp
  have "(ucast q + push_bit 32 1 * ucast (n1 div d0) :: u64) = word_of_nat (?N div ?D)"
    unfolding b ucast_word_of_nat eq by (simp add: u unat_div)
  also have "\<dots> = n div d"  by (simp flip: unat_div)
  finally show ?thesis using s d0 q(1)
    by (simp add: udiv64_def Let_def n1_def [symmetric] n0_def [symmetric] d0_def [symmetric])
qed

text \<open>The long branch: the estimate from the leading 32 bits of the divisor, corrected by one.\<close>

lemma udiv64_long:
  assumes s: "drop_bit 32 d \<noteq> 0"
  shows "udiv64 n d = Some (n div d)"
proof (cases "n < d")
  case True
  then show ?thesis using s by (simp add: udiv64_def word_unat_eq_iff unat_div word_less_nat_alt)
next
  case False
  let ?N = "unat n" and ?D = "unat d"
  have DN: "?D \<le> ?N" using False by (simp add: word_le_nat_alt not_less)
  define d1 where "d1 = (ucast (drop_bit 32 d) :: u32)"
  define z where "z = nlz d1"
  let ?k = "32 - z" and ?v = "?D div 2 ^ (32 - z)" and ?q = "?N div (2 ^ (32 - z) * (?D div 2 ^ (32 - z)))"
  have u1: "unat d1 = ?D div 2 ^ 32"
    using unat_less_64 [of d] by (simp add: d1_def unat_simps div_less_iff_less_mult)
  have "?D div 2 ^ 32 \<noteq> 0" using s by (metis unat_drop_bit unat_eq_zero)
  with u1 have "d1 \<noteq> 0" by (metis unat_0)
  note nb = nlz_bounds [OF this, folded z_def, unfolded u1]
  have D1: "1 \<le> ?D div 2 ^ 32" using \<open>?D div 2 ^ 32 \<noteq> 0\<close> by linarith
  have z: "z \<le> 31"
  proof (rule ccontr)
    assume "\<not> z \<le> 31"
    then have "(2 :: nat) ^ 32 \<le> 2 ^ z" by (intro power_increasing) auto
    then show False using nb(2) D1 mult_le_mono [OF D1, of "2 ^ 32" "2 ^ z"] by linarith
  qed
  have split: "(2 :: nat) ^ 32 = 2 ^ ?k * 2 ^ z" using z by (simp flip: power_add)
  have "?D div 2 ^ 32 < 2 ^ ?k"
    using nb(2) unfolding split by (metis mult_less_cancel2)
  then have "?D div 2 ^ 32 * 2 ^ 32 + 2 ^ 32 \<le> 2 ^ ?k * 2 ^ 32"
    using mult_le_mono1 [of "?D div 2 ^ 32 + 1" "2 ^ ?k" "2 ^ 32"] by (simp add: Suc_le_eq)
  then have "?D < 2 ^ ?k * 2 ^ 32" using div_mult_mod_eq [of ?D "2 ^ 32"] mod_less_divisor [of "2 ^ 32" ?D, OF zero_less_power [OF zero_less_numeral]]
    by linarith
  then have "?D * 2 ^ z < 2 ^ ?k * 2 ^ 32 * 2 ^ z" by simp
  also have "\<dots> = 2 ^ 64" using z by (simp flip: power_add)
  finally have pb: "unat (push_bit z d) = ?D * 2 ^ z" by (intro unat_push_bit) simp
  have vv: "?D * 2 ^ z div 2 ^ 32 = ?v" unfolding split by simp
  have v31: "2 ^ 31 \<le> ?v"
  proof -
    have "?D div 2 ^ 32 * 2 ^ z * 2 ^ ?k = ?D div 2 ^ 32 * 2 ^ 32" unfolding split by (simp add: mult_ac)
    also have "\<dots> \<le> ?D" by (rule div_times_less_eq_dividend)
    finally have "?D div 2 ^ 32 * 2 ^ z \<le> ?v" by (simp add: less_eq_div_iff_mult_less_eq)
    with nb(1) show ?thesis by linarith
  qed
  define dd where "dd = (ucast (drop_bit 32 (push_bit z d)) :: u32)"
  have "?D * 2 ^ z div 2 ^ 32 < 2 ^ 32"
    using unat_less_64 [of "push_bit z d"] pb by (simp add: div_less_iff_less_mult)
  then have dd: "unat dd = ?v" using vv pb by (simp add: dd_def unat_simps)
  have "dd \<noteq> 0" using dd v31 by auto
  moreover have "unat (drop_bit 1 n) < 2 ^ 32 * unat dd"
    using unat_less_64 [of n] v31 by (simp add: unat_simps dd)
  ultimately obtain q0 where q0: "divl (drop_bit 1 n) dd = Some q0" "unat q0 = ?N div 2 div ?v"
    using divl_Some [of dd "drop_bit 1 n"] by (auto simp: unat_simps dd)
  define q where "q = (ucast (drop_bit (31 - z) q0) :: u64)"
  have "?N div 2 div ?v div 2 ^ (31 - z) = ?q"
  proof -
    have "(2 :: nat) ^ ?k = 2 * 2 ^ (31 - z)" using z by (simp add: Suc_diff_le flip: power_Suc)
    then show ?thesis by (simp add: div_mult2_eq [symmetric] mult_ac)
  qed
  then have uq: "unat q = ?q" by (simp add: q_def unat_simps q0(2))
  have est: "?N div ?D \<le> ?q" "?q \<le> ?N div ?D + 1"
    using quotient_estimate [of ?N ?k ?v ?D] unat_less_64 [of n] v31 z
    by (auto simp: times_div_less_eq_dividend dividend_less_times_div)
  have D0: "0 < ?D" using D1 by (cases "?D = 0") auto
  have q1: "1 \<le> ?N div ?D" using DN D0 by (simp add: Suc_le_eq div_greater_zero_iff)
  have uq1: "q - 1 = word_of_nat (?q - 1)"
    using est(1) q1 by (simp add: of_nat_diff flip: uq)
  have le: "(?q - 1) * ?D \<le> ?N"
    using est(2) div_times_less_eq_dividend [of ?N ?D] mult_le_mono1 [of "?q - 1" "?N div ?D" ?D] by linarith
  have "n - (q - 1) * d = word_of_nat (?N - (?q - 1) * ?D)"
    using le by (simp add: uq1 of_nat_diff)
  then have rem: "unat (n - (q - 1) * d) = ?N - (?q - 1) * ?D"
    using unat_less_64 [of n] by (simp add: unat_of_nat less_imp_diff_less)
  have "(if n - (q - 1) * d < d then q - 1 else q) = n div d"
  proof (cases "?q = ?N div ?D")
    case True
    obtain m where m: "?N div ?D = Suc m" using q1 by (cases "?N div ?D") auto
    then have "?D \<le> ?N - (?q - 1) * ?D"
      using div_times_less_eq_dividend [of ?N ?D] unfolding True by simp
    then have "\<not> n - (q - 1) * d < d" by (simp add: word_less_nat_alt rem)
    then show ?thesis using uq True by (simp add: word_unat_eq_iff unat_div)
  next
    case False
    then have Q: "?q - 1 = ?N div ?D" using est by linarith
    then have "?N - (?q - 1) * ?D < ?D" using D0 by (simp add: minus_div_mult_eq_mod)
    then have "n - (q - 1) * d < d" by (simp add: word_less_nat_alt rem)
    then show ?thesis using uq1 Q
      by (simp flip: unat_div)
  qed
  with s False q0(1) show ?thesis
    by (simp add: udiv64_def Let_def d1_def [symmetric] z_def [symmetric] dd_def [symmetric] q_def [symmetric]
        split: if_splits)
qed

lemma udiv64_eq: "d \<noteq> 0 \<Longrightarrow> udiv64 n d = Some (n div d)"
  using udiv64_short udiv64_long by blast

section \<open>What the entry points return\<close>

lemma uint_word_64: "0 \<le> k \<Longrightarrow> k < 2 ^ 64 \<Longrightarrow> uint (word_of_int k :: u64) = k"
  by (simp add: unsigned_of_int take_bit_int_eq_self)

lemma sint_range_64: "- (2 ^ 63) \<le> sint (x :: u64)" "sint (x :: u64) < 2 ^ 63"
  using sint_ge [of x] sint_lt [of x] by simp_all

lemma sint_word_64: "- (2 ^ 63) \<le> k \<Longrightarrow> k < 2 ^ 63 \<Longrightarrow> sint (word_of_int k :: u64) = k"
  by (simp add: sint_sbintrunc' signed_take_bit_int_eq_self)

lemma uint_abs: "uint (if sint x \<ge> 0 then x else - x :: u64) = \<bar>sint x\<bar>"
proof -
  have "(if sint x \<ge> 0 then x else - x) = word_of_int \<bar>sint x\<bar>" by (simp add: abs_if)
  then show ?thesis using sint_range_64 [of x] by (simp only:) (rule uint_word_64, auto)
qed

lemma sdiv64_eq:
  assumes "d \<noteq> 0"
  shows "sdiv64 n d = Some (word_of_int (c_div (sint n) (sint d)))"
proof -
  let ?n = "if sint n \<ge> 0 then n else - n" and ?d = "if sint d \<ge> 0 then d else - d"
  have d: "?d \<noteq> 0" using assms by simp
  have "?n div ?d = word_of_int (uint (?n div ?d))" by (rule word_of_int_uint [symmetric])
  also have "uint (?n div ?d) = \<bar>sint n\<bar> div \<bar>sint d\<bar>"
    unfolding uint_div uint_abs ..
  finally have q: "udiv64 ?n ?d = Some (word_of_int (\<bar>sint n\<bar> div \<bar>sint d\<bar>))"
    using udiv64_eq [OF d] by simp
  show ?thesis unfolding sdiv64_def Let_def q
    by (cases "sint n" rule: linorder_cases [of _ 0]; cases "sint d" rule: linorder_cases [of _ 0])
      (auto simp: c_div_def)
qed

lemma word_diff_c_mod: "(n :: u64) - d * word_of_int (c_div (sint n) (sint d)) = word_of_int (c_mod (sint n) (sint d))"
  by (simp add: c_mod_def)

lemma c_mod_abs:
  assumes "b \<noteq> 0"
  shows "\<bar>c_mod a b\<bar> < \<bar>b\<bar>"
proof -
  have "c_mod a b = sgn a * (\<bar>a\<bar> mod \<bar>b\<bar>)"
  proof -
    have "b * c_div a b = sgn a * (\<bar>b\<bar> * (\<bar>a\<bar> div \<bar>b\<bar>))" unfolding c_div_def by (simp add: abs_sgn mult_ac)
    moreover have "a = sgn a * \<bar>a\<bar>" by (simp add: sgn_mult_abs)
    ultimately have "c_mod a b = sgn a * (\<bar>a\<bar> - \<bar>b\<bar> * (\<bar>a\<bar> div \<bar>b\<bar>))"
      unfolding c_mod_def by (simp add: right_diff_distrib)
    then show ?thesis by (simp add: minus_mult_div_eq_mod)
  qed
  then show ?thesis using assms by (simp add: abs_mult sgn_if)
qed

lemma scast_ucast_s32: "(scast (ucast (word_of_int k :: u64) :: u32) :: u64) = word_of_int (s32 k)"
proof -
  have "(ucast (word_of_int k :: u64) :: u32) = word_of_int k"
    by (simp add: word_uint_eq_iff unsigned_ucast_eq unsigned_of_int)
  then show ?thesis by (simp add: s32_sint)
qed

text \<open>
  C31 64-bit division, unsigned and signed: for every divisor but zero the routines return the quotient
  (truncated towards zero in the signed case, reduced to 64 bits when the smallest number is divided by -1) and
  never cause the divide error of the processor.
\<close>

theorem division_64_correct:
  assumes "d \<noteq> 0"
  shows "udivdi3 n d = Some (n div d) \<and> divdi3 n d = Some (word_of_int (c_div (sint n) (sint d)))"
  using udiv64_eq [OF assms] sdiv64_eq [OF assms] by (simp add: udivdi3_def divdi3_def)

theorem division_64_correct_witness:
  "udivdi3 0xFFFFFFFFFFFFFFFF 0x1FFFFFFFF = Some (0xFFFFFFFFFFFFFFFF div 0x1FFFFFFFF) \<and>
   divdi3 0xFFFFFFFFFFFFFFFF 0x1FFFFFFFF =
     Some (word_of_int (c_div (sint (0xFFFFFFFFFFFFFFFF :: u64)) (sint (0x1FFFFFFFF :: u64))))"
  by (rule division_64_correct) simp

text \<open>
  C32 The remainder routines return 32 bits: \<^verbatim>\<open>__umoddi3\<close> and \<^verbatim>\<open>__moddi3\<close> return the remainder exactly when it
  fits an unsigned respectively a signed 32-bit integer.
\<close>

theorem remainder_64_exactly:
  assumes "d \<noteq> 0"
  shows "(umoddi3 n d = Some (n mod d) \<longleftrightarrow> unat n mod unat d < 2 ^ 32) \<and>
    (moddi3 n d = Some (word_of_int (c_mod (sint n) (sint d))) \<longleftrightarrow> in_s32 (c_mod (sint n) (sint d)))"
proof
  have "n - d * (n div d) = n mod d" by (simp add: minus_mult_div_eq_mod)
  then have "umoddi3 n d = Some (word_of_nat (unat n mod unat d mod 2 ^ 32))"
    using udiv64_eq [OF assms]
    by (simp add: umoddi3_def umod64_def ucast_word_of_nat unat_ucast_32 unat_mod)
  then show "umoddi3 n d = Some (n mod d) \<longleftrightarrow> unat n mod unat d < 2 ^ 32"
    using unat_less_64 [of "n mod d"]
    by (auto simp: word_unat_eq_iff unat_mod unat_of_nat)
next
  let ?m = "c_mod (sint n) (sint d)"
  have mod: "moddi3 n d = Some (word_of_int (s32 ?m))"
    by (simp add: moddi3_def smod64_def sdiv64_eq [OF assms] word_diff_c_mod scast_ucast_s32 del: of_int_minus)
  have "sint d \<noteq> 0" using assms by (simp add: signed_eq_0_iff)
  then have "\<bar>?m\<bar> < 2 ^ 63"
    using c_mod_abs [of "sint d" "sint n"] sint_range_64 [of d] by (simp add: abs_if split: if_splits)
  then have "sint (word_of_int ?m :: u64) = ?m"
    by (intro sint_word_64) (auto simp: abs_if split: if_splits)
  moreover have "sint (word_of_int (s32 ?m) :: u64) = s32 ?m"
    using in_s32_s32 [of ?m] by (intro sint_word_64) (simp_all add: in_s32_def)
  ultimately have "(word_of_int (s32 ?m) :: u64) = word_of_int ?m \<longleftrightarrow> in_s32 ?m"
    by (metis in_s32_s32 s32_id)
  with mod show "moddi3 n d = Some (word_of_int ?m) \<longleftrightarrow> in_s32 ?m" by simp
qed

theorem remainder_64_exactly_witness:
  "umoddi3 0x10000000000 0x20000000000 \<noteq> Some (0x10000000000 mod 0x20000000000) \<and> umoddi3 1000 7 = Some 6"
proof -
  have "umoddi3 1000 7 = Some (1000 mod 7)" using remainder_64_exactly [of "7 :: u64" "1000 :: u64"] by simp
  moreover have "\<not> unat (0x10000000000 :: u64) mod unat (0x20000000000 :: u64) < 2 ^ 32" by simp
  then have "umoddi3 0x10000000000 0x20000000000 \<noteq> Some (0x10000000000 mod 0x20000000000)"
    using remainder_64_exactly [of "0x20000000000" "0x10000000000"] by simp
  ultimately show ?thesis by simp
qed

end
