(* ===== verification/Prng.thy ===== *)
theory Prng
  imports Pintos_Prelude
begin

text \<open>
  The pseudo-random number generator of \<^verbatim>\<open>lib/random.c\<close> (RC4). The array \<^verbatim>\<open>s\<close> of 256 bytes is
  a function of its index, a byte, so that no index is out of range; \<^verbatim>\<open>random_bytes\<close> returns the bytes
  it writes. The generator always permutes the bytes, it can be read in pieces, and its
  steps can be undone.
\<close>

record prng =
  sbox :: "u8 \<Rightarrow> u8"
  s_i :: u8
  s_j :: u8
  prng_inited :: bool

definition swap_byte :: "u8 \<Rightarrow> u8 \<Rightarrow> (u8 \<Rightarrow> u8) \<Rightarrow> u8 \<Rightarrow> u8" where
  "swap_byte a b s = (let t = s a in (s(a := s b))(b := t))"

text \<open>Byte \<open>i mod 4\<close> of the seed, in the little-endian order of the processor.\<close>

definition seedp :: "u32 \<Rightarrow> nat \<Rightarrow> u8" where
  "seedp seed i = ucast (drop_bit (8 * (i mod 4)) seed)"

text \<open>The second loop of \<^verbatim>\<open>random_init\<close>, from index \<open>i\<close>, for \<open>n\<close> more rounds.\<close>

fun init_loop :: "u32 \<Rightarrow> nat \<Rightarrow> nat \<Rightarrow> u8 \<Rightarrow> (u8 \<Rightarrow> u8) \<Rightarrow> u8 \<Rightarrow> u8" where
  "init_loop seed 0 i j s = s"
| "init_loop seed (Suc n) i j s =
     (let j = j + s (of_nat i) + seedp seed i
      in init_loop seed n (i + 1) j (swap_byte (of_nat i) j s))"

definition random_init :: "u32 \<Rightarrow> prng" where
  "random_init seed =
     \<lparr>sbox = init_loop seed 256 0 0 (\<lambda>i. i), s_i = 0, s_j = 0, prng_inited = True\<rparr>"

definition random_byte :: "prng \<Rightarrow> u8 \<times> prng" where
  "random_byte p =
     (let i = s_i p + 1;
          j = s_j p + sbox p i;
          s = swap_byte i j (sbox p);
          k = s i + s j
      in (s k, p\<lparr>sbox := s, s_i := i, s_j := j\<rparr>))"

fun bytes_loop :: "nat \<Rightarrow> prng \<Rightarrow> u8 list \<times> prng" where
  "bytes_loop 0 p = ([], p)"
| "bytes_loop (Suc sz) p =
     (let (b, p) = random_byte p; (bs, p) = bytes_loop sz p in (b # bs, p))"

definition random_bytes :: "nat \<Rightarrow> prng \<Rightarrow> u8 list \<times> prng" where
  "random_bytes sz p = bytes_loop sz (if prng_inited p then p else random_init 0)"

text \<open>An \<^verbatim>\<open>unsigned long\<close> has four bytes, the first the lowest.\<close>

definition random_ulong :: "prng \<Rightarrow> u32 \<times> prng" where
  "random_ulong p =
     (let (bs, p) = random_bytes 4 p
      in (foldr (\<lambda>b ul. ucast b + push_bit 8 ul) bs 0, p))"

section \<open>The state stays a permutation\<close>

lemma swap_byte_bij: "bij s \<Longrightarrow> bij (swap_byte a b s)"
proof -
  assume s: "bij s"
  define f where "f x = (if x = a then b else if x = b then a else x)" for x
  have "bij f" by (rule involuntory_imp_bij) (simp add: f_def)
  moreover have "swap_byte a b s = s \<circ> f"
    by (auto simp: swap_byte_def Let_def fun_eq_iff f_def)
  ultimately show ?thesis using s by (simp add: bij_comp)
qed

lemma init_loop_bij: "bij s \<Longrightarrow> bij (init_loop seed n i j s)"
  by (induction seed n i j s rule: init_loop.induct) (simp_all add: Let_def swap_byte_bij)

lemma random_init_bij: "bij (sbox (random_init seed))"
  using init_loop_bij [of "\<lambda>i. i"] by (simp add: random_init_def bij_betw_def)

lemma bytes_loop_inv:
  assumes "bij (sbox p)" "bytes_loop n p = (bs, p')"
  shows "bij (sbox p')" "length bs = n" "prng_inited p' = prng_inited p"
proof -
  have "bij (sbox p') \<and> length bs = n \<and> prng_inited p' = prng_inited p"
    using assms
    by (induction n p arbitrary: bs rule: bytes_loop.induct)
      (auto simp: random_byte_def Let_def swap_byte_bij split: prod.splits)
  then show "bij (sbox p')" "length bs = n" "prng_inited p' = prng_inited p" by auto
qed

lemma bytes_loop_append:
  "bytes_loop (m + n) p = (let (bs, q) = bytes_loop m p; (cs, r) = bytes_loop n q in (bs @ cs, r))"
  by (induction m p rule: bytes_loop.induct) (auto simp: Let_def split: prod.splits)

text \<open>The step can be undone: the state before a byte follows from the state after it.\<close>

definition undo_byte :: "prng \<Rightarrow> prng" where
  "undo_byte p =
     (let s = swap_byte (s_i p) (s_j p) (sbox p)
      in p\<lparr>sbox := s, s_i := s_i p - 1, s_j := s_j p - s (s_i p)\<rparr>)"

lemma undo_random_byte: "undo_byte (snd (random_byte p)) = p"
  by (auto simp: undo_byte_def random_byte_def Let_def swap_byte_def fun_eq_iff intro!: prng.equality)

text \<open>
  However the generator was seeded and however much has been read, its table is a permutation of the 256 bytes and
  \<^verbatim>\<open>random_bytes\<close> delivers as many bytes as asked; reading \<open>m\<close> and then \<open>n\<close> bytes gives the
  \<open>m + n\<close> bytes of one call and leaves the same state; and no step loses state, since it can be undone.
\<close>

theorem prng_stream:
  assumes "\<not> prng_inited p \<or> bij (sbox p)" and "random_bytes m p = (bs, q)" and "random_bytes n q = (cs, r)"
  shows "bij (sbox q) \<and> length bs = m \<and> random_bytes (m + n) p = (bs @ cs, r) \<and>
    undo_byte (snd (random_byte q)) = q"
proof -
  let ?p = "if prng_inited p then p else random_init 0"
  have p: "bij (sbox ?p)" "prng_inited ?p" using assms(1) random_init_bij by (auto simp: random_init_def)
  have b: "bytes_loop m ?p = (bs, q)" using assms(2) by (simp add: random_bytes_def)
  note q = bytes_loop_inv [OF p(1) b]
  then have "bytes_loop n q = (cs, r)" using assms(3) p(2) by (simp add: random_bytes_def)
  then have "bytes_loop (m + n) ?p = (bs @ cs, r)" using b by (simp add: bytes_loop_append)
  with q undo_random_byte show ?thesis by (simp add: random_bytes_def)
qed

theorem prng_stream_witness:
  "bij (sbox (snd (random_bytes 1 (random_init 7)))) \<and> length (fst (random_bytes 1 (random_init 7))) = 1 \<and>
   random_bytes 3 (random_init 7) = (fst (random_bytes 1 (random_init 7)) @
     fst (random_bytes 2 (snd (random_bytes 1 (random_init 7)))), snd (random_bytes 2 (snd (random_bytes 1 (random_init 7))))) \<and>
   undo_byte (snd (random_byte (snd (random_bytes 1 (random_init 7))))) = snd (random_bytes 1 (random_init 7))"
  using prng_stream [of "random_init 7" 1 "fst (random_bytes 1 (random_init 7))" "snd (random_bytes 1 (random_init 7))" 2
      "fst (random_bytes 2 (snd (random_bytes 1 (random_init 7))))" "snd (random_bytes 2 (snd (random_bytes 1 (random_init 7))))"]
    random_init_bij [of 7] by (simp add: numeral_eq_Suc)

end
