(* ===== verification/Hash_Table.thy ===== *)
theory Hash_Table
  imports Kernel_List
begin

text \<open>
  The hash table of \<^verbatim>\<open>lib/kernel/hash.c\<close>. A table keeps the functions it was initialised
  with; the buckets are lists of \<open>Kernel_List\<close>, on the level of the element sequences they represent, and the
  elements are of any type. Whether \<^verbatim>\<open>malloc\<close> succeeds is the argument \<open>mem\<close> of an operation.
  Sizes are 32-bit words.

  The invariant \<open>hash_ok\<close> holds the documented contract of the two functions; the locale
  \<open>keyed_table\<close> is the contract of the table itself, interpreted for the operations of the code.
\<close>

section \<open>Data\<close>

record 'e hash =
  h_elem_cnt :: u32
  h_bucket_cnt :: u32
  h_buckets :: "'e list list"
  h_hash :: "'e \<Rightarrow> u32"
  h_less :: "'e \<Rightarrow> 'e \<Rightarrow> bool"

text \<open>
  An iterator: the index of the bucket and the number of elements of the bucket up to and with the
  current one, zero at the head of the list. \<open>None\<close> in \<open>it_pos\<close> is the null pointer at the end.
\<close>

record hash_iterator =
  it_bucket :: nat
  it_pos :: "nat option"

section \<open>Internal functions\<close>

definition find_bucket :: "'e hash \<Rightarrow> 'e \<Rightarrow> nat" where
  "find_bucket h e = unat (h_hash h e AND (h_bucket_cnt h - 1))"

definition find_elem :: "'e hash \<Rightarrow> nat \<Rightarrow> 'e \<Rightarrow> 'e option" where
  "find_elem h bucket e = find (\<lambda>hi. \<not> h_less h hi e \<and> \<not> h_less h e hi) (h_buckets h ! bucket)"

definition turn_off_least_1bit :: "u32 \<Rightarrow> u32" where
  "turn_off_least_1bit x = x AND (x - 1)"

definition is_power_of_2 :: "u32 \<Rightarrow> bool" where
  "is_power_of_2 x \<longleftrightarrow> x \<noteq> 0 \<and> turn_off_least_1bit x = 0"

text \<open>The loop of \<^verbatim>\<open>rehash\<close> that makes the count a power of 2; it would not end for 0.\<close>

partial_function (option) pow2_loop :: "u32 \<Rightarrow> u32 option" where
  "pow2_loop n = (if is_power_of_2 n then Some n else pow2_loop (turn_off_least_1bit n))"

declare pow2_loop.simps [code]

definition BEST_ELEMS_PER_BUCKET :: u32 where "BEST_ELEMS_PER_BUCKET = 2"

definition push_bucket :: "nat \<Rightarrow> 'e \<Rightarrow> 'e hash \<Rightarrow> 'e hash" where
  "push_bucket b e h = h\<lparr>h_buckets := (h_buckets h)[b := e # h_buckets h ! b]\<rparr>"

definition move_elem :: "'e \<Rightarrow> 'e hash \<Rightarrow> 'e hash" where
  "move_elem e h = push_bucket (find_bucket h e) e h"

definition rehash :: "bool \<Rightarrow> 'e hash \<Rightarrow> 'e hash option" where
  "rehash mem h = do {
     let old_buckets = h_buckets h;
     let old_bucket_cnt = h_bucket_cnt h;
     let new_bucket_cnt = h_elem_cnt h div BEST_ELEMS_PER_BUCKET;
     let new_bucket_cnt = (if new_bucket_cnt < 4 then 4 else new_bucket_cnt);
     new_bucket_cnt \<leftarrow> pow2_loop new_bucket_cnt;
     if new_bucket_cnt = old_bucket_cnt then Some h
     else if \<not> mem then Some h
     else Some (fold (fold move_elem) old_buckets
            (h\<lparr>h_buckets := replicate (unat new_bucket_cnt) [], h_bucket_cnt := new_bucket_cnt\<rparr>)) }"

definition insert_elem :: "nat \<Rightarrow> 'e \<Rightarrow> 'e hash \<Rightarrow> 'e hash" where
  "insert_elem bucket e h = push_bucket bucket e (h\<lparr>h_elem_cnt := h_elem_cnt h + 1\<rparr>)"

text \<open>\<^verbatim>\<open>list_remove\<close> unlinks the element from the bucket that holds it.\<close>

definition remove_elem :: "'e \<Rightarrow> 'e hash \<Rightarrow> 'e hash" where
  "remove_elem e h =
     h\<lparr>h_elem_cnt := h_elem_cnt h - 1, h_buckets := map (remove1 e) (h_buckets h)\<rparr>"

section \<open>Operations\<close>

text \<open>The destructor is called for the elements in the returned order.\<close>

definition hash_clear :: "bool \<Rightarrow> 'e hash \<Rightarrow> 'e list \<times> 'e hash" where
  "hash_clear destructor h =
     (if destructor then concat (h_buckets h) else [],
      h\<lparr>h_buckets := replicate (unat (h_bucket_cnt h)) [], h_elem_cnt := 0\<rparr>)"

definition hash_init :: "bool \<Rightarrow> ('e \<Rightarrow> u32) \<Rightarrow> ('e \<Rightarrow> 'e \<Rightarrow> bool) \<Rightarrow> bool \<times> 'e hash" where
  "hash_init mem hash lss =
     (let h = \<lparr>h_elem_cnt = 0, h_bucket_cnt = 4, h_buckets = [], h_hash = hash, h_less = lss\<rparr>
      in if mem then (True, snd (hash_clear False h)) else (False, h))"

definition hash_destroy :: "bool \<Rightarrow> 'e hash \<Rightarrow> 'e list" where
  "hash_destroy destructor h = (if destructor then fst (hash_clear destructor h) else [])"

definition hash_insert :: "bool \<Rightarrow> 'e \<Rightarrow> 'e hash \<Rightarrow> ('e option \<times> 'e hash) option" where
  "hash_insert mem new h = do {
     let bucket = find_bucket h new;
     let old = find_elem h bucket new;
     let h = (if old = None then insert_elem bucket new h else h);
     h \<leftarrow> rehash mem h;
     Some (old, h) }"

definition hash_replace :: "bool \<Rightarrow> 'e \<Rightarrow> 'e hash \<Rightarrow> ('e option \<times> 'e hash) option" where
  "hash_replace mem new h = do {
     let bucket = find_bucket h new;
     let old = find_elem h bucket new;
     let h = (case old of None \<Rightarrow> h | Some x \<Rightarrow> remove_elem x h);
     let h = insert_elem bucket new h;
     h \<leftarrow> rehash mem h;
     Some (old, h) }"

definition hash_find :: "'e hash \<Rightarrow> 'e \<Rightarrow> 'e option" where
  "hash_find h e = find_elem h (find_bucket h e) e"

definition hash_delete :: "bool \<Rightarrow> 'e \<Rightarrow> 'e hash \<Rightarrow> ('e option \<times> 'e hash) option" where
  "hash_delete mem e h =
     (case find_elem h (find_bucket h e) e of
        None \<Rightarrow> Some (None, h)
      | Some found \<Rightarrow> do { h \<leftarrow> rehash mem (remove_elem found h); Some (Some found, h) })"

definition hash_apply :: "('e \<Rightarrow> 's \<Rightarrow> 's) \<Rightarrow> 'e hash \<Rightarrow> 's \<Rightarrow> 's" where
  "hash_apply action h = fold (fold action) (h_buckets h)"

definition hash_first :: "'e hash \<Rightarrow> hash_iterator" where
  "hash_first h = \<lparr>it_bucket = 0, it_pos = Some 0\<rparr>"

definition hash_cur :: "'e hash \<Rightarrow> hash_iterator \<Rightarrow> 'e option" where
  "hash_cur h i = (case it_pos i of None \<Rightarrow> None | Some p \<Rightarrow> Some (h_buckets h ! it_bucket i ! (p - 1)))"

function next_loop :: "'e hash \<Rightarrow> nat \<Rightarrow> nat \<Rightarrow> hash_iterator" where
  "next_loop h b p =
     (if p = length (h_buckets h ! b) + 1
      then (if b + 1 \<ge> unat (h_bucket_cnt h) then \<lparr>it_bucket = b + 1, it_pos = None\<rparr>
            else next_loop h (b + 1) 1)
      else \<lparr>it_bucket = b, it_pos = Some p\<rparr>)"
  by auto
termination by (relation "measure (\<lambda>(h, b, p). unat (h_bucket_cnt h) - b)") auto

declare next_loop.simps [simp del]

definition hash_next :: "'e hash \<Rightarrow> hash_iterator \<Rightarrow> ('e option \<times> hash_iterator) option" where
  "hash_next h i =
     (case it_pos i of
        None \<Rightarrow> None
      | Some p \<Rightarrow> (let i = next_loop h (it_bucket i) (p + 1) in Some (hash_cur h i, i)))"

definition hash_size :: "'e hash \<Rightarrow> u32" where
  "hash_size h = h_elem_cnt h"

definition hash_empty :: "'e hash \<Rightarrow> bool" where
  "hash_empty h \<longleftrightarrow> h_elem_cnt h = 0"

section \<open>Hash functions\<close>

definition FNV_32_PRIME :: u32 where "FNV_32_PRIME = 16777619"
definition FNV_32_BASIS :: u32 where "FNV_32_BASIS = 2166136261"

definition fnv_step :: "u32 \<Rightarrow> u8 \<Rightarrow> u32" where
  "fnv_step hash b = (hash * FNV_32_PRIME) XOR ucast b"

definition hash_bytes :: "u8 list \<Rightarrow> u32" where
  "hash_bytes buf = foldl fnv_step FNV_32_BASIS buf"

text \<open>A string in memory ends at its first null byte.\<close>

fun hash_string_loop :: "u8 list \<Rightarrow> u32 \<Rightarrow> u32" where
  "hash_string_loop [] hash = hash"
| "hash_string_loop (c # s) hash = (if c \<noteq> 0 then hash_string_loop s (fnv_step hash c) else hash)"

definition hash_string :: "u8 list \<Rightarrow> u32" where
  "hash_string s = hash_string_loop s FNV_32_BASIS"

definition hash_int :: "u32 \<Rightarrow> u32" where
  "hash_int i = hash_bytes (map (\<lambda>k. ucast (drop_bit (8 * k) i)) [0, 1, 2, 3])"

section \<open>The number of buckets\<close>

lemma bit_top:
  fixes z :: int
  assumes "2 ^ k \<le> z" "z < 2 ^ Suc k"
  shows "bit z k"
proof -
  have "z div 2 ^ k = 1" using assms by (simp add: int_div_pos_eq [of _ _ 1 "z - 2 ^ k"])
  then show ?thesis by (simp add: bit_iff_odd)
qed

lemma bit_lower:
  fixes z :: int
  assumes "bit z k" "0 \<le> z"
  shows "2 ^ k \<le> z"
proof (rule ccontr)
  assume "\<not> 2 ^ k \<le> z"
  then have "z div 2 ^ k = 0" using assms(2) by (simp add: div_pos_pos_trivial)
  then show False using assms(1) by (simp add: bit_iff_odd)
qed

text \<open>Turning off the lowest bit keeps the highest one unless it is the only one.\<close>

lemma turn_off_bounds:
  assumes "2 ^ k \<le> uint n" "uint n < 2 ^ Suc k"
  shows "is_power_of_2 n \<longleftrightarrow> uint n = 2 ^ k"
    "uint n \<noteq> 2 ^ k \<Longrightarrow> 2 ^ k \<le> uint (turn_off_least_1bit n)"
    "uint (turn_off_least_1bit n) < uint n"
proof -
  have pos: "0 < uint n" using assms(1) by (meson less_le_trans zero_less_numeral zero_less_power)
  then have "1 \<le> n" by (simp add: word_le_def)
  then have n1: "uint (n - 1) = uint n - 1" by (simp add: uint_minus_simple_alt)
  have t: "uint (turn_off_least_1bit n) = uint n AND (uint n - 1)"
    by (simp add: turn_off_least_1bit_def unsigned_and_eq n1)
  show "uint (turn_off_least_1bit n) < uint n"
    using AND_upper2 [of "uint n - 1" "uint n"] pos by (simp add: t)
  show 2: "2 ^ k \<le> uint (turn_off_least_1bit n)" if "uint n \<noteq> 2 ^ k"
  proof -
    have "bit (uint n) k" "bit (uint n - 1) k" using bit_top [of k] assms that by simp_all
    then have "bit (uint n AND (uint n - 1)) k" by (simp add: bit_and_iff)
    then show ?thesis unfolding t by (rule bit_lower) simp
  qed
  have "uint (turn_off_least_1bit n) = 0" if "uint n = 2 ^ k"
  proof -
    have "uint n AND (uint n - 1) = take_bit k (uint n)"
      using that by (simp add: take_bit_eq_mask mask_eq_exp_minus_1)
    then show ?thesis using that by (simp add: t take_bit_eq_mod)
  qed
  moreover have "uint (turn_off_least_1bit n) \<noteq> 0" if "uint n \<noteq> 2 ^ k"
    using 2 [OF that] by (smt (verit) zero_less_power)
  ultimately show "is_power_of_2 n \<longleftrightarrow> uint n = 2 ^ k"
    using pos by (auto simp: is_power_of_2_def uint_0_iff)
qed

lemma pow2_loop_bound:
  assumes "2 ^ k \<le> uint n" "uint n < 2 ^ Suc k" "k < 32"
  shows "pow2_loop n = Some (2 ^ k)"
  using assms
proof (induction "unat n" arbitrary: n rule: less_induct)
  case less
  note b = turn_off_bounds [OF less.prems(1,2)]
  show ?case
  proof (cases "uint n = 2 ^ k")
    case True
    then have "n = 2 ^ k" by (metis word_of_int_2p word_of_int_uint)
    with True b(1) show ?thesis by (simp add: pow2_loop.simps)
  next
    case False
    have "pow2_loop (turn_off_least_1bit n) = Some (2 ^ k)"
      by (rule less.hyps) (use b(3) b(2) [OF False] less.prems in \<open>auto simp: word_less_def simp flip: word_less_nat_alt\<close>)
    then show ?thesis using False b(1) by (simp add: pow2_loop.simps)
  qed
qed

text \<open>The new count is the largest power of 2 that is not above the half of the elements, but at least 4.\<close>

lemma bucket_count:
  obtains k where "pow2_loop (if x div BEST_ELEMS_PER_BUCKET < 4 then 4 else x div BEST_ELEMS_PER_BUCKET) = Some (2 ^ k)"
    "2 \<le> k" "k < 32" "unat x < 4 * 2 ^ k" "k = 2 \<or> 2 * 2 ^ k \<le> unat x"
proof -
  define n where "n = (if x div BEST_ELEMS_PER_BUCKET < 4 then 4 else x div BEST_ELEMS_PER_BUCKET)"
  have un: "unat n = (if unat x div 2 < 4 then 4 else unat x div 2)"
    by (simp add: n_def BEST_ELEMS_PER_BUCKET_def word_less_nat_alt unat_div)
  then have n4: "4 \<le> unat n" by auto
  then have "1 \<le> unat n" by linarith
  then obtain k where ki: "2 ^ k \<le> unat n" "unat n < 2 ^ Suc k"
    using ex_power_ivl1 [of 2 "unat n"] by auto
  then have "int (2 ^ k) \<le> int (unat n)" "int (unat n) < int (2 ^ Suc k)" by (simp_all only: of_nat_le_iff of_nat_less_iff)
  then have k: "2 ^ k \<le> uint n" "uint n < 2 ^ Suc k" by simp_all
  have "(2 :: nat) ^ k < 2 ^ 32" using ki(1) unat_less_32 [of n] by linarith
  then have k32: "k < 32" by (rule power_less_imp_less_exp [rotated]) simp
  have "(2 :: nat) ^ 2 < 2 ^ Suc k" using n4 ki(2) by simp
  then have "2 < Suc k" by (rule power_less_imp_less_exp [rotated]) simp
  then have k2: "2 \<le> k" by simp
  have "unat x < 4 * 2 ^ k" using un ki(2) power_increasing [OF k2, of "2 :: nat"] by (auto split: if_splits)
  moreover have "k = 2 \<or> 2 * 2 ^ k \<le> unat x"
  proof (cases "unat x div 2 < 4")
    case True
    then have "(2 :: nat) ^ k \<le> 2 ^ 2" using un ki(1) by simp
    then have "k \<le> 2" by (rule power_le_imp_le_exp [rotated]) simp
    with k2 show ?thesis by simp
  next
    case False
    then show ?thesis using un ki(1) by auto
  qed
  ultimately show ?thesis using that [OF pow2_loop_bound [OF k k32, unfolded n_def] k2 k32] by blast
qed

section \<open>The invariant\<close>

lemma unat_exp_32: "k < 32 \<Longrightarrow> unat (2 ^ k :: u32) = 2 ^ k"
  using unat_word_32 [of "2 ^ k"] power_strict_increasing [of k 32 "2 :: nat"] by simp

definition same_key :: "'e hash \<Rightarrow> 'e \<Rightarrow> 'e \<Rightarrow> bool" where
  "same_key h a b \<longleftrightarrow> \<not> h_less h a b \<and> \<not> h_less h b a"

definition h_elems :: "'e hash \<Rightarrow> 'e list" where
  "h_elems h = concat (h_buckets h)"

text \<open>Every element is in the bucket of its hash value; the number of buckets is a power of 2, at least 4.\<close>

definition placed :: "'e hash \<Rightarrow> bool" where
  "placed h \<longleftrightarrow> (\<exists>k. 2 \<le> k \<and> k < 32 \<and> h_bucket_cnt h = 2 ^ k) \<and>
     length (h_buckets h) = unat (h_bucket_cnt h) \<and>
     (\<forall>i<length (h_buckets h). \<forall>e\<in>set (h_buckets h ! i). find_bucket h e = i)"

text \<open>The documented contract of the comparison and of the hash function.\<close>

definition funcs_ok :: "'e hash \<Rightarrow> bool" where
  "funcs_ok h \<longleftrightarrow> less_func (h_less h) \<and> (\<forall>a b. same_key h a b \<longrightarrow> h_hash h a = h_hash h b)"

definition content_ok :: "'e hash \<Rightarrow> 'e list \<Rightarrow> bool" where
  "content_ok h es \<longleftrightarrow> distinct es \<and> (\<forall>a\<in>set es. \<forall>b\<in>set es. same_key h a b \<longrightarrow> a = b)"

definition hash_ok :: "'e hash \<Rightarrow> bool" where
  "hash_ok h \<longleftrightarrow> placed h \<and> funcs_ok h \<and> content_ok h (h_elems h) \<and> unat (h_elem_cnt h) = length (h_elems h)"

lemma find_bucket_bound: "placed h \<Longrightarrow> find_bucket h e < length (h_buckets h)"
proof -
  assume p: "placed h"
  then obtain k where k: "k < 32" "h_bucket_cnt h = 2 ^ k" "length (h_buckets h) = unat (h_bucket_cnt h)"
    by (auto simp: placed_def)
  have "h_hash h e AND (2 ^ k - 1) = take_bit k (h_hash h e)" by (simp add: take_bit_eq_mask mask_eq_exp_minus_1)
  moreover have "unat (2 ^ k :: u32) = 2 ^ k" using k(1) by (simp add: unat_exp_32)
  ultimately show ?thesis by (simp add: find_bucket_def k unsigned_take_bit_eq)
qed

lemma same_key_trans: "funcs_ok h \<Longrightarrow> same_key h a b \<Longrightarrow> same_key h c b \<Longrightarrow> same_key h a c"
  unfolding funcs_ok_def same_key_def using less_func.neg_trans [of "h_less h"] by blast

lemma same_key_bucket: "funcs_ok h \<Longrightarrow> same_key h a b \<Longrightarrow> find_bucket h a = find_bucket h b"
  by (auto simp: funcs_ok_def find_bucket_def)

lemma placed_in:
  assumes "placed h"
  shows "x \<in> set (h_elems h) \<longleftrightarrow> x \<in> set (h_buckets h ! find_bucket h x)"
proof
  assume "x \<in> set (h_elems h)"
  then obtain i where "i < length (h_buckets h)" "x \<in> set (h_buckets h ! i)"
    unfolding h_elems_def set_concat by (metis UN_E in_set_conv_nth)
  with assms show "x \<in> set (h_buckets h ! find_bucket h x)" by (simp add: placed_def)
next
  assume "x \<in> set (h_buckets h ! find_bucket h x)"
  then show "x \<in> set (h_elems h)" using find_bucket_bound [OF assms] by (auto simp: h_elems_def)
qed

lemma find_Some_unique: "x \<in> set xs \<Longrightarrow> P x \<Longrightarrow> \<forall>y\<in>set xs. P y \<longrightarrow> y = x \<Longrightarrow> find P xs = Some x"
proof (induction xs)
  case (Cons z zs)
  have rest: "\<forall>y\<in>set zs. P y \<longrightarrow> y = x" using Cons.prems(3) by (metis list.set_intros(2))
  show ?case
  proof (cases "P z")
    case True
    then have "z = x" using Cons.prems(3) by (metis list.set_intros(1))
    with True show ?thesis by simp
  next
    case False
    then have "x \<in> set zs" using Cons.prems(1,2) by (metis set_ConsD)
    with False show ?thesis using Cons.IH [OF _ Cons.prems(2) rest] by simp
  qed
qed simp

lemma find_elem_iff:
  assumes "placed h" "funcs_ok h" "content_ok h (h_elems h)"
  shows "find_elem h (find_bucket h e) e = Some x \<longleftrightarrow> x \<in> set (h_elems h) \<and> same_key h x e"
proof
  assume "find_elem h (find_bucket h e) e = Some x"
  then have "x \<in> set (h_buckets h ! find_bucket h e)" "same_key h x e"
    by (auto simp: find_elem_def find_Some_iff same_key_def)
  then show "x \<in> set (h_elems h) \<and> same_key h x e"
    using find_bucket_bound [OF assms(1)] by (auto simp: h_elems_def)
next
  assume x: "x \<in> set (h_elems h) \<and> same_key h x e"
  have "x \<in> set (h_buckets h ! find_bucket h e)"
    using placed_in [OF assms(1)] same_key_bucket [OF assms(2)] x by metis
  moreover have u: "y = x" if "y \<in> set (h_buckets h ! find_bucket h e)" "same_key h y e" for y
  proof -
    have "y \<in> set (h_elems h)" using that(1) find_bucket_bound [OF assms(1)] by (auto simp: h_elems_def)
    then show ?thesis using assms(3) x same_key_trans [OF assms(2) that(2)] by (auto simp: content_ok_def)
  qed
  ultimately show "find_elem h (find_bucket h e) e = Some x"
    unfolding find_elem_def same_key_def [symmetric]
    by (intro find_Some_unique [of x _ "\<lambda>y. same_key h y e"] conjunct2 [OF x] ballI impI u)
qed

section \<open>Moving, inserting, removing\<close>

lemma mset_push: "i < length xs \<Longrightarrow> mset (concat (xs[i := e # xs ! i])) = add_mset e (mset (concat xs))"
proof (induction xs arbitrary: i)
  case (Cons x xs)
  then show ?case by (cases i) auto
qed simp

lemma push_placed:
  assumes "placed h"
  shows "placed (move_elem e h)" "mset (h_elems (move_elem e h)) = add_mset e (mset (h_elems h))"
    "h_hash (move_elem e h) = h_hash h" "h_less (move_elem e h) = h_less h" "h_bucket_cnt (move_elem e h) = h_bucket_cnt h"
    "h_elem_cnt (move_elem e h) = h_elem_cnt h"
proof -
  let ?b = "find_bucket h e"
  note bd = find_bucket_bound [OF assms, of e]
  have fb: "find_bucket (move_elem e h) x = find_bucket h x" for x
    by (simp add: find_bucket_def move_elem_def push_bucket_def)
  show "mset (h_elems (move_elem e h)) = add_mset e (mset (h_elems h))"
    by (simp add: h_elems_def move_elem_def push_bucket_def mset_push [OF bd])
  show "placed (move_elem e h)"
    using assms bd unfolding placed_def fb
    by (auto simp: move_elem_def push_bucket_def nth_list_update split: if_splits)
qed (simp_all add: move_elem_def push_bucket_def)

lemma fold_placed:
  assumes "placed h"
  shows "placed (fold move_elem es h) \<and> mset (h_elems (fold move_elem es h)) = mset es + mset (h_elems h) \<and>
    h_hash (fold move_elem es h) = h_hash h \<and> h_less (fold move_elem es h) = h_less h \<and>
    h_elem_cnt (fold move_elem es h) = h_elem_cnt h \<and> h_bucket_cnt (fold move_elem es h) = h_bucket_cnt h"
  using assms by (induction es arbitrary: h) (simp_all add: push_placed)

lemma fold_fold: "fold (fold f) bs s = fold f (concat bs) s"
  by (induction bs arbitrary: s) simp_all

lemma mset_content: "mset es = mset es' \<Longrightarrow> h_less h = h_less h' \<Longrightarrow> content_ok h es = content_ok h' es'"
  unfolding content_ok_def same_key_def by (metis mset_eq_imp_distinct_iff mset_eq_setD)

lemma placed_empty: "2 \<le> k \<Longrightarrow> k < 32 \<Longrightarrow> placed (h\<lparr>h_buckets := replicate (unat (2 ^ k :: u32)) [], h_bucket_cnt := 2 ^ k\<rparr>)"
  by (auto simp: placed_def)

text \<open>\<^verbatim>\<open>rehash\<close> always returns and changes only where the elements are.\<close>

lemma rehash_ok:
  assumes "hash_ok h"
  shows "\<exists>h'. rehash mem h = Some h' \<and> hash_ok h' \<and> set (h_elems h') = set (h_elems h) \<and>
    h_less h' = h_less h \<and> h_hash h' = h_hash h \<and> h_elem_cnt h' = h_elem_cnt h \<and>
    (mem \<longrightarrow> unat (h_elem_cnt h') < 4 * unat (h_bucket_cnt h') \<and>
      (h_bucket_cnt h' = 4 \<or> 2 * unat (h_bucket_cnt h') \<le> unat (h_elem_cnt h')))"
proof -
  note ok = assms [unfolded hash_ok_def]
  obtain k where k: "pow2_loop (if h_elem_cnt h div BEST_ELEMS_PER_BUCKET < 4 then 4
      else h_elem_cnt h div BEST_ELEMS_PER_BUCKET) = Some (2 ^ k)" "2 \<le> k" "k < 32"
    "unat (h_elem_cnt h) < 4 * 2 ^ k" "k = 2 \<or> 2 * 2 ^ k \<le> unat (h_elem_cnt h)"
    by (rule bucket_count [of "h_elem_cnt h"])
  have uk: "unat (2 ^ k :: u32) = 2 ^ k" using k(3) by (simp add: unat_exp_32)
  let ?h0 = "h\<lparr>h_buckets := replicate (unat (2 ^ k :: u32)) [], h_bucket_cnt := 2 ^ k\<rparr>"
  let ?h' = "fold move_elem (h_elems h) ?h0"
  have r: "rehash mem h = Some (if 2 ^ k = h_bucket_cnt h \<or> \<not> mem then h else ?h')"
    using k(1) by (simp add: rehash_def Let_def fold_fold h_elems_def)
  have p: "placed ?h0" by (rule placed_empty [OF k(2,3)])
  note F = fold_placed [OF p, of "h_elems h"]
  have m: "mset (h_elems ?h') = mset (h_elems h)" using F by (simp add: h_elems_def)
  have "content_ok ?h' (h_elems ?h')" using ok mset_content [OF m, of ?h' h] F by simp
  moreover have "funcs_ok ?h'" using ok F by (simp add: funcs_ok_def same_key_def)
  moreover have "unat (h_elem_cnt ?h') = length (h_elems ?h')" using ok F mset_eq_length [OF m] by simp
  ultimately have "hash_ok ?h'" using F by (simp add: hash_ok_def)
  moreover have "set (h_elems ?h') = set (h_elems h)" using m by (rule mset_eq_setD)
  moreover have "k = 2 \<Longrightarrow> (2 ^ k :: u32) = 4" by simp
  ultimately show ?thesis using F r assms k(4,5) uk by auto
qed

section \<open>The contract of a table\<close>

lemma option_eqI: "(\<And>x. a = Some x \<longleftrightarrow> b = Some x) \<Longrightarrow> a = b"
  by (metis not_None_eq)

text \<open>
  What \<^verbatim>\<open>hash.h\<close> promises to a client: at most one element per key, found, inserted, replaced
  and deleted by its key. \<open>room\<close>: the element count does not wrap.
\<close>

locale keyed_table =
  fixes ok :: "'t \<Rightarrow> bool" and elems :: "'t \<Rightarrow> 'e set" and same :: "'t \<Rightarrow> 'e \<Rightarrow> 'e \<Rightarrow> bool"
    and room :: "'t \<Rightarrow> bool" and sz :: "'t \<Rightarrow> nat"
    and fnd :: "'t \<Rightarrow> 'e \<Rightarrow> 'e option"
    and ins rep del :: "bool \<Rightarrow> 'e \<Rightarrow> 't \<Rightarrow> ('e option \<times> 't) option"
  assumes fnd: "ok h \<Longrightarrow> fnd h e = Some x \<longleftrightarrow> x \<in> elems h \<and> same h x e"
    and same_refl: "ok h \<Longrightarrow> same h e e"
    and same_trans: "ok h \<Longrightarrow> same h a b \<Longrightarrow> same h c b \<Longrightarrow> same h a c"
    and sz: "ok h \<Longrightarrow> sz h = card (elems h) \<and> finite (elems h)"
    and ins: "ok h \<Longrightarrow> room h \<Longrightarrow> \<exists>h'. ins mem e h = Some (fnd h e, h') \<and> ok h' \<and> same h' = same h \<and>
      elems h' = (if fnd h e = None then insert e (elems h) else elems h)"
    and rep: "ok h \<Longrightarrow> room h \<Longrightarrow> \<exists>h'. rep mem e h = Some (fnd h e, h') \<and> ok h' \<and> same h' = same h \<and>
      elems h' = insert e (elems h - set_option (fnd h e))"
    and del: "ok h \<Longrightarrow> \<exists>h'. del mem e h = Some (fnd h e, h') \<and> ok h' \<and> same h' = same h \<and>
      elems h' = elems h - set_option (fnd h e)"
begin

lemma same_sym: "ok h \<Longrightarrow> same h a b \<Longrightarrow> same h b a"
  using same_trans [of h b b a] same_refl by blast

lemma fnd_None: "ok h \<Longrightarrow> fnd h e = None \<longleftrightarrow> (\<forall>x\<in>elems h. \<not> same h x e)"
  using fnd by (metis not_None_eq)

lemma fnd_key: "ok h \<Longrightarrow> same h a b \<Longrightarrow> fnd h a = fnd h b"
  by (rule option_eqI) (meson fnd same_sym same_trans)

lemma unique: "ok h \<Longrightarrow> x \<in> elems h \<Longrightarrow> y \<in> elems h \<Longrightarrow> same h x y \<Longrightarrow> x = y"
  using fnd [of h y x] fnd [of h y y] same_refl by simp

lemma without: "ok h \<Longrightarrow> x \<in> elems h - set_option (fnd h e) \<longleftrightarrow> x \<in> elems h \<and> \<not> same h x e"
proof (cases "fnd h e")
  case None
  assume "ok h"
  then show ?thesis using None fnd_None [of h e] by auto
next
  case (Some y)
  assume h: "ok h"
  then have "y \<in> elems h" "same h y e" using fnd [OF h] Some by auto
  then show ?thesis using Some unique [OF h, of x y] same_trans [OF h, of x e y] by auto
qed

text \<open>After an insertion the key is bound, to the new element unless it was bound before.\<close>

lemma insert_map:
  assumes h: "ok h" "room h"
  shows "\<exists>h'. ins mem e h = Some (fnd h e, h') \<and> ok h' \<and>
    fnd h' = (\<lambda>k. if same h e k then Some (case fnd h e of None \<Rightarrow> e | Some x \<Rightarrow> x) else fnd h k) \<and>
    sz h' = (if fnd h e = None then 1 else 0) + sz h"
proof -
  obtain h' where h': "ins mem e h = Some (fnd h e, h')" "ok h'" "same h' = same h"
    "elems h' = (if fnd h e = None then insert e (elems h) else elems h)"
    using ins [OF h] by blast
  have "fnd h' k = (if same h e k then Some (case fnd h e of None \<Rightarrow> e | Some x \<Rightarrow> x) else fnd h k)" for k
  proof (cases "fnd h e")
    case None
    then have n: "\<not> same h x e" if "x \<in> elems h" for x using that fnd_None [OF h(1)] by blast
    show ?thesis
    proof (rule option_eqI)
      fix x
      have "fnd h' k = Some x \<longleftrightarrow> (x = e \<or> x \<in> elems h) \<and> same h x k"
        using fnd [OF h'(2)] h'(3,4) None by simp
      also have "\<dots> \<longleftrightarrow> (if same h e k then x = e else x \<in> elems h \<and> same h x k)"
        using n same_trans [OF h(1)] by auto
      finally show "fnd h' k = Some x \<longleftrightarrow> (if same h e k then Some (case fnd h e of None \<Rightarrow> e | Some x \<Rightarrow> x) else fnd h k) = Some x"
        using None fnd [OF h(1)] by auto
    qed
  next
    case (Some y)
    then have "elems h' = elems h" using h'(4) by simp
    then have "fnd h' k = fnd h k" using fnd [OF h'(2)] h'(3) fnd [OF h(1)] by (intro option_eqI) simp
    moreover have "fnd h k = Some y" if "same h e k" using fnd_key [OF h(1) that] Some by simp
    ultimately show ?thesis using Some by simp
  qed
  moreover have "e \<notin> elems h" if "fnd h e = None" using that fnd_None [OF h(1)] same_refl [OF h(1)] by blast
  ultimately show ?thesis using h' sz [OF h(1)] sz [OF h'(2)] by (intro exI [of _ h']) (auto simp: fun_eq_iff)
qed

lemma delete_map:
  assumes h: "ok h"
  shows "\<exists>h'. del mem e h = Some (fnd h e, h') \<and> ok h' \<and>
    fnd h' = (\<lambda>k. if same h e k then None else fnd h k) \<and>
    sz h = (if fnd h e = None then 0 else 1) + sz h'"
proof -
  obtain h' where h': "del mem e h = Some (fnd h e, h')" "ok h'" "same h' = same h" "elems h' = elems h - set_option (fnd h e)"
    using del [OF h] by blast
  have "fnd h' k = (if same h e k then None else fnd h k)" for k
  proof (rule option_eqI)
    fix x
    have "fnd h' k = Some x \<longleftrightarrow> x \<in> elems h \<and> \<not> same h x e \<and> same h x k"
      using fnd [OF h'(2), of k x] h'(3,4) without [OF h, of x e] by auto
    also have "\<dots> \<longleftrightarrow> \<not> same h e k \<and> x \<in> elems h \<and> same h x k"
      using same_trans [OF h] same_sym [OF h] by blast
    finally show "fnd h' k = Some x \<longleftrightarrow> (if same h e k then None else fnd h k) = Some x" using fnd [OF h] by simp
  qed
  moreover have "sz h = (if fnd h e = None then 0 else 1) + sz h'"
  proof (cases "fnd h e")
    case (Some y)
    then have "y \<in> elems h" using fnd [OF h] by simp
    then show ?thesis using h'(4) Some sz [OF h] sz [OF h'(2)] card_Suc_Diff1 [of "elems h" y]
      by (simp del: card_Diff_insert)
  qed (use h'(4) sz [OF h] sz [OF h'(2)] in simp)
  ultimately show ?thesis using h' by (intro exI [of _ h']) (auto simp: fun_eq_iff)
qed

lemma replace_map:
  assumes h: "ok h" "room h"
  shows "\<exists>h'. rep mem e h = Some (fnd h e, h') \<and> ok h' \<and>
    fnd h' = (\<lambda>k. if same h e k then Some e else fnd h k) \<and>
    sz h' = (if fnd h e = None then 1 else 0) + sz h"
proof -
  obtain h' where h': "rep mem e h = Some (fnd h e, h')" "ok h'" "same h' = same h"
    "elems h' = insert e (elems h - set_option (fnd h e))"
    using rep [OF h] by blast
  have el: "x \<in> elems h' \<longleftrightarrow> x = e \<or> x \<in> elems h \<and> \<not> same h x e" for x
    using h'(4) without [OF h(1), of x e] by auto
  have "fnd h' k = (if same h e k then Some e else fnd h k)" for k
  proof (rule option_eqI)
    fix x
    have f: "fnd h' k = Some x \<longleftrightarrow> (x = e \<or> x \<in> elems h \<and> \<not> same h x e) \<and> same h x k"
      using fnd [OF h'(2), of k x] h'(3) el by simp
    have "fnd h' k = Some x \<longleftrightarrow> (if same h e k then x = e else x \<in> elems h \<and> same h x k)"
    proof (cases "same h e k")
      case True
      then show ?thesis using f same_trans [OF h(1), of x k e] by auto
    next
      case False
      then have "\<not> same h x e" if "same h x k"
        using that same_trans [OF h(1), of e x k] same_sym [OF h(1)] by blast
      with False show ?thesis using f by auto
    qed
    then show "fnd h' k = Some x \<longleftrightarrow> (if same h e k then Some e else fnd h k) = Some x" using fnd [OF h(1)] by auto
  qed
  moreover have "sz h' = (if fnd h e = None then 1 else 0) + sz h"
  proof (cases "fnd h e")
    case None
    then have "e \<notin> elems h" using fnd_None [OF h(1)] same_refl [OF h(1)] by blast
    then show ?thesis using h'(4) None sz [OF h(1)] sz [OF h'(2)] by simp
  next
    case (Some y)
    then have "y \<in> elems h" "same h y e" using fnd [OF h(1)] by auto
    moreover have "e \<notin> elems h - {y}" using unique [OF h(1) \<open>y \<in> elems h\<close>, of e] \<open>same h y e\<close> by auto
    ultimately show ?thesis using h'(4) Some sz [OF h(1)] sz [OF h'(2)] card_Suc_Diff1 [of "elems h" y]
      by (simp del: card_Diff_insert)
  qed
  ultimately show ?thesis using h' by (intro exI [of _ h']) (auto simp: fun_eq_iff)
qed

end

section \<open>The operations keep the contract\<close>

lemma concat_remove:
  "distinct (concat xs) \<Longrightarrow> e \<in> set (concat xs) \<Longrightarrow> concat (map (remove1 e) xs) = remove1 e (concat xs)"
proof (induction xs)
  case (Cons x xs)
  show ?case
  proof (cases "e \<in> set x")
    case True
    then have "e \<notin> set (concat xs)" using Cons.prems(1) by auto
    then have "map (remove1 e) xs = xs" by (auto intro!: map_idI remove1_idem)
    with True show ?thesis by (simp add: remove1_append)
  next
    case False
    with Cons show ?thesis by (simp add: remove1_append remove1_idem)
  qed
qed simp

lemma h_cnt_sel [simp]:
  "placed (h\<lparr>h_elem_cnt := c\<rparr>) = placed h" "h_elems (h\<lparr>h_elem_cnt := c\<rparr>) = h_elems h"
  by (simp_all add: placed_def find_bucket_def h_elems_def)

lemma insert_elem_ok:
  assumes h: "hash_ok h" "unat (h_elem_cnt h) < 2 ^ 32 - 1" and n: "\<forall>x\<in>set (h_elems h). \<not> same_key h x e"
  shows "hash_ok (insert_elem (find_bucket h e) e h)" "set (h_elems (insert_elem (find_bucket h e) e h)) = insert e (set (h_elems h))"
proof -
  note ok = h(1) [unfolded hash_ok_def]
  let ?h = "insert_elem (find_bucket h e) e h"
  have eq: "?h = (move_elem e h)\<lparr>h_elem_cnt := h_elem_cnt h + 1\<rparr>"
    by (simp add: insert_elem_def move_elem_def push_bucket_def)
  note P = push_placed [OF conjunct1 [OF ok], of e]
  have m: "mset (h_elems ?h) = add_mset e (mset (h_elems h))" unfolding eq using P(2) by simp
  then show s: "set (h_elems ?h) = insert e (set (h_elems h))" by (metis set_mset_add_mset_insert set_mset_mset)
  have "placed ?h" unfolding eq using P(1) by simp
  moreover have f: "h_less ?h = h_less h" "h_hash ?h = h_hash h" by (simp_all add: insert_elem_def push_bucket_def)
  then have "funcs_ok ?h" using ok by (simp add: funcs_ok_def same_key_def)
  moreover have sym: "same_key h a b \<Longrightarrow> same_key h b a" for a b by (simp add: same_key_def)
  have "e \<notin> set (h_elems h)" using n ok by (auto simp: same_key_def funcs_ok_def less_func.irrefl)
  then have "content_ok h (e # h_elems h)" using ok n sym unfolding content_ok_def by auto
  then have "content_ok ?h (h_elems ?h)" using mset_content [of "h_elems ?h" "e # h_elems h" ?h h] m f by simp
  moreover have "unat (h_elem_cnt h + 1) = unat (h_elem_cnt h) + 1" using h(2) by (simp add: unat_word_ariths)
  then have "unat (h_elem_cnt ?h) = length (h_elems ?h)"
    using ok arg_cong [OF m, of size] by (simp add: insert_elem_def push_bucket_def)
  ultimately show "hash_ok ?h" by (simp add: hash_ok_def)
qed

lemma remove_elem_ok:
  assumes h: "hash_ok h" and e: "e \<in> set (h_elems h)"
  shows "hash_ok (remove_elem e h)" "set (h_elems (remove_elem e h)) = set (h_elems h) - {e}"
    "unat (h_elem_cnt (remove_elem e h)) + 1 = unat (h_elem_cnt h)"
proof -
  note ok = h [unfolded hash_ok_def]
  let ?h = "remove_elem e h"
  have d: "distinct (h_elems h)" using ok by (simp add: content_ok_def)
  have r: "h_elems ?h = remove1 e (h_elems h)"
    using concat_remove d e by (simp add: h_elems_def remove_elem_def)
  then show s: "set (h_elems ?h) = set (h_elems h) - {e}" using d by simp
  have sk: "same_key ?h = same_key h" by (simp add: fun_eq_iff same_key_def remove_elem_def)
  have fb: "find_bucket ?h = find_bucket h" by (simp add: fun_eq_iff find_bucket_def remove_elem_def)
  have "x \<in> set (h_buckets h ! i)" if "x \<in> set (remove1 e (h_buckets h ! i))" for x i
    using that by (rule notin_set_remove1 [rotated, THEN notE, rotated, THEN ccontr]) simp
  then have "placed ?h" using ok unfolding placed_def fb by (auto simp: remove_elem_def)
  moreover have "funcs_ok ?h" using ok unfolding funcs_ok_def sk by (simp add: remove_elem_def)
  moreover have "content_ok ?h (h_elems ?h)" using ok s d unfolding content_ok_def sk by (simp add: r)
  moreover have "h_elem_cnt h \<noteq> 0" using ok e by (auto simp: unat_eq_zero)
  then show c: "unat (h_elem_cnt ?h) + 1 = unat (h_elem_cnt h)"
    by (simp add: remove_elem_def unat_minus_one Suc_pred unat_gt_0)
  then have "unat (h_elem_cnt ?h) = length (h_elems ?h)" using ok r e by (simp add: length_remove1)
  ultimately show "hash_ok ?h" by (simp add: hash_ok_def)
qed


lemma hash_find_iff: "hash_ok h \<Longrightarrow> hash_find h e = Some x \<longleftrightarrow> x \<in> set (h_elems h) \<and> same_key h x e"
  by (simp add: hash_find_def find_elem_iff hash_ok_def)

lemma hash_find_None: "hash_ok h \<Longrightarrow> hash_find h e = None \<Longrightarrow> \<forall>x\<in>set (h_elems h). \<not> same_key h x e"
  by (metis hash_find_iff option.distinct(1))

abbreviation hash_room :: "'e hash \<Rightarrow> bool" where
  "hash_room h \<equiv> unat (h_elem_cnt h) < 2 ^ 32 - 1"

lemma same_key_less: "h_less h' = h_less h \<Longrightarrow> same_key h' = same_key h"
  by (simp add: fun_eq_iff same_key_def)

lemma hash_insert_ok:
  assumes h: "hash_ok h" "hash_room h"
  shows "\<exists>h'. hash_insert mem e h = Some (hash_find h e, h') \<and> hash_ok h' \<and> same_key h' = same_key h \<and>
    set (h_elems h') = (if hash_find h e = None then insert e (set (h_elems h)) else set (h_elems h))"
proof (cases "hash_find h e")
  case None
  let ?h = "insert_elem (find_bucket h e) e h"
  note I = insert_elem_ok [OF h hash_find_None [OF h(1) None]]
  obtain h' where h': "rehash mem ?h = Some h'" "hash_ok h'" "set (h_elems h') = set (h_elems ?h)" "h_less h' = h_less ?h"
    using rehash_ok [OF I(1), of mem] by blast
  moreover have "h_less ?h = h_less h" by (simp add: insert_elem_def push_bucket_def)
  ultimately show ?thesis using None I(2) same_key_less [of h' h] by (simp add: hash_insert_def hash_find_def)
next
  case (Some x)
  obtain h' where "rehash mem h = Some h'" "hash_ok h'" "set (h_elems h') = set (h_elems h)" "h_less h' = h_less h"
    using rehash_ok [OF h(1), of mem] by blast
  then show ?thesis using Some same_key_less [of h' h] by (simp add: hash_insert_def hash_find_def)
qed

lemma hash_delete_ok:
  assumes h: "hash_ok h"
  shows "\<exists>h'. hash_delete mem e h = Some (hash_find h e, h') \<and> hash_ok h' \<and> same_key h' = same_key h \<and>
    set (h_elems h') = set (h_elems h) - set_option (hash_find h e)"
proof (cases "hash_find h e")
  case None
  then show ?thesis using h by (simp add: hash_delete_def hash_find_def)
next
  case (Some x)
  then have x: "x \<in> set (h_elems h)" using hash_find_iff [OF h] by blast
  note R = remove_elem_ok [OF h x]
  obtain h' where h': "rehash mem (remove_elem x h) = Some h'" "hash_ok h'" "set (h_elems h') = set (h_elems (remove_elem x h))"
    "h_less h' = h_less (remove_elem x h)"
    using rehash_ok [OF R(1), of mem] by blast
  then show ?thesis using Some R(2) same_key_less [of h' h] by (simp add: hash_delete_def hash_find_def remove_elem_def)
qed

lemma hash_replace_ok:
  assumes h: "hash_ok h" "hash_room h"
  shows "\<exists>h'. hash_replace mem e h = Some (hash_find h e, h') \<and> hash_ok h' \<and> same_key h' = same_key h \<and>
    set (h_elems h') = insert e (set (h_elems h) - set_option (hash_find h e))"
proof -
  let ?h1 = "case hash_find h e of None \<Rightarrow> h | Some x \<Rightarrow> remove_elem x h"
  have 1: "hash_ok ?h1 \<and> set (h_elems ?h1) = set (h_elems h) - set_option (hash_find h e) \<and> hash_room ?h1 \<and>
    h_less ?h1 = h_less h \<and> h_hash ?h1 = h_hash h \<and> h_bucket_cnt ?h1 = h_bucket_cnt h"
  proof (cases "hash_find h e")
    case None
    then show ?thesis using h by simp
  next
    case (Some x)
    then have "x \<in> set (h_elems h)" using hash_find_iff [OF h(1)] by blast
    note R = remove_elem_ok [OF h(1) this]
    have "h_less (remove_elem x h) = h_less h" "h_hash (remove_elem x h) = h_hash h"
      "h_bucket_cnt (remove_elem x h) = h_bucket_cnt h" by (simp_all add: remove_elem_def)
    then show ?thesis using Some R h(2) by simp
  qed
  note 1 = 1 [THEN conjunct1] 1 [THEN conjunct2, THEN conjunct1] 1 [THEN conjunct2, THEN conjunct2, THEN conjunct1]
    1 [THEN conjunct2, THEN conjunct2, THEN conjunct2, THEN conjunct1] 1 [THEN conjunct2, THEN conjunct2, THEN conjunct2, THEN conjunct2]
  have fb: "find_bucket ?h1 e = find_bucket h e" using 1 by (simp add: find_bucket_def)
  have n: "\<forall>x\<in>set (h_elems ?h1). \<not> same_key ?h1 x e"
  proof
    fix x assume x: "x \<in> set (h_elems ?h1)"
    show "\<not> same_key ?h1 x e"
    proof
      assume "same_key ?h1 x e"
      then have "hash_find h e = Some x"
        using x 1(2) hash_find_iff [OF h(1), of e x] same_key_less [OF 1(4)] by simp
      then show False using x 1(2) by simp
    qed
  qed
  let ?h2 = "insert_elem (find_bucket ?h1 e) e ?h1"
  note I = insert_elem_ok [OF 1(1,3) n]
  obtain h' where h': "rehash mem ?h2 = Some h'" "hash_ok h'" "set (h_elems h') = set (h_elems ?h2)" "h_less h' = h_less ?h2"
    using rehash_ok [OF I(1), of mem] by blast
  moreover have "h_less ?h2 = h_less h" by (simp add: insert_elem_def push_bucket_def 1(4))
  ultimately show ?thesis using I(2) 1(2) same_key_less [of h' h] fb by (simp add: hash_replace_def hash_find_def)
qed

interpretation ht: keyed_table hash_ok "\<lambda>h. set (h_elems h)" same_key hash_room "\<lambda>h. unat (hash_size h)"
  hash_find hash_insert hash_replace hash_delete
proof unfold_locales
  show "same_key h e e" if "hash_ok h" for h and e :: 'e
    using that by (auto simp: hash_ok_def funcs_ok_def same_key_def less_func.irrefl)
  show "same_key h a c" if "hash_ok h" "same_key h a b" "same_key h c b" for h and a b c :: 'e
    using that same_key_trans by (auto simp: hash_ok_def)
  show "unat (hash_size h) = card (set (h_elems h)) \<and> finite (set (h_elems h))" if "hash_ok h" for h :: "'e hash"
    using that by (auto simp: hash_ok_def content_ok_def hash_size_def distinct_card)
qed (rule hash_find_iff hash_insert_ok hash_replace_ok hash_delete_ok; assumption)+

lemma hash_init_ok:
  assumes "less_func lss" "\<And>a b. \<not> lss a b \<Longrightarrow> \<not> lss b a \<Longrightarrow> hash a = hash b"
  shows "hash_ok (snd (hash_init True hash lss))" "h_elems (snd (hash_init True hash lss)) = []"
proof -
  have "\<exists>k. 2 \<le> k \<and> k < 32 \<and> (4 :: u32) = 2 ^ k" by (rule exI [of _ 2]) simp
  then show "hash_ok (snd (hash_init True hash lss))" "h_elems (snd (hash_init True hash lss)) = []"
    using assms
    by (auto simp: hash_init_def hash_clear_def hash_ok_def placed_def funcs_ok_def content_ok_def h_elems_def same_key_def)
qed

section \<open>Iteration\<close>

text \<open>The elements that are still to come.\<close>

definition it_rest :: "'e hash \<Rightarrow> nat \<Rightarrow> nat \<Rightarrow> 'e list" where
  "it_rest h b p = drop p (h_buckets h ! b) @ concat (drop (Suc b) (h_buckets h))"

lemma next_loop_rest:
  assumes "length (h_buckets h) = unat (h_bucket_cnt h)" "b < length (h_buckets h)" "p \<le> length (h_buckets h ! b)"
  shows "case it_rest h b p of
      [] \<Rightarrow> it_pos (next_loop h b (Suc p)) = None
    | x # xs \<Rightarrow> (\<exists>b' p'. next_loop h b (Suc p) = \<lparr>it_bucket = b', it_pos = Some (Suc p')\<rparr> \<and> h_buckets h ! b' ! p' = x \<and>
        b' < length (h_buckets h) \<and> Suc p' \<le> length (h_buckets h ! b') \<and> it_rest h b' (Suc p') = xs)"
  using assms(2,3)
proof (induction "length (h_buckets h) - b" arbitrary: b p rule: less_induct)
  case less
  let ?bk = "h_buckets h ! b"
  show ?case
  proof (cases "p = length ?bk")
    case True
    then have r: "it_rest h b p = concat (drop (Suc b) (h_buckets h))" by (simp add: it_rest_def)
    show ?thesis
    proof (cases "Suc b < length (h_buckets h)")
      case False
      then have "next_loop h b (Suc p) = \<lparr>it_bucket = b + 1, it_pos = None\<rparr>"
        using True assms(1) by (simp add: next_loop.simps)
      with False r show ?thesis by simp
    next
      case s: True
      have n: "next_loop h b (Suc p) = next_loop h (Suc b) (Suc 0)"
        using True s assms(1) by (subst next_loop.simps) simp
      have r2: "it_rest h b p = it_rest h (Suc b) 0"
        using s r by (simp add: it_rest_def Cons_nth_drop_Suc [symmetric])
      show ?thesis unfolding n r2 by (rule less.hyps) (use s less.prems in auto)
    qed
  next
    case False
    then have "p < length ?bk" using less.prems(2) by simp
    then have "it_rest h b p = ?bk ! p # it_rest h b (Suc p)" by (simp add: it_rest_def Cons_nth_drop_Suc [symmetric])
    moreover have "next_loop h b (Suc p) = \<lparr>it_bucket = b, it_pos = Some (Suc p)\<rparr>"
      using False by (subst next_loop.simps) simp
    ultimately show ?thesis using \<open>p < length ?bk\<close> less.prems by auto
  qed
qed

text \<open>The iteration idiom of \<^verbatim>\<open>hash.c\<close>: the elements that \<open>n\<close> calls of \<^verbatim>\<open>hash_next\<close> return, up to the null pointer.\<close>

fun iterate :: "nat \<Rightarrow> 'e hash \<Rightarrow> hash_iterator \<Rightarrow> 'e list" where
  "iterate 0 h i = []"
| "iterate (Suc n) h i =
     (case hash_next h i of Some (Some x, i) \<Rightarrow> x # iterate n h i | _ \<Rightarrow> [])"

lemma iterate_rest:
  assumes "length (h_buckets h) = unat (h_bucket_cnt h)" "b < length (h_buckets h)" "p \<le> length (h_buckets h ! b)"
    "length (it_rest h b p) < n"
  shows "iterate n h \<lparr>it_bucket = b, it_pos = Some p\<rparr> = it_rest h b p"
  using assms(2-)
proof (induction n arbitrary: b p)
  case (Suc n)
  note R = next_loop_rest [OF assms(1) Suc.prems(1,2)]
  show ?case
  proof (cases "it_rest h b p")
    case Nil
    then show ?thesis using R by (simp add: hash_next_def hash_cur_def Let_def)
  next
    case (Cons x xs)
    then obtain b' p' where n: "next_loop h b (Suc p) = \<lparr>it_bucket = b', it_pos = Some (Suc p')\<rparr>" "h_buckets h ! b' ! p' = x"
      "b' < length (h_buckets h)" "Suc p' \<le> length (h_buckets h ! b')" "it_rest h b' (Suc p') = xs"
      using R by auto
    then show ?thesis using Suc.IH [OF n(3,4)] Suc.prems(3) Cons by (simp add: hash_next_def hash_cur_def Let_def)
  qed
qed simp

section \<open>Properties\<close>

text \<open>A table of addresses that hash to themselves and are compared as numbers.\<close>

definition demo_hash :: "u32 hash" where
  "demo_hash = snd (hash_init True (\<lambda>e. e) (<))"

lemma demo_hash_ok: "hash_ok demo_hash" "h_elems demo_hash = []" "h_elem_cnt demo_hash = 0"
proof -
  have "less_func ((<) :: u32 \<Rightarrow> u32 \<Rightarrow> bool)" by unfold_locales auto
  then show "hash_ok demo_hash" "h_elems demo_hash = []"
    unfolding demo_hash_def using hash_init_ok [of "(<)" "\<lambda>e :: u32. e"] by auto
  show "h_elem_cnt demo_hash = 0" by (simp add: demo_hash_def hash_init_def hash_clear_def)
qed

text \<open>
  C29 A hash table is a partial map from keys to elements: \<^verbatim>\<open>hash_insert\<close> returns, reports the element that the key was bound to,
  binds the key to the new element only if it was free, leaves every other key alone and keeps the
  table well-formed, whether or not \<^verbatim>\<open>rehash\<close> changes the number of buckets or gets no memory for that.
\<close>

theorem hash_insert_refines_map:
  assumes "hash_ok h" and "unat (h_elem_cnt h) < 2 ^ 32 - 1"
  shows "\<exists>h'. hash_insert mem e h = Some (hash_find h e, h') \<and> hash_ok h' \<and>
    hash_find h' = (\<lambda>k. if same_key h e k then Some (case hash_find h e of None \<Rightarrow> e | Some x \<Rightarrow> x) else hash_find h k) \<and>
    unat (hash_size h') = (if hash_find h e = None then 1 else 0) + unat (hash_size h)"
  using assms by (rule ht.insert_map)

theorem hash_insert_refines_map_witness:
  "\<exists>h'. hash_insert True 7 demo_hash = Some (None, h') \<and> hash_ok h' \<and> hash_find h' 7 = Some 7 \<and> unat (hash_size h') = 1"
proof -
  have "hash_find demo_hash 7 = None" using hash_find_iff [OF demo_hash_ok(1)] demo_hash_ok(2) by (metis empty_iff empty_set not_None_eq)
  moreover have "same_key demo_hash 7 7" by (rule ht.same_refl [OF demo_hash_ok(1)])
  moreover obtain h' where "hash_insert True 7 demo_hash = Some (hash_find demo_hash 7, h')" "hash_ok h'"
    "hash_find h' = (\<lambda>k. if same_key demo_hash 7 k then Some (case hash_find demo_hash 7 of None \<Rightarrow> 7 | Some x \<Rightarrow> x) else hash_find demo_hash k)"
    "unat (hash_size h') = (if hash_find demo_hash 7 = None then 1 else 0) + unat (hash_size demo_hash)"
    using hash_insert_refines_map [of demo_hash True 7] demo_hash_ok by auto
  ultimately show ?thesis by (simp add: hash_size_def demo_hash_ok)
qed

text \<open>
  C30 \<^verbatim>\<open>hash_delete\<close> unbinds exactly the given key and \<^verbatim>\<open>hash_replace\<close> binds it to the new element, both return the element
  that was bound, and every other key keeps its element; the element counts follow.
\<close>

theorem hash_delete_replace_refine_map:
  assumes "hash_ok h" and "unat (h_elem_cnt h) < 2 ^ 32 - 1"
  shows "(\<exists>h'. hash_delete mem e h = Some (hash_find h e, h') \<and> hash_ok h' \<and>
      hash_find h' = (\<lambda>k. if same_key h e k then None else hash_find h k) \<and>
      unat (hash_size h) = (if hash_find h e = None then 0 else 1) + unat (hash_size h')) \<and>
    (\<exists>h'. hash_replace mem e h = Some (hash_find h e, h') \<and> hash_ok h' \<and>
      hash_find h' = (\<lambda>k. if same_key h e k then Some e else hash_find h k) \<and>
      unat (hash_size h') = (if hash_find h e = None then 1 else 0) + unat (hash_size h))"
  using ht.delete_map [OF assms(1)] ht.replace_map [OF assms] by blast

theorem hash_delete_replace_refine_map_witness:
  "\<exists>h'. hash_replace True 9 demo_hash = Some (hash_find demo_hash 9, h') \<and> hash_ok h' \<and> hash_find h' 9 = Some 9"
  using hash_delete_replace_refine_map [of demo_hash True 9] demo_hash_ok ht.same_refl [OF demo_hash_ok(1), of 9]
  by auto

text \<open>
  Iterating with \<^verbatim>\<open>hash_first\<close> and \<^verbatim>\<open>hash_next\<close> returns every element of the table exactly once and then the null
  pointer, in the order in which \<^verbatim>\<open>hash_apply\<close> visits them.
\<close>

theorem hash_iteration_complete:
  assumes "hash_ok h" and "unat (hash_size h) < n"
  shows "iterate n h (hash_first h) = hash_apply (\<lambda>e es. es @ [e]) h [] \<and> distinct (iterate n h (hash_first h)) \<and>
    (\<forall>e. e \<in> set (iterate n h (hash_first h)) \<longleftrightarrow> hash_find h e = Some e) \<and>
    length (iterate n h (hash_first h)) = unat (hash_size h)"
proof -
  have p: "placed h" and ok: "content_ok h (h_elems h)" "unat (h_elem_cnt h) = length (h_elems h)"
    using assms(1) by (auto simp: hash_ok_def)
  have l: "length (h_buckets h) = unat (h_bucket_cnt h)" using p by (simp add: placed_def)
  have b: "0 < length (h_buckets h)" using find_bucket_bound [OF p] by (metis gr0I not_less_zero)
  then have r: "it_rest h 0 0 = h_elems h" by (cases "h_buckets h") (simp_all add: it_rest_def h_elems_def)
  then have i: "iterate n h (hash_first h) = h_elems h"
    using iterate_rest [OF l b, of 0 n] assms(2) ok(2) by (simp add: hash_first_def hash_size_def)
  have "fold (\<lambda>e es. es @ [e]) xs ys = ys @ xs" for xs ys :: "'a list" by (induction xs arbitrary: ys) auto
  then have "hash_apply (\<lambda>e es. es @ [e]) h [] = h_elems h" by (simp add: hash_apply_def fold_fold h_elems_def)
  moreover have "e \<in> set (h_elems h) \<longleftrightarrow> hash_find h e = Some e" for e
    using hash_find_iff [OF assms(1)] ht.same_refl [OF assms(1)] by simp
  ultimately show ?thesis using i ok by (simp add: content_ok_def hash_size_def)
qed

theorem hash_iteration_complete_witness: "iterate 5 demo_hash (hash_first demo_hash) = [] \<and> hash_ok demo_hash"
proof -
  have "unat (hash_size demo_hash) < 5" by (simp add: hash_size_def demo_hash_ok)
  then show ?thesis using hash_iteration_complete [OF demo_hash_ok(1), of 5] demo_hash_ok by (auto simp: hash_size_def)
qed

text \<open>
  The load of a table: after an insertion that found memory the table has fewer than four elements per bucket,
  and, unless it has the minimum of four buckets, at least two; so it neither degenerates nor wastes buckets.
\<close>

lemma hash_load_bounded:
  assumes "hash_ok h" and "unat (h_elem_cnt h) < 2 ^ 32 - 1" and "hash_insert True e h = Some (old, h')"
  shows "unat (h_elem_cnt h') < 4 * unat (h_bucket_cnt h') \<and>
    (h_bucket_cnt h' = 4 \<or> 2 * unat (h_bucket_cnt h') \<le> unat (h_elem_cnt h')) \<and> length (h_buckets h') = unat (h_bucket_cnt h')"
proof -
  let ?h = "if hash_find h e = None then insert_elem (find_bucket h e) e h else h"
  have ok: "hash_ok ?h" using assms(1) insert_elem_ok [OF assms(1,2) hash_find_None [OF assms(1)], of e] by simp
  have r: "rehash True ?h = Some h'"
    using assms(3) by (auto simp: hash_insert_def hash_find_def Let_def bind_eq_Some_conv)
  with rehash_ok [OF ok, of True] have "hash_ok h'" and
    l: "unat (h_elem_cnt h') < 4 * unat (h_bucket_cnt h') \<and> (h_bucket_cnt h' = 4 \<or> 2 * unat (h_bucket_cnt h') \<le> unat (h_elem_cnt h'))"
    by auto
  then show ?thesis by (simp add: hash_ok_def placed_def)
qed

lemma hash_load_bounded_witness:
  "\<exists>h'. hash_insert True 3 demo_hash = Some (hash_find demo_hash 3, h') \<and> unat (h_elem_cnt h') < 4 * unat (h_bucket_cnt h')"
proof -
  obtain h' where h': "hash_insert True 3 demo_hash = Some (hash_find demo_hash 3, h')"
    using hash_insert_ok [OF demo_hash_ok(1)] demo_hash_ok(3) by fastforce
  then show ?thesis using hash_load_bounded [OF demo_hash_ok(1) _ h'] demo_hash_ok(3) by simp
qed

end
