(* ===== verification/C_String.thy ===== *)
theory C_String
  imports Pintos_Prelude "HOL-Library.Sublist"
begin

text \<open>
  The memory and string functions of \<^verbatim>\<open>lib/string.c\<close>, on a memory of bytes. A loop that is
  bounded by a size is a recursion on it; a loop that runs up to a null byte is a \<open>partial_function\<close>, since without one it
  does not end. \<open>None\<close> is a failed assertion or a loop that does not end. \<open>cstr m p xs\<close>: the memory
  holds the string \<open>xs\<close> at \<open>p\<close>, with its null byte; the lemmas show what each function does to such strings.
\<close>

type_synonym mem = "addr \<Rightarrow> u8"

section \<open>Blocks of memory\<close>

fun copy_up :: "nat \<Rightarrow> addr \<Rightarrow> addr \<Rightarrow> mem \<Rightarrow> mem" where
  "copy_up 0 dst src m = m"
| "copy_up (Suc sz) dst src m = copy_up sz (dst + 1) (src + 1) (m(dst := m src))"

fun copy_down :: "nat \<Rightarrow> addr \<Rightarrow> addr \<Rightarrow> mem \<Rightarrow> mem" where
  "copy_down 0 dst src m = m"
| "copy_down (Suc sz) dst src m = copy_down sz (dst - 1) (src - 1) (m(dst - 1 := m (src - 1)))"

definition memcpy :: "addr \<Rightarrow> addr \<Rightarrow> nat \<Rightarrow> mem \<Rightarrow> (addr \<times> mem) option" where
  "memcpy dst src sz m = do {
     ASSERT (dst \<noteq> NULL \<or> sz = 0);
     ASSERT (src \<noteq> NULL \<or> sz = 0);
     Some (dst, copy_up sz dst src m) }"

text \<open>The pointers have moved when \<^verbatim>\<open>memmove\<close> returns \<^verbatim>\<open>dst\<close>: up by the size, or down to where they started.\<close>

definition memmove :: "addr \<Rightarrow> addr \<Rightarrow> nat \<Rightarrow> mem \<Rightarrow> (addr \<times> mem) option" where
  "memmove dst src sz m = do {
     ASSERT (dst \<noteq> NULL \<or> sz = 0);
     ASSERT (src \<noteq> NULL \<or> sz = 0);
     if dst < src then Some (dst + sz, copy_up sz dst src m)
     else Some (dst + sz - sz, copy_down sz (dst + sz) (src + sz) m) }"

fun memcmp_loop :: "nat \<Rightarrow> addr \<Rightarrow> addr \<Rightarrow> mem \<Rightarrow> int" where
  "memcmp_loop 0 a b m = 0"
| "memcmp_loop (Suc sz) a b m =
     (if m a \<noteq> m b then (if m a > m b then 1 else -1) else memcmp_loop sz (a + 1) (b + 1) m)"

definition memcmp :: "addr \<Rightarrow> addr \<Rightarrow> nat \<Rightarrow> mem \<Rightarrow> int option" where
  "memcmp a b sz m = do {
     ASSERT (a \<noteq> NULL \<or> sz = 0);
     ASSERT (b \<noteq> NULL \<or> sz = 0);
     Some (memcmp_loop sz a b m) }"

fun memchr_loop :: "nat \<Rightarrow> addr \<Rightarrow> u8 \<Rightarrow> mem \<Rightarrow> addr" where
  "memchr_loop 0 block ch m = NULL"
| "memchr_loop (Suc sz) block ch m = (if m block = ch then block else memchr_loop sz (block + 1) ch m)"

definition memchr :: "addr \<Rightarrow> u8 \<Rightarrow> nat \<Rightarrow> mem \<Rightarrow> addr option" where
  "memchr block ch sz m = do {
     ASSERT (block \<noteq> NULL \<or> sz = 0);
     Some (memchr_loop sz block ch m) }"

fun memset_loop :: "nat \<Rightarrow> addr \<Rightarrow> u8 \<Rightarrow> mem \<Rightarrow> mem" where
  "memset_loop 0 dst v m = m"
| "memset_loop (Suc sz) dst v m = memset_loop sz (dst + 1) v (m(dst := v))"

definition memset :: "addr \<Rightarrow> u8 \<Rightarrow> nat \<Rightarrow> mem \<Rightarrow> (addr \<times> mem) option" where
  "memset dst v sz m = do {
     ASSERT (dst \<noteq> NULL \<or> sz = 0);
     Some (dst, memset_loop sz dst v m) }"

section \<open>Strings\<close>

partial_function (option) strcmp_loop :: "addr \<Rightarrow> addr \<Rightarrow> mem \<Rightarrow> int option" where
  "strcmp_loop a b m =
     (if m a \<noteq> 0 \<and> m a = m b then strcmp_loop (a + 1) (b + 1) m
      else Some (if m a < m b then -1 else if m a > m b then 1 else 0))"

definition strcmp :: "addr \<Rightarrow> addr \<Rightarrow> mem \<Rightarrow> int option" where
  "strcmp a b m = do { ASSERT (a \<noteq> NULL); ASSERT (b \<noteq> NULL); strcmp_loop a b m }"

partial_function (option) strchr_loop :: "addr \<Rightarrow> u8 \<Rightarrow> mem \<Rightarrow> addr option" where
  "strchr_loop string c m =
     (if m string = c then Some string
      else if m string = 0 then Some NULL
      else strchr_loop (string + 1) c m)"

definition strchr :: "addr \<Rightarrow> u8 \<Rightarrow> mem \<Rightarrow> addr option" where
  "strchr string c m = do { ASSERT (string \<noteq> NULL); strchr_loop string c m }"

partial_function (option) strcspn_loop :: "addr \<Rightarrow> addr \<Rightarrow> nat \<Rightarrow> mem \<Rightarrow> nat option" where
  "strcspn_loop string stp len m =
     (if m (string + len) = 0 then Some len
      else do {
        p \<leftarrow> strchr stp (m (string + len)) m;
        if p \<noteq> NULL then Some len else strcspn_loop string stp (len + 1) m })"

definition strcspn :: "addr \<Rightarrow> addr \<Rightarrow> mem \<Rightarrow> nat option" where
  "strcspn string stp m = strcspn_loop string stp 0 m"

partial_function (option) strpbrk :: "addr \<Rightarrow> addr \<Rightarrow> mem \<Rightarrow> addr option" where
  "strpbrk string stp m =
     (if m string = 0 then Some NULL
      else do {
        p \<leftarrow> strchr stp (m string) m;
        if p \<noteq> NULL then Some string else strpbrk (string + 1) stp m })"

partial_function (option) strrchr_loop :: "addr \<Rightarrow> u8 \<Rightarrow> addr \<Rightarrow> mem \<Rightarrow> addr option" where
  "strrchr_loop string c p m =
     (if m string = 0 then Some p
      else strrchr_loop (string + 1) c (if m string = c then string else p) m)"

definition strrchr :: "addr \<Rightarrow> u8 \<Rightarrow> mem \<Rightarrow> addr option" where
  "strrchr string c m = strrchr_loop string c NULL m"

partial_function (option) strspn_loop :: "addr \<Rightarrow> addr \<Rightarrow> nat \<Rightarrow> mem \<Rightarrow> nat option" where
  "strspn_loop string skip len m =
     (if m (string + len) = 0 then Some len
      else do {
        p \<leftarrow> strchr skip (m (string + len)) m;
        if p = NULL then Some len else strspn_loop string skip (len + 1) m })"

definition strspn :: "addr \<Rightarrow> addr \<Rightarrow> mem \<Rightarrow> nat option" where
  "strspn string skip m = strspn_loop string skip 0 m"

partial_function (option) strlen_loop :: "addr \<Rightarrow> mem \<Rightarrow> addr option" where
  "strlen_loop p m = (if m p \<noteq> 0 then strlen_loop (p + 1) m else Some p)"

definition strlen :: "addr \<Rightarrow> mem \<Rightarrow> nat option" where
  "strlen string m = do { ASSERT (string \<noteq> NULL); p \<leftarrow> strlen_loop string m; Some (p - string) }"

function strnlen_loop :: "addr \<Rightarrow> nat \<Rightarrow> nat \<Rightarrow> mem \<Rightarrow> nat" where
  "strnlen_loop string maxlen len m =
     (if m (string + len) \<noteq> 0 \<and> len < maxlen then strnlen_loop string maxlen (len + 1) m else len)"
  by auto
termination by (relation "measure (\<lambda>(string, maxlen, len, m). maxlen - len)") auto

declare strnlen_loop.simps [simp del]

definition strnlen :: "addr \<Rightarrow> nat \<Rightarrow> mem \<Rightarrow> nat" where
  "strnlen string maxlen m = strnlen_loop string maxlen 0 m"

text \<open>The loop of \<^verbatim>\<open>strstr\<close>: \<open>k\<close> positions are left to try from \<open>i\<close> on.\<close>

fun strstr_loop :: "nat \<Rightarrow> nat \<Rightarrow> addr \<Rightarrow> addr \<Rightarrow> nat \<Rightarrow> mem \<Rightarrow> addr option" where
  "strstr_loop 0 i haystack needle needle_len m = Some NULL"
| "strstr_loop (Suc k) i haystack needle needle_len m = do {
     c \<leftarrow> memcmp (haystack + i) needle needle_len m;
     if c = 0 then Some (haystack + i) else strstr_loop k (i + 1) haystack needle needle_len m }"

definition strstr :: "addr \<Rightarrow> addr \<Rightarrow> mem \<Rightarrow> addr option" where
  "strstr haystack needle m = do {
     haystack_len \<leftarrow> strlen haystack m;
     needle_len \<leftarrow> strlen needle m;
     if haystack_len \<ge> needle_len
     then strstr_loop (haystack_len - needle_len + 1) 0 haystack needle needle_len m
     else Some NULL }"

partial_function (option) skip_delims :: "addr \<Rightarrow> addr \<Rightarrow> mem \<Rightarrow> (addr + addr) option" where
  "skip_delims s delimiters m = do {
     p \<leftarrow> strchr delimiters (m s) m;
     if p \<noteq> NULL
     then (if m s = 0 then Some (Inl s) else skip_delims (s + 1) delimiters m)
     else Some (Inr s) }"

partial_function (option) skip_token :: "addr \<Rightarrow> addr \<Rightarrow> mem \<Rightarrow> addr option" where
  "skip_token s delimiters m = do {
     p \<leftarrow> strchr delimiters (m s) m;
     if p = NULL then skip_token (s + 1) delimiters m else Some s }"

text \<open>The result: the token, the new value of \<^verbatim>\<open>*save_ptr\<close> and the memory. \<open>save\<close> is its old value.\<close>

definition strtok_r :: "addr \<Rightarrow> addr \<Rightarrow> addr \<Rightarrow> mem \<Rightarrow> (addr \<times> addr \<times> mem) option" where
  "strtok_r s delimiters save m = do {
     ASSERT (delimiters \<noteq> NULL);
     let s = (if s = NULL then save else s);
     ASSERT (s \<noteq> NULL);
     r \<leftarrow> skip_delims s delimiters m;
     case r of
       Inl s \<Rightarrow> Some (NULL, s, m)
     | Inr token \<Rightarrow> do {
         s \<leftarrow> skip_token token delimiters m;
         Some (if m s \<noteq> 0 then (token, s + 1, m(s := 0)) else (token, s, m)) } }"

definition strlcpy :: "addr \<Rightarrow> addr \<Rightarrow> nat \<Rightarrow> mem \<Rightarrow> (nat \<times> mem) option" where
  "strlcpy dst src sz m = do {
     ASSERT (dst \<noteq> NULL);
     ASSERT (src \<noteq> NULL);
     src_len \<leftarrow> strlen src m;
     if sz > 0
     then do {
       let dst_len = sz - 1;
       let dst_len = (if src_len < dst_len then src_len else dst_len);
       (_, m) \<leftarrow> memcpy dst src dst_len m;
       Some (src_len, m(dst + dst_len := 0)) }
     else Some (src_len, m) }"

definition strlcat :: "addr \<Rightarrow> addr \<Rightarrow> nat \<Rightarrow> mem \<Rightarrow> (nat \<times> mem) option" where
  "strlcat dst src sz m = do {
     ASSERT (dst \<noteq> NULL);
     ASSERT (src \<noteq> NULL);
     src_len \<leftarrow> strlen src m;
     dst_len \<leftarrow> strlen dst m;
     if sz > 0 \<and> dst_len < sz
     then do {
       let copy_cnt = sz - dst_len - 1;
       let copy_cnt = (if src_len < copy_cnt then src_len else copy_cnt);
       (_, m) \<leftarrow> memcpy (dst + dst_len) src copy_cnt m;
       Some (src_len + dst_len, m(dst + dst_len + copy_cnt := 0)) }
     else Some (src_len + dst_len, m) }"

declare strcmp_loop.simps [code] strchr_loop.simps [code] strcspn_loop.simps [code] strpbrk.simps [code]
  strrchr_loop.simps [code] strspn_loop.simps [code] strlen_loop.simps [code] skip_delims.simps [code] skip_token.simps [code]

section \<open>Copying\<close>

lemma copy_up_eq:
  "dst \<le> src \<or> src + sz \<le> dst \<Longrightarrow>
     copy_up sz dst src m a = (if dst \<le> a \<and> a < dst + sz then m (src + (a - dst)) else m a)"
proof (induction sz arbitrary: dst src m)
  case (Suc sz)
  have "dst + 1 \<le> src + 1 \<or> src + 1 + sz \<le> dst + 1" using Suc.prems by auto
  note IH = Suc.IH [OF this, of "m(dst := m src)"]
  show ?case
  proof (cases "dst + 1 \<le> a \<and> a < dst + 1 + sz")
    case True
    then have "src + 1 + (a - (dst + 1)) = src + (a - dst)" "src + (a - dst) \<noteq> dst" using Suc.prems by auto
    with True show ?thesis unfolding copy_up.simps IH by auto
  next
    case False
    then show ?thesis unfolding copy_up.simps IH by auto
  qed
qed auto

lemma copy_down_eq:
  "src \<le> dst \<Longrightarrow>
     copy_down sz (dst + sz) (src + sz) m a = (if dst \<le> a \<and> a < dst + sz then m (src + (a - dst)) else m a)"
proof (induction sz arbitrary: m)
  case (Suc sz)
  note IH = Suc.IH [OF Suc.prems, of "m(dst + sz := m (src + sz))"]
  have "src + (a - dst) \<noteq> dst + sz" if "dst \<le> a" "a < dst + sz" using that Suc.prems by linarith
  then show ?case by (auto simp: IH less_Suc_eq)
qed auto

lemma memset_loop_eq: "memset_loop sz dst v m a = (if dst \<le> a \<and> a < dst + sz then v else m a)"
  by (induction sz arbitrary: dst m) (auto simp: fun_upd_def)

section \<open>Strings in memory\<close>

primrec cstr :: "mem \<Rightarrow> addr \<Rightarrow> u8 list \<Rightarrow> bool" where
  "cstr m p [] \<longleftrightarrow> m p = 0"
| "cstr m p (c # cs) \<longleftrightarrow> m p = c \<and> c \<noteq> 0 \<and> cstr m (p + 1) cs"

lemma cstr_cong: "(\<And>a. p \<le> a \<Longrightarrow> a \<le> p + length xs \<Longrightarrow> m' a = m a) \<Longrightarrow> cstr m' p xs = cstr m p xs"
  by (induction xs arbitrary: p) auto

lemma cstr_append: "cstr m p (xs @ ys) \<Longrightarrow> cstr m (p + length xs) ys"
proof (induction xs arbitrary: p)
  case (Cons x xs)
  then show ?case using Cons.IH [of "p + 1"] by simp
qed simp

lemma cstr_nz: "cstr m p xs \<Longrightarrow> 0 \<notin> set xs"
  by (induction xs arbitrary: p) auto

lemma cstr_nth: "cstr m p xs \<Longrightarrow> i < length xs \<Longrightarrow> m (p + i) = xs ! i"
proof (induction xs arbitrary: p i)
  case (Cons x xs)
  then show ?case using Cons.IH [of "p + 1" "i - 1"] by (cases i) auto
qed simp

lemma cstr_end: "cstr m p xs \<Longrightarrow> m (p + length xs) = 0"
  using cstr_append [of m p xs "[]"] by simp

lemma cstrI: "(\<And>i. i < length xs \<Longrightarrow> m (p + i) = xs ! i) \<Longrightarrow> 0 \<notin> set xs \<Longrightarrow> m (p + length xs) = 0 \<Longrightarrow> cstr m p xs"
proof (induction xs arbitrary: p)
  case (Cons x xs)
  have "cstr m (p + 1) xs"
  proof (rule Cons.IH)
    show "m (p + 1 + i) = xs ! i" if "i < length xs" for i using Cons.prems(1) [of "Suc i"] that by simp
  qed (use Cons.prems(2,3) in auto)
  with Cons.prems(1) [of 0] Cons.prems(2) show ?case by auto
qed simp

lemma cstr_unique: "cstr m p xs \<Longrightarrow> cstr m p ys \<Longrightarrow> xs = ys"
proof (induction xs arbitrary: p ys)
  case Nil
  then show ?case by (cases ys) auto
next
  case (Cons x xs)
  then show ?case by (cases ys) auto
qed

lemma strlen_loop_cstr: "cstr m p xs \<Longrightarrow> strlen_loop p m = Some (p + length xs)"
  by (induction xs arbitrary: p) (simp_all add: strlen_loop.simps)

lemma strlen_cstr: "cstr m p xs \<Longrightarrow> p \<noteq> NULL \<Longrightarrow> strlen p m = Some (length xs)"
  by (simp add: strlen_def strlen_loop_cstr)

lemma strchr_loop_cstr:
  "cstr m p xs \<Longrightarrow> strchr_loop p c m =
     Some (if c = 0 \<or> c \<in> set xs then p + length (takeWhile (\<lambda>x. x \<noteq> c) xs) else NULL)"
proof (induction xs arbitrary: p)
  case (Cons x xs)
  then show ?case by (auto simp: strchr_loop.simps [of p])
qed (auto simp: strchr_loop.simps)

lemma strchr_cstr:
  "cstr m p xs \<Longrightarrow> p \<noteq> NULL \<Longrightarrow> strchr p c m =
     Some (if c = 0 \<or> c \<in> set xs then p + length (takeWhile (\<lambda>x. x \<noteq> c) xs) else NULL)"
  by (simp add: strchr_def strchr_loop_cstr)

text \<open>The order of strings: the first byte that differs decides, a prefix is smaller.\<close>

fun bytes_cmp :: "u8 list \<Rightarrow> u8 list \<Rightarrow> int" where
  "bytes_cmp [] [] = 0"
| "bytes_cmp [] (y # ys) = -1"
| "bytes_cmp (x # xs) [] = 1"
| "bytes_cmp (x # xs) (y # ys) = (if x < y then -1 else if x > y then 1 else bytes_cmp xs ys)"

lemma strcmp_loop_cstr: "cstr m a xs \<Longrightarrow> cstr m b ys \<Longrightarrow> strcmp_loop a b m = Some (bytes_cmp xs ys)"
proof (induction xs ys arbitrary: a b rule: bytes_cmp.induct)
  case 1
  then show ?case by (simp add: strcmp_loop.simps [of a])
next
  case (2 y ys)
  then show ?case by (auto simp: strcmp_loop.simps [of a] word_neq_0_conv)
next
  case (3 x xs)
  then show ?case by (auto simp: strcmp_loop.simps [of a] word_neq_0_conv)
next
  case (4 x xs y ys)
  then show ?case by (auto simp: strcmp_loop.simps [of a])
qed

lemma bytes_cmp_zero: "bytes_cmp xs ys = 0 \<longleftrightarrow> xs = ys"
  by (induction xs ys rule: bytes_cmp.induct) auto

lemma bytes_cmp_swap: "bytes_cmp ys xs = - bytes_cmp xs ys"
  by (induction xs ys rule: bytes_cmp.induct) auto

lemma memcmp_loop_zero: "memcmp_loop sz a b m = 0 \<longleftrightarrow> (\<forall>i < sz. m (a + i) = m (b + i))"
proof (induction sz a b m rule: memcmp_loop.induct)
  case (2 sz a b m)
  show ?case
  proof (cases "m a = m b")
    case True
    have "(\<forall>i<Suc sz. m (a + i) = m (b + i)) \<longleftrightarrow> (\<forall>i < sz. m (a + 1 + i) = m (b + 1 + i))"
      using True by (auto simp: less_Suc_eq_0_disj)
    then show ?thesis using True 2 by simp
  next
    case False
    then show ?thesis by (auto intro!: exI [of _ 0])
  qed
qed simp

section \<open>Properties of the copies\<close>

text \<open>
  C39 \<^verbatim>\<open>memmove\<close> copies correctly however the blocks overlap: afterwards the destination holds the former contents of the source and
  nothing else has changed. The pointer it returns is the destination when that is not below the source, but one past its end otherwise.
\<close>

theorem memmove_overlap:
  assumes "dst \<noteq> NULL" and "src \<noteq> NULL"
  shows "\<exists>r m'. memmove dst src n m = Some (r, m') \<and>
    (\<forall>a. m' a = (if dst \<le> a \<and> a < dst + n then m (src + (a - dst)) else m a)) \<and>
    r = (if dst < src then dst + n else dst)"
  using assms copy_up_eq [of dst src n m] copy_down_eq [of src dst n m] by (simp add: memmove_def)

theorem memmove_overlap_witness:
  "\<exists>r m'. memmove 11 10 3 (\<lambda>a. of_nat a) = Some (r, m') \<and>
    (\<forall>a. m' a = (if 11 \<le> a \<and> a < 14 then of_nat (10 + (a - 11)) else of_nat a)) \<and> r = 11"
  using memmove_overlap [of 11 10 3 "\<lambda>a. of_nat a"] by simp

lemma memcpy_eq:
  assumes "dst \<noteq> NULL" "src \<noteq> NULL" "dst + n \<le> src \<or> src + n \<le> dst"
  shows "memcpy dst src n m = Some (dst, \<lambda>a. if dst \<le> a \<and> a < dst + n then m (src + (a - dst)) else m a)"
  using assms copy_up_eq [of dst src n m] by (auto simp: memcpy_def fun_eq_iff)

lemma cstr_copied:
  assumes "cstr m src xs" "k \<le> length xs"
  shows "cstr ((\<lambda>a. if dst \<le> a \<and> a < dst + k then m (src + (a - dst)) else m a)(dst + k := 0)) dst (take k xs)"
  using assms cstr_nz [OF assms(1)] by (intro cstrI) (auto simp: cstr_nth dest: in_set_takeD)

lemma cstr_appendI:
  "(\<And>i. i < length ys \<Longrightarrow> m (p + i) = ys ! i) \<Longrightarrow> 0 \<notin> set ys \<Longrightarrow> cstr m (p + length ys) zs \<Longrightarrow> cstr m p (ys @ zs)"
proof (induction ys arbitrary: p)
  case (Cons y ys)
  have "cstr m (p + 1) (ys @ zs)"
  proof (rule Cons.IH)
    show "m (p + 1 + i) = ys ! i" if "i < length ys" for i using Cons.prems(1) [of "Suc i"] that by simp
  qed (use Cons.prems(2,3) in auto)
  with Cons.prems(1) [of 0] Cons.prems(2) show ?case by auto
qed simp

lemma strlcpy_cstr:
  assumes "dst \<noteq> NULL" "src \<noteq> NULL" "cstr m src xs" "0 < sz" "dst + sz \<le> src \<or> src + length xs < dst"
  shows "\<exists>m'. strlcpy dst src sz m = Some (length xs, m') \<and> cstr m' dst (take (sz - 1) xs) \<and>
    (\<forall>a. a < dst \<or> dst + sz \<le> a \<longrightarrow> m' a = m a)"
proof -
  let ?k = "if length xs < sz - 1 then length xs else sz - 1"
  let ?m' = "(\<lambda>a. if dst \<le> a \<and> a < dst + ?k then m (src + (a - dst)) else m a)(dst + ?k := 0)"
  have "memcpy dst src ?k m = Some (dst, \<lambda>a. if dst \<le> a \<and> a < dst + ?k then m (src + (a - dst)) else m a)"
    by (rule memcpy_eq) (use assms in auto)
  then have "strlcpy dst src sz m = Some (length xs, ?m')"
    using assms by (cases "length xs < sz - 1") (simp_all add: strlcpy_def strlen_cstr Let_def)
  moreover have "cstr ?m' dst (take ?k xs)" by (rule cstr_copied) (use assms in auto)
  moreover have "take ?k xs = take (sz - 1) xs" by auto
  moreover have "?k < sz" using assms(4) by auto
  ultimately show ?thesis by (intro exI [of _ ?m']) auto
qed

lemma strlcat_cstr:
  assumes "dst \<noteq> NULL" "src \<noteq> NULL" "cstr m src xs" "0 < sz" "dst + sz \<le> src \<or> src + length xs < dst"
    "cstr m dst ys" "length ys < sz"
  shows "\<exists>m'. strlcat dst src sz m = Some (length xs + length ys, m') \<and> cstr m' dst (take (sz - 1) (ys @ xs)) \<and>
    (\<forall>a. a < dst \<or> dst + sz \<le> a \<longrightarrow> m' a = m a)"
proof -
  let ?d = "dst + length ys" and ?k = "if length xs < sz - length ys - 1 then length xs else sz - length ys - 1"
  let ?m' = "(\<lambda>a. if ?d \<le> a \<and> a < ?d + ?k then m (src + (a - ?d)) else m a)(?d + ?k := 0)"
  have "memcpy ?d src ?k m = Some (?d, \<lambda>a. if ?d \<le> a \<and> a < ?d + ?k then m (src + (a - ?d)) else m a)"
    by (rule memcpy_eq) (use assms in auto)
  then have "strlcat dst src sz m = Some (length xs + length ys, ?m')"
    using assms by (cases "length xs < sz - length ys - 1") (simp_all add: strlcat_def strlen_cstr Let_def)
  moreover have "cstr ?m' dst (ys @ take ?k xs)"
  proof (rule cstr_appendI)
    show "cstr ?m' ?d (take ?k xs)" by (rule cstr_copied) (use assms in auto)
  qed (use assms cstr_nz cstr_nth in auto)
  moreover have "ys @ take ?k xs = take (sz - 1) (ys @ xs)" using assms(7) by auto
  moreover have "length ys + ?k < sz" using assms(7) by auto
  ultimately show ?thesis by (intro exI [of _ ?m']) auto
qed

text \<open>
  \<^verbatim>\<open>strlcpy\<close> and \<^verbatim>\<open>strlcat\<close> never write outside the \<open>sz\<close> bytes at \<open>dst\<close> and leave a terminated string there: the
  copied, respectively appended, string, cut to \<open>sz - 1\<close> bytes. They return the length that the whole string has.
\<close>

lemma strlcpy_strlcat_bounded:
  assumes "dst \<noteq> NULL" and "src \<noteq> NULL" and "cstr m src xs" and "0 < sz"
    and "dst + sz \<le> src \<or> src + length xs < dst" and "cstr m dst ys" and "length ys < sz"
  shows "(\<exists>m'. strlcpy dst src sz m = Some (length xs, m') \<and> cstr m' dst (take (sz - 1) xs) \<and>
      (\<forall>a. a < dst \<or> dst + sz \<le> a \<longrightarrow> m' a = m a)) \<and>
    (\<exists>m'. strlcat dst src sz m = Some (length xs + length ys, m') \<and> cstr m' dst (take (sz - 1) (ys @ xs)) \<and>
      (\<forall>a. a < dst \<or> dst + sz \<le> a \<longrightarrow> m' a = m a))"
  using strlcpy_cstr [OF assms(1-5)] strlcat_cstr [OF assms] by blast

text \<open>A memory with the strings \<open>ab\<close> at 10 and \<open>c\<close> at 20.\<close>

definition demo_mem :: mem where
  "demo_mem = (\<lambda>_. 0)(10 := 97, 11 := 98, 20 := 99)"

lemma demo_mem_cstr: "cstr demo_mem 10 [97, 98]" "cstr demo_mem 20 [99]"
  by (simp_all add: demo_mem_def)

lemma strlcpy_strlcat_bounded_witness:
  "(\<exists>m'. strlcpy 20 10 2 demo_mem = Some (2, m') \<and> cstr m' 20 [97]) \<and>
   (\<exists>m'. strlcat 20 10 3 demo_mem = Some (3, m') \<and> cstr m' 20 [99, 97])"
  using strlcpy_strlcat_bounded [OF _ _ demo_mem_cstr(1) _ _ demo_mem_cstr(2), of 2]
    strlcpy_strlcat_bounded [OF _ _ demo_mem_cstr(1) _ _ demo_mem_cstr(2), of 3] by auto

section \<open>Properties of the searches\<close>

text \<open>Where a string occurs first in another.\<close>

definition first_at :: "u8 list \<Rightarrow> u8 list \<Rightarrow> nat \<Rightarrow> bool" where
  "first_at xs ys i \<longleftrightarrow> prefix ys (drop i xs) \<and> i \<le> length xs \<and> (\<forall>j<i. \<not> prefix ys (drop j xs))"

lemma prefix_iff_nth: "i + length ys \<le> length xs \<Longrightarrow> prefix ys (drop i xs) \<longleftrightarrow> (\<forall>j<length ys. xs ! (i + j) = ys ! j)"
proof -
  assume l: "i + length ys \<le> length xs"
  have "prefix ys (drop i xs) \<longleftrightarrow> take (length ys) (drop i xs) = ys"
    by (metis append_eq_conv_conj prefixE take_is_prefix)
  with l show ?thesis by (auto simp: list_eq_iff_nth_eq)
qed

lemma memcmp_prefix:
  assumes "cstr m h xs" "cstr m n ys" "h \<noteq> NULL" "n \<noteq> NULL" "i + length ys \<le> length xs"
  shows "\<exists>c. memcmp (h + i) n (length ys) m = Some c \<and> (c = 0 \<longleftrightarrow> prefix ys (drop i xs))"
proof -
  have "m (h + i + j) = xs ! (i + j)" "m (n + j) = ys ! j" if "j < length ys" for j
    using cstr_nth [OF assms(1), of "i + j"] cstr_nth [OF assms(2), of j] assms(5) that by (simp_all add: add.assoc)
  then show ?thesis
    using assms(3,4) prefix_iff_nth [OF assms(5)] by (auto simp: memcmp_def memcmp_loop_zero)
qed

lemma strstr_loop_cstr:
  assumes "cstr m h xs" "cstr m n ys" "h \<noteq> NULL" "n \<noteq> NULL" "i + k + length ys = length xs + 1" "\<forall>j<i. \<not> prefix ys (drop j xs)"
  shows "\<exists>r. strstr_loop k i h n (length ys) m = Some r \<and>
    (if \<exists>p. first_at xs ys p then \<exists>p. first_at xs ys p \<and> r = h + p else r = NULL)"
  using assms(5,6)
proof (induction k arbitrary: i)
  case 0
  have "\<not> first_at xs ys p" for p
  proof
    assume f: "first_at xs ys p"
    then have "\<not> p < i" using 0(2) by (auto simp: first_at_def)
    moreover have "length ys \<le> length xs - p" "p \<le> length xs" using f prefix_length_le by (force simp: first_at_def)+
    ultimately show False using 0(1) by linarith
  qed
  then show ?case by simp
next
  case (Suc k)
  have "i + length ys \<le> length xs" using Suc.prems(1) by simp
  then obtain c where c: "memcmp (h + i) n (length ys) m = Some c" "c = 0 \<longleftrightarrow> prefix ys (drop i xs)"
    using memcmp_prefix [OF assms(1-4)] by blast
  show ?case
  proof (cases "c = 0")
    case True
    then have "first_at xs ys i" using c(2) Suc.prems by (simp add: first_at_def)
    with True c(1) show ?thesis by auto
  next
    case False
    then have "\<forall>j<Suc i. \<not> prefix ys (drop j xs)" using Suc.prems(2) c(2) by (simp add: less_Suc_eq)
    with Suc.IH [of "Suc i"] Suc.prems(1) False c(1) show ?thesis by simp
  qed
qed

text \<open>
  \<^verbatim>\<open>strcmp\<close> returns the order of two strings by their first differing byte, zero exactly for equal strings and antisymmetric, and
  \<^verbatim>\<open>strstr\<close> returns the first occurrence of a string in another, or the null pointer if there is none. Both
  return for all strings.
\<close>

theorem strcmp_strstr_correct:
  assumes "cstr m a xs" and "cstr m b ys" and "a \<noteq> NULL" and "b \<noteq> NULL"
  shows "strcmp a b m = Some (bytes_cmp xs ys) \<and> strcmp b a m = Some (- bytes_cmp xs ys) \<and>
    (strcmp a b m = Some 0 \<longleftrightarrow> xs = ys) \<and>
    (\<exists>r. strstr a b m = Some r \<and>
      (if \<exists>p. first_at xs ys p then \<exists>p. first_at xs ys p \<and> r = a + p else r = NULL))"
proof -
  have c: "strcmp a b m = Some (bytes_cmp xs ys)" "strcmp b a m = Some (- bytes_cmp xs ys)"
    using strcmp_loop_cstr [OF assms(1,2)] strcmp_loop_cstr [OF assms(2,1)] assms(3,4) bytes_cmp_swap [of ys xs]
    by (simp_all add: strcmp_def)
  have "\<exists>r. strstr a b m = Some r \<and> (if \<exists>p. first_at xs ys p then \<exists>p. first_at xs ys p \<and> r = a + p else r = NULL)"
  proof (cases "length ys \<le> length xs")
    case True
    then have "strstr a b m = strstr_loop (length xs - length ys + 1) 0 a b (length ys) m"
      using assms by (simp add: strstr_def strlen_cstr)
    then show ?thesis using strstr_loop_cstr [OF assms, of 0 "length xs - length ys + 1"] True by simp
  next
    case False
    have "\<not> first_at xs ys p" for p
      using False prefix_length_le [of ys "drop p xs"] by (auto simp: first_at_def)
    then show ?thesis using False assms by (simp add: strstr_def strlen_cstr)
  qed
  with c bytes_cmp_zero show ?thesis by simp
qed

theorem strcmp_strstr_correct_witness:
  "strcmp 10 20 demo_mem = Some (bytes_cmp [97, 98] [99]) \<and> strcmp 10 20 demo_mem \<noteq> Some 0 \<and>
   (\<exists>r. strstr 10 11 demo_mem = Some r)"
  using strcmp_strstr_correct [OF demo_mem_cstr] strcmp_strstr_correct [of demo_mem 10 "[97, 98]" 11 "[98]"]
  by (auto simp: demo_mem_def)

section \<open>Tokens\<close>

text \<open>The words of a string: the longest pieces without delimiters.\<close>

function tokens :: "u8 set \<Rightarrow> u8 list \<Rightarrow> u8 list list" where
  "tokens D xs =
     (case dropWhile (\<lambda>c. c \<in> D) xs of
        [] \<Rightarrow> []
      | w # ws \<Rightarrow> takeWhile (\<lambda>c. c \<notin> D) (w # ws) # tokens D (tl (dropWhile (\<lambda>c. c \<notin> D) (w # ws))))"
  by auto
termination
proof (relation "measure (\<lambda>(D, xs). length xs)")
  fix D xs and w :: u8 and ws
  assume e: "dropWhile (\<lambda>c. c \<in> D) xs = w # ws"
  then have "w \<notin> D" using hd_dropWhile [of "\<lambda>c. c \<in> D" xs] by simp
  then have "length (tl (dropWhile (\<lambda>c. c \<notin> D) (w # ws))) < length (w # ws)"
    using length_dropWhile_le [of "\<lambda>c. c \<notin> D" ws] by (cases "dropWhile (\<lambda>c. c \<notin> D) (w # ws)") auto
  also have "\<dots> \<le> length xs" using length_dropWhile_le [of "\<lambda>c. c \<in> D" xs] e by simp
  finally show "((D, tl (dropWhile (\<lambda>c. c \<notin> D) (w # ws))), (D, xs)) \<in> measure (\<lambda>(D, xs). length xs)" by simp
qed simp

declare tokens.simps [simp del]

lemma skip_delims_cstr:
  assumes "cstr m d ds" "d \<noteq> NULL"
  shows "cstr m s xs \<Longrightarrow> skip_delims s d m =
    Some (let k = length (takeWhile (\<lambda>c. c \<in> set ds) xs) in if k = length xs then Inl (s + k) else Inr (s + k))"
proof (induction xs arbitrary: s)
  case Nil
  then show ?case using assms by (subst skip_delims.simps) (simp add: strchr_cstr)
next
  case (Cons x xs)
  then show ?case using assms Cons.IH [of "s + 1"]
    by (subst skip_delims.simps) (auto simp: strchr_cstr Let_def split: if_splits)
qed

lemma skip_token_cstr:
  assumes "cstr m d ds" "d \<noteq> NULL"
  shows "cstr m s xs \<Longrightarrow> skip_token s d m = Some (s + length (takeWhile (\<lambda>c. c \<notin> set ds) xs))"
proof (induction xs arbitrary: s)
  case Nil
  then show ?case using assms by (subst skip_token.simps) (simp add: strchr_cstr)
next
  case (Cons x xs)
  then show ?case using assms Cons.IH [of "s + 1"]
    by (subst skip_token.simps) (auto simp: strchr_cstr)
qed

text \<open>
  \<^verbatim>\<open>strtok_r\<close> returns the words of a string one by one: a call returns the null pointer exactly when no word is left, otherwise the
  next word, never empty, as a terminated string, and leaves in \<^verbatim>\<open>save_ptr\<close> a string whose words are those still to come. It changes
  memory only within the string and leaves the delimiters alone.
\<close>

lemma strtok_r_words:
  assumes "cstr m s xs" and "cstr m d ds" and "s \<noteq> NULL" and "d \<noteq> NULL" and "s + length xs < d \<or> d + length ds < s"
  shows "\<exists>tok save m'. strtok_r s d save0 m = Some (tok, save, m') \<and> cstr m' d ds \<and>
    (\<forall>a. a < s \<or> s + length xs < a \<longrightarrow> m' a = m a) \<and>
    (case tokens (set ds) xs of
       [] \<Rightarrow> tok = NULL \<and> m' = m
     | t # ts \<Rightarrow> tok \<noteq> NULL \<and> t \<noteq> [] \<and> cstr m' tok t \<and>
         (\<exists>ys. cstr m' save ys \<and> tokens (set ds) ys = ts \<and> s \<le> save \<and> save + length ys \<le> s + length xs))"
proof -
  let ?D = "set ds" and ?k = "length (takeWhile (\<lambda>c. c \<in> set ds) xs)" and ?ws = "dropWhile (\<lambda>c. c \<in> set ds) xs"
  have xs: "xs = takeWhile (\<lambda>c. c \<in> ?D) xs @ ?ws" by simp
  have lx: "length xs = ?k + length ?ws" using arg_cong [OF xs, of length] by (simp only: length_append)
  have cw: "cstr m (s + ?k) ?ws" using assms(1) cstr_append [of m s "takeWhile (\<lambda>c. c \<in> ?D) xs" ?ws] by simp
  note sd = skip_delims_cstr [OF assms(2,4,1), unfolded Let_def]
  show ?thesis
  proof (cases ?ws)
    case Nil
    then have "skip_delims s d m = Some (Inl (s + ?k))" using sd lx by simp
    then have "strtok_r s d save0 m = Some (NULL, s + ?k, m)" using assms(3,4) by (simp add: strtok_r_def)
    moreover have "tokens ?D xs = []" unfolding tokens.simps [of ?D xs] Nil by simp
    ultimately show ?thesis using assms(2) by simp
  next
    case (Cons w ws)
    define t rest tok e where "t = takeWhile (\<lambda>c. c \<notin> ?D) ?ws" and "rest = dropWhile (\<lambda>c. c \<notin> ?D) ?ws"
      and "tok = s + ?k" and "e = tok + length t"
    have "w \<notin> ?D" using Cons hd_dropWhile [of "\<lambda>c. c \<in> ?D" xs] by simp
    then have t: "t \<noteq> []" using Cons by (simp add: t_def)
    have tk: "tokens ?D xs = t # tokens ?D (tl rest)" using Cons by (subst tokens.simps) (simp add: t_def rest_def)
    have "skip_delims s d m = Some (Inr tok)" using sd lx Cons by (simp add: tok_def)
    then have st: "strtok_r s d save0 m = Some (if m e \<noteq> 0 then (tok, e + 1, m(e := 0)) else (tok, e, m))"
      using assms(3,4) skip_token_cstr [OF assms(2,4) cw] by (simp add: strtok_r_def tok_def e_def t_def)
    have ws: "?ws = t @ rest" by (simp add: t_def rest_def)
    have lx: "s + length xs = e + length rest" using lx ws by (simp add: e_def tok_def)
    have cw: "cstr m tok (t @ rest)" using cw ws by (simp add: tok_def)
    have cr: "cstr m e rest" using cstr_append [OF cw] by (simp add: e_def)
    have nz: "0 \<notin> set t" using cstr_nz [OF cw] by simp
    have tn: "m (tok + i) = t ! i" if "i < length t" for i using cstr_nth [OF cw, of i] that by (simp add: nth_append)
    have s: "tok \<noteq> NULL" "s \<le> e" using assms(3) by (simp_all add: tok_def e_def)
    show ?thesis
    proof (cases rest)
      case Nil
      then have me: "m e = 0" using cr by simp
      moreover have "cstr m tok t" by (rule cstrI [OF tn nz]) (use me in \<open>simp_all add: e_def\<close>)
      ultimately show ?thesis using st tk t Nil assms(2) s lx by (auto intro!: exI [of _ "[]"])
    next
      case (Cons r rs)
      then have m: "m e \<noteq> 0" "cstr m (e + 1) rs" using cr by auto
      let ?m = "m(e := 0)"
      have e: "e < s + length xs" using lx Cons by simp
      have ct: "cstr ?m tok t" by (rule cstrI) (use tn nz in \<open>auto simp: e_def\<close>)
      have cs: "cstr ?m (e + 1) rs" using m(2) cstr_cong [of "e + 1" rs ?m m] by simp
      have "cstr ?m d ds = cstr m d ds" by (rule cstr_cong) (use assms(5) e s in auto)
      then show ?thesis using st tk t Cons m(1) assms(2) e s lx ct cs
        by (intro exI [of _ tok] exI [of _ "e + 1"] exI [of _ ?m]) auto
    qed
  qed
qed

lemma strtok_r_words_witness:
  "\<exists>tok save m'. strtok_r 10 20 0 demo_mem = Some (tok, save, m') \<and> cstr m' tok [97, 98]"
proof -
  have "tokens (set [99]) [97, 98] = [[97, 98]]" by (simp add: tokens.simps)
  then show ?thesis using strtok_r_words [OF demo_mem_cstr, of 0] by auto
qed

section \<open>The other functions\<close>

lemma strspn_loop_cstr:
  assumes "cstr m d ds" "d \<noteq> NULL"
  shows "cstr m (s + n) xs \<Longrightarrow> strspn_loop s d n m = Some (n + length (takeWhile (\<lambda>c. c \<in> set ds) xs))"
proof (induction xs arbitrary: n)
  case Nil
  then show ?case by (subst strspn_loop.simps) simp
next
  case (Cons x xs)
  then show ?case using assms Cons.IH [of "n + 1"] by (subst strspn_loop.simps) (auto simp: strchr_cstr)
qed

lemma strcspn_loop_cstr:
  assumes "cstr m d ds" "d \<noteq> NULL"
  shows "cstr m (s + n) xs \<Longrightarrow> strcspn_loop s d n m = Some (n + length (takeWhile (\<lambda>c. c \<notin> set ds) xs))"
proof (induction xs arbitrary: n)
  case Nil
  then show ?case by (subst strcspn_loop.simps) simp
next
  case (Cons x xs)
  then show ?case using assms Cons.IH [of "n + 1"] by (subst strcspn_loop.simps) (auto simp: strchr_cstr)
qed

lemma strpbrk_cstr:
  assumes "cstr m d ds" "d \<noteq> NULL"
  shows "cstr m s xs \<Longrightarrow> strpbrk s d m =
    Some (let k = length (takeWhile (\<lambda>c. c \<notin> set ds) xs) in if k = length xs then NULL else s + k)"
proof (induction xs arbitrary: s)
  case Nil
  then show ?case by (subst strpbrk.simps) simp
next
  case (Cons x xs)
  then show ?case using assms Cons.IH [of "s + 1"]
    by (subst strpbrk.simps) (auto simp: strchr_cstr Let_def split: if_splits)
qed

lemma length_takeWhile_less: "x \<in> set xs \<Longrightarrow> \<not> P x \<Longrightarrow> length (takeWhile P xs) < length xs"
  by (induction xs) auto

lemma strrchr_loop_cstr:
  "cstr m s xs \<Longrightarrow> strrchr_loop s c p m =
     Some (if c \<in> set xs then s + (length xs - 1 - length (takeWhile (\<lambda>x. x \<noteq> c) (rev xs))) else p)"
proof (induction xs arbitrary: s p)
  case Nil
  then show ?case by (subst strrchr_loop.simps) simp
next
  case (Cons x xs)
  have "length (takeWhile (\<lambda>x. x \<noteq> c) (rev xs)) < length xs" if "c \<in> set xs"
    using that length_takeWhile_less [of c "rev xs" "\<lambda>x. x \<noteq> c"] by simp
  moreover have "takeWhile (\<lambda>x. x \<noteq> c) (rev xs @ [c]) = rev xs" if "c \<notin> set xs"
    using that by (subst takeWhile_append2) auto
  ultimately show ?case using Cons Cons.IH [of "s + 1"]
    by (subst strrchr_loop.simps) (auto simp: takeWhile_append1 takeWhile_append2 takeWhile_eq_all_conv)
qed

lemma strnlen_loop_cstr: "cstr m (s + n) xs \<Longrightarrow> n \<le> k \<Longrightarrow> strnlen_loop s k n m = min k (n + length xs)"
proof (induction xs arbitrary: n)
  case Nil
  then show ?case by (subst strnlen_loop.simps) auto
next
  case (Cons x xs)
  then show ?case using Cons.IH [of "n + 1"] by (subst strnlen_loop.simps) auto
qed

lemma memchr_loop_eq:
  "memchr_loop n p c m = (if \<exists>i<n. m (p + i) = c then p + (LEAST i. m (p + i) = c) else NULL)"
proof (induction n arbitrary: p)
  case (Suc n)
  show ?case
  proof (cases "m p = c")
    case True
    then have "(LEAST i. m (p + i) = c) = 0" by (intro Least_eq_0) simp
    with True show ?thesis by (auto intro!: exI [of _ 0])
  next
    case False
    have ex: "(\<exists>i<Suc n. m (p + i) = c) \<longleftrightarrow> (\<exists>i<n. m (p + 1 + i) = c)"
      using False by (auto simp: less_Suc_eq_0_disj)
    have "(LEAST i. m (p + i) = c) = Suc (LEAST i. m (p + Suc i) = c)" if "m (p + 1 + i) = c" for i
      by (rule Least_Suc [of _ "Suc i"]) (use that False in auto)
    then show ?thesis using False Suc.IH [of "p + 1"] ex by auto
  qed
qed simp

text \<open>
  C40 The scanning functions: \<^verbatim>\<open>strlen\<close> and \<^verbatim>\<open>strnlen\<close> measure a string, \<^verbatim>\<open>strspn\<close> and \<^verbatim>\<open>strcspn\<close> its longest beginning of characters in, respectively
  not in, a set, \<^verbatim>\<open>strpbrk\<close> finds the first character of the set and \<^verbatim>\<open>strrchr\<close> the last occurrence of a character.
  All of them return for every string.
\<close>

theorem string_scans:
  assumes "cstr m s xs" and "cstr m d ds" and "s \<noteq> NULL" and "d \<noteq> NULL" and "c \<noteq> 0"
  shows "strlen s m = Some (length xs) \<and> strnlen s n m = min n (length xs) \<and>
    strspn s d m = Some (length (takeWhile (\<lambda>c. c \<in> set ds) xs)) \<and>
    strcspn s d m = Some (length (takeWhile (\<lambda>c. c \<notin> set ds) xs)) \<and>
    strpbrk s d m = Some (if set xs \<inter> set ds = {} then NULL else s + length (takeWhile (\<lambda>c. c \<notin> set ds) xs)) \<and>
    strchr s c m = Some (if c \<in> set xs then s + length (takeWhile (\<lambda>x. x \<noteq> c) xs) else NULL) \<and>
    strrchr s c m = Some (if c \<in> set xs then s + (length xs - 1 - length (takeWhile (\<lambda>x. x \<noteq> c) (rev xs))) else NULL)"
proof -
  have "length (takeWhile (\<lambda>c. c \<notin> set ds) xs) = length xs \<longleftrightarrow> set xs \<inter> set ds = {}"
    by (metis (no_types, lifting) disjoint_iff takeWhile_eq_all_conv takeWhile_eq_take take_all_iff le_refl)
  then show ?thesis
    using assms strspn_loop_cstr [OF assms(2,4), of s 0 xs] strcspn_loop_cstr [OF assms(2,4), of s 0 xs]
      strpbrk_cstr [OF assms(2,4,1)] strnlen_loop_cstr [of m s 0 xs n] strrchr_loop_cstr [OF assms(1), of c NULL]
    by (simp add: strlen_cstr strnlen_def strspn_def strcspn_def strrchr_def strchr_cstr Let_def)
qed

theorem string_scans_witness:
  "strlen 10 demo_mem = Some 2 \<and> strnlen 10 1 demo_mem = 1 \<and> strspn 10 20 demo_mem = Some 0 \<and> strcspn 10 20 demo_mem = Some 2 \<and>
   strrchr 10 98 demo_mem = Some 11"
  using string_scans [OF demo_mem_cstr, of 98 1] by simp

end
