(* ===== verification/C_Stdlib.thy ===== *)
theory C_Stdlib
  imports C_String
begin

text \<open>
  \<^verbatim>\<open>lib/stdlib.c\<close>: \<^verbatim>\<open>atoi\<close>, the heap sort behind \<^verbatim>\<open>qsort\<close> and the binary search behind \<^verbatim>\<open>bsearch\<close>; and the character classes of
  \<^verbatim>\<open>lib/ctype.h\<close> that \<^verbatim>\<open>atoi\<close> uses. An array is the list of its elements, each standing for its \<^verbatim>\<open>size\<close> bytes; the indexes of the
  heap are 1-based, as in the code. An array fits the address space, so that index arithmetic does not
  wrap; the assertions of \<^verbatim>\<open>sort\<close> on its pointers and on \<^verbatim>\<open>size\<close> have no counterpart, since a list and a function are never null. The contract of a comparison function is the locale \<open>comparison\<close>, interpreted for the order of strings of
  \<open>C_String\<close>.
\<close>

section \<open>Characters, \<^verbatim>\<open>atoi\<close>\<close>

definition isdigit :: "u8 \<Rightarrow> bool" where
  "isdigit c \<longleftrightarrow> 48 \<le> c \<and> c \<le> 57"

definition isspace :: "u8 \<Rightarrow> bool" where
  "isspace c \<longleftrightarrow> c = 32 \<or> c = 12 \<or> c = 10 \<or> c = 13 \<or> c = 9 \<or> c = 11"

text \<open>A string is the list of its bytes up to the null byte; the end of the list is the null byte.\<close>

fun atoi_digits :: "u8 list \<Rightarrow> int \<Rightarrow> int" where
  "atoi_digits [] v = v"
| "atoi_digits (c # s) v = (if isdigit c then atoi_digits s (s32 (v * 10 - (uint c - 48))) else v)"

definition atoi :: "u8 list \<Rightarrow> int" where
  "atoi s =
     (let s = dropWhile isspace s;
          (negative, s) = (case s of
              [] \<Rightarrow> (False, s)
            | c # r \<Rightarrow> if c = 43 then (False, r) else if c = 45 then (True, r) else (False, s));
          v = atoi_digits s 0
      in if \<not> negative then s32 (- v) else v)"

section \<open>Sorting\<close>

definition do_swap :: "'a list \<Rightarrow> nat \<Rightarrow> nat \<Rightarrow> 'a list" where
  "do_swap array a_idx b_idx =
     array[a_idx - 1 := array ! (b_idx - 1), b_idx - 1 := array ! (a_idx - 1)]"

definition do_compare :: "('a \<Rightarrow> 'a \<Rightarrow> int) \<Rightarrow> 'a list \<Rightarrow> nat \<Rightarrow> nat \<Rightarrow> int" where
  "do_compare compare array a_idx b_idx = compare (array ! (a_idx - 1)) (array ! (b_idx - 1))"

text \<open>The index of the largest element among \<open>i\<close> and its children.\<close>

definition max_child :: "('a \<Rightarrow> 'a \<Rightarrow> int) \<Rightarrow> 'a list \<Rightarrow> nat \<Rightarrow> nat \<Rightarrow> nat" where
  "max_child compare array i cnt =
     (let left = 2 * i;
          right = 2 * i + 1;
          mx = i;
          mx = (if left \<le> cnt \<and> do_compare compare array left mx > 0 then left else mx)
      in if right \<le> cnt \<and> do_compare compare array right mx > 0 then right else mx)"

lemma max_child_cases:
  "max_child compare array i cnt = i \<or>
   max_child compare array i cnt \<in> {2 * i, 2 * i + 1} \<and> max_child compare array i cnt \<le> cnt"
  by (auto simp: max_child_def Let_def)

function heapify :: "('a \<Rightarrow> 'a \<Rightarrow> int) \<Rightarrow> 'a list \<Rightarrow> nat \<Rightarrow> nat \<Rightarrow> 'a list" where
  "heapify compare array i cnt =
     (let mx = max_child compare array i cnt
      in if mx = i then array else heapify compare (do_swap array i mx) mx cnt)"
  by auto
termination
proof (relation "measure (\<lambda>(compare, array, i, cnt). cnt - i)")
  fix compare :: "'a \<Rightarrow> 'a \<Rightarrow> int" and array i cnt mx
  assume "mx = max_child compare array i cnt" "mx \<noteq> i"
  then show "((compare, do_swap array i mx, mx, cnt), (compare, array, i, cnt)) \<in> measure (\<lambda>(compare, array, i, cnt). cnt - i)"
    using max_child_cases [of compare array i cnt] by auto
qed simp

declare heapify.simps [simp del]

text \<open>The two loops of \<^verbatim>\<open>sort\<close>, both counting down.\<close>

primrec build_heap :: "('a \<Rightarrow> 'a \<Rightarrow> int) \<Rightarrow> 'a list \<Rightarrow> nat \<Rightarrow> nat \<Rightarrow> 'a list" where
  "build_heap compare array 0 cnt = array"
| "build_heap compare array (Suc i) cnt = build_heap compare (heapify compare array (Suc i) cnt) i cnt"

fun sort_heap :: "('a \<Rightarrow> 'a \<Rightarrow> int) \<Rightarrow> 'a list \<Rightarrow> nat \<Rightarrow> 'a list" where
  "sort_heap compare array 0 = array"
| "sort_heap compare array (Suc 0) = array"
| "sort_heap compare array (Suc (Suc i)) =
     sort_heap compare (heapify compare (do_swap array 1 (Suc (Suc i))) 1 (Suc i)) (Suc i)"

definition sort_array :: "'a list \<Rightarrow> ('a \<Rightarrow> 'a \<Rightarrow> int) \<Rightarrow> 'a list" where
  "sort_array array compare =
     (let cnt = length array
      in sort_heap compare (build_heap compare array (cnt div 2) cnt) cnt)"

definition qsort :: "'a list \<Rightarrow> ('a \<Rightarrow> 'a \<Rightarrow> int) \<Rightarrow> 'a list" where
  "qsort array compare = sort_array array compare"

section \<open>Searching\<close>

text \<open>The positions \<^verbatim>\<open>first\<close> and \<^verbatim>\<open>last\<close> are counted in elements.\<close>

function search_loop :: "('a \<Rightarrow> 'a \<Rightarrow> int) \<Rightarrow> 'a \<Rightarrow> 'a list \<Rightarrow> nat \<Rightarrow> nat \<Rightarrow> nat option" where
  "search_loop compare key array first lst =
     (if first < lst
      then (let range = lst - first;
                middle = first + range div 2;
                cmp = compare key (array ! middle)
            in if cmp < 0 then search_loop compare key array first middle
               else if cmp > 0 then search_loop compare key array (middle + 1) lst
               else Some middle)
      else None)"
  by auto
termination by (relation "measure (\<lambda>(compare, key, array, first, lst). lst - first)") auto

declare search_loop.simps [simp del]

definition binary_search :: "'a \<Rightarrow> 'a list \<Rightarrow> ('a \<Rightarrow> 'a \<Rightarrow> int) \<Rightarrow> nat option" where
  "binary_search key array compare = search_loop compare key array 0 (length array)"

definition bsearch :: "'a \<Rightarrow> 'a list \<Rightarrow> ('a \<Rightarrow> 'a \<Rightarrow> int) \<Rightarrow> nat option" where
  "bsearch key array compare = binary_search key array compare"

section \<open>The contract of a comparison function\<close>

text \<open>A \<^verbatim>\<open>strcmp\<close>-type result: the sign tells the order, which is total and transitive.\<close>

locale comparison =
  fixes compare :: "'a \<Rightarrow> 'a \<Rightarrow> int"
  assumes cmp_swap: "compare a b > 0 \<longleftrightarrow> compare b a < 0"
    and cmp_trans: "compare a b \<le> 0 \<Longrightarrow> compare b c \<le> 0 \<Longrightarrow> compare a c \<le> 0"
begin

abbreviation le :: "'a \<Rightarrow> 'a \<Rightarrow> bool" where "le a b \<equiv> compare a b \<le> 0"

lemma le_refl: "le a a" using cmp_swap [of a a] by linarith

lemma le_total: "le a b \<or> le b a" using cmp_swap [of a b] by linarith

lemma not_le: "compare a b > 0 \<Longrightarrow> le b a" using cmp_swap [of a b] by linarith

text \<open>The element at a 1-based index; a node that is not smaller than its children.\<close>

definition at :: "'a list \<Rightarrow> nat \<Rightarrow> 'a" where
  "at xs i = xs ! (i - 1)"

definition node_ok :: "'a list \<Rightarrow> nat \<Rightarrow> nat \<Rightarrow> bool" where
  "node_ok xs cnt j \<longleftrightarrow> (\<forall>c\<in>{2 * j, 2 * j + 1}. c \<le> cnt \<longrightarrow> le (at xs c) (at xs j))"

definition heap_from :: "'a list \<Rightarrow> nat \<Rightarrow> nat \<Rightarrow> bool" where
  "heap_from xs cnt k \<longleftrightarrow> (\<forall>j\<ge>k. node_ok xs cnt j)"

text \<open>A heap from \<open>k\<close> on but for the node \<open>i\<close>, whose children are below its parent.\<close>

definition heap_but :: "'a list \<Rightarrow> nat \<Rightarrow> nat \<Rightarrow> nat \<Rightarrow> bool" where
  "heap_but xs cnt k i \<longleftrightarrow> (\<forall>j\<ge>k. j \<noteq> i \<longrightarrow> node_ok xs cnt j) \<and>
     (k \<le> i div 2 \<longrightarrow> (\<forall>c\<in>{2 * i, 2 * i + 1}. c \<le> cnt \<longrightarrow> le (at xs c) (at xs (i div 2))))"

lemma at_swap:
  assumes "1 \<le> i" "1 \<le> j" "i \<le> length xs" "j \<le> length xs" "i \<noteq> j" "1 \<le> x"
  shows "at (do_swap xs i j) x = (if x = i then at xs j else if x = j then at xs i else at xs x)"
  using assms by (auto simp: at_def do_swap_def nth_list_update)

lemma length_swap [simp]: "length (do_swap xs i j) = length xs"
  by (simp add: do_swap_def)

lemma mset_do_swap:
  assumes "1 \<le> i" "1 \<le> j" "i \<le> length xs" "j \<le> length xs"
  shows "mset (do_swap xs i j) = mset xs"
  using assms mset_swap [of "j - 1" xs "i - 1"] by (simp add: do_swap_def)

lemma max_child_le:
  assumes "c \<in> {i, 2 * i, 2 * i + 1}" "c = i \<or> c \<le> cnt"
  shows "le (at xs c) (at xs (max_child compare xs i cnt))"
  using assms le_refl not_le cmp_trans
  unfolding max_child_def Let_def do_compare_def at_def [symmetric]
  by (smt (verit) insert_iff singletonD)

lemma heap_but_swap:
  assumes k: "1 \<le> k" "k \<le> i" and cnt: "cnt \<le> length xs" "i \<le> cnt" and h: "heap_but xs cnt k i"
    and m: "m = max_child compare xs i cnt" "m \<noteq> i"
  shows "heap_but (do_swap xs i m) cnt k m"
proof -
  let ?xs = "do_swap xs i m"
  have mc: "m \<in> {2 * i, 2 * i + 1}" "m \<le> cnt" using max_child_cases [of compare xs i cnt] m by auto
  have mi: "i < m" "m div 2 = i" using mc(1) k by auto
  have at: "at ?xs x = (if x = i then at xs m else if x = m then at xs i else at xs x)" if "1 \<le> x" for x
    by (rule at_swap) (use that k cnt mc mi in auto)
  have mx: "le (at xs c) (at xs m)" if "c \<in> {i, 2 * i, 2 * i + 1}" "c = i \<or> c \<le> cnt" for c
    unfolding m(1) by (rule max_child_le [OF that])
  have "node_ok ?xs cnt j" if j: "k \<le> j" "j \<noteq> m" for j
    unfolding node_ok_def
  proof (intro ballI impI)
    fix c assume c: "c \<in> {2 * j, 2 * j + 1}" "c \<le> cnt"
    have c1: "1 \<le> c" "c div 2 = j" using c(1) j(1) k by auto
    show "le (at ?xs c) (at ?xs j)"
    proof (cases "j = i")
      case True
      then have "c \<noteq> i" using c(1) k by auto
      then show ?thesis using True mx [of c] mx [of i] c at [OF c1(1)] at [of j] k j by auto
    next
      case False
      then have "c \<noteq> m" using mi c1 by auto
      have ok: "node_ok xs cnt j" using h j(1) False by (simp add: heap_but_def)
      show ?thesis
      proof (cases "c = i")
        case True
        then have "le (at xs m) (at xs j)" using h c1(2) j(1) mc by (auto simp: heap_but_def)
        then show ?thesis using True False j at [OF c1(1)] at [of j] k by auto
      next
        case ci: False
        then have "le (at xs c) (at xs j)" using ok c by (auto simp: node_ok_def)
        then show ?thesis using ci \<open>c \<noteq> m\<close> False j at [OF c1(1)] at [of j] k by auto
      qed
    qed
  qed
  moreover have "le (at ?xs c) (at ?xs i)" if c: "c \<in> {2 * m, 2 * m + 1}" "c \<le> cnt" for c
  proof -
    have "node_ok xs cnt m" using h mi k by (simp add: heap_but_def)
    then have "le (at xs c) (at xs m)" using c by (auto simp: node_ok_def)
    moreover have "c \<noteq> i" "c \<noteq> m" "1 \<le> c" using c(1) mi k by auto
    ultimately show ?thesis using at [of c] at [of i] k by auto
  qed
  ultimately show ?thesis using mi(2) by (auto simp: heap_but_def)
qed

lemma heapify_ok:
  "1 \<le> k \<Longrightarrow> k \<le> i \<Longrightarrow> i \<le> cnt \<Longrightarrow> cnt \<le> length xs \<Longrightarrow> heap_but xs cnt k i \<Longrightarrow>
     heap_from (heapify compare xs i cnt) cnt k \<and> mset (heapify compare xs i cnt) = mset xs \<and>
     drop cnt (heapify compare xs i cnt) = drop cnt xs"
proof (induction "cnt - i" arbitrary: xs i rule: less_induct)
  case less
  define m where "m = max_child compare xs i cnt"
  show ?case
  proof (cases "m = i")
    case True
    then have "node_ok xs cnt i"
      using max_child_le [of _ i cnt xs] by (auto simp: node_ok_def m_def)
    then have "heap_from xs cnt k" using less.prems(5) by (auto simp: heap_from_def heap_but_def)
    moreover have "heapify compare xs i cnt = xs" using True by (subst heapify.simps) (simp add: m_def)
    ultimately show ?thesis by simp
  next
    case False
    then have mc: "m \<in> {2 * i, 2 * i + 1}" "m \<le> cnt" using max_child_cases [of compare xs i cnt] by (auto simp: m_def)
    let ?xs = "do_swap xs i m"
    have r: "heapify compare xs i cnt = heapify compare ?xs m cnt"
      using False by (subst heapify.simps) (simp add: m_def Let_def)
    have "heap_but ?xs cnt k m" by (rule heap_but_swap) (use less.prems False m_def in auto)
    then have "heap_from (heapify compare ?xs m cnt) cnt k \<and> mset (heapify compare ?xs m cnt) = mset ?xs \<and>
        drop cnt (heapify compare ?xs m cnt) = drop cnt ?xs"
      using less.prems mc by (intro less.hyps) auto
    moreover have "mset ?xs = mset xs" by (rule mset_do_swap) (use less.prems mc in auto)
    moreover have "drop cnt ?xs = drop cnt xs" using less.prems mc by (simp add: do_swap_def drop_update_cancel)
    ultimately show ?thesis using r by simp
  qed
qed

lemma heapify_length: "1 \<le> k \<Longrightarrow> k \<le> i \<Longrightarrow> i \<le> cnt \<Longrightarrow> cnt \<le> length xs \<Longrightarrow> heap_but xs cnt k i \<Longrightarrow>
    length (heapify compare xs i cnt) = length xs"
  using heapify_ok by (metis size_mset)

lemma build_heap_ok:
  "heap_from xs (length xs) (Suc i) \<Longrightarrow> i \<le> length xs \<Longrightarrow>
     heap_from (build_heap compare xs i (length xs)) (length xs) 1 \<and> mset (build_heap compare xs i (length xs)) = mset xs"
proof (induction i arbitrary: xs)
  case (Suc i)
  have b: "heap_but xs (length xs) (Suc i) (Suc i)"
    using Suc.prems by (auto simp: heap_but_def heap_from_def)
  note H = heapify_ok [OF _ _ Suc.prems(2) _ b] and L = heapify_length [OF _ _ Suc.prems(2) _ b]
  show ?case using Suc.IH [of "heapify compare xs (Suc i) (length xs)"] H L Suc.prems(2) by simp
qed simp

text \<open>The root of a heap is its largest element.\<close>

lemma heap_max: "heap_from xs cnt 1 \<Longrightarrow> 1 \<le> j \<Longrightarrow> j \<le> cnt \<Longrightarrow> le (at xs j) (at xs 1)"
proof (induction j rule: less_induct)
  case (less j)
  show ?case
  proof (cases "j = 1")
    case False
    then have "1 \<le> j div 2" "j div 2 < j" "j \<in> {2 * (j div 2), 2 * (j div 2) + 1}" using less.prems(2) by auto
    moreover have "le (at xs (j div 2)) (at xs 1)" by (rule less.IH) (use calculation less.prems in auto)
    moreover have "le (at xs j) (at xs (j div 2))"
      using less.prems calculation(1,3) by (auto simp: heap_from_def node_ok_def)
    ultimately show ?thesis using cmp_trans by blast
  qed (simp add: le_refl)
qed

lemma sort_heap_ok:
  "heap_from xs i 1 \<Longrightarrow> i \<le> length xs \<Longrightarrow> sorted_wrt le (drop i xs) \<Longrightarrow>
   (\<forall>x\<in>set (take i xs). \<forall>y\<in>set (drop i xs). le x y) \<Longrightarrow>
     sorted_wrt le (sort_heap compare xs i) \<and> mset (sort_heap compare xs i) = mset xs"
proof (induction i arbitrary: xs rule: less_induct)
  case (less i)
  consider "i = 0" | "i = 1" | n where "i = Suc (Suc n)" by (metis One_nat_def not0_implies_Suc)
  then show ?case
  proof cases
    case 1
    then show ?thesis using less.prems by simp
  next
    case 2
    then show ?thesis using less.prems by (cases xs) auto
  next
    case (3 n)
    let ?x1 = "do_swap xs 1 i" and ?x2 = "heapify compare (do_swap xs 1 i) 1 (Suc n)"
    have at: "at ?x1 x = (if x = 1 then at xs i else if x = i then at xs 1 else at xs x)" if "1 \<le> x" for x
      by (rule at_swap) (use that 3 less.prems(2) in auto)
    have "node_ok ?x1 (Suc n) j" if j: "1 \<le> j" "j \<noteq> 1" for j
    proof -
      have "node_ok xs i j" using less.prems(1) j by (simp add: heap_from_def)
      then show ?thesis using j at 3 by (auto simp: node_ok_def)
    qed
    then have b: "heap_but ?x1 (Suc n) 1 1" by (auto simp: heap_but_def)
    have len: "Suc n \<le> length ?x1" using 3 less.prems(2) by simp
    note H = heapify_ok [OF _ _ _ len b] and L = heapify_length [OF _ _ _ len b]
    have ms: "mset ?x2 = mset xs"
      using H mset_do_swap [of 1 i xs] 3 less.prems(2) by simp
    have top: "at xs 1 \<in> set (take i xs)" using 3 less.prems(2) by (auto simp: at_def in_set_conv_nth)
    have "drop (Suc n) ?x1 = at xs 1 # drop i xs"
      using 3 less.prems(2) by (subst Cons_nth_drop_Suc [symmetric]) (auto simp: do_swap_def at_def drop_update_cancel)
    then have dr: "drop (Suc n) ?x2 = at xs 1 # drop i xs" using H by simp
    have "mset (take (Suc n) ?x2) + mset (drop (Suc n) ?x2) = mset (take i xs) + mset (drop i xs)"
      by (simp only: mset_append [symmetric] append_take_drop_id ms)
    then have "add_mset (at xs 1) (mset (take (Suc n) ?x2)) = mset (take i xs)" unfolding dr by simp
    then have sub: "x \<in> set (take i xs)" if "x \<in> set (take (Suc n) ?x2)" for x
      using that by (metis insertCI set_mset_add_mset_insert set_mset_mset)
    have mx: "le x (at xs 1)" if "x \<in> set (take i xs)" for x
    proof -
      obtain p where "p < length (take i xs)" "x = take i xs ! p" using \<open>x \<in> set (take i xs)\<close> by (metis in_set_conv_nth)
      then show ?thesis using heap_max [OF less.prems(1), of "Suc p"] by (simp add: at_def)
    qed
    have "sorted_wrt le (sort_heap compare ?x2 (Suc n)) \<and> mset (sort_heap compare ?x2 (Suc n)) = mset ?x2"
    proof (rule less.IH)
      show "heap_from ?x2 (Suc n) 1" using H by simp
      show "Suc n \<le> length ?x2" using L len by simp
      show "sorted_wrt le (drop (Suc n) ?x2)" unfolding dr using less.prems(3,4) top by simp
      show "\<forall>x\<in>set (take (Suc n) ?x2). \<forall>y\<in>set (drop (Suc n) ?x2). le x y"
        unfolding dr using sub mx less.prems(4) by auto
    qed (use 3 in simp)
    with ms 3 show ?thesis by simp
  qed
qed

lemma heap_leaves: "heap_from xs (length xs) (Suc (length xs div 2))"
  by (auto simp: heap_from_def node_ok_def)

lemma sort_sorts: "sorted_wrt le (sort_array xs compare) \<and> mset (sort_array xs compare) = mset xs"
proof -
  let ?b = "build_heap compare xs (length xs div 2) (length xs)"
  have b: "heap_from ?b (length xs) 1" "mset ?b = mset xs" using build_heap_ok [OF heap_leaves] by simp_all
  then have l: "length ?b = length xs" by (metis size_mset)
  have "sorted_wrt le (sort_heap compare ?b (length xs)) \<and> mset (sort_heap compare ?b (length xs)) = mset ?b"
    by (rule sort_heap_ok [OF b(1)]) (simp_all add: l)
  with b(2) show ?thesis by (simp add: sort_array_def Let_def)
qed

lemma search_loop_ok:
  assumes s: "sorted_wrt le xs"
  shows "lst \<le> length xs \<Longrightarrow> (\<forall>i<length xs. compare key (xs ! i) = 0 \<longrightarrow> first \<le> i \<and> i < lst) \<Longrightarrow>
    (case search_loop compare key xs first lst of
       Some i \<Rightarrow> i < length xs \<and> compare key (xs ! i) = 0
     | None \<Rightarrow> \<forall>i<length xs. compare key (xs ! i) \<noteq> 0)"
proof (induction "lst - first" arbitrary: first lst rule: less_induct)
  case less
  show ?case
  proof (cases "first < lst")
    case False
    then show ?thesis using less.prems by (subst search_loop.simps) auto
  next
    case True
    let ?m = "first + (lst - first) div 2" let ?c = "compare key (xs ! ?m)"
    have m: "first \<le> ?m" "?m < lst" using True by auto
    have mono: "le (xs ! i) (xs ! j)" if "i \<le> j" "j < length xs" for i j
      using s that le_refl by (cases "i = j") (auto simp: sorted_wrt_iff_nth_less)
    consider "?c < 0" | "?c > 0" | "?c = 0" by linarith
    then show ?thesis
    proof cases
      case 1
      have "i < ?m" if "i < length xs" "compare key (xs ! i) = 0" for i
      proof (rule ccontr)
        assume "\<not> i < ?m"
        then have "le (xs ! ?m) (xs ! i)" using mono that by simp
        moreover have "le (xs ! i) key" using cmp_swap [of "xs ! i" key] that(2) by linarith
        ultimately have "le (xs ! ?m) key" using cmp_trans by blast
        then show False using 1 cmp_swap [of "xs ! ?m" key] by linarith
      qed
      then have "case search_loop compare key xs first ?m of Some i \<Rightarrow> i < length xs \<and> compare key (xs ! i) = 0
          | None \<Rightarrow> \<forall>i<length xs. compare key (xs ! i) \<noteq> 0"
        by (intro less.hyps) (use m less.prems in auto)
      moreover have "search_loop compare key xs first lst = search_loop compare key xs first ?m"
        using True 1 by (subst search_loop.simps) (simp add: Let_def)
      ultimately show ?thesis by simp
    next
      case 2
      have "?m < i" if "i < length xs" "compare key (xs ! i) = 0" for i
      proof (rule ccontr)
        assume "\<not> ?m < i"
        then have "le (xs ! i) (xs ! ?m)" using mono m less.prems(1) by simp
        then have "le key (xs ! ?m)" using cmp_trans [of key "xs ! i"] that(2) by simp
        then show False using 2 by simp
      qed
      then have "case search_loop compare key xs (?m + 1) lst of Some i \<Rightarrow> i < length xs \<and> compare key (xs ! i) = 0
          | None \<Rightarrow> \<forall>i<length xs. compare key (xs ! i) \<noteq> 0"
        by (intro less.hyps) (use m less.prems in \<open>auto simp: Suc_le_eq\<close>)
      moreover have "search_loop compare key xs first lst = search_loop compare key xs (?m + 1) lst"
        using True 2 by (subst search_loop.simps) (simp add: Let_def)
      ultimately show ?thesis by simp
    next
      case 3
      then show ?thesis using True m less.prems(1) by (subst search_loop.simps) (auto simp: Let_def)
    qed
  qed
qed

end


section \<open>Properties\<close>

lemma bytes_cmp_trans: "bytes_cmp xs ys \<le> 0 \<Longrightarrow> bytes_cmp ys zs \<le> 0 \<Longrightarrow> bytes_cmp xs zs \<le> 0"
proof (induction xs ys arbitrary: zs rule: bytes_cmp.induct)
  case 1
  then show ?case by simp
next
  case (2 y ys)
  then show ?case by (cases zs) auto
next
  case (3 x xs)
  then show ?case by simp
next
  case (4 x xs y ys)
  then show ?case by (cases zs) (auto split: if_splits)
qed

text \<open>The order that \<^verbatim>\<open>strcmp\<close> computes meets the contract.\<close>

interpretation bc: comparison bytes_cmp
proof
  show "0 < bytes_cmp a b \<longleftrightarrow> bytes_cmp b a < 0" for a b using bytes_cmp_swap [of a b] by simp
qed (rule bytes_cmp_trans)

text \<open>
  C33 \<^verbatim>\<open>qsort\<close> and \<^verbatim>\<open>sort\<close> (heap sort) return for every array and comparison function that meets its contract, and the array is then
  an ordered permutation of what it was.
\<close>

theorem sort_correct:
  assumes "comparison compare"
  shows "sorted_wrt (\<lambda>a b. compare a b \<le> 0) (qsort array compare) \<and> mset (qsort array compare) = mset array"
  unfolding qsort_def by (rule comparison.sort_sorts [OF assms])

theorem sort_correct_witness:
  "sorted_wrt (\<lambda>a b. bytes_cmp a b \<le> 0) (qsort [[99], [97, 98], [97]] bytes_cmp) \<and>
   mset (qsort [[99], [97, 98], [97]] bytes_cmp) = mset [[99], [97, 98], [97]]"
  by (rule sort_correct) (rule bc.comparison_axioms)

text \<open>
  \<^verbatim>\<open>bsearch\<close> on an array that \<^verbatim>\<open>qsort\<close> has sorted with the same function finds an element that compares equal to the key exactly
  when there is one in the array.
\<close>

lemma bsearch_after_sort:
  assumes "comparison compare"
  shows "case bsearch key (qsort array compare) compare of
      Some i \<Rightarrow> i < length array \<and> compare key (qsort array compare ! i) = 0
    | None \<Rightarrow> \<forall>x\<in>set array. compare key x \<noteq> 0"
proof -
  let ?s = "qsort array compare"
  have s: "sorted_wrt (\<lambda>a b. compare a b \<le> 0) ?s" "mset ?s = mset array"
    using comparison.sort_sorts [OF assms] by (simp_all add: qsort_def)
  have "set ?s = set array" "length ?s = length array" using s(2) by (metis set_mset_mset, metis size_mset)
  moreover have "(\<forall>i<length ?s. compare key (?s ! i) \<noteq> 0) \<longleftrightarrow> (\<forall>x\<in>set ?s. compare key x \<noteq> 0)"
    by (metis in_set_conv_nth)
  ultimately show ?thesis
    using comparison.search_loop_ok [OF assms s(1), of "length ?s" key 0]
    by (simp add: bsearch_def binary_search_def split: option.splits)
qed

lemma bsearch_after_sort_witness:
  "case bsearch [97] (qsort [[99], [97]] bytes_cmp) bytes_cmp of
      Some i \<Rightarrow> i < length [[99], [97 :: u8]] \<and> bytes_cmp [97] (qsort [[99], [97]] bytes_cmp ! i) = 0
    | None \<Rightarrow> \<forall>x\<in>set [[99], [97]]. bytes_cmp [97] x \<noteq> 0"
  by (rule bsearch_after_sort) (rule bc.comparison_axioms)

section \<open>\<^verbatim>\<open>atoi\<close>\<close>

text \<open>The decimal notation of a number.\<close>

function decimal :: "nat \<Rightarrow> u8 list" where
  "decimal n = (if n < 10 then [of_nat (n + 48)] else decimal (n div 10) @ [of_nat (n mod 10 + 48)])"
  by auto
termination by (relation "measure id") auto

declare decimal.simps [simp del]

definition dec_string :: "int \<Rightarrow> u8 list" where
  "dec_string v = (if v < 0 then 45 # decimal (nat (- v)) else decimal (nat v))"

lemma digit_char: "d < 10 \<Longrightarrow> isdigit (of_nat (d + 48)) \<and> uint (of_nat (d + 48) :: u8) - 48 = int d"
proof -
  assume d: "d < 10"
  then have u: "unat (word_of_nat (d + 48) :: u8) = d + 48" by (simp only: unat_of_nat) simp
  then have "uint (word_of_nat (d + 48) :: u8) = int d + 48" unfolding uint_nat by simp
  moreover have "isdigit (word_of_nat (d + 48))" unfolding isdigit_def word_le_nat_alt u using d by simp
  ultimately show ?thesis by simp
qed

lemma atoi_digits_append:
  "\<forall>c\<in>set xs. isdigit c \<Longrightarrow> atoi_digits (xs @ ys) v = atoi_digits ys (atoi_digits xs v)"
  by (induction xs arbitrary: v) auto

lemma decimal_digits: "\<forall>c\<in>set (decimal n). isdigit c"
proof (induction n rule: decimal.induct)
  case (1 n)
  show ?case
  proof (cases "n < 10")
    case True
    then show ?thesis using digit_char [of n] by (simp add: decimal.simps [of n])
  next
    case False
    then show ?thesis using 1 digit_char [of "n mod 10"] by (simp add: decimal.simps [of n])
  qed
qed

lemma atoi_decimal: "n \<le> 2 ^ 31 \<Longrightarrow> atoi_digits (decimal n) 0 = - int n"
proof (induction n rule: decimal.induct)
  case (1 n)
  show ?case
  proof (cases "n < 10")
    case True
    then show ?thesis using digit_char [of n] by (simp add: decimal.simps [of n] s32_id in_s32_def)
  next
    case False
    have "in_s32 (- int n)" using 1(2) by (simp add: in_s32_def)
    moreover have "- int (n div 10) * 10 - int (n mod 10) = - int n" 
      using arg_cong [OF div_mult_mod_eq [of n 10], of int] unfolding of_nat_add of_nat_mult by simp
    ultimately show ?thesis
      using False 1 digit_char [of "n mod 10"] decimal_digits [of "n div 10"]
      by (simp add: decimal.simps [of n] atoi_digits_append)
  qed
qed

lemma decimal_hd: "\<exists>c cs. decimal n = c # cs \<and> isdigit c"
proof -
  have "decimal n \<noteq> []" by (simp add: decimal.simps [of n])
  then obtain c cs where "decimal n = c # cs" by (cases "decimal n") auto
  then show ?thesis using decimal_digits [of n] by auto
qed

lemma digit_other: "isdigit c \<Longrightarrow> \<not> isspace c \<and> c \<noteq> 43 \<and> c \<noteq> 45"
  by (auto simp: isdigit_def isspace_def word_le_nat_alt)

text \<open>
  \<^verbatim>\<open>atoi\<close> reads back the decimal notation of every \<^verbatim>\<open>int\<close>, the smallest included, after white space and up to the first character that is no
  digit.
\<close>

lemma atoi_reads_decimal:
  assumes "in_s32 v" and "\<forall>c\<in>set sp. isspace c" and "rest = [] \<or> \<not> isdigit (hd rest)"
  shows "atoi (sp @ dec_string v @ rest) = v"
proof -
  have stop: "atoi_digits rest w = w" for w using assms(3) by (cases rest) auto
  have num: "atoi_digits (decimal n @ rest) 0 = - int n" if "n \<le> 2 ^ 31" for n
    using atoi_decimal [OF that] decimal_digits [of n] stop by (simp add: atoi_digits_append)
  obtain c cs where d: "decimal (nat \<bar>v\<bar>) = c # cs" "isdigit c" using decimal_hd by blast
  have sp: "dropWhile isspace (sp @ ys) = dropWhile isspace ys" for ys using assms(2) by (simp add: dropWhile_append1 dropWhile_append2)
  have m: "\<not> isspace 45" by (simp add: isspace_def)
  have b: "nat \<bar>v\<bar> \<le> 2 ^ 31" using assms(1) by (auto simp: in_s32_def)
  show ?thesis
  proof (cases "v < 0")
    case True
    then have "dec_string v = 45 # decimal (nat \<bar>v\<bar>)" by (simp add: dec_string_def)
    then show ?thesis using True num [OF b] m by (simp add: atoi_def sp)
  next
    case False
    then have "dec_string v = c # cs" using d by (simp add: dec_string_def)
    then show ?thesis using False num [OF b] digit_other [OF d(2)] d(1) assms(1) by (simp add: atoi_def sp)
  qed
qed

end
