(* ===== verification/Printf.thy ===== *)
theory Printf
  imports C_Stdlib
begin

text \<open>
  \<^verbatim>\<open>lib/stdio.c\<close>: the formatting behind \<^verbatim>\<open>printf\<close> and \<^verbatim>\<open>snprintf\<close>. A format is the list of its bytes up to the null byte. The variable
  arguments are the 32-bit words of the caller's stack: a 64-bit argument is two of them, the low one first; running
  out of arguments, or reading the format past its null byte, is undefined in C and \<open>None\<close> here. The output function of the C code
  with its \<^verbatim>\<open>aux\<close> is a function on the pair of \<^verbatim>\<open>aux\<close> and the memory.
\<close>

section \<open>Conversions\<close>

abbreviation c8 :: "char \<Rightarrow> u8" where "c8 c \<equiv> of_char c"
abbreviation s8 :: "string \<Rightarrow> u8 list" where "s8 s \<equiv> map of_char s"

type_synonym va_list = "u32 list"
type_synonym 'a outf = "u8 \<Rightarrow> 'a \<times> mem \<Rightarrow> 'a \<times> mem"

definition MINUS :: u32 where "MINUS = 1"
definition PLUS :: u32 where "PLUS = 2"
definition SPACE :: u32 where "SPACE = 4"
definition POUND :: u32 where "POUND = 8"
definition ZERO :: u32 where "ZERO = 16"
definition GROUP :: u32 where "GROUP = 32"

datatype arg_type = T_CHAR | T_SHORT | T_INT | T_INTMAX | T_LONG | T_LONGLONG | T_PTRDIFFT | T_SIZET

record printf_conversion =
  flags :: u32
  width :: int
  precision :: int
  arg_ty :: arg_type

record integer_base =
  base :: nat
  digits :: "u8 list"
  x_char :: u8
  group :: nat

definition base_d :: integer_base where
  "base_d = \<lparr>base = 10, digits = s8 ''0123456789'', x_char = 0, group = 3\<rparr>"

definition base_o :: integer_base where
  "base_o = \<lparr>base = 8, digits = s8 ''01234567'', x_char = 0, group = 3\<rparr>"

definition base_x :: integer_base where
  "base_x = \<lparr>base = 16, digits = s8 ''0123456789abcdef'', x_char = c8 (CHR ''x''), group = 4\<rparr>"

definition base_X :: integer_base where
  "base_X = \<lparr>base = 16, digits = s8 ''0123456789ABCDEF'', x_char = c8 (CHR ''X''), group = 4\<rparr>"

text \<open>\<^verbatim>\<open>va_arg\<close> for an argument of 32 bits and of 64 bits.\<close>

definition va_arg32 :: "va_list \<Rightarrow> (u32 \<times> va_list) option" where
  "va_arg32 args = (case args of a # as \<Rightarrow> Some (a, as) | [] \<Rightarrow> None)"

definition va_arg64 :: "va_list \<Rightarrow> (u64 \<times> va_list) option" where
  "va_arg64 args = (case args of lo # hi # as \<Rightarrow> Some (word_cat hi lo, as) | _ \<Rightarrow> None)"

section \<open>Parsing a conversion\<close>

text \<open>The byte at the current position of the format.\<close>

definition cur_byte :: "u8 list \<Rightarrow> u8" where
  "cur_byte format = (case format of [] \<Rightarrow> 0 | c # _ \<Rightarrow> c)"

fun parse_flags :: "u8 list \<Rightarrow> u32 \<Rightarrow> u32 \<times> u8 list" where
  "parse_flags [] fl = (fl, [])"
| "parse_flags (ch # format) fl =
     (if ch = c8 (CHR ''-'') then parse_flags format (fl OR MINUS)
      else if ch = c8 (CHR ''+'') then parse_flags format (fl OR PLUS)
      else if ch = c8 (CHR '' '') then parse_flags format (fl OR SPACE)
      else if ch = c8 (CHR ''#'') then parse_flags format (fl OR POUND)
      else if ch = c8 (CHR ''0'') then parse_flags format (fl OR ZERO)
      else if ch = c8 (CHR 0x27) then parse_flags format (fl OR GROUP)
      else (fl, ch # format))"

fun parse_number :: "u8 list \<Rightarrow> int \<Rightarrow> int \<times> u8 list" where
  "parse_number [] n = (n, [])"
| "parse_number (ch # format) n =
     (if isdigit ch then parse_number format (s32 (s32 (s32 (n * 10) + uint ch) - uint (c8 (CHR ''0'')))) else (n, ch # format))"

text \<open>A field width or a precision: \<open>*\<close> takes it from the arguments.\<close>

definition parse_star :: "u8 list \<Rightarrow> va_list \<Rightarrow> (int \<times> u8 list \<times> va_list) option" where
  "parse_star format args =
     (if cur_byte format = c8 (CHR ''*'')
      then do { (w, args) \<leftarrow> va_arg32 args; Some (sint w, tl format, args) }
      else (let (n, format) = parse_number format 0 in Some (n, format, args)))"

definition parse_type :: "u8 list \<Rightarrow> arg_type \<times> u8 list" where
  "parse_type format =
     (if cur_byte format = c8 (CHR ''h'')
      then (if cur_byte (tl format) = c8 (CHR ''h'') then (T_CHAR, tl (tl format)) else (T_SHORT, tl format))
      else if cur_byte format = c8 (CHR ''j'') then (T_INTMAX, tl format)
      else if cur_byte format = c8 (CHR ''l'')
      then (if cur_byte (tl format) = c8 (CHR ''l'') then (T_LONGLONG, tl (tl format)) else (T_LONG, tl format))
      else if cur_byte format = c8 (CHR ''t'') then (T_PTRDIFFT, tl format)
      else if cur_byte format = c8 (CHR ''z'') then (T_SIZET, tl format)
      else (T_INT, format))"

definition parse_precision :: "u8 list \<Rightarrow> va_list \<Rightarrow> (int \<times> u8 list \<times> va_list) option" where
  "parse_precision format args =
     (if cur_byte format = c8 (CHR ''.'')
      then do {
        (p, format, args) \<leftarrow> parse_star (tl format) args;
        Some (if p < 0 then -1 else p, format, args) }
      else Some (-1, format, args))"

definition parse_conversion :: "u8 list \<Rightarrow> va_list \<Rightarrow> (printf_conversion \<times> u8 list \<times> va_list) option" where
  "parse_conversion format args = do {
     let (fl, format) = parse_flags format 0;
     let fl = (if fl AND MINUS \<noteq> 0 then fl AND NOT ZERO else fl);
     let fl = (if fl AND PLUS \<noteq> 0 then fl AND NOT SPACE else fl);
     (wd, format, args) \<leftarrow> parse_star format args;
     let (wd, fl) = (if wd < 0 then (s32 (- wd), fl OR MINUS) else (wd, fl));
     (prec, format, args) \<leftarrow> parse_precision format args;
     let fl = (if prec \<ge> 0 then fl AND NOT ZERO else fl);
     let (ty, format) = parse_type format;
     Some (\<lparr>flags = fl, width = wd, precision = prec, arg_ty = ty\<rparr>, format, args) }"

section \<open>Output\<close>

primrec output_dup :: "u8 \<Rightarrow> nat \<Rightarrow> 'a outf \<Rightarrow> 'a \<times> mem \<Rightarrow> 'a \<times> mem" where
  "output_dup ch 0 out st = st"
| "output_dup ch (Suc cnt) out st = output_dup ch cnt out (out ch st)"

text \<open>
  The digits of \<^verbatim>\<open>value\<close> are appended to the buffer in reverse order. The bases of the four tables are all greater than one, which ends the loop.
\<close>

function int_digits :: "u64 \<Rightarrow> integer_base \<Rightarrow> u32 \<Rightarrow> nat \<Rightarrow> u8 list \<Rightarrow> u8 list" where
  "int_digits value b fl digit_cnt buf =
     (if value > 0 \<and> base b > 1
      then (let buf = (if fl AND GROUP \<noteq> 0 \<and> digit_cnt > 0 \<and> digit_cnt mod group b = 0 then buf @ [c8 (CHR '','')] else buf);
                buf = buf @ [digits b ! (unat value mod base b)]
            in int_digits (of_nat (unat value div base b)) b fl (digit_cnt + 1) buf)
      else buf)"
  by auto
termination
proof (relation "measure (\<lambda>(v, b, fl, n, buf). unat v)", simp)
  fix v :: u64 and b :: integer_base and fl :: u32 and n :: nat and buf :: "u8 list" and x xa
  assume v: "0 < v \<and> 1 < base b"
  have "unat v div base b \<le> unat v" by simp
  then have "unat (of_nat (unat v div base b) :: u64) = unat v div base b" by (metis le_unat_uoi)
  moreover have "unat v div base b < unat v" using v by (simp add: word_gt_0 unat_gt_0)
  ultimately show "((of_nat (unat v div base b), b, fl, n + 1, xa), (v, b, fl, n, buf)) \<in> measure (\<lambda>(v, b, fl, n, buf). unat v)"
    by simp
qed

declare int_digits.simps [simp del]

text \<open>
  The contents of \<^verbatim>\<open>buf\<close>: digits, zeros up to the precision as long as there is room in its 64 bytes, and the leading zero of an octal number.
\<close>

definition integer_buf :: "u64 \<Rightarrow> integer_base \<Rightarrow> printf_conversion \<Rightarrow> u8 list" where
  "integer_buf v b c =
     (let buf = int_digits v b (flags c) 0 [];
          prec = (if precision c < 0 then 1 else precision c);
          buf = buf @ replicate (nat (min prec 63) - length buf) (c8 (CHR ''0''))
      in if flags c AND POUND \<noteq> 0 \<and> base b = 8 \<and> (buf = [] \<or> last buf \<noteq> c8 (CHR ''0'')) then buf @ [c8 (CHR ''0'')] else buf)"

definition sign_char :: "bool \<Rightarrow> bool \<Rightarrow> printf_conversion \<Rightarrow> u8" where
  "sign_char is_signed negative c =
     (if is_signed
      then (if flags c AND PLUS \<noteq> 0 then (if negative then c8 (CHR ''-'') else c8 (CHR ''+''))
            else if flags c AND SPACE \<noteq> 0 then (if negative then c8 (CHR ''-'') else c8 (CHR '' ''))
            else if negative then c8 (CHR ''-'') else 0)
      else 0)"

definition format_integer ::
  "u64 \<Rightarrow> bool \<Rightarrow> bool \<Rightarrow> integer_base \<Rightarrow> printf_conversion \<Rightarrow> 'a outf \<Rightarrow> 'a \<times> mem \<Rightarrow> 'a \<times> mem" where
  "format_integer v is_signed negative b c out st =
     (let sign = sign_char is_signed negative c;
          x = (if flags c AND POUND \<noteq> 0 \<and> v \<noteq> 0 then x_char b else 0);
          buf = integer_buf v b c;
          pad_cnt = s32 (width c - int (length buf) - (if x \<noteq> 0 then 2 else 0) - (if sign \<noteq> 0 then 1 else 0));
          pad_cnt = nat pad_cnt;
          st = (if flags c AND (MINUS OR ZERO) = 0 then output_dup (c8 (CHR '' '')) pad_cnt out st else st);
          st = (if sign \<noteq> 0 then out sign st else st);
          st = (if x \<noteq> 0 then out x (out (c8 (CHR ''0'')) st) else st);
          st = (if flags c AND ZERO \<noteq> 0 then output_dup (c8 (CHR ''0'')) pad_cnt out st else st);
          st = fold out (rev buf) st
      in if flags c AND MINUS \<noteq> 0 then output_dup (c8 (CHR '' '')) pad_cnt out st else st)"

text \<open>The string to be formatted is read byte by byte from the memory as it is at that moment.\<close>

primrec string_loop :: "nat \<Rightarrow> nat \<Rightarrow> (mem \<Rightarrow> nat \<Rightarrow> u8) \<Rightarrow> 'a outf \<Rightarrow> 'a \<times> mem \<Rightarrow> 'a \<times> mem" where
  "string_loop 0 i str out st = st"
| "string_loop (Suc n) i str out st = string_loop n (i + 1) str out (out (str (snd st) i) st)"

definition format_string :: "(mem \<Rightarrow> nat \<Rightarrow> u8) \<Rightarrow> int \<Rightarrow> printf_conversion \<Rightarrow> 'a outf \<Rightarrow> 'a \<times> mem \<Rightarrow> 'a \<times> mem" where
  "format_string str len c out st =
     (let st = (if width c > len \<and> flags c AND MINUS = 0 then output_dup (c8 (CHR '' '')) (nat (width c - len)) out st else st);
          st = string_loop (nat len) 0 str out st
      in if width c > len \<and> flags c AND MINUS \<noteq> 0 then output_dup (c8 (CHR '' '')) (nat (width c - len)) out st else st)"

section \<open>The conversions\<close>

text \<open>The argument of a signed conversion, as an \<^verbatim>\<open>intmax_t\<close>.\<close>

definition signed_arg :: "arg_type \<Rightarrow> va_list \<Rightarrow> (u64 \<times> va_list) option" where
  "signed_arg ty args =
     (case ty of
        T_CHAR \<Rightarrow> map_option (\<lambda>(w, as). (scast (ucast w :: u8), as)) (va_arg32 args)
      | T_SHORT \<Rightarrow> map_option (\<lambda>(w, as). (scast (ucast w :: 16 word), as)) (va_arg32 args)
      | T_INTMAX \<Rightarrow> va_arg64 args
      | T_LONGLONG \<Rightarrow> va_arg64 args
      | T_SIZET \<Rightarrow> map_option (\<lambda>(w, as). (if (ucast w :: u64) > 2147483647 then ucast w - 4294967295 - 1 else ucast w, as)) (va_arg32 args)
      | _ \<Rightarrow> map_option (\<lambda>(w, as). (scast w, as)) (va_arg32 args))"

definition unsigned_arg :: "arg_type \<Rightarrow> va_list \<Rightarrow> (u64 \<times> va_list) option" where
  "unsigned_arg ty args =
     (case ty of
        T_CHAR \<Rightarrow> map_option (\<lambda>(w, as). (ucast (ucast w :: u8), as)) (va_arg32 args)
      | T_SHORT \<Rightarrow> map_option (\<lambda>(w, as). (ucast (ucast w :: 16 word), as)) (va_arg32 args)
      | T_INTMAX \<Rightarrow> va_arg64 args
      | T_LONGLONG \<Rightarrow> va_arg64 args
      | T_PTRDIFFT \<Rightarrow> map_option (\<lambda>(w, as). (scast w AND 4294967295, as)) (va_arg32 args)
      | _ \<Rightarrow> map_option (\<lambda>(w, as). (ucast w, as)) (va_arg32 args))"

text \<open>The message for a conversion that is not supported; \<open>msg\<close> prints a format with one argument.\<close>

definition no_conversion :: "(u8 list \<Rightarrow> u32 \<Rightarrow> 'a \<times> mem \<Rightarrow> ('a \<times> mem) option) \<Rightarrow> u8 \<Rightarrow> 'a \<times> mem \<Rightarrow> ('a \<times> mem) option" where
  "no_conversion msg ch st =
     (if ch \<in> set (s8 ''feEgGn'') then msg (s8 ''<<no %%%c in kernel>>'') (scast ch) st
      else msg (s8 ''<<no %%%c conversion>>'') (scast ch) st)"

definition convert ::
  "(u8 list \<Rightarrow> u32 \<Rightarrow> 'a \<times> mem \<Rightarrow> ('a \<times> mem) option) \<Rightarrow> u8 \<Rightarrow> printf_conversion \<Rightarrow> 'a outf \<Rightarrow> va_list \<Rightarrow> 'a \<times> mem \<Rightarrow>
     (va_list \<times> 'a \<times> mem) option" where
  "convert msg ch c out args st =
     (if ch \<in> set (s8 ''di'') then do {
        (v, args) \<leftarrow> signed_arg (arg_ty c) args;
        Some (args, format_integer (if sint v < 0 then - v else v) True (sint v < 0) base_d c out st) }
      else if ch \<in> set (s8 ''ouxX'') then do {
        (v, args) \<leftarrow> unsigned_arg (arg_ty c) args;
        let b = (if ch = c8 (CHR ''o'') then base_o else if ch = c8 (CHR ''u'') then base_d else if ch = c8 (CHR ''x'') then base_x else base_X);
        Some (args, format_integer v False False b c out st) }
      else if ch = c8 (CHR ''c'') then do {
        (w, args) \<leftarrow> va_arg32 args;
        Some (args, format_string (\<lambda>_ _. ucast w) 1 c out st) }
      else if ch = c8 (CHR ''s'') then do {
        (s, args) \<leftarrow> va_arg32 args;
        let str = (if s = 0 then (\<lambda>_ i. if i < 6 then s8 ''(null)'' ! i else 0) else (\<lambda>m i. m (unat s + i)));
        let len = strnlen 0 (nat (precision c mod 2 ^ 32)) (str (snd st));
        Some (args, format_string str (s32 (int len)) c out st) }
      else if ch = c8 (CHR ''p'') then do {
        (p, args) \<leftarrow> va_arg32 args;
        Some (args, format_integer (ucast p) False False base_x (c\<lparr>flags := POUND\<rparr>) out st) }
      else do {
        st \<leftarrow> no_conversion msg ch st;
        Some (args, st) })"

section \<open>\<^verbatim>\<open>__vprintf\<close>\<close>

lemma parse_lengths:
  "length (snd (parse_flags format fl)) \<le> length format" "length (snd (parse_number format n)) \<le> length format"
  "length (snd (parse_type format)) \<le> length format"
  "parse_star format args = Some (n, f, as) \<Longrightarrow> length f \<le> length format"
proof -
  show "length (snd (parse_flags format fl)) \<le> length format" by (induction format fl rule: parse_flags.induct) auto
  show n: "length (snd (parse_number format n)) \<le> length format" for n by (induction format n rule: parse_number.induct) auto
  show "length (snd (parse_type format)) \<le> length format" by (simp add: parse_type_def)
  show "parse_star format args = Some (n, f, as) \<Longrightarrow> length f \<le> length format"
    using n [of 0] by (auto simp: parse_star_def bind_eq_Some_conv split: if_splits prod.splits)
qed

lemma parse_conversion_length: "parse_conversion format args = Some (c, f, as) \<Longrightarrow> length f \<le> length format"
proof -
  assume p: "parse_conversion format args = Some (c, f, as)"
  obtain fl f1 where f1: "parse_flags format 0 = (fl, f1)" by fastforce
  obtain wd f2 a2 where f2: "parse_star f1 args = Some (wd, f2, a2)"
    using p f1 by (auto simp: parse_conversion_def bind_eq_Some_conv Let_def)
  obtain prec f3 a3 where f3: "parse_precision f2 a2 = Some (prec, f3, a3)" "f = snd (parse_type f3)"
    using p f1 f2 by (auto simp: parse_conversion_def bind_eq_Some_conv Let_def case_prod_beta)
  have "length f1 \<le> length format" "length f2 \<le> length f1" using parse_lengths(1) [of format 0] f1 parse_lengths(4) [OF f2] by auto
  moreover have "length f3 \<le> length f2" using f3(1) parse_lengths(4) [of "tl f2" a2]
    by (fastforce simp: parse_precision_def bind_eq_Some_conv split: if_splits)
  moreover have "length f \<le> length f3" using parse_lengths(3) f3(2) by blast
  ultimately show ?thesis by simp
qed

function vprintf_loop ::
  "(u8 list \<Rightarrow> u32 \<Rightarrow> 'a \<times> mem \<Rightarrow> ('a \<times> mem) option) \<Rightarrow> 'a outf \<Rightarrow> u8 list \<Rightarrow> va_list \<Rightarrow> 'a \<times> mem \<Rightarrow> ('a \<times> mem) option" where
  "vprintf_loop msg out [] args st = Some st"
| "vprintf_loop msg out (ch # format) args st =
     (if ch \<noteq> c8 (CHR ''%'') then vprintf_loop msg out format args (out ch st)
      else if cur_byte format = c8 (CHR ''%'') then vprintf_loop msg out (tl format) args (out (c8 (CHR ''%'')) st)
      else (case parse_conversion format args of
              None \<Rightarrow> None
            | Some (c, [], args) \<Rightarrow> None
            | Some (c, ch # format, args) \<Rightarrow>
                (case convert msg ch c out args st of
                   None \<Rightarrow> None
                 | Some (args, st) \<Rightarrow> vprintf_loop msg out format args st)))"
  by pat_completeness auto
termination
  by (relation "measure (\<lambda>(msg, out, format, args, st). length format)") (auto dest!: parse_conversion_length)

declare vprintf_loop.simps(2) [simp del]

text \<open>The formats of the two messages hold no other conversions than \<open>%%\<close> and \<open>%c\<close>, so that \<^verbatim>\<open>__vprintf\<close> calls itself only once.\<close>

definition do_vprintf :: "u8 list \<Rightarrow> va_list \<Rightarrow> 'a outf \<Rightarrow> 'a \<times> mem \<Rightarrow> ('a \<times> mem) option" where
  "do_vprintf format args out = vprintf_loop (\<lambda>format w. vprintf_loop (\<lambda>_ _ _. None) out format [w]) out format args"

section \<open>\<^verbatim>\<open>snprintf\<close>\<close>

record vsnprintf_aux =
  aux_p :: addr
  aux_length :: int
  max_length :: int

definition vsnprintf_helper :: "vsnprintf_aux outf" where
  "vsnprintf_helper ch st =
     (let (aux, m) = st
      in if aux_length aux < max_length aux
         then (aux\<lparr>aux_length := s32 (aux_length aux + 1), aux_p := aux_p aux + 1\<rparr>, m(aux_p aux := ch))
         else (aux\<lparr>aux_length := s32 (aux_length aux + 1)\<rparr>, m))"

definition vsnprintf :: "addr \<Rightarrow> nat \<Rightarrow> u8 list \<Rightarrow> va_list \<Rightarrow> mem \<Rightarrow> (int \<times> mem) option" where
  "vsnprintf buffer buf_size format args m = do {
     let aux = \<lparr>aux_p = buffer, aux_length = 0, max_length = (if buf_size > 0 then s32 (int (buf_size - 1)) else 0)\<rparr>;
     (aux, m) \<leftarrow> do_vprintf format args vsnprintf_helper (aux, m);
     let m = (if buf_size > 0 then m(aux_p aux := 0) else m);
     Some (aux_length aux, m) }"

text \<open>The arguments of \<^verbatim>\<open>snprintf\<close> and \<^verbatim>\<open>__printf\<close> after the format are the \<^verbatim>\<open>va_list\<close>.\<close>

definition snprintf :: "addr \<Rightarrow> nat \<Rightarrow> u8 list \<Rightarrow> va_list \<Rightarrow> mem \<Rightarrow> (int \<times> mem) option" where
  "snprintf buffer buf_size format args = vsnprintf buffer buf_size format args"

definition do_printf :: "u8 list \<Rightarrow> 'a outf \<Rightarrow> va_list \<Rightarrow> 'a \<times> mem \<Rightarrow> ('a \<times> mem) option" where
  "do_printf format out args = do_vprintf format args out"

section \<open>Dumps and sizes\<close>

text \<open>\<^verbatim>\<open>printf\<close> on the console, whose output function is a parameter.\<close>

definition hi32 :: "u64 \<Rightarrow> u32" where "hi32 v = ucast (drop_bit 32 v)"

primrec printf_times :: "nat \<Rightarrow> u8 list \<Rightarrow> 'a outf \<Rightarrow> 'a \<times> mem \<Rightarrow> ('a \<times> mem) option" where
  "printf_times 0 format out st = Some st"
| "printf_times (Suc n) format out st = do { st \<leftarrow> do_printf format out [] st; printf_times n format out st }"

text \<open>The columns from \<open>i\<close> on of one line in hexadecimal, and as characters.\<close>

fun hex_bytes :: "nat \<Rightarrow> nat \<Rightarrow> addr \<Rightarrow> 'a outf \<Rightarrow> 'a \<times> mem \<Rightarrow> ('a \<times> mem) option" where
  "hex_bytes 0 i buf out st = Some st"
| "hex_bytes (Suc n) i buf out st = do {
     st \<leftarrow> do_printf (s8 ''%02hhx%c'') out [ucast (snd st buf), if i = 7 then ucast (c8 (CHR ''-'')) else ucast (c8 (CHR '' ''))] st;
     hex_bytes n (i + 1) (buf + 1) out st }"

definition isprint :: "u8 \<Rightarrow> bool" where
  "isprint c \<longleftrightarrow> 32 \<le> c \<and> c < 127"

fun ascii_bytes :: "nat \<Rightarrow> addr \<Rightarrow> 'a outf \<Rightarrow> 'a \<times> mem \<Rightarrow> ('a \<times> mem) option" where
  "ascii_bytes 0 buf out st = Some st"
| "ascii_bytes (Suc n) buf out st = do {
     st \<leftarrow> do_printf (s8 ''%c'') out [if isprint (snd st buf) then ucast (snd st buf) else ucast (c8 (CHR ''.''))] st;
     ascii_bytes n (buf + 1) out st }"

definition dump_line :: "u32 \<Rightarrow> addr \<Rightarrow> nat \<Rightarrow> nat \<Rightarrow> bool \<Rightarrow> 'a outf \<Rightarrow> 'a \<times> mem \<Rightarrow> ('a \<times> mem) option" where
  "dump_line ofs buf start n ascii out st = do {
     st \<leftarrow> do_printf (s8 ''%08jx  '') out [ofs div 16 * 16, 0] st;
     st \<leftarrow> printf_times start (s8 ''   '') out st;
     st \<leftarrow> hex_bytes n start buf out st;
     st \<leftarrow> (if ascii
            then do {
              st \<leftarrow> printf_times (16 - (start + n)) (s8 ''   '') out st;
              st \<leftarrow> do_printf (s8 ''|'') out [] st;
              st \<leftarrow> printf_times start (s8 '' '') out st;
              st \<leftarrow> ascii_bytes n buf out st;
              st \<leftarrow> printf_times (16 - (start + n)) (s8 '' '') out st;
              do_printf (s8 ''|'') out [] st }
            else Some st);
     do_printf [10] out [] st }"

function hex_dump :: "u32 \<Rightarrow> addr \<Rightarrow> nat \<Rightarrow> bool \<Rightarrow> 'a outf \<Rightarrow> 'a \<times> mem \<Rightarrow> ('a \<times> mem) option" where
  "hex_dump ofs buf sz ascii out st =
     (if sz > 0
      then (let start = unat ofs mod 16;
                n = (if 16 - start > sz then sz else 16 - start)
            in case dump_line ofs buf start n ascii out st of
                 None \<Rightarrow> None
               | Some st \<Rightarrow> hex_dump (ofs + of_nat n) (buf + n) (sz - n) ascii out st)
      else Some st)"
  by auto
termination by (relation "measure (\<lambda>(ofs, buf, sz, ascii, out, st). sz)") (auto simp: Let_def split: if_splits)

declare hex_dump.simps [simp del]

text \<open>The factors that are left, and the size divided accordingly.\<close>

fun size_factor :: "string list \<Rightarrow> u64 \<Rightarrow> string \<times> u64" where
  "size_factor [] sz = ([], sz)"
| "size_factor [f] sz = (f, sz)"
| "size_factor (f # g # fs) sz = (if sz \<ge> 1024 then size_factor (g # fs) (sz div 1024) else (f, sz))"

text \<open>The name of the factor is a string constant of the program, at the address \<open>lit f\<close>.\<close>

definition print_human_readable_size :: "(string \<Rightarrow> u32) \<Rightarrow> u64 \<Rightarrow> 'a outf \<Rightarrow> 'a \<times> mem \<Rightarrow> ('a \<times> mem) option" where
  "print_human_readable_size lit sz out st =
     (if sz = 1 then do_printf (s8 ''1 byte'') out [] st
      else (let (f, sz) = size_factor [''bytes'', ''kB'', ''MB'', ''GB'', ''TB''] sz
            in do_printf (s8 ''%llu %s'') out [ucast sz, hi32 sz, lit f] st))"

section \<open>What is written\<close>

text \<open>
  A function that keeps what every output keeps. The contract of an output function is that it maintains a property \<open>I\<close> of its state; then
  everything that prints through it does.
\<close>

locale output_invariant =
  fixes out :: "'a outf" and I :: "'a \<times> mem \<Rightarrow> bool"
  assumes out_inv: "I st \<Longrightarrow> I (out ch st)"
begin

lemma fold_inv: "I st \<Longrightarrow> I (fold out cs st)"
  by (induction cs arbitrary: st) (simp_all add: out_inv)

lemma dup_inv: "I st \<Longrightarrow> I (output_dup ch n out st)"
  by (induction n arbitrary: st) (simp_all add: out_inv)

lemma string_inv: "I st \<Longrightarrow> I (string_loop n i str out st)"
  by (induction n arbitrary: st i) (simp_all add: out_inv)

lemma format_integer_inv: "I st \<Longrightarrow> I (format_integer v sg neg b c out st)"
  by (simp add: format_integer_def Let_def fold_inv dup_inv out_inv)

lemma format_string_inv: "I st \<Longrightarrow> I (format_string str len c out st)"
  by (simp add: format_string_def Let_def dup_inv string_inv)

lemma convert_inv:
  assumes I: "I st" and c: "convert msg ch c out args st = Some (args', st')"
    and msg: "\<forall>f w st st'. I st \<longrightarrow> msg f w st = Some st' \<longrightarrow> I st'"
  shows "I st'"
proof -
  have "I st1" if "no_conversion msg ch st = Some st1" for st1
    using that msg I unfolding no_conversion_def by meson
  then show ?thesis
    using I c by (auto simp: convert_def bind_eq_Some_conv Let_def format_integer_inv format_string_inv simp del: list.map split: if_splits)
qed

lemma vprintf_loop_inv:
  assumes msg: "\<forall>f w st st'. I st \<longrightarrow> msg f w st = Some st' \<longrightarrow> I st'"
  shows "I st \<Longrightarrow> vprintf_loop msg out format args st = Some st' \<Longrightarrow> I st'"
proof (induction "length format" arbitrary: format args st rule: less_induct)
  case less
  show ?case
  proof (cases format)
    case Nil
    then show ?thesis using less.prems by simp
  next
    case (Cons ch f)
    show ?thesis
    proof (cases "ch \<noteq> c8 (CHR ''%'') \<or> cur_byte f = c8 (CHR ''%'')")
      case True
      then obtain f1 ch1 where f1: "vprintf_loop msg out f1 args (out ch1 st) = Some st'" "f1 = f \<or> f1 = tl f"
        using less.prems(2) Cons by (cases "ch = c8 (CHR ''%'')") (auto simp: vprintf_loop.simps(2))
      then have "length f1 < length format" using Cons by auto
      then show ?thesis by (rule less.hyps [OF _ out_inv [OF less.prems(1)] f1(1)])
    next
      case False
      then obtain c ch' f' as as' st1 where p: "parse_conversion f args = Some (c, ch' # f', as)"
        and cv: "convert msg ch' c out as st = Some (as', st1)" and r: "vprintf_loop msg out f' as' st1 = Some st'"
        using less.prems(2) Cons by (auto simp: vprintf_loop.simps(2) split: option.splits list.splits prod.splits)
      have "length f' < length format" using parse_conversion_length [OF p] Cons by simp
      then show ?thesis by (rule less.hyps [OF _ convert_inv [OF less.prems(1) cv msg] r])
    qed
  qed
qed

lemma vprintf_inv:
  assumes "I st" "do_vprintf format args out st = Some st'"
  shows "I st'"
proof -
  have "\<forall>f w st st'. I st \<longrightarrow> vprintf_loop (\<lambda>_ _ _. None) out f [w] st = Some st' \<longrightarrow> I st'"
    using vprintf_loop_inv [of "\<lambda>_ _ _. None"] by blast
  then show ?thesis by (rule vprintf_loop_inv [OF _ assms(1) assms(2) [unfolded do_vprintf_def]])
qed

end

text \<open>Whatever the format and the arguments, some text goes through the output function.\<close>

interpretation written: output_invariant out "\<lambda>st'. \<exists>ts. st' = fold out ts st" for out :: "'a outf" and st
proof unfold_locales
  fix st1 :: "'a \<times> mem" and ch assume "\<exists>ts. st1 = fold out ts st"
  then obtain ts where "st1 = fold out ts st" by blast
  then have "out ch st1 = fold out (ts @ [ch]) st" by simp
  then show "\<exists>ts. out ch st1 = fold out ts st" by blast
qed

lemma vprintf_text: "do_vprintf format args out st = Some st' \<Longrightarrow> \<exists>ts. st' = fold out ts st"
  by (rule written.vprintf_inv) (rule exI [of _ "[]"], simp)

section \<open>\<^verbatim>\<open>vsnprintf\<close> keeps within its buffer\<close>

text \<open>The state of \<^verbatim>\<open>vsnprintf_helper\<close> after a text that an \<^verbatim>\<open>int\<close> can count.\<close>

lemma helper_fold:
  assumes "length cs < 2 ^ 31" "0 \<le> mx" "mx < 2 ^ 31"
  shows "fold vsnprintf_helper cs (\<lparr>aux_p = p, aux_length = 0, max_length = mx\<rparr>, m) =
    (\<lparr>aux_p = p + min (length cs) (nat mx), aux_length = int (length cs), max_length = mx\<rparr>,
     \<lambda>a. if p \<le> a \<and> a < p + min (length cs) (nat mx) then cs ! (a - p) else m a)"
  using assms(1)
proof (induction cs rule: rev_induct)
  case (snoc c cs)
  then have "s32 (int (length cs) + 1) = int (length (cs @ [c]))" by (simp add: in_s32_def)
  moreover have "int (length cs) < mx \<longleftrightarrow> length cs < nat mx" using assms(2) by linarith
  ultimately show ?case
    using snoc by (auto simp: vsnprintf_helper_def fun_eq_iff nth_append min_def)
qed (auto simp: fun_eq_iff)

text \<open>The contents of the buffer after \<open>cs\<close> has been printed to it.\<close>

definition printed :: "addr \<Rightarrow> nat \<Rightarrow> u8 list \<Rightarrow> mem \<Rightarrow> mem \<Rightarrow> bool" where
  "printed buffer n cs m m' \<longleftrightarrow>
     (\<forall>a. a < buffer \<or> buffer + n \<le> a \<longrightarrow> m' a = m a) \<and>
     (\<forall>i < min (length cs) (n - 1). m' (buffer + i) = cs ! i) \<and> m' (buffer + min (length cs) (n - 1)) = 0"

lemma vsnprintf_printed:
  assumes n: "0 < n" "n \<le> 2 ^ 31" and cs: "length cs < 2 ^ 31"
    and v: "do_vprintf format args vsnprintf_helper (\<lparr>aux_p = buffer, aux_length = 0, max_length = int (n - 1)\<rparr>, m) =
      Some (fold vsnprintf_helper cs (\<lparr>aux_p = buffer, aux_length = 0, max_length = int (n - 1)\<rparr>, m))"
  shows "\<exists>m'. vsnprintf buffer n format args m = Some (int (length cs), m') \<and> printed buffer n cs m m'"
proof -
  have "s32 (int (n - 1)) = int (n - 1)" using n by (simp add: in_s32_def)
  moreover have "nat (int n - 1) = n - Suc 0" using n by linarith
  ultimately have "vsnprintf buffer n format args m = Some (int (length cs),
      (\<lambda>a. if buffer \<le> a \<and> a < buffer + min (length cs) (n - 1) then cs ! (a - buffer) else m a)(buffer + min (length cs) (n - 1) := 0))"
    using v helper_fold [OF cs, of "int (n - 1)" buffer m] n by (simp add: vsnprintf_def)
  moreover have "printed buffer n cs m
      ((\<lambda>a. if buffer \<le> a \<and> a < buffer + min (length cs) (n - 1) then cs ! (a - buffer) else m a)(buffer + min (length cs) (n - 1) := 0))"
    using n by (auto simp: printed_def)
  ultimately show ?thesis by blast
qed

lemma printed_cstr: "printed buffer n cs m m' \<Longrightarrow> 0 \<notin> set cs \<Longrightarrow> cstr m' buffer (take (n - 1) cs)"
  by (intro cstrI) (auto simp: printed_def min.commute dest: in_set_takeD)

text \<open>The count is an \<^verbatim>\<open>int\<close>: behind \<open>2 ^ 31\<close> bytes it is negative, and the helper stores again.\<close>

lemma s32_add: "s32 (s32 x + y) = s32 (x + y)"
proof -
  have "s32 x + y + 2 ^ 31 = (x + 2 ^ 31) mod 2 ^ 32 + y" by (simp add: s32_def)
  then show ?thesis unfolding s32_def [of "s32 x + y"] by (simp add: s32_def mod_simps ac_simps)
qed

lemma helper_count: "aux_length (fst (vsnprintf_helper c st)) = s32 (aux_length (fst st) + 1)"
  by (simp add: vsnprintf_helper_def split: prod.split)

lemma helper_fold_count: "in_s32 (aux_length (fst st)) \<Longrightarrow> aux_length (fst (fold vsnprintf_helper cs st)) = s32 (aux_length (fst st) + int (length cs))"
  by (induction cs rule: rev_induct) (simp_all add: helper_count s32_add add.assoc add.commute [of 1])

lemma helper_fold_overrun:
  assumes "length cs = 2 ^ 31 + 1" "0 \<le> mx" "mx < 2 ^ 31"
  shows "aux_p (fst (fold vsnprintf_helper cs (\<lparr>aux_p = p, aux_length = 0, max_length = mx\<rparr>, m))) = p + nat mx + 1"
proof -
  define ds where "ds = take (2 ^ 31 - 1) cs"
  have "length (drop (2 ^ 31 - 1) cs) = 2" using assms(1) by simp
  then obtain a b where "drop (2 ^ 31 - 1) cs = [a, b]" unfolding numeral_2_eq_2 by (auto simp only: length_Suc_conv length_0_conv)
  then have cs: "cs = ds @ [a, b]" unfolding ds_def by (metis append_take_drop_id)
  have l: "length ds = 2 ^ 31 - 1" using assms(1) by (simp add: ds_def)
  obtain m1 where "fold vsnprintf_helper ds (\<lparr>aux_p = p, aux_length = 0, max_length = mx\<rparr>, m) =
      (\<lparr>aux_p = p + nat mx, aux_length = 2 ^ 31 - 1, max_length = mx\<rparr>, m1)"
    using helper_fold [of ds mx p m] assms(2,3) l nat_le_iff [of mx "2 ^ 31 - 1"] by (simp add: min_absorb2)
  moreover have "s32 2147483648 = - 2147483648" by (simp add: s32_def)
  ultimately show ?thesis unfolding cs using assms(2,3) by (simp add: vsnprintf_helper_def)
qed

text \<open>
  C34 \<^verbatim>\<open>vsnprintf\<close> with a buffer of 1 to \<open>2 ^ 31\<close> bytes, for every format and all arguments with which it returns. What the conversions produce is one
  text. If it has less than \<open>2 ^ 31\<close> bytes, the result is its length, the buffer holds as much of it as fits with a null byte behind, and no byte
  outside of the buffer is written. The code counts in an \<^verbatim>\<open>int\<close>, so for longer texts the result wraps around, and a text of \<open>2 ^ 31 + 1\<close> bytes gets its
  null byte behind the end of the buffer.
\<close>

theorem vsnprintf_bounded:
  assumes "0 < n" "n \<le> 2 ^ 31" and "vsnprintf buffer n format args m = Some (r, m')"
  shows "\<exists>cs. do_vprintf format args vsnprintf_helper (\<lparr>aux_p = buffer, aux_length = 0, max_length = int (n - 1)\<rparr>, m) =
      Some (fold vsnprintf_helper cs (\<lparr>aux_p = buffer, aux_length = 0, max_length = int (n - 1)\<rparr>, m)) \<and>
    r = s32 (int (length cs)) \<and>
    (length cs < 2 ^ 31 \<longrightarrow> r = int (length cs) \<and> printed buffer n cs m m') \<and>
    (length cs = 2 ^ 31 + 1 \<longrightarrow> m' (buffer + n) = 0)"
proof -
  let ?st = "(\<lparr>aux_p = buffer, aux_length = 0, max_length = int (n - 1)\<rparr>, m)"
  have mx: "s32 (int (n - 1)) = int (n - 1)" using assms(1,2) by (simp add: in_s32_def)
  then obtain st' where st': "do_vprintf format args vsnprintf_helper ?st = Some st'"
    using assms(1,3) by (auto simp: vsnprintf_def bind_eq_Some_conv)
  then obtain cs where cs: "st' = fold vsnprintf_helper cs ?st" using vprintf_text by blast
  have v: "r = aux_length (fst st')" "m' = (snd st')(aux_p (fst st') := 0)"
    using assms(1,3) st' mx by (auto simp: vsnprintf_def split: prod.splits)
  have "r = s32 (int (length cs))" using v(1) cs helper_fold_count [of ?st cs] by (simp add: in_s32_def)
  moreover have "r = int (length cs) \<and> printed buffer n cs m m'" if "length cs < 2 ^ 31"
    using vsnprintf_printed [OF assms(1,2) that, of format args buffer m] st' cs assms(3) by auto
  moreover have "m' (buffer + n) = 0" if "length cs = 2 ^ 31 + 1"
  proof -
    have "aux_p (fst st') = buffer + n" using helper_fold_overrun [OF that, of "int (n - 1)" buffer m] cs assms(1,2) by simp
    then show ?thesis using v(2) by simp
  qed
  ultimately show ?thesis using st' cs by blast
qed

section \<open>Numbers\<close>

lemma output_dup_fold: "output_dup ch n out st = fold out (replicate n ch) st"
  by (induction n arbitrary: st) simp_all

text \<open>The text of an integer conversion.\<close>

definition integer_text :: "u64 \<Rightarrow> bool \<Rightarrow> bool \<Rightarrow> integer_base \<Rightarrow> printf_conversion \<Rightarrow> u8 list" where
  "integer_text v sg neg b c =
     (let sign = sign_char sg neg c;
          x = (if flags c AND POUND \<noteq> 0 \<and> v \<noteq> 0 then x_char b else 0);
          buf = integer_buf v b c;
          pad = nat (s32 (width c - int (length buf) - (if x \<noteq> 0 then 2 else 0) - (if sign \<noteq> 0 then 1 else 0)))
      in (if flags c AND (MINUS OR ZERO) = 0 then replicate pad (c8 (CHR '' '')) else []) @
         (if sign \<noteq> 0 then [sign] else []) @ (if x \<noteq> 0 then [c8 (CHR ''0''), x] else []) @
         (if flags c AND ZERO \<noteq> 0 then replicate pad (c8 (CHR ''0'')) else []) @ rev buf @
         (if flags c AND MINUS \<noteq> 0 then replicate pad (c8 (CHR '' '')) else []))"

lemma format_integer_text: "format_integer v sg neg b c out st = fold out (integer_text v sg neg b c) st"
  by (simp add: format_integer_def integer_text_def Let_def output_dup_fold)

text \<open>The digits of a number, the last one first.\<close>

function rdigits :: "nat \<Rightarrow> nat \<Rightarrow> nat list" where
  "rdigits b n = (if b > 1 \<and> n > 0 then n mod b # rdigits b (n div b) else [])"
  by auto
termination by (relation "measure snd") auto

declare rdigits.simps [simp del]

lemma rdigits_0 [simp]: "rdigits b 0 = []"
  by (subst rdigits.simps) simp

lemma rdigits_less: "d \<in> set (rdigits b n) \<Longrightarrow> d < b"
proof (induction b n rule: rdigits.induct)
  case (1 b n)
  then show ?case by (cases "b > 1 \<and> n > 0") (auto simp: rdigits.simps [of b n])
qed

lemma rdigits_value: "b > 1 \<Longrightarrow> foldr (\<lambda>d v. v * b + d) (rdigits b n) 0 = n"
proof (induction b n rule: rdigits.induct)
  case (1 b n)
  then show ?case by (cases "n > 0") (simp_all add: rdigits.simps [of b n])
qed

lemma rdigits_length: "b > 1 \<Longrightarrow> n < b ^ k \<Longrightarrow> length (rdigits b n) \<le> k"
proof (induction k arbitrary: n)
  case (Suc k)
  then have "n div b < b ^ k" by (simp add: less_mult_imp_div_less mult.commute)
  with Suc.IH [of "n div b"] Suc.prems show ?case by (subst rdigits.simps) auto
qed (subst rdigits.simps, auto)

lemma unat_div64: "unat (of_nat (unat (v :: u64) div k) :: u64) = unat v div k"
  by (metis div_le_dividend le_unat_uoi)

lemma int_digits_plain:
  "fl AND GROUP = 0 \<Longrightarrow> int_digits v b fl n buf = buf @ map (\<lambda>d. digits b ! d) (rdigits (base b) (unat v))"
proof (induction v b fl n buf rule: int_digits.induct)
  case (1 v b fl n buf)
  show ?case
  proof (cases "v > 0 \<and> base b > 1")
    case True
    then have "rdigits (base b) (unat v) = unat v mod base b # rdigits (base b) (unat v div base b)"
      by (subst rdigits.simps) (simp add: word_gt_0 unat_gt_0)
    then show ?thesis using 1 True by (subst int_digits.simps) (simp add: unat_div64)
  next
    case False
    then have "rdigits (base b) (unat v) = []" by (subst rdigits.simps) (auto simp: word_gt_0 unat_gt_0)
    then show ?thesis using False by (subst int_digits.simps) auto
  qed
qed

lemma int_digits_length: "length (int_digits v b fl n buf) \<le> length buf + 2 * length (rdigits (base b) (unat v))"
proof (induction v b fl n buf rule: int_digits.induct)
  case (1 v b fl n buf)
  show ?case
  proof (cases "v > 0 \<and> base b > 1")
    case True
    then have "rdigits (base b) (unat v) = unat v mod base b # rdigits (base b) (unat v div base b)"
      by (subst rdigits.simps) (simp add: word_gt_0 unat_gt_0)
    then show ?thesis using 1 [OF True refl refl] True by (subst int_digits.simps) (auto simp: unat_div64 Let_def split: if_splits)
  next
    case False
    then show ?thesis by (subst int_digits.simps) auto
  qed
qed

lemma integer_buf_length:
  assumes "8 \<le> base b"
  shows "length (integer_buf v b c) \<le> 64"
proof -
  have "unat v < 2 ^ 64" using unsigned_less [of v] by simp
  also have "(2 :: nat) ^ 64 \<le> 8 ^ 22" by simp
  also have "8 ^ 22 \<le> base b ^ 22" using assms by (rule power_mono) simp
  finally have "length (rdigits (base b) (unat v)) \<le> 22" using assms by (intro rdigits_length) auto
  then have l: "length (int_digits v b (flags c) 0 []) \<le> 44" using int_digits_length [of v b "flags c" 0 "[]"] by simp
  let ?buf = "int_digits v b (flags c) 0 []" and ?p = "if precision c < 0 then 1 else precision c"
  have "length (?buf @ replicate (nat (min ?p 63) - length ?buf) (c8 (CHR ''0''))) \<le> 63" using l by simp
  then show ?thesis by (simp add: integer_buf_def Let_def split: if_splits)
qed

text \<open>
  C36 The 64 bytes of \<^verbatim>\<open>buf\<close> in \<^verbatim>\<open>format_integer\<close> are enough: for every value, base, flag (digit groups included), width and precision it holds at most
  that many characters.
\<close>

theorem integer_buf_fits:
  assumes "b \<in> {base_d, base_o, base_x, base_X}"
  shows "length (integer_buf v b c) \<le> 64"
  using assms by (intro integer_buf_length) (auto simp: base_d_def base_o_def base_x_def base_X_def)

theorem integer_buf_fits_witness:
  "length (integer_buf (- 1) base_o \<lparr>flags = GROUP OR POUND, width = 100, precision = 80, arg_ty = T_INTMAX\<rparr>) \<le> 64"
  by (rule integer_buf_fits) simp

lemma digit_nth:
  "d < 10 \<Longrightarrow> digits base_d ! d = of_nat (d + 48)" "d < 8 \<Longrightarrow> digits base_o ! d = of_nat (d + 48)"
proof -
  have "\<forall>d < 10. digits base_d ! d = of_nat (d + 48)" by (simp add: base_d_def All_less_Suc numeral_eq_Suc)
  then show "d < 10 \<Longrightarrow> digits base_d ! d = of_nat (d + 48)" by blast
  have "\<forall>d < 8. digits base_o ! d = of_nat (d + 48)" by (simp add: base_o_def All_less_Suc numeral_eq_Suc)
  then show "d < 8 \<Longrightarrow> digits base_o ! d = of_nat (d + 48)" by blast
qed

lemma decimal_rdigits: "decimal n = (if n = 0 then [48] else rev (map (\<lambda>d. of_nat (d + 48)) (rdigits 10 n)))"
proof (induction n rule: decimal.induct)
  case (1 n)
  show ?case
  proof (cases "n < 10")
    case True
    then show ?thesis by (subst decimal.simps, subst rdigits.simps) (auto simp: rdigits.simps)
  next
    case False
    then have "rdigits 10 n = n mod 10 # rdigits 10 (n div 10)" by (subst rdigits.simps) simp
    then show ?thesis using 1 False by (subst decimal.simps) simp
  qed
qed

text \<open>A conversion without flags, width and precision.\<close>

definition plain :: "arg_type \<Rightarrow> printf_conversion" where
  "plain ty = \<lparr>flags = 0, width = 0, precision = -1, arg_ty = ty\<rparr>"

lemma integer_buf_decimal: "integer_buf v base_d (plain ty) = rev (decimal (unat v))"
proof (cases "v = 0")
  case True
  then show ?thesis by (simp add: integer_buf_def plain_def Let_def int_digits_plain decimal_rdigits GROUP_def)
next
  case False
  then have n: "unat v \<noteq> 0" by (simp add: unat_eq_zero)
  have "rdigits 10 (unat v) \<noteq> []" using n by (subst rdigits.simps) simp
  moreover have "map (\<lambda>d. digits base_d ! d) (rdigits 10 (unat v)) = map (\<lambda>d. of_nat (d + 48)) (rdigits 10 (unat v))"
    by (rule map_cong [OF refl digit_nth(1)]) (rule rdigits_less)
  moreover have "base base_d = 10" by (simp add: base_d_def)
  ultimately show ?thesis using n
    by (simp add: integer_buf_def plain_def Let_def int_digits_plain decimal_rdigits GROUP_def POUND_def Suc_le_eq)
qed

lemma integer_text_plain:
  "integer_text v sg neg base_d (plain ty) = (if sg \<and> neg then [45] else []) @ decimal (unat v)"
proof -
  have "s32 (- int k - (if b then 1 else 0)) \<le> 0" if "k \<le> 64" for k b using that by (simp add: in_s32_def)
  moreover have "length (decimal (unat v)) \<le> 64"
    using integer_buf_length [of base_d v "plain ty"] by (simp add: integer_buf_decimal) (simp add: base_d_def)
  ultimately have "nat (s32 (- int (length (decimal (unat v))) - (if b then 1 else 0))) = 0" for b by simp
  from this [of True] this [of False] have "s32 (- int (length (decimal (unat v))) - 1) \<le> 0" "s32 (- int (length (decimal (unat v)))) \<le> 0"
    by simp_all
  moreover have "(if flags (plain ty) AND POUND \<noteq> 0 \<and> v \<noteq> 0 then x_char base_d else 0) = 0" by (simp add: base_d_def)
  ultimately show ?thesis
    unfolding integer_text_def Let_def integer_buf_decimal by (simp only:) (simp add: plain_def sign_char_def)
qed

lemma scast_abs:
  fixes w :: u32
  shows "sint (scast w :: u64) = sint w" "unat (if sint w < 0 then - scast w else scast w :: u64) = nat \<bar>sint w\<bar>"
proof -
  have r: "- (2 ^ 31) \<le> sint w" "sint w < 2 ^ 31" using sint_greater_eq [of w] sint_less [of w] by simp_all
  then have "signed_take_bit 63 (sint w) = sint w" by (intro signed_take_bit_int_eq_self) simp_all
  then show "sint (scast w :: u64) = sint w" unfolding scast_eq sint_sbintrunc' by simp
  have "uint (word_of_int \<bar>sint w\<bar> :: u64) = \<bar>sint w\<bar>" using r by (simp add: uint_word_of_int)
  moreover have "(if sint w < 0 then - scast w else scast w :: u64) = word_of_int \<bar>sint w\<bar>"
    unfolding scast_eq by (cases "sint w < 0") (auto simp only: abs_of_neg abs_of_nonneg not_less wi_hom_neg split: if_split)
  ultimately show "unat (if sint w < 0 then - scast w else scast w :: u64) = nat \<bar>sint w\<bar>" by (simp only: unat_eq_nat_uint)
qed

lemma vprintf_d: "do_vprintf (s8 ''%d'') [w] out st = Some (fold out (dec_string (sint w)) st)"
proof -
  have "parse_conversion [100] [w] = Some (plain T_INT, [100], [w])"
    by (simp add: parse_conversion_def parse_star_def parse_precision_def parse_type_def cur_byte_def isdigit_def plain_def word_le_nat_alt
        MINUS_def PLUS_def)
  moreover have "convert msg 100 (plain T_INT) out [w] st = Some ([], fold out (dec_string (sint w)) st)" for msg
  proof -
    have "integer_text (if sint w < 0 then - scast w else scast w) True (sint w < 0) base_d (plain T_INT) = dec_string (sint w)"
      unfolding integer_text_plain scast_abs(2) by (simp add: dec_string_def)
    moreover have "signed_arg (arg_ty (plain T_INT)) [w] = Some (scast w, [])" by (simp add: signed_arg_def va_arg32_def plain_def)
    ultimately show ?thesis by (simp add: convert_def scast_abs(1) format_integer_text)
  qed
  ultimately show ?thesis
    by (simp add: do_vprintf_def vprintf_loop.simps(2) cur_byte_def)
qed

lemma dec_string_nz: "0 \<notin> set (dec_string v)"
proof -
  have "\<not> isdigit 0" by (simp add: isdigit_def word_le_nat_alt)
  then have "0 \<notin> set (decimal n)" for n using decimal_digits [of n] by auto
  then show ?thesis by (simp add: dec_string_def)
qed

lemma dec_string_length: "length (dec_string (sint (w :: u32))) < 2 ^ 31"
proof -
  have "nat \<bar>sint w\<bar> < 10 ^ 10" using sint_greater_eq [of w] sint_less [of w] by simp
  then have "length (rdigits 10 (nat \<bar>sint w\<bar>)) \<le> 10" by (intro rdigits_length) auto
  then have "length (decimal (nat \<bar>sint w\<bar>)) \<le> 10" by (simp add: decimal_rdigits)
  then show ?thesis by (auto simp: dec_string_def)
qed

text \<open>
  C35 \<^verbatim>\<open>snprintf\<close> with \<^verbatim>\<open>%d\<close> and \<^verbatim>\<open>atoi\<close>: for every \<^verbatim>\<open>int\<close>, the smallest included, and a buffer that is large enough, the buffer holds the
  decimal notation of the number and nothing outside it changes; \<^verbatim>\<open>atoi\<close> reads the number back from it, after white space and up
  to the first character that is no digit.
\<close>

theorem snprintf_atoi_round_trip:
  assumes "length (dec_string (sint w)) < n" "n \<le> 2 ^ 31" and "\<forall>c\<in>set sp. isspace c" and "rest = [] \<or> \<not> isdigit (hd rest)"
  shows "\<exists>m'. snprintf buffer n (s8 ''%d'') [w] m = Some (int (length (dec_string (sint w))), m') \<and> cstr m' buffer (dec_string (sint w)) \<and>
    (\<forall>a. a < buffer \<or> buffer + n \<le> a \<longrightarrow> m' a = m a) \<and> atoi (sp @ dec_string (sint w) @ rest) = sint w"
proof -
  obtain m' where m': "vsnprintf buffer n (s8 ''%d'') [w] m = Some (int (length (dec_string (sint w))), m')"
    "printed buffer n (dec_string (sint w)) m m'"
    using vsnprintf_printed [OF _ assms(2) dec_string_length vprintf_d [of w], where buffer = buffer and m = m] assms(1) by auto
  have "cstr m' buffer (dec_string (sint w))" using printed_cstr [OF m'(2) dec_string_nz] assms(1) by simp
  moreover have "in_s32 (sint w)" using sint_greater_eq [of w] sint_less [of w] by (simp add: in_s32_def)
  ultimately show ?thesis
    using m' atoi_reads_decimal [OF _ assms(3,4), of "sint w"] unfolding snprintf_def printed_def by blast
qed

theorem snprintf_atoi_round_trip_witness:
  "\<exists>m'. snprintf 100 12 (s8 ''%d'') [0x80000000] (\<lambda>_. 7) = Some (11, m') \<and> cstr m' 100 (s8 ''-2147483648'') \<and> m' 112 = 7 \<and>
     atoi (s8 '' -2147483648.5'') = - 2147483648"
proof -
  have d: "dec_string (sint (0x80000000 :: u32)) = s8 ''-2147483648''" by (simp add: dec_string_def decimal.simps)
  show ?thesis
    using snprintf_atoi_round_trip [of "0x80000000 :: u32" 12 "s8 '' ''" "s8 ''.5''" 100 "\<lambda>_. 7"] unfolding d
    by (auto simp: isspace_def isdigit_def word_le_nat_alt)
qed

theorem vsnprintf_bounded_witness:
  "\<exists>m' cs. vsnprintf 100 4 (s8 ''%d'') [12345] (\<lambda>_. 7) = Some (5, m') \<and>
     do_vprintf (s8 ''%d'') [12345] vsnprintf_helper (\<lparr>aux_p = 100, aux_length = 0, max_length = 3\<rparr>, \<lambda>_. 7) =
       Some (fold vsnprintf_helper cs (\<lparr>aux_p = 100, aux_length = 0, max_length = 3\<rparr>, \<lambda>_. 7)) \<and>
     5 = s32 (int (length cs)) \<and> (2 ^ 31 \<le> length cs \<or> 5 = int (length cs) \<and> printed 100 4 cs (\<lambda>_. 7) m')"
proof -
  have d: "dec_string (sint (12345 :: u32)) = s8 ''12345''" by (simp add: dec_string_def decimal.simps)
  obtain m' where m': "vsnprintf 100 4 (s8 ''%d'') [12345] (\<lambda>_. 7) = Some (5, m')"
    using vsnprintf_printed [OF _ _ dec_string_length vprintf_d [of 12345], where n = 4 and buffer = 100 and m = "\<lambda>_. 7"] unfolding d by auto
  show ?thesis using vsnprintf_bounded [OF _ _ m'] m' by fastforce
qed

section \<open>Octal fields, messages\<close>

text \<open>A number in octal, filled with zeros to \<open>k\<close> digits.\<close>

definition octal_field :: "nat \<Rightarrow> nat \<Rightarrow> u8 list" where
  "octal_field k n = replicate (k - length (rdigits 8 n)) 48 @ map (\<lambda>d. of_nat (d + 48)) (rev (rdigits 8 n))"

lemma octal_field_length: "n < 8 ^ k \<Longrightarrow> length (octal_field k n) = k"
  using rdigits_length [of 8 n k] by (simp add: octal_field_def)

definition zeros :: "nat \<Rightarrow> printf_conversion" where
  "zeros k = \<lparr>flags = ZERO, width = int k, precision = -1, arg_ty = T_INT\<rparr>"

lemma integer_text_octal:
  assumes "0 < k" "k < 2 ^ 31"
  shows "integer_text v False False base_o (zeros k) = octal_field k (unat v)"
proof -
  let ?ds = "rdigits 8 (unat v)"
  have "map (\<lambda>d. digits base_o ! d) ?ds = map (\<lambda>d. of_nat (d + 48)) ?ds"
    by (rule map_cong [OF refl digit_nth(2)]) (rule rdigits_less)
  moreover have "base base_o = 8" "ZERO AND GROUP = 0" "ZERO AND POUND = 0" by (simp_all add: base_o_def ZERO_def GROUP_def POUND_def)
  ultimately have buf: "integer_buf v base_o (zeros k) = map (\<lambda>d. of_nat (d + 48)) ?ds @ replicate (1 - length ?ds) 48"
    by (simp add: integer_buf_def zeros_def Let_def int_digits_plain)
  have l: "length (map (\<lambda>d. of_nat (d + 48) :: u8) ?ds @ replicate (1 - length ?ds) 48) \<le> 64"
    using integer_buf_length [of base_o v "zeros k"] unfolding buf by (simp add: base_o_def)
  then have pad: "nat (s32 (int k - int (length ?ds + (1 - length ?ds)))) = k - (length ?ds + (1 - length ?ds))"
    using assms by (subst s32_id) (auto simp: in_s32_def)
  have "integer_text v False False base_o (zeros k) = replicate (k - (length ?ds + (1 - length ?ds))) 48 @
      rev (map (\<lambda>d. of_nat (d + 48)) ?ds @ replicate (1 - length ?ds) 48)"
    using pad unfolding integer_text_def Let_def buf
    by (simp add: zeros_def sign_char_def ZERO_def POUND_def MINUS_def)
  also have "\<dots> = octal_field k (unat v)"
    using assms(1) by (cases ?ds) (simp_all add: octal_field_def rev_map replicate_add [symmetric] del: replicate_Suc)
  finally show ?thesis .
qed

lemma vprintf_octal:
  "do_vprintf (s8 ''%07o'') [w] out st = Some (fold out (octal_field 7 (unat w)) st)"
  "do_vprintf (s8 ''%011o'') [w] out st = Some (fold out (octal_field 11 (unat w)) st)"
proof -
  have p: "parse_conversion [48, 55, 111] [w] = Some (zeros 7, [111], [w])" "parse_conversion [48, 49, 49, 111] [w] = Some (zeros 11, [111], [w])"
    by (simp_all add: parse_conversion_def parse_star_def parse_precision_def parse_type_def cur_byte_def isdigit_def zeros_def word_le_nat_alt
        MINUS_def PLUS_def ZERO_def in_s32_def)
  have "unat w < 2 ^ 64" using unsigned_less [of w, where ?'a = nat] by simp
  then have u: "unat (ucast w :: u64) = unat w" by (simp add: unsigned_ucast_eq take_bit_nat_eq_self)
  have "unsigned_arg (arg_ty (zeros k)) [w] = Some (ucast w, [])" for k by (simp add: unsigned_arg_def va_arg32_def zeros_def)
  then have "convert msg 111 (zeros k) out [w] st = Some ([], fold out (octal_field k (unat w)) st)" if "0 < k" "k < 2 ^ 31" for msg k
    using integer_text_octal [OF that, of "ucast w"] u by (simp add: convert_def format_integer_text)
  from this [of 7] this [of 11]
  show "do_vprintf (s8 ''%07o'') [w] out st = Some (fold out (octal_field 7 (unat w)) st)"
    "do_vprintf (s8 ''%011o'') [w] out st = Some (fold out (octal_field 11 (unat w)) st)"
    using p by (simp_all add: do_vprintf_def vprintf_loop.simps(2) cur_byte_def)
qed

text \<open>The messages for what is not supported, printed by a nested call.\<close>

lemma ucast_scast8: "ucast (scast (ch :: u8) :: u32) = ch"
  by (rule bit_word_eqI) (auto simp: bit_simps)

lemma parse_plain:
  "ch \<notin> set (s8 ''-+ #0*.hjltz'') \<Longrightarrow> ch \<noteq> c8 (CHR 0x27) \<Longrightarrow> \<not> isdigit ch \<Longrightarrow> parse_conversion [ch] args = Some (plain T_INT, [ch], args)"
  by (simp add: parse_conversion_def parse_star_def parse_precision_def parse_type_def cur_byte_def plain_def)

lemma message_text:
  "vprintf_loop msg out (s8 ''<<no %%%c in kernel>>'') [scast ch] st = Some (fold out (s8 ''<<no %'' @ [ch] @ s8 '' in kernel>>'') st)"
proof -
  have p: "parse_conversion (99 # cs) args = Some (plain T_INT, 99 # cs, args)" for cs args
    by (simp add: parse_conversion_def parse_star_def parse_precision_def parse_type_def cur_byte_def plain_def isdigit_def word_le_nat_alt)
  have c: "convert msg 99 (plain T_INT) out [scast ch] st = Some ([], out ch st)" for st
    by (simp add: convert_def va_arg32_def format_string_def plain_def ucast_scast8)
  show ?thesis by (simp add: vprintf_loop.simps(2) cur_byte_def p c)
qed

lemma vprintf_unsupported:
  assumes "ch \<in> set (s8 ''feEgGn'')"
  shows "do_vprintf [37, ch] args out st = Some (fold out (s8 ''<<no %'' @ [ch] @ s8 '' in kernel>>'') st)"
proof -
  have "parse_conversion [ch] args = Some (plain T_INT, [ch], args)"
    by (rule parse_plain) (use assms in \<open>auto simp: isdigit_def word_le_nat_alt\<close>)
  moreover have "convert msg ch (plain T_INT) out args st = do { st \<leftarrow> msg (s8 ''<<no %%%c in kernel>>'') (scast ch) st; Some (args, st) }" for msg
    using assms by (auto simp: convert_def no_conversion_def)
  ultimately show ?thesis
    unfolding do_vprintf_def using assms
    by (auto simp: vprintf_loop.simps(2) [of _ _ 37] cur_byte_def message_text simp del: list.map)
qed

text \<open>
  A format that ends in a lone percent sign: the loop takes the null byte for the conversion character and goes on behind it, out of the
  bounds of the format.
\<close>

lemma vprintf_lone_percent: "c8 (CHR ''%'') \<notin> set format \<Longrightarrow> do_vprintf (format @ [c8 (CHR ''%'')]) args out st = None"
proof -
  have "vprintf_loop msg out (format @ [37]) args st = None" if "37 \<notin> set format" for msg
    using that
  proof (induction format arbitrary: st)
    case Nil
    then show ?case
      by (simp add: vprintf_loop.simps(2) cur_byte_def parse_conversion_def parse_star_def parse_precision_def parse_type_def)
  qed (simp add: vprintf_loop.simps(2))
  then show "c8 (CHR ''%'') \<notin> set format \<Longrightarrow> do_vprintf (format @ [c8 (CHR ''%'')]) args out st = None" by (simp add: do_vprintf_def)
qed

end
