(* ===== verification/Ustar.thy ===== *)
theory Ustar
  imports Printf
begin

text \<open>
  \<^verbatim>\<open>lib/ustar.c\<close>: headers of tar archives. A header is 512 bytes of memory, its fields are at the offsets of \<^verbatim>\<open>struct ustar_header\<close>; a name is the list of
  its bytes up to the null byte. The message about a name that is too long is not printed. A parsed header is \<open>Inl\<close> of the message, or \<open>Inr\<close> of
  the name (none at the end of the archive), the type and the size.
\<close>

section \<open>The header\<close>

datatype ustar_type = USTAR_REGULAR | USTAR_DIRECTORY | USTAR_EOF

fun type_byte :: "ustar_type \<Rightarrow> u8" where
  "type_byte USTAR_REGULAR = c8 (CHR ''0'')"
| "type_byte USTAR_DIRECTORY = c8 (CHR ''5'')"
| "type_byte USTAR_EOF = -1"

definition USTAR_HEADER_SIZE :: nat where "USTAR_HEADER_SIZE = 512"

text \<open>Offsets of the fields.\<close>

definition h_name :: addr where "h_name = 0"
definition h_mode :: addr where "h_mode = 100"
definition h_uid :: addr where "h_uid = 108"
definition h_gid :: addr where "h_gid = 116"
definition h_size :: addr where "h_size = 124"
definition h_mtime :: addr where "h_mtime = 136"
definition h_chksum :: addr where "h_chksum = 148"
definition h_typeflag :: addr where "h_typeflag = 156"
definition h_magic :: addr where "h_magic = 257"
definition h_version :: addr where "h_version = 263"
definition h_uname :: addr where "h_uname = 265"
definition h_gname :: addr where "h_gname = 297"
definition h_prefix :: addr where "h_prefix = 345"

lemmas h_defs = h_name_def h_mode_def h_uid_def h_gid_def h_size_def h_mtime_def h_chksum_def h_typeflag_def h_magic_def h_version_def
  h_uname_def h_gname_def h_prefix_def USTAR_HEADER_SIZE_def

primrec chksum_loop :: "nat \<Rightarrow> addr \<Rightarrow> mem \<Rightarrow> u32" where
  "chksum_loop 0 h m = 0"
| "chksum_loop (Suc i) h m =
     chksum_loop i h m + (if h_chksum \<le> i \<and> i < h_chksum + 8 then ucast (c8 (CHR '' '')) else ucast (m (h + i)))"

definition calculate_chksum :: "addr \<Rightarrow> mem \<Rightarrow> u32" where
  "calculate_chksum h m = chksum_loop USTAR_HEADER_SIZE h m"

section \<open>Names\<close>

function strip_antisocial_prefixes :: "u8 list \<Rightarrow> u8 list" where
  "strip_antisocial_prefixes file_name =
     (if cur_byte file_name = c8 (CHR ''/'') \<or> take 2 file_name = s8 ''./'' \<or> take 3 file_name = s8 ''../''
      then strip_antisocial_prefixes (tl (dropWhile (\<lambda>c. c \<noteq> c8 (CHR ''/'')) file_name))
      else if file_name = [] \<or> file_name = s8 ''..'' then s8 ''.'' else file_name)"
  by auto
termination
proof (relation "measure length", simp)
  fix f :: "u8 list"
  assume "cur_byte f = c8 (CHR ''/'') \<or> take 2 f = s8 ''./'' \<or> take 3 f = s8 ''../''"
  then have "f \<noteq> []" by (auto simp: cur_byte_def)
  moreover have "length (tl (dropWhile (\<lambda>c. c \<noteq> c8 (CHR ''/'')) f)) \<le> length f - 1"
    using length_dropWhile_le [of "\<lambda>c. c \<noteq> c8 (CHR ''/'')" f] by simp
  ultimately show "(tl (dropWhile (\<lambda>c. c \<noteq> c8 (CHR ''/'')) f), f) \<in> measure length" by (cases f) auto
qed

declare strip_antisocial_prefixes.simps [simp del]

section \<open>Making a header\<close>

text \<open>\<^verbatim>\<open>strlcpy\<close> of a string that is given by its bytes.\<close>

definition strlcpy_bytes :: "addr \<Rightarrow> u8 list \<Rightarrow> nat \<Rightarrow> mem \<Rightarrow> mem" where
  "strlcpy_bytes dst src sz m =
     (if sz > 0
      then (let n = (if length src < sz - 1 then length src else sz - 1)
            in (\<lambda>a. if dst \<le> a \<and> a < dst + n then src ! (a - dst) else if a = dst + n then 0 else m a))
      else m)"

definition ustar_make_header :: "u8 list \<Rightarrow> ustar_type \<Rightarrow> int \<Rightarrow> addr \<Rightarrow> mem \<Rightarrow> (bool \<times> mem) option" where
  "ustar_make_header file_name type sz h m = do {
     ASSERT (type = USTAR_REGULAR \<or> type = USTAR_DIRECTORY);
     let file_name = strip_antisocial_prefixes file_name;
     if length file_name > 99 then Some (False, m)
     else do {
       (_, m) \<leftarrow> memset h 0 USTAR_HEADER_SIZE m;
       let m = strlcpy_bytes (h + h_name) file_name 100 m;
       (_, m) \<leftarrow> snprintf (h + h_mode) 8 (s8 ''%07o'') [if type = USTAR_REGULAR then 420 else 493] m;
       let m = strlcpy_bytes (h + h_uid) (s8 ''0000000'') 8 m;
       let m = strlcpy_bytes (h + h_gid) (s8 ''0000000'') 8 m;
       (_, m) \<leftarrow> snprintf (h + h_size) 12 (s8 ''%011o'') [word_of_int sz] m;
       (_, m) \<leftarrow> snprintf (h + h_mtime) 12 (s8 ''%011o'') [1136102400] m;
       let m = m(h + h_typeflag := type_byte type);
       let m = strlcpy_bytes (h + h_magic) (s8 ''ustar'') 6 m;
       let m = m(h + h_version := c8 (CHR ''0''), h + h_version + 1 := c8 (CHR ''0''));
       let m = strlcpy_bytes (h + h_gname) (s8 ''root'') 32 m;
       let m = strlcpy_bytes (h + h_uname) (s8 ''root'') 32 m;
       (_, m) \<leftarrow> snprintf (h + h_chksum) 8 (s8 ''%07o'') [calculate_chksum h m] m;
       Some (True, m) } }"

section \<open>Reading a header\<close>

text \<open>\<open>left\<close> bytes of the field remain from \<open>s\<close> on, \<open>first\<close> if none has been read.\<close>

primrec parse_octal_loop :: "nat \<Rightarrow> bool \<Rightarrow> addr \<Rightarrow> u32 \<Rightarrow> mem \<Rightarrow> u32 option" where
  "parse_octal_loop 0 first s v m = None"
| "parse_octal_loop (Suc left) first s v m =
     (let c = m s
      in if c8 (CHR ''0'') \<le> c \<and> c \<le> c8 (CHR ''7'')
         then (if v > 0xffffffff div 8 then None else parse_octal_loop left False (s + 1) (ucast (c - c8 (CHR ''0'')) + v * 8) m)
         else if c = c8 (CHR '' '') \<or> c = 0 then (if first then None else Some v)
         else None)"

definition parse_octal_field :: "addr \<Rightarrow> nat \<Rightarrow> mem \<Rightarrow> u32 option" where
  "parse_octal_field s sz m = parse_octal_loop sz True s 0 m"

fun is_all_zeros :: "addr \<Rightarrow> nat \<Rightarrow> mem \<Rightarrow> bool" where
  "is_all_zeros block 0 m = True"
| "is_all_zeros block (Suc cnt) m = (if m block \<noteq> 0 then False else is_all_zeros (block + 1) cnt m)"

text \<open>A string of at most \<open>n\<close> bytes in memory.\<close>

definition bytes_at :: "addr \<Rightarrow> nat \<Rightarrow> mem \<Rightarrow> u8 list" where
  "bytes_at p n m = takeWhile (\<lambda>c. c \<noteq> 0) (map m [p..<p + n])"

definition ustar_parse_header :: "addr \<Rightarrow> mem \<Rightarrow> string + (u8 list option \<times> ustar_type \<times> int)" where
  "ustar_parse_header h m =
     (if is_all_zeros h USTAR_HEADER_SIZE m then Inr (None, USTAR_EOF, 0)
      else if map m [h + h_magic..<h + h_magic + 6] \<noteq> s8 ''ustar'' @ [0] then Inl ''not a ustar archive''
      else if m (h + h_version) \<noteq> c8 (CHR ''0'') \<or> m (h + h_version + 1) \<noteq> c8 (CHR ''0'') then Inl ''invalid ustar version''
      else (case parse_octal_field (h + h_chksum) 8 m of
              None \<Rightarrow> Inl ''corrupt chksum field''
            | Some chksum \<Rightarrow>
                if chksum \<noteq> calculate_chksum h m then Inl ''checksum mismatch''
                else if m (h + h_name + 99) \<noteq> 0 \<or> m (h + h_prefix) \<noteq> 0 then Inl ''file name too long''
                else if m (h + h_typeflag) \<noteq> type_byte USTAR_REGULAR \<and> m (h + h_typeflag) \<noteq> type_byte USTAR_DIRECTORY
                then Inl ''unimplemented file type''
                else if m (h + h_typeflag) = type_byte USTAR_REGULAR
                then (case parse_octal_field (h + h_size) 12 m of
                        None \<Rightarrow> Inl ''corrupt file size field''
                      | Some size_ul \<Rightarrow>
                          if size_ul > 2147483647 then Inl ''file too large''
                          else Inr (Some (strip_antisocial_prefixes (bytes_at (h + h_name) 100 m)), USTAR_REGULAR, uint size_ul))
                else Inr (Some (strip_antisocial_prefixes (bytes_at (h + h_name) 100 m)), USTAR_DIRECTORY, 0)))"

section \<open>Octal fields\<close>

lemma strlcpy_bytes_at:
  "sz > 0 \<Longrightarrow> strlcpy_bytes dst src sz m a =
     (if dst \<le> a \<and> a < dst + min (length src) (sz - 1) then src ! (a - dst) else if a = dst + min (length src) (sz - 1) then 0 else m a)"
  by (simp add: strlcpy_bytes_def Let_def min_def)

lemma snprintf_field:
  assumes "do_vprintf format args vsnprintf_helper (\<lparr>aux_p = p, aux_length = 0, max_length = int k\<rparr>, m) =
      Some (fold vsnprintf_helper cs (\<lparr>aux_p = p, aux_length = 0, max_length = int k\<rparr>, m))"
    and "length cs = k" "k < 2 ^ 31"
  shows "snprintf p (k + 1) format args m = Some (int k, strlcpy_bytes p cs (k + 1) m)"
proof -
  obtain m' where m': "vsnprintf p (k + 1) format args m = Some (int (length cs), m')" "printed p (k + 1) cs m m'"
    using vsnprintf_printed [of "k + 1" cs format args p m] assms by auto
  have "m' = strlcpy_bytes p cs (k + 1) m"
  proof
    fix a
    consider "a < p \<or> p + (k + 1) \<le> a" | i where "i < k" "a = p + i" | "a = p + k" by (metis add_leD1 le_add_diff_inverse less_Suc_eq nat_add_left_cancel_less not_less Suc_eq_plus1)
    then show "m' a = strlcpy_bytes p cs (k + 1) m a"
      using m'(2) assms(2) by cases (auto simp: printed_def strlcpy_bytes_at)
  qed
  with m' show ?thesis using assms(2) by (simp add: snprintf_def)
qed

lemma snprintf_octal:
  "unat w < 8 ^ 7 \<Longrightarrow> snprintf p 8 (s8 ''%07o'') [w] m = Some (7, strlcpy_bytes p (octal_field 7 (unat w)) 8 m)"
  "snprintf p 12 (s8 ''%011o'') [w] m = Some (11, strlcpy_bytes p (octal_field 11 (unat w)) 12 m)"
proof -
  show "unat w < 8 ^ 7 \<Longrightarrow> snprintf p 8 (s8 ''%07o'') [w] m = Some (7, strlcpy_bytes p (octal_field 7 (unat w)) 8 m)"
    using snprintf_field [OF vprintf_octal(1) [of w], where p = p and k = 7 and m = m] octal_field_length [of "unat w" 7] by simp
  have "unat w < 8 ^ 11" using unsigned_less [of w, where ?'a = nat] by simp
  then show "snprintf p 12 (s8 ''%011o'') [w] m = Some (11, strlcpy_bytes p (octal_field 11 (unat w)) 12 m)"
    using snprintf_field [OF vprintf_octal(2) [of w], where p = p and k = 11 and m = m] octal_field_length [of "unat w" 11] by simp
qed

text \<open>Reading a field back.\<close>

definition octal_value :: "nat \<Rightarrow> nat list \<Rightarrow> nat" where
  "octal_value = foldl (\<lambda>v d. v * 8 + d)"

lemma octal_value_ge: "v * 8 ^ length ds \<le> octal_value v ds"
proof (induction ds arbitrary: v)
  case (Cons d ds)
  have "v * 8 ^ length (d # ds) \<le> (v * 8 + d) * 8 ^ length ds" by (simp add: add_mult_distrib)
  also have "\<dots> \<le> octal_value v (d # ds)" using Cons [of "v * 8 + d"] by (simp add: octal_value_def)
  finally show ?case .
qed (simp add: octal_value_def)

definition field_digits :: "nat \<Rightarrow> nat \<Rightarrow> nat list" where
  "field_digits k n = replicate (k - length (rdigits 8 n)) 0 @ rev (rdigits 8 n)"

lemma field_digits:
  "octal_field k n = map (\<lambda>d. of_nat (d + 48)) (field_digits k n)" "octal_value 0 (field_digits k n) = n"
  "d \<in> set (field_digits k n) \<Longrightarrow> d < 8"
proof -
  show "octal_field k n = map (\<lambda>d. of_nat (d + 48)) (field_digits k n)" by (simp add: octal_field_def field_digits_def)
  have "foldl (\<lambda>v d. v * 8 + d) (0 :: nat) (replicate j 0) = 0" for j by (induction j) auto
  then show "octal_value 0 (field_digits k n) = n"
    using rdigits_value [of 8 n] by (simp add: octal_value_def field_digits_def foldl_conv_foldr)
  show "d \<in> set (field_digits k n) \<Longrightarrow> d < 8" using rdigits_less [of d 8 n] by (auto simp: field_digits_def split: if_splits)
qed

lemma octal_digit:
  assumes "d < 8"
  shows "48 \<le> (of_nat (d + 48) :: u8)" "(of_nat (d + 48) :: u8) \<le> 55" "ucast ((of_nat (d + 48) :: u8) - 48) = (of_nat d :: u32)"
proof -
  have "d = 0 \<or> d = 1 \<or> d = 2 \<or> d = 3 \<or> d = 4 \<or> d = 5 \<or> d = 6 \<or> d = 7" using assms by linarith
  then show "48 \<le> (of_nat (d + 48) :: u8)" "(of_nat (d + 48) :: u8) \<le> 55" "ucast ((of_nat (d + 48) :: u8) - 48) = (of_nat d :: u32)"
    by (elim disjE; simp)+
qed

lemma parse_octal_digits:
  assumes "octal_value v ds < 2 ^ 32" "\<And>d. d \<in> set ds \<Longrightarrow> d < 8" "\<And>i. i < length ds \<Longrightarrow> m (s + i) = of_nat (ds ! i + 48)"
    "m (s + length ds) = 0" "first \<Longrightarrow> ds \<noteq> []"
  shows "parse_octal_loop (Suc (length ds)) first s (of_nat v) m = Some (of_nat (octal_value v ds))"
  using assms
proof (induction ds arbitrary: v s first)
  case Nil
  then show ?case by (auto simp: octal_value_def)
next
  case (Cons d ds)
  have d: "d < 8" "m s = of_nat (d + 48)" using Cons.prems(2) Cons.prems(3) [of 0] by auto
  have a: "v * 8 ^ length ds < 536870912" using octal_value_ge [of v "d # ds"] Cons.prems(1) by simp
  have b: "v * 1 \<le> v * 8 ^ length ds" by (rule mult_le_mono2) simp
  from le_less_trans [OF b a] have v: "v \<le> 536870911" by linarith
  then have "unat (of_nat v :: u32) = v" by (simp only: unat_of_nat) simp
  then have nv: "\<not> (of_nat v :: u32) > 0xffffffff div 8" using v by (simp add: word_less_nat_alt)
  have step: "ucast (m s - 48) + of_nat v * 8 = (of_nat (v * 8 + d) :: u32)" unfolding d(2) octal_digit(3) [OF d(1)] by (simp add: mult.commute)
  have "parse_octal_loop (Suc (length ds)) False (s + 1) (of_nat (v * 8 + d)) m = Some (of_nat (octal_value (v * 8 + d) ds))"
  proof (rule Cons.IH)
    show "m (s + 1 + i) = of_nat (ds ! i + 48)" if "i < length ds" for i using Cons.prems(3) [of "Suc i"] that by simp
  qed (use Cons.prems in \<open>auto simp: octal_value_def\<close>)
  moreover have "octal_value v (d # ds) = octal_value (v * 8 + d) ds" by (simp add: octal_value_def)
  ultimately show ?case
    using nv octal_digit(1,2) [OF d(1)] unfolding length_Cons parse_octal_loop.simps(2) [of "Suc (length ds)"] Let_def d(2) [symmetric]
    by (simp add: step del: parse_octal_loop.simps)
qed

lemma parse_octal_field_octal:
  assumes "n < 8 ^ k" "n < 2 ^ 32" "0 < k" "\<And>i. i < k \<Longrightarrow> m (s + i) = octal_field k n ! i" "m (s + k) = 0"
  shows "parse_octal_field s (Suc k) m = Some (of_nat n)"
proof -
  have l: "length (field_digits k n) = k" using octal_field_length [OF assms(1)] by (simp add: field_digits(1))
  have "parse_octal_loop (Suc (length (field_digits k n))) True s (of_nat 0) m = Some (of_nat (octal_value 0 (field_digits k n)))"
    by (rule parse_octal_digits) (use assms l field_digits in \<open>auto simp: field_digits(1)\<close>)
  then show ?thesis by (simp add: parse_octal_field_def l field_digits(2) del: parse_octal_loop.simps)
qed

section \<open>The checksum\<close>

lemma chksum_bound: "i \<le> 512 \<Longrightarrow> unat (chksum_loop i h m) \<le> 255 * i"
proof (induction i)
  case (Suc i)
  let ?t = "(if h_chksum \<le> i \<and> i < h_chksum + 8 then ucast (c8 (CHR '' '')) else ucast (m (h + i))) :: u32"
  have "unat (b :: u8) \<le> 255" for b using unsigned_less [of b, where ?'a = nat] by simp
  then have "unat ?t \<le> 255" by (auto simp: unsigned_ucast_eq intro: order_trans [OF take_bit_nat_less_eq_self])
  moreover have "unat (chksum_loop i h m + ?t) \<le> unat (chksum_loop i h m) + unat ?t" by (metis mod_less_eq_dividend unat_word_ariths(1))
  ultimately show ?case using Suc by simp
qed simp

lemma calculate_chksum_bound: "unat (calculate_chksum h m) < 8 ^ 7"
  using chksum_bound [of 512 h m] by (simp add: calculate_chksum_def USTAR_HEADER_SIZE_def)

lemma chksum_cong:
  "(\<And>j. j < i \<Longrightarrow> \<not> (148 \<le> j \<and> j < 156) \<Longrightarrow> m' (h + j) = m (h + j)) \<Longrightarrow> chksum_loop i h m' = chksum_loop i h m"
  by (induction i) (auto simp: h_chksum_def)

text \<open>Changing one byte that counts changes the sum by the difference.\<close>

lemma chksum_upd:
  assumes "\<not> (148 \<le> i \<and> i < 156)"
  shows "chksum_loop k h (m(h + i := b)) = chksum_loop k h m + (if i < k then ucast b - ucast (m (h + i)) else 0)"
proof (induction k)
  case (Suc k)
  then show ?case using assms by (cases "i = k") (auto simp: h_chksum_def less_Suc_eq)
qed simp

section \<open>Making and reading\<close>

lemma strip_prefixes_idem: "strip_antisocial_prefixes (strip_antisocial_prefixes f) = strip_antisocial_prefixes f"
proof (induction f rule: strip_antisocial_prefixes.induct)
  case (1 f)
  let ?bad = "cur_byte f = c8 (CHR ''/'') \<or> take 2 f = s8 ''./'' \<or> take 3 f = s8 ''../''"
  show ?case
  proof (cases ?bad)
    case True
    have "strip_antisocial_prefixes f = strip_antisocial_prefixes (tl (dropWhile (\<lambda>c. c \<noteq> c8 (CHR ''/'')) f))"
      using True by (subst strip_antisocial_prefixes.simps) simp
    then show ?thesis using 1 [OF True] by simp
  next
    case False
    have dot: "strip_antisocial_prefixes (s8 ''.'') = s8 ''.''" by (subst strip_antisocial_prefixes.simps) (simp add: cur_byte_def)
    have s: "strip_antisocial_prefixes f = (if f = [] \<or> f = s8 ''..'' then s8 ''.'' else f)"
      using False by (subst strip_antisocial_prefixes.simps) simp
    then show ?thesis using dot by (cases "f = [] \<or> f = s8 ''..''") (simp_all only: if_True if_False)
  qed
qed

lemma strip_nz: "0 \<notin> set f \<Longrightarrow> 0 \<notin> set (strip_antisocial_prefixes f)"
proof (induction f rule: strip_antisocial_prefixes.induct)
  case (1 f)
  have "0 \<notin> set (tl (dropWhile (\<lambda>c. c \<noteq> c8 (CHR ''/'')) f))" using 1(2) by (auto dest!: in_set_tl dest: set_dropWhileD)
  then show ?case using 1 by (subst strip_antisocial_prefixes.simps) (simp split del: if_split split: if_split)
qed

text \<open>The header without its checksum.\<close>

definition unsummed :: "u8 list \<Rightarrow> ustar_type \<Rightarrow> int \<Rightarrow> addr \<Rightarrow> mem \<Rightarrow> mem" where
  "unsummed nm type sz h m =
     (let m = memset_loop 512 h 0 m;
          m = strlcpy_bytes h nm 100 m;
          m = strlcpy_bytes (h + 100) (octal_field 7 (if type = USTAR_REGULAR then 420 else 493)) 8 m;
          m = strlcpy_bytes (h + 108) (s8 ''0000000'') 8 m;
          m = strlcpy_bytes (h + 116) (s8 ''0000000'') 8 m;
          m = strlcpy_bytes (h + 124) (octal_field 11 (unat (word_of_int sz :: u32))) 12 m;
          m = strlcpy_bytes (h + 136) (octal_field 11 1136102400) 12 m;
          m = m(h + 156 := type_byte type);
          m = strlcpy_bytes (h + 257) (s8 ''ustar'') 6 m;
          m = m(h + 263 := 48, h + 263 + 1 := 48);
          m = strlcpy_bytes (h + 297) (s8 ''root'') 32 m
      in strlcpy_bytes (h + 265) (s8 ''root'') 32 m)"

definition summed :: "u8 list \<Rightarrow> ustar_type \<Rightarrow> int \<Rightarrow> addr \<Rightarrow> mem \<Rightarrow> mem" where
  "summed nm type sz h m =
     (let m = unsummed nm type sz h m in strlcpy_bytes (h + 148) (octal_field 7 (unat (calculate_chksum h m))) 8 m)"

lemma make_header_eq:
  assumes "type = USTAR_REGULAR \<or> type = USTAR_DIRECTORY" "h \<noteq> NULL" "length (strip_antisocial_prefixes nm) \<le> 99"
  shows "ustar_make_header nm type sz h m = Some (True, summed (strip_antisocial_prefixes nm) type sz h m)"
proof -
  have m7: "snprintf p 8 (s8 ''%07o'') [if type = USTAR_REGULAR then 420 else 493] m =
      Some (7, strlcpy_bytes p (octal_field 7 (if type = USTAR_REGULAR then 420 else 493)) 8 m)" for p m
    using snprintf_octal(1) [of "if type = USTAR_REGULAR then 420 else 493" p m] by simp
  have m11: "snprintf p 12 (s8 ''%011o'') [1136102400] m = Some (11, strlcpy_bytes p (octal_field 11 1136102400) 12 m)" for p m
    using snprintf_octal(2) [of p 1136102400 m] by simp
  show ?thesis
    using assms unfolding ustar_make_header_def summed_def unsummed_def memset_def m7 m11 snprintf_octal(2)
      snprintf_octal(1) [OF calculate_chksum_bound] Let_def h_defs
    by (simp del: list.map)
qed

lemma summed_at:
  assumes "length nm \<le> 99"
  shows "i < 100 \<Longrightarrow> summed nm type sz h m (h + i) = (if i < length nm then nm ! i else 0)"
    "i < 11 \<Longrightarrow> summed nm type sz h m (h + (124 + i)) = octal_field 11 (unat (word_of_int sz :: u32)) ! i" "summed nm type sz h m (h + 135) = 0"
    "i < 7 \<Longrightarrow> summed nm type sz h m (h + (148 + i)) = octal_field 7 (unat (calculate_chksum h (unsummed nm type sz h m))) ! i"
    "summed nm type sz h m (h + 155) = 0" "summed nm type sz h m (h + 156) = type_byte type"
    "i < 6 \<Longrightarrow> summed nm type sz h m (h + (257 + i)) = (s8 ''ustar'' @ [0]) ! i"
    "summed nm type sz h m (h + 263) = 48" "summed nm type sz h m (h + 264) = 48" "summed nm type sz h m (h + 345) = 0"
    "\<not> (148 \<le> i \<and> i < 156) \<Longrightarrow> summed nm type sz h m (h + i) = unsummed nm type sz h m (h + i)"
proof -
  have l: "length (octal_field 7 (unat (calculate_chksum h x))) = 7" for x using octal_field_length [OF calculate_chksum_bound] .
  have "unat (word_of_int sz :: u32) < 8 ^ 11" using unsigned_less [of "word_of_int sz :: u32", where ?'a = nat] by simp
  then have l': "length (octal_field 11 (unat (word_of_int sz :: u32))) = 11" by (rule octal_field_length)
  have l'': "length (octal_field 7 (if type = USTAR_REGULAR then 420 else 493)) = 7" "length (octal_field 11 1136102400) = 11"
    by (rule octal_field_length, simp)+
  note w = unsummed_def Let_def strlcpy_bytes_at memset_loop_eq l l' l''
  show "\<not> (148 \<le> i \<and> i < 156) \<Longrightarrow> summed nm type sz h m (h + i) = unsummed nm type sz h m (h + i)" for i
    by (auto simp: summed_def Let_def strlcpy_bytes_at l)
  note s = this
  show "i < 100 \<Longrightarrow> summed nm type sz h m (h + i) = (if i < length nm then nm ! i else 0)"
    using assms by (subst s) (auto simp: w min_def)
  show "i < 11 \<Longrightarrow> summed nm type sz h m (h + (124 + i)) = octal_field 11 (unat (word_of_int sz :: u32)) ! i"
    using assms s [of "124 + i"] by (simp add: w)
  show "i < 7 \<Longrightarrow> summed nm type sz h m (h + (148 + i)) = octal_field 7 (unat (calculate_chksum h (unsummed nm type sz h m))) ! i"
    "summed nm type sz h m (h + 155) = 0"
    by (simp_all add: summed_def Let_def strlcpy_bytes_at l)
  show "i < 6 \<Longrightarrow> summed nm type sz h m (h + (257 + i)) = (s8 ''ustar'' @ [0]) ! i"
  proof -
    assume "i < 6"
    then have "i = 0 \<or> i = 1 \<or> i = 2 \<or> i = 3 \<or> i = 4 \<or> i = 5" by linarith
    then show ?thesis using s [of 257] s [of 258] s [of 259] s [of 260] s [of 261] s [of 262] by (elim disjE) (simp_all add: w)
  qed
  show "summed nm type sz h m (h + 135) = 0" "summed nm type sz h m (h + 156) = type_byte type"
    "summed nm type sz h m (h + 263) = 48" "summed nm type sz h m (h + 264) = 48" "summed nm type sz h m (h + 345) = 0"
    using s [of 135] s [of 156] s [of 263] s [of 264] s [of 345] by (simp_all add: w)
qed

lemma is_all_zeros_iff: "is_all_zeros p n m \<longleftrightarrow> (\<forall>i<n. m (p + i) = 0)"
proof (induction n arbitrary: p)
  case (Suc n)
  have "(\<forall>i<Suc n. m (p + i) = 0) \<longleftrightarrow> m p = 0 \<and> (\<forall>i<n. m (p + 1 + i) = 0)" by (auto simp: All_less_Suc2)
  then show ?case using Suc [of "p + 1"] by simp
qed simp

lemma summed_chksum: "length nm \<le> 99 \<Longrightarrow> calculate_chksum h (summed nm type sz h m) = calculate_chksum h (unsummed nm type sz h m)"
  unfolding calculate_chksum_def by (rule chksum_cong) (rule summed_at(11))

lemma summed_parse_chksum:
  assumes "length nm \<le> 99" "\<And>i. i < 8 \<Longrightarrow> m' (h + (148 + i)) = summed nm type sz h m (h + (148 + i))"
  shows "parse_octal_field (h + 148) 8 m' = Some (calculate_chksum h (summed nm type sz h m))"
proof -
  let ?c = "unat (calculate_chksum h (unsummed nm type sz h m))"
  have "?c < 2 ^ 32" using unsigned_less [of "calculate_chksum h (unsummed nm type sz h m)", where ?'a = nat] by simp
  then have "parse_octal_field (h + 148) (Suc 7) m' = Some (of_nat ?c)"
  proof (rule parse_octal_field_octal [OF calculate_chksum_bound])
    show "m' (h + 148 + i) = octal_field 7 ?c ! i" if "i < 7" for i
      using assms(2) [of i] summed_at(4) [OF assms(1) that] that by (simp add: add.assoc)
    have "h + 148 + 7 = h + (148 + 7)" by (rule add.assoc)
    then show "m' (h + 148 + 7) = 0" using assms(2) [of 7] summed_at(5) [OF assms(1)] by (simp only: numeral_plus_numeral) simp
  qed simp
  then show ?thesis using summed_chksum [OF assms(1)] by simp
qed

lemma summed_magic:
  assumes "length nm \<le> 99" "\<And>i. i < 6 \<Longrightarrow> m' (h + (257 + i)) = summed nm type sz h m (h + (257 + i))"
  shows "map m' [h + 257..<h + 257 + 6] = s8 ''ustar'' @ [0]"
proof (rule nth_equalityI)
  fix i assume "i < length (map m' [h + 257..<h + 257 + 6])"
  then have "i < 6" by simp
  then show "map m' [h + 257..<h + 257 + 6] ! i = (s8 ''ustar'' @ [0]) ! i"
    using assms(2) [of i] summed_at(7) [OF assms(1), of i] by (simp add: add.assoc del: list.map)
qed simp

lemma summed_name:
  assumes "length nm \<le> 99" "0 \<notin> set nm"
  shows "bytes_at h 100 (summed nm type sz h m) = nm"
proof -
  have "map (summed nm type sz h m) [h..<h + 100] = nm @ replicate (100 - length nm) 0"
    by (rule nth_equalityI) (use assms(1) summed_at(1) [OF assms(1)] in \<open>simp_all add: nth_append\<close>)
  then show ?thesis using assms by (simp add: bytes_at_def takeWhile_append)
qed

lemma ucast8_inj: "(ucast (a :: u8) :: u32) = ucast b \<Longrightarrow> a = b"
proof -
  have "ucast (ucast (c :: u8) :: u32) = c" for c :: u8 by (rule bit_word_eqI) (auto simp: bit_simps)
  then show "(ucast (a :: u8) :: u32) = ucast b \<Longrightarrow> a = b" by metis
qed

lemma parse_summed:
  assumes "length nm \<le> 99" "0 \<notin> set nm" "type = USTAR_REGULAR \<or> type = USTAR_DIRECTORY" "in_s32 sz"
  shows "ustar_parse_header h (summed nm type sz h m) =
    (if type = USTAR_REGULAR \<and> sz < 0 then Inl ''file too large''
     else Inr (Some (strip_antisocial_prefixes nm), type, if type = USTAR_REGULAR then sz else 0))"
proof -
  let ?m = "summed nm type sz h m"
  note at = summed_at [OF assms(1), where type = type and sz = sz and h = h and m = m]
  have nz: "\<not> is_all_zeros h 512 ?m" using at(8) by (auto simp: is_all_zeros_iff intro!: exI [of _ 263])
  have name: "bytes_at h 100 ?m = nm" by (rule summed_name [OF assms(1,2)])
  have chk: "parse_octal_field (h + 148) 8 ?m = Some (calculate_chksum h ?m)" by (rule summed_parse_chksum [OF assms(1)]) simp
  have magic: "map ?m [h + 257..<h + 257 + 6] = s8 ''ustar'' @ [0]" by (rule summed_magic [OF assms(1)]) simp
  let ?w = "word_of_int sz :: u32"
  have b: "unat ?w < 2 ^ 32" using unsigned_less [of ?w, where ?'a = nat] by simp
  have "parse_octal_field (h + 124) (Suc 11) ?m = Some (of_nat (unat ?w))"
  proof (rule parse_octal_field_octal [OF _ b])
    show "?m (h + 124 + i) = octal_field 11 (unat ?w) ! i" if "i < 11" for i using at(2) [OF that] by (simp add: add.assoc)
    show "?m (h + 124 + 11) = 0" using at(3) by (simp add: add.commute)
  qed (use b in simp_all)
  then have size: "parse_octal_field (h + 124) 12 ?m = Some ?w" by simp
  have u: "uint ?w = sz mod 2 ^ 32" by (simp add: uint_word_of_int)
  have "sz mod 2 ^ 32 = (if sz < 0 then sz + 2 ^ 32 else sz)"
    using mod_pos_pos_trivial [of "sz + 2 ^ 32" "2 ^ 32"] assms(4) by (simp add: in_s32_def)
  then have sz: "?w > 2147483647 \<longleftrightarrow> sz < 0" "0 \<le> sz \<Longrightarrow> uint ?w = sz"
    using assms(4) unfolding word_less_def u by (auto simp: in_s32_def)
  have n99: "?m (h + 99) = 0" using at(1) [of 99] assms(1) by simp
  note v = at(8,9) at(10) at(6) n99
  show ?thesis
    using assms(3)
  proof
    assume t: "type = USTAR_REGULAR"
    show ?thesis using nz chk magic size name v sz t unfolding ustar_parse_header_def h_defs by (simp add: add.commute add.left_commute del: list.map)
  next
    assume t: "type = USTAR_DIRECTORY"
    have "(53 :: u8) \<noteq> 48" by simp
    with nz chk magic name v t show ?thesis unfolding ustar_parse_header_def h_defs by (simp add: add.commute add.left_commute del: list.map)
  qed
qed

text \<open>
  C37 A header that \<^verbatim>\<open>ustar_make_header\<close> makes is read back by \<^verbatim>\<open>ustar_parse_header\<close>: the name without the prefixes that could lead out of the
  directory, the type, and the size of a file; a negative size is rejected. For every name, the longest included, and whatever the memory held before.
\<close>

theorem ustar_round_trip:
  assumes "type = USTAR_REGULAR \<or> type = USTAR_DIRECTORY" and "h \<noteq> NULL" and "0 \<notin> set nm" and "in_s32 sz"
  shows "\<exists>m'. ustar_make_header nm type sz h m = Some (length (strip_antisocial_prefixes nm) \<le> 99, m') \<and>
    (length (strip_antisocial_prefixes nm) \<le> 99 \<longrightarrow>
       ustar_parse_header h m' =
         (if type = USTAR_REGULAR \<and> sz < 0 then Inl ''file too large''
          else Inr (Some (strip_antisocial_prefixes nm), type, if type = USTAR_REGULAR then sz else 0)))"
proof (cases "length (strip_antisocial_prefixes nm) \<le> 99")
  case True
  then show ?thesis
    using make_header_eq [OF assms(1,2) True, of sz m] parse_summed [OF True strip_nz [OF assms(3)] assms(1,4), of h m]
    by (simp add: strip_prefixes_idem)
next
  case False
  then show ?thesis using assms(1) by (auto simp: ustar_make_header_def)
qed

theorem ustar_round_trip_witness:
  "\<exists>m'. ustar_make_header (s8 ''../../a'') USTAR_REGULAR 700 4096 (\<lambda>_. 9) = Some (True, m') \<and>
     ustar_parse_header 4096 m' = Inr (Some (s8 ''a''), USTAR_REGULAR, 700)"
proof -
  have "strip_antisocial_prefixes (s8 ''../../a'') = s8 ''a''"
    by (simp add: strip_antisocial_prefixes.simps cur_byte_def)
  then show ?thesis
    using ustar_round_trip [of USTAR_REGULAR 4096 "s8 ''../../a''" 700 "\<lambda>_. 9"] by (auto simp: in_s32_def)
qed

text \<open>
  C38 The checksum detects every corruption of a single byte: when one byte of a header that \<^verbatim>\<open>ustar_make_header\<close> made is changed, outside the
  checksum field, \<^verbatim>\<open>ustar_parse_header\<close> reports an error.
\<close>

theorem ustar_detects_corruption:
  assumes "ustar_make_header nm type sz h m = Some (True, m')" and "h \<noteq> NULL" and "i < 512" "i < 148 \<or> 156 \<le> i" and "b \<noteq> m' (h + i)"
  shows "\<exists>e. ustar_parse_header h (m'(h + i := b)) = Inl e"
proof -
  let ?n = "strip_antisocial_prefixes nm" and ?m = "m'(h + i := b)"
  have t: "type = USTAR_REGULAR \<or> type = USTAR_DIRECTORY" using assms(1) by (simp add: ustar_make_header_def)
  have l: "length ?n \<le> 99"
  proof (rule ccontr)
    assume "\<not> length ?n \<le> 99"
    then have "ustar_make_header nm type sz h m = Some (False, m)" using t by (auto simp: ustar_make_header_def)
    with assms(1) show False by simp
  qed
  have m': "m' = summed ?n type sz h m" using make_header_eq [OF t assms(2) l] assms(1) by simp
  have chk: "parse_octal_field (h + 148) 8 ?m = Some (calculate_chksum h m')"
    unfolding m' by (rule summed_parse_chksum [OF l]) (use assms(4) in auto)
  have "calculate_chksum h ?m = calculate_chksum h m' + (ucast b - ucast (m' (h + i)))"
    using chksum_upd [of i 512 h m' b] assms(3,4) by (auto simp: calculate_chksum_def USTAR_HEADER_SIZE_def)
  moreover have "ucast b \<noteq> (ucast (m' (h + i)) :: u32)"
    using assms(5) ucast8_inj by blast
  ultimately have "calculate_chksum h m' \<noteq> calculate_chksum h ?m" by simp
  moreover have "\<not> is_all_zeros h 512 ?m"
  proof (cases "i = 263")
    case True
    then show ?thesis using summed_at(9) [OF l, of type sz h m] m' by (auto simp: is_all_zeros_iff intro!: exI [of _ 264])
  next
    case False
    then show ?thesis using summed_at(8) [OF l, of type sz h m] m' by (auto simp: is_all_zeros_iff intro!: exI [of _ 263])
  qed
  ultimately show ?thesis using chk unfolding ustar_parse_header_def h_defs by auto
qed

theorem ustar_detects_corruption_witness:
  "\<exists>m'. ustar_make_header (s8 ''a'') USTAR_REGULAR 700 4096 (\<lambda>_. 9) = Some (True, m') \<and>
     (\<exists>e. ustar_parse_header 4096 (m'(4096 := c8 (CHR ''b''))) = Inl e)"
proof -
  have s: "strip_antisocial_prefixes (s8 ''a'') = s8 ''a''" by (simp add: strip_antisocial_prefixes.simps cur_byte_def)
  then have mk: "ustar_make_header (s8 ''a'') USTAR_REGULAR 700 4096 (\<lambda>_. 9) = Some (True, summed (s8 ''a'') USTAR_REGULAR 700 4096 (\<lambda>_. 9))"
    using make_header_eq [of USTAR_REGULAR 4096 "s8 ''a''"] by simp
  have "summed (s8 ''a'') USTAR_REGULAR 700 4096 (\<lambda>_. 9) 4096 = 97"
    using summed_at(1) [of "s8 ''a''" 0 USTAR_REGULAR 700 4096 "\<lambda>_. 9"] by simp
  then show ?thesis using ustar_detects_corruption [OF mk, of 0 98] mk by simp
qed

end
