(* ===== verification/Page_Alloc.thy ===== *)
theory Page_Alloc
  imports Bitmap Vaddr C_String
begin

text \<open>
  The page allocator (\<^verbatim>\<open>threads/palloc.c\<close>): two pools of pages, each with a bitmap of its used pages. The operations are
  the code under the pools' locks, whose mutual exclusion is the subject of \<open>Kernel_Theorems\<close>. Memory is the byte memory of
  \<open>C_String\<close>. The contract that clients such as \<^verbatim>\<open>malloc\<close> rely on is the locale \<open>page_source\<close>.
\<close>

section \<open>Data\<close>

record pool =
  used_map :: bitmap
  pool_base :: addr

record pages =
  kernel_pool :: pool
  user_pool :: pool
  pmem :: mem

definition PAL_ASSERT :: u32 where "PAL_ASSERT = 1"
definition PAL_ZERO :: u32 where "PAL_ZERO = 2"
definition PAL_USER :: u32 where "PAL_USER = 4"

definition div_round_up :: "nat \<Rightarrow> nat \<Rightarrow> nat" where
  "div_round_up x step = (x + step - 1) div step"

section \<open>Operations\<close>

definition page_from_pool :: "pool \<Rightarrow> addr \<Rightarrow> bool" where
  "page_from_pool pool page =
     (let page_no = pg_no page;
          start_page = pg_no (pool_base pool);
          end_page = start_page + bitmap_size (used_map pool)
      in page_no \<ge> start_page \<and> page_no < end_page)"

text \<open>\<open>buf\<close>: the memory that becomes the element array of the bitmap. The lock and the message are left out.\<close>

definition init_pool :: "addr \<Rightarrow> nat \<Rightarrow> u32 list \<Rightarrow> pool option" where
  "init_pool base page_cnt buf = do {
     let bm_pages = div_round_up (bitmap_buf_size page_cnt) PGSIZE;
     ASSERT (bm_pages \<le> page_cnt);
     let page_cnt = page_cnt - bm_pages;
     bm \<leftarrow> bitmap_create_in_buf page_cnt buf (bm_pages * PGSIZE);
     Some \<lparr>used_map = bm, pool_base = base + bm_pages * PGSIZE\<rparr> }"

definition palloc_init :: "nat \<Rightarrow> nat \<Rightarrow> u32 list \<Rightarrow> u32 list \<Rightarrow> mem \<Rightarrow> pages option" where
  "palloc_init user_page_limit init_ram_pages kbuf ubuf m = do {
     free_start \<leftarrow> ptov (1024 * 1024);
     free_end \<leftarrow> ptov (init_ram_pages * PGSIZE);
     let free_pages = (free_end - free_start) div PGSIZE;
     let user_pages = free_pages div 2;
     let user_pages = (if user_pages > user_page_limit then user_page_limit else user_pages);
     let kernel_pages = free_pages - user_pages;
     k \<leftarrow> init_pool free_start kernel_pages kbuf;
     u \<leftarrow> init_pool (free_start + kernel_pages * PGSIZE) user_pages ubuf;
     Some \<lparr>kernel_pool = k, user_pool = u, pmem = m\<rparr> }"

definition pool_of :: "u32 \<Rightarrow> pages \<Rightarrow> pool" where
  "pool_of flags s = (if flags AND PAL_USER \<noteq> 0 then user_pool s else kernel_pool s)"

definition set_used :: "bool \<Rightarrow> bitmap \<Rightarrow> pages \<Rightarrow> pages" where
  "set_used user bm s =
     (if user then s\<lparr>user_pool := (user_pool s)\<lparr>used_map := bm\<rparr>\<rparr>
      else s\<lparr>kernel_pool := (kernel_pool s)\<lparr>used_map := bm\<rparr>\<rparr>)"

definition palloc_get_multiple :: "u32 \<Rightarrow> nat \<Rightarrow> pages \<Rightarrow> (addr \<times> pages) option" where
  "palloc_get_multiple flags page_cnt s =
     (if page_cnt = 0 then Some (NULL, s)
      else do {
        (page_idx, bm) \<leftarrow> bitmap_scan_and_flip (used_map (pool_of flags s)) 0 page_cnt False;
        let pages = (if page_idx \<noteq> BITMAP_ERROR then pool_base (pool_of flags s) + PGSIZE * page_idx else NULL);
        let s = set_used (flags AND PAL_USER \<noteq> 0) bm s;
        if pages \<noteq> NULL
        then (if flags AND PAL_ZERO \<noteq> 0
              then do { (_, m) \<leftarrow> memset pages 0 (PGSIZE * page_cnt) (pmem s); Some (pages, s\<lparr>pmem := m\<rparr>) }
              else Some (pages, s))
        else do { ASSERT (flags AND PAL_ASSERT = 0); Some (pages, s) } })"

definition palloc_get_page :: "u32 \<Rightarrow> pages \<Rightarrow> (addr \<times> pages) option" where
  "palloc_get_page flags s = palloc_get_multiple flags 1 s"

definition palloc_free_multiple :: "addr \<Rightarrow> nat \<Rightarrow> pages \<Rightarrow> pages option" where
  "palloc_free_multiple pages page_cnt s = do {
     ASSERT (pg_ofs pages = 0);
     if pages = NULL \<or> page_cnt = 0 then Some s
     else do {
       let kernel = page_from_pool (kernel_pool s) pages;
       ASSERT (kernel \<or> page_from_pool (user_pool s) pages);
       let pool = (if kernel then kernel_pool s else user_pool s);
       let page_idx = pg_no pages - pg_no (pool_base pool);
       (_, m) \<leftarrow> memset pages 0xcc (PGSIZE * page_cnt) (pmem s);
       used \<leftarrow> bitmap_all (used_map pool) page_idx page_cnt;
       ASSERT used;
       bm \<leftarrow> bitmap_set_multiple (used_map pool) page_idx page_cnt False;
       Some (set_used (\<not> kernel) bm (s\<lparr>pmem := m\<rparr>)) } }"

definition palloc_free_page :: "addr \<Rightarrow> pages \<Rightarrow> pages option" where
  "palloc_free_page page s = palloc_free_multiple page 1 s"

section \<open>The invariant\<close>

text \<open>The page numbers of a pool, and those of them that are free.\<close>

definition pool_pages :: "pool \<Rightarrow> nat set" where
  "pool_pages p = {pg_no (pool_base p) ..< pg_no (pool_base p) + bit_cnt (used_map p)}"

definition pool_free :: "pool \<Rightarrow> nat set" where
  "pool_free p = {n \<in> pool_pages p. \<not> bm_bits (used_map p) ! (n - pg_no (pool_base p))}"

definition pool_ok :: "pool \<Rightarrow> bool" where
  "pool_ok p \<longleftrightarrow> bm_wf (used_map p) \<and> pg_ofs (pool_base p) = 0 \<and> pool_base p \<noteq> NULL"

definition pages_ok :: "pages \<Rightarrow> bool" where
  "pages_ok s \<longleftrightarrow> pool_ok (kernel_pool s) \<and> pool_ok (user_pool s) \<and>
     pool_pages (kernel_pool s) \<inter> pool_pages (user_pool s) = {}"

abbreviation page_range :: "addr \<Rightarrow> nat \<Rightarrow> nat set" where
  "page_range p n \<equiv> {pg_no p ..< pg_no p + n}"

lemma shifted_range:
  fixes B :: nat
  assumes "\<And>k. i \<le> k \<Longrightarrow> k < i + n \<Longrightarrow> B + k \<in> S"
  shows "{B + i ..< B + i + n} \<subseteq> S"
proof
  fix x assume "x \<in> {B + i ..< B + i + n}"
  then have "i \<le> x - B" "x - B < i + n" "x = B + (x - B)" by auto
  then show "x \<in> S" using assms [of "x - B"] by simp
qed

lemma pool_base_eq: "pool_ok p \<Longrightarrow> pool_base p = PGSIZE * pg_no (pool_base p)"
  using pg_split [of "pool_base p"] by (simp add: pool_ok_def)

lemma pool_free_index:
  "i < bit_cnt (used_map p) \<Longrightarrow> pg_no (pool_base p) + i \<in> pool_free p \<longleftrightarrow> \<not> bm_bits (used_map p) ! i"
  by (simp add: pool_free_def pool_pages_def del: bm_bits_nth)

lemma pool_free_cong:
  assumes "bit_cnt b = bit_cnt (used_map p)"
  shows "pool_pages (p\<lparr>used_map := b\<rparr>) = pool_pages p"
  using assms by (simp add: pool_pages_def)

lemma pool_free_set_range:
  assumes b: "bit_cnt b = bit_cnt (used_map p)" "bm_bits b = set_range (bm_bits (used_map p)) i n v" "i + n \<le> bit_cnt (used_map p)"
  shows "pool_free (p\<lparr>used_map := b\<rparr>) =
    (if v then pool_free p - {pg_no (pool_base p) + i ..< pg_no (pool_base p) + i + n}
     else pool_free p \<union> {pg_no (pool_base p) + i ..< pg_no (pool_base p) + i + n})"
proof -
  let ?B = "pg_no (pool_base p)"
  have "k \<in> pool_free (p\<lparr>used_map := b\<rparr>) \<longleftrightarrow> (if v then k \<in> pool_free p \<and> \<not> (?B + i \<le> k \<and> k < ?B + i + n)
      else k \<in> pool_free p \<or> ?B + i \<le> k \<and> k < ?B + i + n)" for k
  proof (cases "?B \<le> k \<and> k < ?B + bit_cnt (used_map p)")
    case True
    then obtain j where j: "k = ?B + j" "j < bit_cnt (used_map p)" by (metis add_less_cancel_left le_Suc_ex)
    have "bm_bits b ! j = (if i \<le> j \<and> j < i + n then v else bm_bits (used_map p) ! j)"
      unfolding b(2) by (rule nth_set_range) (use j b(3) in auto)
    moreover have "k \<in> pool_free p \<longleftrightarrow> \<not> bm_bits (used_map p) ! j" "k \<in> pool_free (p\<lparr>used_map := b\<rparr>) \<longleftrightarrow> \<not> bm_bits b ! j"
      using pool_free_index [of j p] pool_free_index [of j "p\<lparr>used_map := b\<rparr>"] j b(1) by (simp_all del: bm_bits_nth)
    ultimately show ?thesis using j(1) by (cases "i \<le> j \<and> j < i + n"; cases v) auto
  next
    case False
    then show ?thesis using b(1,3) by (auto simp: pool_free_def pool_pages_def simp del: bm_bits_nth)
  qed
  then show ?thesis by (cases v; intro set_eqI; simp)
qed

lemma scan_bit_cnt:
  assumes "bm_wf b" "bitmap_scan_and_flip b 0 n False = Some (i, b')"
  shows "bit_cnt b' = bit_cnt b"
proof -
  consider "bm_bits b' = set_range (bm_bits b) i n True" "i + n \<le> length (bm_bits b)" | "b' = b"
    using bm.alloc_cases [OF assms(1), of n] assms(2) by (auto simp: first_group_def group_at_def)
  then show ?thesis
    by cases (metis length_bm_bits length_set_range, simp)
qed

text \<open>Taking pages from a pool.\<close>

lemma pool_alloc:
  assumes ok: "pool_ok p" and n: "0 < n"
  shows "\<exists>i b. bitmap_scan_and_flip (used_map p) 0 n False = Some (i, b) \<and> pool_ok (p\<lparr>used_map := b\<rparr>) \<and>
    pool_pages (p\<lparr>used_map := b\<rparr>) = pool_pages p \<and>
    (if i = BITMAP_ERROR
     then b = used_map p \<and> (\<forall>k. \<not> {k ..< k + n} \<subseteq> pool_free p)
     else page_range (pool_base p + PGSIZE * i) n \<subseteq> pool_free p \<and>
       pool_free (p\<lparr>used_map := b\<rparr>) = pool_free p - page_range (pool_base p + PGSIZE * i) n)"
proof -
  let ?b = "used_map p"
  have wf: "bm_wf ?b" using ok by (simp add: pool_ok_def)
  obtain i b where a: "bitmap_scan_and_flip ?b 0 n False = Some (i, b)" using bm.alloc_cases [OF wf, of n] by auto
  note c = scan_bit_cnt [OF wf a]
  have no: "pg_no (pool_base p + PGSIZE * i) = pg_no (pool_base p) + i"
    using ok by (intro pg_no_add) (simp add: pool_ok_def)
  show ?thesis
  proof (cases "i = BITMAP_ERROR")
    case True
    have b: "b = ?b" "\<forall>j. \<not> group_at (bm_bits ?b) n False j"
      using bm.alloc_cases [OF wf, of n] a True by auto
    have "\<not> {k ..< k + n} \<subseteq> pool_free p" for k
    proof
      assume sub: "{k ..< k + n} \<subseteq> pool_free p"
      let ?B = "pg_no (pool_base p)"
      have el: "j \<in> pool_free p" if "k \<le> j" "j < k + n" for j using sub that by auto
      have kB: "?B \<le> k" using el [of k] n by (simp add: pool_free_def pool_pages_def)
      have "k + n - 1 \<in> pool_pages p" using el [of "k + n - 1"] n by (simp add: pool_free_def)
      then have "k + n - 1 < ?B + bit_cnt ?b" by (simp add: pool_pages_def)
      then have "k - ?B + n \<le> bit_cnt ?b" using kB n by linarith
      moreover have "bm_bits ?b ! j = False" if "k - ?B \<le> j" "j < k - ?B + n" for j
        using el [of "?B + j"] pool_free_index [of j p] that kB calculation by (simp del: bm_bits_nth)
      ultimately have "group_at (bm_bits ?b) n False (k - ?B)" by (simp add: group_at_def del: bm_bits_nth)
      then show False using b(2) by blast
    qed
    then show ?thesis using a True b(1) ok by simp
  next
    case False
    note s = bm.alloc_some [OF wf a False]
    have le: "i + n \<le> bit_cnt ?b" using s by (simp add: first_group_def group_at_def)
    have f: "pool_free (p\<lparr>used_map := b\<rparr>) = pool_free p - page_range (pool_base p + PGSIZE * i) n"
      using pool_free_set_range [OF c _ le, of True] s by (simp add: no)
    have "\<not> bm_bits ?b ! k" if "i \<le> k" "k < i + n" for k using s that by (auto simp: first_group_def group_at_def)
    then have "pg_no (pool_base p) + k \<in> pool_free p" if "i \<le> k" "k < i + n" for k
      using that le pool_free_index [of k p] by (metis order_less_le_trans)
    then have "page_range (pool_base p + PGSIZE * i) n \<subseteq> pool_free p"
      unfolding no by (rule shifted_range)
    then show ?thesis using a False f s pool_free_cong [OF c] ok by (auto simp: pool_ok_def)
  qed
qed

text \<open>Giving them back.\<close>

lemma pool_release:
  assumes ok: "pool_ok p" and r: "page_range pg n \<subseteq> pool_pages p - pool_free p" and n: "0 < n"
  shows "\<exists>b. bitmap_all (used_map p) (pg_no pg - pg_no (pool_base p)) n = Some True \<and>
    bitmap_set_multiple (used_map p) (pg_no pg - pg_no (pool_base p)) n False = Some b \<and>
    pool_ok (p\<lparr>used_map := b\<rparr>) \<and> pool_pages (p\<lparr>used_map := b\<rparr>) = pool_pages p \<and>
    pool_free (p\<lparr>used_map := b\<rparr>) = pool_free p \<union> page_range pg n"
proof -
  let ?b = "used_map p" and ?B = "pg_no (pool_base p)" let ?i = "pg_no pg - pg_no (pool_base p)"
  have wf: "bm_wf ?b" using ok by (simp add: pool_ok_def)
  have el: "x \<in> pool_pages p" "x \<notin> pool_free p" if "pg_no pg \<le> x" "x < pg_no pg + n" for x using r that by auto
  have B: "?B \<le> pg_no pg" using el(1) [of "pg_no pg"] n by (simp add: pool_pages_def)
  have "pg_no pg + n - 1 \<in> pool_pages p" by (rule el(1)) (use n in auto)
  then have "pg_no pg + n - 1 < ?B + bit_cnt ?b" by (simp add: pool_pages_def)
  then have le: "?i + n \<le> bit_cnt ?b" using n B by linarith
  have "bm_bits ?b ! k" if "?i \<le> k" "k < ?i + n" for k
  proof -
    have "pg_no pg \<le> ?B + k" "?B + k < pg_no pg + n" using that B by auto
    then have "?B + k \<notin> pool_free p" by (rule el(2))
    then show ?thesis using pool_free_index [of k p] order_less_le_trans [OF that(2) le] by (simp del: bm_bits_nth)
  qed
  then have "\<forall>k. ?i \<le> k \<and> k < ?i + n \<longrightarrow> bm_bits ?b ! k" by iprover
  then have all: "bitmap_all ?b ?i n = Some True" unfolding bitmap_all_bits [OF wf le] by (rule arg_cong [of _ True Some, OF eqTrueI])
  obtain b where b: "bitmap_set_multiple ?b ?i n False = Some b" "bm_wf b" "bit_cnt b = bit_cnt ?b"
    "bm_bits b = set_range (bm_bits ?b) ?i n False"
    using bitmap_set_multiple_bits [OF wf le] by blast
  have "?B + ?i = pg_no pg" using B by simp
  then have "pool_free (p\<lparr>used_map := b\<rparr>) = pool_free p \<union> page_range pg n"
    using pool_free_set_range [OF b(3,4) le] by simp
  moreover have "pool_ok (p\<lparr>used_map := b\<rparr>)" using ok b(2) by (simp add: pool_ok_def)
  ultimately show ?thesis using all b(1) pool_free_cong [OF b(3)] by blast
qed

section \<open>The operations on page sets\<close>

text \<open>\<open>pool_sel\<close>: the user pool, or the kernel pool.\<close>

definition pool_sel :: "bool \<Rightarrow> pages \<Rightarrow> pool" where
  "pool_sel user s = (if user then user_pool s else kernel_pool s)"

abbreviation free_pages :: "bool \<Rightarrow> pages \<Rightarrow> nat set" where
  "free_pages user s \<equiv> pool_free (pool_sel user s)"

abbreviation all_pages :: "bool \<Rightarrow> pages \<Rightarrow> nat set" where
  "all_pages user s \<equiv> pool_pages (pool_sel user s)"

lemma pool_of_sel: "pool_of flags s = pool_sel (flags AND PAL_USER \<noteq> 0) s"
  by (simp add: pool_of_def pool_sel_def)

lemma pool_sel_set_used:
  "pool_sel v (set_used u b s) = (if v = u then (pool_sel u s)\<lparr>used_map := b\<rparr> else pool_sel v s)"
  by (auto simp: pool_sel_def set_used_def)

lemma set_used_same: "set_used u (used_map (pool_sel u s)) s = s"
  by (simp add: set_used_def pool_sel_def)

lemma pool_sel_pmem [simp]: "pool_sel u (s\<lparr>pmem := m\<rparr>) = pool_sel u s" "pmem (set_used u b s) = pmem s"
  by (simp_all add: pool_sel_def set_used_def)

lemma pages_ok_sel: "pages_ok s \<longleftrightarrow> (\<forall>u. pool_ok (pool_sel u s)) \<and> all_pages False s \<inter> all_pages True s = {}"
  by (auto simp: pages_ok_def pool_sel_def)

lemma pages_ok_pmem [simp]: "pages_ok (s\<lparr>pmem := m\<rparr>) = pages_ok s"
  by (simp add: pages_ok_sel)

lemma pages_ok_set_used:
  assumes "pages_ok s" "pool_ok ((pool_sel u s)\<lparr>used_map := b\<rparr>)"
    "pool_pages ((pool_sel u s)\<lparr>used_map := b\<rparr>) = all_pages u s"
  shows "pages_ok (set_used u b s) \<and> all_pages v (set_used u b s) = all_pages v s"
  using assms by (auto simp: pages_ok_sel pool_sel_set_used)

lemma palloc_get_multiple_cases:
  assumes ok: "pages_ok s" and n: "0 < n" and fl: "flags AND PAL_ASSERT = 0"
  defines "u \<equiv> flags AND PAL_USER \<noteq> 0"
  shows "\<exists>p s'. palloc_get_multiple flags n s = Some (p, s') \<and> pages_ok s' \<and>
    (\<forall>v. all_pages v s' = all_pages v s) \<and> free_pages (\<not> u) s' = free_pages (\<not> u) s \<and>
    (if p = NULL then s' = s \<and> (\<forall>k. \<not> {k ..< k + n} \<subseteq> free_pages u s)
     else pg_ofs p = 0 \<and> page_range p n \<subseteq> free_pages u s \<and> free_pages u s' = free_pages u s - page_range p n \<and>
       (\<forall>a. pmem s' a = (if flags AND PAL_ZERO \<noteq> 0 \<and> p \<le> a \<and> a < p + PGSIZE * n then 0 else pmem s a)))"
proof -
  let ?P = "pool_sel u s"
  have P: "pool_ok ?P" using ok by (simp add: pages_ok_sel)
  obtain i b where a: "bitmap_scan_and_flip (used_map ?P) 0 n False = Some (i, b)"
    "pool_ok (?P\<lparr>used_map := b\<rparr>)" "pool_pages (?P\<lparr>used_map := b\<rparr>) = pool_pages ?P"
    and c: "if i = BITMAP_ERROR then b = used_map ?P \<and> (\<forall>k. \<not> {k ..< k + n} \<subseteq> pool_free ?P)
     else page_range (pool_base ?P + PGSIZE * i) n \<subseteq> pool_free ?P \<and>
       pool_free (?P\<lparr>used_map := b\<rparr>) = pool_free ?P - page_range (pool_base ?P + PGSIZE * i) n"
    using pool_alloc [OF P n] by blast
  let ?p = "pool_base ?P + PGSIZE * i"
  have p: "?p \<noteq> NULL" "pg_ofs ?p = 0" using P by (simp_all add: pool_ok_def pg_ofs_def)
  note k = pages_ok_set_used [OF ok a(2,3)]
  have other: "free_pages (\<not> u) (set_used u b s) = free_pages (\<not> u) s" by (simp add: pool_sel_set_used)
  show ?thesis
  proof (cases "i = BITMAP_ERROR")
    case True
    then have "palloc_get_multiple flags n s = Some (NULL, s)"
      using n a(1) c fl set_used_same [of u s] by (simp add: palloc_get_multiple_def pool_of_sel u_def [symmetric])
    then show ?thesis using ok c True by (intro exI [of _ NULL] exI [of _ s]) simp
  next
    case False
    define s' where "s' = (if flags AND PAL_ZERO \<noteq> 0
      then (set_used u b s)\<lparr>pmem := memset_loop (PGSIZE * n) ?p 0 (pmem s)\<rparr> else set_used u b s)"
    have "palloc_get_multiple flags n s = Some (?p, s')"
      using n a(1) False p(1) by (simp add: palloc_get_multiple_def pool_of_sel u_def [symmetric] s'_def memset_def Let_def)
    moreover have "pages_ok s'" "all_pages v s' = all_pages v s" for v using k by (simp_all add: s'_def)
    moreover have "free_pages v s' = free_pages v (set_used u b s)" for v by (simp add: s'_def)
    moreover have "free_pages u (set_used u b s) = free_pages u s - page_range ?p n" using c False by (simp add: pool_sel_set_used)
    moreover have "pmem s' x = (if flags AND PAL_ZERO \<noteq> 0 \<and> ?p \<le> x \<and> x < ?p + PGSIZE * n then 0 else pmem s x)" for x
      by (simp add: s'_def memset_loop_eq)
    moreover have "page_range ?p n \<subseteq> free_pages u s" using c False by simp
    ultimately show ?thesis using p other by (intro exI [of _ ?p] exI [of _ s']) auto
  qed
qed

lemma palloc_free_multiple_pool:
  assumes ok: "pages_ok s" and n: "0 < n" and p: "pg_ofs p = 0" "p \<noteq> NULL"
    and r: "page_range p n \<subseteq> all_pages u s - free_pages u s"
  shows "\<exists>s'. palloc_free_multiple p n s = Some s' \<and> pages_ok s' \<and> (\<forall>v. all_pages v s' = all_pages v s) \<and>
    free_pages (\<not> u) s' = free_pages (\<not> u) s \<and> free_pages u s' = free_pages u s \<union> page_range p n \<and>
    (\<forall>a. pmem s' a = (if p \<le> a \<and> a < p + PGSIZE * n then 0xcc else pmem s a))"
proof -
  let ?P = "pool_sel u s"
  have P: "pool_ok ?P" using ok by (simp add: pages_ok_sel)
  obtain b where b: "bitmap_all (used_map ?P) (pg_no p - pg_no (pool_base ?P)) n = Some True"
    "bitmap_set_multiple (used_map ?P) (pg_no p - pg_no (pool_base ?P)) n False = Some b"
    "pool_ok (?P\<lparr>used_map := b\<rparr>)" "pool_pages (?P\<lparr>used_map := b\<rparr>) = pool_pages ?P"
    "pool_free (?P\<lparr>used_map := b\<rparr>) = pool_free ?P \<union> page_range p n"
    using pool_release [OF P r n] by blast
  have inP: "pg_no p \<in> all_pages u s" using subsetD [OF r, of "pg_no p"] n by simp
  have inp: "page_from_pool (pool_sel v s) p \<longleftrightarrow> pg_no p \<in> all_pages v s" for v
    by (simp add: page_from_pool_def pool_pages_def bitmap_size_def Let_def)
  have kernel: "page_from_pool (kernel_pool s) p \<longleftrightarrow> \<not> u"
    using inp [of False] inP ok by (cases u) (auto simp: pages_ok_sel pool_sel_def)
  have user: "page_from_pool (user_pool s) p" if u using inp [of True] inP that by (simp add: pool_sel_def)
  have sel: "(if page_from_pool (kernel_pool s) p then kernel_pool s else user_pool s) = ?P"
    using kernel by (simp add: pool_sel_def)
  let ?s = "set_used u b (s\<lparr>pmem := memset_loop (PGSIZE * n) p 0xcc (pmem s)\<rparr>)"
  have "palloc_free_multiple p n s = Some ?s"
    using p n b(1,2) kernel user sel by (simp add: palloc_free_multiple_def memset_def Let_def)
  moreover have "pages_ok ?s" "all_pages v ?s = all_pages v s" for v
    using pages_ok_set_used [where s = "s\<lparr>pmem := memset_loop (PGSIZE * n) p 0xcc (pmem s)\<rparr>" and u = u and b = b and v = v] ok b(3,4)
    by simp_all
  moreover have "free_pages (\<not> u) ?s = free_pages (\<not> u) s" "free_pages u ?s = free_pages u s \<union> page_range p n"
    using b(5) by (simp_all add: pool_sel_set_used)
  moreover have "pmem ?s a = (if p \<le> a \<and> a < p + PGSIZE * n then 0xcc else pmem s a)" for a
    by (simp add: memset_loop_eq)
  ultimately show ?thesis by blast
qed

section \<open>The contract\<close>

text \<open>
  What the clients of the page allocator rely on (\<^verbatim>\<open>malloc\<close>, thread creation, page tables): a source of page runs, for
  a set \<open>managed\<close> of page numbers of which \<open>free\<close> are free. \<open>get n\<close> returns the address of a run of \<open>n\<close> pages or the null
  pointer, and then no run is free; \<open>rel\<close> takes a run back.
\<close>

locale page_source =
  fixes ok :: "'s \<Rightarrow> bool" and managed free :: "'s \<Rightarrow> nat set" and contents :: "'s \<Rightarrow> mem"
    and get :: "nat \<Rightarrow> 's \<Rightarrow> (addr \<times> 's) option" and rel :: "addr \<Rightarrow> nat \<Rightarrow> 's \<Rightarrow> 's option"
  assumes free_managed: "free s \<subseteq> managed s"
    and get_ok: "ok s \<Longrightarrow> 0 < n \<Longrightarrow> \<exists>p s'. get n s = Some (p, s') \<and> ok s' \<and> managed s' = managed s \<and>
      (if p = NULL then s' = s \<and> (\<forall>k. \<not> {k ..< k + n} \<subseteq> free s)
       else pg_ofs p = 0 \<and> page_range p n \<subseteq> free s \<and> free s' = free s - page_range p n \<and> contents s' = contents s)"
    and rel_ok: "ok s \<Longrightarrow> 0 < n \<Longrightarrow> pg_ofs p = 0 \<Longrightarrow> p \<noteq> NULL \<Longrightarrow> page_range p n \<subseteq> managed s - free s \<Longrightarrow>
      \<exists>s'. rel p n s = Some s' \<and> ok s' \<and> managed s' = managed s \<and> free s' = free s \<union> page_range p n \<and>
        (\<forall>a. a < p \<or> p + PGSIZE * n \<le> a \<longrightarrow> contents s' a = contents s a)"
begin

lemma get_some:
  assumes "ok s" "0 < n" "get n s = Some (p, s')" "p \<noteq> NULL"
  shows "ok s'" "managed s' = managed s" "pg_ofs p = 0" "page_range p n \<subseteq> free s" "free s' = free s - page_range p n"
    "contents s' = contents s"
  using get_ok [OF assms(1,2)] assms(3,4) by auto

lemma get_null:
  assumes "ok s" "0 < n" "get n s = Some (NULL, s')"
  shows "s' = s" "\<not> {k ..< k + n} \<subseteq> free s"
  using get_ok [OF assms(1,2)] assms(3) by auto

text \<open>Two runs that are held at the same time have no page in common, and giving a run back undoes taking it.\<close>

lemma get_disjoint:
  assumes "ok s" "0 < n" "get n s = Some (p, s1)" "p \<noteq> NULL" "0 < m" "get m s1 = Some (q, s2)" "q \<noteq> NULL"
  shows "page_range p n \<inter> page_range q m = {}"
  using get_some(5) [OF assms(1-4)] get_some(4) [OF get_some(1) [OF assms(1-4)] assms(5-7)] by blast

lemma get_rel:
  assumes "ok s" "0 < n" "get n s = Some (p, s1)" "p \<noteq> NULL"
  shows "\<exists>s2. rel p n s1 = Some s2 \<and> ok s2 \<and> managed s2 = managed s \<and> free s2 = free s"
proof -
  note g = get_some [OF assms]
  have "page_range p n \<subseteq> managed s1 - free s1" using g free_managed [of s] by auto
  then obtain s2 where "rel p n s1 = Some s2" "ok s2" "managed s2 = managed s1" "free s2 = free s1 \<union> page_range p n"
    using rel_ok [OF g(1) assms(2) g(3) assms(4)] by blast
  then show ?thesis using g by auto
qed

text \<open>A page that is free can be had: with one free page a request for one page does not fail.\<close>

lemma get_one:
  assumes "ok s" "free s \<noteq> {}"
  shows "\<exists>p s'. get 1 s = Some (p, s') \<and> p \<noteq> NULL"
proof -
  obtain k where k: "k \<in> free s" using assms(2) by blast
  have "{k ..< k + 1} \<subseteq> free s" using k by auto
  with get_ok [OF assms(1), of 1] show ?thesis by (metis zero_less_one)
qed

end

lemma pool_free_managed: "pool_free p \<subseteq> pool_pages p"
  by (auto simp: pool_free_def)

lemma palloc_page_source:
  assumes fl: "flags AND PAL_ASSERT = 0" and z: "flags AND PAL_ZERO = 0"
  shows "page_source pages_ok (all_pages (flags AND PAL_USER \<noteq> 0)) (free_pages (flags AND PAL_USER \<noteq> 0)) pmem
    (palloc_get_multiple flags) palloc_free_multiple"
proof unfold_locales
  fix s :: pages and n :: nat and p :: addr
  let ?u = "flags AND PAL_USER \<noteq> 0"
  show "free_pages ?u s \<subseteq> all_pages ?u s" by (rule pool_free_managed)
  assume a: "pages_ok s" "0 < n"
  show "\<exists>p s'. palloc_get_multiple flags n s = Some (p, s') \<and> pages_ok s' \<and> all_pages ?u s' = all_pages ?u s \<and>
    (if p = NULL then s' = s \<and> (\<forall>k. \<not> {k ..< k + n} \<subseteq> free_pages ?u s)
     else pg_ofs p = 0 \<and> page_range p n \<subseteq> free_pages ?u s \<and> free_pages ?u s' = free_pages ?u s - page_range p n \<and>
       pmem s' = pmem s)"
    using palloc_get_multiple_cases [OF a fl] z by (elim ex_forward conj_forward; simp add: fun_eq_iff split: if_splits)
  assume "pg_ofs p = 0" "p \<noteq> NULL" "page_range p n \<subseteq> all_pages ?u s - free_pages ?u s"
  then show "\<exists>s'. palloc_free_multiple p n s = Some s' \<and> pages_ok s' \<and> all_pages ?u s' = all_pages ?u s \<and>
      free_pages ?u s' = free_pages ?u s \<union> page_range p n \<and>
      (\<forall>x. x < p \<or> p + PGSIZE * n \<le> x \<longrightarrow> pmem s' x = pmem s x)"
    using palloc_free_multiple_pool [OF a] by (meson leD)
qed

lemma flag_bits [simp]: "(0 :: u32) AND PAL_ASSERT = 0" "PAL_USER AND PAL_ASSERT = 0" "PAL_USER AND PAL_ZERO = 0" "PAL_USER \<noteq> 0"
  by (simp_all add: PAL_USER_def PAL_ASSERT_def PAL_ZERO_def)

interpretation kp: page_source pages_ok "all_pages False" "free_pages False" pmem "palloc_get_multiple 0" palloc_free_multiple
  using palloc_page_source [of 0] by simp

interpretation up: page_source pages_ok "all_pages True" "free_pages True" pmem "palloc_get_multiple PAL_USER" palloc_free_multiple
  using palloc_page_source [of PAL_USER] by simp

section \<open>Initialisation\<close>

lemma elem_cnt_small: "n < 2 ^ 18 \<Longrightarrow> elem_cnt n = (n + 31) div 32"
  by (simp add: elem_cnt_def ELEM_BITS_def)

lemma init_pool_ok:
  assumes n: "0 < n" "n < 2 ^ 18" "n \<le> 32 * length buf" and base: "pg_ofs base = 0" "base \<noteq> NULL"
  shows "\<exists>p. init_pool base n buf = Some p \<and> pool_ok p \<and> pool_free p = pool_pages p \<and> pool_pages p \<subseteq> page_range base n"
proof -
  define k where "k = div_round_up (bitmap_buf_size n) PGSIZE"
  have k: "k = (4103 + 4 * ((n + 31) div 32)) div 4096"
    using n by (simp add: k_def div_round_up_def bitmap_buf_size_def byte_cnt_def elem_cnt_small PGSIZE_def)
  have kn: "k \<le> n" using n(1) unfolding k by linarith
  have c: "elem_cnt (n - k) = (n - k + 31) div 32" using n(2) by (intro elem_cnt_small) linarith
  have "bm_wf \<lparr>bit_cnt = n - k, bits = buf\<rparr>"
    unfolding bm_wf_def ELEM_BITS_def using n c by (simp; linarith)
  then obtain b where b: "bitmap_set_all \<lparr>bit_cnt = n - k, bits = buf\<rparr> False = Some b" "bm_wf b" "bit_cnt b = n - k"
    "bm_bits b = replicate (n - k) False"
    using bitmap_set_all_bits by fastforce
  have size: "bitmap_buf_size (n - k) \<le> k * PGSIZE"
  proof -
    have "(n - k + 31) div 32 \<le> (n + 31) div 32" by (intro div_le_mono) simp
    moreover have "8 + 4 * ((n + 31) div 32) \<le> k * 4096" unfolding k by linarith
    ultimately show ?thesis unfolding bitmap_buf_size_def byte_cnt_def c PGSIZE_def by linarith
  qed
  define p where "p = \<lparr>used_map = b, pool_base = base + k * PGSIZE\<rparr>"
  have no: "pg_no (pool_base p) = pg_no base + k" using pg_no_add [OF base(1), of k] by (simp add: p_def mult.commute)
  have "init_pool base n buf = Some p"
    using kn b(1) size by (simp add: init_pool_def k_def [symmetric] bitmap_create_in_buf_def p_def)
  moreover have "pool_ok p" using base b(2) by (simp add: pool_ok_def p_def pg_ofs_def)
  moreover have "pool_free p = pool_pages p" using b(3,4) unfolding pool_free_def pool_pages_def by (auto simp: p_def simp del: bm_bits_nth)
  moreover have "pool_pages p \<subseteq> page_range base n" using b(3) kn unfolding pool_pages_def no by (auto simp: p_def)
  ultimately show ?thesis by blast
qed

lemma palloc_init_pools:
  assumes r: "258 \<le> r" "r < 2 ^ 18" "r \<le> 32 * length kbuf" "r \<le> 32 * length ubuf" and l: "0 < limit"
  shows "\<exists>s. palloc_init limit r kbuf ubuf m = Some s \<and> pages_ok s \<and>
    (\<forall>u. free_pages u s = all_pages u s \<and> all_pages u s \<subseteq> {pg_no PHYS_BASE + 256 ..< pg_no PHYS_BASE + r})"
proof -
  define user where "user = (if (r - 256) div 2 > limit then limit else (r - 256) div 2)"
  let ?fs = "PHYS_BASE + 1048576" and ?us = "PHYS_BASE + 1048576 + (r - 256 - user) * PGSIZE"
  have user: "0 < user" "user < r - 256" "user < 2 ^ 18" "user \<le> 32 * length ubuf" using r l by (auto simp: user_def)
  have start: "ptov 1048576 = Some ?fs" by (simp add: ptov_def PHYS_BASE_def)
  have end': "ptov (r * PGSIZE) = Some (PHYS_BASE + r * PGSIZE)" using r by (simp add: ptov_def PHYS_BASE_def PGSIZE_def)
  have fp: "(PHYS_BASE + r * PGSIZE - ?fs) div PGSIZE = r - 256" using r(1) by (simp add: PHYS_BASE_def PGSIZE_def)
  have fs: "pg_ofs ?fs = 0" "pg_no ?fs = pg_no PHYS_BASE + 256"
    by (simp_all add: pg_ofs_def pg_no_def PGBITS_def PGSIZE_def PHYS_BASE_def)
  have us: "pg_ofs ?us = 0" "pg_no ?us = pg_no ?fs + (r - 256 - user)"
    using pg_no_add [OF fs(1), of "r - 256 - user"] fs(1) by (simp_all add: pg_ofs_def mult.commute)
  obtain k where k: "init_pool ?fs (r - 256 - user) kbuf = Some k" "pool_ok k" "pool_free k = pool_pages k"
    "pool_pages k \<subseteq> page_range ?fs (r - 256 - user)"
  proof -
    have "0 < r - 256 - user" "r - 256 - user < 2 ^ 18" "r - 256 - user \<le> 32 * length kbuf" "?fs \<noteq> NULL"
      using user(2) r by (auto simp: PHYS_BASE_def)
    then show ?thesis using init_pool_ok fs(1) that by metis
  qed
  obtain u where u: "init_pool ?us user ubuf = Some u" "pool_ok u" "pool_free u = pool_pages u" "pool_pages u \<subseteq> page_range ?us user"
    using init_pool_ok [of user ubuf ?us] user us(1) by (auto simp: PHYS_BASE_def)
  let ?s = "\<lparr>kernel_pool = k, user_pool = u, pmem = m\<rparr>"
  have "palloc_init limit r kbuf ubuf m = Some ?s"
    using start end' fp k(1) u(1) by (simp add: palloc_init_def user_def Let_def split: if_splits)
  moreover have "pages_ok ?s"
    using k u us(2) unfolding pages_ok_def by fastforce
  moreover have "free_pages v ?s = all_pages v ?s" for v
    using k(3) u(3) by (simp add: pool_sel_def)
  moreover have "all_pages v ?s \<subseteq> {pg_no PHYS_BASE + 256 ..< pg_no PHYS_BASE + r}" for v
  proof -
    have "page_range ?fs (r - 256 - user) \<subseteq> {pg_no PHYS_BASE + 256 ..< pg_no PHYS_BASE + r}"
      "page_range ?us user \<subseteq> {pg_no PHYS_BASE + 256 ..< pg_no PHYS_BASE + r}"
      unfolding us(2) fs(2) using user(2) r(1) by auto
    then show ?thesis using subset_trans [OF k(4)] subset_trans [OF u(4)] by (cases v) (simp_all add: pool_sel_def)
  qed
  ultimately show ?thesis by blast
qed

section \<open>Properties\<close>

text \<open>
  Initialisation. With at least 258 pages of memory (the first megabyte, and a page for each pool), less than a gigabyte, and
  a user limit that is not zero, the allocator starts with two disjoint pools, all of whose pages are free and lie between the
  first megabyte and the end of memory.
\<close>

lemma palloc_init_ok:
  assumes "258 \<le> init_ram_pages" "init_ram_pages < 2 ^ 18" "0 < user_page_limit"
    and "init_ram_pages \<le> 32 * length kbuf" "init_ram_pages \<le> 32 * length ubuf"
  shows "\<exists>s. palloc_init user_page_limit init_ram_pages kbuf ubuf m = Some s \<and> pages_ok s \<and>
    (\<forall>u. free_pages u s = all_pages u s \<and>
      all_pages u s \<subseteq> {pg_no PHYS_BASE + 256 ..< pg_no PHYS_BASE + init_ram_pages})"
  using palloc_init_pools assms by blast

lemma palloc_init_ok_witness:
  "\<exists>s. palloc_init 7 1024 (replicate 1024 0) (replicate 1024 5) (\<lambda>_. 1) = Some s \<and> pages_ok s \<and>
    (\<forall>u. free_pages u s = all_pages u s \<and> all_pages u s \<subseteq> {pg_no PHYS_BASE + 256 ..< pg_no PHYS_BASE + 1024})"
  by (rule palloc_init_ok) simp_all

text \<open>
  C24. Allocation. A run that \<open>palloc_get_multiple\<close> returns starts at a page boundary and consists of free pages of the
  requested pool, which are no longer free afterwards; the other pool does not change. With \<open>PAL_ZERO\<close> its bytes are zero; no
  other byte of memory changes. The null pointer is returned only when no run of that many pages is free, and then nothing
  changes.
\<close>

theorem palloc_get_multiple_correct:
  assumes "pages_ok s" "0 < n" "flags AND PAL_ASSERT = 0"
  shows "\<exists>p s'. palloc_get_multiple flags n s = Some (p, s') \<and> pages_ok s' \<and> (\<forall>v. all_pages v s' = all_pages v s) \<and>
    free_pages (flags AND PAL_USER = 0) s' = free_pages (flags AND PAL_USER = 0) s \<and>
    (if p = NULL then s' = s \<and> (\<forall>k. \<not> {k ..< k + n} \<subseteq> free_pages (flags AND PAL_USER \<noteq> 0) s)
     else pg_ofs p = 0 \<and> page_range p n \<subseteq> free_pages (flags AND PAL_USER \<noteq> 0) s \<and>
       free_pages (flags AND PAL_USER \<noteq> 0) s' = free_pages (flags AND PAL_USER \<noteq> 0) s - page_range p n \<and>
       (\<forall>a. pmem s' a = (if flags AND PAL_ZERO \<noteq> 0 \<and> p \<le> a \<and> a < p + PGSIZE * n then 0 else pmem s a)))"
  using palloc_get_multiple_cases [OF assms] unfolding not_not .

definition demo_pages :: pages where
  "demo_pages = \<lparr>kernel_pool = \<lparr>used_map = \<lparr>bit_cnt = 8, bits = [0x0B]\<rparr>, pool_base = 0xC0101000\<rparr>,
     user_pool = \<lparr>used_map = \<lparr>bit_cnt = 4, bits = [0x0F]\<rparr>, pool_base = 0xC010A000\<rparr>, pmem = (\<lambda>_. 7)\<rparr>"

lemma demo_pages_ok: "pages_ok demo_pages"
  by (simp add: pages_ok_def pool_ok_def demo_pages_def bm_wf_def elem_cnt_def ELEM_BITS_def pool_pages_def pg_ofs_def pg_no_def
      PGBITS_def PGSIZE_def)

theorem palloc_get_multiple_correct_witness:
  "\<exists>p s'. palloc_get_multiple PAL_ZERO 2 demo_pages = Some (p, s') \<and> pages_ok s' \<and> (\<forall>v. all_pages v s' = all_pages v demo_pages) \<and>
    free_pages True s' = free_pages True demo_pages \<and>
    (if p = NULL then s' = demo_pages \<and> (\<forall>k. \<not> {k ..< k + 2} \<subseteq> free_pages False demo_pages)
     else pg_ofs p = 0 \<and> page_range p 2 \<subseteq> free_pages False demo_pages \<and>
       free_pages False s' = free_pages False demo_pages - page_range p 2 \<and>
       (\<forall>a. pmem s' a = (if p \<le> a \<and> a < p + PGSIZE * 2 then 0 else pmem demo_pages a)))"
  using palloc_get_multiple_correct [OF demo_pages_ok, of 2 PAL_ZERO]
  by (simp add: PAL_ZERO_def PAL_ASSERT_def PAL_USER_def cong: if_cong)

text \<open>
  Round trip. Giving a run back to \<open>palloc_free_multiple\<close> succeeds, whichever pool it came from, and restores the free
  pages of both pools.
\<close>

lemma palloc_get_free_round_trip:
  assumes "pages_ok s" "0 < n" "palloc_get_multiple flags n s = Some (p, s1)" "p \<noteq> NULL" "flags AND PAL_ASSERT = 0"
  shows "\<exists>s2. palloc_free_multiple p n s1 = Some s2 \<and> pages_ok s2 \<and> (\<forall>u. free_pages u s2 = free_pages u s)"
proof -
  let ?u = "flags AND PAL_USER \<noteq> 0"
  have g: "pages_ok s1" "pg_ofs p = 0" "\<And>v. all_pages v s1 = all_pages v s" "free_pages (\<not> ?u) s1 = free_pages (\<not> ?u) s"
    "page_range p n \<subseteq> free_pages ?u s" "free_pages ?u s1 = free_pages ?u s - page_range p n"
    using palloc_get_multiple_cases [OF assms(1,2,5)] assms(3,4) by auto
  have "page_range p n \<subseteq> all_pages ?u s1 - free_pages ?u s1" 
    using g(3) [of ?u] g(5,6) subset_trans [OF g(5) pool_free_managed] by blast
  then obtain s2 where s2: "palloc_free_multiple p n s1 = Some s2" "pages_ok s2" "free_pages (\<not> ?u) s2 = free_pages (\<not> ?u) s1"
    "free_pages ?u s2 = free_pages ?u s1 \<union> page_range p n"
    using palloc_free_multiple_pool [OF g(1) assms(2) g(2) assms(4)] by blast
  have "free_pages u s2 = free_pages u s" for u
    by (cases "u = ?u") (use s2(3,4) g(4,5,6) in \<open>auto simp del: not_not\<close>)
  with s2 show ?thesis by blast
qed

lemma demo_pages_free: "free_pages False demo_pages \<noteq> {}"
proof -
  have "pg_no (pool_base (kernel_pool demo_pages)) + 2 \<in> pool_free (kernel_pool demo_pages)"
    by (subst pool_free_index) (simp_all add: demo_pages_def bit_simps)
  then show ?thesis by (auto simp: pool_sel_def)
qed

lemma palloc_get_free_round_trip_witness:
  "\<exists>p s1 s2. palloc_get_multiple 0 1 demo_pages = Some (p, s1) \<and> p \<noteq> NULL \<and>
    palloc_free_multiple p 1 s1 = Some s2 \<and> (\<forall>u. free_pages u s2 = free_pages u demo_pages)"
proof -
  obtain p s1 where s1: "palloc_get_multiple 0 1 demo_pages = Some (p, s1)" "p \<noteq> NULL"
    using kp.get_one [OF demo_pages_ok demo_pages_free] by blast
  show ?thesis using s1 palloc_get_free_round_trip [OF demo_pages_ok _ s1] by auto
qed

end
