(* ===== verification/Page_Dir.thy ===== *)
theory Page_Dir
  imports Page_Alloc
begin

text \<open>
  Page directories: the entry format of \<^verbatim>\<open>threads/pte.h\<close> and the operations of \<^verbatim>\<open>userprog/pagedir.c\<close>, on the pages of \<open>Page_Alloc\<close>. A directory is a page of
  1024 words, an entry of which points to a page table, again a page of 1024 words. Words are stored in the byte memory with the low byte first. The
  processor has the register \<^verbatim>\<open>cr3\<close> and may keep translations in its buffer \<open>tlb\<close>; loading the register empties it.
\<close>

section \<open>Words in memory\<close>

definition rd32 :: "mem \<Rightarrow> addr \<Rightarrow> u32" where
  "rd32 m a = ucast (m a) OR push_bit 8 (ucast (m (a + 1))) OR push_bit 16 (ucast (m (a + 2))) OR push_bit 24 (ucast (m (a + 3)))"

definition wr32 :: "addr \<Rightarrow> u32 \<Rightarrow> mem \<Rightarrow> mem" where
  "wr32 a v m = m(a := ucast v, a + 1 := ucast (drop_bit 8 v), a + 2 := ucast (drop_bit 16 v), a + 3 := ucast (drop_bit 24 v))"

section \<open>Entries\<close>

definition pt_no :: "addr \<Rightarrow> nat" where
  "pt_no va = va div 2 ^ 12 mod 2 ^ 10"

definition pd_no :: "addr \<Rightarrow> nat" where
  "pd_no va = va div 2 ^ 22"

definition PTE_ADDR :: u32 where "PTE_ADDR = 0xfffff000"
definition PTE_P :: u32 where "PTE_P = 0x1"
definition PTE_W :: u32 where "PTE_W = 0x2"
definition PTE_U :: u32 where "PTE_U = 0x4"
definition PTE_A :: u32 where "PTE_A = 0x20"
definition PTE_D :: u32 where "PTE_D = 0x40"

definition pde_create :: "addr \<Rightarrow> u32 option" where
  "pde_create pt = do {
     ASSERT (pg_ofs pt = 0);
     p \<leftarrow> vtop pt;
     Some (of_nat p OR PTE_U OR PTE_P OR PTE_W) }"

definition pde_get_pt :: "u32 \<Rightarrow> addr option" where
  "pde_get_pt pde = do {
     ASSERT (pde AND PTE_P \<noteq> 0);
     ptov (unat (pde AND PTE_ADDR)) }"

definition pte_create_kernel :: "addr \<Rightarrow> bool \<Rightarrow> u32 option" where
  "pte_create_kernel page writable = do {
     ASSERT (pg_ofs page = 0);
     p \<leftarrow> vtop page;
     Some (of_nat p OR PTE_P OR (if writable then PTE_W else 0)) }"

definition pte_create_user :: "addr \<Rightarrow> bool \<Rightarrow> u32 option" where
  "pte_create_user page writable = do {
     e \<leftarrow> pte_create_kernel page writable;
     Some (e OR PTE_U) }"

definition pte_get_page :: "u32 \<Rightarrow> addr option" where
  "pte_get_page pte = ptov (unat (pte AND PTE_ADDR))"

section \<open>Directories\<close>

record mmu =
  pgs :: pages
  cr3 :: addr
  tlb :: "nat set"
  init_page_dir :: addr
  init_ram_pages :: nat

definition load :: "addr \<Rightarrow> mmu \<Rightarrow> u32" where
  "load a s = rd32 (pmem (pgs s)) a"

definition store :: "addr \<Rightarrow> u32 \<Rightarrow> mmu \<Rightarrow> mmu" where
  "store a v s = s\<lparr>pgs := (pgs s)\<lparr>pmem := wr32 a v (pmem (pgs s))\<rparr>\<rparr>"

definition pagedir_create :: "mmu \<Rightarrow> (addr \<times> mmu) option" where
  "pagedir_create s = do {
     (pd, g) \<leftarrow> palloc_get_page 0 (pgs s);
     let s = s\<lparr>pgs := g\<rparr>;
     if pd \<noteq> NULL
     then do {
       (_, m) \<leftarrow> memcpy pd (init_page_dir s) PGSIZE (pmem (pgs s));
       Some (pd, s\<lparr>pgs := (pgs s)\<lparr>pmem := m\<rparr>\<rparr>) }
     else Some (pd, s) }"

text \<open>The loops of \<^verbatim>\<open>pagedir_destroy\<close>: \<open>n\<close> entries of a table, or of the directory, are left.\<close>

primrec free_ptes :: "nat \<Rightarrow> addr \<Rightarrow> mmu \<Rightarrow> mmu option" where
  "free_ptes 0 pte s = Some s"
| "free_ptes (Suc n) pte s =
     (if load pte s AND PTE_P \<noteq> 0
      then do {
        p \<leftarrow> pte_get_page (load pte s);
        g \<leftarrow> palloc_free_page p (pgs s);
        free_ptes n (pte + 4) (s\<lparr>pgs := g\<rparr>) }
      else free_ptes n (pte + 4) s)"

primrec free_pdes :: "nat \<Rightarrow> addr \<Rightarrow> mmu \<Rightarrow> mmu option" where
  "free_pdes 0 pde s = Some s"
| "free_pdes (Suc n) pde s =
     (if load pde s AND PTE_P \<noteq> 0
      then do {
        pt \<leftarrow> pde_get_pt (load pde s);
        s \<leftarrow> free_ptes (PGSIZE div 4) pt s;
        g \<leftarrow> palloc_free_page pt (pgs s);
        free_pdes n (pde + 4) (s\<lparr>pgs := g\<rparr>) }
      else free_pdes n (pde + 4) s)"

definition pagedir_destroy :: "addr \<Rightarrow> mmu \<Rightarrow> mmu option" where
  "pagedir_destroy pd s =
     (if pd = NULL then Some s
      else do {
        ASSERT (pd \<noteq> init_page_dir s);
        s \<leftarrow> free_pdes (pd_no PHYS_BASE) pd s;
        g \<leftarrow> palloc_free_page pd (pgs s);
        Some (s\<lparr>pgs := g\<rparr>) })"

text \<open>The end of \<^verbatim>\<open>lookup_page\<close>: the entry for \<open>vaddr\<close> in the table that the directory entry points to.\<close>

definition table_entry :: "addr \<Rightarrow> addr \<Rightarrow> mmu \<Rightarrow> (addr \<times> mmu) option" where
  "table_entry pde vaddr s = do {
     pt \<leftarrow> pde_get_pt (load pde s);
     Some (pt + 4 * pt_no vaddr, s) }"

definition lookup_page :: "addr \<Rightarrow> addr \<Rightarrow> bool \<Rightarrow> mmu \<Rightarrow> (addr \<times> mmu) option" where
  "lookup_page pd vaddr create s = do {
     ASSERT (pd \<noteq> NULL);
     ASSERT (\<not> create \<or> is_user_vaddr vaddr);
     let pde = pd + 4 * pd_no vaddr;
     if load pde s = 0
     then (if create
           then do {
             (pt, g) \<leftarrow> palloc_get_page PAL_ZERO (pgs s);
             let s = s\<lparr>pgs := g\<rparr>;
             if pt = NULL then Some (NULL, s)
             else do {
               e \<leftarrow> pde_create pt;
               table_entry pde vaddr (store pde e s) } }
           else Some (NULL, s))
     else table_entry pde vaddr s }"

definition pagedir_set_page :: "addr \<Rightarrow> addr \<Rightarrow> addr \<Rightarrow> bool \<Rightarrow> mmu \<Rightarrow> (bool \<times> mmu) option" where
  "pagedir_set_page pd upage kpage writable s = do {
     ASSERT (pg_ofs upage = 0);
     ASSERT (pg_ofs kpage = 0);
     ASSERT (is_user_vaddr upage);
     p \<leftarrow> vtop kpage;
     ASSERT (p div 2 ^ 12 < init_ram_pages s);
     ASSERT (pd \<noteq> init_page_dir s);
     (pte, s) \<leftarrow> lookup_page pd upage True s;
     if pte \<noteq> NULL
     then do {
       ASSERT (load pte s AND PTE_P = 0);
       e \<leftarrow> pte_create_user kpage writable;
       Some (True, store pte e s) }
     else Some (False, s) }"

definition pagedir_get_page :: "addr \<Rightarrow> addr \<Rightarrow> mmu \<Rightarrow> addr option" where
  "pagedir_get_page pd uaddr s = do {
     ASSERT (is_user_vaddr uaddr);
     (pte, s) \<leftarrow> lookup_page pd uaddr False s;
     if pte \<noteq> NULL \<and> load pte s AND PTE_P \<noteq> 0
     then do { p \<leftarrow> pte_get_page (load pte s); Some (p + pg_ofs uaddr) }
     else Some NULL }"

definition active_pd :: "mmu \<Rightarrow> addr option" where
  "active_pd s = ptov (cr3 s)"

definition pagedir_activate :: "addr \<Rightarrow> mmu \<Rightarrow> mmu option" where
  "pagedir_activate pd s = do {
     let pd = (if pd = NULL then init_page_dir s else pd);
     p \<leftarrow> vtop pd;
     Some (s\<lparr>cr3 := p, tlb := {}\<rparr>) }"

definition invalidate_pagedir :: "addr \<Rightarrow> mmu \<Rightarrow> mmu option" where
  "invalidate_pagedir pd s = do {
     a \<leftarrow> active_pd s;
     if a = pd then pagedir_activate pd s else Some s }"

definition pagedir_clear_page :: "addr \<Rightarrow> addr \<Rightarrow> mmu \<Rightarrow> mmu option" where
  "pagedir_clear_page pd upage s = do {
     ASSERT (pg_ofs upage = 0);
     ASSERT (is_user_vaddr upage);
     (pte, s) \<leftarrow> lookup_page pd upage False s;
     if pte \<noteq> NULL \<and> load pte s AND PTE_P \<noteq> 0
     then invalidate_pagedir pd (store pte (load pte s AND NOT PTE_P) s)
     else Some s }"

text \<open>Reading and changing one flag of an entry, the common part of the four functions for dirty and accessed bits.\<close>

definition pte_flag :: "u32 \<Rightarrow> addr \<Rightarrow> addr \<Rightarrow> mmu \<Rightarrow> bool option" where
  "pte_flag f pd vpage s = do {
     (pte, s) \<leftarrow> lookup_page pd vpage False s;
     Some (pte \<noteq> NULL \<and> load pte s AND f \<noteq> 0) }"

definition set_pte_flag :: "u32 \<Rightarrow> addr \<Rightarrow> addr \<Rightarrow> bool \<Rightarrow> mmu \<Rightarrow> mmu option" where
  "set_pte_flag f pd vpage b s = do {
     (pte, s) \<leftarrow> lookup_page pd vpage False s;
     if pte \<noteq> NULL
     then (if b then Some (store pte (load pte s OR f) s)
           else invalidate_pagedir pd (store pte (load pte s AND NOT f) s))
     else Some s }"

definition pagedir_is_dirty :: "addr \<Rightarrow> addr \<Rightarrow> mmu \<Rightarrow> bool option" where
  "pagedir_is_dirty = pte_flag PTE_D"

definition pagedir_set_dirty :: "addr \<Rightarrow> addr \<Rightarrow> bool \<Rightarrow> mmu \<Rightarrow> mmu option" where
  "pagedir_set_dirty = set_pte_flag PTE_D"

definition pagedir_is_accessed :: "addr \<Rightarrow> addr \<Rightarrow> mmu \<Rightarrow> bool option" where
  "pagedir_is_accessed = pte_flag PTE_A"

definition pagedir_set_accessed :: "addr \<Rightarrow> addr \<Rightarrow> bool \<Rightarrow> mmu \<Rightarrow> mmu option" where
  "pagedir_set_accessed = set_pte_flag PTE_A"

section \<open>Words and entries\<close>

lemma rd32_cong: "(\<And>i. i < 4 \<Longrightarrow> m' (a + i) = m (a + i)) \<Longrightarrow> rd32 m' a = rd32 m a"
proof -
  assume e: "\<And>i. i < 4 \<Longrightarrow> m' (a + i) = m (a + i)"
  show ?thesis using e [of 0] e [of 1] e [of 2] e [of 3] by (simp add: rd32_def)
qed

lemma rd32_wr32 [simp]: "rd32 (wr32 a v m) a = v"
proof (rule bit_word_eqI)
  fix n assume "n < LENGTH(32)"
  then have "n < 32" by simp
  then consider "n < 8" | "8 \<le> n" "n < 16" | "16 \<le> n" "n < 24" | "24 \<le> n" "n < 32" by linarith
  then show "bit (rd32 (wr32 a v m) a) n = bit v n"
    by cases (auto simp: rd32_def wr32_def bit_simps)
qed

lemma rd32_wr32_other: "b + 4 \<le> a \<or> a + 4 \<le> b \<Longrightarrow> rd32 (wr32 a v m) b = rd32 m b"
  by (rule rd32_cong) (auto simp: wr32_def)

lemma wr32_other: "b < a \<or> a + 4 \<le> b \<Longrightarrow> wr32 a v m b = m b"
  by (auto simp: wr32_def)

lemma load_store [simp]: "load a (store a v s) = v" "b + 4 \<le> a \<or> a + 4 \<le> b \<Longrightarrow> load b (store a v s) = load b s"
  by (simp_all add: load_def store_def rd32_wr32_other)

lemma store_sel [simp]:
  "cr3 (store a v s) = cr3 s" "tlb (store a v s) = tlb s" "init_page_dir (store a v s) = init_page_dir s" "init_ram_pages (store a v s) = init_ram_pages s"
  "pages_ok (pgs (store a v s)) = pages_ok (pgs s)" "pool_sel u (pgs (store a v s)) = pool_sel u (pgs s)"
  "b < a \<or> a + 4 \<le> b \<Longrightarrow> pmem (pgs (store a v s)) b = pmem (pgs s) b"
  by (simp_all add: store_def wr32_other)

text \<open>Addresses of pages in the upper gigabyte, where physical memory is mapped.\<close>

definition kernel_page :: "addr \<Rightarrow> bool" where
  "kernel_page p \<longleftrightarrow> pg_ofs p = 0 \<and> PHYS_BASE \<le> p \<and> p < 2 ^ 32"

lemma kernel_page_vtop: "kernel_page p \<Longrightarrow> vtop p = Some (p - PHYS_BASE)" "kernel_page p \<Longrightarrow> p \<noteq> NULL"
  by (auto simp: kernel_page_def vtop_def is_kernel_vaddr_def PHYS_BASE_def)

lemma PTE_ADDR_mask: "PTE_ADDR = NOT (mask 12)"
  by (simp add: PTE_ADDR_def mask_eq_exp_minus_1)

lemma entry_addr:
  assumes "kernel_page p" "fl AND PTE_ADDR = 0"
  shows "ptov (unat ((of_nat (p - PHYS_BASE) OR fl) AND PTE_ADDR)) = Some p"
proof -
  have p: "pg_ofs p = 0" "PHYS_BASE \<le> p" "p < 2 ^ 32" using assms(1) by (auto simp: kernel_page_def)
  have "(p - PHYS_BASE) mod 4096 = 0" using p by (auto simp: pg_ofs_def PGSIZE_def PHYS_BASE_def)
  then obtain k where k: "p - PHYS_BASE = 4096 * k" by auto
  have "of_nat (p - PHYS_BASE) = (push_bit 12 (of_nat k) :: u32)" unfolding k by (simp add: push_bit_eq_mult mult.commute)
  then have "of_nat (p - PHYS_BASE) AND PTE_ADDR = (of_nat (p - PHYS_BASE) :: u32)"
    unfolding PTE_ADDR_mask by (intro bit_word_eqI) (auto simp: bit_simps)
  then have "(of_nat (p - PHYS_BASE) OR fl) AND PTE_ADDR = (of_nat (p - PHYS_BASE) :: u32)"
    using assms(2) by (simp add: bit.conj_disj_distrib2)
  moreover have "unat (of_nat (p - PHYS_BASE) :: u32) = p - PHYS_BASE" using p by (simp only: unat_of_nat) simp
  ultimately show ?thesis using p by (simp add: ptov_def PHYS_BASE_def)
qed

lemma entry_flag:
  assumes "kernel_page p" "f AND PTE_ADDR = 0"
  shows "(of_nat (p - PHYS_BASE) OR fl) AND f = fl AND f"
proof -
  have p: "pg_ofs p = 0" "PHYS_BASE \<le> p" using assms(1) by (auto simp: kernel_page_def)
  have "(p - PHYS_BASE) mod 4096 = 0" using p by (auto simp: pg_ofs_def PGSIZE_def PHYS_BASE_def)
  then obtain k where k: "p - PHYS_BASE = 4096 * k" by auto
  have "of_nat (p - PHYS_BASE) = (push_bit 12 (of_nat k) :: u32)" unfolding k by (simp add: push_bit_eq_mult mult.commute)
  moreover have "f AND NOT (mask 12) = 0" using assms(2) by (simp add: PTE_ADDR_mask)
  then have "\<not> bit f n" if "12 \<le> n" "n < 32" for n using that bit_eq_iff [of "f AND NOT (mask 12)" 0] by (auto simp: bit_simps)
  ultimately show ?thesis by (intro bit_word_eqI) (auto simp: bit_simps)
qed

section \<open>The tables of a directory\<close>

abbreviation kernel_used :: "pages \<Rightarrow> nat set" where
  "kernel_used g \<equiv> all_pages False g - free_pages False g"

definition pde_val :: "addr \<Rightarrow> u32" where
  "pde_val pt = of_nat (pt - PHYS_BASE) OR (PTE_U OR PTE_P OR PTE_W)"

definition pte_val :: "addr \<Rightarrow> bool \<Rightarrow> u32" where
  "pte_val p writable = of_nat (p - PHYS_BASE) OR (PTE_P OR (if writable then PTE_W else 0) OR PTE_U)"

text \<open>
  \<open>T i\<close> is the page table at index \<open>i\<close> of the directory, or null. The directory and its tables are pages of the kernel pool that are in use, all
  different.
\<close>

definition dir_rep :: "mmu \<Rightarrow> addr \<Rightarrow> (nat \<Rightarrow> addr) \<Rightarrow> bool" where
  "dir_rep s pd T \<longleftrightarrow> pages_ok (pgs s) \<and> (\<forall>u. \<forall>n\<in>all_pages u (pgs s). kernel_page (PGSIZE * n)) \<and>
     kernel_page pd \<and> pg_no pd \<in> kernel_used (pgs s) \<and>
     (\<forall>i<768. if T i = NULL then load (pd + 4 * i) s = 0
        else kernel_page (T i) \<and> pg_no (T i) \<in> kernel_used (pgs s) \<and> T i \<noteq> pd \<and> load (pd + 4 * i) s = pde_val (T i)) \<and>
     (\<forall>i<768. \<forall>j<768. T i \<noteq> NULL \<longrightarrow> T i = T j \<longrightarrow> i = j)"

text \<open>The entry for a user page.\<close>

definition pt_entry :: "mmu \<Rightarrow> (nat \<Rightarrow> addr) \<Rightarrow> nat \<Rightarrow> u32" where
  "pt_entry s T u = (if T (u div 1024) = NULL then 0 else load (T (u div 1024) + 4 * (u mod 1024)) s)"

text \<open>Every entry that is present points to a page that the kernel can address.\<close>

definition target_ok :: "u32 \<Rightarrow> bool" where
  "target_ok e \<longleftrightarrow> e AND PTE_P \<noteq> 0 \<longrightarrow> (\<exists>p. kernel_page p \<and> pte_get_page e = Some p)"

definition targets_ok :: "mmu \<Rightarrow> (nat \<Rightarrow> addr) \<Rightarrow> bool" where
  "targets_ok s T \<longleftrightarrow> (\<forall>u<768 * 1024. target_ok (pt_entry s T u))"

definition pagedir_ok :: "mmu \<Rightarrow> addr \<Rightarrow> bool" where
  "pagedir_ok s pd \<longleftrightarrow> (\<exists>T. dir_rep s pd T \<and> targets_ok s T)"

lemma dir_repD:
  assumes "dir_rep s pd T"
  shows "pages_ok (pgs s)" "n \<in> all_pages u (pgs s) \<Longrightarrow> kernel_page (PGSIZE * n)" "kernel_page pd" "pg_no pd \<in> kernel_used (pgs s)"
    "i < 768 \<Longrightarrow> T i = NULL \<Longrightarrow> load (pd + 4 * i) s = 0"
    "i < 768 \<Longrightarrow> T i \<noteq> NULL \<Longrightarrow> kernel_page (T i)" "i < 768 \<Longrightarrow> T i \<noteq> NULL \<Longrightarrow> pg_no (T i) \<in> kernel_used (pgs s)"
    "i < 768 \<Longrightarrow> T i \<noteq> NULL \<Longrightarrow> T i \<noteq> pd" "i < 768 \<Longrightarrow> T i \<noteq> NULL \<Longrightarrow> load (pd + 4 * i) s = pde_val (T i)"
    "i < 768 \<Longrightarrow> j < 768 \<Longrightarrow> T i \<noteq> NULL \<Longrightarrow> T i = T j \<Longrightarrow> i = j"
  using assms unfolding dir_rep_def by (auto split: if_splits)

lemma flag_values:
  "(PTE_U OR PTE_P OR PTE_W) AND PTE_ADDR = 0" "(PTE_P OR (if w then PTE_W else 0) OR PTE_U) AND PTE_ADDR = 0" "PTE_P AND PTE_ADDR = 0"
  "(PTE_U OR PTE_P OR PTE_W) AND PTE_P \<noteq> 0" "(PTE_P OR (if w then PTE_W else 0) OR PTE_U) AND PTE_P \<noteq> 0"
  by (simp_all add: PTE_U_def PTE_P_def PTE_W_def PTE_ADDR_def)

lemma pde_val:
  assumes "kernel_page p"
  shows "pde_create p = Some (pde_val p)" "pde_get_pt (pde_val p) = Some p" "pde_val p \<noteq> 0"
proof -
  have f: "pde_val p AND PTE_P \<noteq> 0" unfolding pde_val_def entry_flag [OF assms flag_values(3)] by (rule flag_values(4))
  show "pde_create p = Some (pde_val p)"
    using assms kernel_page_vtop [OF assms] by (simp add: pde_create_def pde_val_def kernel_page_def or.assoc)
  show "pde_get_pt (pde_val p) = Some p" using f entry_addr [OF assms flag_values(1)] by (simp add: pde_get_pt_def pde_val_def)
  show "pde_val p \<noteq> 0" using f by auto
qed

lemma pte_val:
  assumes "kernel_page p"
  shows "pte_create_user p w = Some (pte_val p w)" "pte_get_page (pte_val p w) = Some p" "pte_val p w AND PTE_P \<noteq> 0"
proof -
  show "pte_val p w AND PTE_P \<noteq> 0" unfolding pte_val_def entry_flag [OF assms flag_values(3)] by (rule flag_values(5))
  show "pte_create_user p w = Some (pte_val p w)"
    using assms kernel_page_vtop [OF assms] by (simp add: pte_create_user_def pte_create_kernel_def pte_val_def kernel_page_def or.assoc)
  show "pte_get_page (pte_val p w) = Some p" using entry_addr [OF assms flag_values(2)] by (simp add: pte_get_page_def pte_val_def)
qed

lemma pte_val_flags:
  assumes "kernel_page p"
  shows "pte_val p w AND PTE_U \<noteq> 0" "pte_val p w AND PTE_W \<noteq> 0 \<longleftrightarrow> w"
proof -
  have "PTE_U AND PTE_ADDR = 0" "PTE_W AND PTE_ADDR = 0" by (simp_all add: PTE_U_def PTE_W_def PTE_ADDR_def)
  then have "pte_val p w AND PTE_U = (PTE_P OR (if w then PTE_W else 0) OR PTE_U) AND PTE_U"
    "pte_val p w AND PTE_W = (PTE_P OR (if w then PTE_W else 0) OR PTE_U) AND PTE_W"
    unfolding pte_val_def by (simp_all only: entry_flag [OF assms])
  then show "pte_val p w AND PTE_U \<noteq> 0" "pte_val p w AND PTE_W \<noteq> 0 \<longleftrightarrow> w" by (cases w; simp add: PTE_U_def PTE_W_def PTE_P_def)+
qed

text \<open>Two pages, and two words of pages, that are not the same have no byte in common.\<close>

lemma pages_apart:
  assumes "pg_ofs p = 0" "pg_ofs q = 0" "p \<noteq> q"
  shows "p + PGSIZE \<le> q \<or> q + PGSIZE \<le> p"
proof -
  obtain P Q where "p = 4096 * P" "q = 4096 * Q" using assms(1,2) by (auto simp: pg_ofs_def PGSIZE_def elim!: dvdE)
  with assms(3) show ?thesis by (cases P Q rule: linorder_cases) (auto simp: PGSIZE_def)
qed

lemma words_apart:
  assumes "pg_ofs p = 0" "pg_ofs q = 0" "i < 1024" "j < 1024" "p \<noteq> q \<or> i \<noteq> j"
  shows "p + 4 * i + 4 \<le> q + 4 * j \<or> q + 4 * j + 4 \<le> p + 4 * i"
  using pages_apart [OF assms(1,2)] assms(3-5) by (cases "p = q") (auto simp: PGSIZE_def)

lemma user_index: "va < PHYS_BASE \<Longrightarrow> pd_no va < 768" "pt_no va < 1024" "pd_no va = pg_no va div 1024" "pt_no va = pg_no va mod 1024"
  by (simp_all add: pd_no_def pt_no_def pg_no_def PGBITS_def PHYS_BASE_def div_mult2_eq [symmetric])

lemma lookup_rep:
  assumes r: "dir_rep s pd T" and va: "va < PHYS_BASE"
  shows "T (pd_no va) \<noteq> NULL \<Longrightarrow> lookup_page pd va cr s = Some (T (pd_no va) + 4 * pt_no va, s)"
    "T (pd_no va) = NULL \<Longrightarrow> lookup_page pd va False s = Some (NULL, s)"
proof -
  note D = dir_repD [OF r] and i = user_index(1) [OF va]
  have pd: "pd \<noteq> NULL" by (rule kernel_page_vtop(2) [OF D(3)])
  show "lookup_page pd va cr s = Some (T (pd_no va) + 4 * pt_no va, s)" if "T (pd_no va) \<noteq> NULL"
    using D(9) [OF i that] pde_val [OF D(6) [OF i that]] pd va by (simp add: lookup_page_def table_entry_def is_user_vaddr_def)
  show "lookup_page pd va False s = Some (NULL, s)" if "T (pd_no va) = NULL"
    using D(5) [OF i that] pd by (simp add: lookup_page_def)
qed

lemma get_page_rep:
  assumes r: "dir_rep s pd T" and va: "va < PHYS_BASE"
  shows "pagedir_get_page pd va s =
    (if pt_entry s T (pg_no va) AND PTE_P \<noteq> 0 then map_option (\<lambda>p. p + pg_ofs va) (pte_get_page (pt_entry s T (pg_no va))) else Some NULL)"
proof (cases "T (pd_no va) = NULL")
  case True
  then show ?thesis using lookup_rep(2) [OF r va] va by (simp add: pagedir_get_page_def is_user_vaddr_def pt_entry_def user_index)
next
  case False
  have "T (pd_no va) + 4 * pt_no va \<noteq> NULL" using False by simp
  then show ?thesis using lookup_rep(1) [OF r va False] va False
    by (simp add: pagedir_get_page_def is_user_vaddr_def pt_entry_def user_index map_conv_bind_option comp_def)
qed

text \<open>Writing an entry of a table changes that entry only.\<close>

lemma store_entry:
  fixes e :: u32
  assumes r: "dir_rep s pd T" and u: "u < 768 * 1024" and T: "T (u div 1024) \<noteq> NULL"
  defines "s' \<equiv> store (T (u div 1024) + 4 * (u mod 1024)) e s"
  shows "dir_rep s' pd T" "v < 768 * 1024 \<Longrightarrow> pt_entry s' T v = (if v = u then e else pt_entry s T v)"
proof -
  note D = dir_repD [OF r]
  have i: "u div 1024 < 768" using u by auto
  note w = words_apart [of _ _ _ "u mod 1024"]
  have o: "pg_ofs pd = 0" "pg_ofs (T (u div 1024)) = 0" using D(3) D(6) [OF i T] by (auto simp: kernel_page_def)
  have "load (pd + 4 * j) s' = load (pd + 4 * j) s" if "j < 768" for j
    unfolding s'_def by (rule load_store(2), rule w) (use o D(8) [OF i T] that in auto)
  then show "dir_rep s' pd T" using r unfolding dir_rep_def s'_def by (auto split: if_splits)
  show "pt_entry s' T v = (if v = u then e else pt_entry s T v)" if v: "v < 768 * 1024"
  proof (cases "v = u \<or> T (v div 1024) = NULL")
    case True
    then show ?thesis using T by (auto simp: pt_entry_def s'_def)
  next
    case False
    have j: "v div 1024 < 768" using v by auto
    have ov: "pg_ofs (T (v div 1024)) = 0" using D(6) [OF j] False by (auto simp: kernel_page_def)
    have "T (v div 1024) \<noteq> T (u div 1024) \<or> v mod 1024 \<noteq> u mod 1024"
      using D(10) [OF i j T] False by (metis div_mult_mod_eq)
    then have "load (T (v div 1024) + 4 * (v mod 1024)) s' = load (T (v div 1024) + 4 * (v mod 1024)) s"
      unfolding s'_def by (intro load_store(2) w) (use o ov in auto)
    then show ?thesis using False by (simp add: pt_entry_def)
  qed
qed

text \<open>
  A page \<open>p\<close> taken from the user pool, or the kernel pool: it was free, it is zero when asked for, and the other pages keep their contents.
\<close>

definition page_taken :: "bool \<Rightarrow> u32 \<Rightarrow> addr \<Rightarrow> pages \<Rightarrow> pages \<Rightarrow> bool" where
  "page_taken u fl p g g' \<longleftrightarrow> kernel_page p \<and> pg_no p \<in> free_pages u g \<and> free_pages u g' = free_pages u g - {pg_no p} \<and>
     free_pages (\<not> u) g' = free_pages (\<not> u) g \<and> pages_ok g' \<and> (\<forall>v. all_pages v g' = all_pages v g) \<and>
     (\<forall>a. pmem g' a = (if fl AND PAL_ZERO \<noteq> 0 \<and> p \<le> a \<and> a < p + PGSIZE then 0 else pmem g a))"

lemma page_alloc:
  assumes ok: "pages_ok g" and k: "\<forall>v. \<forall>n\<in>all_pages v g. kernel_page (PGSIZE * n)"
    and f: "fl AND PAL_ASSERT = 0" "u \<longleftrightarrow> fl AND PAL_USER \<noteq> 0"
  shows "(free_pages u g = {} \<and> palloc_get_page fl g = Some (NULL, g)) \<or>
    (\<exists>p g'. palloc_get_page fl g = Some (p, g') \<and> page_taken u fl p g g')"
proof -
  obtain p g' where g': "palloc_get_page fl g = Some (p, g')" "pages_ok g'" "\<And>v. all_pages v g' = all_pages v g" "free_pages (\<not> u) g' = free_pages (\<not> u) g"
    and c: "if p = NULL then g' = g \<and> (\<forall>k. \<not> {k ..< k + 1} \<subseteq> free_pages u g)
     else pg_ofs p = 0 \<and> page_range p 1 \<subseteq> free_pages u g \<and> free_pages u g' = free_pages u g - page_range p 1 \<and>
       (\<forall>a. pmem g' a = (if fl AND PAL_ZERO \<noteq> 0 \<and> p \<le> a \<and> a < p + PGSIZE then 0 else pmem g a))"
    using palloc_get_multiple_cases [OF ok zero_less_one f(1)] unfolding palloc_get_page_def f(2) [symmetric] mult_1_right by blast
  show ?thesis
  proof (cases "p = NULL")
    case True
    then have "free_pages u g = {}" using c by auto
    then show ?thesis using g'(1) c True by auto
  next
    case False
    then have p: "pg_ofs p = 0" "pg_no p \<in> free_pages u g" "free_pages u g' = free_pages u g - {pg_no p}"
      and m: "\<forall>a. pmem g' a = (if fl AND PAL_ZERO \<noteq> 0 \<and> p \<le> a \<and> a < p + PGSIZE then 0 else pmem g a)"
      using c by auto
    have "pg_no p \<in> all_pages u g" using p(2) by (auto simp: pool_free_def)
    then have "kernel_page (PGSIZE * pg_no p)" using k by blast
    then have "kernel_page p" using p(1) pg_split [of p] by simp
    then show ?thesis using g' p(2,3) m unfolding page_taken_def by blast
  qed
qed

lemma dir_rep_pools: "dir_rep s pd T \<Longrightarrow> \<forall>v. \<forall>n\<in>all_pages v (pgs s). kernel_page (PGSIZE * n)"
  by (simp add: dir_rep_def)

lemma page_taken_use:
  assumes "page_taken False fl p g g'"
  shows "kernel_page p" "pg_no p \<notin> kernel_used g" "pg_no p \<in> kernel_used g'" "kernel_used g \<subseteq> kernel_used g'" "pages_ok g'" "\<forall>u. all_pages u g' = all_pages u g"
    "\<forall>a. pmem g' a = (if fl AND PAL_ZERO \<noteq> 0 \<and> p \<le> a \<and> a < p + PGSIZE then 0 else pmem g a)"
  using assms unfolding page_taken_def by (auto simp: pool_free_def)

lemma rd32_other_page:
  assumes "pg_ofs p = 0" "pg_ofs q = 0" "q \<noteq> p" "j < 1024" "\<And>a. a < p \<or> p + PGSIZE \<le> a \<Longrightarrow> m' a = m a"
  shows "rd32 m' (q + 4 * j) = rd32 m (q + 4 * j)"
proof (rule rd32_cong)
  fix i :: nat assume "i < 4"
  then show "m' (q + 4 * j + i) = m (q + 4 * j + i)" using pages_apart [OF assms(1,2)] assms(3,4) by (intro assms(5)) (auto simp: PGSIZE_def)
qed

text \<open>
  A page table is attached to a directory: \<open>g\<close> are the pools after a zero page \<open>pt\<close> has been allocated, \<open>s'\<close> the state after the directory entry is
  written. The mappings stay as they were.
\<close>

lemma attach_table:
  assumes r: "dir_rep s pd T" and i: "i < 768" and Ti: "T i = NULL"
    and taken: "page_taken False PAL_ZERO pt (pgs s) g"
  defines "s' \<equiv> store (pd + 4 * i) (pde_val pt) (s\<lparr>pgs := g\<rparr>)"
  shows "dir_rep s' pd (T(i := pt))" "u < 768 * 1024 \<Longrightarrow> pt_entry s' (T(i := pt)) u = pt_entry s T u"
proof -
  note D = dir_repD [OF r] and pt = page_taken_use(1-3) [OF taken] and g = page_taken_use(4-6) [OF taken] and m = page_taken_use(7) [OF taken]
  let ?T = "T(i := pt)"
  have z: "rd32 (pmem g) (pt + 4 * j) = 0" if "j < 1024" for j using that m by (simp add: rd32_def PGSIZE_def PAL_ZERO_def)
  have same: "rd32 (pmem g) (q + 4 * j) = rd32 (pmem (pgs s)) (q + 4 * j)" if "j < 1024" "pg_ofs q = 0" "q \<noteq> pt" for q j
    by (rule rd32_other_page [where p = pt]) (use m pt(1) that in \<open>auto simp: kernel_page_def\<close>)
  have new: "pt \<noteq> pd" "\<And>j. j < 768 \<Longrightarrow> T j \<noteq> NULL \<Longrightarrow> pt \<noteq> T j" using pt(2) D(4,7) by auto
  have o: "pg_ofs pd = 0" "pg_ofs pt = 0" "\<And>j. j < 768 \<Longrightarrow> T j \<noteq> NULL \<Longrightarrow> pg_ofs (T j) = 0"
    using D(3,6) pt(1) by (auto simp: kernel_page_def)
  have nn: "pt \<noteq> NULL" by (rule kernel_page_vtop(2) [OF pt(1)])
  have ld: "load (q + 4 * j) s' = rd32 (pmem g) (q + 4 * j)" if "pg_ofs q = 0" "j < 1024" "q \<noteq> pd \<or> j \<noteq> i" for q j
  proof -
    have "load (q + 4 * j) s' = load (q + 4 * j) (s\<lparr>pgs := g\<rparr>)"
      unfolding s'_def by (rule load_store(2), rule words_apart) (use o i that in auto)
    then show ?thesis by (simp add: load_def)
  qed
  have dir: "load (pd + 4 * j) s' = (if j = i then pde_val pt else load (pd + 4 * j) s)" if "j < 768" for j
    using that ld [OF o(1), of j] same o(1) new(1) load_def [of _ s] by (cases "j = i") (simp_all add: s'_def)
  show "dir_rep s' pd ?T"
    unfolding dir_rep_def
  proof (intro conjI allI impI)
    fix j :: nat assume j: "j < 768"
    show "if ?T j = NULL then load (pd + 4 * j) s' = 0
      else kernel_page (?T j) \<and> pg_no (?T j) \<in> kernel_used (pgs s') \<and> ?T j \<noteq> pd \<and> load (pd + 4 * j) s' = pde_val (?T j)"
      using dir [OF j] D(5-9) [OF j] pt nn new(1) g(1) by (auto simp: s'_def)
    show "j = k" if "k < 768" "?T j \<noteq> NULL" "?T j = ?T k" for k
      using that D(10) [OF j that(1)] new(2) [OF j] new(2) [OF that(1)] nn by (auto split: if_splits)
  qed (use D(1-4) g in \<open>auto simp: s'_def\<close>)
  show "pt_entry s' ?T u = pt_entry s T u" if u: "u < 768 * 1024"
  proof -
    have j: "u div 1024 < 768" using u by auto
    consider "u div 1024 = i" | "u div 1024 \<noteq> i" "T (u div 1024) = NULL" | "u div 1024 \<noteq> i" "T (u div 1024) \<noteq> NULL" by blast
    then show ?thesis
    proof cases
      case 1
      then show ?thesis using ld [OF o(2), of "u mod 1024"] new(1) z Ti nn by (simp add: pt_entry_def)
    next
      case 3
      then show ?thesis using ld [OF o(3) [OF j 3(2)], of "u mod 1024"] new(2) [OF j 3(2)] D(8) [OF j 3(2)] same o(3) [OF j 3(2)]
        by (simp add: pt_entry_def load_def)
    qed (simp add: pt_entry_def)
  qed
qed

text \<open>
  A directory may grow by tables: the mapped pages and the user pool are as before, memory changes in the kernel pool only, and every page of that pool
  that was free is still free or is a table.
\<close>

definition tables :: "(nat \<Rightarrow> addr) \<Rightarrow> nat set" where
  "tables T = pg_no ` T ` {i. i < 768 \<and> T i \<noteq> NULL}"

definition grown :: "mmu \<Rightarrow> (nat \<Rightarrow> addr) \<Rightarrow> mmu \<Rightarrow> (nat \<Rightarrow> addr) \<Rightarrow> bool" where
  "grown s T s' T' \<longleftrightarrow> (\<forall>v. all_pages v (pgs s') = all_pages v (pgs s)) \<and> free_pages True (pgs s') = free_pages True (pgs s) \<and>
     free_pages False (pgs s') \<union> tables T' = free_pages False (pgs s) \<union> tables T \<and>
     (\<forall>a. pg_no a \<notin> all_pages False (pgs s) \<longrightarrow> pmem (pgs s') a = pmem (pgs s) a) \<and>
     cr3 s' = cr3 s \<and> init_page_dir s' = init_page_dir s \<and> init_ram_pages s' = init_ram_pages s"

lemma grown_refl [simp]: "grown s T s T"
  by (simp add: grown_def)

lemma grown_trans: "grown s T s' T' \<Longrightarrow> grown s' T' s'' T'' \<Longrightarrow> grown s T s'' T''"
  by (auto simp: grown_def)

lemma in_page: "pg_ofs p = 0 \<Longrightarrow> p \<le> a \<Longrightarrow> a < p + PGSIZE \<Longrightarrow> pg_no a = pg_no p"
  using pg_split [of p] unfolding pg_no_def [of a] PGSIZE_pow by (intro div_nat_eqI) auto

lemma store_grown:
  assumes "kernel_page q" "pg_no q \<in> all_pages False (pgs s)" "j < 1024"
  shows "grown s T (store (q + 4 * j) e s) T"
proof -
  have "pmem (pgs (store (q + 4 * j) e s)) a = pmem (pgs s) a" if "pg_no a \<notin> all_pages False (pgs s)" for a
  proof (rule store_sel(7))
    show "a < q + 4 * j \<or> q + 4 * j + 4 \<le> a"
    proof (rule ccontr)
      assume "\<not> ?thesis"
      then have "q \<le> a" "a < q + PGSIZE" using assms(3) by (auto simp: PGSIZE_def)
      then show False using in_page [of q a] assms(1,2) that by (auto simp: kernel_page_def)
    qed
  qed
  then show ?thesis by (simp add: grown_def)
qed

lemma attach_grown:
  assumes r: "dir_rep s pd T" and i: "i < 768" and Ti: "T i = NULL" and taken: "page_taken False PAL_ZERO pt (pgs s) g"
  shows "grown s T (store (pd + 4 * i) (pde_val pt) (s\<lparr>pgs := g\<rparr>)) (T(i := pt))"
proof -
  note D = dir_repD [OF r] and k = taken [unfolded page_taken_def]
  have nn: "pt \<noteq> NULL" using k kernel_page_vtop(2) by blast
  have "{j. j < 768 \<and> (T(i := pt)) j \<noteq> NULL} = insert i {j. j < 768 \<and> T j \<noteq> NULL}" using i nn by auto
  moreover have "(T(i := pt)) ` insert i A = insert pt (T ` A)" if "i \<notin> A" for A using that by auto
  ultimately have "tables (T(i := pt)) = insert (pg_no pt) (tables T)" unfolding tables_def using Ti by (simp del: fun_upd_apply)
  moreover have "pmem g a = pmem (pgs s) a" if "pg_no a \<notin> all_pages False (pgs s)" for a
    using k that in_page [of pt a] by (auto simp: pool_free_def kernel_page_def)
  ultimately have "grown s T (s\<lparr>pgs := g\<rparr>) (T(i := pt))" using k by (auto simp: grown_def)
  moreover have "grown (s\<lparr>pgs := g\<rparr>) (T(i := pt)) (store (pd + 4 * i) (pde_val pt) (s\<lparr>pgs := g\<rparr>)) (T(i := pt))"
    by (rule store_grown) (use D(3,4) k i in auto)
  ultimately show ?thesis by (rule grown_trans)
qed

lemma lookup_create:
  assumes r: "dir_rep s pd T" and va: "va < PHYS_BASE"
  shows "(free_pages False (pgs s) = {} \<and> lookup_page pd va True s = Some (NULL, s)) \<or>
    (\<exists>s' T'. lookup_page pd va True s = Some (T' (pd_no va) + 4 * pt_no va, s') \<and> dir_rep s' pd T' \<and> T' (pd_no va) \<noteq> NULL \<and>
       (\<forall>u<768 * 1024. pt_entry s' T' u = pt_entry s T u) \<and> grown s T s' T' \<and> (\<exists>p. free_pages False (pgs s) \<subseteq> insert p (free_pages False (pgs s'))))"
proof (cases "T (pd_no va) = NULL")
  case False
  then show ?thesis using lookup_rep(1) [OF r va False, of True] r grown_refl by blast
next
  case True
  note D = dir_repD [OF r] and i = user_index(1) [OF va]
  have pd: "pd \<noteq> NULL" by (rule kernel_page_vtop(2) [OF D(3)])
  have l: "load (pd + 4 * pd_no va) s = 0" by (rule D(5) [OF i True])
  have f: "PAL_ZERO AND PAL_ASSERT = 0" "False \<longleftrightarrow> PAL_ZERO AND PAL_USER \<noteq> 0" by (simp_all add: PAL_ZERO_def PAL_ASSERT_def PAL_USER_def)
  from page_alloc [OF D(1) dir_rep_pools [OF r] f] show ?thesis
  proof (elim disjE exE conjE)
    assume "palloc_get_page PAL_ZERO (pgs s) = Some (NULL, pgs s)" "free_pages False (pgs s) = {}"
    then show ?thesis using l pd va by (simp add: lookup_page_def is_user_vaddr_def)
  next
    fix pt g
    assume g: "palloc_get_page PAL_ZERO (pgs s) = Some (pt, g)" and a: "page_taken False PAL_ZERO pt (pgs s) g"
    let ?s = "store (pd + 4 * pd_no va) (pde_val pt) (s\<lparr>pgs := g\<rparr>)" and ?T = "T(pd_no va := pt)"
    note kp = page_taken_use(1) [OF a]
    have nn: "pt \<noteq> NULL" by (rule kernel_page_vtop(2) [OF kp])
    then have "lookup_page pd va True s = Some (?T (pd_no va) + 4 * pt_no va, ?s)"
      using g l pd va pde_val [OF kp] by (simp add: lookup_page_def is_user_vaddr_def table_entry_def)
    moreover have "\<exists>p. free_pages False (pgs s) \<subseteq> insert p (free_pages False (pgs ?s))" using a by (intro exI [of _ "pg_no pt"]) (auto simp: page_taken_def)
    ultimately show ?thesis using attach_table [OF r i True a] attach_grown [OF r i True a] nn
      by (intro disjI2 exI [of _ ?s] exI [of _ ?T]) simp
  qed
qed

section \<open>The operations on mappings\<close>

lemma user_page_index: "va < PHYS_BASE \<Longrightarrow> pg_no va < 768 * 1024"
  by (simp add: pg_no_def PGBITS_def PHYS_BASE_def)

text \<open>In a well-formed directory the lookup never fails, and it is null exactly when the page is not present.\<close>

lemma get_page_null:
  assumes "dir_rep s pd T" "va < PHYS_BASE" "targets_ok s T"
  shows "pagedir_get_page pd va s = Some NULL \<longleftrightarrow> pt_entry s T (pg_no va) AND PTE_P = 0"
proof (cases "pt_entry s T (pg_no va) AND PTE_P = 0")
  case True
  then show ?thesis by (simp add: get_page_rep [OF assms(1,2)])
next
  case False
  then obtain p where "kernel_page p" "pte_get_page (pt_entry s T (pg_no va)) = Some p"
    using assms(3) user_page_index [OF assms(2)] unfolding targets_ok_def target_ok_def by blast
  then show ?thesis using False kernel_page_vtop(2) [of p] by (simp add: get_page_rep [OF assms(1,2)])
qed

text \<open>Replacing one entry of a table.\<close>

lemma pagedir_ok_update:
  assumes "dir_rep s' pd T'" "target_ok e" "\<And>v. v < 768 * 1024 \<Longrightarrow> pt_entry s' T' v = (if v = u then e else pt_entry s T v)" "targets_ok s T"
  shows "pagedir_ok s' pd"
  unfolding pagedir_ok_def targets_ok_def using assms(1,2) assms(4) [unfolded targets_ok_def] by (intro exI [of _ T']) (simp add: assms(3))

lemma get_page_update:
  assumes "dir_rep s' pd T'" "dir_rep s pd T" "\<And>v. v < 768 * 1024 \<Longrightarrow> pt_entry s' T' v = (if v = u then e else pt_entry s T v)" and va: "va < PHYS_BASE"
  shows "pagedir_get_page pd va s' =
    (if pg_no va = u then (if e AND PTE_P \<noteq> 0 then map_option (\<lambda>p. p + pg_ofs va) (pte_get_page e) else Some NULL) else pagedir_get_page pd va s)"
  unfolding get_page_rep [OF assms(1) va] get_page_rep [OF assms(2) va] assms(3) [OF user_page_index [OF va]] by simp

text \<open>A flag of the entry of a user page.\<close>

lemma flag_rep:
  assumes "dir_rep s pd T" "va < PHYS_BASE"
  shows "pte_flag f pd va s = Some (pt_entry s T (pg_no va) AND f \<noteq> 0)"
  using lookup_rep [OF assms] by (cases "T (pd_no va) = NULL") (simp_all add: pte_flag_def pt_entry_def user_index)

lemma set_page_rep:
  assumes r: "dir_rep s pd T" and T: "targets_ok s T" and pd: "pd \<noteq> init_page_dir s" and k: "kernel_page kpage" "(kpage - PHYS_BASE) div 2 ^ 12 < init_ram_pages s"
    and up: "upage < PHYS_BASE" "pg_ofs upage = 0" and np: "pt_entry s T (pg_no upage) AND PTE_P = 0"
  shows "(free_pages False (pgs s) = {} \<and> pagedir_set_page pd upage kpage writable s = Some (False, s)) \<or>
    (\<exists>s' T'. pagedir_set_page pd upage kpage writable s = Some (True, s') \<and> dir_rep s' pd T' \<and> targets_ok s' T' \<and> grown s T s' T' \<and>
       (\<forall>v<768 * 1024. pt_entry s' T' v = (if v = pg_no upage then pte_val kpage writable else pt_entry s T v)) \<and>
       (\<exists>p. free_pages False (pgs s) \<subseteq> insert p (free_pages False (pgs s'))))"
proof -
  have set: "pagedir_set_page pd upage kpage writable s = do {
     (pte, s) \<leftarrow> lookup_page pd upage True s;
     if pte \<noteq> NULL then do { ASSERT (load pte s AND PTE_P = 0); Some (True, store pte (pte_val kpage writable) s) } else Some (False, s) }"
    unfolding pagedir_set_page_def pte_val(1) [OF k(1)] Option.bind.bind_lunit
    using up k pd kernel_page_vtop(1) [OF k(1)] by (simp add: is_user_vaddr_def kernel_page_def)
  from lookup_create [OF r up(1)] show ?thesis
  proof (elim disjE exE conjE)
    assume "free_pages False (pgs s) = {}" "lookup_page pd upage True s = Some (NULL, s)"
    then show ?thesis using set by simp
  next
    fix s1 T' p
    assume p: "free_pages False (pgs s) \<subseteq> insert p (free_pages False (pgs s1))" and l: "lookup_page pd upage True s = Some (T' (pd_no upage) + 4 * pt_no upage, s1)" and r1: "dir_rep s1 pd T'"
      and nn: "T' (pd_no upage) \<noteq> NULL" and e1: "\<forall>u<768 * 1024. pt_entry s1 T' u = pt_entry s T u" and g: "grown s T s1 T'"
    let ?u = "pg_no upage" and ?e = "pte_val kpage writable"
    let ?s = "store (T' (?u div 1024) + 4 * (?u mod 1024)) ?e s1"
    have u: "?u < 768 * 1024" by (rule user_page_index [OF up(1)])
    have i: "?u div 1024 < 768" "T' (?u div 1024) \<noteq> NULL" using u nn by (simp_all add: user_index)
    note st = store_entry [OF r1 u i(2), where e = ?e]
    have "load (T' (?u div 1024) + 4 * (?u mod 1024)) s1 = pt_entry s T ?u"
      using e1 u nn by (metis pt_entry_def user_index(3))
    then have "pagedir_set_page pd upage kpage writable s = Some (True, ?s)"
      using set l nn np by (simp add: user_index)
    moreover have e': "pt_entry ?s T' v = (if v = ?u then ?e else pt_entry s T v)" if "v < 768 * 1024" for v using st(2) [OF that] e1 that by simp
    moreover have "targets_ok ?s T'" using T pte_val [OF k(1)] k(1) by (simp add: targets_ok_def e' target_ok_def [of ?e])
    moreover have "grown s T ?s T'"
      using grown_trans [OF g store_grown] dir_repD(6,7) [OF r1 i] by auto
    moreover have "\<exists>p. free_pages False (pgs s) \<subseteq> insert p (free_pages False (pgs ?s))" using p by auto
    ultimately show ?thesis using st(1) by blast
  qed
qed

text \<open>
  C17 Adding a mapping to a page directory, when the user page is not mapped: either no page for a page table is free, and nothing has changed, or from
  then on the addresses of the user page translate to the given frame while every other user address translates as before; the page is open to user
  code and writable as requested. No assertion is violated and the directory stays well formed.
\<close>

theorem pagedir_set_get:
  assumes ok: "pagedir_ok s pd" and pd: "pd \<noteq> init_page_dir s" and k: "kernel_page kpage" "(kpage - PHYS_BASE) div 2 ^ 12 < init_ram_pages s"
    and up: "upage < PHYS_BASE" "pg_ofs upage = 0" and free: "pagedir_get_page pd upage s = Some NULL"
  shows "\<exists>success s'. pagedir_set_page pd upage kpage writable s = Some (success, s') \<and> pagedir_ok s' pd \<and>
    (if success then (\<forall>va. va < PHYS_BASE \<longrightarrow> pagedir_get_page pd va s' =
       (if pg_no va = pg_no upage then Some (kpage + pg_ofs va) else pagedir_get_page pd va s)) \<and>
       pte_flag PTE_U pd upage s' = Some True \<and> pte_flag PTE_W pd upage s' = Some writable
     else free_pages False (pgs s) = {} \<and> s' = s)"
proof -
  obtain T where r: "dir_rep s pd T" and T: "targets_ok s T" using ok unfolding pagedir_ok_def by blast
  have "pt_entry s T (pg_no upage) AND PTE_P = 0" using free get_page_null [OF r up(1) T] by simp
  from set_page_rep [OF r T pd k up this, of writable] show ?thesis
  proof (elim disjE exE conjE)
    assume "free_pages False (pgs s) = {}" "pagedir_set_page pd upage kpage writable s = Some (False, s)"
    then show ?thesis using ok by (intro exI [of _ False] exI [of _ s]) simp
  next
    fix s' T'
    assume s': "pagedir_set_page pd upage kpage writable s = Some (True, s')" "dir_rep s' pd T'" "targets_ok s' T'"
      and e: "\<forall>v<768 * 1024. pt_entry s' T' v = (if v = pg_no upage then pte_val kpage writable else pt_entry s T v)"
    have "pagedir_get_page pd va s' = (if pg_no va = pg_no upage then Some (kpage + pg_ofs va) else pagedir_get_page pd va s)"
      if "va < PHYS_BASE" for va
      using get_page_update [OF s'(2) r _ that] e pte_val [OF k(1), of writable] by simp
    moreover have "pte_flag PTE_U pd upage s' = Some True" "pte_flag PTE_W pd upage s' = Some writable"
      using flag_rep [OF s'(2) up(1)] e user_page_index [OF up(1)] pte_val_flags [OF k(1)] by simp_all
    ultimately show ?thesis using s' unfolding pagedir_ok_def by auto
  qed
qed

text \<open>Reloading the directory changes the register and the buffer only.\<close>

lemma dir_rep_cr3 [simp]:
  "dir_rep (s\<lparr>cr3 := x, tlb := y\<rparr>) pd T = dir_rep s pd T" "pt_entry (s\<lparr>cr3 := x, tlb := y\<rparr>) T u = pt_entry s T u"
  by (simp_all add: dir_rep_def pt_entry_def load_def)

lemma invalidate:
  assumes "kernel_page pd" "cr3 s < PHYS_BASE"
  shows "\<exists>x y. invalidate_pagedir pd s = Some (s\<lparr>cr3 := x, tlb := y\<rparr>) \<and> (y = {} \<or> ptov x \<noteq> Some pd)"
proof (cases "active_pd s = Some pd")
  case True
  then have "invalidate_pagedir pd s = Some (s\<lparr>cr3 := pd - PHYS_BASE, tlb := {}\<rparr>)"
    using assms(1) kernel_page_vtop [OF assms(1)] by (simp add: invalidate_pagedir_def pagedir_activate_def)
  then show ?thesis by blast
next
  case False
  then have "invalidate_pagedir pd s = Some (s\<lparr>cr3 := cr3 s, tlb := tlb s\<rparr>)" "ptov (cr3 s) \<noteq> Some pd"
    using assms(2) by (auto simp: invalidate_pagedir_def active_pd_def ptov_def)
  then show ?thesis by blast
qed

text \<open>Changing the entry of a user page and reloading the directory, or not.\<close>

lemma change_entry:
  assumes r: "dir_rep s pd T" and T: "targets_ok s T" and va: "va < PHYS_BASE" and n: "T (pd_no va) \<noteq> NULL" and e: "target_ok e"
  defines "s' \<equiv> store (T (pd_no va) + 4 * pt_no va) e s"
  shows "dir_rep s' pd T" "v < 768 * 1024 \<Longrightarrow> pt_entry s' T v = (if v = pg_no va then e else pt_entry s T v)" "targets_ok s' T"
proof -
  have u: "pg_no va < 768 * 1024" by (rule user_page_index [OF va])
  note st = store_entry [OF r u, where e = e]
  show "dir_rep s' pd T" using st(1) n by (simp add: s'_def user_index)
  show en: "pt_entry s' T v = (if v = pg_no va then e else pt_entry s T v)" if "v < 768 * 1024" for v
    using st(2) n that by (simp add: s'_def user_index)
  show "targets_ok s' T" using T e by (simp add: targets_ok_def en)
qed

text \<open>The buffer holds translations of pages that are mapped in the active directory.\<close>

definition tlb_ok :: "mmu \<Rightarrow> addr \<Rightarrow> bool" where
  "tlb_ok s pd \<longleftrightarrow> (active_pd s = Some pd \<longrightarrow> (\<forall>u\<in>tlb s. u < 768 * 1024 \<longrightarrow> pagedir_get_page pd (PGSIZE * u) s \<noteq> Some NULL))"

text \<open>
  C18 Removing a mapping: the addresses of the user page translate to nothing, every other user address translates as before, and when the
  directory is the active one the processor keeps no translation of the removed page.
\<close>

theorem pagedir_clear_unmaps:
  assumes ok: "pagedir_ok s pd" and up: "upage < PHYS_BASE" "pg_ofs upage = 0" and c: "cr3 s < PHYS_BASE" and tlb: "tlb_ok s pd"
  shows "\<exists>s'. pagedir_clear_page pd upage s = Some s' \<and> pagedir_ok s' pd \<and> tlb_ok s' pd \<and>
    (\<forall>va. va < PHYS_BASE \<longrightarrow> pagedir_get_page pd va s' = (if pg_no va = pg_no upage then Some NULL else pagedir_get_page pd va s))"
proof -
  obtain T where r: "dir_rep s pd T" and T: "targets_ok s T" using ok unfolding pagedir_ok_def by blast
  let ?u = "pg_no upage" and ?pte = "T (pd_no upage) + 4 * pt_no upage"
  have kp: "kernel_page pd" by (rule dir_repD(3) [OF r])
  show ?thesis
  proof (cases "pt_entry s T ?u AND PTE_P = 0")
    case True
    have "pagedir_clear_page pd upage s = Some s"
      using True lookup_rep [OF r up(1)] up by (cases "T (pd_no upage) = NULL") (simp_all add: pagedir_clear_page_def is_user_vaddr_def pt_entry_def user_index)
    moreover have "pagedir_get_page pd va s = Some NULL" if "va < PHYS_BASE" "pg_no va = ?u" for va
      using that True by (simp add: get_page_rep [OF r])
    ultimately show ?thesis using ok tlb by auto
  next
    case False
    then have n: "T (pd_no upage) \<noteq> NULL" by (auto simp: pt_entry_def user_index split: if_splits)
    then have en: "load ?pte s = pt_entry s T ?u" by (simp add: pt_entry_def user_index)
    let ?e = "pt_entry s T ?u AND NOT PTE_P"
    let ?s = "store ?pte ?e s"
    have e: "?e AND PTE_P = 0" by (simp add: and.assoc)
    note ce = change_entry [OF r T up(1) n, where e = ?e, unfolded target_ok_def e]
    obtain x y where x: "invalidate_pagedir pd ?s = Some (?s\<lparr>cr3 := x, tlb := y\<rparr>)" and y: "y = {} \<or> ptov x \<noteq> Some pd"
      using invalidate [OF kp, of ?s] c by auto
    let ?s' = "?s\<lparr>cr3 := x, tlb := y\<rparr>"
    have "pagedir_clear_page pd upage s = Some ?s'"
      using x False up n lookup_rep(1) [OF r up(1) n] en by (simp add: pagedir_clear_page_def is_user_vaddr_def)
    moreover have r': "dir_rep ?s' pd T" using ce(1) by simp
    moreover have "targets_ok ?s' T" using ce(3) by (simp add: targets_ok_def)
    moreover have "pagedir_get_page pd va ?s' = (if pg_no va = ?u then Some NULL else pagedir_get_page pd va s)" if "va < PHYS_BASE" for va
      using get_page_update [OF r' r _ that, of ?u ?e] ce(2) e by simp
    moreover have "tlb_ok ?s' pd" using y by (auto simp: tlb_ok_def active_pd_def)
    ultimately show ?thesis unfolding pagedir_ok_def by blast
  qed
qed

section \<open>Dirty and accessed bits\<close>

text \<open>Setting or clearing one bit of an entry that is neither the present bit nor a bit of the address.\<close>

definition set_bits :: "u32 \<Rightarrow> bool \<Rightarrow> u32 \<Rightarrow> u32" where
  "set_bits f b e = (if b then e OR f else e AND NOT f)"

lemma set_bits_other:
  assumes "f AND g = 0"
  shows "set_bits f b e AND g = e AND g"
proof -
  have "\<not> (bit f n \<and> bit g n)" for n using assms by (metis bit_0_eq bit_and_iff bot_apply bot_bool_def)
  then show ?thesis by (intro bit_word_eqI) (auto simp: set_bits_def bit_simps)
qed

lemma set_bits_same:
  assumes "f \<noteq> 0"
  shows "set_bits f b e AND f \<noteq> 0 \<longleftrightarrow> b"
proof -
  have "(e OR f) AND f = f" "(e AND NOT f) AND f = 0" by (intro bit_word_eqI; auto simp: bit_simps)+
  then show ?thesis using assms by (simp add: set_bits_def)
qed

lemma set_flag_effect:
  assumes ok: "pagedir_ok s pd" and va: "va < PHYS_BASE" and c: "cr3 s < PHYS_BASE"
    and f: "f \<noteq> 0" "f AND PTE_P = 0" "f AND PTE_ADDR = 0"
  shows "\<exists>s'. set_pte_flag f pd va b s = Some s' \<and> pagedir_ok s' pd \<and>
    (\<forall>v<PHYS_BASE. pagedir_get_page pd v s' = pagedir_get_page pd v s) \<and>
    (\<forall>v<PHYS_BASE. \<forall>g. g AND f = 0 \<or> pg_no v \<noteq> pg_no va \<longrightarrow> pte_flag g pd v s' = pte_flag g pd v s) \<and>
    (pagedir_get_page pd va s \<noteq> Some NULL \<longrightarrow> pte_flag f pd va s' = Some b)"
proof -
  obtain T where r: "dir_rep s pd T" and T: "targets_ok s T" using ok unfolding pagedir_ok_def by blast
  show ?thesis
  proof (cases "T (pd_no va) = NULL")
    case True
    then have "pagedir_get_page pd va s = Some NULL" by (simp add: get_page_rep [OF r va] pt_entry_def user_index)
    moreover have "set_pte_flag f pd va b s = Some s" using lookup_rep(2) [OF r va True] by (simp add: set_pte_flag_def)
    ultimately show ?thesis using ok by simp
  next
    case n: False
    let ?u = "pg_no va" and ?pte = "T (pd_no va) + 4 * pt_no va"
    let ?e = "pt_entry s T ?u"
    define s1 where "s1 = store ?pte (set_bits f b ?e) s"
    have en: "load ?pte s = ?e" using n by (simp add: pt_entry_def user_index)
    have P: "set_bits f b ?e AND PTE_P = ?e AND PTE_P" and A: "pte_get_page (set_bits f b ?e) = pte_get_page ?e"
      using set_bits_other f by (simp_all add: pte_get_page_def)
    have "target_ok ?e" using T user_page_index [OF va] by (simp add: targets_ok_def)
    then have t: "target_ok (set_bits f b ?e)" by (simp add: target_ok_def P A)
    note ce = change_entry [OF r T va n t, folded s1_def]
    obtain x y where x: "invalidate_pagedir pd s1 = Some (s1\<lparr>cr3 := x, tlb := y\<rparr>)"
      using invalidate [OF dir_repD(3) [OF r], of s1] c by (auto simp: s1_def)
    define s' where "s' = (if b then s1 else s1\<lparr>cr3 := x, tlb := y\<rparr>)"
    have "set_pte_flag f pd va b s = Some s'"
      using lookup_rep(1) [OF r va n] n en x by (cases b) (simp_all add: set_pte_flag_def s'_def s1_def set_bits_def)
    moreover have r': "dir_rep s' pd T" and e': "\<And>v. v < 768 * 1024 \<Longrightarrow> pt_entry s' T v = (if v = ?u then set_bits f b ?e else pt_entry s T v)"
      using ce(1,2) by (simp_all add: s'_def)
    moreover have "targets_ok s' T" using ce(3) by (simp add: targets_ok_def s'_def)
    moreover have "pagedir_get_page pd v s' = pagedir_get_page pd v s" if "v < PHYS_BASE" for v
      unfolding get_page_rep [OF r that] get_page_rep [OF r' that] e' [OF user_page_index [OF that]] by (simp add: P A)
    moreover have "pte_flag g pd v s' = pte_flag g pd v s" if "v < PHYS_BASE" "g AND f = 0 \<or> pg_no v \<noteq> ?u" for v g
      unfolding flag_rep [OF r that(1)] flag_rep [OF r' that(1)] e' [OF user_page_index [OF that(1)]]
      using that(2) set_bits_other [of f g] by (auto simp: and.commute [of g f])
    moreover have "pte_flag f pd va s' = Some b"
      unfolding flag_rep [OF r' va] e' [OF user_page_index [OF va]] by (simp add: set_bits_same [OF f(1)])
    ultimately show ?thesis unfolding pagedir_ok_def by blast
  qed
qed

text \<open>
  C20 The dirty and the accessed bit of a mapped page: after one of them is set or cleared it reads as it was written, the other bit and the bits of every other
  page are as before, and so is the translation of every user address.
\<close>

theorem pagedir_flags_independent:
  assumes ok: "pagedir_ok s pd" and va: "va < PHYS_BASE" "pagedir_get_page pd va s \<noteq> Some NULL" and c: "cr3 s < PHYS_BASE"
  shows "\<exists>d a. pagedir_set_dirty pd va b s = Some d \<and> pagedir_set_accessed pd va b s = Some a \<and> pagedir_ok d pd \<and> pagedir_ok a pd \<and>
    pagedir_is_dirty pd va d = Some b \<and> pagedir_is_accessed pd va a = Some b \<and>
    (\<forall>v. v < PHYS_BASE \<longrightarrow> pagedir_get_page pd v d = pagedir_get_page pd v s \<and> pagedir_get_page pd v a = pagedir_get_page pd v s \<and>
      pagedir_is_accessed pd v d = pagedir_is_accessed pd v s \<and> pagedir_is_dirty pd v a = pagedir_is_dirty pd v s \<and>
      (pg_no v = pg_no va \<or> pagedir_is_dirty pd v d = pagedir_is_dirty pd v s \<and> pagedir_is_accessed pd v a = pagedir_is_accessed pd v s))"
proof -
  have f: "PTE_D \<noteq> 0" "PTE_D AND PTE_P = 0" "PTE_D AND PTE_ADDR = 0" "PTE_A \<noteq> 0" "PTE_A AND PTE_P = 0" "PTE_A AND PTE_ADDR = 0"
    "PTE_A AND PTE_D = 0" "PTE_D AND PTE_A = 0"
    by (simp_all add: PTE_D_def PTE_P_def PTE_ADDR_def PTE_A_def)
  show ?thesis
    using set_flag_effect [OF ok va(1) c f(1-3), of b] set_flag_effect [OF ok va(1) c f(4-6), of b] va(2) f(7,8)
    unfolding pagedir_set_dirty_def pagedir_set_accessed_def pagedir_is_dirty_def pagedir_is_accessed_def by metis
qed

section \<open>Creating a directory\<close>

lemma create_rep:
  assumes r: "dir_rep s (init_page_dir s) (\<lambda>_. NULL)"
  shows "(free_pages False (pgs s) = {} \<and> pagedir_create s = Some (NULL, s)) \<or>
    (\<exists>pd s'. pagedir_create s = Some (pd, s') \<and> pd \<noteq> init_page_dir s \<and> dir_rep s' pd (\<lambda>_. NULL) \<and>
       (\<forall>i<1024. load (pd + 4 * i) s' = load (init_page_dir s + 4 * i) s) \<and>
       pg_no pd \<in> free_pages False (pgs s) \<and> free_pages False (pgs s') = free_pages False (pgs s) - {pg_no pd} \<and>
       (\<forall>a. pg_no a \<noteq> pg_no pd \<longrightarrow> pmem (pgs s') a = pmem (pgs s) a) \<and> free_pages True (pgs s') = free_pages True (pgs s) \<and>
       (\<forall>v. all_pages v (pgs s') = all_pages v (pgs s)) \<and> init_page_dir s' = init_page_dir s \<and> init_ram_pages s' = init_ram_pages s)"
proof -
  let ?i = "init_page_dir s"
  note D = dir_repD [OF r]
  have f: "0 AND PAL_ASSERT = 0" "False \<longleftrightarrow> 0 AND PAL_USER \<noteq> 0" by simp_all
  from page_alloc [OF D(1) dir_rep_pools [OF r] f] show ?thesis
  proof (elim disjE exE conjE)
    assume "free_pages False (pgs s) = {}" "palloc_get_page 0 (pgs s) = Some (NULL, pgs s)"
    then show ?thesis by (simp add: pagedir_create_def)
  next
    fix pd g
    assume g: "palloc_get_page 0 (pgs s) = Some (pd, g)" and a: "page_taken False 0 pd (pgs s) g"
    note p = page_taken_use(1-3,5,6) [OF a] and k = a [unfolded page_taken_def]
    have nn: "pd \<noteq> NULL" "?i \<noteq> NULL" using kernel_page_vtop(2) p(1) D(3) by auto
    have ne: "pd \<noteq> ?i" using p(2) D(4) by auto
    have o: "pg_ofs pd = 0" "pg_ofs ?i = 0" using p(1) D(3) by (auto simp: kernel_page_def)
    let ?m = "\<lambda>a. if pd \<le> a \<and> a < pd + PGSIZE then pmem (pgs s) (?i + (a - pd)) else pmem (pgs s) a"
    let ?s = "s\<lparr>pgs := g\<lparr>pmem := ?m\<rparr>\<rparr>"
    have mg: "pmem g = pmem (pgs s)" using page_taken_use(7) [OF a] by (simp add: fun_eq_iff)
    have "pagedir_create s = Some (pd, ?s)"
      using memcpy_eq [OF nn pages_apart [OF o ne], of "pmem (pgs s)"] g nn mg by (simp add: pagedir_create_def)
    moreover have ld: "\<forall>i<1024. load (pd + 4 * i) ?s = load (?i + 4 * i) s"
      by (simp add: load_def rd32_def PGSIZE_def add.assoc)
    moreover have "dir_rep ?s pd (\<lambda>_. NULL)" unfolding dir_rep_def using p D(2) D(5) ld by simp
    moreover have "?m a = pmem (pgs s) a" if "pg_no a \<noteq> pg_no pd" for a using that in_page [OF o(1), of a] by auto
    ultimately show ?thesis using ne k by (intro disjI2 exI [of _ pd] exI [of _ ?s]) simp
  qed
qed

text \<open>
  C21 A new page directory: when a kernel page is free it is well formed and maps no user address, and its entries for kernel addresses are those of the
  initial directory. Otherwise null is returned and nothing has changed.
\<close>

theorem pagedir_create_empty:
  assumes r: "dir_rep s (init_page_dir s) (\<lambda>_. NULL)"
  shows "\<exists>pd s'. pagedir_create s = Some (pd, s') \<and>
    (if pd = NULL then s' = s \<and> free_pages False (pgs s) = {}
     else pd \<noteq> init_page_dir s \<and> pagedir_ok s' pd \<and> (\<forall>va. va < PHYS_BASE \<longrightarrow> pagedir_get_page pd va s' = Some NULL) \<and>
       (\<forall>i. i < 1024 \<longrightarrow> load (pd + 4 * i) s' = load (init_page_dir s + 4 * i) s))"
  using create_rep [OF r]
proof (elim disjE exE conjE)
  assume "free_pages False (pgs s) = {}" "pagedir_create s = Some (NULL, s)"
  then show ?thesis by simp
next
  fix pd s' assume s': "pagedir_create s = Some (pd, s')" "pd \<noteq> init_page_dir s" "dir_rep s' pd (\<lambda>_. NULL)"
    "\<forall>i<1024. load (pd + 4 * i) s' = load (init_page_dir s + 4 * i) s"
  have "pd \<noteq> NULL" using dir_repD(3) [OF s'(3)] kernel_page_vtop(2) by blast
  moreover have "targets_ok s' (\<lambda>_. NULL)" by (simp add: targets_ok_def target_ok_def pt_entry_def)
  moreover have "pagedir_get_page pd va s' = Some NULL" if "va < PHYS_BASE" for va
    by (simp add: get_page_rep [OF s'(3) that] pt_entry_def)
  ultimately show ?thesis using s' unfolding pagedir_ok_def by auto
qed

section \<open>A concrete memory\<close>

text \<open>
  Eight kernel pages and eight user pages; the directory is at page 1 above the base of physical memory, its first table at page 2, and the user page 1 is
  mapped to page 9. The initial directory, page 0, is empty.
\<close>

definition demo_mmu :: mmu where
  "demo_mmu = \<lparr>
     pgs = \<lparr>kernel_pool = \<lparr>used_map = \<lparr>bit_cnt = 8, bits = [7]\<rparr>, pool_base = 0xc0000000\<rparr>,
       user_pool = \<lparr>used_map = \<lparr>bit_cnt = 8, bits = [2]\<rparr>, pool_base = 0xc0008000\<rparr>,
       pmem = (\<lambda>_. 0)(0xc0001000 := 7, 0xc0001001 := 0x20, 0xc0002004 := 7, 0xc0002005 := 0x90)\<rparr>,
     cr3 = 0x1000, tlb = {1}, init_page_dir = 0xc0000000, init_ram_pages = 16\<rparr>"

lemma demo_load:
  "i < 1024 \<Longrightarrow> load (0xc0000000 + 4 * i) demo_mmu = 0"
  "i < 1024 \<Longrightarrow> load (0xc0001000 + 4 * i) demo_mmu = (if i = 0 then 0x2007 else 0)"
  "load (0xc0002000 + 4 * i) demo_mmu = (if i = 1 then 0x9007 else 0)"
proof -
  have a: "4 * i + k \<noteq> 0 \<longleftrightarrow> i \<noteq> 0 \<or> k \<noteq> 0" "4 * i + k = 4 \<longleftrightarrow> i = 1 \<and> k = 0" "4 * i + k = 5 \<longleftrightarrow> i = 1 \<and> k = 1"
    if "k < 4" for k :: nat using that by presburger+
  show "load (0xc0000000 + 4 * i) demo_mmu = 0" if "i < 1024" using that by (simp add: load_def rd32_def demo_mmu_def)
  show "load (0xc0001000 + 4 * i) demo_mmu = (if i = 0 then 0x2007 else 0)" if "i < 1024"
    using that by (simp add: load_def rd32_def demo_mmu_def)
  show "load (0xc0002000 + 4 * i) demo_mmu = (if i = 1 then 0x9007 else 0)"
    using a(2) [of 0] a(3) [of 0] a(2) [of 1] a(3) [of 1] a(2) [of 2] a(3) [of 2] a(2) [of 3] a(3) [of 3] by (simp add: load_def rd32_def demo_mmu_def)
qed

lemma demo_pools: "pages_ok (pgs demo_mmu)" "pg_no 0xc0000000 \<in> kernel_used (pgs demo_mmu)" "pg_no 0xc0001000 \<in> kernel_used (pgs demo_mmu)"
  "pg_no 0xc0002000 \<in> kernel_used (pgs demo_mmu)" "n \<in> all_pages u (pgs demo_mmu) \<Longrightarrow> kernel_page (PGSIZE * n)"
  by (auto simp: pages_ok_def pool_ok_def demo_mmu_def bm_wf_def elem_cnt_def ELEM_BITS_def pool_pages_def pool_free_def pool_sel_def bm_bits_def
      pg_ofs_def pg_no_def PGBITS_def PGSIZE_def kernel_page_def PHYS_BASE_def bit_simps split: if_splits)

lemma demo_rep:
  "dir_rep demo_mmu 0xc0000000 (\<lambda>_. NULL)" "dir_rep demo_mmu 0xc0001000 ((\<lambda>_. NULL)(0 := 0xc0002000))"
  using demo_pools demo_load by (auto simp: dir_rep_def kernel_page_def pg_ofs_def PGSIZE_def PHYS_BASE_def pde_val_def PTE_U_def PTE_P_def PTE_W_def)

lemma demo_entry: "pt_entry demo_mmu ((\<lambda>_. NULL)(0 := 0xc0002000)) u = (if u = 1 then 0x9007 else 0)"
  by (cases "u < 1024") (auto simp: pt_entry_def demo_load)

lemma demo_targets: "targets_ok demo_mmu ((\<lambda>_. NULL)(0 := 0xc0002000))"
proof -
  have "target_ok 0x9007"
    unfolding target_ok_def by (intro impI exI [of _ "0xc0009000"])
      (simp add: pte_get_page_def PTE_ADDR_def ptov_def PHYS_BASE_def kernel_page_def pg_ofs_def PGSIZE_def)
  then show ?thesis by (simp add: targets_ok_def demo_entry target_ok_def [of 0])
qed

lemma demo_pagedir_ok: "pagedir_ok demo_mmu 0xc0001000"
  using demo_rep(2) demo_targets unfolding pagedir_ok_def by blast

lemma demo_get_page: "va < PHYS_BASE \<Longrightarrow> pagedir_get_page 0xc0001000 va demo_mmu = Some (if pg_no va = 1 then 0xc0009000 + pg_ofs va else NULL)"
  by (simp add: get_page_rep [OF demo_rep(2)] demo_entry pte_get_page_def PTE_ADDR_def PTE_P_def ptov_def PHYS_BASE_def)

lemmas page_numbers = PHYS_BASE_def pg_no_def pg_ofs_def PGSIZE_def PGBITS_def

theorem pagedir_set_get_witness:
  "\<exists>s'. pagedir_set_page 0xc0001000 0x402000 0xc000a000 True demo_mmu = Some (True, s') \<and> pagedir_ok s' 0xc0001000 \<and>
    pagedir_get_page 0xc0001000 0x402004 s' = Some 0xc000a004 \<and> pagedir_get_page 0xc0001000 0x1008 s' = Some 0xc0009008"
proof -
  have p: "0xc0001000 \<noteq> init_page_dir demo_mmu" "kernel_page 0xc000a000" "(0xc000a000 - PHYS_BASE) div 2 ^ 12 < init_ram_pages demo_mmu"
    "0x402000 < PHYS_BASE" "pg_ofs 0x402000 = 0" "pagedir_get_page 0xc0001000 0x402000 demo_mmu = Some NULL"
    by (simp_all add: demo_get_page page_numbers kernel_page_def) (simp_all add: demo_mmu_def)
  have "pg_no 0xc0003000 \<in> free_pages False (pgs demo_mmu)"
    by (simp add: demo_mmu_def pool_free_def pool_pages_def pool_sel_def bm_bits_def bit_simps page_numbers)
  then obtain s' where "pagedir_set_page 0xc0001000 0x402000 0xc000a000 True demo_mmu = Some (True, s')" "pagedir_ok s' 0xc0001000"
    and g: "\<forall>va. va < PHYS_BASE \<longrightarrow> pagedir_get_page 0xc0001000 va s' =
       (if pg_no va = pg_no 0x402000 then Some (0xc000a000 + pg_ofs va) else pagedir_get_page 0xc0001000 va demo_mmu)"
    using pagedir_set_get [OF demo_pagedir_ok p, where writable = True] by (metis empty_iff)
  moreover have "pagedir_get_page 0xc0001000 0x402004 s' = Some 0xc000a004" "pagedir_get_page 0xc0001000 0x1008 s' = Some 0xc0009008"
    using g by (simp_all add: demo_get_page page_numbers)
  ultimately show ?thesis by blast
qed

theorem pagedir_clear_unmaps_witness:
  "\<exists>s'. pagedir_clear_page 0xc0001000 0x1000 demo_mmu = Some s' \<and> pagedir_ok s' 0xc0001000 \<and> tlb_ok s' 0xc0001000 \<and>
    pagedir_get_page 0xc0001000 0x1008 demo_mmu = Some 0xc0009008 \<and> pagedir_get_page 0xc0001000 0x1008 s' = Some NULL"
proof -
  have "tlb_ok demo_mmu 0xc0001000"
    using demo_get_page [of "0x1000"] by (simp add: tlb_ok_def page_numbers) (simp add: demo_mmu_def)
  moreover have "cr3 demo_mmu < PHYS_BASE" "0x1000 < PHYS_BASE" "pg_ofs 0x1000 = 0" by (simp_all add: demo_mmu_def page_numbers)
  ultimately obtain s' where "pagedir_clear_page 0xc0001000 0x1000 demo_mmu = Some s'" "pagedir_ok s' 0xc0001000" "tlb_ok s' 0xc0001000"
    and g: "\<forall>va. va < PHYS_BASE \<longrightarrow> pagedir_get_page 0xc0001000 va s' =
      (if pg_no va = pg_no 0x1000 then Some NULL else pagedir_get_page 0xc0001000 va demo_mmu)"
    using pagedir_clear_unmaps [OF demo_pagedir_ok, of "0x1000"] by blast
  moreover have "pagedir_get_page 0xc0001000 0x1008 demo_mmu = Some 0xc0009008" "pagedir_get_page 0xc0001000 0x1008 s' = Some NULL"
    using g by (simp_all add: demo_get_page page_numbers)
  ultimately show ?thesis by blast
qed

theorem pagedir_flags_independent_witness:
  "\<exists>d a. pagedir_set_dirty 0xc0001000 0x1000 True demo_mmu = Some d \<and> pagedir_set_accessed 0xc0001000 0x1000 True demo_mmu = Some a \<and>
    pagedir_is_dirty 0xc0001000 0x1000 d = Some True \<and> pagedir_is_accessed 0xc0001000 0x1000 a = Some True \<and>
    pagedir_get_page 0xc0001000 0x1000 d = Some 0xc0009000"
proof -
  have g: "pagedir_get_page 0xc0001000 0x1000 demo_mmu = Some 0xc0009000" by (simp add: demo_get_page page_numbers)
  have c: "cr3 demo_mmu < PHYS_BASE" "(0x1000 :: nat) < PHYS_BASE" by (simp_all add: demo_mmu_def PHYS_BASE_def)
  show ?thesis using pagedir_flags_independent [OF demo_pagedir_ok c(2) _ c(1), where b = True] g by (simp; metis c(2))
qed

theorem pagedir_create_empty_witness:
  "\<exists>pd s'. pagedir_create demo_mmu = Some (pd, s') \<and> pd \<noteq> NULL \<and> pagedir_ok s' pd \<and> pagedir_get_page pd 0x1000 s' = Some NULL"
proof -
  have "init_page_dir demo_mmu = 0xc0000000" by (simp add: demo_mmu_def)
  moreover have "pg_no 0xc0003000 \<in> free_pages False (pgs demo_mmu)"
    by (simp add: demo_mmu_def pool_free_def pool_pages_def pool_sel_def bm_bits_def bit_simps page_numbers)
  moreover have "(0x1000 :: nat) < PHYS_BASE" by (simp add: PHYS_BASE_def)
  ultimately show ?thesis using pagedir_create_empty [of demo_mmu] demo_rep(1) by (auto split: if_splits)
qed

end
