(* ===== verification/Page_Dir_Free.thy ===== *)
theory Page_Dir_Free
  imports Page_Dir "HOL-Library.Disjoint_Sets"
begin

text \<open>
  Destroying a page directory (\<^verbatim>\<open>pagedir_destroy\<close> of \<^verbatim>\<open>userprog/pagedir.c\<close>): the frames, the tables and the directory are given back to
  the pools they came from, each once. Freed pages are overwritten at once, so the proof rests on the tables that are still to be read
  not being among them.
\<close>

section \<open>Pages given back\<close>

abbreviation used_pages :: "pages \<Rightarrow> nat set" where
  "used_pages g \<equiv> (\<Union>v. all_pages v g - free_pages v g)"

text \<open>\<open>g'\<close> is \<open>g\<close> after the pages \<open>S\<close> are freed: their contents are arbitrary, that of the other pages is kept.\<close>

definition freed :: "nat set \<Rightarrow> pages \<Rightarrow> pages \<Rightarrow> bool" where
  "freed S g g' \<longleftrightarrow> pages_ok g' \<and> (\<forall>v. all_pages v g' = all_pages v g) \<and> (\<forall>v. free_pages v g' = free_pages v g \<union> S \<inter> all_pages v g) \<and>
     (\<forall>a. pg_no a \<notin> S \<longrightarrow> pmem g' a = pmem g a)"

lemma freed_empty: "pages_ok g \<Longrightarrow> freed {} g g"
  by (simp add: freed_def)

lemma freed_pages_ok: "freed S g g' \<Longrightarrow> pages_ok g'"
  by (simp add: freed_def)

lemma freed_trans: "freed S g g' \<Longrightarrow> freed S' g' g'' \<Longrightarrow> freed (S \<union> S') g g''"
  unfolding freed_def by auto

lemma freed_used: "freed S g g' \<Longrightarrow> used_pages g' = used_pages g - S"
  unfolding freed_def by auto

lemma freed_rd32:
  assumes "freed S g g'" "pg_ofs q = 0" "pg_no q \<notin> S" "j < 1024"
  shows "rd32 (pmem g') (q + 4 * j) = rd32 (pmem g) (q + 4 * j)"
proof (rule rd32_cong)
  fix i :: nat assume "i < 4"
  then have "4 * j + i < 4096" using assms(4) by simp
  then have "pg_no (q + 4 * j + i) = pg_no q" using assms(2) by (auto simp: pg_no_def pg_ofs_def PGSIZE_def PGBITS_def elim!: dvdE)
  then show "pmem g' (q + 4 * j + i) = pmem g (q + 4 * j + i)" using assms(1,3) by (simp add: freed_def)
qed

lemma free_page_freed:
  assumes ok: "pages_ok g" and p: "kernel_page p" "pg_no p \<in> used_pages g"
  shows "\<exists>g'. palloc_free_page p g = Some g' \<and> freed {pg_no p} g g'"
proof -
  obtain u where u: "page_range p 1 \<subseteq> all_pages u g - free_pages u g" using p(2) by auto
  have o: "pg_ofs p = 0" "p \<noteq> NULL" using p(1) kernel_page_vtop(2) by (auto simp: kernel_page_def)
  obtain g' where g': "palloc_free_page p g = Some g'" "pages_ok g'" "\<And>v. all_pages v g' = all_pages v g"
    "free_pages (\<not> u) g' = free_pages (\<not> u) g" "free_pages u g' = free_pages u g \<union> page_range p 1"
    "\<And>a. pmem g' a = (if p \<le> a \<and> a < p + PGSIZE * 1 then 0xcc else pmem g a)"
    using palloc_free_multiple_pool [OF ok zero_less_one o u] unfolding palloc_free_page_def by blast
  have "pg_no p \<notin> all_pages (\<not> u) g" using ok u by (cases u) (auto simp: pages_ok_sel)
  then have "free_pages v g' = free_pages v g \<union> {pg_no p} \<inter> all_pages v g" for v
    using g'(4,5) u by (cases "v = u") auto
  moreover have "pmem g' a = pmem g a" if "pg_no a \<notin> {pg_no p}" for a
  proof -
    have "\<not> (p \<le> a \<and> a < p + PGSIZE)" using in_page [OF o(1)] that by blast
    then show ?thesis by (auto simp: g'(6))
  qed
  ultimately show ?thesis using g'(1-3) by (auto simp: freed_def)
qed

section \<open>The two loops\<close>

text \<open>The entries of a table that are present, and the frame each points to.\<close>

definition present :: "(nat \<Rightarrow> u32) \<Rightarrow> nat set" where
  "present W = {u. W u AND PTE_P \<noteq> 0}"

definition frame_no :: "u32 \<Rightarrow> nat" where
  "frame_no e = pg_no (the (pte_get_page e))"

lemma target_frame:
  assumes "target_ok e" "e AND PTE_P \<noteq> 0"
  obtains p where "kernel_page p" "pte_get_page e = Some p" "frame_no e = pg_no p"
  using assms by (auto simp: target_ok_def frame_no_def)

lemma free_ptes_freed:
  assumes "pages_ok (pgs s)" "pg_ofs q = 0" "k + n \<le> 1024" "\<And>u. u \<in> {k ..< k + n} \<Longrightarrow> load (q + 4 * u) s = W u"
    "\<And>u. u \<in> {k ..< k + n} \<Longrightarrow> target_ok (W u)" "inj_on (frame_no \<circ> W) (present W \<inter> {k ..< k + n})"
    "frame_no ` W ` (present W \<inter> {k ..< k + n}) \<subseteq> used_pages (pgs s)" "pg_no q \<notin> frame_no ` W ` (present W \<inter> {k ..< k + n})"
  shows "\<exists>g. free_ptes n (q + 4 * k) s = Some (s\<lparr>pgs := g\<rparr>) \<and> freed (frame_no ` W ` (present W \<inter> {k ..< k + n})) (pgs s) g"
  using assms
proof (induction n arbitrary: k s)
  case 0
  then show ?case using freed_empty [of "pgs s"] by (intro exI [of _ "pgs s"]) simp
next
  case (Suc n)
  let ?I = "{k ..< k + Suc n}" and ?J = "{Suc k ..< Suc k + n}"
  have I: "?I = insert k ?J" by auto
  have l: "load (q + 4 * k) s = W k" using Suc.prems(4) by simp
  have nx: "free_ptes n (q + 4 * k + 4) = free_ptes n (q + 4 * Suc k)" by (simp add: ac_simps)
  show ?case
  proof (cases "W k AND PTE_P = 0")
    case True
    then have "present W \<inter> ?I = present W \<inter> ?J" unfolding I by (auto simp: present_def)
    then show ?thesis using Suc.IH [of s "Suc k"] Suc.prems True l nx by (simp add: I del: mult_Suc_right)
  next
    case False
    have S: "present W \<inter> ?I = insert k (present W \<inter> ?J)" using False unfolding I by (auto simp: present_def)
    obtain p where p: "kernel_page p" "pte_get_page (W k) = Some p" "frame_no (W k) = pg_no p"
      by (rule target_frame [OF Suc.prems(5) False]) auto
    obtain g where g: "palloc_free_page p (pgs s) = Some g" "freed {pg_no p} (pgs s) g"
      using free_page_freed [OF Suc.prems(1) p(1)] Suc.prems(7) p(3) S by auto
    have qp: "pg_no q \<notin> {pg_no p}" using Suc.prems(8) p(3) S by auto
    let ?s = "s\<lparr>pgs := g\<rparr>"
    have "load (q + 4 * u) ?s = W u" if "u \<in> ?J" for u
      using freed_rd32 [OF g(2) Suc.prems(2) qp] Suc.prems(3,4) that by (simp add: load_def)
    moreover have "frame_no ` W ` (present W \<inter> ?J) \<subseteq> used_pages g"
      unfolding freed_used [OF g(2)] using Suc.prems(6,7) [unfolded S] p(3) by (auto simp: inj_on_def)
    ultimately obtain g' where g': "free_ptes n (q + 4 * Suc k) ?s = Some (?s\<lparr>pgs := g'\<rparr>)" "freed (frame_no ` W ` (present W \<inter> ?J)) g g'"
      using Suc.IH [of ?s "Suc k"] g(2) Suc.prems(2,3,5) Suc.prems(6,8) [unfolded S] by (auto simp: freed_def)
    have "freed (frame_no ` W ` (present W \<inter> ?I)) (pgs s) g'"
      using freed_trans [OF g(2) g'(2)] p(3) unfolding S by simp
    then show ?thesis using False l p(2) g(1) g'(1) nx by (auto simp del: mult_Suc_right)
  qed
qed

text \<open>The pages that directory entry \<open>i\<close> owns: the table \<open>T i\<close> and the frames of its entries \<open>W i\<close>. The entry is ready when the loop can free them.\<close>

definition owned :: "(nat \<Rightarrow> addr) \<Rightarrow> (nat \<Rightarrow> nat \<Rightarrow> u32) \<Rightarrow> nat \<Rightarrow> nat set" where
  "owned T W i = (if T i = NULL then {} else insert (pg_no (T i)) (frame_no ` W i ` (present (W i) \<inter> {0 ..< 1024})))"

definition table_ready :: "pages \<Rightarrow> addr \<Rightarrow> (nat \<Rightarrow> addr) \<Rightarrow> (nat \<Rightarrow> nat \<Rightarrow> u32) \<Rightarrow> nat \<Rightarrow> bool" where
  "table_ready g pd T W i \<longleftrightarrow> rd32 (pmem g) (pd + 4 * i) = (if T i = NULL then 0 else pde_val (T i)) \<and>
     pg_no pd \<notin> owned T W i \<and> owned T W i \<subseteq> used_pages g \<and>
     (T i \<noteq> NULL \<longrightarrow> kernel_page (T i) \<and> (\<forall>j<1024. rd32 (pmem g) (T i + 4 * j) = W i j \<and> target_ok (W i j)) \<and>
        inj_on (frame_no \<circ> W i) (present (W i) \<inter> {0 ..< 1024}) \<and> pg_no (T i) \<notin> frame_no ` W i ` (present (W i) \<inter> {0 ..< 1024}))"

lemma ready_freed:
  assumes r: "table_ready g pd T W i" and f: "freed S g g'" and pd: "pg_ofs pd = 0" "pg_no pd \<notin> S" and i: "i < 1024" and S: "owned T W i \<inter> S = {}"
  shows "table_ready g' pd T W i"
proof -
  have "rd32 (pmem g') (pd + 4 * i) = rd32 (pmem g) (pd + 4 * i)" by (rule freed_rd32 [OF f pd i])
  moreover have "owned T W i \<subseteq> used_pages g'" using r S unfolding freed_used [OF f] table_ready_def by blast
  moreover have "rd32 (pmem g') (T i + 4 * j) = rd32 (pmem g) (T i + 4 * j)" if "T i \<noteq> NULL" "j < 1024" for j
    using freed_rd32 [OF f _ _ that(2), of "T i"] r S that(1) by (simp add: table_ready_def owned_def kernel_page_def)
  ultimately show ?thesis using r by (simp add: table_ready_def)
qed

lemma free_table:
  assumes ok: "pages_ok (pgs s)" and r: "table_ready (pgs s) pd T W i" and n: "T i \<noteq> NULL"
  shows "\<exists>g g'. free_ptes (PGSIZE div 4) (T i) s = Some (s\<lparr>pgs := g\<rparr>) \<and> palloc_free_page (T i) g = Some g' \<and> freed (owned T W i) (pgs s) g'"
proof -
  let ?F = "frame_no ` W i ` (present (W i) \<inter> {0 ..< 1024})"
  have R: "kernel_page (T i)" "\<And>j. j < 1024 \<Longrightarrow> rd32 (pmem (pgs s)) (T i + 4 * j) = W i j" "\<And>j. j < 1024 \<Longrightarrow> target_ok (W i j)"
    "inj_on (frame_no \<circ> W i) (present (W i) \<inter> {0 ..< 1024})" "pg_no (T i) \<notin> ?F" "pg_no (T i) \<in> used_pages (pgs s)" "?F \<subseteq> used_pages (pgs s)"
    using r n unfolding table_ready_def owned_def by auto
  have "\<exists>g. free_ptes 1024 (T i + 4 * 0) s = Some (s\<lparr>pgs := g\<rparr>) \<and> freed (frame_no ` W i ` (present (W i) \<inter> {0 ..< 0 + 1024})) (pgs s) g"
    by (rule free_ptes_freed [OF ok]) (use R in \<open>auto simp: kernel_page_def load_def\<close>)
  then obtain g where g: "free_ptes (PGSIZE div 4) (T i) s = Some (s\<lparr>pgs := g\<rparr>)" "freed ?F (pgs s) g" by (auto simp: PGSIZE_def)
  have "pg_no (T i) \<in> used_pages g" unfolding freed_used [OF g(2)] using R(5,6) by blast
  then obtain g' where g': "palloc_free_page (T i) g = Some g'" "freed {pg_no (T i)} g g'"
    using free_page_freed [OF freed_pages_ok [OF g(2)] R(1)] by blast
  have "freed (owned T W i) (pgs s) g'" using freed_trans [OF g(2) g'(2)] n by (simp add: owned_def)
  then show ?thesis using g(1) g'(1) by blast
qed

lemma free_pdes_freed:
  assumes "pages_ok (pgs s)" "pg_ofs pd = 0" "k + n \<le> 1024" "\<And>i. i \<in> {k ..< k + n} \<Longrightarrow> table_ready (pgs s) pd T W i"
    "disjoint_family_on (owned T W) {k ..< k + n}"
  shows "\<exists>g. free_pdes n (pd + 4 * k) s = Some (s\<lparr>pgs := g\<rparr>) \<and> freed (\<Union>i\<in>{k ..< k + n}. owned T W i) (pgs s) g"
  using assms
proof (induction n arbitrary: k s)
  case 0
  then show ?case using freed_empty [of "pgs s"] by (intro exI [of _ "pgs s"]) simp
next
  case (Suc n)
  let ?I = "{k ..< k + Suc n}" and ?J = "{Suc k ..< Suc k + n}"
  have I: "?I = insert k ?J" by auto
  have nx: "free_pdes n (pd + 4 * k + 4) = free_pdes n (pd + 4 * Suc k)" by (simp add: ac_simps)
  have d: "disjoint_family_on (owned T W) ?J" "\<And>i. i \<in> ?J \<Longrightarrow> owned T W i \<inter> owned T W k = {}"
    using Suc.prems(5) unfolding I by (auto simp: disjoint_family_on_def)
  have rk: "table_ready (pgs s) pd T W k" by (rule Suc.prems(4)) simp
  have l: "load (pd + 4 * k) s = (if T k = NULL then 0 else pde_val (T k))" using rk by (simp add: table_ready_def load_def)
  show ?case
  proof (cases "T k = NULL")
    case True
    then have "(\<Union>i\<in>?I. owned T W i) = (\<Union>i\<in>?J. owned T W i)" unfolding I by (simp add: owned_def)
    then show ?thesis using Suc.IH [of s "Suc k"] Suc.prems(1-4) d(1) True l nx by (simp del: mult_Suc_right)
  next
    case False
    obtain g1 g where g: "free_ptes (PGSIZE div 4) (T k) s = Some (s\<lparr>pgs := g1\<rparr>)" "palloc_free_page (T k) g1 = Some g"
      "freed (owned T W k) (pgs s) g"
      using free_table [OF Suc.prems(1) rk False] by blast
    have k: "kernel_page (T k)" "pg_no pd \<notin> owned T W k" using rk False by (auto simp: table_ready_def)
    let ?s = "s\<lparr>pgs := g\<rparr>"
    have "table_ready (pgs ?s) pd T W i" if "i \<in> ?J" for i
      using ready_freed [OF _ g(3) Suc.prems(2) k(2) _ d(2) [OF that]] Suc.prems(3,4) that by simp
    then obtain g' where g': "free_pdes n (pd + 4 * Suc k) ?s = Some (?s\<lparr>pgs := g'\<rparr>)" "freed (\<Union>i\<in>?J. owned T W i) g g'"
      using Suc.IH [of ?s "Suc k"] freed_pages_ok [OF g(3)] Suc.prems(2,3) d(1) by auto
    have "load (pd + 4 * k) s AND PTE_P \<noteq> 0" "pde_get_pt (load (pd + 4 * k) s) = Some (T k)"
      using l False pde_val(2) [OF k(1)] by (auto simp: pde_get_pt_def split: if_splits)
    moreover have "freed (\<Union>i\<in>?I. owned T W i) (pgs s) g'" using freed_trans [OF g(3) g'(2)] unfolding I by simp
    ultimately show ?thesis using g(1,2) g'(1) nx by (auto simp del: mult_Suc_right)
  qed
qed

section \<open>The whole directory\<close>

definition mapped :: "mmu \<Rightarrow> (nat \<Rightarrow> addr) \<Rightarrow> nat set" where
  "mapped s T = {u. u < 768 * 1024 \<and> pt_entry s T u AND PTE_P \<noteq> 0}"

definition frames :: "mmu \<Rightarrow> (nat \<Rightarrow> addr) \<Rightarrow> nat set" where
  "frames s T = (\<lambda>u. frame_no (pt_entry s T u)) ` mapped s T"

text \<open>The directory alone owns its frames: they are in use, no two user pages share one, and none is a table or the directory.\<close>

definition exclusive :: "mmu \<Rightarrow> addr \<Rightarrow> (nat \<Rightarrow> addr) \<Rightarrow> bool" where
  "exclusive s pd T \<longleftrightarrow> inj_on (\<lambda>u. frame_no (pt_entry s T u)) (mapped s T) \<and> frames s T \<subseteq> used_pages (pgs s) \<and>
     frames s T \<inter> insert (pg_no pd) (tables T) = {}"

text \<open>The entries of table \<open>i\<close>.\<close>

abbreviation rows :: "mmu \<Rightarrow> (nat \<Rightarrow> addr) \<Rightarrow> nat \<Rightarrow> nat \<Rightarrow> u32" where
  "rows s T \<equiv> \<lambda>i j. pt_entry s T (1024 * i + j)"

lemma row_mapped: "i < 768 \<Longrightarrow> j \<in> present (rows s T i) \<inter> {0 ..< 1024} \<longleftrightarrow> j < 1024 \<and> 1024 * i + j \<in> mapped s T"
  by (auto simp: present_def mapped_def)

lemma owned_rows:
  assumes "i < 768" "T i \<noteq> NULL"
  shows "x \<in> owned T (rows s T) i \<longleftrightarrow> x = pg_no (T i) \<or> (\<exists>u\<in>mapped s T. u div 1024 = i \<and> x = frame_no (pt_entry s T u))"
proof -
  have "x \<in> frame_no ` rows s T i ` (present (rows s T i) \<inter> {0 ..< 1024}) \<longleftrightarrow> (\<exists>j<1024. 1024 * i + j \<in> mapped s T \<and> x = frame_no (pt_entry s T (1024 * i + j)))"
    using row_mapped [OF assms(1), of _ s T] by blast
  also have "\<dots> \<longleftrightarrow> (\<exists>u\<in>mapped s T. u div 1024 = i \<and> x = frame_no (pt_entry s T u))"
  proof
    assume "\<exists>u\<in>mapped s T. u div 1024 = i \<and> x = frame_no (pt_entry s T u)"
    then obtain u where "u \<in> mapped s T" "u div 1024 = i" "x = frame_no (pt_entry s T u)" by blast
    moreover have "u = 1024 * i + u mod 1024" using calculation(2) by (metis mult_div_mod_eq)
    ultimately show "\<exists>j<1024. 1024 * i + j \<in> mapped s T \<and> x = frame_no (pt_entry s T (1024 * i + j))"
      by (metis mod_less_divisor zero_less_numeral)
  next
    assume "\<exists>j<1024. 1024 * i + j \<in> mapped s T \<and> x = frame_no (pt_entry s T (1024 * i + j))"
    then obtain j where "j < 1024" "1024 * i + j \<in> mapped s T" "x = frame_no (pt_entry s T (1024 * i + j))" by blast
    moreover have "(1024 * i + j) div 1024 = i" using calculation(1) by simp
    ultimately show "\<exists>u\<in>mapped s T. u div 1024 = i \<and> x = frame_no (pt_entry s T u)" by blast
  qed
  finally show ?thesis using assms(2) by (simp add: owned_def)
qed

lemma mapped_table: "u \<in> mapped s T \<Longrightarrow> u div 1024 < 768 \<and> T (u div 1024) \<noteq> NULL"
  by (auto simp: mapped_def pt_entry_def split: if_splits)

lemma owned_all: "(\<Union>i\<in>{0 ..< 768}. owned T (rows s T) i) = tables T \<union> frames s T"
proof (rule set_eqI)
  fix x
  have "x \<in> (\<Union>i\<in>{0 ..< 768}. owned T (rows s T) i) \<longleftrightarrow>
    (\<exists>i<768. T i \<noteq> NULL \<and> (x = pg_no (T i) \<or> (\<exists>u\<in>mapped s T. u div 1024 = i \<and> x = frame_no (pt_entry s T u))))"
    using owned_rows [of _ T x s] by (auto simp: owned_def)
  also have "\<dots> \<longleftrightarrow> x \<in> tables T \<union> frames s T" using mapped_table [of _ s T] by (auto simp: tables_def frames_def)
  finally show "x \<in> (\<Union>i\<in>{0 ..< 768}. owned T (rows s T) i) \<longleftrightarrow> x \<in> tables T \<union> frames s T" .
qed

lemma rows_disjoint:
  assumes r: "dir_rep s pd T" and x: "exclusive s pd T"
  shows "disjoint_family_on (owned T (rows s T)) {0 ..< 768}"
  unfolding disjoint_family_on_def
proof (intro ballI impI equals0I)
  fix i k y assume i: "i \<in> {0 ..< 768}" "k \<in> {0 ..< 768}" "i \<noteq> k" and y: "y \<in> owned T (rows s T) i \<inter> owned T (rows s T) k"
  have n: "T i \<noteq> NULL" "T k \<noteq> NULL" using y by (auto simp: owned_def split: if_splits)
  have yi: "y = pg_no (T i) \<or> (\<exists>u\<in>mapped s T. u div 1024 = i \<and> y = frame_no (pt_entry s T u))"
    and yk: "y = pg_no (T k) \<or> (\<exists>u\<in>mapped s T. u div 1024 = k \<and> y = frame_no (pt_entry s T u))"
    using y owned_rows [of i T y s] owned_rows [of k T y s] i n by auto
  have t: "pg_no (T i) \<in> tables T" "pg_no (T k) \<in> tables T" using i n by (auto simp: tables_def)
  have "pg_no (T i) \<noteq> pg_no (T k)"
    using dir_repD(6) [OF r, of i] dir_repD(6) [OF r, of k] dir_repD(10) [OF r, of i k] i n pg_split [of "T i"] pg_split [of "T k"]
    by (auto simp: kernel_page_def)
  moreover have "y \<in> frames s T \<Longrightarrow> y \<notin> tables T" using x by (auto simp: exclusive_def)
  moreover have "u = v" if "u \<in> mapped s T" "v \<in> mapped s T" "frame_no (pt_entry s T u) = frame_no (pt_entry s T v)" for u v
    using x that by (auto simp: exclusive_def inj_on_def)
  moreover have "frame_no (pt_entry s T u) \<in> frames s T" if "u \<in> mapped s T" for u using that by (auto simp: frames_def)
  ultimately show False using yi yk t i(3) by metis
qed

lemma rows_ready:
  assumes r: "dir_rep s pd T" and T: "targets_ok s T" and x: "exclusive s pd T" and i: "i < 768"
  shows "table_ready (pgs s) pd T (rows s T) i"
proof (cases "T i = NULL")
  case True
  then show ?thesis using dir_repD(5) [OF r i] by (simp add: table_ready_def owned_def load_def)
next
  case n: False
  note D = dir_repD [OF r]
  have X: "frames s T \<subseteq> used_pages (pgs s)" "frames s T \<inter> insert (pg_no pd) (tables T) = {}" using x by (auto simp: exclusive_def)
  have t: "pg_no (T i) \<in> tables T" using i n by (auto simp: tables_def)
  have F: "frame_no ` rows s T i ` (present (rows s T i) \<inter> {0 ..< 1024}) \<subseteq> frames s T"
    using row_mapped [OF i, of _ s T] unfolding frames_def by blast
  have u: "pg_no (T i) \<in> used_pages (pgs s)" using D(7) [OF i n] by blast
  have "pg_no pd \<noteq> pg_no (T i)" using D(3) D(6) [OF i n] D(8) [OF i n] pg_split [of pd] pg_split [of "T i"] by (auto simp: kernel_page_def)
  then have "pg_no pd \<notin> owned T (rows s T) i" "owned T (rows s T) i \<subseteq> used_pages (pgs s)" using F X u n by (auto simp: owned_def)
  moreover have "pg_no (T i) \<notin> frame_no ` rows s T i ` (present (rows s T i) \<inter> {0 ..< 1024})" using F X(2) t by blast
  moreover have "inj_on (frame_no \<circ> rows s T i) (present (rows s T i) \<inter> {0 ..< 1024})"
  proof (rule inj_onI)
    fix a b assume "a \<in> present (rows s T i) \<inter> {0 ..< 1024}" "b \<in> present (rows s T i) \<inter> {0 ..< 1024}"
      and e: "(frame_no \<circ> rows s T i) a = (frame_no \<circ> rows s T i) b"
    then have m: "1024 * i + a \<in> mapped s T" "1024 * i + b \<in> mapped s T" using row_mapped [OF i, of _ s T] by blast+
    have "inj_on (\<lambda>u. frame_no (pt_entry s T u)) (mapped s T)" using x unfolding exclusive_def by (elim conjE)
    from inj_onD [OF this _ m] have "1024 * i + a = 1024 * i + b" using e unfolding comp_def by blast
    then show "a = b" by simp
  qed
  moreover have "rd32 (pmem (pgs s)) (T i + 4 * j) = rows s T i j \<and> target_ok (rows s T i j)" if "j < 1024" for j
  proof
    show "rd32 (pmem (pgs s)) (T i + 4 * j) = rows s T i j" using that n by (simp add: pt_entry_def load_def)
    have "1024 * i + j < 768 * 1024" using i that by linarith
    then show "target_ok (rows s T i j)" using T by (simp only: targets_ok_def)
  qed
  ultimately show ?thesis using n D(6) [OF i n] D(9) [OF i n] by (simp add: table_ready_def load_def)
qed

lemma destroy_rep:
  assumes r: "dir_rep s pd T" and T: "targets_ok s T" and x: "exclusive s pd T" and pd: "pd \<noteq> init_page_dir s"
  shows "\<exists>s'. pagedir_destroy pd s = Some s' \<and> pages_ok (pgs s') \<and>
    (\<forall>v. all_pages v (pgs s') = all_pages v (pgs s) \<and>
      free_pages v (pgs s') = free_pages v (pgs s) \<union> all_pages v (pgs s) \<inter> (insert (pg_no pd) (tables T \<union> frames s T)))"
proof -
  note D = dir_repD [OF r]
  have o: "pg_ofs pd = 0" "pd \<noteq> NULL" using D(3) kernel_page_vtop(2) by (auto simp: kernel_page_def)
  have "\<exists>g. free_pdes 768 (pd + 4 * 0) s = Some (s\<lparr>pgs := g\<rparr>) \<and> freed (\<Union>i\<in>{0 ..< 0 + 768}. owned T (rows s T) i) (pgs s) g"
    by (rule free_pdes_freed [OF D(1) o(1)]) (use rows_ready [OF r T x] rows_disjoint [OF r x] in auto)
  then obtain g where g: "free_pdes 768 pd s = Some (s\<lparr>pgs := g\<rparr>)" "freed (tables T \<union> frames s T) (pgs s) g"
    unfolding add_0 owned_all by auto
  have "pg_no pd \<notin> tables T \<union> frames s T"
  proof -
    have "pg_no pd \<noteq> pg_no (T i)" if "i < 768" "T i \<noteq> NULL" for i
      using D(3) D(6) [OF that] D(8) [OF that] pg_split [of pd] pg_split [of "T i"] by (auto simp: kernel_page_def)
    then show ?thesis using x by (auto simp: tables_def exclusive_def)
  qed
  then have "pg_no pd \<in> used_pages g" unfolding freed_used [OF g(2)] using D(4) by blast
  then obtain g' where g': "palloc_free_page pd g = Some g'" "freed {pg_no pd} g g'"
    using free_page_freed [OF freed_pages_ok [OF g(2)] D(3)] by blast
  have "pd_no PHYS_BASE = 768" by (simp add: pd_no_def PHYS_BASE_def)
  then have "pagedir_destroy pd s = Some (s\<lparr>pgs := g'\<rparr>)" using g(1) g'(1) o(2) pd by (simp add: pagedir_destroy_def)
  moreover have "freed (insert (pg_no pd) (tables T \<union> frames s T)) (pgs s) g'" using freed_trans [OF g(2) g'(2)] by simp
  ultimately show ?thesis by (auto simp: freed_def)
qed

text \<open>
  C19 Destroying a page directory that alone owns its frames: it does not fail, and the frames, the page tables and the directory, and no other page, are
  free afterwards in the pools they came from.
\<close>

theorem pagedir_destroy_frees:
  assumes r: "dir_rep s pd T" and T: "targets_ok s T" and x: "exclusive s pd T" and pd: "pd \<noteq> init_page_dir s"
  shows "\<exists>s'. pagedir_destroy pd s = Some s' \<and> pages_ok (pgs s') \<and>
    (\<forall>v. all_pages v (pgs s') = all_pages v (pgs s) \<and>
      free_pages v (pgs s') = free_pages v (pgs s) \<union> all_pages v (pgs s) \<inter> (insert (pg_no pd) (tables T \<union> frames s T)))"
  by (rule destroy_rep [OF assms])

lemma demo_pool_sets:
  "all_pages False (pgs demo_mmu) = {0xc0000 ..< 0xc0008}" "free_pages False (pgs demo_mmu) = {0xc0003 ..< 0xc0008}"
  "all_pages True (pgs demo_mmu) = {0xc0008 ..< 0xc0010}" "free_pages True (pgs demo_mmu) = {0xc0008 ..< 0xc0010} - {0xc0009}"
proof -
  show "all_pages False (pgs demo_mmu) = {0xc0000 ..< 0xc0008}" "all_pages True (pgs demo_mmu) = {0xc0008 ..< 0xc0010}"
    by (simp_all add: demo_mmu_def pool_sel_def pool_pages_def page_numbers)
  have "bit (7 :: u32) i \<longleftrightarrow> i < 3" "bit (2 :: u32) i \<longleftrightarrow> i = 1" for i
    using bit_imp_le_length [of "7 :: u32" i] bit_imp_le_length [of "2 :: u32" i]
    by (auto simp: bit_numeral_rec bit_1_iff split: nat.splits)
  then have b: "bm_bits \<lparr>bit_cnt = 8, bits = [7]\<rparr> ! i \<longleftrightarrow> i < 3" "bm_bits \<lparr>bit_cnt = 8, bits = [2]\<rparr> ! i \<longleftrightarrow> i = 1" if "i < 8" for i
    using that by (simp_all add: bm_bits_def) force+
  show "free_pages False (pgs demo_mmu) = {0xc0003 ..< 0xc0008}" "free_pages True (pgs demo_mmu) = {0xc0008 ..< 0xc0010} - {0xc0009}"
    using b by (auto simp: demo_mmu_def pool_free_def pool_sel_def pool_pages_def pg_no_def PGBITS_def) linarith+
qed

lemma demo_frames:
  "frames demo_mmu ((\<lambda>_. NULL)(0 := 0xc0002000)) = {0xc0009}" "tables ((\<lambda>_. NULL)(0 := 0xc0002000)) = {0xc0002}"
  "exclusive demo_mmu 0xc0001000 ((\<lambda>_. NULL)(0 := 0xc0002000))"
proof -
  let ?T = "(\<lambda>_. NULL)(0 := 0xc0002000)"
  have m: "mapped demo_mmu ?T = {1}" by (auto simp: mapped_def demo_entry PTE_P_def)
  show f: "frames demo_mmu ?T = {0xc0009}" "tables ?T = {0xc0002}"
    by (simp_all add: frames_def m demo_entry frame_no_def pte_get_page_def PTE_ADDR_def ptov_def tables_def page_numbers)
  show "exclusive demo_mmu 0xc0001000 ?T"
    by (auto simp: exclusive_def m f page_numbers) (rule exI [of _ True], simp add: demo_pool_sets)
qed

theorem pagedir_destroy_frees_witness:
  "\<exists>s'. pagedir_destroy 0xc0001000 demo_mmu = Some s' \<and> pages_ok (pgs s') \<and> free_pages True (pgs s') = {0xc0008 ..< 0xc0010} \<and>
    free_pages False (pgs s') = {0xc0001 ..< 0xc0008}"
proof -
  have n: "0xc0001000 \<noteq> init_page_dir demo_mmu" by (simp add: demo_mmu_def)
  show ?thesis using pagedir_destroy_frees [OF demo_rep(2) demo_targets demo_frames(3) n]
    by (auto simp: demo_pool_sets demo_frames(1,2) pg_no_def PGBITS_def)
qed

end
