(* ===== verification/Block_Alloc.thy ===== *)
theory Block_Alloc
  imports Page_Alloc
begin

text \<open>
  The block allocator (\<^verbatim>\<open>threads/malloc.c\<close>): descriptors for the block sizes 16 to 1024, each with the list of its free blocks, and
  arenas, the pages that are cut into blocks or, for big requests, runs of pages. The operations are the code under
  the descriptors' locks. The arena headers and the links in free blocks are kept apart from the byte memory, where they
  occupy bytes that belong to no block handed out. Sizes are 32-bit numbers, with the wrap-around written out.
\<close>

section \<open>Data\<close>

record desc =
  block_size :: nat
  blocks_per_arena :: nat
  free_list :: "addr list"

definition ARENA_MAGIC :: u32 where "ARENA_MAGIC = 0x9a548eed"

text \<open>The owning descriptor is an index into \<open>descs\<close>, or \<open>None\<close> for the null pointer.\<close>

record arena =
  arena_magic :: u32
  arena_desc :: "nat option"
  free_cnt :: nat

definition sizeof_arena :: nat where "sizeof_arena = 12"

record heap =
  hpages :: pages
  descs :: "desc list"
  arenas :: "addr \<Rightarrow> arena"

definition size_sub :: "nat \<Rightarrow> nat \<Rightarrow> nat" where
  "size_sub a b = (a + 2 ^ 32 - b) mod 2 ^ 32"

definition set_free_list :: "nat \<Rightarrow> addr list \<Rightarrow> heap \<Rightarrow> heap" where
  "set_free_list i l h = h\<lparr>descs := (descs h)[i := (descs h ! i)\<lparr>free_list := l\<rparr>]\<rparr>"

definition set_arena :: "addr \<Rightarrow> arena \<Rightarrow> heap \<Rightarrow> heap" where
  "set_arena a v h = h\<lparr>arenas := (arenas h)(a := v)\<rparr>"

section \<open>Operations\<close>

partial_function (option) desc_loop :: "nat \<Rightarrow> desc list \<Rightarrow> desc list option" where
  "desc_loop bs ds =
     (if bs < PGSIZE div 2
      then do {
        ASSERT (length ds + 1 \<le> 10);
        desc_loop (bs * 2) (ds @ [\<lparr>block_size = bs, blocks_per_arena = (PGSIZE - sizeof_arena) div bs, free_list = []\<rparr>]) }
      else Some ds)"

definition malloc_init :: "pages \<Rightarrow> (addr \<Rightarrow> arena) \<Rightarrow> heap option" where
  "malloc_init pg ar = do { ds \<leftarrow> desc_loop 16 []; Some \<lparr>hpages = pg, descs = ds, arenas = ar\<rparr> }"

definition block_to_arena :: "addr \<Rightarrow> heap \<Rightarrow> addr option" where
  "block_to_arena b h = do {
     let a = pg_round_down b;
     ASSERT (a \<noteq> NULL);
     ASSERT (arena_magic (arenas h a) = ARENA_MAGIC);
     ASSERT (case arena_desc (arenas h a) of
         Some d \<Rightarrow> size_sub (pg_ofs b) sizeof_arena mod block_size (descs h ! d) = 0
       | None \<Rightarrow> pg_ofs b = sizeof_arena);
     Some a }"

definition arena_to_block :: "addr \<Rightarrow> nat \<Rightarrow> heap \<Rightarrow> addr option" where
  "arena_to_block a idx h = do {
     ASSERT (a \<noteq> NULL);
     ASSERT (arena_magic (arenas h a) = ARENA_MAGIC);
     d \<leftarrow> arena_desc (arenas h a);
     ASSERT (idx < blocks_per_arena (descs h ! d));
     Some (a + sizeof_arena + idx * block_size (descs h ! d)) }"

primrec find_desc :: "nat \<Rightarrow> nat \<Rightarrow> desc list \<Rightarrow> nat option" where
  "find_desc sz i [] = None"
| "find_desc sz i (d # ds) = (if block_size d \<ge> sz then Some i else find_desc sz (i + 1) ds)"

fun add_blocks :: "nat \<Rightarrow> addr \<Rightarrow> nat \<Rightarrow> nat \<Rightarrow> heap \<Rightarrow> heap option" where
  "add_blocks 0 a d i h = Some h"
| "add_blocks (Suc n) a d i h = do {
     b \<leftarrow> arena_to_block a i h;
     add_blocks n a d (i + 1) (set_free_list d (free_list (descs h ! d) @ [b]) h) }"

text \<open>The descriptor's free list when it is empty: a new arena, or \<open>Inl\<close> if there is no page.\<close>

definition new_arena :: "nat \<Rightarrow> heap \<Rightarrow> (heap + heap) option" where
  "new_arena d h = do {
     (a, pg) \<leftarrow> palloc_get_page 0 (hpages h);
     let h = h\<lparr>hpages := pg\<rparr>;
     if a = NULL then Some (Inl h)
     else do {
       let h = set_arena a \<lparr>arena_magic = ARENA_MAGIC, arena_desc = Some d, free_cnt = blocks_per_arena (descs h ! d)\<rparr> h;
       h \<leftarrow> add_blocks (blocks_per_arena (descs h ! d)) a d 0 h;
       Some (Inr h) } }"

definition pop_block :: "nat \<Rightarrow> heap \<Rightarrow> (addr \<times> heap) option" where
  "pop_block d h = do {
     ASSERT (free_list (descs h ! d) \<noteq> []);
     let b = hd (free_list (descs h ! d));
     let h = set_free_list d (tl (free_list (descs h ! d))) h;
     a \<leftarrow> block_to_arena b h;
     Some (b, set_arena a ((arenas h a)\<lparr>free_cnt := size_sub (free_cnt (arenas h a)) 1\<rparr>) h) }"

definition malloc_big :: "nat \<Rightarrow> heap \<Rightarrow> (addr \<times> heap) option" where
  "malloc_big sz h = do {
     let page_cnt = (sz + sizeof_arena + PGSIZE - 1) mod 2 ^ 32 div PGSIZE;
     (a, pg) \<leftarrow> palloc_get_multiple 0 page_cnt (hpages h);
     let h = h\<lparr>hpages := pg\<rparr>;
     if a = NULL then Some (NULL, h)
     else Some (a + sizeof_arena, set_arena a \<lparr>arena_magic = ARENA_MAGIC, arena_desc = None, free_cnt = page_cnt\<rparr> h) }"

definition malloc :: "nat \<Rightarrow> heap \<Rightarrow> (addr \<times> heap) option" where
  "malloc sz h =
     (if sz = 0 then Some (NULL, h)
      else case find_desc sz 0 (descs h) of
        None \<Rightarrow> malloc_big sz h
      | Some d \<Rightarrow>
          if free_list (descs h ! d) = []
          then do {
            r \<leftarrow> new_arena d h;
            case r of Inl h \<Rightarrow> Some (NULL, h) | Inr h \<Rightarrow> pop_block d h }
          else pop_block d h)"

abbreviation hmem :: "heap \<Rightarrow> mem" where
  "hmem h \<equiv> pmem (hpages h)"

definition set_hmem :: "mem \<Rightarrow> heap \<Rightarrow> heap" where
  "set_hmem m h = h\<lparr>hpages := (hpages h)\<lparr>pmem := m\<rparr>\<rparr>"

definition calloc :: "nat \<Rightarrow> nat \<Rightarrow> heap \<Rightarrow> (addr \<times> heap) option" where
  "calloc a b h =
     (let sz = a * b mod 2 ^ 32
      in if sz < a \<or> sz < b then Some (NULL, h)
         else do {
           (p, h) \<leftarrow> malloc sz h;
           if p \<noteq> NULL then do { (_, m) \<leftarrow> memset p 0 sz (hmem h); Some (p, set_hmem m h) }
           else Some (p, h) })"

definition block_size_of :: "addr \<Rightarrow> heap \<Rightarrow> nat option" where
  "block_size_of block h = do {
     a \<leftarrow> block_to_arena block h;
     Some (case arena_desc (arenas h a) of
       Some d \<Rightarrow> block_size (descs h ! d)
     | None \<Rightarrow> size_sub (PGSIZE * free_cnt (arenas h a)) (pg_ofs block)) }"

text \<open>
  \<^verbatim>\<open>list_remove\<close> of a block that is in no list would follow links that are not there, and fails in the model.
\<close>

fun remove_blocks :: "nat \<Rightarrow> addr \<Rightarrow> nat \<Rightarrow> nat \<Rightarrow> heap \<Rightarrow> heap option" where
  "remove_blocks 0 a d i h = Some h"
| "remove_blocks (Suc n) a d i h = do {
     b \<leftarrow> arena_to_block a i h;
     ASSERT (b \<in> set (free_list (descs h ! d)));
     remove_blocks n a d (i + 1) (set_free_list d (remove1 b (free_list (descs h ! d))) h) }"

text \<open>Pages that are given back are overwritten with \<open>0xcc\<close>, the magic numbers of arena headers there too.\<close>

definition free_pages_at :: "addr \<Rightarrow> nat \<Rightarrow> heap \<Rightarrow> heap option" where
  "free_pages_at a n h = do {
     pg \<leftarrow> palloc_free_multiple a n (hpages h);
     Some (h\<lparr>hpages := pg,
       arenas := (\<lambda>x. if a \<le> x \<and> x < a + PGSIZE * n then (arenas h x)\<lparr>arena_magic := 0xcccccccc\<rparr> else arenas h x)\<rparr>) }"

definition free :: "addr \<Rightarrow> heap \<Rightarrow> heap option" where
  "free p h =
     (if p = NULL then Some h
      else do {
        a \<leftarrow> block_to_arena p h;
        case arena_desc (arenas h a) of
          Some d \<Rightarrow> do {
            (_, m) \<leftarrow> memset p 0xcc (block_size (descs h ! d)) (hmem h);
            let h = set_hmem m h;
            let h = set_free_list d (p # free_list (descs h ! d)) h;
            let cnt = (free_cnt (arenas h a) + 1) mod 2 ^ 32;
            let h = set_arena a ((arenas h a)\<lparr>free_cnt := cnt\<rparr>) h;
            if cnt \<ge> blocks_per_arena (descs h ! d)
            then do {
              ASSERT (cnt = blocks_per_arena (descs h ! d));
              h \<leftarrow> remove_blocks (blocks_per_arena (descs h ! d)) a d 0 h;
              free_pages_at a 1 h }
            else Some h }
        | None \<Rightarrow> free_pages_at a (free_cnt (arenas h a)) h })"

definition realloc :: "addr \<Rightarrow> nat \<Rightarrow> heap \<Rightarrow> (addr \<times> heap) option" where
  "realloc old_block new_size h =
     (if new_size = 0 then do { h \<leftarrow> free old_block h; Some (NULL, h) }
      else do {
        (new_block, h) \<leftarrow> malloc new_size h;
        if old_block \<noteq> NULL \<and> new_block \<noteq> NULL
        then do {
          old_size \<leftarrow> block_size_of old_block h;
          let min_size = (if new_size < old_size then new_size else old_size);
          (_, m) \<leftarrow> memcpy new_block old_block min_size (hmem h);
          h \<leftarrow> free old_block (set_hmem m h);
          Some (new_block, h) }
        else Some (new_block, h) })"

section \<open>The invariant\<close>

text \<open>The descriptors: seven block sizes, and as many blocks as fit a page after the header.\<close>

definition bsz :: "nat \<Rightarrow> nat" where "bsz i = 2 ^ (i + 4)"

definition bpa :: "nat \<Rightarrow> nat" where "bpa i = 4084 div bsz i"

definition descs_ok :: "desc list \<Rightarrow> bool" where
  "descs_ok ds \<longleftrightarrow> length ds = 7 \<and> (\<forall>i<7. block_size (ds ! i) = bsz i \<and> blocks_per_arena (ds ! i) = bpa i)"

abbreviation fl :: "heap \<Rightarrow> nat \<Rightarrow> addr list" where
  "fl h i \<equiv> free_list (descs h ! i)"

definition slot :: "addr \<Rightarrow> nat \<Rightarrow> nat \<Rightarrow> addr" where
  "slot a i k = a + 12 + k * bsz i"

definition slots :: "addr \<Rightarrow> nat \<Rightarrow> addr set" where
  "slots a i = slot a i ` {..<bpa i}"

text \<open>
  The arenas: \<open>G a = Some (Some i, 1)\<close> for an arena of descriptor \<open>i\<close> and \<open>Some (None, n)\<close> for a big block of \<open>n\<close> pages. Every arena is
  on pages that are held, no two share a page, its header is intact and counts its free blocks.
\<close>

type_synonym layout = "addr \<rightharpoonup> nat option \<times> nat"

definition free_in :: "heap \<Rightarrow> nat \<Rightarrow> addr \<Rightarrow> addr list" where
  "free_in h i a = filter (\<lambda>p. pg_round_down p = a) (fl h i)"

definition arena_ok :: "heap \<Rightarrow> addr \<Rightarrow> nat option \<Rightarrow> nat \<Rightarrow> bool" where
  "arena_ok h a d n \<longleftrightarrow> a \<noteq> NULL \<and> pg_ofs a = 0 \<and> 0 < n \<and> PGSIZE * n < 2 ^ 32 \<and>
     page_range a n \<subseteq> all_pages False (hpages h) - free_pages False (hpages h) \<and>
     arena_magic (arenas h a) = ARENA_MAGIC \<and> arena_desc (arenas h a) = d \<and>
     (case d of None \<Rightarrow> free_cnt (arenas h a) = n
      | Some i \<Rightarrow> i < 7 \<and> n = 1 \<and> free_cnt (arenas h a) = length (free_in h i a))"

definition free_lists_ok :: "layout \<Rightarrow> heap \<Rightarrow> bool" where
  "free_lists_ok G h \<longleftrightarrow> (\<forall>i<7. distinct (fl h i) \<and>
     (\<forall>p\<in>set (fl h i). G (pg_round_down p) = Some (Some i, 1) \<and> p \<in> slots (pg_round_down p) i))"

definition apart :: "layout \<Rightarrow> bool" where
  "apart G \<longleftrightarrow> (\<forall>a b d n d' n'. G a = Some (d, n) \<longrightarrow> G b = Some (d', n') \<longrightarrow> a \<noteq> b \<longrightarrow> page_range a n \<inter> page_range b n' = {})"

definition heap_inv :: "layout \<Rightarrow> heap \<Rightarrow> bool" where
  "heap_inv G h \<longleftrightarrow> pages_ok (hpages h) \<and> descs_ok (descs h) \<and>
     (\<forall>a d n. G a = Some (d, n) \<longrightarrow> arena_ok h a d n) \<and> apart G \<and> free_lists_ok G h"

text \<open>The blocks that are handed out, with their sizes.\<close>

definition live :: "layout \<Rightarrow> heap \<Rightarrow> addr \<rightharpoonup> nat" where
  "live G h p = (case G (pg_round_down p) of
     None \<Rightarrow> None
   | Some (None, n) \<Rightarrow> if pg_ofs p = 12 then Some (PGSIZE * n - 12) else None
   | Some (Some i, n) \<Rightarrow> if p \<in> slots (pg_round_down p) i \<and> p \<notin> set (fl h i) then Some (bsz i) else None)"

definition heap_ok :: "(addr \<rightharpoonup> nat) \<Rightarrow> heap \<Rightarrow> bool" where
  "heap_ok L h \<longleftrightarrow> (\<exists>G. heap_inv G h \<and> L = live G h)"

section \<open>Blocks in a page\<close>

lemma bpa_bounds: "i < 7 \<Longrightarrow> 0 < bpa i \<and> bpa i * bsz i \<le> 4084 \<and> bpa i \<le> 255 \<and> 0 < bsz i"
proof -
  assume "i < 7"
  then consider "i = 0" | "i = 1" | "i = 2" | "i = 3" | "i = 4" | "i = 5" | "i = 6" by linarith
  then show ?thesis by cases (simp_all add: bpa_def bsz_def)
qed

lemma slot_in_page:
  assumes "k < bpa i" "pg_ofs a = 0" "i < 7"
  shows "pg_round_down (slot a i k) = a" "pg_ofs (slot a i k) = 12 + k * bsz i" "pg_no (slot a i k) = pg_no a"
    "12 + k * bsz i + bsz i \<le> PGSIZE"
proof -
  have "Suc k * bsz i \<le> bpa i * bsz i" using assms(1) by (intro mult_le_mono1) simp
  then show e: "12 + k * bsz i + bsz i \<le> PGSIZE" using bpa_bounds [OF assms(3)] by (simp add: PGSIZE_def)
  then have lt: "12 + k * bsz i < PGSIZE" using bpa_bounds [OF assms(3)] by linarith
  have a: "a = PGSIZE * pg_no a" using pg_split [of a] assms(2) by simp
  have "slot a i k = PGSIZE * pg_no a + (12 + k * bsz i)" using a by (simp add: slot_def)
  then show no: "pg_no (slot a i k) = pg_no a" and "pg_ofs (slot a i k) = 12 + k * bsz i"
    using lt by (simp_all add: pg_no_def pg_ofs_def PGSIZE_pow)
  show "pg_round_down (slot a i k) = a" using no a by (simp add: pg_round_down_eq)
qed

lemma slot_inj: "i < 7 \<Longrightarrow> slot a i j = slot a i k \<longleftrightarrow> j = k"
  using bpa_bounds [of i] by (simp add: slot_def)

lemma slots_in_page: "p \<in> slots a i \<Longrightarrow> pg_ofs a = 0 \<Longrightarrow> i < 7 \<Longrightarrow> pg_round_down p = a"
  by (auto simp: slots_def slot_in_page)

lemma card_slots: "i < 7 \<Longrightarrow> card (slots a i) = bpa i" "finite (slots a i)"
  by (simp_all add: slots_def card_image inj_on_def slot_inj)

lemma big_in_page: "pg_ofs a = 0 \<Longrightarrow> pg_round_down (a + 12) = a" "pg_ofs a = 0 \<Longrightarrow> pg_ofs (a + 12) = 12"
proof -
  assume "pg_ofs a = 0"
  then obtain x where a: "a = PGSIZE * x" using pg_split [of a] by auto
  have "pg_no (PGSIZE * x + 12) = x" "pg_ofs (PGSIZE * x + 12) = 12"
    using div_mult_self2 [of PGSIZE 12 x] mod_mult_self2 [of 12 PGSIZE x] PGSIZE_pos
    by (simp_all add: pg_no_def pg_ofs_def PGSIZE_pow add.commute) (simp_all add: PGSIZE_def)
  then show "pg_round_down (a + 12) = a" "pg_ofs (a + 12) = 12" unfolding a by (simp_all add: pg_round_down_eq)
qed

lemma size_sub_small: "b \<le> a \<Longrightarrow> a < 2 ^ 32 \<Longrightarrow> size_sub a b = a - b"
proof -
  assume "b \<le> a" "a < 2 ^ 32"
  then have "a + 2 ^ 32 - b = (a - b) + 2 ^ 32" by simp
  moreover have "a - b < 2 ^ 32" using \<open>a < 2 ^ 32\<close> by (rule le_less_trans [OF diff_le_self])
  ultimately show ?thesis by (simp only: size_sub_def mod_add_self2 mod_less)
qed

section \<open>Reading the invariant\<close>

lemma heap_invD:
  assumes "heap_inv G h"
  shows "pages_ok (hpages h)" "descs_ok (descs h)" "G a = Some (d, n) \<Longrightarrow> arena_ok h a d n" "apart G"
    "i < 7 \<Longrightarrow> distinct (fl h i)"
    "i < 7 \<Longrightarrow> p \<in> set (fl h i) \<Longrightarrow> G (pg_round_down p) = Some (Some i, 1) \<and> p \<in> slots (pg_round_down p) i"
  using assms by (auto simp: heap_inv_def free_lists_ok_def)

lemma descs_okD:
  assumes "descs_ok ds"
  shows "length ds = 7" "i < 7 \<Longrightarrow> block_size (ds ! i) = bsz i" "i < 7 \<Longrightarrow> blocks_per_arena (ds ! i) = bpa i"
  using assms by (auto simp: descs_ok_def)

lemma arena_okD:
  assumes "arena_ok h a d n"
  shows "a \<noteq> NULL" "pg_ofs a = 0" "0 < n" "PGSIZE * n < 2 ^ 32"
    "page_range a n \<subseteq> all_pages False (hpages h) - free_pages False (hpages h)"
    "arena_magic (arenas h a) = ARENA_MAGIC" "arena_desc (arenas h a) = d"
  using assms by (auto simp: arena_ok_def)

lemma small_arenaD:
  assumes "heap_inv G h" "G a = Some (Some i, n)"
  shows "i < 7" "n = 1" "free_cnt (arenas h a) = length (free_in h i a)" "pg_ofs a = 0"
  using heap_invD(3) [OF assms] by (auto simp: arena_ok_def)

lemma free_in_slots:
  assumes "heap_inv G h" "G a = Some (Some i, n)"
  shows "distinct (free_in h i a)" "set (free_in h i a) \<subseteq> slots a i" "set (free_in h i a) = set (fl h i) \<inter> slots a i"
  using heap_invD(5,6) [OF assms(1) small_arenaD(1) [OF assms]] slots_in_page [OF _ small_arenaD(4,1) [OF assms]]
  by (auto simp: free_in_def)

lemma free_in_le:
  assumes "heap_inv G h" "G a = Some (Some i, n)"
  shows "length (free_in h i a) \<le> bpa i"
    "p \<in> slots a i \<Longrightarrow> p \<notin> set (fl h i) \<Longrightarrow> length (free_in h i a) < bpa i"
    "length (free_in h i a) = bpa i \<Longrightarrow> slots a i \<subseteq> set (fl h i)"
proof -
  note f = free_in_slots [OF assms] and c = card_slots(2) [of a i] card_slots(1) [OF small_arenaD(1) [OF assms], of a]
  have l: "length (free_in h i a) = card (set (free_in h i a))" using f(1) by (simp add: distinct_card)
  show "length (free_in h i a) \<le> bpa i" unfolding l using card_mono [OF c(1) f(2)] c(2) by simp
  show "length (free_in h i a) < bpa i" if "p \<in> slots a i" "p \<notin> set (fl h i)"
    unfolding l using psubset_card_mono [OF c(1), of "set (free_in h i a)"] c(2) f(2,3) that by auto
  show "slots a i \<subseteq> set (fl h i)" if "length (free_in h i a) = bpa i"
  proof -
    have "set (free_in h i a) = slots a i" using card_subset_eq [OF c(1) f(2)] l c(2) that by simp
    then show ?thesis using f(3) by blast
  qed
qed

lemma block_to_arena_small:
  assumes "heap_inv G h" "G a = Some (Some i, n)" "p \<in> slots a i"
  shows "block_to_arena p h = Some a"
proof -
  note a = arena_okD [OF heap_invD(3) [OF assms(1,2)]] and i = small_arenaD(1) [OF assms(1,2)]
  obtain k where k: "k < bpa i" "p = slot a i k" using assms(3) by (auto simp: slots_def)
  note s = slot_in_page [OF k(1) a(2) i]
  have "size_sub (12 + k * bsz i) 12 = k * bsz i" using s(4) by (subst size_sub_small) (auto simp: PGSIZE_def)
  then show ?thesis
    using a s k(2) descs_okD(2) [OF heap_invD(2) [OF assms(1)] i] by (simp add: block_to_arena_def sizeof_arena_def)
qed

lemma block_to_arena_big:
  assumes "heap_inv G h" "G a = Some (None, n)"
  shows "block_to_arena (a + 12) h = Some a"
  using arena_okD [OF heap_invD(3) [OF assms]] by (simp add: block_to_arena_def sizeof_arena_def big_in_page)

lemma same_page_out:
  assumes "pg_ofs a = 0" "pg_ofs x = 0" "pg_no x \<notin> page_range a n"
  shows "x < a \<or> a + PGSIZE * n \<le> x"
proof -
  have e: "a = PGSIZE * pg_no a" "x = PGSIZE * pg_no x" using pg_split [of a] pg_split [of x] assms(1,2) by simp_all
  have "pg_no x < pg_no a \<or> pg_no a + n \<le> pg_no x" using assms(3) by auto
  then show ?thesis
  proof
    assume "pg_no x < pg_no a"
    then have "PGSIZE * pg_no x < PGSIZE * pg_no a" by simp
    then show ?thesis using e by simp
  next
    assume "pg_no a + n \<le> pg_no x"
    then have "PGSIZE * (pg_no a + n) \<le> PGSIZE * pg_no x" by simp
    then show ?thesis using e by (simp add: distrib_left)
  qed
qed

section \<open>Changing one arena\<close>

lemma fl_set [simp]: "i < length (descs h) \<Longrightarrow> fl (set_free_list i l h) j = (if j = i then l else fl h j)"
  by (simp add: set_free_list_def nth_list_update)

lemma set_simps [simp]:
  "arenas (set_free_list i l h) = arenas h" "hpages (set_free_list i l h) = hpages h"
  "hpages (set_arena a v h) = hpages h" "descs (set_arena a v h) = descs h"
  "arenas (set_arena a v h) = (arenas h)(a := v)" "arenas (set_hmem m h) = arenas h" "descs (set_hmem m h) = descs h"
  "hpages (set_hmem m h) = (hpages h)\<lparr>pmem := m\<rparr>"
  by (simp_all add: set_free_list_def set_arena_def set_hmem_def)

lemma desc_set [simp]:
  "block_size (descs (set_free_list i l h) ! j) = block_size (descs h ! j)"
  "blocks_per_arena (descs (set_free_list i l h) ! j) = blocks_per_arena (descs h ! j)"
  "length (descs (set_free_list i l h)) = length (descs h)"
proof -
  have "(descs h)[i := (descs h ! i)\<lparr>free_list := l\<rparr>] ! j = (if j = i \<and> i < length (descs h) then (descs h ! i)\<lparr>free_list := l\<rparr> else descs h ! j)"
    by (cases "i < length (descs h)") (simp_all add: nth_list_update list_update_beyond not_less)
  then show "block_size (descs (set_free_list i l h) ! j) = block_size (descs h ! j)"
    "blocks_per_arena (descs (set_free_list i l h) ! j) = blocks_per_arena (descs h ! j)"
    "length (descs (set_free_list i l h)) = length (descs h)"
    by (simp_all add: set_free_list_def)
qed

lemma descs_ok_set [simp]: "descs_ok (descs (set_free_list i l h)) = descs_ok (descs h)"
  by (simp add: descs_ok_def)

lemma block_to_arena_set [simp]: "block_to_arena p (set_free_list i l h) = block_to_arena p h"
  "block_to_arena p (set_hmem m h) = block_to_arena p h"
  by (simp_all add: block_to_arena_def cong: option.case_cong)

text \<open>Another free list for descriptor \<open>i\<close>, which differs only in blocks of the arena \<open>a\<close>.\<close>

lemma heap_inv_relist:
  assumes inv: "heap_inv G h" and a: "G a = Some (Some i, 1)"
    and l: "distinct l" "\<forall>p\<in>set l. pg_round_down p = a \<longrightarrow> p \<in> slots a i"
      "filter (\<lambda>p. pg_round_down p \<noteq> a) l = filter (\<lambda>p. pg_round_down p \<noteq> a) (fl h i)"
    and h': "descs h' = descs (set_free_list i l h)" "pages_ok (hpages h')"
      "all_pages False (hpages h') = all_pages False (hpages h)" "free_pages False (hpages h') = free_pages False (hpages h)"
      "arenas h' = (arenas h)(a := (arenas h a)\<lparr>free_cnt := length (filter (\<lambda>p. pg_round_down p = a) l)\<rparr>)"
  shows "heap_inv G h'"
    "live G h' = (\<lambda>p. if p \<in> slots a i then (if p \<in> set l then None else Some (bsz i)) else live G h p)"
proof -
  note A = small_arenaD [OF inv a] and D = descs_okD [OF heap_invD(2) [OF inv]]
  have fl: "fl h' j = (if j = i then l else fl h j)" for j using h'(1) A(1) D(1) by simp
  have other: "p \<in> set l \<longleftrightarrow> p \<in> set (fl h i)" if "pg_round_down p \<noteq> a" for p
    using arg_cong [OF l(3), of set] that by auto
  have fin: "free_in h' j x = (if j = i \<and> x = a then filter (\<lambda>p. pg_round_down p = a) l else free_in h j x)" for j x
  proof -
    have "filter (\<lambda>p. pg_round_down p = x) l = filter (\<lambda>p. pg_round_down p = x) (fl h i)" if "x \<noteq> a"
    proof -
      have "filter (\<lambda>p. pg_round_down p = x) m = filter (\<lambda>p. pg_round_down p = x) (filter (\<lambda>p. pg_round_down p \<noteq> a) m)" for m
        using that by (induction m) auto
      then show ?thesis using l(3) by metis
    qed
    then show ?thesis by (auto simp: free_in_def fl)
  qed
  have "arena_ok h' x d n" if x: "G x = Some (d, n)" for x d n
  proof -
    note o = heap_invD(3) [OF inv x]
    show ?thesis
    proof (cases "x = a")
      case True
      then show ?thesis using o x a A(1) h' fin by (auto simp: arena_ok_def)
    next
      case False
      then have f: "free_in h' j x = free_in h j x" for j using fin by simp
      show ?thesis using o False h' unfolding arena_ok_def by (simp add: f split: option.splits)
    qed
  qed
  moreover have "free_lists_ok G h'"
  proof -
    have "G (pg_round_down p) = Some (Some i, 1) \<and> p \<in> slots (pg_round_down p) i" if "p \<in> set l" for p
      using that l(2) a other [of p] heap_invD(6) [OF inv A(1), of p] by (cases "pg_round_down p = a") auto
    then show ?thesis using l(1) heap_invD(5,6) [OF inv] by (simp add: free_lists_ok_def fl)
  qed
  ultimately show "heap_inv G h'" using h'(1,2) heap_invD(2,4) [OF inv] by (simp add: heap_inv_def)
  have out: "pg_round_down p = a \<and> p \<notin> slots a i \<Longrightarrow> live G h p = None" for p using a by (simp add: live_def)
  have "live G h' p = (if p \<in> slots a i then (if p \<in> set l then None else Some (bsz i)) else live G h p)" for p
  proof (cases "pg_round_down p = a")
    case True
    then show ?thesis using a fl out [of p] by (simp add: live_def)
  next
    case False
    then have "p \<notin> slots a i" using slots_in_page [OF _ A(4,1)] by blast
    then show ?thesis using False other [of p] by (auto simp: live_def fl split: option.splits)
  qed
  then show "live G h' = (\<lambda>p. if p \<in> slots a i then (if p \<in> set l then None else Some (bsz i)) else live G h p)" by blast
qed

text \<open>A new arena, all of whose blocks are handed out.\<close>

lemma heap_inv_add:
  assumes inv: "heap_inv G h" and n: "0 < n" "PGSIZE * n < 2 ^ 32"
    and get: "palloc_get_multiple 0 n (hpages h) = Some (a, pg)" "a \<noteq> NULL"
    and v: "arena_magic v = ARENA_MAGIC" "arena_desc v = d"
      "case d of None \<Rightarrow> free_cnt v = n | Some i \<Rightarrow> i < 7 \<and> n = 1 \<and> free_cnt v = 0"
  defines "h' \<equiv> set_arena a v (h\<lparr>hpages := pg\<rparr>)"
  shows "heap_inv (G(a \<mapsto> (d, n))) h'" "G a = None" "pmem pg = pmem (hpages h)"
proof -
  note g = kp.get_some [OF heap_invD(1) [OF inv] n(1) get]
  have na: "pg_no a \<in> page_range a n" using n(1) by simp
  have dis: "page_range a n \<inter> page_range x m = {}" if "G x = Some (e, m)" for x e m
    using arena_okD(5) [OF heap_invD(3) [OF inv that]] g(4) by blast
  show new: "G a = None"
  proof (rule ccontr)
    assume "G a \<noteq> None"
    then obtain e m where e: "G a = Some (e, m)" by auto
    then have "pg_no a \<in> page_range a m" using arena_okD(3) [OF heap_invD(3) [OF inv e]] by simp
    then show False using dis [OF e] na by blast
  qed
  have none: "free_in h i a = []" if "i < 7" for i
    using heap_invD(6) [OF inv that] new by (auto simp: free_in_def filter_empty_conv)
  have fin: "free_in h' i x = free_in h i x" for i x by (simp add: free_in_def h'_def set_arena_def)
  have "arena_ok h' a d n"
    using n g v get(2) none kp.free_managed [of "hpages h"]
    by (auto simp: arena_ok_def h'_def fin [unfolded h'_def] split: option.splits)
  moreover have "arena_ok h' x e m" if x: "G x = Some (e, m)" for x e m
  proof -
    have "x \<noteq> a" using x new by auto
    moreover have "page_range x m \<subseteq> all_pages False pg - free_pages False pg"
      using arena_okD(5) [OF heap_invD(3) [OF inv x]] g(2,5) by blast
    ultimately show ?thesis using heap_invD(3) [OF inv x] fin
      by (auto simp: arena_ok_def h'_def split: option.splits)
  qed
  moreover have "apart (G(a \<mapsto> (d, n)))"
    using dis heap_invD(4) [OF inv] by (auto simp: apart_def split: if_splits)
  moreover have "free_lists_ok (G(a \<mapsto> (d, n))) h'"
  proof -
    have "fl h' i = fl h i" for i by (simp add: h'_def set_arena_def)
    moreover have "pg_round_down p \<noteq> a" if "i < 7" "p \<in> set (fl h i)" for p i
      using heap_invD(6) [OF inv that] new by auto
    ultimately show ?thesis using heap_invD(5,6) [OF inv] by (simp add: free_lists_ok_def)
  qed
  ultimately show "heap_inv (G(a \<mapsto> (d, n))) h'"
    using g(1) heap_invD(2) [OF inv] by (auto simp: heap_inv_def h'_def)
  show "pmem pg = pmem (hpages h)" by (rule g(6))
qed

text \<open>Giving an arena back that has no free block in a list.\<close>

lemma heap_inv_drop:
  assumes inv: "heap_inv G h" and a: "G a = Some (d, n)" and none: "\<forall>i<7. free_in h i a = []"
    and h': "descs h' = descs h" "\<And>x. x < a \<or> a + PGSIZE * n \<le> x \<Longrightarrow> arenas h' x = arenas h x"
      "palloc_free_multiple a n (hpages h) = Some (hpages h')"
  shows "heap_inv (G(a := None)) h'" "\<And>x. x < a \<or> a + PGSIZE * n \<le> x \<Longrightarrow> hmem h' x = hmem h x"
proof -
  note A = arena_okD [OF heap_invD(3) [OF inv a]]
  note r = kp.rel_ok [OF heap_invD(1) [OF inv] A(3,2,1,5)]
  have r: "pages_ok (hpages h')" "all_pages False (hpages h') = all_pages False (hpages h)"
    "free_pages False (hpages h') = free_pages False (hpages h) \<union> page_range a n"
    "\<And>x. x < a \<or> a + PGSIZE * n \<le> x \<Longrightarrow> hmem h' x = hmem h x"
    using r h'(3) by auto
  show "\<And>x. x < a \<or> a + PGSIZE * n \<le> x \<Longrightarrow> hmem h' x = hmem h x" by (rule r(4))
  have "arena_ok h' x e m" if x: "G x = Some (e, m)" "x \<noteq> a" for x e m
  proof -
    note X = arena_okD [OF heap_invD(3) [OF inv x(1)]]
    have dis: "page_range a n \<inter> page_range x m = {}" using heap_invD(4) [OF inv] a x by (simp add: apart_def)
    have "pg_no x \<notin> page_range a n" using dis X(3) by (auto simp: disjoint_iff)
    then have "x < a \<or> a + PGSIZE * n \<le> x" using same_page_out [OF A(2) X(2)] by simp
    then have "arenas h' x = arenas h x" by (rule h'(2))
    moreover have "page_range x m \<subseteq> all_pages False (hpages h') - free_pages False (hpages h')"
      using X(5) dis r(2,3) by blast
    ultimately show ?thesis using heap_invD(3) [OF inv x(1)] h'(1)
      by (auto simp: arena_ok_def free_in_def split: option.splits)
  qed
  moreover have "free_lists_ok (G(a := None)) h'"
  proof -
    have "pg_round_down p \<noteq> a" if "i < 7" "p \<in> set (fl h i)" for p i
      using none that by (auto simp: free_in_def filter_empty_conv)
    then show ?thesis using heap_invD(5,6) [OF inv] h'(1) by (simp add: free_lists_ok_def)
  qed
  moreover have "apart (G(a := None))" using heap_invD(4) [OF inv] by (auto simp: apart_def)
  ultimately show "heap_inv (G(a := None)) h'" using r(1) heap_invD(2) [OF inv] h'(1) by (simp add: heap_inv_def)
qed

section \<open>The operations\<close>

lemma set_free_list_same [simp]: "set_free_list i (fl h i) h = h"
  by (simp add: set_free_list_def)

lemma set_free_list_twice [simp]: "set_free_list i l (set_free_list i l' h) = set_free_list i l h"
  by (cases "i < length (descs h)") (simp_all add: set_free_list_def list_update_beyond not_less)

lemma arena_to_block_slot:
  assumes "descs_ok (descs h)" "d < 7" "a \<noteq> NULL" "arena_magic (arenas h a) = ARENA_MAGIC" "arena_desc (arenas h a) = Some d" "k < bpa d"
  shows "arena_to_block a k h = Some (slot a d k)"
  using assms descs_okD [OF assms(1)] by (simp add: arena_to_block_def slot_def sizeof_arena_def)

lemma add_blocks_eq:
  assumes "descs_ok (descs h)" "d < 7" "a \<noteq> NULL" "arena_magic (arenas h a) = ARENA_MAGIC" "arena_desc (arenas h a) = Some d"
    "i + n \<le> bpa d"
  shows "add_blocks n a d i h = Some (set_free_list d (fl h d @ map (slot a d) [i..<i + n]) h)"
  using assms
proof (induction n arbitrary: i h)
  case (Suc n)
  have b: "arena_to_block a i h = Some (slot a d i)" using Suc.prems by (intro arena_to_block_slot) auto
  have l: "d < length (descs h)" using descs_okD(1) [OF Suc.prems(1)] Suc.prems(2) by simp
  have r: "[i..<Suc (i + n)] = i # [Suc i..<Suc (i + n)]" by (simp add: upt_rec)
  show ?case
    using Suc.IH [of "set_free_list d (fl h d @ [slot a d i]) h" "i + 1"] Suc.prems b l by (simp add: r del: upt_Suc)
qed simp

lemma remove_blocks_eq:
  assumes "descs_ok (descs h)" "d < 7" "a \<noteq> NULL" "arena_magic (arenas h a) = ARENA_MAGIC" "arena_desc (arenas h a) = Some d"
    "i + n \<le> bpa d" "distinct (fl h d)" "slot a d ` {i..<i + n} \<subseteq> set (fl h d)"
  shows "remove_blocks n a d i h = Some (set_free_list d (filter (\<lambda>p. p \<notin> slot a d ` {i..<i + n}) (fl h d)) h)"
  using assms
proof (induction n arbitrary: i h)
  case (Suc n)
  have b: "arena_to_block a i h = Some (slot a d i)" using Suc.prems by (intro arena_to_block_slot) auto
  have l: "d < length (descs h)" using descs_okD(1) [OF Suc.prems(1)] Suc.prems(2) by simp
  have r: "{i..<i + Suc n} = insert i {i + 1..<i + 1 + n}" by auto
  have new: "slot a d i \<notin> slot a d ` {i + 1..<i + 1 + n}" using slot_inj [OF Suc.prems(2)] by auto
  let ?h = "set_free_list d (remove1 (slot a d i) (fl h d)) h"
  have "remove_blocks n a d (i + 1) ?h = Some (set_free_list d (filter (\<lambda>p. p \<notin> slot a d ` {i + 1..<i + 1 + n}) (fl ?h d)) ?h)"
    using Suc.prems l new slot_inj [OF Suc.prems(2), of a] unfolding r
    by (intro Suc.IH) (auto simp: in_set_remove1)
  moreover have "filter (\<lambda>p. p \<notin> slot a d ` {i + 1..<i + 1 + n}) (fl ?h d) = filter (\<lambda>p. p \<notin> slot a d ` {i..<i + Suc n}) (fl h d)"
    using Suc.prems(7) l unfolding r
    by (auto simp: distinct_remove1_removeAll removeAll_filter_not_eq intro: filter_cong)
  ultimately show ?case using b Suc.prems(8) unfolding r by simp
qed simp

lemma live_other: "pg_round_down p \<noteq> a \<Longrightarrow> live (G(a := x)) h p = live G h p"
  by (simp add: live_def)

lemma live_cong: "(\<And>i. fl h i = fl h' i) \<Longrightarrow> live G h p = live G h' p"
  by (simp add: live_def split: option.splits)

lemma pop_block_inv:
  assumes inv: "heap_inv G h" and i: "i < 7" and l: "fl h i = b # bs"
  shows "\<exists>h'. pop_block i h = Some (b, h') \<and> heap_inv G h' \<and> live G h' = (live G h)(b \<mapsto> bsz i) \<and> live G h b = None \<and>
    b \<noteq> NULL \<and> hpages h' = hpages h"
proof -
  define a where "a = pg_round_down b"
  have b: "G a = Some (Some i, 1)" "b \<in> slots a i" using heap_invD(6) [OF inv i, of b] l by (simp_all add: a_def)
  have bs: "distinct bs" "b \<notin> set bs" using heap_invD(5) [OF inv i] l by auto
  have cnt: "free_cnt (arenas h a) = Suc (length (filter (\<lambda>p. pg_round_down p = a) bs))"
    using small_arenaD(3) [OF inv b(1)] l by (simp add: free_in_def a_def)
  moreover have "free_cnt (arenas h a) \<le> 255"
    using free_in_le(1) [OF inv b(1)] small_arenaD(3) [OF inv b(1)] bpa_bounds [OF i] by simp
  ultimately have sub: "size_sub (free_cnt (arenas h a)) 1 = length (filter (\<lambda>p. pg_round_down p = a) bs)"
    by (subst size_sub_small) auto
  let ?h = "set_arena a ((arenas h a)\<lparr>free_cnt := length (filter (\<lambda>p. pg_round_down p = a) bs)\<rparr>) (set_free_list i bs h)"
  have len: "i < length (descs h)" using descs_okD(1) [OF heap_invD(2) [OF inv]] i by simp
  have pop: "pop_block i h = Some (b, ?h)"
    using block_to_arena_small [OF inv b] l sub len by (simp add: pop_block_def)
  have in_l: "\<forall>p\<in>set bs. pg_round_down p = a \<longrightarrow> p \<in> slots a i" using heap_invD(6) [OF inv i] l by auto
  note k = heap_inv_relist [OF inv b(1) bs(1) in_l, of ?h]
  have inv': "heap_inv G ?h" and lv: "live G ?h = (\<lambda>p. if p \<in> slots a i then (if p \<in> set bs then None else Some (bsz i)) else live G h p)"
    by (rule k; use heap_invD(1) [OF inv] l in \<open>simp add: a_def\<close>)+
  have "live G h p = (if p \<in> set (fl h i) then None else Some (bsz i))" if "p \<in> slots a i" for p
    using that b(1) slots_in_page [OF that small_arenaD(4,1) [OF inv b(1)]] by (simp add: live_def)
  then have "live G ?h = (live G h)(b \<mapsto> bsz i)" "live G h b = None"
    unfolding lv using b(2) bs(2) l by (auto simp: fun_eq_iff)
  moreover have "b \<noteq> NULL" using b(2) arena_okD(1) [OF heap_invD(3) [OF inv b(1)]] by (auto simp: slots_def slot_def)
  ultimately show ?thesis using pop inv' by (intro exI [of _ ?h]) simp
qed

lemma new_arena_inv:
  assumes inv: "heap_inv G h" and i: "i < 7" and l: "fl h i = []"
  shows "\<exists>r. new_arena i h = Some r \<and>
    (case r of Inl h' \<Rightarrow> h' = h \<and> free_pages False (hpages h) = {}
     | Inr h' \<Rightarrow> \<exists>G'. heap_inv G' h' \<and> live G' h' = live G h \<and> fl h' i \<noteq> [] \<and> hmem h' = hmem h)"
proof -
  obtain a pg where get: "palloc_get_multiple 0 1 (hpages h) = Some (a, pg)"
    using kp.get_ok [OF heap_invD(1) [OF inv], of 1] by auto
  note D = descs_okD [OF heap_invD(2) [OF inv]]
  show ?thesis
  proof (cases "a = NULL")
    case True
    have "free_pages False (hpages h) = {}" using kp.get_one [OF heap_invD(1) [OF inv]] get True by auto
    moreover have "pg = hpages h" using kp.get_null(1) [OF heap_invD(1) [OF inv], of 1] get True by simp
    ultimately show ?thesis using get True by (simp add: new_arena_def palloc_get_page_def)
  next
    case False
    let ?v = "\<lparr>arena_magic = ARENA_MAGIC, arena_desc = Some i, free_cnt = 0\<rparr>"
    let ?g = "set_arena a ?v (h\<lparr>hpages := pg\<rparr>)"
    let ?G = "G(a \<mapsto> (Some i, 1))" and ?l = "map (slot a i) [0..<bpa i]"
    note add = heap_inv_add [OF inv _ _ get False, where v = ?v and d = "Some i"]
    have g: "heap_inv ?G ?g" "G a = None" "pmem pg = hmem h" using add i by (simp_all add: PGSIZE_def)
    have a: "?G a = Some (Some i, 1)" by simp
    have ofs: "pg_ofs a = 0" by (rule small_arenaD(4) [OF g(1) a])
    have round: "pg_round_down p = a" if "p \<in> set ?l" for p using that slot_in_page(1) [OF _ ofs i] by auto
    have sl: "set ?l = slots a i" by (auto simp: slots_def)
    have fa: "filter (\<lambda>p. pg_round_down p = a) ?l = ?l" "filter (\<lambda>p. pg_round_down p \<noteq> a) ?l = []"
      using round by (simp_all add: filter_id_conv filter_empty_conv)
    define h' where "h' = set_free_list i ?l (set_arena a (?v\<lparr>free_cnt := bpa i\<rparr>) (h\<lparr>hpages := pg\<rparr>))"
    have len: "i < length (descs h)" using D(1) i by simp
    have run: "new_arena i h = Some (Inr h')"
      using get False i l D(3) [OF i] heap_invD(2) [OF inv]
      by (simp add: new_arena_def palloc_get_page_def add_blocks_eq h'_def Let_def cong: if_cong)
    have h': "descs h' = descs (set_free_list i ?l ?g)" "hpages h' = pg"
      "arenas h' = (arenas ?g)(a := (arenas ?g a)\<lparr>free_cnt := length (filter (\<lambda>p. pg_round_down p = a) ?l)\<rparr>)"
      using fa(1) by (simp_all add: h'_def set_free_list_def set_arena_def)
    have dist: "distinct ?l" using slot_inj [OF i] by (simp add: distinct_map inj_on_def)
    note k = heap_inv_relist [OF g(1) a dist, of h']
    have inv': "heap_inv ?G h'" and lv: "live ?G h' = (\<lambda>p. if p \<in> slots a i then (if p \<in> set ?l then None else Some (bsz i)) else live ?G ?g p)"
      by (rule k; use h' heap_invD(1) [OF g(1)] sl l fa(2) in simp)+
    have "live ?G h' p = live G h p" for p
    proof (cases "pg_round_down p = a")
      case True
      have "live G h p = None" using True g(2) by (simp add: live_def)
      moreover have "live ?G ?g p = None" if "p \<notin> slots a i" using True that by (simp add: live_def)
      ultimately show ?thesis unfolding lv sl by simp
    next
      case False
      then have "p \<notin> slots a i" using slots_in_page [OF _ ofs i] by blast
      then show ?thesis using live_other [OF False] live_cong [of ?g h] unfolding lv by simp
    qed
    moreover have "fl h' i \<noteq> []" using len bpa_bounds [OF i] by (simp add: h'_def)
    ultimately show ?thesis using run inv' h'(2) g(3)
      by (intro exI [of _ "Inr h'"]) (auto intro!: exI [of _ ?G])
  qed
qed

lemma malloc_big_inv:
  assumes inv: "heap_inv G h" and sz: "0 < sz" "sz + 4107 < 2 ^ 32"
  shows "\<exists>p h'. malloc_big sz h = Some (p, h') \<and>
    (if p = NULL then h' = h
     else \<exists>G' c. heap_inv G' h' \<and> live G' h' = (live G h)(p \<mapsto> c) \<and> live G h p = None \<and> sz \<le> c) \<and> hmem h' = hmem h"
proof -
  define n where "n = (sz + 4107) div 4096"
  have n: "0 < n" "PGSIZE * n < 2 ^ 32" "sz \<le> PGSIZE * n - 12" "(sz + sizeof_arena + PGSIZE - 1) mod 2 ^ 32 div PGSIZE = n"
    using sz by (simp_all add: n_def PGSIZE_def sizeof_arena_def)
  obtain a pg where get: "palloc_get_multiple 0 n (hpages h) = Some (a, pg)"
    using kp.get_ok [OF heap_invD(1) [OF inv] n(1)] by auto
  show ?thesis
  proof (cases "a = NULL")
    case True
    then have "pg = hpages h" using kp.get_null(1) [OF heap_invD(1) [OF inv] n(1)] get by simp
    then show ?thesis using get True n(4) by (simp add: malloc_big_def Let_def)
  next
    case False
    let ?v = "\<lparr>arena_magic = ARENA_MAGIC, arena_desc = None, free_cnt = n\<rparr>"
    let ?h = "set_arena a ?v (h\<lparr>hpages := pg\<rparr>)" and ?G = "G(a \<mapsto> (None, n))"
    have g: "heap_inv ?G ?h" "G a = None" "pmem pg = hmem h"
      using heap_inv_add [OF inv n(1,2) get False, where v = ?v and d = None] by simp_all
    have run: "malloc_big sz h = Some (a + 12, ?h)"
      using get False n(4) by (simp add: malloc_big_def Let_def sizeof_arena_def)
    have ofs: "pg_ofs a = 0" using arena_okD(2) [OF heap_invD(3) [OF g(1), of a]] by simp
    have eq: "p = a + 12" if "pg_round_down p = a" "pg_ofs p = 12" for p
      using that pg_split [of p] pg_round_down_eq [of p] by simp
    have "live ?G ?h = (live G h)(a + 12 \<mapsto> PGSIZE * n - 12)"
    proof (rule ext)
      fix p show "live ?G ?h p = ((live G h)(a + 12 \<mapsto> PGSIZE * n - 12)) p"
    proof (cases "pg_round_down p = a")
      case True
      then have "live G h p = None" using g(2) by (simp add: live_def)
      moreover have "live ?G ?h p = (if pg_ofs p = 12 then Some (PGSIZE * n - 12) else None)" using True by (simp add: live_def)
      moreover have "pg_ofs p = 12 \<longleftrightarrow> p = a + 12" using eq [OF True] big_in_page(2) [OF ofs] by blast
      ultimately show ?thesis by simp
    next
      case False
      then have "p \<noteq> a + 12" using big_in_page(1) [OF ofs] by auto
      then show ?thesis using live_other [OF False, of G "Some (None, n)" ?h] live_cong [of ?h h] by (simp add: set_arena_def)
    qed
    qed
    moreover have "live G h (a + 12) = None" using g(2) big_in_page(1) [OF ofs] by (simp add: live_def)
    ultimately show ?thesis using run g n(3) by (intro exI [of _ "a + 12"] exI [of _ ?h]) (auto intro!: exI [of _ ?G])
  qed
qed

lemma find_desc_first:
  "find_desc sz k ds = (case List.find (\<lambda>i. block_size (ds ! i) \<ge> sz) [0..<length ds] of None \<Rightarrow> None | Some i \<Rightarrow> Some (k + i))"
proof (induction ds arbitrary: k)
  case (Cons d ds)
  have "[0..<length (d # ds)] = 0 # map Suc [0..<length ds]" by (simp add: upt_conv_Cons map_Suc_upt del: upt_Suc)
  moreover have "List.find P (map Suc xs) = map_option Suc (List.find (\<lambda>i. P (Suc i)) xs)" for P xs by (induction xs) auto
  ultimately show ?case using Cons.IH [of "k + 1"] by (simp del: upt_Suc split: option.splits)
qed simp

lemma find_desc_fits:
  assumes "descs_ok ds" "find_desc sz 0 ds = Some i"
  shows "i < 7" "sz \<le> bsz i"
proof -
  have "List.find (\<lambda>i. block_size (ds ! i) \<ge> sz) [0..<length ds] = Some i"
    using assms(2) by (simp add: find_desc_first split: option.splits)
  then have "i < length ds \<and> block_size (ds ! i) \<ge> sz" by (auto simp: find_Some_iff)
  then show "i < 7" "sz \<le> bsz i" using descs_okD [OF assms(1)] by auto
qed

text \<open>What \<open>malloc\<close> promises.\<close>

lemma malloc_inv:
  assumes inv: "heap_inv G h" and sz: "0 < sz" "sz + 4107 < 2 ^ 32"
  shows "\<exists>p h'. malloc sz h = Some (p, h') \<and>
    (if p = NULL then h' = h
     else \<exists>G' c. heap_inv G' h' \<and> live G' h' = (live G h)(p \<mapsto> c) \<and> live G h p = None \<and> sz \<le> c) \<and> hmem h' = hmem h"
proof (cases "find_desc sz 0 (descs h)")
  case None
  then show ?thesis using malloc_big_inv [OF assms] sz(1) by (simp add: malloc_def)
next
  case (Some i)
  note i = find_desc_fits [OF heap_invD(2) [OF inv] Some]
  have pop: "\<exists>p h'. pop_block i h1 = Some (p, h') \<and> p \<noteq> NULL \<and> heap_inv G1 h' \<and> live G1 h' = (live G h)(p \<mapsto> bsz i) \<and>
      live G h p = None \<and> hmem h' = hmem h"
    if "heap_inv G1 h1" "live G1 h1 = live G h" "fl h1 i \<noteq> []" "hmem h1 = hmem h" for G1 h1
  proof -
    obtain b bs where "fl h1 i = b # bs" using \<open>fl h1 i \<noteq> []\<close> by (cases "fl h1 i") auto
    then show ?thesis using pop_block_inv [OF that(1) i(1)] that(2,4) by fastforce
  qed
  show ?thesis
  proof (cases "fl h i = []")
    case False
    have "malloc sz h = pop_block i h" using Some sz(1) False by (simp add: malloc_def)
    then show ?thesis using pop [OF inv refl False refl] i(2) by (metis less_not_refl)
  next
    case True
    obtain r where r: "new_arena i h = Some r" "case r of Inl h' \<Rightarrow> h' = h \<and> free_pages False (hpages h) = {}
       | Inr h' \<Rightarrow> \<exists>G'. heap_inv G' h' \<and> live G' h' = live G h \<and> fl h' i \<noteq> [] \<and> hmem h' = hmem h"
      using new_arena_inv [OF inv i(1) True] by blast
    show ?thesis
    proof (cases r)
      case (Inl h')
      then show ?thesis using r Some sz(1) True by (simp add: malloc_def)
    next
      case (Inr h1)
      then obtain G1 where "heap_inv G1 h1" "live G1 h1 = live G h" "fl h1 i \<noteq> []" "hmem h1 = hmem h" using r(2) by auto
      note p = pop [OF this]
      have "malloc sz h = pop_block i h1" using r(1) Inr Some sz(1) True by (simp add: malloc_def)
      then show ?thesis using p i(2) by (metis less_not_refl)
    qed
  qed
qed

text \<open>The page of a block, and what \<open>free\<close> promises.\<close>

lemma live_cases:
  assumes "heap_inv G h" "live G h p = Some c"
  obtains (small) a i where "G a = Some (Some i, 1)" "i < 7" "p \<in> slots a i" "p \<notin> set (fl h i)" "c = bsz i" "pg_round_down p = a"
  | (big) a n where "G a = Some (None, n)" "p = a + 12" "c = PGSIZE * n - 12" "pg_round_down p = a"
proof -
  obtain d n where G: "G (pg_round_down p) = Some (d, n)" using assms(2) by (auto simp: live_def split: option.splits)
  show thesis
  proof (cases d)
    case None
    then have "pg_ofs p = 12" "c = PGSIZE * n - 12" using assms(2) G by (auto simp: live_def split: if_splits)
    then show thesis using big [of "pg_round_down p" n] G None pg_split [of p] by (simp add: pg_round_down_eq)
  next
    case (Some i)
    then have "p \<in> slots (pg_round_down p) i" "p \<notin> set (fl h i)" "c = bsz i"
      using assms(2) G by (auto simp: live_def split: if_splits)
    then show thesis using small small_arenaD(1,2) [OF assms(1)] G Some by metis
  qed
qed

lemma live_not_null: "heap_inv G h \<Longrightarrow> live G h p = Some c \<Longrightarrow> p \<noteq> NULL"
  by (erule (1) live_cases) (auto simp: slots_def slot_def)

lemma free_big_inv:
  assumes inv: "heap_inv G h" and a: "G a = Some (None, n)"
  shows "\<exists>h'. free_pages_at a n h = Some h' \<and> heap_inv (G(a := None)) h' \<and> live (G(a := None)) h' = (live G h)(a + 12 := None) \<and>
    (\<forall>x. x < a \<or> a + PGSIZE * n \<le> x \<longrightarrow> hmem h' x = hmem h x)"
proof -
  note A = arena_okD [OF heap_invD(3) [OF inv a]]
  obtain pg where pg: "palloc_free_multiple a n (hpages h) = Some pg"
    using kp.rel_ok [OF heap_invD(1) [OF inv] A(3,2,1,5)] by blast
  define h' where "h' = h\<lparr>hpages := pg,
       arenas := (\<lambda>x. if a \<le> x \<and> x < a + PGSIZE * n then (arenas h x)\<lparr>arena_magic := 0xcccccccc\<rparr> else arenas h x)\<rparr>"
  have none: "\<forall>i<7. free_in h i a = []" using heap_invD(6) [OF inv] a by (fastforce simp: free_in_def filter_empty_conv)
  have d: "heap_inv (G(a := None)) h'" "\<And>x. x < a \<or> a + PGSIZE * n \<le> x \<Longrightarrow> hmem h' x = hmem h x"
    by (rule heap_inv_drop [OF inv a none]; use pg in \<open>auto simp: h'_def\<close>)+
  have "live (G(a := None)) h' p = ((live G h)(a + 12 := None)) p" for p
  proof (cases "pg_round_down p = a")
    case True
    then have "live (G(a := None)) h' p = None" by (simp add: live_def)
    moreover have "live G h p = None" if "p \<noteq> a + 12"
      using True a that pg_split [of p] pg_round_down_eq [of p] by (auto simp: live_def)
    ultimately show ?thesis by simp
  next
    case False
    then have "p \<noteq> a + 12" using big_in_page(1) [OF A(2)] by auto
    then show ?thesis using live_other [OF False, of G None h'] live_cong [of h' h] by (simp add: h'_def)
  qed
  then show ?thesis using d pg by (auto simp: free_pages_at_def h'_def)
qed

lemma free_small_inv:
  assumes inv: "heap_inv G h" and a: "G a = Some (Some i, 1)" and p: "p \<in> slots a i" "p \<notin> set (fl h i)"
  defines "m \<equiv> memset_loop (bsz i) p 0xcc (hmem h)"
  defines "h1 \<equiv> set_arena a ((arenas h a)\<lparr>free_cnt := Suc (free_cnt (arenas h a))\<rparr>) (set_free_list i (p # fl h i) (set_hmem m h))"
  shows "heap_inv G h1" "live G h1 = (live G h)(p := None)" "free_cnt (arenas h1 a) \<le> bpa i"
proof -
  note A = small_arenaD [OF inv a]
  have in_l: "\<forall>q\<in>set (p # fl h i). pg_round_down q = a \<longrightarrow> q \<in> slots a i" using heap_invD(6) [OF inv A(1)] p(1) by auto
  have round: "pg_round_down p = a" by (rule slots_in_page [OF p(1) A(4,1)])
  have dist: "distinct (p # fl h i)" using heap_invD(5) [OF inv A(1)] p(2) by simp
  note k = heap_inv_relist [OF inv a dist in_l, of h1]
  show inv': "heap_inv G h1"
    by (rule k(1); use heap_invD(1) [OF inv] A(3) round in \<open>simp add: h1_def set_free_list_def set_hmem_def free_in_def\<close>)
  have "live G h1 = (\<lambda>q. if q \<in> slots a i then (if q \<in> set (p # fl h i) then None else Some (bsz i)) else live G h q)"
    by (rule k(2); use heap_invD(1) [OF inv] A(3) round in \<open>simp add: h1_def set_free_list_def set_hmem_def free_in_def\<close>)
  moreover have "live G h q = (if q \<in> set (fl h i) then None else Some (bsz i))" if "q \<in> slots a i" for q
    using that a slots_in_page [OF that A(4,1)] by (simp add: live_def)
  ultimately show "live G h1 = (live G h)(p := None)" using p(1) by (auto simp: fun_eq_iff)
  show "free_cnt (arenas h1 a) \<le> bpa i" using free_in_le(1) [OF inv' a] small_arenaD(3) [OF inv' a] by simp
qed

lemma apartD:
  "heap_inv G h \<Longrightarrow> G a = Some (d, n) \<Longrightarrow> G b = Some (e, m) \<Longrightarrow> a \<noteq> b \<Longrightarrow> page_range a n \<inter> page_range b m = {}"
  unfolding heap_inv_def apart_def by blast

section \<open>Blocks do not overlap\<close>

lemma pages_disjoint_bytes:
  assumes "pg_ofs a = 0" "pg_ofs b = 0" "0 < n" "0 < m" "page_range a n \<inter> page_range b m = {}"
  shows "a + PGSIZE * n \<le> b \<or> b + PGSIZE * m \<le> a"
proof -
  have e: "a = PGSIZE * pg_no a" "b = PGSIZE * pg_no b" using pg_split [of a] pg_split [of b] assms(1,2) by simp_all
  have "pg_no b \<notin> page_range a n" "pg_no a \<notin> page_range b m" using assms(3-5) by (auto simp: disjoint_iff)
  then have "pg_no a + n \<le> pg_no b \<or> pg_no b + m \<le> pg_no a" by auto
  then have "PGSIZE * (pg_no a + n) \<le> PGSIZE * pg_no b \<or> PGSIZE * (pg_no b + m) \<le> PGSIZE * pg_no a" by auto
  then show ?thesis using e by (simp add: distrib_left)
qed

lemma live_extent:
  assumes "heap_inv G h" "live G h p = Some c"
  obtains d n where "G (pg_round_down p) = Some (d, n)" "pg_round_down p \<le> p" "p + c \<le> pg_round_down p + PGSIZE * n"
  using assms
proof (cases rule: live_cases)
  case (small a i)
  note A = small_arenaD [OF assms(1) small(1)]
  obtain k where k: "k < bpa i" "p = slot a i k" using small(3) by (auto simp: slots_def)
  then have "p + c \<le> a + PGSIZE" using slot_in_page(4) [OF k(1) A(4,1)] small(5) by (simp add: slot_def)
  moreover have "a \<le> p" using k(2) by (simp add: slot_def)
  ultimately show ?thesis using that [of "Some i" 1] small(1,6) by simp
next
  case (big a n)
  have "12 \<le> PGSIZE * n" using arena_okD(3) [OF heap_invD(3) [OF assms(1) big(1)]] by (simp add: PGSIZE_def)
  then show ?thesis using that [of None n] big by simp
qed

lemma live_disjoint:
  assumes inv: "heap_inv G h" and p: "live G h p = Some c" and q: "live G h q = Some c'" and "p \<noteq> q"
  shows "p + c \<le> q \<or> q + c' \<le> p"
proof -
  obtain d n where P: "G (pg_round_down p) = Some (d, n)" "pg_round_down p \<le> p" "p + c \<le> pg_round_down p + PGSIZE * n"
    by (rule live_extent [OF inv p])
  obtain e m where Q: "G (pg_round_down q) = Some (e, m)" "pg_round_down q \<le> q" "q + c' \<le> pg_round_down q + PGSIZE * m"
    by (rule live_extent [OF inv q])
  show ?thesis
  proof (cases "pg_round_down p = pg_round_down q")
    case False
    then have "page_range (pg_round_down p) n \<inter> page_range (pg_round_down q) m = {}"
      by (intro apartD [OF inv P(1) Q(1)])
    then show ?thesis
      using pages_disjoint_bytes [of "pg_round_down p" "pg_round_down q" n m] P Q arena_okD(2,3) [OF heap_invD(3) [OF inv P(1)]]
        arena_okD(2,3) [OF heap_invD(3) [OF inv Q(1)]] by fastforce
  next
    case True
    let ?a = "pg_round_down p"
    show ?thesis
    proof (cases d)
      case None
      have "p = ?a + 12" using p P(1) None by (cases rule: live_cases [OF inv]) auto
      moreover have "q = ?a + 12" using q P(1) None True by (cases rule: live_cases [OF inv]) auto
      ultimately show ?thesis using \<open>p \<noteq> q\<close> by simp
    next
      case (Some i)
      have "p \<in> slots ?a i" "c = bsz i" using p P(1) Some by (cases rule: live_cases [OF inv]; simp)+
      moreover have "q \<in> slots ?a i" "c' = bsz i" using q P(1) Some True by (cases rule: live_cases [OF inv]; simp)+
      ultimately obtain k l where k: "p = slot ?a i k" "q = slot ?a i l" "c = bsz i" "c' = bsz i" by (auto simp: slots_def)
      have "k \<noteq> l" using k \<open>p \<noteq> q\<close> by auto
      then have "Suc k \<le> l \<or> Suc l \<le> k" by linarith
      then have "Suc k * bsz i \<le> l * bsz i \<or> Suc l * bsz i \<le> k * bsz i" using mult_le_mono1 by blast
      then show ?thesis using k by (auto simp: slot_def)
    qed
  qed
qed

text \<open>An arena whose blocks are all free goes back to the page allocator.\<close>

lemma small_arena_drop:
  assumes inv: "heap_inv G h" and a: "G a = Some (Some i, 1)" and all: "length (free_in h i a) = bpa i"
  shows "\<exists>h'. do { h \<leftarrow> remove_blocks (bpa i) a i 0 h; free_pages_at a 1 h } = Some h' \<and> heap_inv (G(a := None)) h' \<and>
    live (G(a := None)) h' = live G h \<and> (\<forall>x. x < a \<or> a + PGSIZE \<le> x \<longrightarrow> hmem h' x = hmem h x)"
proof -
  note A = small_arenaD [OF inv a] and O = arena_okD [OF heap_invD(3) [OF inv a]]
  have sl: "slot a i ` {0..<0 + bpa i} = slots a i" by (auto simp: slots_def)
  let ?l = "filter (\<lambda>p. p \<notin> slots a i) (fl h i)"
  have l: "?l = filter (\<lambda>p. pg_round_down p \<noteq> a) (fl h i)"
    using heap_invD(6) [OF inv A(1)] slots_in_page [OF _ A(4,1)] by (intro filter_cong refl) auto
  have rem: "remove_blocks (bpa i) a i 0 h = Some (set_free_list i ?l h)"
    using remove_blocks_eq [OF heap_invD(2) [OF inv] A(1) O(1,6,7), of 0 "bpa i"] free_in_le(3) [OF inv a all]
      heap_invD(5) [OF inv A(1)] unfolding sl by simp
  define g where "g = set_arena a ((arenas h a)\<lparr>free_cnt := 0\<rparr>) (set_free_list i ?l h)"
  have ll: "filter (\<lambda>p. pg_round_down p = a) ?l = []" "\<forall>p\<in>set ?l. pg_round_down p = a \<longrightarrow> p \<in> slots a i"
    "filter (\<lambda>p. pg_round_down p \<noteq> a) ?l = ?l" "distinct ?l"
    using heap_invD(5) [OF inv A(1)] unfolding l by (simp_all add: filter_empty_conv)
  have g: "heap_inv G g" "live G g = (\<lambda>p. if p \<in> slots a i then (if p \<in> set ?l then None else Some (bsz i)) else live G h p)"
    by (rule heap_inv_relist [OF inv a ll(4,2)]; use ll(1,3) l heap_invD(1) [OF inv] in \<open>simp add: g_def\<close>)+
  have len: "i < length (descs h)" using descs_okD(1) [OF heap_invD(2) [OF inv]] A(1) by simp
  have none: "\<forall>j<7. free_in g j a = []"
    using heap_invD(6) [OF g(1)] a ll(1) len by (auto simp: free_in_def filter_empty_conv g_def)
  have P: "hpages g = hpages h" by (simp add: g_def)
  obtain pg where pg: "palloc_free_multiple a 1 (hpages h) = Some pg"
    using kp.rel_ok [OF heap_invD(1) [OF inv] O(3,2,1,5)] by blast
  define h' where "h' = (set_free_list i ?l h)\<lparr>hpages := pg,
       arenas := (\<lambda>x. if a \<le> x \<and> x < a + PGSIZE * 1 then (arenas h x)\<lparr>arena_magic := 0xcccccccc\<rparr> else arenas h x)\<rparr>"
  have d: "heap_inv (G(a := None)) h'" "\<And>x. x < a \<or> a + PGSIZE * 1 \<le> x \<Longrightarrow> hmem h' x = hmem g x"
    by (rule heap_inv_drop [OF g(1) a none]; use pg P in \<open>auto simp: h'_def g_def\<close>)+
  have "live (G(a := None)) h' p = live G h p" for p
  proof (cases "pg_round_down p = a")
    case True
    then have "live G h p = None" using a free_in_le(3) [OF inv a all] by (auto simp: live_def)
    then show ?thesis using True by (simp add: live_def)
  next
    case False
    then have n: "p \<notin> slots a i" using slots_in_page [OF _ A(4,1)] by blast
    have "live (G(a := None)) h' p = live G g p"
      using live_other [OF False, of G None h'] live_cong [of h' g] by (simp add: h'_def g_def)
    then show ?thesis using n g(2) by simp
  qed
  then have "live (G(a := None)) h' = live G h" by blast
  moreover have "do { h \<leftarrow> remove_blocks (bpa i) a i 0 h; free_pages_at a 1 h } = Some h'"
    using rem pg by (simp add: free_pages_at_def h'_def cong: if_cong)
  ultimately show ?thesis using d P by auto
qed

lemma free_inv:
  assumes inv: "heap_inv G h" and p: "live G h p = Some c"
  shows "\<exists>h' G'. free p h = Some h' \<and> heap_inv G' h' \<and> live G' h' = (live G h)(p := None) \<and>
    (\<forall>q c' x. live G h q = Some c' \<longrightarrow> q \<noteq> p \<longrightarrow> q \<le> x \<longrightarrow> x < q + c' \<longrightarrow> hmem h' x = hmem h x)"
  using inv p
proof (cases rule: live_cases)
  case (big a n)
  note A = heap_invD(3) [OF inv big(1)]
  obtain h' where h': "free_pages_at a n h = Some h'" "heap_inv (G(a := None)) h'" "live (G(a := None)) h' = (live G h)(p := None)"
    "\<And>x. x < a \<or> a + PGSIZE * n \<le> x \<Longrightarrow> hmem h' x = hmem h x"
    using free_big_inv [OF inv big(1)] big(2) by auto
  have "free p h = Some h'"
    using block_to_arena_big [OF inv big(1)] h'(1) live_not_null [OF inv p] big(2) A
    by (simp add: free_def arena_ok_def)
  moreover have "hmem h' x = hmem h x" if q: "live G h q = Some c'" "q \<noteq> p" "q \<le> x" "x < q + c'" for q c' x
  proof -
    obtain e m where Q: "G (pg_round_down q) = Some (e, m)" "pg_round_down q \<le> q" "q + c' \<le> pg_round_down q + PGSIZE * m"
      by (rule live_extent [OF inv q(1)])
    have "pg_round_down q \<noteq> a" using q(1,2) big(1,2) by (cases rule: live_cases [OF inv q(1)]) auto
    then have "page_range a n \<inter> page_range (pg_round_down q) m = {}"
      by (intro apartD [OF inv big(1) Q(1)]) simp
    then have "a + PGSIZE * n \<le> pg_round_down q \<or> pg_round_down q + PGSIZE * m \<le> a"
      by (intro pages_disjoint_bytes arena_okD(2,3) [OF A] arena_okD(2,3) [OF heap_invD(3) [OF inv Q(1)]])
    then show ?thesis using h'(4) [of x] Q q by auto
  qed
  ultimately show ?thesis using h'(2,3) by blast
next
  case (small a i)
  note A = small_arenaD [OF inv small(1)] and D = descs_okD [OF heap_invD(2) [OF inv]]
  have len: "i < length (descs h)" using D(1) A(1) by simp
  define m where "m = memset_loop (bsz i) p 0xcc (hmem h)"
  define h1 where "h1 = set_arena a ((arenas h a)\<lparr>free_cnt := Suc (free_cnt (arenas h a))\<rparr>) (set_free_list i (p # fl h i) (set_hmem m h))"
  note f = free_small_inv [OF inv small(1,3,4), folded m_def h1_def]
  have mem1: "hmem h1 x = hmem h x" if "live G h q = Some c'" "q \<noteq> p" "q \<le> x" "x < q + c'" for q c' x
    using live_disjoint [OF inv p that(1)] that small(5) by (auto simp: h1_def m_def memset_loop_eq)
  have cnt: "(free_cnt (arenas h a) + 1) mod 2 ^ 32 = Suc (free_cnt (arenas h a))" "free_cnt (arenas h1 a) = Suc (free_cnt (arenas h a))"
    using f(3) bpa_bounds [OF A(1)] by (simp_all add: h1_def)
  have run: "free p h = (if bpa i \<le> Suc (free_cnt (arenas h a)) then do { h \<leftarrow> remove_blocks (bpa i) a i 0 h1; free_pages_at a 1 h } else Some h1)"
    using block_to_arena_small [OF inv small(1,3)] live_not_null [OF inv p] heap_invD(3) [OF inv small(1)] D(2,3) [OF A(1)] cnt f(3)
    by (simp add: free_def arena_ok_def memset_def m_def [symmetric] h1_def Let_def len)
  show ?thesis
  proof (cases "bpa i \<le> Suc (free_cnt (arenas h a))")
    case False
    then show ?thesis using run f(1,2) mem1 by auto
  next
    case True
    note r = small_arena_drop [OF f(1) small(1)]
    have "length (free_in h1 i a) = bpa i" using True f(3) cnt small_arenaD(3) [OF f(1) small(1)] by simp
    from r [OF this] obtain h' where h': "do { h \<leftarrow> remove_blocks (bpa i) a i 0 h1; free_pages_at a 1 h } = Some h'"
      "heap_inv (G(a := None)) h'" "live (G(a := None)) h' = live G h1" "\<And>x. x < a \<or> a + PGSIZE \<le> x \<Longrightarrow> hmem h' x = hmem h1 x"
      by blast
    have "hmem h' x = hmem h x" if q: "live G h q = Some c'" "q \<noteq> p" "q \<le> x" "x < q + c'" for q c' x
    proof -
      have l1: "live G h1 q = Some c'" using q f(2) by simp
      obtain e m where Q: "G (pg_round_down q) = Some (e, m)" "pg_round_down q \<le> q" "q + c' \<le> pg_round_down q + PGSIZE * m"
        by (rule live_extent [OF inv q(1)])
      have "pg_round_down q \<noteq> a"
      proof
        assume "pg_round_down q = a"
        then have "live (G(a := None)) h' q = None" by (simp add: live_def)
        then show False using h'(3) l1 by simp
      qed
      then have "page_range a 1 \<inter> page_range (pg_round_down q) m = {}"
        by (intro apartD [OF inv small(1) Q(1)]) simp
      then have "a + PGSIZE * 1 \<le> pg_round_down q \<or> pg_round_down q + PGSIZE * m \<le> a"
        by (intro pages_disjoint_bytes A(4) arena_okD(2,3) [OF heap_invD(3) [OF inv Q(1)]]) simp_all
      then show ?thesis using h'(4) [of x] Q q mem1 [OF q] by auto
    qed
    then show ?thesis using run True h' f(2) by (intro exI [of _ h'] exI [of _ "G(a := None)"]) auto
  qed
qed

section \<open>Contents\<close>

lemma heap_inv_hmem [simp]: "heap_inv G (set_hmem m h) = heap_inv G h"
proof -
  have "arena_ok (set_hmem m h) a d n = arena_ok h a d n" for a d n
    by (simp add: arena_ok_def free_in_def split: option.splits)
  moreover have "free_lists_ok G (set_hmem m h) = free_lists_ok G h" by (simp add: free_lists_ok_def)
  ultimately show ?thesis by (simp add: heap_inv_def)
qed

lemma live_hmem [simp]: "live G (set_hmem m h) = live G h"
  by (rule ext, rule live_cong) simp

lemma block_size_of_live:
  assumes inv: "heap_inv G h" and p: "live G h p = Some c"
  shows "block_size_of p h = Some c"
  using inv p
proof (cases rule: live_cases)
  case (small a i)
  then show ?thesis
    using block_to_arena_small [OF inv small(1,3)] arena_okD(7) [OF heap_invD(3) [OF inv small(1)]] descs_okD(2) [OF heap_invD(2) [OF inv]]
    by (simp add: block_size_of_def)
next
  case (big a n)
  note A = heap_invD(3) [OF inv big(1)]
  have "12 \<le> PGSIZE * n" using arena_okD(3) [OF A] by (simp add: PGSIZE_def)
  then have "size_sub (PGSIZE * n) 12 = c" using arena_okD(4) [OF A] big(3) by (simp add: size_sub_small)
  then show ?thesis
    using block_to_arena_big [OF inv big(1)] A big_in_page(2) [OF arena_okD(2) [OF A]] big(2)
    by (simp add: block_size_of_def arena_ok_def)
qed

lemma realloc_inv:
  assumes inv: "heap_inv G h" and p: "live G h p = Some c" and n: "0 < n" "n + 4107 < 2 ^ 32"
  shows "\<exists>q h'. realloc p n h = Some (q, h') \<and>
    (if q = NULL then h' = h
     else \<exists>G' c'. heap_inv G' h' \<and> n \<le> c' \<and> live G' h' = (live G h)(p := None, q \<mapsto> c') \<and>
       (\<forall>k < min n c. hmem h' (q + k) = hmem h (p + k)) \<and>
       (\<forall>r d x. live G h r = Some d \<longrightarrow> r \<noteq> p \<longrightarrow> r \<le> x \<longrightarrow> x < r + d \<longrightarrow> hmem h' x = hmem h x))"
proof -
  have pn: "p \<noteq> NULL" by (rule live_not_null [OF inv p])
  obtain q h1 where q: "malloc n h = Some (q, h1)" "hmem h1 = hmem h" "if q = NULL then h1 = h
     else \<exists>G' c'. heap_inv G' h1 \<and> live G' h1 = (live G h)(q \<mapsto> c') \<and> live G h q = None \<and> n \<le> c'"
    using malloc_inv [OF inv n] by blast
  show ?thesis
  proof (cases "q = NULL")
    case True
    then show ?thesis using q n(1) by (simp add: realloc_def)
  next
    case False
    then obtain G1 c' where G1: "heap_inv G1 h1" "live G1 h1 = (live G h)(q \<mapsto> c')" "live G h q = None" "n \<le> c'" using q(3) by auto
    have pq: "p \<noteq> q" using p G1(3) by auto
    have l: "live G1 h1 p = Some c" "live G1 h1 q = Some c'" using p pq G1(2) by auto
    note dis = live_disjoint [OF G1(1) l pq]
    define m where "m = copy_up (min n c) q p (hmem h1)"
    have m: "m x = (if q \<le> x \<and> x < q + min n c then hmem h (p + (x - q)) else hmem h x)" for x
      unfolding m_def q(2) by (rule copy_up_eq) (use dis in auto)
    have inv2: "heap_inv G1 (set_hmem m h1)" "live G1 (set_hmem m h1) p = Some c" using G1(1) l(1) by simp_all
    obtain h' G' where h': "free p (set_hmem m h1) = Some h'" "heap_inv G' h'" "live G' h' = (live G1 h1)(p := None)"
      "\<And>r d x. live G1 h1 r = Some d \<Longrightarrow> r \<noteq> p \<Longrightarrow> r \<le> x \<Longrightarrow> x < r + d \<Longrightarrow> hmem h' x = m x"
      using free_inv [OF inv2] by auto
    have "realloc p n h = Some (q, h')"
      using q(1) n(1) pn False block_size_of_live [OF G1(1) l(1)] h'(1)
      by (cases "n < c") (simp_all add: realloc_def memcpy_def m_def Let_def min.absorb3 min.absorb2)
    moreover have "live G' h' = (live G h)(p := None, q \<mapsto> c')" using h'(3) G1(2) pq by auto
    moreover have "hmem h' (q + k) = hmem h (p + k)" if "k < min n c" for k
      using h'(4) [OF l(2), of "q + k"] pq that G1(4) m [of "q + k"] by auto
    moreover have "hmem h' x = hmem h x" if "live G h r = Some d" "r \<noteq> p" "r \<le> x" "x < r + d" for r d x
    proof -
      have rq: "r \<noteq> q" using that(1) G1(3) by auto
      then have r1: "live G1 h1 r = Some d" using that(1) G1(2) by simp
      have "\<not> (q \<le> x \<and> x < q + min n c)" using live_disjoint [OF G1(1) r1 l(2) rq] that(3,4) G1(4) by auto
      then show ?thesis using h'(4) [OF r1 that(2-4)] m [of x] by auto
    qed
    ultimately show ?thesis using False h'(2) G1(4) by (intro exI [of _ q] exI [of _ h']) auto
  qed
qed

section \<open>Initialisation\<close>

lemma desc_loop_eq: "desc_loop 16 [] = Some (map (\<lambda>i. \<lparr>block_size = bsz i, blocks_per_arena = bpa i, free_list = []\<rparr>) [0..<7])"
  by (simp add: desc_loop.simps [of 16] desc_loop.simps [of 32] desc_loop.simps [of 64] desc_loop.simps [of 128]
      desc_loop.simps [of 256] desc_loop.simps [of 512] desc_loop.simps [of 1024] desc_loop.simps [of 2048]
      PGSIZE_def sizeof_arena_def bsz_def bpa_def upt_rec)

lemma malloc_init_inv:
  assumes "pages_ok pg"
  shows "\<exists>h. malloc_init pg ar = Some h \<and> heap_inv Map.empty h \<and> live Map.empty h = Map.empty"
proof -
  define h where "h = \<lparr>hpages = pg, descs = map (\<lambda>i. \<lparr>block_size = bsz i, blocks_per_arena = bpa i, free_list = []\<rparr>) [0..<7], arenas = ar\<rparr>"
  have "descs_ok (descs h)" by (simp add: descs_ok_def h_def)
  moreover have "free_lists_ok Map.empty h" by (simp add: free_lists_ok_def h_def)
  moreover have "malloc_init pg ar = Some h" by (simp add: malloc_init_def desc_loop_eq h_def)
  ultimately show ?thesis using assms by (auto simp: heap_inv_def apart_def live_def h_def fun_eq_iff)
qed

section \<open>Properties\<close>

text \<open>
  C25. Allocation. With the blocks \<open>L\<close> handed out, \<open>malloc\<close> returns the null pointer and changes nothing, or a block that was not
  handed out, has at least the size asked for and overlaps none of the others; the contents of memory do not change. The size is
  bounded so that adding the header does not wrap around.
\<close>

theorem malloc_correct:
  assumes "heap_ok L h" "0 < sz" "sz + 4107 < 2 ^ 32"
  shows "\<exists>p h'. malloc sz h = Some (p, h') \<and> hmem h' = hmem h \<and>
    (if p = NULL then h' = h
     else \<exists>c. sz \<le> c \<and> L p = None \<and> heap_ok (L(p \<mapsto> c)) h' \<and> (\<forall>q d. L q = Some d \<longrightarrow> p + c \<le> q \<or> q + d \<le> p))"
proof -
  obtain G where G: "heap_inv G h" "L = live G h" using assms(1) by (auto simp: heap_ok_def)
  obtain p h' where p: "malloc sz h = Some (p, h')" "hmem h' = hmem h" "if p = NULL then h' = h
      else \<exists>G' c. heap_inv G' h' \<and> live G' h' = (live G h)(p \<mapsto> c) \<and> live G h p = None \<and> sz \<le> c"
    using malloc_inv [OF G(1) assms(2,3)] by blast
  show ?thesis
  proof (cases "p = NULL")
    case False
    then obtain G' c where G': "heap_inv G' h'" "live G' h' = L(p \<mapsto> c)" "L p = None" "sz \<le> c" using p(3) G(2) by auto
    have "p + c \<le> q \<or> q + d \<le> p" if "L q = Some d" for q d
    proof -
      have "p \<noteq> q" using that G'(3) by auto
      then show ?thesis using live_disjoint [OF G'(1), of p c q d] G'(2) that by simp
    qed
    moreover have "heap_ok (L(p \<mapsto> c)) h'" using G'(1,2) by (auto simp: heap_ok_def)
    ultimately show ?thesis using p False G'(3,4) by auto
  qed (use p in auto)
qed

definition demo_heap :: heap where
  "demo_heap = the (malloc_init demo_pages (\<lambda>_. \<lparr>arena_magic = 0, arena_desc = None, free_cnt = 0\<rparr>))"

lemma demo_heap_ok: "heap_ok Map.empty demo_heap"
  using malloc_init_inv [OF demo_pages_ok] unfolding demo_heap_def heap_ok_def by (metis option.sel)

theorem malloc_correct_witness:
  "\<exists>p h'. malloc 100 demo_heap = Some (p, h') \<and> hmem h' = hmem demo_heap \<and>
    (if p = NULL then h' = demo_heap else \<exists>c. 100 \<le> c \<and> heap_ok [p \<mapsto> c] h')"
  using malloc_correct [OF demo_heap_ok, of 100] by fastforce

text \<open>
  C26. Release. Freeing a block that is handed out succeeds, whatever the state of its arena, makes it available again and leaves
  every other block handed out with its contents.
\<close>

theorem free_correct:
  assumes "heap_ok L h" "L p = Some c"
  shows "\<exists>h'. free p h = Some h' \<and> heap_ok (L(p := None)) h' \<and>
    (\<forall>q d x. L q = Some d \<longrightarrow> q \<noteq> p \<longrightarrow> q \<le> x \<longrightarrow> x < q + d \<longrightarrow> hmem h' x = hmem h x)"
proof -
  obtain G where G: "heap_inv G h" "L = live G h" using assms(1) by (auto simp: heap_ok_def)
  show ?thesis using free_inv [OF G(1)] assms(2) G(2) unfolding heap_ok_def by metis
qed

lemma demo_malloc:
  obtains p c h where "malloc 100 demo_heap = Some (p, h)" "heap_ok [p \<mapsto> c] h"
proof -
  have fl: "fl demo_heap i = []" if "i < 7" for i
    using that by (simp add: demo_heap_def malloc_init_def desc_loop_eq)
  have inv: "heap_inv Map.empty demo_heap" using malloc_init_inv [OF demo_pages_ok] unfolding demo_heap_def by (metis option.sel)
  have pg: "hpages demo_heap = demo_pages" by (simp add: demo_heap_def malloc_init_def desc_loop_eq)
  have fd: "find_desc 100 0 (descs demo_heap) = Some 3"
    by (simp add: demo_heap_def malloc_init_def desc_loop_eq upt_rec bsz_def)
  have le: "live Map.empty demo_heap = Map.empty" by (simp add: live_def fun_eq_iff)
  obtain r where r: "new_arena 3 demo_heap = Some r" "case r of Inl h' \<Rightarrow> h' = demo_heap \<and> free_pages False (hpages demo_heap) = {}
     | Inr h' \<Rightarrow> \<exists>G'. heap_inv G' h' \<and> live G' h' = Map.empty \<and> fl h' 3 \<noteq> [] \<and> hmem h' = hmem demo_heap"
    using new_arena_inv [OF inv, of 3] fl [of 3] unfolding le by auto
  obtain h1 G1 where h1: "new_arena 3 demo_heap = Some (Inr h1)" "heap_inv G1 h1" "live G1 h1 = Map.empty" "fl h1 3 \<noteq> []"
    using r demo_pages_free pg by (cases r) auto
  obtain b bs where "fl h1 3 = b # bs" using h1(4) by (cases "fl h1 3") auto
  then obtain h where "pop_block 3 h1 = Some (b, h)" "heap_inv G1 h" "live G1 h = [b \<mapsto> bsz 3]"
    using pop_block_inv [OF h1(2), of 3 b bs] h1(3) by auto
  then have "malloc 100 demo_heap = Some (b, h)" "heap_ok [b \<mapsto> bsz 3] h"
    using h1(1) fd fl [of 3] by (simp add: malloc_def, metis heap_ok_def)
  then show thesis by (rule that)
qed

theorem free_correct_witness:
  "\<exists>p h h'. malloc 100 demo_heap = Some (p, h) \<and> free p h = Some h' \<and> heap_ok Map.empty h'"
proof -
  obtain p c h where "malloc 100 demo_heap = Some (p, h)" "heap_ok [p \<mapsto> c] h" by (rule demo_malloc)
  then show ?thesis using free_correct [of "[p \<mapsto> c]" h p c] by auto
qed

text \<open>
  C27. Resizing. \<open>realloc\<close> returns the null pointer and changes nothing, or a block of at least the new size in place of the old
  one, which begins with the old contents as far as both sizes reach; every other block keeps its contents.
\<close>

theorem realloc_keeps_contents:
  assumes "heap_ok L h" "L p = Some c" "0 < n" "n + 4107 < 2 ^ 32"
  shows "\<exists>q h'. realloc p n h = Some (q, h') \<and>
    (if q = NULL then h' = h
     else \<exists>c'. n \<le> c' \<and> heap_ok (L(p := None, q \<mapsto> c')) h' \<and> (\<forall>k < min n c. hmem h' (q + k) = hmem h (p + k)) \<and>
       (\<forall>r d x. L r = Some d \<longrightarrow> r \<noteq> p \<longrightarrow> r \<le> x \<longrightarrow> x < r + d \<longrightarrow> hmem h' x = hmem h x))"
proof -
  obtain G where G: "heap_inv G h" "L = live G h" using assms(1) by (auto simp: heap_ok_def)
  show ?thesis using realloc_inv [OF G(1) _ assms(3,4)] assms(2) G(2) unfolding heap_ok_def by metis
qed

theorem realloc_keeps_contents_witness:
  "\<exists>p c h q h'. malloc 100 demo_heap = Some (p, h) \<and> realloc p 200 h = Some (q, h') \<and>
    (if q = NULL then h' = h
     else \<exists>c'. 200 \<le> c' \<and> heap_ok [q \<mapsto> c'] h' \<and> (\<forall>k < min 200 c. hmem h' (q + k) = hmem h (p + k)))"
proof -
  obtain p c h where p: "malloc 100 demo_heap = Some (p, h)" "heap_ok [p \<mapsto> c] h" by (rule demo_malloc)
  have "[p \<mapsto> c] p = Some c" "(0 :: nat) < 200" "200 + 4107 < (2 :: nat) ^ 32" by simp_all
  from realloc_keeps_contents [OF p(2) this] obtain q h' where q: "realloc p 200 h = Some (q, h')" and
    r: "if q = NULL then h' = h else \<exists>c'. 200 \<le> c' \<and> heap_ok ([p \<mapsto> c](p := None, q \<mapsto> c')) h' \<and>
      (\<forall>k < min 200 c. hmem h' (q + k) = hmem h (p + k)) \<and>
      (\<forall>r d x. [p \<mapsto> c] r = Some d \<longrightarrow> r \<noteq> p \<longrightarrow> r \<le> x \<longrightarrow> x < r + d \<longrightarrow> hmem h' x = hmem h x)"
    by blast
  have e: "[p \<mapsto> c](p := None, q \<mapsto> c') = [q \<mapsto> c']" for c' by auto
  have "if q = NULL then h' = h else \<exists>c'. 200 \<le> c' \<and> heap_ok [q \<mapsto> c'] h' \<and> (\<forall>k < min 200 c. hmem h' (q + k) = hmem h (p + k))"
    using r unfolding e by (metis (full_types))
  then show ?thesis using p(1) q by blast
qed

text \<open>
  The overflow test of \<open>calloc\<close> compares the product with its factors, which misses most overflows: a request for
  65537 times 65537 bytes, four gigabytes, gets a block of 131073 bytes.
\<close>

lemma calloc_overflow_missed:
  "calloc 65537 65537 h = do {
     (p, h) \<leftarrow> malloc 131073 h;
     if p \<noteq> NULL then do { (_, m) \<leftarrow> memset p 0 131073 (hmem h); Some (p, set_hmem m h) } else Some (p, h) }"
  by (simp add: calloc_def)

text \<open>Adding the header to the size wraps around in \<open>malloc\<close>: nearly four gigabytes are asked for, one page is allocated.\<close>

lemma malloc_size_wraps:
  "malloc_big (2 ^ 32 - 11) h = do {
     (a, pg) \<leftarrow> palloc_get_multiple 0 1 (hpages h);
     let h = h\<lparr>hpages := pg\<rparr>;
     if a = NULL then Some (NULL, h)
     else Some (a + sizeof_arena, set_arena a \<lparr>arena_magic = ARENA_MAGIC, arena_desc = None, free_cnt = 1\<rparr> h) }"
  by (simp add: malloc_big_def sizeof_arena_def PGSIZE_def Let_def cong: if_cong)

end
