(* ===== verification/Inode_IO.thy ===== *)
theory Inode_IO
  imports Bitmap Block_Alloc
begin

text \<open>
  Reading and writing files: the block device as far as the file system uses it (\<^verbatim>\<open>devices/block.c\<close>), the inodes and their data
  (\<^verbatim>\<open>filesys/inode.c\<close>) and open files (\<^verbatim>\<open>filesys/file.c\<close>). A disk is a list of sectors of 512 bytes. Buffers are lists of bytes.
  Allocations of memory may fail: \<open>avail\<close> lists the outcomes of the next ones, after which they succeed, each with an address that is not in
  use (see \<open>Block_Alloc\<close>). Offsets and sizes are \<^verbatim>\<open>off_t\<close>, signed 32-bit numbers.
\<close>

section \<open>Data\<close>

definition BLOCK_SECTOR_SIZE :: nat where "BLOCK_SECTOR_SIZE = 512"

definition INODE_MAGIC :: u32 where "INODE_MAGIC = 0x494e4f44"

record inode_disk =
  start :: u32
  len :: int
  dmagic :: u32

record inode =
  sector :: nat
  open_cnt :: int
  removed :: bool
  deny_write_cnt :: int
  data :: inode_disk

record open_file =
  file_inode :: addr
  pos :: int
  deny_write :: bool

record fs =
  disk :: "u8 list list"
  free_map :: bitmap
  free_map_file :: addr
  open_inodes :: "addr list"
  inodes :: "addr \<Rightarrow> inode"
  files :: "addr \<Rightarrow> open_file"
  avail :: "bool list"
  next_addr :: addr

text \<open>\<^verbatim>\<open>malloc\<close> and \<^verbatim>\<open>calloc\<close> as the file system calls them.\<close>

definition fs_malloc :: "fs \<Rightarrow> addr \<times> fs" where
  "fs_malloc s = (case avail s of
     False # bs \<Rightarrow> (NULL, s\<lparr>avail := bs\<rparr>)
   | _ \<Rightarrow> (next_addr s, s\<lparr>avail := tl (avail s), next_addr := next_addr s + 1\<rparr>))"

section \<open>The block device\<close>

text \<open>The one device of the model is the file system's, which is not of the type \<^verbatim>\<open>BLOCK_FOREIGN\<close>; its counters of reads and writes are left out.\<close>

definition check_sector :: "nat \<Rightarrow> fs \<Rightarrow> unit option" where
  "check_sector sec s = ASSERT (sec < length (disk s))"

definition block_read :: "nat \<Rightarrow> fs \<Rightarrow> u8 list option" where
  "block_read sec s = do { check_sector sec s; Some (disk s ! sec) }"

definition block_write :: "nat \<Rightarrow> u8 list \<Rightarrow> fs \<Rightarrow> fs option" where
  "block_write sec buffer s = do { check_sector sec s; Some (s\<lparr>disk := (disk s)[sec := buffer]\<rparr>) }"

section \<open>Inodes\<close>

definition bytes_to_sectors :: "int \<Rightarrow> nat" where
  "bytes_to_sectors sz = nat (c_div (s32 (sz + 512 - 1)) 512 mod 2 ^ 32)"

definition inode_length :: "addr \<Rightarrow> fs \<Rightarrow> int" where
  "inode_length p s = len (data (inodes s p))"

definition byte_to_sector :: "addr \<Rightarrow> int \<Rightarrow> fs \<Rightarrow> nat option" where
  "byte_to_sector p ps s = do {
     ASSERT (p \<noteq> NULL);
     if ps < len (data (inodes s p))
     then Some (unat (start (data (inodes s p)) + word_of_int (c_div ps 512)))
     else Some (2 ^ 32 - 1) }"

text \<open>The sizes that both loops compute: the offset in the sector and the number of bytes to copy.\<close>

definition chunk :: "addr \<Rightarrow> int \<Rightarrow> int \<Rightarrow> fs \<Rightarrow> int" where
  "chunk p sz ofs s =
     (let sector_ofs = c_mod ofs 512;
          inode_left = s32 (inode_length p s - ofs);
          sector_left = 512 - sector_ofs;
          min_left = (if inode_left < sector_left then inode_left else sector_left)
      in if sz < min_left then sz else min_left)"

text \<open>\<open>bounce\<close>: whether the bounce buffer has been allocated. \<open>acc\<close>: the bytes in the caller's buffer.\<close>

function (sequential) read_loop :: "addr \<Rightarrow> int \<Rightarrow> int \<Rightarrow> u8 list \<Rightarrow> bool \<Rightarrow> fs \<Rightarrow> (u8 list \<times> fs) option" where
  "read_loop p sz ofs acc bounce s =
     (if sz > 0
      then do {
        sector_idx \<leftarrow> byte_to_sector p ofs s;
        let sector_ofs = c_mod ofs 512;
        let chunk_size = chunk p sz ofs s;
        if chunk_size \<le> 0 then Some (acc, s)
        else if sector_ofs = 0 \<and> chunk_size = 512
        then do {
          d \<leftarrow> block_read sector_idx s;
          read_loop p (sz - chunk_size) (s32 (ofs + chunk_size)) (acc @ d) bounce s }
        else do {
          let (b, s) = (if bounce then (1, s) else fs_malloc s);
          if b = NULL then Some (acc, s)
          else do {
            d \<leftarrow> block_read sector_idx s;
            read_loop p (sz - chunk_size) (s32 (ofs + chunk_size)) (acc @ take (nat chunk_size) (drop (nat sector_ofs) d)) True s } } }
      else Some (acc, s))"
  by pat_completeness auto
termination by (relation "measure (\<lambda>(p, sz, ofs, acc, bounce, s). nat sz)") auto

declare read_loop.simps [simp del]

definition inode_read_at :: "addr \<Rightarrow> int \<Rightarrow> int \<Rightarrow> fs \<Rightarrow> (u8 list \<times> fs) option" where
  "inode_read_at p sz ofs s = read_loop p sz ofs [] False s"

function (sequential) write_loop :: "addr \<Rightarrow> u8 list \<Rightarrow> int \<Rightarrow> int \<Rightarrow> int \<Rightarrow> bool \<Rightarrow> fs \<Rightarrow> (int \<times> fs) option" where
  "write_loop p buffer sz ofs bytes_written bounce s =
     (if sz > 0
      then do {
        sector_idx \<leftarrow> byte_to_sector p ofs s;
        let sector_ofs = c_mod ofs 512;
        let chunk_size = chunk p sz ofs s;
        if chunk_size \<le> 0 then Some (bytes_written, s)
        else if sector_ofs = 0 \<and> chunk_size = 512
        then do {
          s \<leftarrow> block_write sector_idx (take 512 buffer) s;
          write_loop p (drop 512 buffer) (sz - chunk_size) (s32 (ofs + chunk_size)) (bytes_written + chunk_size) bounce s }
        else do {
          let (b, s) = (if bounce then (1, s) else fs_malloc s);
          if b = NULL then Some (bytes_written, s)
          else do {
            d \<leftarrow> (if sector_ofs > 0 \<or> chunk_size < 512 - sector_ofs then block_read sector_idx s
                  else Some (replicate BLOCK_SECTOR_SIZE 0));
            let d = take (nat sector_ofs) d @ take (nat chunk_size) buffer @ drop (nat sector_ofs + nat chunk_size) d;
            s \<leftarrow> block_write sector_idx d s;
            write_loop p (drop (nat chunk_size) buffer) (sz - chunk_size) (s32 (ofs + chunk_size)) (bytes_written + chunk_size) True s } } }
      else Some (bytes_written, s))"
  by pat_completeness auto
termination by (relation "measure (\<lambda>(p, buffer, sz, ofs, n, bounce, s). nat sz)") auto

declare write_loop.simps [simp del]

definition inode_write_at :: "addr \<Rightarrow> u8 list \<Rightarrow> int \<Rightarrow> int \<Rightarrow> fs \<Rightarrow> (int \<times> fs) option" where
  "inode_write_at p buffer sz ofs s =
     (if deny_write_cnt (inodes s p) \<noteq> 0 then Some (0, s) else write_loop p buffer sz ofs 0 False s)"

definition upd_inode :: "addr \<Rightarrow> (inode \<Rightarrow> inode) \<Rightarrow> fs \<Rightarrow> fs" where
  "upd_inode p f s = s\<lparr>inodes := (inodes s)(p := f (inodes s p))\<rparr>"

definition inode_deny_write :: "addr \<Rightarrow> fs \<Rightarrow> fs option" where
  "inode_deny_write p s = do {
     let s = upd_inode p (\<lambda>i. i\<lparr>deny_write_cnt := deny_write_cnt i + 1\<rparr>) s;
     ASSERT (deny_write_cnt (inodes s p) \<le> open_cnt (inodes s p));
     Some s }"

definition inode_allow_write :: "addr \<Rightarrow> fs \<Rightarrow> fs option" where
  "inode_allow_write p s = do {
     ASSERT (deny_write_cnt (inodes s p) > 0);
     ASSERT (deny_write_cnt (inodes s p) \<le> open_cnt (inodes s p));
     Some (upd_inode p (\<lambda>i. i\<lparr>deny_write_cnt := deny_write_cnt i - 1\<rparr>) s) }"

definition inode_reopen :: "addr \<Rightarrow> fs \<Rightarrow> addr \<times> fs" where
  "inode_reopen p s = (if p \<noteq> NULL then (p, upd_inode p (\<lambda>i. i\<lparr>open_cnt := open_cnt i + 1\<rparr>) s) else (p, s))"

definition inode_get_inumber :: "addr \<Rightarrow> fs \<Rightarrow> nat" where
  "inode_get_inumber p s = sector (inodes s p)"

definition inode_remove :: "addr \<Rightarrow> fs \<Rightarrow> fs option" where
  "inode_remove p s = do {
     ASSERT (p \<noteq> NULL);
     Some (upd_inode p (\<lambda>i. i\<lparr>removed := True\<rparr>) s) }"

section \<open>Open files\<close>

definition upd_file :: "addr \<Rightarrow> (open_file \<Rightarrow> open_file) \<Rightarrow> fs \<Rightarrow> fs" where
  "upd_file f g s = s\<lparr>files := (files s)(f := g (files s f))\<rparr>"

definition file_get_inode :: "addr \<Rightarrow> fs \<Rightarrow> addr" where
  "file_get_inode f s = file_inode (files s f)"

definition file_read :: "addr \<Rightarrow> int \<Rightarrow> fs \<Rightarrow> (u8 list \<times> fs) option" where
  "file_read f sz s = do {
     (bs, s) \<leftarrow> inode_read_at (file_inode (files s f)) sz (pos (files s f)) s;
     Some (bs, upd_file f (\<lambda>v. v\<lparr>pos := s32 (pos v + int (length bs))\<rparr>) s) }"

definition file_read_at :: "addr \<Rightarrow> int \<Rightarrow> int \<Rightarrow> fs \<Rightarrow> (u8 list \<times> fs) option" where
  "file_read_at f sz file_ofs s = inode_read_at (file_inode (files s f)) sz file_ofs s"

definition file_write :: "addr \<Rightarrow> u8 list \<Rightarrow> int \<Rightarrow> fs \<Rightarrow> (int \<times> fs) option" where
  "file_write f buffer sz s = do {
     (n, s) \<leftarrow> inode_write_at (file_inode (files s f)) buffer sz (pos (files s f)) s;
     Some (n, upd_file f (\<lambda>v. v\<lparr>pos := s32 (pos v + n)\<rparr>) s) }"

definition file_write_at :: "addr \<Rightarrow> u8 list \<Rightarrow> int \<Rightarrow> int \<Rightarrow> fs \<Rightarrow> (int \<times> fs) option" where
  "file_write_at f buffer sz file_ofs s = inode_write_at (file_inode (files s f)) buffer sz file_ofs s"

definition file_deny_write :: "addr \<Rightarrow> fs \<Rightarrow> fs option" where
  "file_deny_write f s = do {
     ASSERT (f \<noteq> NULL);
     if \<not> deny_write (files s f)
     then inode_deny_write (file_inode (files s f)) (upd_file f (\<lambda>v. v\<lparr>deny_write := True\<rparr>) s)
     else Some s }"

definition file_allow_write :: "addr \<Rightarrow> fs \<Rightarrow> fs option" where
  "file_allow_write f s = do {
     ASSERT (f \<noteq> NULL);
     if deny_write (files s f)
     then inode_allow_write (file_inode (files s f)) (upd_file f (\<lambda>v. v\<lparr>deny_write := False\<rparr>) s)
     else Some s }"

definition file_length :: "addr \<Rightarrow> fs \<Rightarrow> int option" where
  "file_length f s = do { ASSERT (f \<noteq> NULL); Some (inode_length (file_inode (files s f)) s) }"

definition file_seek :: "addr \<Rightarrow> int \<Rightarrow> fs \<Rightarrow> fs option" where
  "file_seek f new_pos s = do {
     ASSERT (f \<noteq> NULL);
     ASSERT (new_pos \<ge> 0);
     Some (upd_file f (\<lambda>v. v\<lparr>pos := new_pos\<rparr>) s) }"

definition file_tell :: "addr \<Rightarrow> fs \<Rightarrow> int option" where
  "file_tell f s = do { ASSERT (f \<noteq> NULL); Some (pos (files s f)) }"

section \<open>The bytes of a disk\<close>

definition disk_wf :: "fs \<Rightarrow> bool" where
  "disk_wf s \<longleftrightarrow> (\<forall>x\<in>set (disk s). length x = 512) \<and> length (disk s) \<le> 2 ^ 32"

definition dbyte :: "fs \<Rightarrow> nat \<Rightarrow> u8" where
  "dbyte s a = disk s ! (a div 512) ! (a mod 512)"

text \<open>An inode in memory whose data lie on the disk, the position of its first byte, and its contents.\<close>

definition inode_ok :: "fs \<Rightarrow> addr \<Rightarrow> bool" where
  "inode_ok s p \<longleftrightarrow> p \<noteq> NULL \<and> disk_wf s \<and> 0 \<le> inode_length p s \<and> inode_length p s \<le> 2 ^ 31 - 512 \<and>
     unat (start (data (inodes s p))) + bytes_to_sectors (inode_length p s) \<le> length (disk s)"

definition base_of :: "fs \<Rightarrow> addr \<Rightarrow> nat" where
  "base_of s p = 512 * unat (start (data (inodes s p)))"

definition contents :: "fs \<Rightarrow> addr \<Rightarrow> u8 list" where
  "contents s p = map (\<lambda>k. dbyte s (base_of s p + k)) [0..<nat (inode_length p s)]"

lemma length_contents [simp]: "length (contents s p) = nat (inode_length p s)"
  by (simp add: contents_def)

lemma contents_slice:
  assumes "k + n \<le> nat (inode_length p s)"
  shows "take n (drop k (contents s p)) = map (dbyte s) [base_of s p + k..<base_of s p + k + n]"
  by (rule nth_equalityI) (use assms in \<open>simp_all add: contents_def add.assoc\<close>)

lemma bytes_to_sectors_eq:
  assumes "l \<le> 2 ^ 31 - 512"
  shows "bytes_to_sectors (int l) = (l + 511) div 512"
proof -
  have "s32 (int l + 512 - 1) = int l + 511" using assms by (intro s32_id [THEN trans]) (auto simp: in_s32_def)
  moreover have "(int l + 511) div 512 < 2 ^ 32" using assms by simp
  moreover have "(int l + 511) div 512 = int ((l + 511) div 512)" by (simp add: zdiv_int)
  ultimately show ?thesis by (simp add: bytes_to_sectors_def)
qed

lemma sector_slice:
  assumes "disk_wf s" "sec < length (disk s)" "j + c \<le> 512"
  shows "take c (drop j (disk s ! sec)) = map (dbyte s) [512 * sec + j..<512 * sec + j + c]"
proof (rule nth_equalityI)
  have l: "length (disk s ! sec) = 512" using assms(1,2) by (simp add: disk_wf_def)
  then show "length (take c (drop j (disk s ! sec))) = length (map (dbyte s) [512 * sec + j..<512 * sec + j + c])"
    using assms(3) by simp
  fix i assume "i < length (take c (drop j (disk s ! sec)))"
  then have i: "i < c" by simp
  have e: "(512 * sec + j + i) div 512 = sec" using i assms(3) by simp
  have "(512 * sec + (j + i)) mod 512 = j + i" using i assms(3) by (subst mod_mult_self4) simp
  then have "(512 * sec + j + i) mod 512 = j + i" by (simp only: add.assoc)
  note e = e this
  then show "take c (drop j (disk s ! sec)) ! i = map (dbyte s) [512 * sec + j..<512 * sec + j + c] ! i"
    using i l assms(3) e by (simp add: dbyte_def)
qed

section \<open>One step of the loops\<close>

lemma c_mod_512 [simp]: "c_mod (int k) 512 = int (k mod 512)"
  by (simp add: c_mod_def zmod_int minus_mult_div_eq_mod)

text \<open>The file is \<open>l\<close> bytes long and the position is \<open>k\<close>.\<close>

lemma inode_ok_bound: "inode_ok s p \<Longrightarrow> inode_length p s = int l \<Longrightarrow> l \<le> 2 ^ 31 - 512"
  by (simp add: inode_ok_def)

lemma min_int:
  "(if int z < (if int a < int b then int a else int b) then int z else if int a < int b then int a else int b) = int (min z (min a b))"
  by auto

lemma chunk_in:
  assumes "inode_ok s p" "inode_length p s = int l" "k < l"
  shows "chunk p (int z) (int k) s = int (min z (min (l - k) (512 - k mod 512)))"
proof -
  have "in_s32 (int l - int k)" using inode_ok_bound [OF assms(1,2)] assms(3) by (auto simp: in_s32_def)
  then have a: "s32 (int l - int k) = int (l - k)" using assms(3) by simp
  have b: "512 - int (k mod 512) = int (512 - k mod 512)" by simp
  show ?thesis unfolding chunk_def assms(2) c_mod_512 Let_def a b by (rule min_int)
qed

lemma chunk_out:
  assumes "inode_length p s = int l" "l \<le> k" "k < 2 ^ 31"
  shows "chunk p z (int k) s \<le> 0"
proof -
  have "in_s32 (int l - int k)" using assms(2,3) by (auto simp: in_s32_def)
  then show ?thesis using assms(1,2) by (auto simp: chunk_def Let_def)
qed

lemma sector_bound:
  assumes "inode_ok s p" "inode_length p s = int l" "k < l"
  shows "unat (start (data (inodes s p))) + k div 512 < length (disk s)"
proof -
  have "k div 512 < (l + 511) div 512" using assms(3) by linarith
  then show ?thesis using assms(1,2) bytes_to_sectors_eq [OF inode_ok_bound [OF assms(1,2)]] by (simp add: inode_ok_def)
qed

lemma to_sector:
  assumes "inode_ok s p" "inode_length p s = int l" "k < l"
  shows "byte_to_sector p (int k) s = Some (unat (start (data (inodes s p))) + k div 512)"
proof -
  have "unat (start (data (inodes s p))) + k div 512 < 2 ^ 32"
    using sector_bound [OF assms] assms(1) by (simp add: inode_ok_def disk_wf_def)
  moreover have "word_of_int (int k div 512) = (of_nat (k div 512) :: u32)"
    by (metis of_int_of_nat_eq of_nat_numeral zdiv_int)
  ultimately have "unat (start (data (inodes s p)) + word_of_int (int k div 512)) = unat (start (data (inodes s p))) + k div 512"
    by (simp add: unat_word_ariths unat_of_nat mod_simps)
  then show ?thesis using assms by (simp add: byte_to_sector_def inode_ok_def inode_length_def)
qed

lemma to_sector_out:
  "inode_ok s p \<Longrightarrow> inode_length p s = int l \<Longrightarrow> l \<le> k \<Longrightarrow> byte_to_sector p (int k) s = Some (2 ^ 32 - 1)"
  by (simp add: byte_to_sector_def inode_ok_def inode_length_def)

lemma position: "512 * (unat (start (data (inodes s p))) + k div 512) + k mod 512 = base_of s p + k"
  by (simp add: base_of_def distrib_left)

section \<open>Reading\<close>

text \<open>What the loops leave alone: everything but the record of allocations, and in the case of writing the disk.\<close>

definition same_io :: "fs \<Rightarrow> fs \<Rightarrow> bool" where
  "same_io s s' \<longleftrightarrow> disk s' = disk s \<and> inodes s' = inodes s \<and> files s' = files s \<and> free_map s' = free_map s \<and>
     free_map_file s' = free_map_file s \<and> open_inodes s' = open_inodes s \<and> next_addr s \<le> next_addr s' \<and>
     (avail s = [] \<longrightarrow> avail s' = [])"

lemma same_io_refl [simp]: "same_io s s"
  by (simp add: same_io_def)

lemma same_io_trans: "same_io s t \<Longrightarrow> same_io t u \<Longrightarrow> same_io s u"
  by (auto simp: same_io_def)

lemma same_ioD:
  assumes "same_io s s'"
  shows "disk s' = disk s" "inodes s' = inodes s" "files s' = files s" "free_map s' = free_map s" "free_map_file s' = free_map_file s"
    "open_inodes s' = open_inodes s" "next_addr s \<le> next_addr s'" "avail s = [] \<Longrightarrow> avail s' = []"
  using assms by (auto simp: same_io_def)

lemma same_io_ok:
  assumes "same_io s s'"
  shows "inode_ok s' p = inode_ok s p" "inode_length p s' = inode_length p s" "dbyte s' = dbyte s" "base_of s' p = base_of s p"
  using same_ioD(1,2) [OF assms] by (auto simp: inode_ok_def inode_length_def disk_wf_def dbyte_def base_of_def fun_eq_iff)

lemma fs_malloc_same:
  assumes "fs_malloc s = (b, s')"
  shows "same_io s s'" "avail s = [] \<Longrightarrow> 0 < next_addr s \<Longrightarrow> b \<noteq> NULL"
  using assms by (auto simp: fs_malloc_def same_io_def split: list.splits bool.splits)

lemma upt_append: "i \<le> j \<Longrightarrow> j \<le> k \<Longrightarrow> [i..<j] @ [j..<k] = [i..<k]"
  by (metis le_add_diff_inverse upt_add_eq_append)

lemma read_loop_eq:
  assumes "inode_ok s p" "inode_length p s = int l" "k < 2 ^ 31" "0 < next_addr s"
  shows "\<exists>n s'. read_loop p (int z) (int k) acc bounce s =
      Some (acc @ map (dbyte s) [base_of s p + k..<base_of s p + k + n], s') \<and> same_io s s' \<and> n \<le> min z (l - k) \<and>
      (bounce \<or> avail s = [] \<longrightarrow> n = min z (l - k))"
  using assms
proof (induction z arbitrary: k acc bounce s rule: less_induct)
  case (less z)
  note ok = less.prems(1) and len = less.prems(2)
  consider "z = 0" | "0 < z" "l \<le> k" | "0 < z" "k < l" by linarith
  then show ?case
  proof cases
    case 1
    then show ?thesis by (intro exI [of _ 0] exI [of _ s]) (simp add: read_loop.simps)
  next
    case 2
    then show ?thesis
      using to_sector_out [OF ok len 2(2)] chunk_out [OF len 2(2) less.prems(3), of "int z"]
      by (intro exI [of _ 0] exI [of _ s], subst read_loop.simps) (simp add: Let_def)
  next
    case 3
    define n0 where "n0 = min z (min (l - k) (512 - k mod 512))"
    let ?sec = "unat (start (data (inodes s p))) + k div 512"
    have c: "0 < n0" "n0 \<le> z" "k + n0 \<le> l" "k mod 512 + n0 \<le> 512" using 3 unfolding n0_def by (auto simp: min_def)
    have ch: "chunk p (int z) (int k) s = int n0" unfolding n0_def by (rule chunk_in [OF ok len 3(2)])
    have wf: "disk_wf s" "length (disk s ! ?sec) = 512" and sec: "?sec < length (disk s)"
      using ok sector_bound [OF ok len 3(2)] by (auto simp: inode_ok_def disk_wf_def)
    have next_k: "s32 (int k + int n0) = int (k + n0)" "k + n0 < 2 ^ 31"
      using c(3) inode_ok_bound [OF ok len] by (auto simp: in_s32_def)
    have next_z: "int z - int n0 = int (z - n0)" using c(2) by simp
    have slice: "take n0 (drop (k mod 512) (disk s ! ?sec)) = map (dbyte s) [base_of s p + k..<base_of s p + k + n0]"
      using sector_slice [OF wf(1) sec c(4)] by (simp only: position)
    have rd: "block_read ?sec t = Some (disk s ! ?sec)" if "same_io s t" for t
      using sec same_ioD(1) [OF that] by (simp add: block_read_def check_sector_def)
    have rest: "\<exists>n s'. read_loop p (int z - int n0) (s32 (int k + int n0)) (acc @ take n0 (drop (k mod 512) (disk s ! ?sec))) bn t =
        Some (acc @ map (dbyte s) [base_of s p + k..<base_of s p + k + n], s') \<and> same_io s s' \<and> n \<le> min z (l - k) \<and>
        (bn \<or> avail t = [] \<longrightarrow> n = min z (l - k))" if t: "same_io s t" for bn t
    proof -
      have T: "z - n0 < z" "inode_ok t p" "inode_length p t = int l" "0 < next_addr t"
        using same_io_ok(1,2) [OF t] ok len less.prems(4) same_ioD(7) [OF t] c(1,2) by simp_all
      obtain n s' where n: "read_loop p (int (z - n0)) (int (k + n0)) (acc @ map (dbyte s) [base_of s p + k..<base_of s p + k + n0]) bn t =
          Some ((acc @ map (dbyte s) [base_of s p + k..<base_of s p + k + n0]) @
            map (dbyte s) [base_of s p + (k + n0)..<base_of s p + (k + n0) + n], s')" "same_io t s'"
        "n \<le> min (z - n0) (l - (k + n0))" "bn \<or> avail t = [] \<longrightarrow> n = min (z - n0) (l - (k + n0))"
        using less.IH [OF T(1,2,3) next_k(2) T(4)] unfolding same_io_ok(3,4) [OF t] by blast
      have "map (dbyte s) [base_of s p + k..<base_of s p + k + n0] @ map (dbyte s) [base_of s p + (k + n0)..<base_of s p + (k + n0) + n] =
          map (dbyte s) [base_of s p + k..<base_of s p + k + (n0 + n)]"
        by (simp only: map_append [symmetric] add.assoc [symmetric]) (simp add: upt_append)
      moreover have "n0 + n \<le> min z (l - k)" "bn \<or> avail t = [] \<longrightarrow> n0 + n = min z (l - k)" using n(3,4) c by auto
      ultimately show ?thesis unfolding next_k(1) next_z slice using n(1) same_io_trans [OF t n(2)]
        by (intro exI [of _ "n0 + n"] exI [of _ s']) simp
    qed
    show ?thesis
    proof (cases "k mod 512 = 0 \<and> n0 = 512")
      case True
      then have full: "take n0 (drop (k mod 512) (disk s ! ?sec)) = disk s ! ?sec" using wf(2) by simp
      have "read_loop p (int z) (int k) acc bounce s =
          read_loop p (int z - int n0) (s32 (int k + int n0)) (acc @ disk s ! ?sec) bounce s"
        using 3(1) to_sector [OF ok len 3(2)] ch c(1) True rd [OF same_io_refl]
        by (subst read_loop.simps) (simp add: Let_def)
      then show ?thesis using rest [OF same_io_refl, of bounce] unfolding full by simp
    next
      case False
      obtain b t where bt: "(if bounce then (1, s) else fs_malloc s) = (b, t)" by fastforce
      have st: "same_io s t" using bt fs_malloc_same(1) by (auto split: if_splits)
      have nf: "\<not> (int (k mod 512) = 0 \<and> int n0 = 512)" using False by (metis of_nat_eq_0_iff of_nat_eq_iff of_nat_numeral)
      show ?thesis
      proof (cases "b = NULL")
        case True
        have "\<not> bounce" "avail s \<noteq> []" using bt True fs_malloc_same(2) [of s b t] less.prems(4) by (auto split: if_splits)
        moreover have "read_loop p (int z) (int k) acc bounce s = Some (acc, t)"
          using 3(1) to_sector [OF ok len 3(2)] ch c(1) nf bt True
          by (subst read_loop.simps) (auto simp: Let_def)
        ultimately show ?thesis using st by (intro exI [of _ 0] exI [of _ t]) simp
      next
        case b: False
        have "read_loop p (int z) (int k) acc bounce s =
            read_loop p (int z - int n0) (s32 (int k + int n0)) (acc @ take n0 (drop (k mod 512) (disk s ! ?sec))) True t"
          using 3(1) to_sector [OF ok len 3(2)] ch c(1) nf bt b rd [OF st]
          by (subst read_loop.simps) (auto simp: Let_def)
        then show ?thesis using rest [OF st, of True] by metis
      qed
    qed
  qed
qed

section \<open>Writing\<close>

definition same_fs :: "fs \<Rightarrow> fs \<Rightarrow> bool" where
  "same_fs s s' \<longleftrightarrow> length (disk s') = length (disk s) \<and> (disk_wf s \<longrightarrow> disk_wf s') \<and> inodes s' = inodes s \<and> files s' = files s \<and>
     free_map s' = free_map s \<and> free_map_file s' = free_map_file s \<and> open_inodes s' = open_inodes s \<and> next_addr s \<le> next_addr s' \<and>
     (avail s = [] \<longrightarrow> avail s' = [])"

lemma same_fs_refl [simp]: "same_fs s s"
  by (simp add: same_fs_def)

lemma same_fs_trans: "same_fs s t \<Longrightarrow> same_fs t u \<Longrightarrow> same_fs s u"
  by (auto simp: same_fs_def)

lemma same_io_fs: "same_io s t \<Longrightarrow> same_fs s t"
  by (simp add: same_io_def same_fs_def disk_wf_def)

lemma same_fsD:
  assumes "same_fs s s'"
  shows "length (disk s') = length (disk s)" "disk_wf s \<Longrightarrow> disk_wf s'" "inodes s' = inodes s" "files s' = files s"
    "free_map s' = free_map s" "free_map_file s' = free_map_file s" "open_inodes s' = open_inodes s" "next_addr s \<le> next_addr s'"
    "avail s = [] \<Longrightarrow> avail s' = []"
  using assms by (auto simp: same_fs_def)

lemma same_fs_ok:
  assumes "same_fs s s'"
  shows "inode_ok s p \<Longrightarrow> inode_ok s' p" "inode_length p s' = inode_length p s" "base_of s' p = base_of s p"
  using same_fsD(1-3) [OF assms] by (auto simp: inode_ok_def inode_length_def base_of_def)

text \<open>One sector is written: \<open>c\<close> bytes at offset \<open>j\<close> come from the buffer.\<close>

lemma block_write_bytes:
  assumes "disk_wf s" "sec < length (disk s)" "j + c \<le> 512" "c \<le> length buf"
  defines "d \<equiv> take j (disk s ! sec) @ take c buf @ drop (j + c) (disk s ! sec)"
  shows "\<exists>s'. block_write sec d s = Some s' \<and> same_fs s s' \<and> avail s' = avail s \<and>
    (\<forall>a. dbyte s' a = (if 512 * sec + j \<le> a \<and> a < 512 * sec + j + c then buf ! (a - (512 * sec + j)) else dbyte s a))"
proof -
  have l: "length (disk s ! sec) = 512" "length d = 512" using assms by (simp_all add: disk_wf_def)
  let ?s = "s\<lparr>disk := (disk s)[sec := d]\<rparr>"
  have "same_fs s ?s" using l(2) by (auto simp: same_fs_def disk_wf_def dest!: set_update_subset_insert [THEN subsetD])
  moreover have "dbyte ?s a = (if 512 * sec + j \<le> a \<and> a < 512 * sec + j + c then buf ! (a - (512 * sec + j)) else dbyte s a)" for a
  proof (cases "a div 512 = sec")
    case True
    define o' where "o' = a mod 512"
    have a: "a = 512 * sec + o'" "o' < 512" using True by (auto simp: o'_def)
    have "dbyte ?s a = d ! o'" using True assms(2) by (simp add: dbyte_def o'_def)
    moreover have "d ! o' = (if j \<le> o' \<and> o' < j + c then buf ! (o' - j) else disk s ! sec ! o')"
      using l a(2) assms(3,4) by (auto simp: d_def nth_append)
    moreover have "dbyte s a = disk s ! sec ! o'" using True by (simp add: dbyte_def o'_def)
    ultimately show ?thesis using a(1) by auto
  next
    case False
    then have "dbyte ?s a = dbyte s a" by (simp add: dbyte_def)
    moreover have "\<not> (512 * sec + j \<le> a \<and> a < 512 * sec + j + c)"
    proof
      assume "512 * sec + j \<le> a \<and> a < 512 * sec + j + c"
      then have "512 * sec \<le> a" "a < 512 * sec + 512" using assms(3) by linarith+
      then have "a div 512 = sec" by linarith
      then show False using False by simp
    qed
    ultimately show ?thesis by auto
  qed
  ultimately show ?thesis using assms(2) by (intro exI [of _ ?s]) (simp add: block_write_def check_sector_def)
qed

lemma write_loop_eq:
  assumes "inode_ok s p" "inode_length p s = int l" "k < 2 ^ 31" "0 < next_addr s" "z \<le> length buf"
  shows "\<exists>n s'. write_loop p buf (int z) (int k) w bounce s = Some (w + int n, s') \<and> same_fs s s' \<and> n \<le> min z (l - k) \<and>
      (bounce \<or> avail s = [] \<longrightarrow> n = min z (l - k)) \<and>
      (\<forall>a. dbyte s' a = (if base_of s p + k \<le> a \<and> a < base_of s p + k + n then buf ! (a - (base_of s p + k)) else dbyte s a))"
  using assms
proof (induction z arbitrary: k buf w bounce s rule: less_induct)
  case (less z)
  note ok = less.prems(1) and len = less.prems(2)
  consider "z = 0" | "0 < z" "l \<le> k" | "0 < z" "k < l" by linarith
  then show ?case
  proof cases
    case 1
    then show ?thesis by (intro exI [of _ 0] exI [of _ s]) (auto simp: write_loop.simps)
  next
    case 2
    then show ?thesis
      using to_sector_out [OF ok len 2(2)] chunk_out [OF len 2(2) less.prems(3), of "int z"]
      by (intro exI [of _ 0] exI [of _ s], subst write_loop.simps) (auto simp: Let_def)
  next
    case 3
    define n0 where "n0 = min z (min (l - k) (512 - k mod 512))"
    let ?sec = "unat (start (data (inodes s p))) + k div 512" and ?B = "base_of s p"
    have c: "0 < n0" "n0 \<le> z" "k + n0 \<le> l" "k mod 512 + n0 \<le> 512" using 3 unfolding n0_def by (auto simp: min_def)
    have ch: "chunk p (int z) (int k) s = int n0" unfolding n0_def by (rule chunk_in [OF ok len 3(2)])
    have wf: "disk_wf s" "length (disk s ! ?sec) = 512" and sec: "?sec < length (disk s)"
      using ok sector_bound [OF ok len 3(2)] by (auto simp: inode_ok_def disk_wf_def)
    have next_k: "s32 (int k + int n0) = int (k + n0)" "k + n0 < 2 ^ 31"
      using c(3) inode_ok_bound [OF ok len] by (auto simp: in_s32_def)
    have next_z: "int z - int n0 = int (z - n0)" using c(2) by simp
    let ?d = "take (k mod 512) (disk s ! ?sec) @ take n0 buf @ drop (k mod 512 + n0) (disk s ! ?sec)"
    have rest: "\<exists>n s'. do { u \<leftarrow> block_write ?sec ?d t;
          write_loop p (drop n0 buf) (int z - int n0) (s32 (int k + int n0)) (w + int n0) bn u } = Some (w + int n, s') \<and>
        same_fs s s' \<and> n \<le> min z (l - k) \<and> (bn \<or> avail t = [] \<longrightarrow> n = min z (l - k)) \<and>
        (\<forall>a. dbyte s' a = (if ?B + k \<le> a \<and> a < ?B + k + n then buf ! (a - (?B + k)) else dbyte s a))" if t: "same_io s t" for bn t
    proof -
      have T: "disk_wf t" "?sec < length (disk t)" "n0 \<le> length buf" "disk t = disk s"
        using same_ioD(1) [OF t] wf(1) sec c(2) less.prems(5) by (auto simp: disk_wf_def)
      obtain u where u: "block_write ?sec ?d t = Some u" "same_fs t u" "avail u = avail t"
        "\<And>a. dbyte u a = (if ?B + k \<le> a \<and> a < ?B + k + n0 then buf ! (a - (?B + k)) else dbyte t a)"
        using block_write_bytes [OF T(1,2) c(4) T(3)] unfolding position T(4) by blast
      have su: "same_fs s u" using same_fs_trans [OF same_io_fs [OF t] u(2)] .
      have U: "z - n0 < z" "inode_ok u p" "inode_length p u = int l" "0 < next_addr u" "z - n0 \<le> length (drop n0 buf)"
        using same_fs_ok [OF su] ok len less.prems(4,5) same_fsD(8) [OF su] c(1,2) by auto
      obtain n s' where n: "write_loop p (drop n0 buf) (int (z - n0)) (int (k + n0)) (w + int n0) bn u = Some (w + int n0 + int n, s')"
        "same_fs u s'" "n \<le> min (z - n0) (l - (k + n0))" "bn \<or> avail u = [] \<longrightarrow> n = min (z - n0) (l - (k + n0))"
        "\<And>a. dbyte s' a = (if ?B + (k + n0) \<le> a \<and> a < ?B + (k + n0) + n then drop n0 buf ! (a - (?B + (k + n0))) else dbyte u a)"
        using less.IH [OF U(1,2,3) next_k(2) U(4,5)] unfolding same_fs_ok(3) [OF su] by blast
      have "dbyte s' a = (if ?B + k \<le> a \<and> a < ?B + k + (n0 + n) then buf ! (a - (?B + k)) else dbyte s a)" for a
      proof -
        have "drop n0 buf ! (a - (?B + (k + n0))) = buf ! (a - (?B + k))" if "?B + (k + n0) \<le> a"
          using that T(3) by (simp add: add.commute)
        then show ?thesis using n(5) [of a] u(4) [of a] same_io_ok(3) [OF t] by auto
      qed
      moreover have "n0 + n \<le> min z (l - k)" "bn \<or> avail t = [] \<longrightarrow> n0 + n = min z (l - k)" using n(3,4) c u(3) by auto
      ultimately show ?thesis unfolding next_k(1) next_z using n(1) u(1) same_fs_trans [OF su n(2)]
        by (intro exI [of _ "n0 + n"] exI [of _ s']) simp
    qed
    show ?thesis
    proof (cases "k mod 512 = 0 \<and> n0 = 512")
      case True
      then have full: "?d = take 512 buf" using wf(2) by simp
      have "write_loop p buf (int z) (int k) w bounce s = do { u \<leftarrow> block_write ?sec ?d s;
          write_loop p (drop n0 buf) (int z - int n0) (s32 (int k + int n0)) (w + int n0) bounce u }"
        unfolding full using 3(1) to_sector [OF ok len 3(2)] ch c(1) True
        by (subst write_loop.simps) (simp add: Let_def)
      then show ?thesis using rest [OF same_io_refl, of bounce] by simp
    next
      case False
      obtain b t where bt: "(if bounce then (1, s) else fs_malloc s) = (b, t)" by fastforce
      have st: "same_io s t" using bt fs_malloc_same(1) by (auto split: if_splits)
      have nf: "\<not> (int (k mod 512) = 0 \<and> int n0 = 512)" using False by (metis of_nat_eq_0_iff of_nat_eq_iff of_nat_numeral)
      show ?thesis
      proof (cases "b = NULL")
        case True
        have "\<not> bounce" "avail s \<noteq> []" using bt True fs_malloc_same(2) [of s b t] less.prems(4) by (auto split: if_splits)
        moreover have "write_loop p buf (int z) (int k) w bounce s = Some (w, t)"
          using 3(1) to_sector [OF ok len 3(2)] ch c(1) nf bt True
          by (subst write_loop.simps) (auto simp: Let_def)
        ultimately show ?thesis using same_io_fs [OF st] same_io_ok(3) [OF st] by (intro exI [of _ 0] exI [of _ t]) auto
      next
        case b: False
        have part: "int (k mod 512) > 0 \<or> int n0 < 512 - int (k mod 512)" using False c(4) by linarith
        have rd: "block_read ?sec t = Some (disk s ! ?sec)"
          using sec same_ioD(1) [OF st] by (simp add: block_read_def check_sector_def)
        have "write_loop p buf (int z) (int k) w bounce s = do { u \<leftarrow> block_write ?sec ?d t;
            write_loop p (drop n0 buf) (int z - int n0) (s32 (int k + int n0)) (w + int n0) True u }"
          using 3(1) to_sector [OF ok len 3(2)] ch c(1) nf bt b rd part
          by (subst write_loop.simps) (auto simp: Let_def)
        then show ?thesis using rest [OF st, of True] by metis
      qed
    qed
  qed
qed

section \<open>The contract of a file of bytes\<close>

text \<open>\<open>overwrite xs k ys\<close>: the bytes from position \<open>k\<close> on replaced.\<close>

definition overwrite :: "'a list \<Rightarrow> nat \<Rightarrow> 'a list \<Rightarrow> 'a list" where
  "overwrite xs k ys = take k xs @ ys @ drop (k + length ys) xs"

lemma length_overwrite [simp]: "k + length ys \<le> length xs \<Longrightarrow> length (overwrite xs k ys) = length xs"
  by (simp add: overwrite_def)

lemma overwrite_Nil [simp]: "overwrite xs k [] = xs"
  by (simp add: overwrite_def)

lemma nth_overwrite:
  "k + length ys \<le> length xs \<Longrightarrow> i < length xs \<Longrightarrow>
     overwrite xs k ys ! i = (if k \<le> i \<and> i < k + length ys then ys ! (i - k) else xs ! i)"
  by (auto simp: overwrite_def nth_append)

lemma overwrite_slice: "k + length ys \<le> length xs \<Longrightarrow> take (length ys) (drop k (overwrite xs k ys)) = ys"
  by (simp add: overwrite_def)

lemma overwrite_other_slice:
  "k + length ys \<le> length xs \<Longrightarrow> j + n \<le> k \<or> k + length ys \<le> j \<Longrightarrow> j + n \<le> length xs \<Longrightarrow>
     take n (drop j (overwrite xs k ys)) = take n (drop j xs)"
  by (rule nth_equalityI) (auto simp: nth_overwrite)

text \<open>
  What directories, the free map and open files rely on: reads return the bytes there are, possibly fewer when memory is short, and writes
  replace as many bytes as fit the file.
\<close>

locale byte_file =
  fixes ok writable :: "'s \<Rightarrow> addr \<Rightarrow> bool" and mem :: "'s \<Rightarrow> bool" and bytes :: "'s \<Rightarrow> addr \<Rightarrow> u8 list"
    and rd :: "addr \<Rightarrow> int \<Rightarrow> int \<Rightarrow> 's \<Rightarrow> (u8 list \<times> 's) option"
    and wr :: "addr \<Rightarrow> u8 list \<Rightarrow> int \<Rightarrow> int \<Rightarrow> 's \<Rightarrow> (int \<times> 's) option"
  assumes read_ok: "ok s p \<Longrightarrow> k < 2 ^ 31 \<Longrightarrow>
      \<exists>n s'. rd p (int z) (int k) s = Some (take n (drop k (bytes s p)), s') \<and> n \<le> z \<and> (mem s \<longrightarrow> n = z \<and> mem s') \<and>
        (\<forall>q. ok s q \<longrightarrow> ok s' q) \<and> bytes s' = bytes s \<and> writable s' = writable s"
    and write_ok: "ok s p \<Longrightarrow> writable s p \<Longrightarrow> k < 2 ^ 31 \<Longrightarrow> z \<le> length buf \<Longrightarrow>
      \<exists>n s'. wr p buf (int z) (int k) s = Some (int n, s') \<and> n \<le> min z (length (bytes s p) - k) \<and>
        (mem s \<longrightarrow> n = min z (length (bytes s p) - k) \<and> mem s') \<and> (\<forall>q. ok s q \<longrightarrow> ok s' q) \<and>
        bytes s' p = overwrite (bytes s p) k (take n buf) \<and> writable s' = writable s"
begin

lemma read_all:
  assumes "ok s p" "k < 2 ^ 31" "mem s"
  shows "\<exists>s'. rd p (int z) (int k) s = Some (take z (drop k (bytes s p)), s') \<and> mem s' \<and> (\<forall>q. ok s q \<longrightarrow> ok s' q) \<and>
    bytes s' = bytes s \<and> writable s' = writable s"
  using read_ok [OF assms(1,2), of z] assms(3) by metis

lemma write_all:
  assumes "ok s p" "writable s p" "k < 2 ^ 31" "mem s" "k + length buf \<le> length (bytes s p)"
  shows "\<exists>s'. wr p buf (int (length buf)) (int k) s = Some (int (length buf), s') \<and> mem s' \<and> (\<forall>q. ok s q \<longrightarrow> ok s' q) \<and>
    bytes s' p = overwrite (bytes s p) k buf \<and> writable s' = writable s"
proof -
  have "min (length buf) (length (bytes s p) - k) = length buf" using assms(5) by simp
  then show ?thesis using write_ok [OF assms(1-3), of "length buf" buf] assms(4) by force
qed

text \<open>What was written is read back.\<close>

lemma write_read:
  assumes "ok s p" "writable s p" "k < 2 ^ 31" "mem s" "k + length buf \<le> length (bytes s p)"
  shows "\<exists>s1 s2. wr p buf (int (length buf)) (int k) s = Some (int (length buf), s1) \<and>
    rd p (int (length buf)) (int k) s1 = Some (buf, s2) \<and> bytes s2 p = overwrite (bytes s p) k buf"
proof -
  obtain s1 where s1: "wr p buf (int (length buf)) (int k) s = Some (int (length buf), s1)" "mem s1" "ok s1 p"
    "bytes s1 p = overwrite (bytes s p) k buf"
    using write_all [OF assms] assms(1) by blast
  obtain s2 where "rd p (int (length buf)) (int k) s1 = Some (take (length buf) (drop k (bytes s1 p)), s2)" "bytes s2 = bytes s1"
    using read_all [OF s1(3) assms(3) s1(2)] by blast
  then show ?thesis using s1 overwrite_slice [OF assms(5)] by auto
qed

text \<open>A short read at full memory means the end of the file.\<close>

lemma read_at_end:
  assumes "ok s p" "k < 2 ^ 31" "length (bytes s p) \<le> k"
  shows "\<exists>s'. rd p (int z) (int k) s = Some ([], s')"
  using read_ok [OF assms(1,2), of z] assms(3) by auto

end

definition io_ok :: "fs \<Rightarrow> addr \<Rightarrow> bool" where
  "io_ok s p \<longleftrightarrow> inode_ok s p \<and> 0 < next_addr s"

definition can_write :: "fs \<Rightarrow> addr \<Rightarrow> bool" where
  "can_write s p \<longleftrightarrow> deny_write_cnt (inodes s p) = 0"

lemma io_ok_length: "io_ok s p \<Longrightarrow> inode_length p s = int (length (contents s p))"
  by (simp add: io_ok_def inode_ok_def)

lemma same_io_contents: "same_io s s' \<Longrightarrow> contents s' p = contents s p"
  by (simp add: contents_def same_io_ok)

lemma same_fs_io_ok: "same_fs s s' \<Longrightarrow> io_ok s p \<Longrightarrow> io_ok s' p"
  using same_fs_ok(1) same_fsD(8) unfolding io_ok_def by fastforce

lemma inode_read_at_bytes:
  assumes "io_ok s p" "k < 2 ^ 31"
  shows "\<exists>n s'. inode_read_at p (int z) (int k) s = Some (take n (drop k (contents s p)), s') \<and> n \<le> z \<and> (avail s = [] \<longrightarrow> n = z) \<and>
    same_io s s'"
proof -
  have a: "inode_ok s p" "0 < next_addr s" using assms(1) by (simp_all add: io_ok_def)
  let ?l = "length (contents s p)"
  obtain n s' where n: "read_loop p (int z) (int k) [] False s = Some (map (dbyte s) [base_of s p + k..<base_of s p + k + n], s')"
    "same_io s s'" "n \<le> min z (?l - k)" "avail s = [] \<longrightarrow> n = min z (?l - k)"
    using read_loop_eq [OF a(1) io_ok_length [OF assms(1)] assms(2) a(2), of z "[]" False] by auto
  define m where "m = (if avail s = [] then z else n)"
  have "take m (drop k (contents s p)) = take n (drop k (contents s p))" using n(4) by (auto simp: m_def min_def)
  also have "\<dots> = map (dbyte s) [base_of s p + k..<base_of s p + k + n]"
  proof (cases "n = 0")
    case False
    then have "k + n \<le> nat (inode_length p s)" using n(3) by (cases "k \<le> nat (inode_length p s)") auto
    then show ?thesis by (rule contents_slice)
  qed simp
  finally show ?thesis using n by (intro exI [of _ m] exI [of _ s']) (auto simp: inode_read_at_def m_def)
qed

lemma inode_write_at_bytes:
  assumes "io_ok s p" "can_write s p" "k < 2 ^ 31" "z \<le> length buf"
  shows "\<exists>n s'. inode_write_at p buf (int z) (int k) s = Some (int n, s') \<and> n \<le> min z (length (contents s p) - k) \<and>
    (avail s = [] \<longrightarrow> n = min z (length (contents s p) - k)) \<and> same_fs s s' \<and> contents s' p = overwrite (contents s p) k (take n buf) \<and>
    (\<forall>a. dbyte s' a = (if base_of s p + k \<le> a \<and> a < base_of s p + k + n then buf ! (a - (base_of s p + k)) else dbyte s a))"
proof -
  have a: "inode_ok s p" "0 < next_addr s" using assms(1) by (simp_all add: io_ok_def)
  let ?l = "length (contents s p)"
  obtain n s' where n: "write_loop p buf (int z) (int k) 0 False s = Some (int n, s')" "same_fs s s'" "n \<le> min z (?l - k)"
    "avail s = [] \<longrightarrow> n = min z (?l - k)"
    "\<And>a. dbyte s' a = (if base_of s p + k \<le> a \<and> a < base_of s p + k + n then buf ! (a - (base_of s p + k)) else dbyte s a)"
    using write_loop_eq [OF a(1) io_ok_length [OF assms(1)] assms(3) a(2) assms(4), of 0 False] by auto
  have "contents s' p = overwrite (contents s p) k (take n buf)"
  proof (cases "n = 0")
    case True
    then have "dbyte s' a = dbyte s a" for a using n(5) [of a] by auto
    then show ?thesis using True same_fs_ok(2,3) [OF n(2)] by (simp add: contents_def)
  next
    case False
    then have le: "k + length (take n buf) \<le> ?l" using n(3) assms(4) by auto
    have ln: "length (take n buf) = n" using n(3) assms(4) by simp
    show ?thesis
      by (rule nth_equalityI) (use le ln same_fs_ok(2,3) [OF n(2)] n(5) in \<open>auto simp: nth_overwrite contents_def\<close>)
  qed
  then show ?thesis using n assms(2) by (intro exI [of _ n] exI [of _ s']) (simp add: inode_write_at_def can_write_def)
qed

interpretation ino: byte_file io_ok can_write "\<lambda>s. avail s = []" contents inode_read_at inode_write_at
proof unfold_locales
  fix s :: fs and p k :: nat and z
  assume "io_ok s p" "k < 2 ^ 31"
  then obtain n s' where "inode_read_at p (int z) (int k) s = Some (take n (drop k (contents s p)), s')" "n \<le> z" "avail s = [] \<longrightarrow> n = z"
    "same_io s s'"
    using inode_read_at_bytes by blast
  moreover have "contents s' = contents s" "can_write s' = can_write s"
    using same_io_contents [OF calculation(4)] same_ioD(2) [OF calculation(4)] by (auto simp: can_write_def fun_eq_iff)
  ultimately show "\<exists>n s'. inode_read_at p (int z) (int k) s = Some (take n (drop k (contents s p)), s') \<and> n \<le> z \<and>
      (avail s = [] \<longrightarrow> n = z \<and> avail s' = []) \<and> (\<forall>q. io_ok s q \<longrightarrow> io_ok s' q) \<and> contents s' = contents s \<and> can_write s' = can_write s"
    using same_ioD(8) [of s s'] same_fs_io_ok [OF same_io_fs [of s s']] by (intro exI [of _ n] exI [of _ s']) auto
next
  fix s :: fs and p k z :: nat and buf :: "u8 list"
  assume "io_ok s p" "can_write s p" "k < 2 ^ 31" "z \<le> length buf"
  then obtain n s' where n: "inode_write_at p buf (int z) (int k) s = Some (int n, s')" "n \<le> min z (length (contents s p) - k)"
    "avail s = [] \<longrightarrow> n = min z (length (contents s p) - k)" "same_fs s s'" "contents s' p = overwrite (contents s p) k (take n buf)"
    using inode_write_at_bytes by blast
  moreover have "can_write s' = can_write s" using same_fsD(3) [OF n(4)] by (auto simp: can_write_def fun_eq_iff)
  ultimately show "\<exists>n s'. inode_write_at p buf (int z) (int k) s = Some (int n, s') \<and> n \<le> min z (length (contents s p) - k) \<and>
      (avail s = [] \<longrightarrow> n = min z (length (contents s p) - k) \<and> avail s' = []) \<and> (\<forall>q. io_ok s q \<longrightarrow> io_ok s' q) \<and>
      contents s' p = overwrite (contents s p) k (take n buf) \<and> can_write s' = can_write s"
    using same_fsD(9) [OF n(4)] same_fs_io_ok [OF n(4)] by (intro exI [of _ n] exI [of _ s']) auto
qed

section \<open>Properties\<close>

definition demo_fs :: fs where
  "demo_fs = \<lparr>disk = replicate 8 (replicate 512 7), free_map = \<lparr>bit_cnt = 8, bits = [0x3F]\<rparr>, free_map_file = NULL, open_inodes = [5],
     inodes = (\<lambda>_. \<lparr>sector = 2, open_cnt = 1, removed = False, deny_write_cnt = 0,
       data = \<lparr>start = 3, len = 1300, dmagic = INODE_MAGIC\<rparr>\<rparr>),
     files = (\<lambda>_. \<lparr>file_inode = 5, pos = 0, deny_write = False\<rparr>), avail = [], next_addr = 9\<rparr>"

lemma demo_fs_ok: "io_ok demo_fs 5" "can_write demo_fs 5" "length (contents demo_fs 5) = 1300" "avail demo_fs = []"
  by (simp_all add: io_ok_def inode_ok_def demo_fs_def disk_wf_def inode_length_def bytes_to_sectors_def s32_def can_write_def)

text \<open>
  Reading. \<^verbatim>\<open>inode_read_at\<close> returns for every size and position, crossing sectors as needed: it delivers the bytes of the file from the
  position on, as many as asked for or as there are; when memory for the bounce buffer runs out it delivers a beginning of them. It changes
  neither the disk nor an inode.
\<close>

theorem inode_read_at_correct:
  assumes "io_ok s p" "k < 2 ^ 31"
  shows "\<exists>n s'. inode_read_at p (int z) (int k) s = Some (take n (drop k (contents s p)), s') \<and> n \<le> z \<and>
    (avail s = [] \<longrightarrow> n = z) \<and> disk s' = disk s \<and> inodes s' = inodes s"
  using inode_read_at_bytes [OF assms, of z] same_ioD(1,2) by blast

theorem inode_read_at_correct_witness:
  "\<exists>s'. inode_read_at 5 (int 600) (int 500) demo_fs = Some (take 600 (drop 500 (contents demo_fs 5)), s') \<and> disk s' = disk demo_fs"
  using inode_read_at_correct [OF demo_fs_ok(1), of 500 600] demo_fs_ok(4) by auto

text \<open>
  C28 Writing. A write within the file, of any length and at any position, is read back, and changes exactly those bytes of the disk: the other
  bytes of the file, and with them every other file, keep their values.
\<close>

theorem inode_write_read_round_trip:
  assumes "io_ok s p" "can_write s p" "avail s = []" "k + length buf \<le> length (contents s p)"
  shows "\<exists>s1 s2. inode_write_at p buf (int (length buf)) (int k) s = Some (int (length buf), s1) \<and>
    inode_read_at p (int (length buf)) (int k) s1 = Some (buf, s2) \<and> contents s1 p = overwrite (contents s p) k buf \<and>
    (\<forall>a. a < base_of s p + k \<or> base_of s p + k + length buf \<le> a \<longrightarrow> dbyte s1 a = dbyte s a)"
proof -
  have k: "k < 2 ^ 31" using assms(1,4) by (auto simp: io_ok_def inode_ok_def)
  have m: "min (length buf) (length (contents s p) - k) = length buf" using assms(4) by simp
  obtain n s1 where s1: "inode_write_at p buf (int (length buf)) (int k) s = Some (int n, s1)"
    "avail s = [] \<longrightarrow> n = length buf"
    "\<And>a. dbyte s1 a = (if base_of s p + k \<le> a \<and> a < base_of s p + k + n then buf ! (a - (base_of s p + k)) else dbyte s a)"
    "contents s1 p = overwrite (contents s p) k (take n buf)"
    using inode_write_at_bytes [OF assms(1,2) k, of "length buf" buf] unfolding m by blast
  have "dbyte s1 a = dbyte s a" if "a < base_of s p + k \<or> base_of s p + k + length buf \<le> a" for a
    using that s1(3) [of a] s1(2) assms(3) by auto
  then show ?thesis using ino.write_read [OF assms(1,2) k assms(3,4)] s1 assms(3) by auto
qed

theorem inode_write_read_round_trip_witness:
  "\<exists>s1 s2. inode_write_at 5 (replicate 900 3) (int 900) (int 400) demo_fs = Some (int 900, s1) \<and>
    inode_read_at 5 (int 900) (int 400) s1 = Some (replicate 900 3, s2)"
  using inode_write_read_round_trip [OF demo_fs_ok(1,2,4), of 400 "replicate 900 3"] demo_fs_ok(3) by auto

end
