(* ===== verification/File_System.thy ===== *)
theory File_System
  imports Inode_IO
begin

text \<open>
  The free map (\<^verbatim>\<open>filesys/free-map.c\<close>, with \<^verbatim>\<open>bitmap_read\<close> and \<^verbatim>\<open>bitmap_write\<close>), creating, opening and closing inodes
  (\<^verbatim>\<open>filesys/inode.c\<close>) and files (\<^verbatim>\<open>filesys/file.c\<close>), with the representation of numbers and inodes on the disk. The invariant of the file
  system says which sectors belong to which file.
\<close>

section \<open>Representation on disk\<close>

definition le32 :: "u32 \<Rightarrow> u8 list" where
  "le32 w = [ucast w, ucast (drop_bit 8 w), ucast (drop_bit 16 w), ucast (drop_bit 24 w)]"

definition de32 :: "u8 list \<Rightarrow> u32" where
  "de32 bs = ucast (bs ! 0) OR push_bit 8 (ucast (bs ! 1)) OR push_bit 16 (ucast (bs ! 2)) OR push_bit 24 (ucast (bs ! 3))"

definition enc_inode :: "inode_disk \<Rightarrow> u8 list" where
  "enc_inode d = le32 (start d) @ le32 (word_of_int (len d)) @ le32 (dmagic d) @ replicate 500 0"

definition dec_inode :: "u8 list \<Rightarrow> inode_disk" where
  "dec_inode bs = \<lparr>start = de32 (take 4 bs), len = sint (de32 (take 4 (drop 4 bs))), dmagic = de32 (take 4 (drop 8 bs))\<rparr>"

fun words_of :: "u8 list \<Rightarrow> u32 list" where
  "words_of (a # b # c # d # bs) = de32 [a, b, c, d] # words_of bs"
| "words_of _ = []"

definition bytes_of :: "u32 list \<Rightarrow> u8 list" where
  "bytes_of ws = concat (map le32 ws)"

section \<open>The free map\<close>

definition bitmap_write :: "bitmap \<Rightarrow> addr \<Rightarrow> fs \<Rightarrow> (bool \<times> fs) option" where
  "bitmap_write b f s = do {
     let sz = s32 (int (byte_cnt (bit_cnt b)));
     (n, s) \<leftarrow> file_write_at f (bytes_of (bits b)) sz 0 s;
     Some (n = sz, s) }"

text \<open>A short read leaves the rest of the elements as they are.\<close>

definition bitmap_read :: "bitmap \<Rightarrow> addr \<Rightarrow> fs \<Rightarrow> (bool \<times> bitmap \<times> fs) option" where
  "bitmap_read b f s =
     (if bit_cnt b > 0
      then do {
        let sz = s32 (int (byte_cnt (bit_cnt b)));
        (bs, s) \<leftarrow> file_read_at f sz 0 s;
        let ws = words_of (overwrite (bytes_of (bits b)) 0 bs);
        let i = elem_cnt (bit_cnt b) - 1;
        let b = b\<lparr>bits := ws[i := ws ! i AND last_mask b]\<rparr>;
        Some (int (length bs) = sz, b, s) }
      else Some (True, b, s))"

definition FREE_MAP_SECTOR :: nat where "FREE_MAP_SECTOR = 0"
definition ROOT_DIR_SECTOR :: nat where "ROOT_DIR_SECTOR = 1"

text \<open>\<open>w\<close>: what the memory of the bitmap's elements contains when it is allocated.\<close>

definition free_map_init :: "u32 list \<Rightarrow> fs \<Rightarrow> fs option" where
  "free_map_init w s = do {
     let (h, s) = fs_malloc s;
     let (e, s) = (if h \<noteq> NULL then fs_malloc s else (NULL, s));
     b \<leftarrow> bitmap_create (h \<noteq> NULL) (if e \<noteq> NULL then Some w else None) (length (disk s));
     case b of None \<Rightarrow> None
     | Some b \<Rightarrow> do {
         b \<leftarrow> bitmap_mark b FREE_MAP_SECTOR;
         b \<leftarrow> bitmap_mark b ROOT_DIR_SECTOR;
         Some (s\<lparr>free_map := b\<rparr>) } }"

definition free_map_allocate :: "nat \<Rightarrow> fs \<Rightarrow> (nat option \<times> fs) option" where
  "free_map_allocate cnt s = do {
     (sec, b) \<leftarrow> bitmap_scan_and_flip (free_map s) 0 cnt False;
     let s = s\<lparr>free_map := b\<rparr>;
     (sec, s) \<leftarrow>
       (if sec \<noteq> BITMAP_ERROR \<and> free_map_file s \<noteq> NULL
        then do {
          (success, s) \<leftarrow> bitmap_write (free_map s) (free_map_file s) s;
          if \<not> success
          then do {
            b \<leftarrow> bitmap_set_multiple (free_map s) sec cnt False;
            Some (BITMAP_ERROR, s\<lparr>free_map := b\<rparr>) }
          else Some (sec, s) }
        else Some (sec, s));
     Some (if sec \<noteq> BITMAP_ERROR then Some sec else None, s) }"

definition free_map_release :: "nat \<Rightarrow> nat \<Rightarrow> fs \<Rightarrow> fs option" where
  "free_map_release sec cnt s = do {
     used \<leftarrow> bitmap_all (free_map s) sec cnt;
     ASSERT used;
     b \<leftarrow> bitmap_set_multiple (free_map s) sec cnt False;
     let s = s\<lparr>free_map := b\<rparr>;
     (_, s) \<leftarrow> bitmap_write (free_map s) (free_map_file s) s;
     Some s }"

section \<open>Creating, opening and closing inodes\<close>

definition inode_init :: "fs \<Rightarrow> fs" where
  "inode_init s = s\<lparr>open_inodes := []\<rparr>"

fun zero_sectors :: "nat \<Rightarrow> nat \<Rightarrow> fs \<Rightarrow> fs option" where
  "zero_sectors 0 sec s = Some s"
| "zero_sectors (Suc n) sec s = do {
     s \<leftarrow> block_write sec (replicate BLOCK_SECTOR_SIZE 0) s;
     zero_sectors n (sec + 1) s }"

definition inode_create :: "nat \<Rightarrow> int \<Rightarrow> fs \<Rightarrow> (bool \<times> fs) option" where
  "inode_create sec l s = do {
     ASSERT (l \<ge> 0);
     let (m, s) = fs_malloc s;
     if m \<noteq> NULL
     then do {
       let sectors = bytes_to_sectors l;
       (st, s) \<leftarrow> free_map_allocate sectors s;
       case st of
         None \<Rightarrow> Some (False, s)
       | Some st \<Rightarrow> do {
           s \<leftarrow> block_write sec (enc_inode \<lparr>start = of_nat st, len = l, dmagic = INODE_MAGIC\<rparr>) s;
           s \<leftarrow> zero_sectors sectors st s;
           Some (True, s) } }
     else Some (False, s) }"

definition inode_open :: "nat \<Rightarrow> fs \<Rightarrow> (addr \<times> fs) option" where
  "inode_open sec s =
     (case List.find (\<lambda>p. sector (inodes s p) = sec) (open_inodes s) of
        Some p \<Rightarrow> Some (inode_reopen p s)
      | None \<Rightarrow> do {
          let (p, s) = fs_malloc s;
          if p = NULL then Some (NULL, s)
          else do {
            let s = s\<lparr>open_inodes := p # open_inodes s\<rparr>;
            d \<leftarrow> block_read sec s;
            Some (p, upd_inode p (\<lambda>_. \<lparr>sector = sec, open_cnt = 1, removed = False, deny_write_cnt = 0, data = dec_inode d\<rparr>) s) } })"

text \<open>\<^verbatim>\<open>list_remove\<close> of an inode that is in no list is not defined.\<close>

definition inode_close :: "addr \<Rightarrow> fs \<Rightarrow> fs option" where
  "inode_close p s =
     (if p = NULL then Some s
      else do {
        let s = upd_inode p (\<lambda>i. i\<lparr>open_cnt := open_cnt i - 1\<rparr>) s;
        if open_cnt (inodes s p) = 0
        then do {
          ASSERT (p \<in> set (open_inodes s));
          let s = s\<lparr>open_inodes := remove1 p (open_inodes s)\<rparr>;
          if removed (inodes s p)
          then do {
            s \<leftarrow> free_map_release (sector (inodes s p)) 1 s;
            free_map_release (unat (start (data (inodes s p)))) (bytes_to_sectors (inode_length p s)) s }
          else Some s }
        else Some s })"

section \<open>Files\<close>

definition file_open :: "addr \<Rightarrow> fs \<Rightarrow> (addr \<times> fs) option" where
  "file_open p s = do {
     let (f, s) = fs_malloc s;
     if p \<noteq> NULL \<and> f \<noteq> NULL
     then Some (f, upd_file f (\<lambda>_. \<lparr>file_inode = p, pos = 0, deny_write = False\<rparr>) s)
     else do { s \<leftarrow> inode_close p s; Some (NULL, s) } }"

definition file_reopen :: "addr \<Rightarrow> fs \<Rightarrow> (addr \<times> fs) option" where
  "file_reopen f s = (let (p, s) = inode_reopen (file_inode (files s f)) s in file_open p s)"

definition file_close :: "addr \<Rightarrow> fs \<Rightarrow> fs option" where
  "file_close f s =
     (if f \<noteq> NULL then do { s \<leftarrow> file_allow_write f s; inode_close (file_inode (files s f)) s } else Some s)"

definition free_map_open :: "fs \<Rightarrow> fs option" where
  "free_map_open s = do {
     (p, s) \<leftarrow> inode_open FREE_MAP_SECTOR s;
     (f, s) \<leftarrow> file_open p s;
     ASSERT (f \<noteq> NULL);
     let s = s\<lparr>free_map_file := f\<rparr>;
     (success, b, s) \<leftarrow> bitmap_read (free_map s) f s;
     ASSERT success;
     Some (s\<lparr>free_map := b\<rparr>) }"

definition free_map_close :: "fs \<Rightarrow> fs option" where
  "free_map_close s = file_close (free_map_file s) s"

definition free_map_create :: "fs \<Rightarrow> fs option" where
  "free_map_create s = do {
     (success, s) \<leftarrow> inode_create FREE_MAP_SECTOR (s32 (int (bitmap_file_size (free_map s)))) s;
     ASSERT success;
     (p, s) \<leftarrow> inode_open FREE_MAP_SECTOR s;
     (f, s) \<leftarrow> file_open p s;
     ASSERT (f \<noteq> NULL);
     let s = s\<lparr>free_map_file := f\<rparr>;
     (success, s) \<leftarrow> bitmap_write (free_map s) f s;
     ASSERT success;
     Some s }"

section \<open>Round trips of the representation\<close>

lemma length_le32 [simp]: "length (le32 w) = 4"
  by (simp add: le32_def)

lemma de32_le32 [simp]: "de32 (le32 w) = w"
proof (rule bit_word_eqI)
  fix n assume "n < LENGTH(32)"
  then consider "n < 8" | "8 \<le> n" "n < 16" | "16 \<le> n" "n < 24" | "24 \<le> n" "n < 32" by fastforce
  then show "bit (de32 (le32 w)) n \<longleftrightarrow> bit w n"
    by cases (auto simp: de32_def le32_def bit_simps)
qed

lemma bytes_of_simps [simp]: "bytes_of [] = []" "bytes_of (w # ws) = le32 w @ bytes_of ws" "length (bytes_of ws) = 4 * length ws"
  by (simp_all add: bytes_of_def, induction ws) auto

lemma words_of_bytes_of: "words_of (bytes_of ws) = ws"
proof (induction ws)
  case (Cons w ws)
  have "words_of (le32 w @ xs) = de32 (le32 w) # words_of xs" for xs by (simp add: le32_def)
  then show ?case using Cons by simp
qed simp

lemma dec_enc_inode:
  assumes "in_s32 (len d)"
  shows "dec_inode (enc_inode d) = d"
proof -
  have "sint (word_of_int (len d) :: u32) = len d" using s32_sint [of "len d"] assms by simp
  then show ?thesis by (simp add: dec_inode_def enc_inode_def)
qed

lemma length_enc_inode [simp]: "length (enc_inode d) = 512"
  by (simp add: enc_inode_def)

section \<open>The invariant\<close>

text \<open>A file on the disk is known by the sector of its inode: its header, its data sectors, its contents.\<close>

definition header :: "fs \<Rightarrow> nat \<Rightarrow> inode_disk" where
  "header s f = dec_inode (disk s ! f)"

definition first_sector :: "inode_disk \<Rightarrow> nat" where
  "first_sector d = unat (start d)"

definition data_sectors :: "inode_disk \<Rightarrow> nat set" where
  "data_sectors d = {first_sector d ..< first_sector d + bytes_to_sectors (len d)}"

definition file_bytes :: "fs \<Rightarrow> nat \<Rightarrow> u8 list" where
  "file_bytes s f = map (\<lambda>k. dbyte s (512 * first_sector (header s f) + k)) [0..<nat (len (header s f))]"

definition header_ok :: "fs \<Rightarrow> inode_disk \<Rightarrow> bool" where
  "header_ok s d \<longleftrightarrow> dmagic d = INODE_MAGIC \<and> 0 \<le> len d \<and> len d \<le> 2 ^ 31 - 512 \<and>
     first_sector d + bytes_to_sectors (len d) \<le> length (disk s)"

abbreviation extent :: "fs \<Rightarrow> nat \<Rightarrow> nat set" where
  "extent s f \<equiv> insert f (data_sectors (header s f))"

text \<open>
  \<open>F\<close> is the set of files. Their sectors are marked in the free map and belong to one file each; an inode's own sector holds no
  data. The inodes in memory agree with the disk, and the free map file is open.
\<close>

definition files_ok :: "nat set \<Rightarrow> fs \<Rightarrow> bool" where
  "files_ok F s \<longleftrightarrow> (\<forall>f\<in>F. f < length (disk s) \<and> header_ok s (header s f) \<and> f \<notin> data_sectors (header s f)) \<and>
     (\<forall>f\<in>F. \<forall>g\<in>F. f \<noteq> g \<longrightarrow> extent s f \<inter> extent s g = {})"

definition marked :: "nat set \<Rightarrow> fs \<Rightarrow> bool" where
  "marked F s \<longleftrightarrow> (\<forall>f\<in>F. \<forall>x\<in>extent s f. bm_bits (free_map s) ! x)"

definition inodes_ok :: "nat set \<Rightarrow> fs \<Rightarrow> bool" where
  "inodes_ok F s \<longleftrightarrow> (\<forall>p\<in>set (open_inodes s). p \<noteq> NULL \<and> p < next_addr s \<and> sector (inodes s p) \<in> F \<and>
       data (inodes s p) = header s (sector (inodes s p)) \<and> 0 < open_cnt (inodes s p)) \<and>
     distinct (map (\<lambda>p. sector (inodes s p)) (open_inodes s))"

definition map_file_ok :: "fs \<Rightarrow> bool" where
  "map_file_ok s \<longleftrightarrow> free_map_file s \<noteq> NULL \<and> free_map_file s < next_addr s \<and>
     file_inode (files s (free_map_file s)) \<in> set (open_inodes s) \<and>
     sector (inodes s (file_inode (files s (free_map_file s)))) = FREE_MAP_SECTOR \<and>
     deny_write_cnt (inodes s (file_inode (files s (free_map_file s)))) = 0 \<and>
     len (header s FREE_MAP_SECTOR) = int (byte_cnt (length (disk s)))"

text \<open>\<open>M\<close>: whether the free map file is open and the free map is loaded, as it is except while the file system starts.\<close>

definition core_inv :: "bool \<Rightarrow> nat set \<Rightarrow> fs \<Rightarrow> bool" where
  "core_inv M F s \<longleftrightarrow> disk_wf s \<and> length (disk s) < 2 ^ 31 \<and> 0 < next_addr s \<and> bm_wf (free_map s) \<and> bit_cnt (free_map s) = length (disk s) \<and>
     files_ok F s \<and> inodes_ok F s \<and> (M \<longrightarrow> FREE_MAP_SECTOR \<in> F \<and> map_file_ok s \<and> marked F s)"

abbreviation fs_inv :: "nat set \<Rightarrow> fs \<Rightarrow> bool" where
  "fs_inv \<equiv> core_inv True"

lemma coreD:
  assumes "core_inv M F s"
  shows "disk_wf s" "length (disk s) < 2 ^ 31" "0 < next_addr s" "bm_wf (free_map s)" "bit_cnt (free_map s) = length (disk s)"
    "M \<Longrightarrow> FREE_MAP_SECTOR \<in> F" "M \<Longrightarrow> map_file_ok s" "files_ok F s" "inodes_ok F s" "core_inv False F s" "M \<Longrightarrow> marked F s"
  using assms by (simp_all add: core_inv_def)

lemma markedD: "fs_inv F s \<Longrightarrow> f \<in> F \<Longrightarrow> x \<in> extent s f \<Longrightarrow> bm_bits (free_map s) ! x"
  by (simp only: core_inv_def marked_def)

lemma fs_invD:
  assumes "fs_inv F s"
  shows "disk_wf s" "length (disk s) < 2 ^ 31" "0 < next_addr s" "bm_wf (free_map s)" "bit_cnt (free_map s) = length (disk s)"
    "FREE_MAP_SECTOR \<in> F" "core_inv False F s" "files_ok F s" "inodes_ok F s" "map_file_ok s"
  using assms by (simp_all add: core_inv_def)

lemma files_okD:
  assumes "files_ok F s" "f \<in> F"
  shows "f < length (disk s)" "header_ok s (header s f)" "f \<notin> data_sectors (header s f)"
    "g \<in> F \<Longrightarrow> f \<noteq> g \<Longrightarrow> extent s f \<inter> extent s g = {}"
  using assms unfolding files_ok_def by blast+

lemma inodes_okD:
  assumes "inodes_ok F s" "p \<in> set (open_inodes s)"
  shows "p \<noteq> NULL" "p < next_addr s" "sector (inodes s p) \<in> F" "data (inodes s p) = header s (sector (inodes s p))"
    "0 < open_cnt (inodes s p)"
  using assms by (auto simp: inodes_ok_def)

text \<open>An open inode gives access to the contents of its file.\<close>

lemma open_inode_ok:
  assumes "core_inv M F s" "p \<in> set (open_inodes s)"
  shows "io_ok s p" "contents s p = file_bytes s (sector (inodes s p))"
    "base_of s p = 512 * first_sector (header s (sector (inodes s p)))"
proof -
  note I = coreD [OF assms(1)] and P = inodes_okD [OF coreD(9) [OF assms(1)] assms(2)]
  show "io_ok s p"
    using P files_okD(2) [OF I(8) P(3)] I(1,3) by (simp add: io_ok_def inode_ok_def header_ok_def inode_length_def first_sector_def)
  show "contents s p = file_bytes s (sector (inodes s p))" "base_of s p = 512 * first_sector (header s (sector (inodes s p)))"
    using P(4) by (simp_all add: contents_def file_bytes_def base_of_def inode_length_def first_sector_def)
qed

section \<open>Changes of the disk\<close>

lemma sector_eqI:
  assumes "disk_wf s" "disk_wf s'" "length (disk s') = length (disk s)" "g < length (disk s)"
    "\<And>a. a div 512 = g \<Longrightarrow> dbyte s' a = dbyte s a"
  shows "disk s' ! g = disk s ! g"
proof (rule nth_equalityI)
  have l: "length (disk s ! g) = 512" "length (disk s' ! g) = 512" using assms(1-4) by (simp_all add: disk_wf_def)
  then show "length (disk s' ! g) = length (disk s ! g)" by simp
  fix i assume "i < length (disk s' ! g)"
  then have "(512 * g + i) div 512 = g" "(512 * g + i) mod 512 = i" using l by simp_all
  then show "disk s' ! g ! i = disk s ! g ! i" using assms(5) [of "512 * g + i"] by (simp add: dbyte_def)
qed

text \<open>Only sectors in \<open>D\<close> have changed.\<close>

definition changed_in :: "nat set \<Rightarrow> fs \<Rightarrow> fs \<Rightarrow> bool" where
  "changed_in D s s' \<longleftrightarrow> length (disk s') = length (disk s) \<and> (disk_wf s \<longrightarrow> disk_wf s') \<and> (\<forall>a. a div 512 \<notin> D \<longrightarrow> dbyte s' a = dbyte s a)"

lemma changed_in_refl [simp]: "changed_in D s s"
  by (simp add: changed_in_def)

lemma changed_in_trans: "changed_in D s t \<Longrightarrow> changed_in E t u \<Longrightarrow> changed_in (D \<union> E) s u"
  by (auto simp: changed_in_def)

lemma changed_in_mono: "changed_in D s t \<Longrightarrow> D \<subseteq> E \<Longrightarrow> changed_in E s t"
  by (auto simp: changed_in_def)

lemma same_disk_changed: "disk s' = disk s \<Longrightarrow> changed_in D s s'"
  by (simp add: changed_in_def disk_wf_def dbyte_def)

lemma header_unchanged:
  assumes "changed_in D s s'" "disk_wf s" "f < length (disk s)" "f \<notin> D"
  shows "header s' f = header s f"
proof -
  have "disk s' ! f = disk s ! f" using assms by (intro sector_eqI) (auto simp: changed_in_def)
  then show ?thesis by (simp add: header_def)
qed

lemma data_byte_sector:
  assumes "0 \<le> len d" "len d \<le> 2 ^ 31 - 512" "k < nat (len d)"
  shows "(512 * first_sector d + k) div 512 \<in> data_sectors d"
proof -
  obtain l where l: "len d = int l" using assms(1) nonneg_int_cases by blast
  have "k div 512 < (l + 511) div 512" using assms(3) l by simp
  moreover have "(512 * first_sector d + k) div 512 = first_sector d + k div 512" by simp
  ultimately show ?thesis using bytes_to_sectors_eq [of l] assms(2) l by (simp add: data_sectors_def)
qed

lemma file_bytes_unchanged:
  assumes "changed_in D s s'" "disk_wf s" "f < length (disk s)" "header_ok s (header s f)" "extent s f \<inter> D = {}"
  shows "file_bytes s' f = file_bytes s f"
proof -
  have h: "header s' f = header s f" using assms by (intro header_unchanged) auto
  have "dbyte s' (512 * first_sector (header s f) + k) = dbyte s (512 * first_sector (header s f) + k)" if "k < nat (len (header s f))" for k
  proof -
    have "(512 * first_sector (header s f) + k) div 512 \<in> data_sectors (header s f)"
      using assms(4) that by (intro data_byte_sector) (simp_all add: header_ok_def)
    then have "(512 * first_sector (header s f) + k) div 512 \<notin> D" using assms(5) by blast
    then show ?thesis using assms(1) unfolding changed_in_def by blast
  qed
  then show ?thesis by (simp add: file_bytes_def h)
qed

text \<open>The invariant survives a change of data sectors and of what allocations record.\<close>

lemma fs_inv_frame:
  assumes inv: "core_inv M F s" and D: "changed_in D s s'" "F \<inter> D = {}"
    and same: "free_map s' = free_map s" "inodes s' = inodes s" "files s' = files s" "free_map_file s' = free_map_file s"
      "open_inodes s' = open_inodes s" "next_addr s \<le> next_addr s'"
  shows "core_inv M F s'" "f \<in> F \<Longrightarrow> header s' f = header s f"
proof -
  note I = coreD [OF inv]
  have h: "header s' f = header s f" if "f \<in> F" for f
    using header_unchanged [OF D(1) I(1) files_okD(1) [OF I(8) that]] D(2) that by blast
  then show "f \<in> F \<Longrightarrow> header s' f = header s f" .
  have l: "length (disk s') = length (disk s)" "disk_wf s'" using D(1) I(1) by (auto simp: changed_in_def)
  have "files_ok F s'" using I(8) h l(1) same(1) unfolding files_ok_def by (auto simp: header_ok_def)
  moreover have "inodes_ok F s'" using I(9) h same unfolding inodes_ok_def by fastforce
  moreover have "map_file_ok s'" if M using I(7) [OF that] h [OF I(6) [OF that]] l(1) same unfolding map_file_ok_def by auto
  moreover have "marked F s'" if M using I(11) [OF that] h same(1) unfolding marked_def by (simp del: bm_bits_nth)
  ultimately show "core_inv M F s'" using I l same by (simp add: core_inv_def)
qed

lemma fs_inv_same_io: "core_inv M F s \<Longrightarrow> same_io s s' \<Longrightarrow> core_inv M F s'"
  using fs_inv_frame(1) [where D = "{}"] same_disk_changed [of s' s "{}"] same_ioD [of s s'] by auto

lemma same_io_bytes: "same_io s s' \<Longrightarrow> file_bytes s' f = file_bytes s f" "same_io s s' \<Longrightarrow> header s' f = header s f"
  by (simp_all add: file_bytes_def header_def same_io_ok(3) same_ioD(1))

text \<open>Writing a file through an open inode.\<close>

lemma inode_write_frame:
  assumes inv: "core_inv M F s" and p: "p \<in> set (open_inodes s)" "can_write s p" and k: "k < 2 ^ 31" "z \<le> length buf"
  defines "f \<equiv> sector (inodes s p)"
  shows "\<exists>n s'. inode_write_at p buf (int z) (int k) s = Some (int n, s') \<and> n \<le> min z (length (file_bytes s f) - k) \<and>
    (avail s = [] \<longrightarrow> n = min z (length (file_bytes s f) - k) \<and> avail s' = []) \<and> same_fs s s' \<and> core_inv M F s' \<and>
    (\<forall>g\<in>F. header s' g = header s g) \<and> changed_in (data_sectors (header s f)) s s' \<and>
    file_bytes s' f = overwrite (file_bytes s f) k (take n buf) \<and> (\<forall>g\<in>F. g \<noteq> f \<longrightarrow> file_bytes s' g = file_bytes s g)"
proof -
  note I = coreD [OF inv] and O = open_inode_ok [OF inv p(1)]
  have fF: "f \<in> F" unfolding f_def by (rule inodes_okD(3) [OF I(9) p(1)])
  note H = files_okD(2) [OF I(8) fF]
  let ?D = "data_sectors (header s f)"
  obtain n s' where w: "inode_write_at p buf (int z) (int k) s = Some (int n, s')" "n \<le> min z (length (contents s p) - k)"
    "avail s = [] \<longrightarrow> n = min z (length (contents s p) - k)" "same_fs s s'" "contents s' p = overwrite (contents s p) k (take n buf)"
    "\<And>a. dbyte s' a = (if base_of s p + k \<le> a \<and> a < base_of s p + k + n then buf ! (a - (base_of s p + k)) else dbyte s a)"
    using inode_write_at_bytes [OF O(1) p(2) k] by blast
  have "dbyte s' a = dbyte s a" if "a div 512 \<notin> ?D" for a
  proof (rule ccontr)
    assume "dbyte s' a \<noteq> dbyte s a"
    then have a: "base_of s p + k \<le> a" "a < base_of s p + k + n" using w(6) [of a] by (auto split: if_splits)
    have b: "base_of s p = 512 * first_sector (header s f)" using O(3) by (simp add: f_def)
    have "a - base_of s p < nat (len (header s f))"
      using a w(2) O(2) by (auto simp: f_def file_bytes_def)
    then have "(512 * first_sector (header s f) + (a - base_of s p)) div 512 \<in> ?D"
      using H by (intro data_byte_sector) (simp_all add: header_ok_def)
    then show False using that a(1) b by simp
  qed
  then have ch: "changed_in ?D s s'" using same_fsD(1,2) [OF w(4)] by (simp add: changed_in_def)
  have dis: "F \<inter> ?D = {}" using files_okD(3) [OF I(8) fF] files_okD(4) [OF I(8) fF] by blast
  note fr = fs_inv_frame [OF inv ch dis, OF same_fsD(5,3,4,6,7,8) [OF w(4)]]
  have "file_bytes s' g = file_bytes s g" if "g \<in> F" "g \<noteq> f" for g
    using file_bytes_unchanged [OF ch I(1) files_okD(1,2) [OF I(8) that(1)]] files_okD(4) [OF I(8) fF that(1)] that(2) by blast
  moreover have "contents s' p = file_bytes s' f"
    using open_inode_ok(2) [OF fr(1), of p] p(1) same_fsD(3,7) [OF w(4)] by (simp add: f_def)
  ultimately show ?thesis using w(1-5) ch fr O(2) same_fsD(9) [OF w(4)] by (intro exI [of _ n] exI [of _ s']) (simp add: f_def)
qed

section \<open>The free map and its file\<close>

lemma byte_cnt_small: "n < 2 ^ 31 \<Longrightarrow> byte_cnt n = 4 * ((n + 31) div 32)" "n < 2 ^ 31 \<Longrightarrow> byte_cnt n < 2 ^ 31"
  by (simp_all add: byte_cnt_def elem_cnt_def ELEM_BITS_def)

text \<open>The free map on the disk is the one in memory.\<close>

definition map_saved :: "fs \<Rightarrow> bool" where
  "map_saved s \<longleftrightarrow> bm_bits \<lparr>bit_cnt = length (disk s), bits = words_of (file_bytes s FREE_MAP_SECTOR)\<rparr> = bm_bits (free_map s)"

lemma bytes_of_take: "take (4 * k) (bytes_of ws) = bytes_of (take k ws)"
proof (induction ws arbitrary: k)
  case (Cons w ws)
  then show ?case by (cases k) simp_all
qed simp

lemma stored_bits:
  assumes "n < 2 ^ 31"
  shows "bm_bits \<lparr>bit_cnt = n, bits = words_of (take (byte_cnt n) (bytes_of ws))\<rparr> = bm_bits \<lparr>bit_cnt = n, bits = ws\<rparr>"
proof -
  have "i div 32 < (n + 31) div 32" if "i < n" for i using that by linarith
  then show ?thesis unfolding byte_cnt_small(1) [OF assms] bytes_of_take words_of_bytes_of by (simp add: bm_bits_def)
qed

lemma length_file_bytes [simp]: "length (file_bytes s f) = nat (len (header s f))"
  by (simp add: file_bytes_def)

lemma map_write:
  assumes inv: "fs_inv F s" and mem: "avail s = []"
  shows "\<exists>s'. bitmap_write (free_map s) (free_map_file s) s = Some (True, s') \<and> fs_inv F s' \<and> map_saved s' \<and> avail s' = [] \<and> same_fs s s' \<and>
    (\<forall>g\<in>F. header s' g = header s g) \<and> changed_in (data_sectors (header s FREE_MAP_SECTOR)) s s' \<and>
    (\<forall>g\<in>F. g \<noteq> FREE_MAP_SECTOR \<longrightarrow> file_bytes s' g = file_bytes s g)"
proof -
  note I = fs_invD [OF inv]
  define p where "p = file_inode (files s (free_map_file s))"
  define b where "b = byte_cnt (length (disk s))"
  have p: "p \<in> set (open_inodes s)" "sector (inodes s p) = FREE_MAP_SECTOR" "can_write s p" "len (header s FREE_MAP_SECTOR) = int b"
    using I(10) by (simp_all add: map_file_ok_def can_write_def p_def b_def)
  have sz: "s32 (int (byte_cnt (bit_cnt (free_map s)))) = int b"
    using byte_cnt_small(2) [OF I(2)] I(5) by (simp add: b_def in_s32_def)
  have bl: "b \<le> length (bytes_of (bits (free_map s)))"
    using I(4,5) by (simp add: bm_wf_def byte_cnt_def b_def)
  obtain n s' where w: "inode_write_at p (bytes_of (bits (free_map s))) (int b) (int 0) s = Some (int n, s')"
    "avail s = [] \<longrightarrow> n = min b (length (file_bytes s FREE_MAP_SECTOR) - 0) \<and> avail s' = []" "same_fs s s'" "fs_inv F s'"
    "\<forall>g\<in>F. header s' g = header s g" "changed_in (data_sectors (header s FREE_MAP_SECTOR)) s s'"
    "file_bytes s' FREE_MAP_SECTOR = overwrite (file_bytes s FREE_MAP_SECTOR) 0 (take n (bytes_of (bits (free_map s))))"
    "\<forall>g\<in>F. g \<noteq> FREE_MAP_SECTOR \<longrightarrow> file_bytes s' g = file_bytes s g"
    using inode_write_frame [OF inv p(1,3) _ bl, of 0] unfolding p(2) by auto
  have n: "n = b" "avail s' = []" using w(2) mem p(4) by simp_all
  have "file_bytes s' FREE_MAP_SECTOR = take b (bytes_of (bits (free_map s)))" using w(7) n(1) bl p(4) by (simp add: overwrite_def)
  then have "map_saved s'"
    using stored_bits [OF I(2)] I(5) same_fsD(1,5) [OF w(3)] by (simp add: map_saved_def b_def bm_bits_def)
  then show ?thesis using w n sz by (auto simp: bitmap_write_def file_write_at_def p_def [symmetric])
qed

text \<open>A free map with at least the sectors of the files marked.\<close>

lemma fs_inv_free_map:
  assumes inv: "core_inv M F s" and b: "bm_wf b" "bit_cnt b = length (disk s)" "\<And>f x. M \<Longrightarrow> f \<in> F \<Longrightarrow> x \<in> extent s f \<Longrightarrow> bm_bits b ! x"
  shows "core_inv M F (s\<lparr>free_map := b\<rparr>)"
proof -
  let ?s = "s\<lparr>free_map := b\<rparr>"
  note I = coreD [OF inv]
  have h: "header ?s f = header s f" for f by (simp add: header_def)
  have "files_ok F ?s" using I(8) unfolding files_ok_def h by (simp add: header_ok_def)
  moreover have "marked F ?s" if M using b(3) [OF that] unfolding marked_def h by (simp del: bm_bits_nth)
  moreover have "inodes_ok F ?s" using I(9) unfolding inodes_ok_def h by simp
  moreover have "map_file_ok ?s" if M using I(7) [OF that] unfolding map_file_ok_def h by simp
  ultimately show ?thesis using I b(1,2) by (simp add: core_inv_def disk_wf_def)
qed

lemma extent_bound:
  assumes "core_inv M F s" "f \<in> F" "x \<in> extent s f"
  shows "x < length (disk s)"
  using assms(3) files_okD(1,2) [OF coreD(8) [OF assms(1)] assms(2)] by (auto simp: data_sectors_def header_ok_def)

lemma free_map_allocate_inv:
  assumes inv: "fs_inv F s" and mem: "avail s = []"
  shows "\<exists>r s'. free_map_allocate n s = Some (r, s') \<and> fs_inv F s' \<and> avail s' = [] \<and> (\<forall>g\<in>F. header s' g = header s g) \<and>
    (\<forall>g\<in>F. g \<noteq> FREE_MAP_SECTOR \<longrightarrow> file_bytes s' g = file_bytes s g) \<and> inodes s' = inodes s \<and> open_inodes s' = open_inodes s \<and>
    files s' = files s \<and> free_map_file s' = free_map_file s \<and> next_addr s \<le> next_addr s' \<and> length (disk s') = length (disk s) \<and>
    changed_in (data_sectors (header s FREE_MAP_SECTOR)) s s' \<and>
    (case r of None \<Rightarrow> s' = s \<and> (\<forall>i. \<not> group_at (bm_bits (free_map s)) n False i)
     | Some st \<Rightarrow> map_saved s' \<and> st + n \<le> length (disk s) \<and> st < 2 ^ 32 \<and> (\<forall>x. st \<le> x \<and> x < st + n \<longrightarrow> \<not> bm_bits (free_map s) ! x) \<and>
         bm_bits (free_map s') = set_range (bm_bits (free_map s)) st n True)"
proof -
  note I = fs_invD [OF inv]
  obtain st b where a: "bitmap_scan_and_flip (free_map s) 0 n False = Some (st, b)" using bm.alloc_cases [OF I(4), of n] by auto
  show ?thesis
  proof (cases "st = BITMAP_ERROR")
    case True
    have e: "b = free_map s" "\<forall>i. \<not> group_at (bm_bits (free_map s)) n False i"
      using bm.alloc_cases [OF I(4), of n] a True by auto
    then have "free_map_allocate n s = Some (None, s)" using a True by (simp add: free_map_allocate_def)
    then show ?thesis using inv mem e(2) by (intro exI [of _ None] exI [of _ s]) simp
  next
    case False
    note g = bm.alloc_some [OF I(4) a False]
    have le: "st + n \<le> length (disk s)" and fresh: "\<forall>x. st \<le> x \<and> x < st + n \<longrightarrow> \<not> bm_bits (free_map s) ! x"
      using bm.alloc_fresh [OF I(4) a False] I(5) by (simp, blast)
    have lb: "bit_cnt b = length (disk s)" using scan_bit_cnt [OF I(4) a] I(5) by simp
    have more: "bm_bits b ! x" if "f \<in> F" "x \<in> extent s f" for f x
    proof -
      have "x < length (bm_bits (free_map s))" using extent_bound [OF inv that] I(5) by simp
      moreover have "bm_bits (free_map s) ! x" by (rule markedD [OF inv that])
      ultimately show ?thesis using g le I(5) nth_set_range [of st n "bm_bits (free_map s)" x True] by (simp del: bm_bits_nth)
    qed
    let ?s = "s\<lparr>free_map := b\<rparr>"
    have h: "header ?s = header s" "file_bytes ?s = file_bytes s" by (simp_all add: header_def file_bytes_def dbyte_def fun_eq_iff)
    have inv1: "fs_inv F ?s" by (rule fs_inv_free_map [OF inv _ lb]) (use g more in auto)
    have mem1: "avail ?s = []" using mem by simp
    obtain s' where s': "bitmap_write b (free_map_file s) ?s = Some (True, s')" "fs_inv F s'" "map_saved s'" "avail s' = []" "same_fs ?s s'"
      "\<forall>g\<in>F. header s' g = header s g" "changed_in (data_sectors (header s FREE_MAP_SECTOR)) ?s s'"
      "\<forall>g\<in>F. g \<noteq> FREE_MAP_SECTOR \<longrightarrow> file_bytes s' g = file_bytes s g"
      using map_write [OF inv1 mem1] unfolding h by auto
    have "free_map_file s \<noteq> NULL" using I(10) by (simp add: map_file_ok_def)
    then have "free_map_allocate n s = Some (Some st, s')" using a False s'(1) by (simp add: free_map_allocate_def)
    moreover have "changed_in (data_sectors (header s FREE_MAP_SECTOR)) s s'"
      using s'(7) by (simp add: changed_in_def disk_wf_def dbyte_def)
    moreover have "st < 2 ^ 32" using le I(2) by simp
    ultimately show ?thesis using s' same_fsD [OF s'(5)] le fresh g by (intro exI [of _ "Some st"] exI [of _ s']) simp
  qed
qed

section \<open>Creating files\<close>

lemma block_write_sector:
  assumes "disk_wf s" "sec < length (disk s)" "length d = 512"
  shows "\<exists>s'. block_write sec d s = Some s' \<and> same_fs s s' \<and> avail s' = avail s \<and> disk s' ! sec = d \<and>
    (\<forall>a. dbyte s' a = (if a div 512 = sec then d ! (a mod 512) else dbyte s a))"
proof -
  have "same_fs s (s\<lparr>disk := (disk s)[sec := d]\<rparr>)"
    using assms(3) by (auto simp: same_fs_def disk_wf_def dest!: set_update_subset_insert [THEN subsetD])
  then show ?thesis using assms(2) by (simp add: block_write_def check_sector_def dbyte_def nth_list_update)
qed

lemma zero_sectors_eq:
  assumes "disk_wf s" "st + n \<le> length (disk s)"
  shows "\<exists>s'. zero_sectors n st s = Some s' \<and> same_fs s s' \<and> avail s' = avail s \<and>
    (\<forall>a. dbyte s' a = (if st \<le> a div 512 \<and> a div 512 < st + n then 0 else dbyte s a))"
  using assms
proof (induction n arbitrary: st s)
  case (Suc n)
  obtain t where t: "block_write st (replicate BLOCK_SECTOR_SIZE 0) s = Some t" "same_fs s t" "avail t = avail s"
    "\<And>a. dbyte t a = (if a div 512 = st then replicate BLOCK_SECTOR_SIZE 0 ! (a mod 512) else dbyte s a)"
    using block_write_sector [of s st "replicate BLOCK_SECTOR_SIZE 0"] Suc.prems by (auto simp: BLOCK_SECTOR_SIZE_def)
  obtain s' where s': "zero_sectors n (st + 1) t = Some s'" "same_fs t s'" "avail s' = avail t"
    "\<And>a. dbyte s' a = (if st + 1 \<le> a div 512 \<and> a div 512 < st + 1 + n then 0 else dbyte t a)"
    using Suc.IH [of t "st + 1"] same_fsD(1,2) [OF t(2)] Suc.prems by auto
  have "dbyte s' a = (if st \<le> a div 512 \<and> a div 512 < st + Suc n then 0 else dbyte s a)" for a
    using s'(4) [of a] t(4) [of a] by (auto simp: BLOCK_SECTOR_SIZE_def)
  then show ?case using t(1,3) s'(1,3) same_fs_trans [OF t(2) s'(2)] by auto
qed auto

lemma fs_inv_insert:
  assumes inv: "core_inv M F s" and sec: "sec < length (disk s)" "header_ok s (header s sec)" "sec \<notin> data_sectors (header s sec)"
    "\<And>x. M \<Longrightarrow> x \<in> extent s sec \<Longrightarrow> bm_bits (free_map s) ! x" "\<And>f. f \<in> F \<Longrightarrow> extent s f \<inter> extent s sec = {}"
  shows "core_inv M (insert sec F) s"
proof -
  note I = coreD [OF inv]
  have "files_ok (insert sec F) s"
    using I(8) sec unfolding files_ok_def by auto
  moreover have "marked (insert sec F) s" if M using I(11) [OF that] sec(4) [OF that] unfolding marked_def by (auto simp del: bm_bits_nth)
  moreover have "inodes_ok (insert sec F) s" using I(9) unfolding inodes_ok_def by blast
  ultimately show ?thesis using I by (simp add: core_inv_def)
qed

lemma fs_malloc_mem:
  assumes "avail s = []" "0 < next_addr s"
  shows "\<exists>s'. fs_malloc s = (next_addr s, s') \<and> next_addr s \<noteq> NULL \<and> same_io s s' \<and> avail s' = [] \<and> next_addr s' = next_addr s + 1"
  using assms by (simp add: fs_malloc_def same_io_def)

text \<open>What an operation leaves of the objects in memory.\<close>

definition same_objects :: "fs \<Rightarrow> fs \<Rightarrow> bool" where
  "same_objects s s' \<longleftrightarrow> inodes s' = inodes s \<and> open_inodes s' = open_inodes s \<and> files s' = files s \<and> free_map_file s' = free_map_file s \<and>
     next_addr s \<le> next_addr s' \<and> length (disk s') = length (disk s)"

text \<open>The inode and the zeroed data of a new file: its sectors are marked and belong to no other file.\<close>

lemma write_new_file:
  assumes inv: "core_inv M F s" and mem: "avail s = []" and sec: "sec < length (disk s)" and l: "0 \<le> l" "l \<le> 2 ^ 31 - 512"
  defines "n \<equiv> bytes_to_sectors l"
  assumes st: "st + n \<le> length (disk s)" "st < 2 ^ 32" "sec \<notin> {st ..< st + n}"
    and marked: "\<And>x. M \<Longrightarrow> x \<in> insert sec {st ..< st + n} \<Longrightarrow> bm_bits (free_map s) ! x"
    and dis: "\<And>f. f \<in> F \<Longrightarrow> extent s f \<inter> insert sec {st ..< st + n} = {}"
  defines "d \<equiv> \<lparr>start = of_nat st, len = l, dmagic = INODE_MAGIC\<rparr>"
  shows "\<exists>t s'. block_write sec (enc_inode d) s = Some t \<and> zero_sectors n st t = Some s' \<and> avail s' = [] \<and> same_fs s s' \<and> core_inv M F s' \<and>
    core_inv M (insert sec F) s' \<and> header s' sec = d \<and> file_bytes s' sec = replicate (nat l) 0 \<and>
    (\<forall>g\<in>F. header s' g = header s g \<and> file_bytes s' g = file_bytes s g)"
proof -
  note I = coreD [OF inv]
  let ?D = "insert sec {st ..< st + n}"
  have fd: "first_sector d = st" "data_sectors d = {st ..< st + n}"
    using st(2) by (simp_all add: d_def n_def first_sector_def data_sectors_def unat_of_nat)
  obtain t where t: "block_write sec (enc_inode d) s = Some t" "same_fs s t" "avail t = []" "disk t ! sec = enc_inode d"
    "\<And>a. a div 512 \<noteq> sec \<Longrightarrow> dbyte t a = dbyte s a"
    using block_write_sector [OF I(1) sec, of "enc_inode d"] mem by auto
  obtain s' where s': "zero_sectors n st t = Some s'" "same_fs t s'" "avail s' = []"
    "\<And>a. dbyte s' a = (if st \<le> a div 512 \<and> a div 512 < st + n then 0 else dbyte t a)"
    using zero_sectors_eq [OF same_fsD(2) [OF t(2) I(1)], of st n] st(1) same_fsD(1) [OF t(2)] t(3) by auto
  have S: "same_fs s s'" by (rule same_fs_trans [OF t(2) s'(2)])
  have ch: "changed_in ?D s s'" using same_fsD(1,2) [OF S] t(5) s'(4) by (auto simp: changed_in_def)
  have FD: "F \<inter> ?D = {}" using dis by blast
  note fr = fs_inv_frame [OF inv ch FD, OF same_fsD(5,3,4,6,7,8) [OF S]]
  have "disk s' ! sec = disk t ! sec"
    by (rule sector_eqI) (use same_fsD(1,2) [OF t(2)] same_fsD(1,2) [OF s'(2)] I(1) sec s'(4) st(3) in auto)
  then have hs: "header s' sec = d" using t(4) l by (simp add: header_def dec_enc_inode in_s32_def d_def)
  have "core_inv M (insert sec F) s'"
  proof (rule fs_inv_insert [OF fr(1)])
    show "sec < length (disk s')" "header_ok s' (header s' sec)" "sec \<notin> data_sectors (header s' sec)"
      using sec same_fsD(1) [OF S] hs fd st l by (simp_all add: header_ok_def d_def n_def)
    show "bm_bits (free_map s') ! x" if M "x \<in> extent s' sec" for x using marked that hs fd same_fsD(5) [OF S] by (simp del: bm_bits_nth)
    show "extent s' f \<inter> extent s' sec = {}" if "f \<in> F" for f using dis [OF that] hs fd fr(2) [OF that] by auto
  qed
  moreover have "file_bytes s' f = file_bytes s f" if "f \<in> F" for f
    using file_bytes_unchanged [OF ch I(1) files_okD(1,2) [OF I(8) that]] dis [OF that] by simp
  moreover have "file_bytes s' sec = replicate (nat l) 0"
  proof (rule nth_equalityI)
    fix k assume "k < length (file_bytes s' sec)"
    then have k: "k < nat (len d)" by (simp add: hs)
    have "(512 * st + k) div 512 \<in> {st ..< st + n}" using data_byte_sector [of d k] l k fd by (simp add: d_def)
    then have "dbyte s' (512 * st + k) = 0" using s'(4) by simp
    moreover have "file_bytes s' sec ! k = dbyte s' (512 * st + k)" using k unfolding file_bytes_def hs fd by simp
    ultimately show "file_bytes s' sec ! k = replicate (nat l) 0 ! k" using k by (simp add: d_def)
  qed (simp add: hs d_def)
  ultimately show ?thesis using t(1) s'(1,3) S fr hs by (intro exI [of _ t] exI [of _ s']) simp
qed

lemma inode_create_inv:
  assumes inv: "fs_inv F s" and mem: "avail s = []"
    and sec: "sec < length (disk s)" "bm_bits (free_map s) ! sec" "\<And>f. f \<in> F \<Longrightarrow> sec \<notin> extent s f"
    and l: "0 \<le> l" "l \<le> 2 ^ 31 - 512"
  shows "\<exists>ok s'. inode_create sec l s = Some (ok, s') \<and> avail s' = [] \<and> same_objects s s' \<and> (\<forall>g\<in>F. header s' g = header s g) \<and>
    (\<forall>g\<in>F. g \<noteq> FREE_MAP_SECTOR \<longrightarrow> file_bytes s' g = file_bytes s g) \<and> fs_inv F s' \<and> bm_bits (free_map s') ! sec \<and>
    (if ok then fs_inv (insert sec F) s' \<and> map_saved s' \<and> file_bytes s' sec = replicate (nat l) 0 \<and>
       (\<exists>st. st + bytes_to_sectors l \<le> length (disk s) \<and> (\<forall>x. st \<le> x \<and> x < st + bytes_to_sectors l \<longrightarrow> \<not> bm_bits (free_map s) ! x) \<and>
          bm_bits (free_map s') = set_range (bm_bits (free_map s)) st (bytes_to_sectors l) True)
     else free_map s' = free_map s \<and> disk s' = disk s \<and> (\<forall>i. \<not> group_at (bm_bits (free_map s)) (bytes_to_sectors l) False i))"
proof -
  note I = fs_invD [OF inv]
  obtain s1 where s1: "fs_malloc s = (next_addr s, s1)" "next_addr s \<noteq> NULL" "same_io s s1" "avail s1 = []"
    using fs_malloc_mem [OF mem I(3)] by auto
  note S1 = same_ioD [OF s1(3)] and H1 = same_io_bytes [OF s1(3)]
  have inv1: "fs_inv F s1" by (rule fs_inv_same_io [OF inv s1(3)])
  let ?n = "bytes_to_sectors l"
  obtain r s2 where r: "free_map_allocate ?n s1 = Some (r, s2)" and inv2: "fs_inv F s2" and mem2: "avail s2 = []"
    and h2: "\<forall>g\<in>F. header s2 g = header s g" "\<forall>g\<in>F. g \<noteq> FREE_MAP_SECTOR \<longrightarrow> file_bytes s2 g = file_bytes s g"
    and o2: "same_objects s s2"
    and c: "case r of None \<Rightarrow> s2 = s1 \<and> (\<forall>i. \<not> group_at (bm_bits (free_map s)) ?n False i)
     | Some st \<Rightarrow> map_saved s2 \<and> st + ?n \<le> length (disk s) \<and> st < 2 ^ 32 \<and> (\<forall>x. st \<le> x \<and> x < st + ?n \<longrightarrow> \<not> bm_bits (free_map s) ! x) \<and>
         bm_bits (free_map s2) = set_range (bm_bits (free_map s)) st ?n True"
    using free_map_allocate_inv [OF inv1 s1(4), of ?n] S1(7) unfolding H1 same_objects_def S1(1-6) by fastforce
  show ?thesis
  proof (cases r)
    case None
    then have "inode_create sec l s = Some (False, s1)" using s1(1,2) r c l(1) by (simp add: inode_create_def)
    then show ?thesis using None c s1(4) o2 h2 inv1 S1 sec(2)
      by (intro exI [of _ False] exI [of _ s1]) (simp del: bm_bits_nth)
  next
    case (Some st)
    let ?d = "\<lparr>start = of_nat st, len = l, dmagic = INODE_MAGIC\<rparr>" and ?N = "{st ..< st + ?n}"
    have C: "map_saved s2" "st + ?n \<le> length (disk s)" "st < 2 ^ 32" "\<And>x. x \<in> ?N \<Longrightarrow> \<not> bm_bits (free_map s) ! x"
      "bm_bits (free_map s2) = set_range (bm_bits (free_map s)) st ?n True" using c Some by auto
    have len2: "length (disk s2) = length (disk s)" using o2 by (simp add: same_objects_def)
    let ?D = "insert sec ?N"
    have "extent s f \<inter> ?D = {}" if "f \<in> F" for f
      using markedD [OF inv that] C(4) sec(3) [OF that] unfolding disjoint_iff by (metis insert_iff)
    then have dis: "extent s2 f \<inter> ?D = {}" if "f \<in> F" for f using h2(1) that by simp
    have secN: "sec \<notin> ?N" using C(4) sec(2) by blast
    have bits: "bm_bits (free_map s2) ! x" if "x \<in> ?D" for x
    proof -
      have "x < length (bm_bits (free_map s))" using that sec(1) C(2) I(5) by auto
      then show ?thesis
        using that sec(2) nth_set_range [of st ?n "bm_bits (free_map s)" x True] C(2,5) I(5) by (auto simp del: bm_bits_nth)
    qed
    obtain s3 s4 where s4: "block_write sec (enc_inode ?d) s2 = Some s3" "zero_sectors ?n st s3 = Some s4" "avail s4 = []" "same_fs s2 s4"
      "fs_inv F s4" "fs_inv (insert sec F) s4" "file_bytes s4 sec = replicate (nat l) 0"
      "\<forall>g\<in>F. header s4 g = header s2 g \<and> file_bytes s4 g = file_bytes s2 g"
      using write_new_file [OF inv2 mem2 _ l, of sec st] sec(1) len2 C(2,3) secN bits dis by auto
    have "map_saved s4" using C(1) s4(8) I(6) same_fsD(1,5) [OF s4(4)] by (simp add: map_saved_def)
    moreover have "inode_create sec l s = Some (True, s4)"
      using s1(1,2) r Some s4(1,2) l(1) by (simp add: inode_create_def)
    moreover have "same_objects s s4" using o2 same_fsD(1,3,4,6,7,8) [OF s4(4)] by (simp add: same_objects_def)
    moreover have "bm_bits (free_map s4) ! sec" using bits [of sec] same_fsD(5) [OF s4(4)] by (simp del: bm_bits_nth)
    moreover have "\<exists>st. st + ?n \<le> length (disk s) \<and> (\<forall>x. st \<le> x \<and> x < st + ?n \<longrightarrow> \<not> bm_bits (free_map s) ! x) \<and>
        bm_bits (free_map s4) = set_range (bm_bits (free_map s)) st ?n True"
      using C(2,4,5) same_fsD(5) [OF s4(4)] by (intro exI [of _ st]) (simp del: bm_bits_nth)
    ultimately show ?thesis using s4(3,5-8) h2 by (intro exI [of _ True] exI [of _ s4]) (simp del: bm_bits_nth)
  qed
qed

section \<open>Releasing sectors, opening and closing inodes\<close>

lemma free_map_release_inv:
  assumes inv: "fs_inv F s" and mem: "avail s = []" and le: "st + n \<le> length (disk s)"
    and used: "\<And>x. st \<le> x \<Longrightarrow> x < st + n \<Longrightarrow> bm_bits (free_map s) ! x" and free: "\<And>f. f \<in> F \<Longrightarrow> extent s f \<inter> {st ..< st + n} = {}"
  shows "\<exists>s'. free_map_release st n s = Some s' \<and> fs_inv F s' \<and> map_saved s' \<and> avail s' = [] \<and> same_objects s s' \<and>
    (\<forall>g\<in>F. header s' g = header s g) \<and> (\<forall>g\<in>F. g \<noteq> FREE_MAP_SECTOR \<longrightarrow> file_bytes s' g = file_bytes s g) \<and>
    bm_bits (free_map s') = set_range (bm_bits (free_map s)) st n False"
proof -
  note I = fs_invD [OF inv]
  have le': "st + n \<le> bit_cnt (free_map s)" using le I(5) by simp
  have "\<forall>k. st \<le> k \<and> k < st + n \<longrightarrow> bm_bits (free_map s) ! k" using used by iprover
  then have all: "bitmap_all (free_map s) st n = Some True"
    unfolding bitmap_all_bits [OF I(4) le'] by (rule arg_cong [of _ True Some, OF eqTrueI])
  obtain b where b: "bitmap_set_multiple (free_map s) st n False = Some b" "bm_wf b" "bit_cnt b = length (disk s)"
    "bm_bits b = set_range (bm_bits (free_map s)) st n False"
    using bitmap_set_multiple_bits [OF I(4) le', of False] I(5) by auto
  have more: "bm_bits b ! x" if "f \<in> F" "x \<in> extent s f" for f x
  proof -
    have "x < length (bm_bits (free_map s))" using extent_bound [OF inv that] I(5) by simp
    moreover have "bm_bits (free_map s) ! x" "x \<notin> {st ..< st + n}" using markedD [OF inv that] free [OF that(1)] that(2) by blast+
    ultimately show ?thesis using b(4) le' nth_set_range [of st n "bm_bits (free_map s)" x False] by (auto simp del: bm_bits_nth)
  qed
  let ?s = "s\<lparr>free_map := b\<rparr>"
  have h: "header ?s = header s" "file_bytes ?s = file_bytes s" by (simp_all add: header_def file_bytes_def dbyte_def fun_eq_iff)
  have inv1: "fs_inv F ?s" by (rule fs_inv_free_map [OF inv b(2,3) more])
  have mem1: "avail ?s = []" using mem by simp
  obtain s' where s': "bitmap_write b (free_map_file s) ?s = Some (True, s')" "fs_inv F s'" "map_saved s'" "avail s' = []" "same_fs ?s s'"
    "\<forall>g\<in>F. header s' g = header s g" "\<forall>g\<in>F. g \<noteq> FREE_MAP_SECTOR \<longrightarrow> file_bytes s' g = file_bytes s g"
    using map_write [OF inv1 mem1] unfolding h by auto
  have "free_map_release st n s = Some s'" using all b(1) s'(1) by (simp add: free_map_release_def)
  moreover have "same_objects s s'" using same_fsD(1,3,4,6,7,8) [OF s'(5)] by (simp add: same_objects_def)
  ultimately show ?thesis using s' b(4) same_fsD(5) [OF s'(5)] by (intro exI [of _ s']) simp
qed

text \<open>The disk, the free map and the open files are as they were; inodes in memory only by what opening and closing does.\<close>

definition same_store :: "fs \<Rightarrow> fs \<Rightarrow> bool" where
  "same_store s s' \<longleftrightarrow> disk s' = disk s \<and> free_map s' = free_map s \<and> files s' = files s \<and> free_map_file s' = free_map_file s \<and>
     next_addr s \<le> next_addr s' \<and> (\<forall>q. q < next_addr s \<longrightarrow> sector (inodes s' q) = sector (inodes s q) \<and>
       data (inodes s' q) = data (inodes s q) \<and> deny_write_cnt (inodes s' q) = deny_write_cnt (inodes s q) \<and>
       removed (inodes s' q) = removed (inodes s q))"

lemma same_store_trans: "same_store s t \<Longrightarrow> same_store t u \<Longrightarrow> same_store s u"
  by (auto simp: same_store_def)

lemma same_store_bytes:
  assumes "same_store s s'"
  shows "header s' = header s" "file_bytes s' = file_bytes s" "map_saved s' = map_saved s"
  using assms by (simp_all add: same_store_def map_saved_def header_def file_bytes_def dbyte_def fun_eq_iff)

lemma fs_inv_store:
  assumes inv: "core_inv M F s" and st: "same_store s s'" and "inodes_ok F s'"
    and p0: "M \<Longrightarrow> file_inode (files s (free_map_file s)) \<in> set (open_inodes s')"
  shows "core_inv M F s'"
proof -
  note I = coreD [OF inv] and S = st [unfolded same_store_def]
  let ?p = "file_inode (files s (free_map_file s))"
  have h: "header s' = header s" by (rule same_store_bytes(1) [OF st])
  have "files_ok F s'" using I(8) S unfolding files_ok_def h by (auto simp: header_ok_def)
  moreover have "map_file_ok s'" if M
  proof -
    have "?p < next_addr s" using I(9) I(7) [OF that] by (auto simp: inodes_ok_def map_file_ok_def)
    then show ?thesis using I(7) [OF that] S p0 [OF that] unfolding map_file_ok_def h by auto
  qed
  moreover have "marked F s'" if M using I(11) [OF that] S unfolding marked_def h by (simp del: bm_bits_nth)
  ultimately show ?thesis using I S assms(3) by (simp add: core_inv_def disk_wf_def)
qed

lemma inodes_ok_sub:
  assumes ok: "inodes_ok F s" and st: "same_store s s'" and "distinct (open_inodes s')"
    and sub: "\<And>q. q \<in> set (open_inodes s') \<Longrightarrow> q \<in> set (open_inodes s) \<and> 0 < open_cnt (inodes s' q)"
  shows "inodes_ok F s'"
proof -
  have eq: "sector (inodes s' q) = sector (inodes s q)" "data (inodes s' q) = data (inodes s q)" "q < next_addr s'"
    if "q \<in> set (open_inodes s')" for q
    using st inodes_okD(2) [OF ok, of q] sub [OF that] by (auto simp: same_store_def)
  have "inj_on (\<lambda>q. sector (inodes s q)) (set (open_inodes s))" using ok by (simp add: inodes_ok_def distinct_map)
  then have "inj_on (\<lambda>q. sector (inodes s q)) (set (open_inodes s'))" by (rule inj_on_subset) (use sub in blast)
  then have "inj_on (\<lambda>q. sector (inodes s' q)) (set (open_inodes s'))" by (simp add: eq cong: inj_on_cong)
  then show ?thesis unfolding inodes_ok_def same_store_bytes(1) [OF st]
    using inodes_okD [OF ok] sub eq assms(3) by (simp add: distinct_map)
qed

lemma open_inodes_distinct: "inodes_ok F s \<Longrightarrow> distinct (open_inodes s)"
  by (simp add: inodes_ok_def distinct_map)

text \<open>Opening adds an inode or counts one more user of it, closing is the reverse.\<close>

definition opened :: "addr \<Rightarrow> fs \<Rightarrow> fs \<Rightarrow> bool" where
  "opened p s s' \<longleftrightarrow> set (open_inodes s') = insert p (set (open_inodes s)) \<and>
     (\<forall>q\<in>set (open_inodes s). inodes s' q = (if q = p then (inodes s q)\<lparr>open_cnt := open_cnt (inodes s q) + 1\<rparr> else inodes s q)) \<and>
     (p \<notin> set (open_inodes s) \<longrightarrow> open_cnt (inodes s' p) = 1 \<and> deny_write_cnt (inodes s' p) = 0 \<and> \<not> removed (inodes s' p))"

definition closed :: "addr \<Rightarrow> fs \<Rightarrow> fs \<Rightarrow> bool" where
  "closed p s s' \<longleftrightarrow> set (open_inodes s') = (if open_cnt (inodes s p) = 1 then set (open_inodes s) - {p} else set (open_inodes s)) \<and>
     inodes s' = (inodes s)(p := (inodes s p)\<lparr>open_cnt := open_cnt (inodes s p) - 1\<rparr>)"

lemma inode_open_inv:
  assumes inv: "core_inv M F s" and mem: "avail s = []" and f: "f \<in> F"
  shows "\<exists>p s'. inode_open f s = Some (p, s') \<and> p \<noteq> NULL \<and> sector (inodes s' p) = f \<and> core_inv M F s' \<and>
    avail s' = [] \<and> same_store s s' \<and> opened p s s'"
proof (cases "List.find (\<lambda>p. sector (inodes s p) = f) (open_inodes s)")
  case (Some p)
  note I = coreD [OF inv]
  then have p: "p \<in> set (open_inodes s)" "sector (inodes s p) = f" using Some by (auto simp: find_Some_iff in_set_conv_nth)
  let ?s = "upd_inode p (\<lambda>i. i\<lparr>open_cnt := open_cnt i + 1\<rparr>) s"
  have pn: "p \<noteq> NULL" by (rule inodes_okD(1) [OF I(9) p(1)])
  have st: "same_store s ?s" by (simp add: same_store_def upd_inode_def)
  have "inodes_ok F ?s"
    by (rule inodes_ok_sub [OF I(9) st]) (use open_inodes_distinct [OF I(9)] inodes_okD(5) [OF I(9)] less_imp_le [OF inodes_okD(5) [OF I(9)]] in \<open>auto simp: upd_inode_def\<close>)
  then have "core_inv M F ?s" using I(7) by (intro fs_inv_store [OF inv st]) (simp_all add: map_file_ok_def upd_inode_def)
  moreover have "inode_open f s = Some (p, ?s)" using Some pn by (simp add: inode_open_def inode_reopen_def)
  moreover have "opened p s ?s" using p by (auto simp: opened_def upd_inode_def)
  ultimately show ?thesis using p pn st mem by (intro exI [of _ p] exI [of _ ?s]) (simp add: upd_inode_def)
next
  case None
  note I = coreD [OF inv]
  define q where "q = next_addr s"
  obtain s1 where s1: "fs_malloc s = (q, s1)" "q \<noteq> NULL" "same_io s s1" "avail s1 = []" "next_addr s1 = q + 1"
    using fs_malloc_mem [OF mem I(3)] by (auto simp: q_def)
  note S1 = same_ioD [OF s1(3)]
  let ?i = "\<lparr>sector = f, open_cnt = 1, removed = False, deny_write_cnt = 0, data = header s f\<rparr>"
  define s' where "s' = upd_inode q (\<lambda>_. ?i) (s1\<lparr>open_inodes := q # open_inodes s1\<rparr>)"
  have new: "\<forall>p\<in>set (open_inodes s). sector (inodes s p) \<noteq> f \<and> p < q" using None I(9) by (auto simp: find_None_iff inodes_ok_def q_def)
  have run: "inode_open f s = Some (q, s')"
    using None s1(1,2) files_okD(1) [OF I(8) f] S1(1)
    by (simp add: inode_open_def block_read_def check_sector_def s'_def header_def)
  have st: "same_store s s'" using S1 by (auto simp: same_store_def s'_def upd_inode_def q_def)
  have "inodes_ok F s'" using I(9) new f S1 s1(2,5) unfolding inodes_ok_def
    by (auto simp: s'_def upd_inode_def header_def distinct_map inj_on_def)
  then have "core_inv M F s'" using I(7) S1 by (intro fs_inv_store [OF inv st]) (simp_all add: map_file_ok_def s'_def upd_inode_def)
  moreover have "opened q s s'" using new S1 by (auto simp: opened_def s'_def upd_inode_def)
  ultimately show ?thesis using run s1(2,4) st S1 by (intro exI [of _ q] exI [of _ s']) (auto simp: s'_def upd_inode_def)
qed

lemma inode_close_inv:
  assumes inv: "core_inv M F s" and p: "p \<in> set (open_inodes s)" "M \<Longrightarrow> sector (inodes s p) \<noteq> FREE_MAP_SECTOR" "\<not> removed (inodes s p)"
  shows "\<exists>s'. inode_close p s = Some s' \<and> core_inv M F s' \<and> avail s' = avail s \<and> same_store s s' \<and> closed p s s'"
proof -
  note I = coreD [OF inv] and P = inodes_okD [OF coreD(9) [OF inv] p(1)]
  let ?p0 = "file_inode (files s (free_map_file s))"
  have p0: "?p0 \<in> set (open_inodes s)" "?p0 \<noteq> p" if M using I(7) [OF that] p(2) [OF that] by (auto simp: map_file_ok_def)
  have dist: "distinct (open_inodes s)" by (rule open_inodes_distinct [OF I(9)])
  let ?s1 = "upd_inode p (\<lambda>i. i\<lparr>open_cnt := open_cnt i - 1\<rparr>) s"
  show ?thesis
  proof (cases "open_cnt (inodes s p) = 1")
    case True
    let ?s = "?s1\<lparr>open_inodes := remove1 p (open_inodes s)\<rparr>"
    have st: "same_store s ?s" by (simp add: same_store_def upd_inode_def)
    have "inodes_ok F ?s"
      by (rule inodes_ok_sub [OF I(9) st]) (use dist inodes_okD(5) [OF I(9)] in \<open>auto simp: upd_inode_def\<close>)
    then have "core_inv M F ?s" using p0 by (intro fs_inv_store [OF inv st]) (simp_all add: in_set_remove1)
    moreover have "inode_close p s = Some ?s" using True P(1) p(1,3) by (simp add: inode_close_def upd_inode_def Let_def)
    ultimately show ?thesis using st dist True by (intro exI [of _ ?s]) (auto simp: closed_def upd_inode_def)
  next
    case False
    have st: "same_store s ?s1" by (simp add: same_store_def upd_inode_def)
    have "inodes_ok F ?s1"
      by (rule inodes_ok_sub [OF I(9) st]) (use P(5) False dist inodes_okD(5) [OF I(9)] in \<open>auto simp: upd_inode_def\<close>)
    then have "core_inv M F ?s1" using p0 by (intro fs_inv_store [OF inv st]) (simp_all add: upd_inode_def)
    moreover have "inode_close p s = Some ?s1" using False P(1) by (simp add: inode_close_def upd_inode_def Let_def)
    ultimately show ?thesis using st False by (intro exI [of _ ?s1]) (auto simp: closed_def upd_inode_def)
  qed
qed

text \<open>Opening and closing again leaves the open inodes as they were.\<close>

definition same_open :: "fs \<Rightarrow> fs \<Rightarrow> bool" where
  "same_open s s' \<longleftrightarrow> set (open_inodes s') = set (open_inodes s) \<and> (\<forall>q\<in>set (open_inodes s). inodes s' q = inodes s q)"

lemma opened_closed:
  assumes "inodes_ok F s" "opened p s s1" "inodes s2 = inodes s1" "open_inodes s2 = open_inodes s1" "closed p s2 s3"
  shows "same_open s s3"
proof (cases "p \<in> set (open_inodes s)")
  case True
  then have "0 < open_cnt (inodes s p)" by (rule inodes_okD(5) [OF assms(1)])
  then show ?thesis using assms(2-5) True by (auto simp: opened_def closed_def same_open_def insert_absorb)
next
  case False
  then show ?thesis using assms(2-5) by (auto simp: opened_def closed_def same_open_def)
qed

lemma opened_opened_closed:
  assumes "inodes_ok F s" "opened p s s1" "inodes t = inodes s1" "open_inodes t = open_inodes s1" "opened q t s2" "q \<noteq> p" "closed p s2 s3"
  shows "opened q s s3"
proof (cases "p \<in> set (open_inodes s)")
  case True
  then have "0 < open_cnt (inodes s p)" by (rule inodes_okD(5) [OF assms(1)])
  then show ?thesis using assms(2-7) True by (auto simp: opened_def closed_def insert_absorb)
next
  case False
  then show ?thesis using assms(2-7) by (auto simp: opened_def closed_def)
qed

end
