(* ===== verification/Directory.thy ===== *)
theory Directory
  imports File_System
begin

text \<open>
  Directories (\<^verbatim>\<open>filesys/directory.c\<close>) and the operations on named files (\<^verbatim>\<open>filesys/filesys.c\<close>). A directory is a file of 20-byte
  entries: the sector of an inode, a name of at most 14 characters with its terminating zero, and a flag. Names are lists of characters
  without the zero.
\<close>

section \<open>Entries\<close>

definition NAME_MAX :: nat where "NAME_MAX = 14"

record dir_entry =
  inode_sector :: u32
  e_name :: "u8 list"
  in_use :: bool

definition sizeof_entry :: nat where "sizeof_entry = 20"

definition enc_entry :: "dir_entry \<Rightarrow> u8 list" where
  "enc_entry e = le32 (inode_sector e) @ e_name e @ [if in_use e then 1 else 0]"

definition dec_entry :: "u8 list \<Rightarrow> dir_entry" where
  "dec_entry bs = \<lparr>inode_sector = de32 (take 4 bs), e_name = take 15 (drop 4 bs), in_use = bs ! 19 \<noteq> 0\<rparr>"

text \<open>The string in an array of characters. All names on a disk are terminated (\<open>dir_wf\<close> below).\<close>

definition cstring :: "u8 list \<Rightarrow> u8 list" where
  "cstring bs = takeWhile (\<lambda>c. c \<noteq> 0) bs"

record dir =
  dir_inode :: addr
  dir_pos :: int

section \<open>Searching\<close>

text \<open>
  The variable \<open>e\<close> of the loops, as its 20 bytes: a read overwrites as much of it as was read. \<open>cstring\<close> stops at the end of the name field; in a well-formed
  directory every name ends before it.
\<close>

partial_function (option) lookup_loop :: "addr \<Rightarrow> u8 list \<Rightarrow> nat \<Rightarrow> fs \<Rightarrow> ((dir_entry \<times> nat) option \<times> fs) option" where
  "lookup_loop p nm ofs s = do {
     (bs, s) \<leftarrow> inode_read_at p (int sizeof_entry) (s32 (int ofs)) s;
     if length bs = sizeof_entry
     then (if in_use (dec_entry bs) \<and> cstring (e_name (dec_entry bs)) = nm then Some (Some (dec_entry bs, ofs), s)
           else lookup_loop p nm (size_add ofs sizeof_entry) s)
     else Some (None, s) }"

definition lookup :: "addr \<Rightarrow> u8 list \<Rightarrow> fs \<Rightarrow> ((dir_entry \<times> nat) option \<times> fs) option" where
  "lookup p nm s = lookup_loop p nm 0 s"

definition dir_lookup :: "dir \<Rightarrow> u8 list \<Rightarrow> fs \<Rightarrow> (addr \<times> fs) option" where
  "dir_lookup d nm s = do {
     (r, s) \<leftarrow> lookup (dir_inode d) nm s;
     case r of Some (e, _) \<Rightarrow> inode_open (unat (inode_sector e)) s | None \<Rightarrow> Some (NULL, s) }"

partial_function (option) free_slot_loop :: "addr \<Rightarrow> u8 list \<Rightarrow> int \<Rightarrow> fs \<Rightarrow> (u8 list \<times> int \<times> fs) option" where
  "free_slot_loop p e ofs s = do {
     (bs, s) \<leftarrow> inode_read_at p (int sizeof_entry) ofs s;
     let e = overwrite e 0 bs;
     if length bs = sizeof_entry
     then (if \<not> in_use (dec_entry e) then Some (e, ofs, s) else free_slot_loop p e (s32 (ofs + int sizeof_entry)) s)
     else Some (e, ofs, s) }"

text \<open>\<^verbatim>\<open>strlcpy (e.name, name, sizeof e.name)\<close>: the bytes after the zero stay.\<close>

definition set_name :: "u8 list \<Rightarrow> u8 list \<Rightarrow> u8 list" where
  "set_name old nm = overwrite old 0 (take 14 nm @ [0])"

text \<open>\<open>e0\<close>: what the variable \<^verbatim>\<open>e\<close> contains before it is set.\<close>

definition dir_add :: "u8 list \<Rightarrow> dir \<Rightarrow> u8 list \<Rightarrow> nat \<Rightarrow> fs \<Rightarrow> (bool \<times> fs) option" where
  "dir_add e0 d nm sec s =
     (if nm = [] \<or> length nm > NAME_MAX then Some (False, s)
      else do {
        (r, s) \<leftarrow> lookup (dir_inode d) nm s;
        if r \<noteq> None then Some (False, s)
        else do {
          (e, ofs, s) \<leftarrow> free_slot_loop (dir_inode d) e0 0 s;
          let e = (dec_entry e)\<lparr>in_use := True, e_name := set_name (e_name (dec_entry e)) nm, inode_sector := of_nat sec\<rparr>;
          (n, s) \<leftarrow> inode_write_at (dir_inode d) (enc_entry e) (int sizeof_entry) ofs s;
          Some (n = int sizeof_entry, s) } })"

definition dir_remove :: "dir \<Rightarrow> u8 list \<Rightarrow> fs \<Rightarrow> (bool \<times> fs) option" where
  "dir_remove d nm s = do {
     (r, s) \<leftarrow> lookup (dir_inode d) nm s;
     case r of
       None \<Rightarrow> Some (False, s)
     | Some (e, ofs) \<Rightarrow> do {
         (p, s) \<leftarrow> inode_open (unat (inode_sector e)) s;
         if p = NULL then Some (False, s)
         else do {
           (n, s) \<leftarrow> inode_write_at (dir_inode d) (enc_entry (e\<lparr>in_use := False\<rparr>)) (int sizeof_entry) (s32 (int ofs)) s;
           if n \<noteq> int sizeof_entry then do { s \<leftarrow> inode_close p s; Some (False, s) }
           else do {
             s \<leftarrow> inode_remove p s;
             s \<leftarrow> inode_close p s;
             Some (True, s) } } } }"

partial_function (option) dir_readdir :: "dir \<Rightarrow> fs \<Rightarrow> (u8 list option \<times> dir \<times> fs) option" where
  "dir_readdir d s = do {
     (bs, s) \<leftarrow> inode_read_at (dir_inode d) (int sizeof_entry) (dir_pos d) s;
     if length bs = sizeof_entry
     then do {
       let d = d\<lparr>dir_pos := s32 (dir_pos d + int sizeof_entry)\<rparr>;
       if in_use (dec_entry bs) then Some (Some (take NAME_MAX (cstring (e_name (dec_entry bs)))), d, s)
       else dir_readdir d s }
     else Some (None, d, s) }"

section \<open>Opening and closing directories\<close>

definition dir_create :: "nat \<Rightarrow> nat \<Rightarrow> fs \<Rightarrow> (bool \<times> fs) option" where
  "dir_create sec entry_cnt s = inode_create sec (s32 (int (entry_cnt * sizeof_entry))) s"

text \<open>A directory that is open is a value of its own; \<open>None\<close> is the null pointer.\<close>

definition dir_open :: "addr \<Rightarrow> fs \<Rightarrow> (dir option \<times> fs) option" where
  "dir_open p s = do {
     let (d, s) = fs_malloc s;
     if p \<noteq> NULL \<and> d \<noteq> NULL then Some (Some \<lparr>dir_inode = p, dir_pos = 0\<rparr>, s)
     else do { s \<leftarrow> inode_close p s; Some (None, s) } }"

definition dir_open_root :: "fs \<Rightarrow> (dir option \<times> fs) option" where
  "dir_open_root s = do { (p, s) \<leftarrow> inode_open ROOT_DIR_SECTOR s; dir_open p s }"

definition dir_reopen :: "dir \<Rightarrow> fs \<Rightarrow> (dir option \<times> fs) option" where
  "dir_reopen d s = (let (p, s) = inode_reopen (dir_inode d) s in dir_open p s)"

definition dir_close :: "dir option \<Rightarrow> fs \<Rightarrow> fs option" where
  "dir_close d s = (case d of None \<Rightarrow> Some s | Some d \<Rightarrow> inode_close (dir_inode d) s)"

definition dir_get_inode :: "dir \<Rightarrow> addr" where
  "dir_get_inode d = dir_inode d"

section \<open>Named files\<close>

definition filesys_create :: "u8 list \<Rightarrow> u8 list \<Rightarrow> int \<Rightarrow> fs \<Rightarrow> (bool \<times> fs) option" where
  "filesys_create e0 nm initial_size s = do {
     (d, s) \<leftarrow> dir_open_root s;
     (inode_sec, success, s) \<leftarrow>
       (case d of None \<Rightarrow> Some (0, False, s)
        | Some d \<Rightarrow> do {
            (sec, s) \<leftarrow> free_map_allocate 1 s;
            case sec of None \<Rightarrow> Some (0, False, s)
            | Some sec \<Rightarrow> do {
                (ok, s) \<leftarrow> inode_create sec initial_size s;
                if ok then do { (ok, s) \<leftarrow> dir_add e0 d nm sec s; Some (sec, ok, s) }
                else Some (sec, False, s) } });
     s \<leftarrow> (if \<not> success \<and> inode_sec \<noteq> 0 then free_map_release inode_sec 1 s else Some s);
     s \<leftarrow> dir_close d s;
     Some (success, s) }"

definition filesys_open :: "u8 list \<Rightarrow> fs \<Rightarrow> (addr \<times> fs) option" where
  "filesys_open nm s = do {
     (d, s) \<leftarrow> dir_open_root s;
     (p, s) \<leftarrow> (case d of None \<Rightarrow> Some (NULL, s) | Some d \<Rightarrow> dir_lookup d nm s);
     s \<leftarrow> dir_close d s;
     file_open p s }"

definition filesys_remove :: "u8 list \<Rightarrow> fs \<Rightarrow> (bool \<times> fs) option" where
  "filesys_remove nm s = do {
     (d, s) \<leftarrow> dir_open_root s;
     (success, s) \<leftarrow> (case d of None \<Rightarrow> Some (False, s) | Some d \<Rightarrow> dir_remove d nm s);
     s \<leftarrow> dir_close d s;
     Some (success, s) }"

definition do_format :: "fs \<Rightarrow> fs option" where
  "do_format s = do {
     s \<leftarrow> free_map_create s;
     (success, s) \<leftarrow> dir_create ROOT_DIR_SECTOR 16 s;
     ASSERT success;
     free_map_close s }"

definition filesys_init :: "u32 list \<Rightarrow> bool \<Rightarrow> fs \<Rightarrow> fs option" where
  "filesys_init w format s = do {
     let s = inode_init s;
     s \<leftarrow> free_map_init w s;
     s \<leftarrow> (if format then do_format s else Some s);
     free_map_open s }"

definition filesys_done :: "fs \<Rightarrow> fs option" where
  "filesys_done s = free_map_close s"

section \<open>The entries of a directory\<close>

text \<open>The contents of a directory as a list of entries, and as a map from names to sectors.\<close>

definition entries :: "u8 list \<Rightarrow> dir_entry list" where
  "entries bs = map (\<lambda>i. dec_entry (take 20 (drop (20 * i) bs))) [0..<length bs div 20]"

definition matches :: "u8 list \<Rightarrow> dir_entry \<Rightarrow> bool" where
  "matches nm e \<longleftrightarrow> in_use e \<and> cstring (e_name e) = nm"

definition names :: "dir_entry list \<Rightarrow> u8 list \<Rightarrow> nat option" where
  "names es nm = map_option (\<lambda>e. unat (inode_sector e)) (List.find (matches nm) es)"

definition dir_wf :: "dir_entry list \<Rightarrow> bool" where
  "dir_wf es \<longleftrightarrow> (\<forall>e\<in>set es. in_use e \<longrightarrow> 0 \<in> set (e_name e)) \<and> distinct (map (\<lambda>e. cstring (e_name e)) (filter in_use es))"

lemma dec_enc_entry:
  assumes "length (e_name e) = 15"
  shows "dec_entry (enc_entry e) = e" "length (enc_entry e) = 20"
  using assms by (simp_all add: dec_entry_def enc_entry_def nth_append)

lemma length_entries [simp]: "length (entries bs) = length bs div 20"
  by (simp add: entries_def)

lemma nth_entries: "i < length bs div 20 \<Longrightarrow> entries bs ! i = dec_entry (take 20 (drop (20 * i) bs))"
  by (simp add: entries_def)

lemma entry_bound: "i < n div (20 :: nat) \<Longrightarrow> 20 * i + 20 \<le> n"
  by (metis Suc_leI add.commute div_times_less_eq_dividend le_trans mult.commute mult_Suc_right mult_le_mono2)

lemma name_length: "e \<in> set (entries bs) \<Longrightarrow> length (e_name e) = 15"
  using entry_bound [of _ "length bs"] by (force simp: entries_def dec_entry_def)

lemma entries_overwrite:
  assumes "j < length bs div 20" "length (e_name e) = 15"
  shows "entries (overwrite bs (20 * j) (enc_entry e)) = (entries bs)[j := e]"
proof (rule nth_equalityI)
  note b = entry_bound [OF assms(1)] and d = dec_enc_entry [OF assms(2)]
  have l: "length (overwrite bs (20 * j) (enc_entry e)) = length bs" using b d(2) by simp
  then show "length (entries (overwrite bs (20 * j) (enc_entry e))) = length ((entries bs)[j := e])" by simp
  fix i assume "i < length (entries (overwrite bs (20 * j) (enc_entry e)))"
  then have i: "i < length bs div 20" by (simp add: l)
  show "entries (overwrite bs (20 * j) (enc_entry e)) ! i = (entries bs)[j := e] ! i"
  proof (cases "i = j")
    case True
    then show ?thesis using overwrite_slice [of "20 * j" "enc_entry e" bs] b d assms(1) l by (simp add: nth_entries)
  next
    case False
    then have "20 * i + 20 \<le> 20 * j \<or> 20 * j + 20 \<le> 20 * i" by linarith
    then show ?thesis
      using overwrite_other_slice [of "20 * j" "enc_entry e" bs "20 * i" 20] entry_bound [OF i] b d(2) i l False by (simp add: nth_entries)
  qed
qed

lemma entries_short_tail:
  assumes "length ys = n" "20 * (length bs div 20) + n \<le> length bs"
  shows "entries (overwrite bs (20 * (length bs div 20)) ys) = entries bs"
proof (rule nth_equalityI)
  have l: "length (overwrite bs (20 * (length bs div 20)) ys) = length bs" using assms by simp
  then show "length (entries (overwrite bs (20 * (length bs div 20)) ys)) = length (entries bs)" by simp
  fix i assume "i < length (entries (overwrite bs (20 * (length bs div 20)) ys))"
  then have i: "i < length bs div 20" by (simp add: l)
  then show "entries (overwrite bs (20 * (length bs div 20)) ys) ! i = entries bs ! i"
    using overwrite_other_slice [of "20 * (length bs div 20)" ys bs "20 * i" 20] assms entry_bound [OF i] l by (simp add: nth_entries)
qed

lemma find_update_other: "\<not> P x \<Longrightarrow> \<not> P (xs ! j) \<Longrightarrow> List.find P (xs[j := x]) = List.find P xs"
proof (induction xs arbitrary: j)
  case (Cons a xs)
  then show ?case by (cases j) auto
qed simp

lemma find_update_unique:
  "j < length xs \<Longrightarrow> P x \<Longrightarrow> (\<And>i. i < length xs \<Longrightarrow> i \<noteq> j \<Longrightarrow> \<not> P (xs ! i)) \<Longrightarrow> List.find P (xs[j := x]) = Some x"
  by (rule find_Some_iff [THEN iffD2]) (intro exI [of _ j], auto simp: nth_list_update)

lemma distinct_filter_nth:
  "distinct (map f (filter P xs)) \<longleftrightarrow> (\<forall>i<length xs. \<forall>j<length xs. P (xs ! i) \<and> P (xs ! j) \<and> f (xs ! i) = f (xs ! j) \<longrightarrow> i = j)"
  (is "_ \<longleftrightarrow> ?R xs")
proof (induction xs)
  case (Cons a xs)
  have "?R (a # xs) \<longleftrightarrow> ?R xs \<and> (P a \<longrightarrow> (\<forall>i<length xs. P (xs ! i) \<longrightarrow> f (xs ! i) \<noteq> f a))"
    by (auto simp: All_less_Suc2)
  then show ?case using Cons by (auto simp: in_set_conv_nth image_iff)
qed simp

lemma dir_wf_nth:
  "dir_wf es \<longleftrightarrow> (\<forall>i<length es. in_use (es ! i) \<longrightarrow> 0 \<in> set (e_name (es ! i))) \<and>
     (\<forall>i<length es. \<forall>j<length es. in_use (es ! i) \<and> in_use (es ! j) \<and> cstring (e_name (es ! i)) = cstring (e_name (es ! j)) \<longrightarrow> i = j)"
  unfolding dir_wf_def distinct_filter_nth by (auto simp: all_set_conv_all_nth)

lemma names_None: "names es nm = None \<longleftrightarrow> (\<forall>i<length es. \<not> matches nm (es ! i))"
  by (auto simp: names_def find_None_iff in_set_conv_nth)

lemma names_Some:
  assumes "dir_wf es" "j < length es" "matches nm (es ! j)"
  shows "names es nm = Some (unat (inode_sector (es ! j)))"
proof -
  have "List.find (matches nm) es = Some (es ! j)"
    using find_update_unique [of j es "matches nm" "es ! j"] assms by (auto simp: dir_wf_nth matches_def)
  then show ?thesis by (simp add: names_def)
qed

text \<open>Filling a free entry and emptying a used one.\<close>

lemma names_fill:
  assumes "dir_wf es" "j < length es" "\<not> in_use (es ! j)" "in_use e" "0 \<in> set (e_name e)" "names es (cstring (e_name e)) = None"
  shows "names (es[j := e]) = (names es)(cstring (e_name e) \<mapsto> unat (inode_sector e))" "dir_wf (es[j := e])"
proof -
  let ?nm = "cstring (e_name e)"
  have no: "\<not> matches ?nm (es ! i)" if "i < length es" for i using assms(6) that by (simp add: names_None)
  show "names (es[j := e]) = (names es)(?nm \<mapsto> unat (inode_sector e))"
  proof
    fix nm
    show "names (es[j := e]) nm = ((names es)(?nm \<mapsto> unat (inode_sector e))) nm"
      using find_update_other [of "matches nm" e es j] find_update_unique [of j es "matches ?nm" e] assms(2-4) no
      by (cases "nm = ?nm") (auto simp: names_def matches_def)
  qed
  show "dir_wf (es[j := e])"
  proof -
    have "cstring (e_name (es ! i)) \<noteq> ?nm \<and> ?nm \<noteq> cstring (e_name (es ! i))" if "i < length es" "in_use (es ! i)" for i
      using no [OF that(1)] that(2) by (auto simp: matches_def)
    then show ?thesis using assms(1,2,5) unfolding dir_wf_nth by (auto simp: nth_list_update)
  qed
qed

lemma names_clear:
  assumes "dir_wf es" "j < length es" "matches nm (es ! j)"
  shows "names (es[j := (es ! j)\<lparr>in_use := False\<rparr>]) = (names es)(nm := None)" "dir_wf (es[j := (es ! j)\<lparr>in_use := False\<rparr>])"
proof -
  let ?e = "(es ! j)\<lparr>in_use := False\<rparr>"
  have uniq: "\<not> matches nm (es ! i)" if "i < length es" "i \<noteq> j" for i using assms that by (auto simp: dir_wf_nth matches_def)
  show "names (es[j := ?e]) = (names es)(nm := None)"
  proof
    fix x
    show "names (es[j := ?e]) x = ((names es)(nm := None)) x"
    proof (cases "x = nm")
      case True
      have "names (es[j := ?e]) nm = None" unfolding names_None using uniq assms(2) by (auto simp: nth_list_update matches_def)
      then show ?thesis using True by simp
    next
      case False
      then have "\<not> matches x ?e" "\<not> matches x (es ! j)" using assms(3) by (auto simp: matches_def)
      then show ?thesis using False find_update_other [of "matches x" ?e es j] by (simp add: names_def)
    qed
  qed
  show "dir_wf (es[j := ?e])" using assms(1,2) unfolding dir_wf_nth by (auto simp: nth_list_update)
qed

section \<open>Searching a directory\<close>

text \<open>Reading one entry.\<close>

lemma read_entry:
  assumes "io_ok s p" "i \<le> length (contents s p) div 20"
  shows "\<exists>bs s'. inode_read_at p (int sizeof_entry) (int (20 * i)) s = Some (bs, s') \<and> same_io s s' \<and> length bs \<le> 20 \<and>
    (length bs = 20 \<longrightarrow> i < length (contents s p) div 20 \<and> dec_entry bs = entries (contents s p) ! i) \<and>
    (avail s = [] \<longrightarrow> bs = take 20 (drop (20 * i) (contents s p)) \<and> (length bs = 20 \<longleftrightarrow> i < length (contents s p) div 20))"
proof -
  let ?c = "contents s p"
  have le: "20 * i \<le> length ?c" using assms(2) div_times_less_eq_dividend [of "length ?c" 20] by linarith
  have "length ?c \<le> 2 ^ 31 - 512" using assms(1) by (auto simp: io_ok_def inode_ok_def)
  then have k: "20 * i < 2 ^ 31" using le by simp
  obtain n s' where r: "inode_read_at p (int 20) (int (20 * i)) s = Some (take n (drop (20 * i) ?c), s')" "n \<le> 20"
    "avail s = [] \<longrightarrow> n = 20" "same_io s s'"
    using inode_read_at_bytes [OF assms(1) k, of 20] by blast
  let ?bs = "take n (drop (20 * i) ?c)"
  have full: "i < length ?c div 20 \<longleftrightarrow> 20 * i + 20 \<le> length ?c" by (auto simp: less_eq_div_iff_mult_less_eq Suc_le_eq [symmetric])
  have "length ?bs = 20 \<longrightarrow> n = 20 \<and> i < length ?c div 20" using r(2) unfolding full by auto
  moreover have "n = 20 \<longrightarrow> (length ?bs = 20 \<longleftrightarrow> i < length ?c div 20)" unfolding full by auto
  moreover have "length ?bs \<le> 20" using r(2) by simp
  ultimately show ?thesis using r unfolding sizeof_entry_def
    by (intro exI [of _ ?bs] exI [of _ s']) (auto simp: nth_entries simp del: length_take)
qed

lemma next_offset:
  assumes "io_ok s p" "i < length (contents s p) div 20"
  shows "size_add (20 * i) sizeof_entry = 20 * Suc i" "s32 (int (20 * i) + int sizeof_entry) = int (20 * Suc i)" "s32 (int (20 * i)) = int (20 * i)"
proof -
  have b: "20 * i + 20 \<le> length (contents s p)" by (rule entry_bound [OF assms(2)])
  moreover have "length (contents s p) \<le> 2 ^ 31 - 512" using assms(1) by (auto simp: io_ok_def inode_ok_def)
  ultimately show "size_add (20 * i) sizeof_entry = 20 * Suc i" "s32 (int (20 * i) + int sizeof_entry) = int (20 * Suc i)"
    "s32 (int (20 * i)) = int (20 * i)"
    by (simp_all add: size_add_def sizeof_entry_def s32_id in_s32_def)
qed

lemma last_offset:
  assumes "io_ok s p" "i \<le> length (contents s p) div 20"
  shows "s32 (int (20 * i)) = int (20 * i)"
proof -
  have "20 * i \<le> length (contents s p)" using assms(2) div_times_less_eq_dividend [of "length (contents s p)" 20] by linarith
  moreover have "length (contents s p) \<le> 2 ^ 31 - 512" using assms(1) by (auto simp: io_ok_def inode_ok_def)
  ultimately show ?thesis by (simp add: s32_id in_s32_def)
qed

lemma same_io_io_ok: "same_io s s' \<Longrightarrow> io_ok s p \<Longrightarrow> io_ok s' p"
  by (rule same_fs_io_ok [OF same_io_fs])

lemma lookup_loop_eq:
  assumes "io_ok s p" "i \<le> length (contents s p) div 20"
  shows "\<exists>r s'. lookup_loop p nm (20 * i) s = Some (r, s') \<and> same_io s s' \<and>
    (case r of None \<Rightarrow> avail s = [] \<longrightarrow> (\<forall>j. i \<le> j \<and> j < length (contents s p) div 20 \<longrightarrow> \<not> matches nm (entries (contents s p) ! j))
     | Some (e, ofs) \<Rightarrow> \<exists>j < length (contents s p) div 20. ofs = 20 * j \<and> e = entries (contents s p) ! j \<and> matches nm e)"
  using assms
proof (induction "length (contents s p) div 20 - i" arbitrary: i s)
  case (0 i s)
  obtain bs s' where r: "inode_read_at p (int sizeof_entry) (int (20 * i)) s = Some (bs, s')" "same_io s s'"
    "length bs = 20 \<longrightarrow> i < length (contents s p) div 20" using read_entry [OF 0(2,3)] by blast
  have "length bs \<noteq> sizeof_entry" using r(3) 0(1,3) by (auto simp: sizeof_entry_def)
  then have "lookup_loop p nm (20 * i) s = Some (None, s')" using r(1) last_offset [OF 0(2,3)] by (subst lookup_loop.simps) simp
  then show ?case using r(2) 0(1) by auto
next
  case (Suc n i s)
  let ?es = "entries (contents s p)" and ?n = "length (contents s p) div 20"
  obtain bs s1 where r: "inode_read_at p (int sizeof_entry) (int (20 * i)) s = Some (bs, s1)" "same_io s s1"
    "length bs = 20 \<longrightarrow> dec_entry bs = ?es ! i" "avail s = [] \<longrightarrow> (length bs = 20 \<longleftrightarrow> i < ?n)" using read_entry [OF Suc(3,4)] by blast
  have i: "i < ?n" using Suc(2) by simp
  note N = next_offset [OF Suc(3) i]
  consider "length bs \<noteq> 20" | "length bs = 20" "matches nm (?es ! i)" | "length bs = 20" "\<not> matches nm (?es ! i)" by blast
  then show ?case
  proof cases
    case 1
    then have "lookup_loop p nm (20 * i) s = Some (None, s1)" using r(1) N(3) by (subst lookup_loop.simps) (simp add: sizeof_entry_def)
    then show ?thesis using 1 r(2,4) i by auto
  next
    case 2
    then have "lookup_loop p nm (20 * i) s = Some (Some (?es ! i, 20 * i), s1)"
      using r(1,3) N(3) by (subst lookup_loop.simps) (simp add: sizeof_entry_def matches_def)
    then show ?thesis using 2 r(2) i by auto
  next
    case 3
    then have step: "lookup_loop p nm (20 * i) s = lookup_loop p nm (20 * Suc i) s1"
      using r(1,3) N by (subst lookup_loop.simps) (auto simp: sizeof_entry_def matches_def)
    have c: "contents s1 p = contents s p" by (rule same_io_contents [OF r(2)])
    have *: "n = length (contents s1 p) div 20 - Suc i" "io_ok s1 p" "Suc i \<le> length (contents s1 p) div 20"
      using Suc(2,3) i r(2) unfolding c by (auto intro: same_io_io_ok)
    obtain q s' where q: "lookup_loop p nm (20 * Suc i) s1 = Some (q, s')" "same_io s1 s'"
      "case q of None \<Rightarrow> avail s1 = [] \<longrightarrow> (\<forall>j. Suc i \<le> j \<and> j < ?n \<longrightarrow> \<not> matches nm (?es ! j))
       | Some (e, ofs) \<Rightarrow> \<exists>j < ?n. ofs = 20 * j \<and> e = ?es ! j \<and> matches nm e"
      using Suc(1) [OF *] unfolding c by blast
    have "avail s = [] \<longrightarrow> avail s1 = []" using same_ioD(8) [OF r(2)] by blast
    moreover have "i \<le> j \<Longrightarrow> j = i \<or> Suc i \<le> j" for j by linarith
    ultimately show ?thesis unfolding step using q same_io_trans [OF r(2) q(2)] 3(2)
      by (intro exI [of _ q] exI [of _ s']) (auto split: option.splits)
  qed
qed

text \<open>The search returns the entry with the name, and on a memory that is not short none only when there is none.\<close>

lemma lookup_eq:
  assumes "io_ok s p" "dir_wf (entries (contents s p))"
  shows "\<exists>r s'. lookup p nm s = Some (r, s') \<and> same_io s s' \<and>
    (case r of None \<Rightarrow> avail s = [] \<longrightarrow> names (entries (contents s p)) nm = None
     | Some (e, ofs) \<Rightarrow> names (entries (contents s p)) nm = Some (unat (inode_sector e)) \<and>
        (\<exists>j < length (contents s p) div 20. ofs = 20 * j \<and> e = entries (contents s p) ! j \<and> matches nm e))"
proof -
  let ?es = "entries (contents s p)"
  obtain r s' where r: "lookup p nm s = Some (r, s')" "same_io s s'"
    "case r of None \<Rightarrow> avail s = [] \<longrightarrow> (\<forall>j. 0 \<le> j \<and> j < length (contents s p) div 20 \<longrightarrow> \<not> matches nm (?es ! j))
     | Some (e, ofs) \<Rightarrow> \<exists>j < length (contents s p) div 20. ofs = 20 * j \<and> e = ?es ! j \<and> matches nm e"
    using lookup_loop_eq [OF assms(1), of 0 nm] unfolding lookup_def mult_0_right by blast
  show ?thesis
  proof (cases r)
    case None
    then show ?thesis using r by (simp add: names_None)
  next
    case (Some x)
    then obtain e ofs j where x: "x = (e, ofs)" "j < length (contents s p) div 20" "ofs = 20 * j" "e = ?es ! j" "matches nm e"
      using r(3) by (cases x) auto
    have "names ?es nm = Some (unat (inode_sector e))" using names_Some [OF assms(2), of j nm] x by simp
    then show ?thesis using r(1,2) Some x by auto
  qed
qed

lemma free_slot_loop_eq:
  assumes "io_ok s p" "i \<le> length (contents s p) div 20" "length e = 20"
  shows "\<exists>e' j s'. free_slot_loop p e (int (20 * i)) s = Some (e', int (20 * j), s') \<and> same_io s s' \<and> length e' = 20 \<and>
    j \<le> length (contents s p) div 20 \<and>
    (avail s = [] \<longrightarrow> (if j < length (contents s p) div 20 then \<not> in_use (entries (contents s p) ! j)
      else \<forall>k. i \<le> k \<and> k < length (contents s p) div 20 \<longrightarrow> in_use (entries (contents s p) ! k)))"
  using assms
proof (induction "length (contents s p) div 20 - i" arbitrary: i e s)
  case (0 i s e)
  obtain bs s' where r: "inode_read_at p (int sizeof_entry) (int (20 * i)) s = Some (bs, s')" "same_io s s'" "length bs \<le> 20"
    "length bs = 20 \<longrightarrow> i < length (contents s p) div 20" using read_entry [OF 0(2,3)] by blast
  have "length bs \<noteq> sizeof_entry" using r(4) 0(1,3) by (auto simp: sizeof_entry_def)
  then have "free_slot_loop p e (int (20 * i)) s = Some (overwrite e 0 bs, int (20 * i), s')" using r(1) by (subst free_slot_loop.simps) simp
  then show ?case using r(2,3) 0 by (intro exI [of _ "overwrite e 0 bs"] exI [of _ i] exI [of _ s']) auto
next
  case (Suc n i s e)
  let ?es = "entries (contents s p)" and ?n = "length (contents s p) div 20"
  obtain bs s1 where r: "inode_read_at p (int sizeof_entry) (int (20 * i)) s = Some (bs, s1)" "same_io s s1" "length bs \<le> 20"
    "length bs = 20 \<longrightarrow> dec_entry bs = ?es ! i" "avail s = [] \<longrightarrow> (length bs = 20 \<longleftrightarrow> i < ?n)" using read_entry [OF Suc(3,4)] by blast
  have i: "i < ?n" using Suc(2) by simp
  note N = next_offset [OF Suc(3) i]
  let ?e = "overwrite e 0 bs"
  have le: "length ?e = 20" using r(3) Suc(5) by simp
  have e: "dec_entry ?e = ?es ! i" if "length bs = 20" using r(4) that Suc(5) by (simp add: overwrite_def)
  show ?case
  proof (cases "length bs = 20 \<and> in_use (?es ! i)")
    case False
    then have "free_slot_loop p e (int (20 * i)) s = Some (?e, int (20 * i), s1)"
      using r(1) e by (subst free_slot_loop.simps) (auto simp: sizeof_entry_def Let_def)
    then show ?thesis using r(2,5) le i False by (intro exI [of _ ?e] exI [of _ i] exI [of _ s1]) auto
  next
    case True
    then have step: "free_slot_loop p e (int (20 * i)) s = free_slot_loop p ?e (int (20 * Suc i)) s1"
      using r(1) e N(2) by (subst free_slot_loop.simps) (simp add: sizeof_entry_def)
    have c: "contents s1 p = contents s p" by (rule same_io_contents [OF r(2)])
    have *: "n = length (contents s1 p) div 20 - Suc i" "io_ok s1 p" "Suc i \<le> length (contents s1 p) div 20"
      using Suc(2,3) i r(2) unfolding c by (auto intro: same_io_io_ok)
    obtain e' j s' where q: "free_slot_loop p ?e (int (20 * Suc i)) s1 = Some (e', int (20 * j), s')" "same_io s1 s'" "length e' = 20" "j \<le> ?n"
      "avail s1 = [] \<longrightarrow> (if j < ?n then \<not> in_use (?es ! j) else \<forall>k. Suc i \<le> k \<and> k < ?n \<longrightarrow> in_use (?es ! k))"
      using Suc(1) [OF * le] unfolding c by blast
    have "avail s = [] \<longrightarrow> avail s1 = []" using same_ioD(8) [OF r(2)] by blast
    then have "avail s = [] \<longrightarrow> (if j < ?n then \<not> in_use (?es ! j) else \<forall>k. i \<le> k \<and> k < ?n \<longrightarrow> in_use (?es ! k))"
      using q(5) True by (auto simp: Suc_le_eq dest: le_imp_less_or_eq)
    then show ?thesis unfolding step using q(1-4) same_io_trans [OF r(2) q(2)] by (intro exI [of _ e'] exI [of _ j] exI [of _ s']) blast
  qed
qed

section \<open>Adding entries\<close>

lemma set_name:
  assumes "0 \<notin> set nm" "length nm \<le> 14" "length old = 15"
  shows "length (set_name old nm) = 15" "cstring (set_name old nm) = nm" "0 \<in> set (set_name old nm)"
proof -
  show "length (set_name old nm) = 15" using assms(2,3) by (simp add: set_name_def)
  have eq: "set_name old nm = nm @ 0 # drop (Suc (length nm)) old" using assms(2) by (simp add: set_name_def overwrite_def)
  then show "0 \<in> set (set_name old nm)" by simp
  have "\<forall>c\<in>set nm. c \<noteq> 0" using assms(1) by blast
  then show "cstring (set_name old nm) = nm" unfolding eq cstring_def by (simp add: takeWhile_tail)
qed

lemma same_io_frame:
  assumes "fs_inv F s" "same_io s s'"
  shows "fs_inv F s'" "same_fs s s'" "header s' g = header s g" "file_bytes s' g = file_bytes s g"
  using fs_inv_same_io [OF assms] same_io_fs [OF assms(2)] same_io_bytes [OF assms(2)] by simp_all

text \<open>What an operation on one file leaves: the other files, all headers, and the objects in memory.\<close>

definition only_file :: "nat set \<Rightarrow> nat \<Rightarrow> fs \<Rightarrow> fs \<Rightarrow> bool" where
  "only_file F f s s' \<longleftrightarrow> fs_inv F s' \<and> avail s' = [] \<and> same_fs s s' \<and> (\<forall>g\<in>F. header s' g = header s g) \<and>
     (\<forall>g\<in>F. g \<noteq> f \<longrightarrow> file_bytes s' g = file_bytes s g)"

lemma only_file_io:
  assumes "fs_inv F s" "avail s = []" "same_io s s'"
  shows "only_file F f s s'"
  using same_io_frame [OF assms(1,3)] same_ioD(8) [OF assms(3,2)] by (simp add: only_file_def)

lemma only_file_trans: "only_file F f s t \<Longrightarrow> only_file F f t u \<Longrightarrow> only_file F f s u"
  using same_fs_trans [of s t u] by (auto simp: only_file_def)

text \<open>Writing one entry of a directory.\<close>

lemma write_entry:
  assumes inv: "fs_inv F s" and mem: "avail s = []" and p: "p \<in> set (open_inodes s)" "can_write s p"
    and e: "length (e_name e) = 15" and j: "j \<le> length (file_bytes s (sector (inodes s p))) div 20"
  defines "f \<equiv> sector (inodes s p)"
  shows "\<exists>ok s'. inode_write_at p (enc_entry e) (int sizeof_entry) (int (20 * j)) s = Some (ok, s') \<and> only_file F f s s' \<and>
    (if j < length (file_bytes s f) div 20 then ok = int sizeof_entry \<and> entries (file_bytes s' f) = (entries (file_bytes s f))[j := e]
     else ok \<noteq> int sizeof_entry \<and> entries (file_bytes s' f) = entries (file_bytes s f))"
proof -
  let ?c = "file_bytes s f" and ?b = "enc_entry e"
  have io: "io_ok s p" "contents s p = ?c" using open_inode_ok [OF inv p(1)] by (simp_all add: f_def)
  have len: "length ?c \<le> 2 ^ 31 - 512" using io by (auto simp: io_ok_def inode_ok_def simp flip: io(2))
  have j': "j \<le> length ?c div 20" using j by (simp add: f_def)
  have k: "20 * j \<le> length ?c" "20 * j < 2 ^ 31"
    using j' len div_times_less_eq_dividend [of "length ?c" 20] by (linarith, simp)
  have b: "length ?b = 20" by (rule dec_enc_entry(2) [OF e])
  obtain n s' where w: "inode_write_at p ?b (int 20) (int (20 * j)) s = Some (int n, s')" "n = min 20 (length ?c - 20 * j)" "avail s' = []"
    "same_fs s s'" "fs_inv F s'" "\<forall>g\<in>F. header s' g = header s g" "file_bytes s' f = overwrite ?c (20 * j) (take n ?b)"
    "\<forall>g\<in>F. g \<noteq> f \<longrightarrow> file_bytes s' g = file_bytes s g"
    using inode_write_frame [OF inv p k(2), of 20 ?b] mem b unfolding f_def by auto
  have only: "only_file F f s s'" using w by (simp add: only_file_def)
  show ?thesis
  proof (cases "j < length ?c div 20")
    case True
    have "n = 20" using entry_bound [OF True] w(2) by simp
    then have "entries (file_bytes s' f) = (entries ?c)[j := e]" using w(7) entries_overwrite [OF True e] b by simp
    then show ?thesis using True only w(1) \<open>n = 20\<close> by (simp add: sizeof_entry_def)
  next
    case False
    then have jj: "j = length ?c div 20" using j' by simp
    have "length ?c < 20 * j + 20" unfolding jj by (metis add.commute dividend_less_times_div mult.commute zero_less_numeral)
    then have n: "n < 20" "n = length ?c - 20 * j" using w(2) by auto
    then have "length (take n ?b) = n" "20 * j + n \<le> length ?c" using b k(1) by simp_all
    then have "entries (file_bytes s' f) = entries ?c" using w(7) entries_short_tail [of "take n ?b" n ?c] unfolding jj by simp
    then show ?thesis using False only w(1) n(1) by (simp add: sizeof_entry_def)
  qed
qed

lemma dir_add_inv:
  assumes inv: "fs_inv F s" and mem: "avail s = []" and p: "dir_inode d \<in> set (open_inodes s)" "can_write s (dir_inode d)"
    and nm: "0 \<notin> set nm" and e0: "length e0 = 20" and sec: "sec < 2 ^ 32"
  defines "f \<equiv> sector (inodes s (dir_inode d))"
  assumes wf: "dir_wf (entries (file_bytes s f))"
  shows "\<exists>ok s'. dir_add e0 d nm sec s = Some (ok, s') \<and> only_file F f s s' \<and> dir_wf (entries (file_bytes s' f)) \<and>
    names (entries (file_bytes s' f)) = (if ok then (names (entries (file_bytes s f)))(nm \<mapsto> sec) else names (entries (file_bytes s f))) \<and>
    (ok \<longleftrightarrow> nm \<noteq> [] \<and> length nm \<le> NAME_MAX \<and> names (entries (file_bytes s f)) nm = None \<and> (\<exists>e\<in>set (entries (file_bytes s f)). \<not> in_use e))"
    (is "\<exists>ok s'. ?P ok s'")
proof (cases "nm = [] \<or> length nm > NAME_MAX")
  case True
  then have "dir_add e0 d nm sec s = Some (False, s)" by (simp add: dir_add_def)
  then show ?thesis using True wf only_file_io [OF inv mem same_io_refl] by (intro exI [of _ False] exI [of _ s]) auto
next
  case False
  let ?p = "dir_inode d" and ?es = "entries (file_bytes s f)"
  have io: "io_ok s ?p" "contents s ?p = file_bytes s f" using open_inode_ok [OF inv p(1)] by (simp_all add: f_def)
  obtain r s1 where r: "lookup ?p nm s = Some (r, s1)" "same_io s s1"
    "case r of None \<Rightarrow> names ?es nm = None | Some (e, ofs) \<Rightarrow> names ?es nm = Some (unat (inode_sector e))"
    using lookup_eq [OF io(1), of nm] wf mem unfolding io(2) by (auto split: option.splits)
  note o1 = only_file_io [OF inv mem r(2), of f] and S1 = same_ioD [OF r(2)] and B1 = same_io_bytes [OF r(2)]
  show ?thesis
  proof (cases r)
    case (Some x)
    then have "dir_add e0 d nm sec s = Some (False, s1)" using False r(1) by (simp add: dir_add_def)
    then show ?thesis using Some r(3) o1 wf B1 by (intro exI [of _ False] exI [of _ s1]) (auto split: prod.splits)
  next
    case None
    have fresh: "names ?es nm = None" using None r(3) by simp
    have c1: "contents s1 ?p = file_bytes s f" using same_io_contents [OF r(2)] io(2) by simp
    obtain e j s2 where q: "free_slot_loop ?p e0 (int (20 * 0)) s1 = Some (e, int (20 * j), s2)" "same_io s1 s2" "length e = 20"
      "j \<le> length (file_bytes s f) div 20"
      "if j < length (file_bytes s f) div 20 then \<not> in_use (?es ! j) else \<forall>k. k < length (file_bytes s f) div 20 \<longrightarrow> in_use (?es ! k)"
      using free_slot_loop_eq [OF same_io_io_ok [OF r(2) io(1)] _ e0, of 0] S1(8) [OF mem] unfolding c1
      by (metis (no_types, lifting) le0)
    have io2: "same_io s s2" by (rule same_io_trans [OF r(2) q(2)])
    note o2 = only_file_io [OF inv mem io2, of f] and S2 = same_ioD [OF io2] and B2 = same_io_bytes [OF io2]
    let ?e = "(dec_entry e)\<lparr>in_use := True, e_name := set_name (e_name (dec_entry e)) nm, inode_sector := of_nat sec\<rparr>"
    have old: "length (e_name (dec_entry e)) = 15" using q(3) by (simp add: dec_entry_def)
    have l14: "length nm \<le> 14" using False by (simp add: NAME_MAX_def)
    note N = set_name [OF nm l14 old]
    have p2: "?p \<in> set (open_inodes s2)" "can_write s2 ?p" using p S2 by (simp_all add: can_write_def)
    have inv2: "fs_inv F s2" "avail s2 = []" using o2 by (simp_all add: only_file_def)
    have f2: "sector (inodes s2 ?p) = f" using S2 by (simp add: f_def)
    obtain n s' where w: "inode_write_at ?p (enc_entry ?e) (int sizeof_entry) (int (20 * j)) s2 = Some (n, s')" "only_file F f s2 s'"
      "if j < length (file_bytes s f) div 20 then n = int sizeof_entry \<and> entries (file_bytes s' f) = ?es[j := ?e]
       else n \<noteq> int sizeof_entry \<and> entries (file_bytes s' f) = ?es"
      using write_entry [OF inv2 p2, of ?e j] N(1) q(4) unfolding f2 B2 by auto
    have run: "dir_add e0 d nm sec s = Some (n = int sizeof_entry, s')" using False r(1) None q(1) w(1) by (simp add: dir_add_def)
    have only: "only_file F f s s'" by (rule only_file_trans [OF o2 w(2)])
    show ?thesis
    proof (cases "j < length (file_bytes s f) div 20")
      case True
      have "unat (inode_sector ?e) = sec" using sec by (simp add: unat_of_nat)
      then have "names (?es[j := ?e]) = (names ?es)(nm \<mapsto> sec)" "dir_wf (?es[j := ?e])"
        using names_fill [OF wf, of j ?e] True q(5) N fresh by simp_all
      moreover have "\<exists>e\<in>set ?es. \<not> in_use e" using True q(5) by (intro bexI [of _ "?es ! j"]) simp_all
      ultimately show ?thesis using run only w(3) True False fresh by (intro exI [of _ True] exI [of _ s']) simp
    next
      case jj: False
      then have "\<forall>e\<in>set ?es. in_use e" using q(5) by (simp add: all_set_conv_all_nth)
      then show ?thesis using run only w(3) jj wf by (intro exI [of _ False] exI [of _ s']) auto
    qed
  qed
qed

section \<open>The root directory\<close>

definition root_ents :: "fs \<Rightarrow> dir_entry list" where
  "root_ents s = entries (file_bytes s ROOT_DIR_SECTOR)"

abbreviation root_names :: "fs \<Rightarrow> u8 list \<Rightarrow> nat option" where
  "root_names s \<equiv> names (root_ents s)"

text \<open>Names stand for different files, none of them a special one, and the root directory can be written when it is open.\<close>

definition root_ok :: "nat set \<Rightarrow> fs \<Rightarrow> bool" where
  "root_ok F s \<longleftrightarrow> ROOT_DIR_SECTOR \<in> F \<and> dir_wf (root_ents s) \<and> ran (root_names s) \<subseteq> F - {FREE_MAP_SECTOR, ROOT_DIR_SECTOR} \<and>
     inj_on (root_names s) (dom (root_names s)) \<and>
     (\<forall>p\<in>set (open_inodes s). sector (inodes s p) = ROOT_DIR_SECTOR \<longrightarrow> can_write s p \<and> \<not> removed (inodes s p))"

definition fs_ok :: "nat set \<Rightarrow> fs \<Rightarrow> bool" where
  "fs_ok F s \<longleftrightarrow> fs_inv F s \<and> root_ok F s"

lemma same_io_store: "same_io s s' \<Longrightarrow> same_store s s'"
  by (simp add: same_io_def same_store_def)

lemma store_root_ents: "same_store s s' \<Longrightarrow> root_ents s' = root_ents s"
  by (simp add: root_ents_def same_store_bytes)

lemma root_ok_open_inodes:
  assumes "root_ok F s" "root_ents s' = root_ents s"
    "\<And>p. p \<in> set (open_inodes s') \<Longrightarrow> sector (inodes s' p) = ROOT_DIR_SECTOR \<Longrightarrow> can_write s' p \<and> \<not> removed (inodes s' p)"
  shows "root_ok F s'"
  using assms by (simp add: root_ok_def)

lemma root_ok_same_open: "root_ok F s \<Longrightarrow> root_ents s' = root_ents s \<Longrightarrow> same_open s s' \<Longrightarrow> root_ok F s'"
  by (rule root_ok_open_inodes, assumption+) (auto simp: same_open_def root_ok_def can_write_def)

lemma root_ok_opened:
  assumes "root_ok F s" "root_ents s' = root_ents s" "opened p s s'"
  shows "root_ok F s'"
proof (rule root_ok_open_inodes [OF assms(1,2)])
  fix q assume q: "q \<in> set (open_inodes s')" "sector (inodes s' q) = ROOT_DIR_SECTOR"
  show "can_write s' q \<and> \<not> removed (inodes s' q)"
  proof (cases "q \<in> set (open_inodes s)")
    case True
    then show ?thesis using assms(1,3) q by (auto simp: root_ok_def opened_def can_write_def split: if_splits)
  next
    case False
    then show ?thesis using assms(3) q(1) by (auto simp: opened_def can_write_def)
  qed
qed

lemma dir_open_root_inv:
  assumes ok: "fs_ok F s" and mem: "avail s = []"
  shows "\<exists>d s'. dir_open_root s = Some (Some d, s') \<and> fs_inv F s' \<and> avail s' = [] \<and> same_store s s' \<and> opened (dir_inode d) s s' \<and>
    dir_inode d \<in> set (open_inodes s') \<and> sector (inodes s' (dir_inode d)) = ROOT_DIR_SECTOR \<and> can_write s' (dir_inode d) \<and>
    \<not> removed (inodes s' (dir_inode d))"
proof -
  have inv: "fs_inv F s" and root: "root_ok F s" using ok by (simp_all add: fs_ok_def)
  obtain p s1 where p: "inode_open ROOT_DIR_SECTOR s = Some (p, s1)" "p \<noteq> NULL" "sector (inodes s1 p) = ROOT_DIR_SECTOR" "fs_inv F s1"
    "avail s1 = []" "same_store s s1" "opened p s s1"
    using inode_open_inv [OF inv mem, of ROOT_DIR_SECTOR] root by (auto simp: root_ok_def)
  obtain a s' where a: "fs_malloc s1 = (a, s')" "a \<noteq> NULL" "same_io s1 s'" "avail s' = []"
    using fs_malloc_mem [OF p(5) fs_invD(3) [OF p(4)]] by blast
  note A = same_ioD [OF a(3)]
  let ?d = "\<lparr>dir_inode = p, dir_pos = 0\<rparr>"
  have run: "dir_open_root s = Some (Some ?d, s')" using p(1,2) a(1,2) by (simp add: dir_open_root_def dir_open_def)
  have st: "same_store s s'" by (rule same_store_trans [OF p(6) same_io_store [OF a(3)]])
  have op: "opened p s s'" using p(7) A by (simp add: opened_def)
  then have mem': "p \<in> set (open_inodes s')" by (simp add: opened_def)
  have sec: "sector (inodes s' p) = ROOT_DIR_SECTOR" using p(3) A by simp
  have "root_ok F s'" by (rule root_ok_opened [OF root store_root_ents [OF st] op])
  then have "can_write s' p \<and> \<not> removed (inodes s' p)" using mem' sec by (simp add: root_ok_def)
  then show ?thesis using run fs_inv_same_io [OF p(4) a(3)] a(4) st op mem' sec by (intro exI [of _ ?d] exI [of _ s']) simp
qed

lemma dir_close_inv:
  assumes "fs_inv F s" "dir_inode d \<in> set (open_inodes s)" "sector (inodes s (dir_inode d)) = ROOT_DIR_SECTOR" "\<not> removed (inodes s (dir_inode d))"
  shows "\<exists>s'. dir_close (Some d) s = Some s' \<and> fs_inv F s' \<and> avail s' = avail s \<and> same_store s s' \<and> closed (dir_inode d) s s'"
  using inode_close_inv [OF assms(1,2)] assms(3,4) by (simp add: dir_close_def FREE_MAP_SECTOR_def ROOT_DIR_SECTOR_def)

section \<open>Creating named files\<close>

lemma fs_inv_shrink:
  assumes "fs_inv G s" "F \<subseteq> G" "FREE_MAP_SECTOR \<in> F" "\<And>p. p \<in> set (open_inodes s) \<Longrightarrow> sector (inodes s p) \<in> F"
  shows "fs_inv F s"
proof -
  note I = fs_invD [OF assms(1)]
  have "files_ok F s" using I(8) assms(2) unfolding files_ok_def by (meson subsetD)
  moreover have "marked F s" using coreD(11) [OF assms(1)] assms(2) unfolding marked_def by blast
  moreover have "inodes_ok F s" using I(9) assms(4) unfolding inodes_ok_def by blast
  ultimately show ?thesis using I assms(3) by (simp add: core_inv_def)
qed

lemma same_fs_objects: "same_fs s s' \<Longrightarrow> same_objects s s'"
  by (simp add: same_fs_def same_objects_def)

lemma same_objects_trans: "same_objects s t \<Longrightarrow> same_objects t u \<Longrightarrow> same_objects s u"
  by (auto simp: same_objects_def)

text \<open>The files of \<open>F\<close> keep their headers, and all but those in \<open>C\<close> their contents.\<close>

definition keeps :: "nat set \<Rightarrow> nat set \<Rightarrow> fs \<Rightarrow> fs \<Rightarrow> bool" where
  "keeps F C s s' \<longleftrightarrow> (\<forall>g\<in>F. header s' g = header s g \<and> (g \<notin> C \<longrightarrow> file_bytes s' g = file_bytes s g))"

lemma keepsI: "(\<forall>g\<in>F. header s' g = header s g) \<Longrightarrow> (\<forall>g\<in>F. g \<noteq> c \<longrightarrow> file_bytes s' g = file_bytes s g) \<Longrightarrow> keeps F {c} s s'"
  by (simp add: keeps_def)

lemma keeps_files_trans: "keeps F C s t \<Longrightarrow> keeps F D t u \<Longrightarrow> keeps F (C \<union> D) s u"
  by (simp add: keeps_def)

lemma keeps_store: "same_store s s' \<Longrightarrow> keeps F {} s s'"
  by (simp add: keeps_def same_store_bytes)

lemma keeps_root_ents: "keeps F C s s' \<Longrightarrow> ROOT_DIR_SECTOR \<in> F \<Longrightarrow> ROOT_DIR_SECTOR \<notin> C \<Longrightarrow> root_ents s' = root_ents s"
  by (simp add: keeps_def root_ents_def)

lemma keeps_mono: "keeps G C s s' \<Longrightarrow> F \<subseteq> G \<Longrightarrow> C \<subseteq> D \<Longrightarrow> keeps F D s s'"
  unfolding keeps_def by blast

lemma specials_differ [simp]: "ROOT_DIR_SECTOR \<noteq> FREE_MAP_SECTOR" "FREE_MAP_SECTOR \<noteq> ROOT_DIR_SECTOR"
  by (simp_all add: FREE_MAP_SECTOR_def ROOT_DIR_SECTOR_def)

text \<open>Giving back a sector that was allocated and belongs to no file.\<close>

lemma release_one:
  assumes "fs_inv F s" "avail s = []" "sec < length (disk s)" "bm_bits (free_map s) ! sec" "\<And>f. f \<in> F \<Longrightarrow> sec \<notin> extent s f"
  shows "\<exists>s'. free_map_release sec 1 s = Some s' \<and> fs_inv F s' \<and> avail s' = [] \<and> same_objects s s' \<and> keeps F {FREE_MAP_SECTOR} s s' \<and> map_saved s'"
proof -
  have "x = sec" if "sec \<le> x" "x < sec + 1" for x using that by linarith
  moreover have "{sec ..< sec + 1} = {sec}" by auto
  ultimately show ?thesis
    using free_map_release_inv [OF assms(1,2), of sec 1] assms(3-5) keepsI [of F _ s FREE_MAP_SECTOR] by (fastforce simp del: bm_bits_nth)
qed

text \<open>Everything \<^verbatim>\<open>filesys_create\<close> does while the root directory is open, up to giving back the sector after a failure.\<close>

definition create_in_root :: "u8 list \<Rightarrow> dir \<Rightarrow> u8 list \<Rightarrow> int \<Rightarrow> fs \<Rightarrow> (bool \<times> fs) option" where
  "create_in_root e0 d nm l s = do {
     (inode_sec, success, s) \<leftarrow> do {
        (sec, s) \<leftarrow> free_map_allocate 1 s;
        case sec of None \<Rightarrow> Some (0, False, s)
        | Some sec \<Rightarrow> do {
            (ok, s) \<leftarrow> inode_create sec l s;
            if ok then do { (ok, s) \<leftarrow> dir_add e0 d nm sec s; Some (sec, ok, s) }
            else Some (sec, False, s) } };
     s \<leftarrow> (if \<not> success \<and> inode_sec \<noteq> 0 then free_map_release inode_sec 1 s else Some s);
     Some (success, s) }"

lemma filesys_create_eq:
  assumes "dir_open_root s = Some (Some d, s1)"
  shows "filesys_create e0 nm l s = do {
     (success, s) \<leftarrow> create_in_root e0 d nm l s1;
     s \<leftarrow> dir_close (Some d) s;
     Some (success, s) }"
  using assms by (simp add: filesys_create_def create_in_root_def split: bind_splits option.splits prod.splits)

text \<open>The outcomes: a new file of zeros under the name, or a file system in which only the free map may have changed.\<close>

definition create_result :: "nat set \<Rightarrow> u8 list \<Rightarrow> int \<Rightarrow> fs \<Rightarrow> bool \<Rightarrow> fs \<Rightarrow> bool" where
  "create_result F nm l s ok s' \<longleftrightarrow> avail s' = [] \<and> fs_inv F s' \<and> keeps F {FREE_MAP_SECTOR, ROOT_DIR_SECTOR} s s' \<and> dir_wf (root_ents s') \<and>
     (if ok then nm \<noteq> [] \<and> length nm \<le> NAME_MAX \<and> root_names s nm = None \<and> map_saved s' \<and>
        (\<exists>sec. sec \<notin> F \<and> fs_inv (insert sec F) s' \<and> root_names s' = (root_names s)(nm \<mapsto> sec) \<and> file_bytes s' sec = replicate (nat l) 0)
      else root_names s' = root_names s \<and>
        (nm = [] \<or> length nm > NAME_MAX \<or> root_names s nm \<noteq> None \<or> (\<forall>e\<in>set (root_ents s). in_use e) \<or>
         (\<forall>i. \<not> group_at (bm_bits (free_map s)) 1 False i) \<or>
         (\<exists>sec<length (disk s). \<forall>i. \<not> group_at (set_range (bm_bits (free_map s)) sec 1 True) (bytes_to_sectors l) False i)))"

lemma give_back:
  assumes "fs_inv F t" "avail t = []" "sec < length (disk t)" "bm_bits (free_map t) ! sec" "\<And>f. f \<in> F \<Longrightarrow> sec \<notin> extent t f"
    and k: "keeps F C s t" and root: "ROOT_DIR_SECTOR \<in> F"
  shows "\<exists>s'. free_map_release sec 1 t = Some s' \<and> fs_inv F s' \<and> avail s' = [] \<and> same_objects t s' \<and>
    keeps F (insert FREE_MAP_SECTOR C) s s' \<and> root_ents s' = root_ents t"
proof -
  obtain s' where s': "free_map_release sec 1 t = Some s'" "fs_inv F s'" "avail s' = []" "same_objects t s'" "keeps F {FREE_MAP_SECTOR} t s'"
    using release_one [OF assms(1-5)] by blast
  have "root_ents s' = root_ents t" by (rule keeps_root_ents [OF s'(5) root]) simp
  then show ?thesis using s' keeps_files_trans [OF k s'(5)] by auto
qed

lemma create_in_root_inv:
  assumes inv: "fs_inv F s" and mem: "avail s = []" and p: "dir_inode d \<in> set (open_inodes s)" "can_write s (dir_inode d)"
    "sector (inodes s (dir_inode d)) = ROOT_DIR_SECTOR" and wf: "dir_wf (root_ents s)"
    and nm: "0 \<notin> set nm" and e0: "length e0 = 20" and l: "0 \<le> l" "l \<le> 2 ^ 31 - 512"
  shows "\<exists>ok s'. create_in_root e0 d nm l s = Some (ok, s') \<and> same_objects s s' \<and> create_result F nm l s ok s'"
proof -
  note I = fs_invD [OF inv]
  have root: "ROOT_DIR_SECTOR \<in> F" using inodes_okD(3) [OF I(9) p(1)] p(3) by simp
  obtain r s1 where r: "free_map_allocate 1 s = Some (r, s1)" and inv1: "fs_inv F s1" and mem1: "avail s1 = []"
    and k1: "keeps F {FREE_MAP_SECTOR} s s1" and o1: "same_objects s s1"
    and c: "case r of None \<Rightarrow> s1 = s \<and> (\<forall>i. \<not> group_at (bm_bits (free_map s)) 1 False i)
     | Some st \<Rightarrow> st + 1 \<le> length (disk s) \<and> st < 2 ^ 32 \<and> (\<forall>x. st \<le> x \<and> x < st + 1 \<longrightarrow> \<not> bm_bits (free_map s) ! x) \<and>
         bm_bits (free_map s1) = set_range (bm_bits (free_map s)) st 1 True"
    using free_map_allocate_inv [OF inv mem, of 1] unfolding same_objects_def keeps_def by (fastforce split: option.splits)
  show ?thesis
  proof (cases r)
    case None
    then have "create_in_root e0 d nm l s = Some (False, s)" using r c by (simp add: create_in_root_def)
    then show ?thesis using None c inv mem wf
      by (intro exI [of _ False] exI [of _ s]) (simp add: create_result_def keeps_def same_objects_def)
  next
    case (Some sec)
    have C: "sec < length (disk s)" "sec < 2 ^ 32" "\<not> bm_bits (free_map s) ! sec"
      "bm_bits (free_map s1) = set_range (bm_bits (free_map s)) sec 1 True" using c Some by (auto simp del: bm_bits_nth)
    have new: "sec \<notin> extent t f" if "f \<in> F" "header t f = header s f" for t f
      using markedD [OF inv that(1), of sec] C(3) that(2) by auto
    then have secF: "sec \<notin> F" by blast
    have sec0: "sec \<noteq> 0" using secF I(6) by (metis FREE_MAP_SECTOR_def)
    have h1: "header s1 f = header s f" if "f \<in> F" for f using k1 that by (simp add: keeps_def)
    have "bm_bits (free_map s1) ! sec" using C(1,4) nth_set_range [of sec 1 "bm_bits (free_map s)" sec True] I(5) by (simp del: bm_bits_nth)
    moreover have "sec < length (disk s1)" using C(1) o1 by (simp add: same_objects_def)
    ultimately obtain ok s2 where s2: "inode_create sec l s1 = Some (ok, s2)" "avail s2 = []" "same_objects s1 s2" "keeps F {FREE_MAP_SECTOR} s1 s2"
      "fs_inv F s2" "bm_bits (free_map s2) ! sec"
      "if ok then fs_inv (insert sec F) s2 \<and> map_saved s2 \<and> file_bytes s2 sec = replicate (nat l) 0
       else \<forall>i. \<not> group_at (bm_bits (free_map s1)) (bytes_to_sectors l) False i"
      using inode_create_inv [OF inv1 mem1, of sec l] new h1 l keepsI [of F _ s1 FREE_MAP_SECTOR] by (smt (verit, best))
    have o2: "same_objects s s2" by (rule same_objects_trans [OF o1 s2(3)])
    have k2: "keeps F {FREE_MAP_SECTOR} s s2" using keeps_files_trans [OF k1 s2(4)] by simp
    have len2: "sec < length (disk s2)" using C(1) o2 by (simp add: same_objects_def)
    have root2: "root_ents s2 = root_ents s" by (rule keeps_root_ents [OF k2 root]) simp
    show ?thesis
    proof (cases ok)
      case False
      have "sec \<notin> extent s2 f" if "f \<in> F" for f using new that k2 by (simp add: keeps_def)
      then obtain s' where s': "free_map_release sec 1 s2 = Some s'" "fs_inv F s'" "avail s' = []" "same_objects s2 s'" "keeps F {FREE_MAP_SECTOR} s s'"
        "root_ents s' = root_ents s" using give_back [OF s2(5,2) len2 s2(6) _ k2 root] root2 by auto
      have run: "create_in_root e0 d nm l s = Some (False, s')" using r Some s2(1) False s'(1) sec0 by (simp add: create_in_root_def)
      show ?thesis using run same_objects_trans [OF o2 s'(4)] s'(2,3,6) keeps_mono [OF s'(5) subset_refl] wf s2(7) False C(1,4)
        by (intro exI [of _ False] exI [of _ s']) (auto simp: create_result_def)
    next
      case True
      let ?G = "insert sec F"
      have invG: "fs_inv ?G s2" and z: "file_bytes s2 sec = replicate (nat l) 0" "map_saved s2" using s2(7) True by simp_all
      have P: "dir_inode d \<in> set (open_inodes s2)" "can_write s2 (dir_inode d)" "sector (inodes s2 (dir_inode d)) = ROOT_DIR_SECTOR"
        using p o2 by (simp_all add: same_objects_def can_write_def)
      obtain added s3 where s3: "dir_add e0 d nm sec s2 = Some (added, s3)" "only_file ?G ROOT_DIR_SECTOR s2 s3" "dir_wf (root_ents s3)"
        "root_names s3 = (if added then (root_names s)(nm \<mapsto> sec) else root_names s)"
        "added \<longleftrightarrow> nm \<noteq> [] \<and> length nm \<le> NAME_MAX \<and> root_names s nm = None \<and> (\<exists>e\<in>set (root_ents s). \<not> in_use e)"
        using dir_add_inv [OF invG s2(2) P(1,2) nm e0 C(2)] wf unfolding P(3) root_ents_def [symmetric] root2 by blast
      have S3: "same_fs s2 s3" "fs_inv ?G s3" "avail s3 = []" using s3(2) by (simp_all add: only_file_def)
      have k3: "keeps ?G {ROOT_DIR_SECTOR} s2 s3" using s3(2) by (intro keepsI) (simp_all add: only_file_def)
      have o3: "same_objects s s3" by (rule same_objects_trans [OF o2 same_fs_objects [OF S3(1)]])
      have k: "keeps F {FREE_MAP_SECTOR, ROOT_DIR_SECTOR} s s3" using keeps_files_trans [OF k2 keeps_mono [OF k3, of F]] by (simp add: insert_commute subset_insertI)
      have inv3: "fs_inv F s3"
        by (rule fs_inv_shrink [OF S3(2)]) (use I(6) inodes_okD(3) [OF I(9)] o3 in \<open>auto simp: same_objects_def\<close>)
      show ?thesis
      proof (cases "added")
        case True
        have "sec \<noteq> ROOT_DIR_SECTOR" using secF root by blast
        then have "file_bytes s3 sec = replicate (nat l) 0" using k3 z(1) by (simp add: keeps_def)
        moreover have "map_saved s3" using z(2) k3 I(6) same_fsD(1,5) [OF S3(1)] by (simp add: map_saved_def keeps_def)
        moreover have "create_in_root e0 d nm l s = Some (True, s3)" using r Some s2(1) \<open>ok\<close> s3(1) True by (simp add: create_in_root_def)
        ultimately show ?thesis using o3 S3 inv3 k s3(3-5) True secF
          by (intro exI [of _ True] exI [of _ s3]) (auto simp: create_result_def)
      next
        case False
        have "bm_bits (free_map s3) ! sec" "sec < length (disk s3)" using s2(6) len2 same_fsD(1,5) [OF S3(1)] by (simp_all del: bm_bits_nth)
        moreover have "sec \<notin> extent s3 f" if "f \<in> F" for f using new that k by (simp add: keeps_def)
        ultimately obtain s' where s': "free_map_release sec 1 s3 = Some s'" "fs_inv F s'" "avail s' = []" "same_objects s3 s'"
          "keeps F {FREE_MAP_SECTOR, ROOT_DIR_SECTOR} s s'" "root_ents s' = root_ents s3" using give_back [OF inv3 S3(3) _ _ _ k root] by auto
        have run: "create_in_root e0 d nm l s = Some (False, s')" using r Some s2(1) \<open>ok\<close> s3(1) False s'(1) sec0 by (simp add: create_in_root_def)
        show ?thesis using run same_objects_trans [OF o3 s'(4)] s'(2,3,5,6) s3(3-5) False
          by (intro exI [of _ False] exI [of _ s']) (auto simp: create_result_def)
      qed
    qed
  qed
qed

lemma root_ok_create:
  assumes root: "root_ok F s" and so: "same_open s s'" and wf: "dir_wf (root_ents s')"
    and new: "root_names s nm = None" "sec \<notin> F" "FREE_MAP_SECTOR \<in> F" "root_names s' = (root_names s)(nm \<mapsto> sec)"
  shows "root_ok (insert sec F) s'"
proof -
  have R: "ROOT_DIR_SECTOR \<in> F" "ran (root_names s) \<subseteq> F - {FREE_MAP_SECTOR, ROOT_DIR_SECTOR}" "inj_on (root_names s) (dom (root_names s))"
    using root by (simp_all add: root_ok_def)
  have "ran (root_names s') \<subseteq> insert sec F - {FREE_MAP_SECTOR, ROOT_DIR_SECTOR}" using R(1,2) new by auto
  moreover have "root_names s x \<noteq> Some sec" for x using R(2) new(2) ranI [of "root_names s" x sec] by auto
  then have "inj_on (root_names s') (dom (root_names s'))" using R(3) new(1) unfolding new(4) by (auto simp: inj_on_def)
  moreover have "can_write s' p \<and> \<not> removed (inodes s' p)" if "p \<in> set (open_inodes s')" "sector (inodes s' p) = ROOT_DIR_SECTOR" for p
    using that so root by (auto simp: root_ok_def same_open_def can_write_def)
  ultimately show ?thesis using R(1) wf by (simp add: root_ok_def)
qed

lemma filesys_create_inv:
  assumes ok: "fs_ok F s" and mem: "avail s = []" and nm: "0 \<notin> set nm" and e0: "length e0 = 20" and l: "0 \<le> l" "l \<le> 2 ^ 31 - 512"
  shows "\<exists>r s'. filesys_create e0 nm l s = Some (r, s') \<and> avail s' = [] \<and> same_open s s' \<and> files s' = files s \<and>
    keeps F {FREE_MAP_SECTOR, ROOT_DIR_SECTOR} s s' \<and>
    (if r then nm \<noteq> [] \<and> length nm \<le> NAME_MAX \<and> root_names s nm = None \<and> map_saved s' \<and>
        (\<exists>sec. sec \<notin> F \<and> fs_ok (insert sec F) s' \<and> root_names s' = (root_names s)(nm \<mapsto> sec) \<and> file_bytes s' sec = replicate (nat l) 0)
     else fs_ok F s' \<and> root_names s' = root_names s \<and>
        (nm = [] \<or> length nm > NAME_MAX \<or> root_names s nm \<noteq> None \<or> (\<forall>e\<in>set (root_ents s). in_use e) \<or>
         (\<forall>i. \<not> group_at (bm_bits (free_map s)) 1 False i) \<or>
         (\<exists>sec<length (disk s). \<forall>i. \<not> group_at (set_range (bm_bits (free_map s)) sec 1 True) (bytes_to_sectors l) False i)))"
proof -
  have inv: "fs_inv F s" and root: "root_ok F s" using ok by (simp_all add: fs_ok_def)
  obtain d s1 where d: "dir_open_root s = Some (Some d, s1)" "fs_inv F s1" "avail s1 = []" "same_store s s1" "opened (dir_inode d) s s1"
    and p: "dir_inode d \<in> set (open_inodes s1)" "sector (inodes s1 (dir_inode d)) = ROOT_DIR_SECTOR" "can_write s1 (dir_inode d)"
      "\<not> removed (inodes s1 (dir_inode d))"
    using dir_open_root_inv [OF ok mem] by auto
  note B1 = store_root_ents [OF d(4)] and st1 = d(4) [unfolded same_store_def]
  have wf1: "dir_wf (root_ents s1)" using root B1 by (simp add: root_ok_def)
  obtain r s2 where r: "create_in_root e0 d nm l s1 = Some (r, s2)" "same_objects s1 s2" "create_result F nm l s1 r s2"
    using create_in_root_inv [OF d(2,3) p(1,3,2) wf1 nm e0 l] by blast
  have inv2: "fs_inv F s2" and k2: "keeps F {FREE_MAP_SECTOR, ROOT_DIR_SECTOR} s1 s2" and wf2: "dir_wf (root_ents s2)" and mem2: "avail s2 = []"
    using r(3) by (simp_all add: create_result_def)
  have P2: "inodes s2 = inodes s1" "open_inodes s2 = open_inodes s1" "files s2 = files s1" using r(2) by (simp_all add: same_objects_def)
  obtain s' where c: "dir_close (Some d) s2 = Some s'" "fs_inv F s'" "avail s' = avail s2" "same_store s2 s'" "closed (dir_inode d) s2 s'"
    using dir_close_inv [OF inv2, of d] p P2 by auto
  have run: "filesys_create e0 nm l s = Some (r, s')" using filesys_create_eq [OF d(1)] r(1) c(1) by simp
  have so: "same_open s s'" by (rule opened_closed [OF fs_invD(9) [OF inv] d(5) P2(1,2) c(5)])
  have k: "keeps F {FREE_MAP_SECTOR, ROOT_DIR_SECTOR} s s'"
    using keeps_files_trans [OF keeps_files_trans [OF keeps_store [OF d(4)] k2] keeps_store [OF c(4)]] by simp
  have fil: "files s' = files s" "free_map s1 = free_map s" "disk s1 = disk s" using st1 c(4) P2(3) by (simp_all add: same_store_def)
  note B' = store_root_ents [OF c(4)] and H' = same_store_bytes [OF c(4)]
  show ?thesis
  proof (cases r)
    case True
    then obtain sec where sec: "nm \<noteq> []" "length nm \<le> NAME_MAX" "root_names s nm = None" "map_saved s2" "sec \<notin> F" "fs_inv (insert sec F) s2"
      "root_names s2 = (root_names s)(nm \<mapsto> sec)" "file_bytes s2 sec = replicate (nat l) 0"
      using r(3) B1 by (auto simp: create_result_def)
    have "\<exists>s'. dir_close (Some d) s2 = Some s' \<and> fs_inv (insert sec F) s'" using dir_close_inv [OF sec(6), of d] p P2 by auto
    then have "fs_inv (insert sec F) s'" using c(1) by simp
    moreover have "root_ok (insert sec F) s'"
      by (rule root_ok_create [OF root so _ sec(3,5) fs_invD(6) [OF inv]]) (use wf2 sec(7) B' in simp_all)
    ultimately show ?thesis using run c(3) mem2 so k fil sec True B' H'
      by (intro exI [of _ True] exI [of _ s']) (auto simp: fs_ok_def)
  next
    case False
    have "root_names s' = root_names s" using r(3) False B1 B' by (simp add: create_result_def)
    moreover have "root_ok F s'"
    proof -
      have "can_write s' p \<and> \<not> removed (inodes s' p)" if "p \<in> set (open_inodes s')" "sector (inodes s' p) = ROOT_DIR_SECTOR" for p
        using that so root by (auto simp: root_ok_def same_open_def can_write_def)
      then show ?thesis using root wf2 B' calculation by (simp add: root_ok_def)
    qed
    ultimately show ?thesis using run c(2,3) mem2 so k fil False r(3) B1
      by (intro exI [of _ False] exI [of _ s']) (auto simp: fs_ok_def create_result_def)
  qed
qed

section \<open>Opening named files\<close>

lemma fs_inv_new_file:
  assumes "core_inv M F s" "a \<ge> next_addr s" "same_io s s1"
  shows "core_inv M F (upd_file a g s1)" "same_open s (upd_file a g s1)" "header (upd_file a g s1) = header s"
    "file_bytes (upd_file a g s1) = file_bytes s"
proof -
  let ?s = "upd_file a g s1"
  note S = same_ioD [OF assms(3)]
  show h: "header ?s = header s" "file_bytes ?s = file_bytes s"
    using S(1) by (simp_all add: header_def file_bytes_def dbyte_def upd_file_def fun_eq_iff)
  show "same_open s ?s" using S by (simp add: same_open_def upd_file_def)
  note I = coreD [OF assms(1)]
  have "files_ok F ?s" using I(8) S unfolding files_ok_def h by (simp add: header_ok_def upd_file_def)
  moreover have "marked F ?s" if M using I(11) [OF that] S(4) unfolding marked_def h by (simp add: upd_file_def del: bm_bits_nth)
  moreover have "inodes_ok F ?s" using I(9) S(2,6,7) unfolding inodes_ok_def h by (auto simp: upd_file_def)
  moreover have "map_file_ok ?s" if M using I(7) [OF that] S assms(2) unfolding map_file_ok_def h by (auto simp: upd_file_def)
  ultimately show "core_inv M F ?s" using I S by (simp add: core_inv_def disk_wf_def upd_file_def)
qed

lemma file_open_inv:
  assumes inv: "core_inv M F s" and mem: "avail s = []" and p: "p \<noteq> NULL"
  shows "\<exists>f s'. file_open p s = Some (f, s') \<and> f \<noteq> NULL \<and> f \<ge> next_addr s \<and> f < next_addr s' \<and> core_inv M F s' \<and> avail s' = [] \<and> disk s' = disk s \<and>
    inodes s' = inodes s \<and> open_inodes s' = open_inodes s \<and> free_map s' = free_map s \<and>
    files s' = (files s)(f := \<lparr>file_inode = p, pos = 0, deny_write = False\<rparr>)"
proof -
  obtain s1 where a: "fs_malloc s = (next_addr s, s1)" "next_addr s \<noteq> NULL" "same_io s s1" "avail s1 = []" "next_addr s1 = next_addr s + 1"
    using fs_malloc_mem [OF mem coreD(3) [OF inv]] by blast
  let ?s = "upd_file (next_addr s) (\<lambda>_. \<lparr>file_inode = p, pos = 0, deny_write = False\<rparr>) s1"
  have "file_open p s = Some (next_addr s, ?s)" using a(1,2) p by (simp add: file_open_def)
  then show ?thesis using fs_inv_new_file(1) [OF inv le_refl a(3)] a same_ioD [OF a(3)]
    by (intro exI [of _ "next_addr s"] exI [of _ ?s]) (simp add: upd_file_def)
qed

lemma root_lookup:
  assumes inv: "fs_inv F s" and mem: "avail s = []" and p: "p \<in> set (open_inodes s)" "sector (inodes s p) = ROOT_DIR_SECTOR" and wf: "dir_wf (root_ents s)"
  shows "\<exists>r s'. lookup p nm s = Some (r, s') \<and> same_io s s' \<and> fs_inv F s' \<and> avail s' = [] \<and>
    (case r of None \<Rightarrow> root_names s nm = None
     | Some (e, ofs) \<Rightarrow> root_names s nm = Some (unat (inode_sector e)) \<and>
        (\<exists>j < length (file_bytes s ROOT_DIR_SECTOR) div 20. ofs = 20 * j \<and> e = root_ents s ! j \<and> matches nm e))"
proof -
  have io: "io_ok s p" "contents s p = file_bytes s ROOT_DIR_SECTOR" using open_inode_ok [OF inv p(1)] p(2) by simp_all
  obtain r s' where r: "lookup p nm s = Some (r, s')" "same_io s s'"
    "case r of None \<Rightarrow> avail s = [] \<longrightarrow> root_names s nm = None
     | Some (e, ofs) \<Rightarrow> root_names s nm = Some (unat (inode_sector e)) \<and>
        (\<exists>j < length (file_bytes s ROOT_DIR_SECTOR) div 20. ofs = 20 * j \<and> e = root_ents s ! j \<and> matches nm e)"
    using lookup_eq [OF io(1), of nm] wf unfolding io(2) root_ents_def by blast
  then show ?thesis using fs_inv_same_io [OF inv r(2)] same_ioD(8) [OF r(2) mem] mem
    by (intro exI [of _ r] exI [of _ s']) (cases r, simp_all)
qed

lemma filesys_open_inv:
  assumes ok: "fs_ok F s" and mem: "avail s = []"
  shows "\<exists>f s'. filesys_open nm s = Some (f, s') \<and> fs_ok F s' \<and> avail s' = [] \<and> disk s' = disk s \<and> free_map s' = free_map s \<and>
    (case root_names s nm of
       None \<Rightarrow> f = NULL \<and> same_open s s' \<and> files s' = files s
     | Some sec \<Rightarrow> f \<noteq> NULL \<and> f \<ge> next_addr s \<and> (\<exists>p. p \<in> set (open_inodes s') \<and> sector (inodes s' p) = sec \<and> opened p s s' \<and>
         files s' = (files s)(f := \<lparr>file_inode = p, pos = 0, deny_write = False\<rparr>)))"
proof -
  have inv: "fs_inv F s" and root: "root_ok F s" using ok by (simp_all add: fs_ok_def)
  obtain d s1 where d: "dir_open_root s = Some (Some d, s1)" "fs_inv F s1" "avail s1 = []" "same_store s s1" "opened (dir_inode d) s s1"
    and p: "dir_inode d \<in> set (open_inodes s1)" "sector (inodes s1 (dir_inode d)) = ROOT_DIR_SECTOR" "\<not> removed (inodes s1 (dir_inode d))"
    using dir_open_root_inv [OF ok mem] by auto
  note B1 = store_root_ents [OF d(4)] and n1 = d(4) [unfolded same_store_def]
  have wf1: "dir_wf (root_ents s1)" using root B1 by (simp add: root_ok_def)
  obtain r s2 where r: "lookup (dir_inode d) nm s1 = Some (r, s2)" "same_io s1 s2" "fs_inv F s2" "avail s2 = []"
    "case r of None \<Rightarrow> root_names s nm = None | Some (e, ofs) \<Rightarrow> root_names s nm = Some (unat (inode_sector e))"
    using root_lookup [OF d(2,3) p(1,2) wf1, of nm] B1 by (auto split: option.splits)
  note R = same_ioD [OF r(2)]
  show ?thesis
  proof (cases r)
    case None
    obtain s3 where c: "dir_close (Some d) s2 = Some s3" "fs_inv F s3" "avail s3 = avail s2" "same_store s2 s3" "closed (dir_inode d) s2 s3"
      using dir_close_inv [OF r(3), of d] p R by auto
    obtain s' where a: "fs_malloc s3 = (next_addr s3, s')" "same_io s3 s'" "avail s' = []"
      using fs_malloc_mem [of s3] c(3) r(4) fs_invD(3) [OF c(2)] by auto
    have run: "filesys_open nm s = Some (NULL, s')"
      using d(1) r(1) None c(1) a(1) by (simp add: filesys_open_def dir_lookup_def file_open_def inode_close_def)
    have st: "same_store s s'"
      by (rule same_store_trans [OF same_store_trans [OF same_store_trans [OF d(4) same_io_store [OF r(2)]] c(4)] same_io_store [OF a(2)]])
    have "same_open s s3" by (rule opened_closed [OF fs_invD(9) [OF inv] d(5) R(2,6) c(5)])
    then have so: "same_open s s'" using same_ioD(2,6) [OF a(2)] by (simp add: same_open_def)
    have "fs_ok F s'" using fs_inv_same_io [OF c(2) a(2)] root_ok_same_open [OF root store_root_ents [OF st] so] by (simp add: fs_ok_def)
    then show ?thesis using run a(3) so st None r(5) by (intro exI [of _ NULL] exI [of _ s']) (simp add: same_store_def)
  next
    case (Some x)
    then obtain e ofs where e: "r = Some (e, ofs)" "root_names s nm = Some (unat (inode_sector e))" using r(5) by (cases x) auto
    define sec where "sec = unat (inode_sector e)"
    have sec: "sec \<in> F" "sec \<noteq> ROOT_DIR_SECTOR" using root ranI [of "root_names s" nm sec] e(2) by (auto simp: root_ok_def sec_def)
    obtain q s3 where q: "inode_open sec s2 = Some (q, s3)" "q \<noteq> NULL" "sector (inodes s3 q) = sec" "fs_inv F s3" "avail s3 = []"
      "same_store s2 s3" "opened q s2 s3" using inode_open_inv [OF r(3,4) sec(1)] by blast
    have q_in: "q \<in> set (open_inodes s3)" using q(7) by (simp add: opened_def)
    have lt: "dir_inode d < next_addr s2" using inodes_okD(2) [OF fs_invD(9) [OF d(2)] p(1)] R(7) by simp
    have P: "dir_inode d \<in> set (open_inodes s3)" "sector (inodes s3 (dir_inode d)) = ROOT_DIR_SECTOR" "\<not> removed (inodes s3 (dir_inode d))"
      using p R(2,6) q(6,7) lt by (auto simp: opened_def same_store_def)
    have ne: "q \<noteq> dir_inode d" using P(2) q(3) sec(2) by auto
    obtain s4 where c: "dir_close (Some d) s3 = Some s4" "fs_inv F s4" "avail s4 = avail s3" "same_store s3 s4" "closed (dir_inode d) s3 s4"
      using dir_close_inv [OF q(4) P] by auto
    obtain f s' where f: "file_open q s4 = Some (f, s')" "f \<noteq> NULL" "f \<ge> next_addr s4" "fs_inv F s'" "avail s' = []" "disk s' = disk s4"
      "inodes s' = inodes s4" "open_inodes s' = open_inodes s4" "free_map s' = free_map s4"
      "files s' = (files s4)(f := \<lparr>file_inode = q, pos = 0, deny_write = False\<rparr>)"
      using file_open_inv [OF c(2) _ q(2)] c(3) q(5) by auto
    have run: "filesys_open nm s = Some (f, s')"
      using d(1) r(1) e(1) q(1,2) c(1) f(1) by (simp add: filesys_open_def dir_lookup_def sec_def)
    have st: "same_store s s4"
      by (rule same_store_trans [OF same_store_trans [OF same_store_trans [OF d(4) same_io_store [OF r(2)]] q(6)] c(4)])
    have "opened q s s4" by (rule opened_opened_closed [OF fs_invD(9) [OF inv] d(5) R(2,6) q(7) ne c(5)])
    then have op: "opened q s s'" using f(7,8) by (simp add: opened_def)
    have "root_ents s' = root_ents s" using store_root_ents [OF st] f(6) by (simp add: root_ents_def file_bytes_def header_def dbyte_def)
    then have "fs_ok F s'" using f(4) root_ok_opened [OF root _ op] by (simp add: fs_ok_def)
    moreover have "q \<in> set (open_inodes s')" "sector (inodes s' q) = sec"
      using op f(7) c(5) ne q(3) by (simp_all add: opened_def closed_def)
    ultimately show ?thesis using run f(2,3,5,6,9,10) st op e(2)
      by (intro exI [of _ f] exI [of _ s']) (auto simp: same_store_def sec_def)
  qed
qed

end
