(* ===== verification/Filesys.thy ===== *)
theory Filesys
  imports Directory
begin

text \<open>
  The life of a file system (\<^verbatim>\<open>filesys/filesys.c\<close>): formatting a disk and loading its free map establish the invariant, creating, opening
  and removing named files keep it, and what was created is there after a restart.
\<close>

section \<open>Loading the free map\<close>

lemma length_words_of [simp]: "length (words_of bs) = length bs div 4"
  by (induction bs rule: words_of.induct) simp_all

lemma words_of_append: "length xs = 4 * k \<Longrightarrow> words_of (xs @ ys) = words_of xs @ words_of ys"
proof (induction k arbitrary: xs)
  case (Suc k)
  then obtain a b c d zs where "xs = a # b # c # d # zs" by (auto simp: numeral_eq_Suc length_Suc_conv)
  then show ?case using Suc by simp
qed simp

text \<open>Clearing the bits of the last element that stand for no sector changes no bit of the map.\<close>

lemma bit_last_mask:
  assumes "i < bit_cnt b" "i div 32 = elem_cnt (bit_cnt b) - 1" "bit_cnt b < 2 ^ 31"
  shows "bit (last_mask b) (i mod 32)"
proof (cases "bit_cnt b mod 32 = 0")
  case False
  have "bit_cnt b + 31 = (bit_cnt b mod 32 + 31) + bit_cnt b div 32 * 32" using div_mult_mod_eq [of "bit_cnt b" 32] by linarith
  moreover have "(bit_cnt b mod 32 + 31) div 32 = 1"
    using False mod_less_divisor [of 32 "bit_cnt b", OF zero_less_numeral] by (intro div_nat_eqI) auto
  ultimately have "(bit_cnt b + 31) div 32 = bit_cnt b div 32 + 1" by (simp only: div_mult_self1 zero_neq_numeral [symmetric] not_False_eq_True)
  then have "i div 32 = bit_cnt b div 32" using assms(2,3) by (simp add: elem_cnt_def size_add_def ELEM_BITS_def)
  then have "i mod 32 < bit_cnt b mod 32" using assms(1) by (metis div_mult_mod_eq nat_add_left_cancel_less)
  moreover have "push_bit k 1 - 1 = (mask k :: u32)" for k by (simp add: mask_eq_exp_minus_1 push_bit_eq_mult)
  ultimately show ?thesis using False by (simp add: last_mask_def ELEM_BITS_def bit_mask_iff)
qed (simp add: last_mask_def ELEM_BITS_def)

lemma masked_bits:
  assumes "bit_cnt b < 2 ^ 31" "elem_cnt (bit_cnt b) \<le> length ws"
  defines "i \<equiv> elem_cnt (bit_cnt b) - 1"
  shows "bm_bits (b\<lparr>bits := ws[i := ws ! i AND last_mask b]\<rparr>) = bm_bits (b\<lparr>bits := ws\<rparr>)"
proof -
  have "bit (ws[i := ws ! i AND last_mask b] ! (k div 32)) (k mod 32) = bit (ws ! (k div 32)) (k mod 32)" if "k < bit_cnt b" for k
  proof -
    have "k div 32 < length ws" using that assms(1,2) by (simp add: elem_cnt_def size_add_def ELEM_BITS_def)
    then show ?thesis using bit_last_mask [OF that _ assms(1)] by (cases "k div 32 = i") (simp_all add: i_def bit_and_iff)
  qed
  then show ?thesis by (simp add: bm_bits_def)
qed

text \<open>The map as the disk has it.\<close>

definition stored_map :: "fs \<Rightarrow> bool list" where
  "stored_map s = bm_bits \<lparr>bit_cnt = length (disk s), bits = words_of (file_bytes s FREE_MAP_SECTOR)\<rparr>"

lemma map_saved_stored: "map_saved s \<longleftrightarrow> stored_map s = bm_bits (free_map s)"
  by (simp add: map_saved_def stored_map_def)

lemma bitmap_read_map:
  assumes core: "core_inv False F s" and mem: "avail s = []"
    and p: "file_inode (files s f) \<in> set (open_inodes s)" "sector (inodes s (file_inode (files s f))) = FREE_MAP_SECTOR"
    and len: "len (header s FREE_MAP_SECTOR) = int (byte_cnt (length (disk s)))"
  shows "\<exists>b s'. bitmap_read (free_map s) f s = Some (True, b, s') \<and> same_io s s' \<and> bm_wf b \<and> bit_cnt b = length (disk s) \<and> bm_bits b = stored_map s"
proof -
  note I = coreD [OF core]
  let ?p = "file_inode (files s f)" and ?n = "length (disk s)" and ?b = "free_map s" and ?c = "file_bytes s FREE_MAP_SECTOR"
  have io: "io_ok s ?p" "contents s ?p = ?c" using open_inode_ok [OF core p(1)] p(2) by simp_all
  have bc: "byte_cnt ?n < 2 ^ 31" "byte_cnt ?n = 4 * elem_cnt ?n" using byte_cnt_small [OF I(2)] by (simp_all add: byte_cnt_def)
  have lc: "length ?c = 4 * elem_cnt ?n" using len bc(2) by simp
  obtain s' where r: "inode_read_at ?p (int (byte_cnt ?n)) (int 0) s = Some (?c, s')" "same_io s s'"
    using inode_read_at_bytes [OF io(1), of 0 "byte_cnt ?n"] mem lc bc(2) unfolding io(2) by auto
  have sz: "s32 (int (byte_cnt ?n)) = int (byte_cnt ?n)" using bc(1) by (simp add: in_s32_def)
  define ws where "ws = words_of (overwrite (bytes_of (bits ?b)) 0 ?c)"
  have el: "elem_cnt ?n \<le> length (bits ?b)" using I(4,5) by (simp add: bm_wf_def)
  have lw: "length ws = length (bits ?b)" using el lc by (simp add: ws_def)
  have "ws = words_of ?c @ words_of (drop (length ?c) (bytes_of (bits ?b)))"
    using words_of_append [OF lc] by (simp add: ws_def overwrite_def)
  moreover have "k div 32 < elem_cnt ?n" if "k < ?n" for k using that I(2) by (simp add: elem_cnt_def size_add_def ELEM_BITS_def)
  ultimately have bits: "bm_bits (?b\<lparr>bits := ws\<rparr>) = stored_map s"
    using I(5) lc by (simp add: bm_bits_def stored_map_def nth_append)
  let ?i = "elem_cnt (bit_cnt ?b) - 1"
  let ?b' = "?b\<lparr>bits := ws[?i := ws ! ?i AND last_mask ?b]\<rparr>"
  have "bm_bits ?b' = stored_map s" using masked_bits [of ?b ws] I(2,5) el lw bits by simp
  moreover have "bm_wf ?b'" using I(4) lw by (simp add: bm_wf_def)
  moreover have "0 < ?n" using files_okD(1) [OF I(8)] inodes_okD(3) [OF I(9) p(1)] by fastforce
  then have "bitmap_read ?b f s = Some (True, ?b', s')"
    using r(1) sz I(5) lc bc(2) by (simp add: bitmap_read_def file_read_at_def ws_def Let_def)
  ultimately show ?thesis using r(2) I(5) by auto
qed

text \<open>When the free map file has been opened and the map loaded, the invariant holds.\<close>

lemma core_inv_file: "core_inv False F (s\<lparr>free_map_file := f\<rparr>) = core_inv False F s"
  by (simp add: core_inv_def disk_wf_def files_ok_def inodes_ok_def header_def header_ok_def)

lemma free_map_open_inv:
  assumes core: "core_inv False F s" and mem: "avail s = []" and none: "open_inodes s = []" and F: "FREE_MAP_SECTOR \<in> F"
    and len: "len (header s FREE_MAP_SECTOR) = int (byte_cnt (length (disk s)))"
    and marks: "\<And>f x. f \<in> F \<Longrightarrow> x \<in> extent s f \<Longrightarrow> stored_map s ! x"
  shows "\<exists>s'. free_map_open s = Some s' \<and> fs_inv F s' \<and> avail s' = [] \<and> disk s' = disk s \<and> map_saved s' \<and>
    (\<forall>p\<in>set (open_inodes s'). sector (inodes s' p) = FREE_MAP_SECTOR)"
proof -
  obtain p s1 where p: "inode_open FREE_MAP_SECTOR s = Some (p, s1)" "p \<noteq> NULL" "sector (inodes s1 p) = FREE_MAP_SECTOR" "core_inv False F s1"
    "avail s1 = []" "same_store s s1" "opened p s s1" using inode_open_inv [OF core mem F] by blast
  have o1: "set (open_inodes s1) = {p}" "deny_write_cnt (inodes s1 p) = 0" using p(7) none by (simp_all add: opened_def)
  obtain f s2 where f: "file_open p s1 = Some (f, s2)" "f \<noteq> NULL" "f < next_addr s2" "core_inv False F s2" "avail s2 = []" "disk s2 = disk s1"
    "inodes s2 = inodes s1" "open_inodes s2 = open_inodes s1" "files s2 = (files s1)(f := \<lparr>file_inode = p, pos = 0, deny_write = False\<rparr>)"
    using file_open_inv [OF p(4,5,2)] by auto
  let ?s3 = "s2\<lparr>free_map_file := f\<rparr>"
  have d: "disk ?s3 = disk s" using f(6) p(6) by (simp add: same_store_def)
  have h: "header ?s3 = header s" "file_bytes ?s3 = file_bytes s" "stored_map ?s3 = stored_map s"
    using d by (simp_all add: header_def file_bytes_def dbyte_def stored_map_def fun_eq_iff)
  have core3: "core_inv False F ?s3" using f(4) by (simp add: core_inv_file)
  obtain b s4 where b: "bitmap_read (free_map ?s3) f ?s3 = Some (True, b, s4)" "same_io ?s3 s4" "bm_wf b" "bit_cnt b = length (disk s)"
    "bm_bits b = stored_map s"
    using bitmap_read_map [OF core3, of f] f(5,7-9) o1 p(3) len unfolding h d by auto
  note B = same_ioD [OF b(2)]
  let ?s = "s4\<lparr>free_map := b\<rparr>"
  have run: "free_map_open s = Some ?s" using p(1) f(1,2) b(1) by (simp add: free_map_open_def)
  have h': "header ?s = header s" "file_bytes ?s = file_bytes s" "stored_map ?s = stored_map s" using B(1) d
    by (simp_all add: header_def file_bytes_def dbyte_def stored_map_def fun_eq_iff)
  have "core_inv False F ?s"
    by (rule fs_inv_free_map [OF fs_inv_same_io [OF core3 b(2)] b(3)]) (use b(4) B(1) d in simp_all)
  moreover have "map_file_ok ?s" using B f(2,3,7-9) o1 p(3) len d unfolding map_file_ok_def h' by auto
  moreover have "marked F ?s" using marks b(5) unfolding marked_def h' by (simp del: bm_bits_nth)
  ultimately have "fs_inv F ?s" using F by (simp add: core_inv_def)
  moreover have "map_saved ?s" using b(5) h' by (simp add: map_saved_stored)
  ultimately show ?thesis using run B f(5,7,8) o1 p(3) d by (intro exI [of _ ?s]) auto
qed

section \<open>Formatting a disk\<close>

text \<open>Allocation before the free map file is open: only the map in memory changes.\<close>

lemma allocate_closed:
  assumes core: "core_inv False F s" and "free_map_file s = NULL" and "group_at (bm_bits (free_map s)) n False i"
  shows "\<exists>st b. free_map_allocate n s = Some (Some st, s\<lparr>free_map := b\<rparr>) \<and> bm_wf b \<and> bit_cnt b = length (disk s) \<and>
    first_group (bm_bits (free_map s)) 0 n False st \<and> bm_bits b = set_range (bm_bits (free_map s)) st n True"
proof -
  note I = coreD [OF core]
  obtain st b where a: "bitmap_scan_and_flip (free_map s) 0 n False = Some (st, b)" "st \<noteq> BITMAP_ERROR"
    using bm.alloc_cases [OF I(4), of n] assms(3) by auto
  have "bit_cnt b = length (disk s)" using scan_bit_cnt [OF I(4) a(1)] I(5) by simp
  then show ?thesis using bm.alloc_some [OF I(4) a] a assms(2) by (intro exI [of _ st] exI [of _ b]) (simp add: free_map_allocate_def)
qed

lemma inode_create_closed:
  assumes core: "core_inv False F s" and mem: "avail s = []" and nf: "free_map_file s = NULL"
    and grp: "group_at (bm_bits (free_map s)) (bytes_to_sectors l) False i"
    and sec: "sec < length (disk s)" "bm_bits (free_map s) ! sec" "\<And>f. f \<in> F \<Longrightarrow> sec \<notin> extent s f"
    and marks: "\<And>f x. f \<in> F \<Longrightarrow> x \<in> extent s f \<Longrightarrow> bm_bits (free_map s) ! x" and l: "0 \<le> l" "l \<le> 2 ^ 31 - 512"
  shows "\<exists>st s'. inode_create sec l s = Some (True, s') \<and> avail s' = [] \<and> core_inv False (insert sec F) s' \<and>
    header s' sec = \<lparr>start = of_nat st, len = l, dmagic = INODE_MAGIC\<rparr> \<and> open_inodes s' = open_inodes s \<and> length (disk s') = length (disk s) \<and>
    st < 2 ^ 32 \<and> first_group (bm_bits (free_map s)) 0 (bytes_to_sectors l) False st \<and>
    bm_bits (free_map s') = set_range (bm_bits (free_map s)) st (bytes_to_sectors l) True"
proof -
  note I = coreD [OF core]
  let ?n = "bytes_to_sectors l" and ?B = "bm_bits (free_map s)"
  obtain s1 where s1: "fs_malloc s = (next_addr s, s1)" "next_addr s \<noteq> NULL" "same_io s s1" "avail s1 = []"
    using fs_malloc_mem [OF mem I(3)] by auto
  note S1 = same_ioD [OF s1(3)] and H1 = same_io_bytes [OF s1(3)]
  have core1: "core_inv False F s1" by (rule fs_inv_same_io [OF core s1(3)])
  obtain st b where a: "free_map_allocate ?n s1 = Some (Some st, s1\<lparr>free_map := b\<rparr>)" "bm_wf b" "bit_cnt b = length (disk s)"
    "first_group ?B 0 ?n False st" "bm_bits b = set_range ?B st ?n True"
    using allocate_closed [OF core1, of ?n i] nf grp S1 by auto
  let ?s2 = "s1\<lparr>free_map := b\<rparr>" and ?N = "{st ..< st + ?n}"
  have core2: "core_inv False F ?s2" by (rule fs_inv_free_map [OF core1 a(2)]) (use a(3) S1(1) in simp_all)
  have h2: "header ?s2 = header s" using S1(1) by (simp add: header_def fun_eq_iff)
  have g: "st + ?n \<le> length (disk s)" "\<And>x. x \<in> ?N \<Longrightarrow> \<not> ?B ! x"
    using a(4) I(5) by (auto simp: first_group_def group_at_def simp del: bm_bits_nth)
  have st: "st < 2 ^ 32" "sec \<notin> ?N" using g sec(2) I(2) by (simp, blast)
  have dis: "extent ?s2 f \<inter> insert sec ?N = {}" if "f \<in> F" for f
    using g(2) marks [OF that] sec(3) [OF that] unfolding h2 by blast
  obtain t s' where w: "block_write sec (enc_inode \<lparr>start = of_nat st, len = l, dmagic = INODE_MAGIC\<rparr>) ?s2 = Some t"
    "zero_sectors ?n st t = Some s'" "avail s' = []" "same_fs ?s2 s'" "core_inv False (insert sec F) s'"
    "header s' sec = \<lparr>start = of_nat st, len = l, dmagic = INODE_MAGIC\<rparr>"
    using write_new_file [OF core2, of sec l st] s1(4) sec(1) S1(1) l g(1) st dis by auto
  have "inode_create sec l s = Some (True, s')" using s1(1,2) a(1) w(1,2) l(1) by (simp add: inode_create_def)
  then show ?thesis using w(3,5,6) st(1) a(4,5) same_fsD [OF w(4)] S1 by (intro exI [of _ st] exI [of _ s']) simp
qed

text \<open>The map of an empty disk: the two special sectors are marked.\<close>

lemma free_map_init_ok:
  assumes "avail s = []" "0 < next_addr s" "2 \<le> length (disk s)" "length (disk s) < 2 ^ 31" "length w = elem_cnt (length (disk s))"
  shows "\<exists>s'. free_map_init w s = Some s' \<and> bm_wf (free_map s') \<and> bit_cnt (free_map s') = length (disk s) \<and>
    bm_bits (free_map s') = True # True # replicate (length (disk s) - 2) False \<and> disk s' = disk s \<and> inodes s' = inodes s \<and>
    open_inodes s' = open_inodes s \<and> free_map_file s' = free_map_file s \<and> avail s' = [] \<and> 0 < next_addr s'"
proof -
  let ?n = "length (disk s)"
  obtain s1 where s1: "fs_malloc s = (next_addr s, s1)" "next_addr s \<noteq> NULL" "same_io s s1" "avail s1 = []" "next_addr s1 = next_addr s + 1"
    using fs_malloc_mem [OF assms(1,2)] by blast
  obtain s2 where s2: "fs_malloc s1 = (next_addr s1, s2)" "next_addr s1 \<noteq> NULL" "same_io s1 s2" "avail s2 = []" "next_addr s2 = next_addr s1 + 1"
    using fs_malloc_mem [OF s1(4)] s1(5) by auto
  note S = same_ioD [OF same_io_trans [OF s1(3) s2(3)]]
  let ?b0 = "\<lparr>bit_cnt = ?n, bits = w\<rparr>"
  have wf0: "bm_wf ?b0" using assms(4,5) by (simp add: bm_wf_def ELEM_BITS_def)
  obtain b where b: "bitmap_set_all ?b0 False = Some b" "bm_wf b" "bit_cnt b = ?n" "bm_bits b = replicate ?n False"
    using bitmap_set_all_bits [OF wf0, of False] by auto
  obtain m where m: "?n = Suc (Suc m)" using assms(3) by (metis Suc_le_D numeral_2_eq_2 Suc_le_mono)
  obtain b1 where b1: "bitmap_mark b 0 = Some b1" "bm_wf b1" "bit_cnt b1 = ?n" "bm_bits b1 = (bm_bits b)[0 := True]"
    using bitmap_mark_bits [OF b(2), of 0] b(3) m by auto
  obtain b2 where b2: "bitmap_mark b1 1 = Some b2" "bm_wf b2" "bit_cnt b2 = ?n" "bm_bits b2 = (bm_bits b1)[1 := True]"
    using bitmap_mark_bits [OF b1(2), of 1] b1(3) m by auto
  have "bm_bits b2 = True # True # replicate (?n - 2) False" using b2(4) b1(4) b(4) by (simp add: m)
  moreover have "free_map_init w s = Some (s2\<lparr>free_map := b2\<rparr>)"
    using s1(1,2) s2(1,2) b(1) b1(1) b2(1) S(1)
    by (simp add: free_map_init_def bitmap_create_def FREE_MAP_SECTOR_def ROOT_DIR_SECTOR_def)
  ultimately show ?thesis using S b2(2,3) s2(4,5) by simp
qed

text \<open>\<^verbatim>\<open>free_map_create\<close> leaves a file system with one file, the free map.\<close>

definition map_sectors :: "nat \<Rightarrow> nat" where
  "map_sectors n = bytes_to_sectors (int (byte_cnt n))"

lemma empty_map_group:
  fixes m n :: nat
  defines "B \<equiv> True # True # replicate (n - 2) False"
  assumes "0 < m" "2 + m \<le> n"
  shows "group_at B m False 2" "first_group B 0 m False st \<Longrightarrow> st = 2"
proof -
  have two: "group_at B m False 2" using assms(3) by (auto simp: group_at_def B_def nth_Cons split: nat.splits)
  then show "group_at B m False 2" .
  assume f: "first_group B 0 m False st"
  then have "st \<le> 2" using two by (force simp: first_group_def not_less [symmetric])
  moreover have "\<not> group_at B m False 0" "\<not> group_at B m False 1" using assms(2) by (auto simp: group_at_def B_def)
  ultimately show "st = 2" using f by (auto simp: first_group_def le_Suc_eq numeral_2_eq_2)
qed

lemma marked_below: "2 + m \<le> n \<Longrightarrow> x < 2 + m \<Longrightarrow> set_range (True # True # replicate (n - 2) False) 2 m True ! x"
  by (subst nth_set_range) (auto simp: nth_Cons split: nat.splits)

lemma free_map_create_ok:
  fixes n :: nat
  assumes core: "core_inv False {} s" and mem: "avail s = []" and nf: "free_map_file s = NULL" and none: "open_inodes s = []"
    and bits: "bm_bits (free_map s) = True # True # replicate (n - 2) False" and n: "length (disk s) = n" "3 + map_sectors n \<le> n"
  shows "\<exists>s' p. free_map_create s = Some s' \<and> fs_inv {FREE_MAP_SECTOR} s' \<and> avail s' = [] \<and> length (disk s') = n \<and>
    set (open_inodes s') = {p} \<and> file_inode (files s' (free_map_file s')) = p \<and> open_cnt (inodes s' p) = 1 \<and> \<not> removed (inodes s' p) \<and>
    \<not> deny_write (files s' (free_map_file s')) \<and> extent s' FREE_MAP_SECTOR = insert 0 {2 ..< 2 + map_sectors n} \<and>
    bm_bits (free_map s') = set_range (True # True # replicate (n - 2) False) 2 (map_sectors n) True"
proof -
  note I = coreD [OF core]
  let ?m = "map_sectors n" and ?l = "int (byte_cnt n)" and ?B = "True # True # replicate (n - 2) False"
  have n31: "n < 2 ^ 31" using I(2) n(1) by simp
  have bc: "byte_cnt n = 4 * ((n + 31) div 32)" by (rule byte_cnt_small(1) [OF n31])
  have l: "0 \<le> ?l" "?l \<le> 2 ^ 31 - 512" using n31 unfolding bc by simp_all
  have "?m = (byte_cnt n + 511) div 512" unfolding map_sectors_def using l(2) by (intro bytes_to_sectors_eq) simp
  moreover have "0 < byte_cnt n" using n(2) by (simp add: bc)
  ultimately have m: "0 < ?m" by (simp add: div_greater_zero_iff)
  have m2: "2 + ?m \<le> n" using n(2) by simp
  note G = empty_map_group [OF m m2]
  have sz: "s32 (int (bitmap_file_size (free_map s))) = ?l"
    using l I(5) n(1) by (simp add: bitmap_file_size_def in_s32_def)
  have sec0: "FREE_MAP_SECTOR < length (disk s)" "bm_bits (free_map s) ! FREE_MAP_SECTOR" using n bits by (simp_all add: FREE_MAP_SECTOR_def del: bm_bits_nth)
  obtain st s1 where c: "inode_create FREE_MAP_SECTOR ?l s = Some (True, s1)" "avail s1 = []" "core_inv False {FREE_MAP_SECTOR} s1"
    "header s1 FREE_MAP_SECTOR = \<lparr>start = of_nat st, len = ?l, dmagic = INODE_MAGIC\<rparr>" "open_inodes s1 = []" "length (disk s1) = n"
    "first_group ?B 0 ?m False st" "bm_bits (free_map s1) = set_range ?B st ?m True"
    using inode_create_closed [OF core mem nf _ sec0 _ _ l, of 2] G(1) none n(1) unfolding bits map_sectors_def by auto
  have st: "st = 2" using G(2) c(7) by blast
  have ext: "extent s1 FREE_MAP_SECTOR = insert 0 {2 ..< 2 + ?m}"
    using c(4) st by (simp add: data_sectors_def first_sector_def map_sectors_def FREE_MAP_SECTOR_def)
  obtain p s2 where p: "inode_open FREE_MAP_SECTOR s1 = Some (p, s2)" "p \<noteq> NULL" "sector (inodes s2 p) = FREE_MAP_SECTOR"
    "core_inv False {FREE_MAP_SECTOR} s2" "avail s2 = []" "same_store s1 s2" "opened p s1 s2" using inode_open_inv [OF c(3,2)] by blast
  have o2: "set (open_inodes s2) = {p}" "deny_write_cnt (inodes s2 p) = 0" "open_cnt (inodes s2 p) = 1" "\<not> removed (inodes s2 p)"
    using p(7) c(5) by (simp_all add: opened_def)
  obtain f s3 where f: "file_open p s2 = Some (f, s3)" "f \<noteq> NULL" "f < next_addr s3" "core_inv False {FREE_MAP_SECTOR} s3" "avail s3 = []"
    "disk s3 = disk s2" "inodes s3 = inodes s2" "open_inodes s3 = open_inodes s2" "free_map s3 = free_map s2"
    "files s3 = (files s2)(f := \<lparr>file_inode = p, pos = 0, deny_write = False\<rparr>)"
    using file_open_inv [OF p(4,5,2)] by auto
  let ?s4 = "s3\<lparr>free_map_file := f\<rparr>"
  have S: "disk ?s4 = disk s1" "free_map ?s4 = free_map s1" using f(6,9) p(6) by (simp_all add: same_store_def)
  have h: "header ?s4 = header s1" using S(1) by (simp add: header_def fun_eq_iff)
  have "map_file_ok ?s4" using f(2,3,7,8,10) o2 p(3) c(4,6) S(1) unfolding map_file_ok_def h by simp
  moreover have "marked {FREE_MAP_SECTOR} ?s4"
  proof (unfold marked_def h S(2) c(8) st, intro ballI)
    fix g x assume "g \<in> {FREE_MAP_SECTOR}" "x \<in> insert g (data_sectors (header s1 g))"
    then have "x < 2 + ?m" using ext by auto
    then show "set_range ?B 2 ?m True ! x" by (rule marked_below [OF m2])
  qed
  moreover have "core_inv False {FREE_MAP_SECTOR} ?s4" using f(4) by (simp add: core_inv_file)
  ultimately have inv4: "fs_inv {FREE_MAP_SECTOR} ?s4" by (simp add: core_inv_def)
  obtain s' where w: "bitmap_write (free_map ?s4) f ?s4 = Some (True, s')" "fs_inv {FREE_MAP_SECTOR} s'" "avail s' = []" "same_fs ?s4 s'"
    "header s' FREE_MAP_SECTOR = header s1 FREE_MAP_SECTOR"
    using map_write [OF inv4] f(5) h by auto
  note W = same_fsD [OF w(4)]
  have "free_map_create s = Some s'" using c(1) sz p(1) f(1,2) w(1) by (simp add: free_map_create_def)
  then show ?thesis using w(2,3,5) W f(7,8,10) o2 S c(6,8) st ext by (intro exI [of _ s'] exI [of _ p]) simp
qed

lemma empty_directory:
  assumes "\<And>b. b \<in> set bs \<Longrightarrow> b = 0"
  shows "dir_wf (entries bs)" "names (entries bs) = Map.empty" "\<forall>e\<in>set (entries bs). \<not> in_use e"
proof -
  have no: "\<not> in_use e" if e: "e \<in> set (entries bs)" for e
  proof -
    obtain i where i: "i < length bs div 20" "e = dec_entry (take 20 (drop (20 * i) bs))" using e by (auto simp: entries_def)
    have "bs ! (20 * i + 19) = 0" using entry_bound [OF i(1)] by (intro assms nth_mem) simp
    then show ?thesis using entry_bound [OF i(1)] by (simp add: i(2) dec_entry_def)
  qed
  then show "\<forall>e\<in>set (entries bs). \<not> in_use e" by blast
  then have "filter in_use (entries bs) = []" by (simp add: filter_empty_conv)
  then show "dir_wf (entries bs)" using no by (simp add: dir_wf_def)
  show "names (entries bs) = Map.empty"
    using no by (auto simp: names_def matches_def fun_eq_iff find_None_iff)
qed

text \<open>Closing the free map file leaves the disk and the map.\<close>

lemma free_map_close_ok:
  assumes inv: "fs_inv F s" and mem: "avail s = []" and p: "set (open_inodes s) = {p}" "file_inode (files s (free_map_file s)) = p"
    "open_cnt (inodes s p) = 1" "\<not> removed (inodes s p)" "\<not> deny_write (files s (free_map_file s))"
  shows "\<exists>s'. free_map_close s = Some s' \<and> core_inv False F s' \<and> avail s' = [] \<and> same_store s s' \<and> open_inodes s' = []"
proof -
  have nf: "free_map_file s \<noteq> NULL" using fs_invD(10) [OF inv] by (simp add: map_file_ok_def)
  obtain s' where c: "inode_close p s = Some s'" "core_inv False F s'" "avail s' = avail s" "same_store s s'" "closed p s s'"
    using inode_close_inv [OF fs_invD(7) [OF inv], of p] p by auto
  have "free_map_close s = Some s'" using nf c(1) p(2,5) by (simp add: free_map_close_def file_close_def file_allow_write_def)
  moreover have "open_inodes s' = []" using c(5) p(1,3) by (simp add: closed_def)
  ultimately show ?thesis using c(2-4) mem by simp
qed

lemma do_format_ok:
  fixes n :: nat
  assumes core: "core_inv False {} s" and mem: "avail s = []" and nf: "free_map_file s = NULL" and none: "open_inodes s = []"
    and bits: "bm_bits (free_map s) = True # True # replicate (n - 2) False" and n: "length (disk s) = n" "3 + map_sectors n \<le> n"
  shows "\<exists>s'. do_format s = Some s' \<and> core_inv False {FREE_MAP_SECTOR, ROOT_DIR_SECTOR} s' \<and> avail s' = [] \<and> length (disk s') = n \<and>
    open_inodes s' = [] \<and> marked {FREE_MAP_SECTOR, ROOT_DIR_SECTOR} s' \<and> map_saved s' \<and>
    len (header s' FREE_MAP_SECTOR) = int (byte_cnt n) \<and> file_bytes s' ROOT_DIR_SECTOR = replicate 320 0 \<and>
    (\<exists>st<n. bm_bits (free_map s') = set_range (set_range (True # True # replicate (n - 2) False) 2 (map_sectors n) True) st 1 True)"
proof -
  let ?m = "map_sectors n" and ?B = "True # True # replicate (n - 2) False" and ?F = "{FREE_MAP_SECTOR, ROOT_DIR_SECTOR}"
  obtain s1 p where c: "free_map_create s = Some s1" "fs_inv {FREE_MAP_SECTOR} s1" "avail s1 = []" "length (disk s1) = n"
    and p: "set (open_inodes s1) = {p}" "file_inode (files s1 (free_map_file s1)) = p" "open_cnt (inodes s1 p) = 1" "\<not> removed (inodes s1 p)"
    "\<not> deny_write (files s1 (free_map_file s1))"
    and e: "extent s1 FREE_MAP_SECTOR = insert 0 {2 ..< 2 + ?m}" and b: "bm_bits (free_map s1) = set_range ?B 2 ?m True"
    using free_map_create_ok [OF core mem nf none bits n] by blast
  have root: "ROOT_DIR_SECTOR < length (disk s1)" "bm_bits (free_map s1) ! ROOT_DIR_SECTOR"
    using c(4) n(2) b marked_below [of ?m n 1] by (simp_all add: ROOT_DIR_SECTOR_def del: bm_bits_nth)
  have fresh: "ROOT_DIR_SECTOR \<notin> extent s1 f" if "f \<in> {FREE_MAP_SECTOR}" for f
    using that e unfolding singleton_iff by (simp only: ROOT_DIR_SECTOR_def) simp
  have "group_at (bm_bits (free_map s1)) 1 False (2 + ?m)"
    using n(2) unfolding b group_at_def by (auto simp: nth_set_range nth_Cons split: nat.splits)
  moreover have b1: "bytes_to_sectors 320 = 1" using bytes_to_sectors_eq [of 320] by simp
  ultimately obtain s2 st where r: "inode_create ROOT_DIR_SECTOR 320 s1 = Some (True, s2)" "avail s2 = []" "same_objects s1 s2"
    "header s2 FREE_MAP_SECTOR = header s1 FREE_MAP_SECTOR" "fs_inv (insert ROOT_DIR_SECTOR {FREE_MAP_SECTOR}) s2" "map_saved s2"
    "file_bytes s2 ROOT_DIR_SECTOR = replicate (nat 320) 0" "bm_bits (free_map s2) = set_range (set_range ?B 2 ?m True) st 1 True" "st < n"
    using inode_create_inv [OF c(2,3) root fresh, of 320] b c(4) by (auto simp: Suc_le_eq split: if_splits)
  have inv2: "fs_inv ?F s2" using r(5) by (simp add: insert_commute)
  note R = r(3) [unfolded same_objects_def]
  obtain s' where f: "free_map_close s2 = Some s'" "core_inv False ?F s'" "avail s' = []" "same_store s2 s'" "open_inodes s' = []"
    using free_map_close_ok [OF inv2 r(2)] p R by auto
  have "dir_create ROOT_DIR_SECTOR 16 s1 = Some (True, s2)" using r(1) by (simp add: dir_create_def sizeof_entry_def in_s32_def)
  then have run: "do_format s = Some s'" using c(1) f(1) by (simp add: do_format_def)
  note H = same_store_bytes [OF f(4)] and S = f(4) [unfolded same_store_def]
  have "marked ?F s'" using coreD(11) [OF inv2] S unfolding marked_def H by (simp del: bm_bits_nth)
  moreover have "map_saved s'" using r(6) H by simp
  moreover have "len (header s' FREE_MAP_SECTOR) = int (byte_cnt n)" using fs_invD(10) [OF c(2)] r(4) H c(4) by (simp add: map_file_ok_def)
  ultimately show ?thesis using run f(2,3,5) S R c(4) r(7-9) H by (intro exI [of _ s']) auto
qed

lemma fs_ok_start:
  assumes "fs_inv F s" "ROOT_DIR_SECTOR \<in> F" "dir_wf (root_ents s)" "ran (root_names s) \<subseteq> F - {FREE_MAP_SECTOR, ROOT_DIR_SECTOR}"
    "inj_on (root_names s) (dom (root_names s))" "\<forall>p\<in>set (open_inodes s). sector (inodes s p) = FREE_MAP_SECTOR"
  shows "fs_ok F s"
  using assms by (auto simp: fs_ok_def root_ok_def)

text \<open>The states in which the kernel starts the file system.\<close>

definition fresh_start :: "u32 list \<Rightarrow> fs \<Rightarrow> bool" where
  "fresh_start w s \<longleftrightarrow> disk_wf s \<and> 2 \<le> length (disk s) \<and> length (disk s) < 2 ^ 31 \<and> avail s = [] \<and> 0 < next_addr s \<and> free_map_file s = NULL \<and>
     length w = elem_cnt (length (disk s))"

lemma free_map_init_start:
  assumes "fresh_start w s"
  shows "\<exists>s'. free_map_init w (inode_init s) = Some s' \<and> core_inv False {} s' \<and> bm_wf (free_map s') \<and> bit_cnt (free_map s') = length (disk s) \<and>
    bm_bits (free_map s') = True # True # replicate (length (disk s) - 2) False \<and> disk s' = disk s \<and> open_inodes s' = [] \<and>
    free_map_file s' = NULL \<and> avail s' = []"
proof -
  obtain s' where s': "free_map_init w (inode_init s) = Some s'" "bm_wf (free_map s')" "bit_cnt (free_map s') = length (disk s)"
    "bm_bits (free_map s') = True # True # replicate (length (disk s) - 2) False" "disk s' = disk s" "open_inodes s' = []"
    "free_map_file s' = NULL" "avail s' = []" "0 < next_addr s'"
    using free_map_init_ok [of "inode_init s" w] assms by (auto simp: fresh_start_def inode_init_def)
  then have "core_inv False {} s'" using assms by (simp add: core_inv_def fresh_start_def disk_wf_def files_ok_def inodes_ok_def)
  then show ?thesis using s' by blast
qed

lemma filesys_init_format:
  assumes start: "fresh_start w s" and room: "3 + map_sectors (length (disk s)) \<le> length (disk s)"
  shows "\<exists>s'. filesys_init w True s = Some s' \<and> fs_ok {FREE_MAP_SECTOR, ROOT_DIR_SECTOR} s' \<and> root_names s' = Map.empty \<and> map_saved s' \<and>
    avail s' = [] \<and> length (disk s') = length (disk s) \<and> length (root_ents s') = 16 \<and> (\<forall>e\<in>set (root_ents s'). \<not> in_use e) \<and>
    (\<exists>st<length (disk s). bm_bits (free_map s') = set_range (set_range (True # True # replicate (length (disk s) - 2) False) 2 (map_sectors (length (disk s))) True) st 1 True)"
proof -
  let ?F = "{FREE_MAP_SECTOR, ROOT_DIR_SECTOR}"
  obtain s1 where i: "free_map_init w (inode_init s) = Some s1" "core_inv False {} s1"
    "bm_bits (free_map s1) = True # True # replicate (length (disk s) - 2) False" "disk s1 = disk s" "open_inodes s1 = []"
    "free_map_file s1 = NULL" "avail s1 = []" using free_map_init_start [OF start] by blast
  obtain s2 st where f: "do_format s1 = Some s2" "core_inv False ?F s2" "avail s2 = []" "length (disk s2) = length (disk s)" "open_inodes s2 = []"
    "marked ?F s2" "map_saved s2" "len (header s2 FREE_MAP_SECTOR) = int (byte_cnt (length (disk s)))"
    "file_bytes s2 ROOT_DIR_SECTOR = replicate 320 0"
    "bm_bits (free_map s2) = set_range (set_range (True # True # replicate (length (disk s) - 2) False) 2 (map_sectors (length (disk s))) True) st 1 True" "st < length (disk s)"
    using do_format_ok [OF i(2,7,6,5,3)] i(4) room by auto
  have marks: "stored_map s2 ! x" if "f \<in> ?F" "x \<in> extent s2 f" for f x
    using f(6,7) that unfolding marked_def map_saved_stored by (auto simp del: bm_bits_nth)
  obtain s' where o: "free_map_open s2 = Some s'" "fs_inv ?F s'" "avail s' = []" "disk s' = disk s2" "map_saved s'"
    "\<forall>p\<in>set (open_inodes s'). sector (inodes s' p) = FREE_MAP_SECTOR"
    using free_map_open_inv [OF f(2,3,5)] f(4,8) marks by (metis insertI1)
  have "file_bytes s' ROOT_DIR_SECTOR = replicate 320 0" using f(9) o(4) by (simp add: file_bytes_def header_def dbyte_def)
  then have root: "dir_wf (root_ents s')" "root_names s' = Map.empty" "\<forall>e\<in>set (root_ents s'). \<not> in_use e" "length (root_ents s') = 16"
    using empty_directory [of "replicate 320 0"] by (simp_all add: root_ents_def)
  have "fs_ok ?F s'" by (rule fs_ok_start [OF o(2) _ root(1) _ _ o(6)]) (simp_all add: root(2))
  moreover have "filesys_init w True s = Some s'" using i(1) f(1) o(1) by (simp add: filesys_init_def)
  moreover have "bm_bits (free_map s') = bm_bits (free_map s2)"
    using o(4,5) f(7) by (simp add: map_saved_stored stored_map_def file_bytes_def header_def dbyte_def)
  ultimately show ?thesis using root o(3-5) f(4,10,11) by auto
qed

text \<open>Starting on a disk that a file system has been left on.\<close>

lemma filesys_init_mount:
  assumes ok: "fs_ok F s" and saved: "map_saved s" and start: "fresh_start w t" and disk: "disk t = disk s"
  shows "\<exists>t'. filesys_init w False t = Some t' \<and> fs_ok F t' \<and> disk t' = disk s \<and> bm_bits (free_map t') = bm_bits (free_map s) \<and>
    root_names t' = root_names s \<and> file_bytes t' = file_bytes s \<and> avail t' = [] \<and> map_saved t'"
proof -
  have inv: "fs_inv F s" and root: "root_ok F s" using ok by (simp_all add: fs_ok_def)
  note I = fs_invD [OF inv]
  obtain t1 where i: "free_map_init w (inode_init t) = Some t1" "core_inv False {} t1" "disk t1 = disk s" "open_inodes t1 = []" "avail t1 = []"
    using free_map_init_start [OF start] disk by auto
  have same: "header u = header s \<and> file_bytes u = file_bytes s \<and> stored_map u = stored_map s \<and> root_ents u = root_ents s" if "disk u = disk s" for u
    using that by (simp add: header_def file_bytes_def dbyte_def stored_map_def root_ents_def fun_eq_iff)
  note B1 = same [OF i(3)]
  have "files_ok F t1" using I(8) B1 i(3) by (simp add: files_ok_def header_ok_def)
  then have core1: "core_inv False F t1" using coreD [OF i(2)] i(4) by (simp add: core_inv_def inodes_ok_def)
  have marks: "stored_map t1 ! x" if "f \<in> F" "x \<in> extent t1 f" for f x
    using markedD [OF inv that(1)] that(2) saved B1 unfolding map_saved_stored by (simp del: bm_bits_nth)
  have len: "len (header t1 FREE_MAP_SECTOR) = int (byte_cnt (length (disk t1)))" using I(10) B1 i(3) by (simp add: map_file_ok_def)
  obtain t' where o: "free_map_open t1 = Some t'" "fs_inv F t'" "avail t' = []" "disk t' = disk t1" "map_saved t'"
    "\<forall>p\<in>set (open_inodes t'). sector (inodes t' p) = FREE_MAP_SECTOR"
    using free_map_open_inv [OF core1 i(5,4) I(6) len] marks by blast
  note B' = same [of t', unfolded o(4) i(3), OF refl]
  have "fs_ok F t'" by (rule fs_ok_start [OF o(2) _ _ _ _ o(6)]) (use root B' in \<open>simp_all add: root_ok_def\<close>)
  moreover have "filesys_init w False t = Some t'" using i(1) o(1) by (simp add: filesys_init_def)
  moreover have "bm_bits (free_map t') = bm_bits (free_map s)" using o(5) saved B' by (simp add: map_saved_stored)
  ultimately show ?thesis using o(3-5) i(3) B' by auto
qed

section \<open>Removing files\<close>

lemma core_inv_upd_inode:
  assumes "core_inv M F s" "\<And>i. sector (g i) = sector i \<and> data (g i) = data i \<and> deny_write_cnt (g i) = deny_write_cnt i" "0 < open_cnt (g (inodes s q))"
  shows "core_inv M F (upd_inode q g s)" "header (upd_inode q g s) = header s" "file_bytes (upd_inode q g s) = file_bytes s"
proof -
  let ?s = "upd_inode q g s"
  show h: "header ?s = header s" "file_bytes ?s = file_bytes s"
    by (simp_all add: header_def file_bytes_def dbyte_def upd_inode_def fun_eq_iff)
  note I = coreD [OF assms(1)]
  have eq: "sector (inodes ?s p) = sector (inodes s p)" "data (inodes ?s p) = data (inodes s p)" "deny_write_cnt (inodes ?s p) = deny_write_cnt (inodes s p)" for p
    using assms(2) by (simp_all add: upd_inode_def)
  have rest: "open_inodes ?s = open_inodes s" "next_addr ?s = next_addr s" "disk ?s = disk s" "free_map ?s = free_map s" "files ?s = files s"
    "free_map_file ?s = free_map_file s" by (simp_all add: upd_inode_def)
  have "0 < open_cnt (inodes ?s p)" if "p \<in> set (open_inodes s)" for p
    using inodes_okD(5) [OF I(9) that] assms(3) by (simp add: upd_inode_def)
  then have "inodes_ok F ?s" using I(9) unfolding inodes_ok_def eq h rest by blast
  moreover have "files_ok F ?s" using I(8) unfolding files_ok_def h rest header_ok_def by simp
  moreover have "map_file_ok ?s" if M using I(7) [OF that] unfolding map_file_ok_def eq h rest .
  moreover have "marked F ?s" if M using I(11) [OF that] unfolding marked_def h rest .
  ultimately show "core_inv M F ?s" using I unfolding core_inv_def disk_wf_def rest by simp
qed

text \<open>The last user of an inode is gone.\<close>

lemma drop_inode:
  assumes inv: "fs_inv F s" and p: "p \<in> set (open_inodes s)" "sector (inodes s p) \<noteq> FREE_MAP_SECTOR"
  defines "s' \<equiv> (upd_inode p (\<lambda>i. i\<lparr>open_cnt := 0\<rparr>) s)\<lparr>open_inodes := remove1 p (open_inodes s)\<rparr>"
  shows "fs_inv (F - {sector (inodes s p)}) s'" "set (open_inodes s') = set (open_inodes s) - {p}" "same_store s s'"
proof -
  note I = fs_invD [OF inv]
  have dist: "distinct (open_inodes s)" by (rule open_inodes_distinct [OF I(9)])
  show st: "same_store s s'" by (simp add: same_store_def upd_inode_def s'_def)
  show op: "set (open_inodes s') = set (open_inodes s) - {p}" using dist by (simp add: s'_def)
  have "inodes_ok F s'"
    by (rule inodes_ok_sub [OF I(9) st]) (use dist inodes_okD(5) [OF I(9)] in \<open>auto simp: upd_inode_def s'_def\<close>)
  then have F: "fs_inv F s'" using I(10) p by (intro fs_inv_store [OF inv st]) (auto simp: op map_file_ok_def)
  have "sector (inodes s q) \<noteq> sector (inodes s p)" if "q \<in> set (open_inodes s)" "q \<noteq> p" for q
    using I(9) that p(1) by (auto simp: inodes_ok_def distinct_map inj_on_def)
  then show "fs_inv (F - {sector (inodes s p)}) s'"
    by (intro fs_inv_shrink [OF F]) (use I(6) p(2) inodes_okD(3) [OF I(9)] op in \<open>auto simp: s'_def upd_inode_def\<close>)
qed

lemma release_extent_bits:
  assumes "sec < length B" "st + n \<le> length B" "x < length B"
  shows "set_range (set_range B sec 1 False) st n False ! x \<longleftrightarrow> B ! x \<and> x \<notin> insert sec {st ..< st + n}"
  using assms by (auto simp: nth_set_range)

lemma inode_close_removed:
  assumes inv: "fs_inv F s" and mem: "avail s = []" and q: "q \<in> set (open_inodes s)" "removed (inodes s q)" "open_cnt (inodes s q) = 1"
  defines "sec \<equiv> sector (inodes s q)"
  assumes sec: "sec \<noteq> FREE_MAP_SECTOR"
  shows "\<exists>s'. inode_close q s = Some s' \<and> fs_inv (F - {sec}) s' \<and> avail s' = [] \<and> keeps (F - {sec}) {FREE_MAP_SECTOR} s s' \<and> map_saved s' \<and>
    set (open_inodes s') = set (open_inodes s) - {q} \<and> (\<forall>p. p \<noteq> q \<longrightarrow> inodes s' p = inodes s p) \<and> files s' = files s \<and>
    (\<forall>x<length (disk s). bm_bits (free_map s') ! x \<longleftrightarrow> bm_bits (free_map s) ! x \<and> x \<notin> extent s sec)"
proof -
  note I = fs_invD [OF inv] and Q = inodes_okD [OF fs_invD(9) [OF inv] q(1)]
  let ?G = "F - {sec}" and ?d = "header s sec" and ?B = "bm_bits (free_map s)"
  let ?t = "(upd_inode q (\<lambda>i. i\<lparr>open_cnt := 0\<rparr>) s)\<lparr>open_inodes := remove1 q (open_inodes s)\<rparr>"
  note D = drop_inode [OF inv q(1), folded sec_def, OF sec]
  have t: "free_map ?t = free_map s" "disk ?t = disk s" "header ?t = header s" "avail ?t = []"
    using mem same_store_bytes(1) [OF D(3)] by (simp_all add: upd_inode_def)
  have secF: "sec \<in> F" using Q(3) by (simp add: sec_def)
  note fok = files_okD [OF I(8) secF]
  have dis: "extent s f \<inter> extent s sec = {}" if "f \<in> ?G" for f using files_okD(4) [OF I(8), of f sec] secF that by blast
  have hd: "first_sector ?d + bytes_to_sectors (len ?d) \<le> length (disk s)" using fok(2) by (simp add: header_ok_def)
  have one: "?B ! x" if "sec \<le> x" "x < sec + 1" for x
  proof -
    have "x = sec" using that by linarith
    then show ?thesis using markedD [OF inv secF, of sec] by simp
  qed
  have one': "{sec ..< sec + 1} = {sec}" by auto
  obtain t1 where r1: "free_map_release sec 1 ?t = Some t1" "fs_inv ?G t1" "avail t1 = []" "same_objects ?t t1"
    "\<forall>g\<in>?G. header t1 g = header s g" "\<forall>g\<in>?G. g \<noteq> FREE_MAP_SECTOR \<longrightarrow> file_bytes t1 g = file_bytes s g"
    "bm_bits (free_map t1) = set_range ?B sec 1 False"
    using free_map_release_inv [OF D(1) t(4), of sec 1] fok(1) dis one one' same_store_bytes(2) [OF D(3)]
    unfolding t(1-3) by (auto simp del: bm_bits_nth)
  note R1 = r1(4) [unfolded same_objects_def]
  have used: "bm_bits (free_map t1) ! x" if "x \<in> data_sectors ?d" for x
  proof -
    have "x < length ?B" using extent_bound [OF inv secF, of x] that I(5) by simp
    then show ?thesis using that fok(1,3) markedD [OF inv secF, of x] r1(7) I(5) by (auto simp: nth_set_range less_Suc_eq simp del: bm_bits_nth)
  qed
  obtain s' where r2: "free_map_release (first_sector ?d) (bytes_to_sectors (len ?d)) t1 = Some s'" "fs_inv ?G s'" "map_saved s'" "avail s' = []"
    "same_objects t1 s'" "\<forall>g\<in>?G. header s' g = header s g" "\<forall>g\<in>?G. g \<noteq> FREE_MAP_SECTOR \<longrightarrow> file_bytes s' g = file_bytes s g"
    "bm_bits (free_map s') = set_range (set_range ?B sec 1 False) (first_sector ?d) (bytes_to_sectors (len ?d)) False"
  proof -
    have "first_sector ?d + bytes_to_sectors (len ?d) \<le> length (disk t1)" using hd R1 by (simp add: upd_inode_def)
    moreover have "extent t1 f \<inter> {first_sector ?d ..< first_sector ?d + bytes_to_sectors (len ?d)} = {}" if "f \<in> ?G" for f
      using dis [OF that] r1(5) that by (auto simp: data_sectors_def)
    moreover have "bm_bits (free_map t1) ! x" if "first_sector ?d \<le> x" "x < first_sector ?d + bytes_to_sectors (len ?d)" for x
      using used that by (simp add: data_sectors_def del: bm_bits_nth)
    ultimately show thesis using free_map_release_inv [OF r1(2,3), of "first_sector ?d" "bytes_to_sectors (len ?d)"] r1(5-7) that by auto
  qed
  note R2 = r2(5) [unfolded same_objects_def]
  have "inodes t1 q = (inodes s q)\<lparr>open_cnt := 0\<rparr>" using R1 by (simp add: upd_inode_def)
  then have dq: "unat (start (data (inodes t1 q))) = first_sector ?d" "inode_length q t1 = len ?d"
    using Q(4) by (simp_all add: sec_def first_sector_def inode_length_def)
  have run: "inode_close q s = Some s'"
    using Q(1) q r1(1) r2(1) dq by (simp add: inode_close_def Let_def upd_inode_def sec_def)
  have "keeps ?G {FREE_MAP_SECTOR} s s'" using r2(6,7) by (auto simp: keeps_def)
  moreover have "set_range (set_range ?B sec 1 False) (first_sector ?d) (bytes_to_sectors (len ?d)) False ! x \<longleftrightarrow> ?B ! x \<and> x \<notin> extent s sec"
    if "x < length (disk s)" for x
    using release_extent_bits [of sec ?B "first_sector ?d" "bytes_to_sectors (len ?d)" x] fok(1) hd that I(5)
    by (simp add: data_sectors_def del: bm_bits_nth)
  ultimately show ?thesis using run r2(2-4,8) D(2) R1 R2 by (intro exI [of _ s']) (simp add: upd_inode_def del: bm_bits_nth)
qed

text \<open>Emptying the entry of a name.\<close>

lemma clear_entry:
  assumes inv: "fs_inv F s" and mem: "avail s = []" and p: "p \<in> set (open_inodes s)" "can_write s p" "sector (inodes s p) = ROOT_DIR_SECTOR"
    and wf: "dir_wf (root_ents s)" and j: "j < length (file_bytes s ROOT_DIR_SECTOR) div 20" "matches nm (root_ents s ! j)"
  shows "\<exists>s'. inode_write_at p (enc_entry ((root_ents s ! j)\<lparr>in_use := False\<rparr>)) (int sizeof_entry) (s32 (int (20 * j))) s = Some (int sizeof_entry, s') \<and>
    only_file F ROOT_DIR_SECTOR s s' \<and> dir_wf (root_ents s') \<and> root_names s' = (root_names s)(nm := None)"
proof -
  let ?e = "(root_ents s ! j)\<lparr>in_use := False\<rparr>"
  have io: "io_ok s p" "contents s p = file_bytes s ROOT_DIR_SECTOR" using open_inode_ok [OF inv p(1)] p(3) by simp_all
  have lj: "j < length (root_ents s)" using j(1) by (simp add: root_ents_def)
  have "root_ents s ! j \<in> set (entries (file_bytes s ROOT_DIR_SECTOR))" using lj by (simp add: root_ents_def)
  then have "length (e_name ?e) = 15" by (simp add: name_length)
  then obtain s' where w: "inode_write_at p (enc_entry ?e) (int sizeof_entry) (int (20 * j)) s = Some (int sizeof_entry, s')"
    "only_file F ROOT_DIR_SECTOR s s'" "root_ents s' = (root_ents s)[j := ?e]"
    using write_entry [OF inv mem p(1,2), of ?e j] j(1) unfolding p(3) root_ents_def by auto
  moreover have "s32 (int (20 * j)) = int (20 * j)" using next_offset(3) [OF io(1), of j] j(1) unfolding io(2) by simp
  ultimately show ?thesis using names_clear [OF wf lj j(2)] by auto
qed

text \<open>Marking an inode as removed, and closing it: its sectors are free once nobody has it open.\<close>

lemma remove_and_close:
  assumes inv: "fs_inv F s" and mem: "avail s = []" and op: "opened q r s" "inodes_ok F r" "q \<noteq> NULL"
  defines "sec \<equiv> sector (inodes s q)"
  assumes sec: "sec \<noteq> FREE_MAP_SECTOR"
  shows "\<exists>s1 s'. inode_remove q s = Some s1 \<and> inode_close q s1 = Some s' \<and> avail s' = [] \<and> files s' = files s \<and>
    set (open_inodes s') = set (open_inodes r) \<and>
    (\<forall>p\<in>set (open_inodes r). inodes s' p = (if p = q then (inodes r p)\<lparr>removed := True\<rparr> else inodes s p)) \<and>
    (if q \<in> set (open_inodes r) then fs_inv F s' \<and> keeps F {} s s' \<and> free_map s' = free_map s \<and> disk s' = disk s
     else fs_inv (F - {sec}) s' \<and> keeps (F - {sec}) {FREE_MAP_SECTOR} s s' \<and> map_saved s' \<and>
       (\<forall>x<length (disk s). bm_bits (free_map s') ! x \<longleftrightarrow> bm_bits (free_map s) ! x \<and> x \<notin> extent s sec))"
proof -
  let ?s1 = "upd_inode q (\<lambda>i. i\<lparr>removed := True\<rparr>) s"
  have q: "q \<in> set (open_inodes s)" using op(1) by (simp add: opened_def)
  have cnt: "0 < open_cnt (inodes s q)" by (rule inodes_okD(5) [OF fs_invD(9) [OF inv] q])
  note U = core_inv_upd_inode [OF inv, of "\<lambda>i. i\<lparr>removed := True\<rparr>" q]
  have inv1: "fs_inv F ?s1" and h1: "header ?s1 = header s" "file_bytes ?s1 = file_bytes s" using U cnt by simp_all
  have S1: "free_map ?s1 = free_map s" "disk ?s1 = disk s" "open_inodes ?s1 = open_inodes s" "files ?s1 = files s" "avail ?s1 = avail s"
    "inodes ?s1 = (inodes s)(q := (inodes s q)\<lparr>removed := True\<rparr>)" by (simp_all add: upd_inode_def)
  have rem: "inode_remove q s = Some ?s1" using op(3) by (simp add: inode_remove_def)
  show ?thesis
  proof (cases "q \<in> set (open_inodes r)")
    case False
    have c1: "open_cnt (inodes s q) = 1" using op(1) False by (simp add: opened_def)
    obtain s' where s': "inode_close q ?s1 = Some s'" "fs_inv (F - {sec}) s'" "avail s' = []" "keeps (F - {sec}) {FREE_MAP_SECTOR} ?s1 s'" "map_saved s'"
      "set (open_inodes s') = set (open_inodes s) - {q}" "\<And>p. p \<noteq> q \<Longrightarrow> inodes s' p = inodes s p" "files s' = files s"
      "\<forall>x<length (disk s). bm_bits (free_map s') ! x \<longleftrightarrow> bm_bits (free_map s) ! x \<and> x \<notin> extent s sec"
      using inode_close_removed [OF inv1, of q] mem q c1 sec unfolding h1 S1 sec_def by auto
    have "set (open_inodes s') = set (open_inodes r)" using s'(6) op(1) False by (auto simp: opened_def)
    moreover have "keeps (F - {sec}) {FREE_MAP_SECTOR} s s'" using s'(4) h1 by (simp add: keeps_def)
    moreover have "p \<noteq> q" if "p \<in> set (open_inodes r)" for p using that False by auto
    ultimately show ?thesis using rem s'(1-3,5,7-9) False by (intro exI [of _ ?s1] exI [of _ s']) (simp del: bm_bits_nth)
  next
    case True
    have i: "inodes s q = (inodes r q)\<lparr>open_cnt := open_cnt (inodes r q) + 1\<rparr>" "set (open_inodes s) = set (open_inodes r)"
      using op(1) True by (auto simp: opened_def)
    have c1: "0 < open_cnt (inodes r q)" by (rule inodes_okD(5) [OF op(2) True])
    let ?s' = "upd_inode q (\<lambda>i. i\<lparr>open_cnt := open_cnt i - 1\<rparr>) ?s1"
    note U' = core_inv_upd_inode [OF inv1, of "\<lambda>i. i\<lparr>open_cnt := open_cnt i - 1\<rparr>" q]
    have inv': "fs_inv F ?s'" and h': "header ?s' = header s" "file_bytes ?s' = file_bytes s"
      using U' i(1) c1 h1 S1(6) by simp_all
    have "open_cnt (inodes ?s' q) \<noteq> 0" using i(1) c1 by (simp add: upd_inode_def)
    then have "inode_close q ?s1 = Some ?s'" using op(3) by (simp add: inode_close_def Let_def)
    moreover have "inodes ?s' q = (inodes r q)\<lparr>removed := True\<rparr>" using i(1) by (simp add: upd_inode_def)
    ultimately show ?thesis using rem inv' h' mem i(2) True
      by (intro exI [of _ ?s1] exI [of _ ?s']) (auto simp: keeps_def upd_inode_def)
  qed
qed

lemma root_ok_remove:
  assumes root: "root_ok F s" and nm: "root_names s nm = Some sec" and wf: "dir_wf (root_ents s')"
    and names: "root_names s' = (root_names s)(nm := None)" and G: "F - {sec} \<subseteq> G"
    and op: "\<And>p. p \<in> set (open_inodes s') \<Longrightarrow> sector (inodes s' p) = ROOT_DIR_SECTOR \<Longrightarrow> can_write s' p \<and> \<not> removed (inodes s' p)"
  shows "root_ok G s'"
proof -
  have R: "ROOT_DIR_SECTOR \<in> F" "ran (root_names s) \<subseteq> F - {FREE_MAP_SECTOR, ROOT_DIR_SECTOR}" "inj_on (root_names s) (dom (root_names s))"
    using root by (simp_all add: root_ok_def)
  have s: "sec \<noteq> ROOT_DIR_SECTOR" using R(2) ranI [of "root_names s" nm sec] nm by auto
  have "ran (root_names s') \<subseteq> G - {FREE_MAP_SECTOR, ROOT_DIR_SECTOR}"
  proof
    fix x assume "x \<in> ran (root_names s')"
    then obtain a where a: "a \<noteq> nm" "root_names s a = Some x" unfolding names by (auto simp: ran_def split: if_splits)
    have "x \<noteq> sec" using R(3) a nm unfolding inj_on_def by (metis domI)
    then show "x \<in> G - {FREE_MAP_SECTOR, ROOT_DIR_SECTOR}" using R(2) ranI [of "root_names s" a x] a(2) G by auto
  qed
  moreover have "inj_on (root_names s') (dom (root_names s'))"
    using R(3) unfolding names inj_on_def by (auto split: if_splits)
  moreover have "ROOT_DIR_SECTOR \<in> G" using R(1) s G by blast
  ultimately show ?thesis using wf op by (simp add: root_ok_def)
qed

lemma sector_unique:
  "inodes_ok F s \<Longrightarrow> p \<in> set (open_inodes s) \<Longrightarrow> q \<in> set (open_inodes s) \<Longrightarrow> sector (inodes s p) = sector (inodes s q) \<longleftrightarrow> p = q"
  unfolding inodes_ok_def distinct_map inj_on_def by metis

lemma already_open:
  assumes d: "opened d s s1" and same: "inodes s2 = inodes s1" "open_inodes s2 = open_inodes s1"
    and q: "opened q s2 s4" "sector (inodes s4 q) = sec" "q \<noteq> d" "inodes_ok F s4"
  shows "p \<in> set (open_inodes s) \<Longrightarrow> sector (inodes s p) = sec \<longleftrightarrow> p = q"
    "(\<exists>p\<in>set (open_inodes s). sector (inodes s p) = sec) \<longleftrightarrow> q \<in> set (open_inodes s2)"
proof -
  have o2: "set (open_inodes s2) = insert d (set (open_inodes s))" using d same by (simp add: opened_def)
  have *: "sector (inodes s p) = sec \<longleftrightarrow> p = q" if "p \<in> set (open_inodes s)" for p
  proof -
    have in4: "p \<in> set (open_inodes s4)" "q \<in> set (open_inodes s4)" using q(1) o2 that by (auto simp: opened_def)
    have "sector (inodes s4 p) = sector (inodes s2 p)" using q(1) that o2 by (auto simp: opened_def)
    moreover have "sector (inodes s2 p) = sector (inodes s p)" using d same that by (simp add: opened_def)
    ultimately show ?thesis using sector_unique [OF q(4) in4] q(2) by simp
  qed
  then show "p \<in> set (open_inodes s) \<Longrightarrow> sector (inodes s p) = sec \<longleftrightarrow> p = q" .
  show "(\<exists>p\<in>set (open_inodes s). sector (inodes s p) = sec) \<longleftrightarrow> q \<in> set (open_inodes s2)" using * o2 q(3) by auto
qed

text \<open>What is left of the open inodes when the file in sector \<open>sec\<close> is removed.\<close>

definition open_after_remove :: "nat \<Rightarrow> fs \<Rightarrow> fs \<Rightarrow> bool" where
  "open_after_remove sec s s' \<longleftrightarrow> set (open_inodes s') = set (open_inodes s) \<and>
     (\<forall>p\<in>set (open_inodes s). inodes s' p = (inodes s p)\<lparr>removed := removed (inodes s p) \<or> sector (inodes s p) = sec\<rparr>)"

lemma open_after_removeI:
  assumes ok: "inodes_ok F s" and d: "opened d s s1" and same: "inodes s2 = inodes s1" "open_inodes s2 = open_inodes s1"
    and q: "opened q s2 s4" "sector (inodes s4 q) = sec" "q \<noteq> d" "inodes_ok F s4"
    and rem: "set (open_inodes s6) = set (open_inodes s2)"
      "\<forall>p\<in>set (open_inodes s2). inodes s6 p = (if p = q then (inodes s2 p)\<lparr>removed := True\<rparr> else inodes s4 p)"
    and cl: "closed d s6 s7"
  shows "open_after_remove sec s s7"
proof -
  have o2: "set (open_inodes s2) = insert d (set (open_inodes s))" using d same by (simp add: opened_def)
  have i2: "inodes s2 p = (if p = d then (inodes s p)\<lparr>open_cnt := open_cnt (inodes s p) + 1\<rparr> else inodes s p)" if "p \<in> set (open_inodes s)" for p
    using d same that by (simp add: opened_def)
  have i6: "inodes s6 p = (if p = q then (inodes s2 p)\<lparr>removed := True\<rparr> else inodes s2 p)" if "p \<in> set (open_inodes s2)" for p
    using rem(2) q(1) that by (auto simp: opened_def)
  note sec = already_open(1) [OF d same q]
  have d6: "inodes s6 d = inodes s2 d" using i6 [of d] o2 q(3) by simp
  have cd: "open_cnt (inodes s2 d) = 1 \<longleftrightarrow> d \<notin> set (open_inodes s)"
    using d same i2 [of d] inodes_okD(5) [OF ok, of d] by (auto simp: opened_def)
  have "set (open_inodes s7) = set (open_inodes s)" using cl rem(1) o2 d6 cd by (auto simp: closed_def)
  moreover have "inodes s7 p = (inodes s p)\<lparr>removed := removed (inodes s p) \<or> sector (inodes s p) = sec\<rparr>" if "p \<in> set (open_inodes s)" for p
    using cl i6 [of p] i2 [OF that] o2 that sec [OF that] q(3) d6 by (auto simp: closed_def)
  ultimately show ?thesis by (simp add: open_after_remove_def)
qed

lemma filesys_remove_inv:
  assumes ok: "fs_ok F s" and mem: "avail s = []"
  shows "\<exists>r s'. filesys_remove nm s = Some (r, s') \<and> avail s' = [] \<and> files s' = files s \<and>
    (case root_names s nm of
       None \<Rightarrow> \<not> r \<and> fs_ok F s' \<and> disk s' = disk s \<and> same_open s s' \<and> free_map s' = free_map s
     | Some sec \<Rightarrow> r \<and> root_names s' = (root_names s)(nm := None) \<and> open_after_remove sec s s' \<and>
         (if \<exists>p\<in>set (open_inodes s). sector (inodes s p) = sec
          then fs_ok F s' \<and> keeps F {ROOT_DIR_SECTOR} s s' \<and> free_map s' = free_map s
          else fs_ok (F - {sec}) s' \<and> keeps (F - {sec}) {FREE_MAP_SECTOR, ROOT_DIR_SECTOR} s s' \<and> map_saved s' \<and>
            (\<forall>x<length (disk s). bm_bits (free_map s') ! x \<longleftrightarrow> bm_bits (free_map s) ! x \<and> x \<notin> extent s sec)))"
proof -
  have inv: "fs_inv F s" and root: "root_ok F s" using ok by (simp_all add: fs_ok_def)
  note I = fs_invD [OF inv]
  obtain d s1 where d: "dir_open_root s = Some (Some d, s1)" "fs_inv F s1" "avail s1 = []" "same_store s s1" "opened (dir_inode d) s s1"
    and p: "dir_inode d \<in> set (open_inodes s1)" "sector (inodes s1 (dir_inode d)) = ROOT_DIR_SECTOR" "can_write s1 (dir_inode d)"
      "\<not> removed (inodes s1 (dir_inode d))"
    using dir_open_root_inv [OF ok mem] by auto
  note B1 = store_root_ents [OF d(4)]
  have wf1: "dir_wf (root_ents s1)" using root B1 by (simp add: root_ok_def)
  obtain r s2 where r: "lookup (dir_inode d) nm s1 = Some (r, s2)" "same_io s1 s2" "fs_inv F s2" "avail s2 = []"
    "case r of None \<Rightarrow> root_names s nm = None
     | Some (e, ofs) \<Rightarrow> root_names s nm = Some (unat (inode_sector e)) \<and>
        (\<exists>j < length (file_bytes s ROOT_DIR_SECTOR) div 20. ofs = 20 * j \<and> e = root_ents s ! j \<and> matches nm e)"
    using root_lookup [OF d(2,3) p(1,2) wf1, of nm] unfolding B1 same_store_bytes(2) [OF d(4)] by blast
  note R = same_ioD [OF r(2)]
  have st2: "same_store s s2" by (rule same_store_trans [OF d(4) same_io_store [OF r(2)]])
  show ?thesis
  proof (cases r)
    case None
    obtain s' where c: "dir_close (Some d) s2 = Some s'" "fs_inv F s'" "avail s' = avail s2" "same_store s2 s'" "closed (dir_inode d) s2 s'"
      using dir_close_inv [OF r(3), of d] p R by auto
    have so: "same_open s s'" by (rule opened_closed [OF I(9) d(5) R(2,6) c(5)])
    have st: "same_store s s'" by (rule same_store_trans [OF st2 c(4)])
    have "fs_ok F s'" using c(2) root_ok_same_open [OF root store_root_ents [OF st] so] by (simp add: fs_ok_def)
    moreover have "filesys_remove nm s = Some (False, s')" using d(1) r(1) None c(1) by (simp add: filesys_remove_def dir_remove_def)
    ultimately show ?thesis using None r(4,5) c(3) so st by (intro exI [of _ False] exI [of _ s']) (simp add: same_store_def)
  next
    case (Some x)
    then obtain e j where e: "r = Some (e, 20 * j)" "root_names s nm = Some (unat (inode_sector e))" "j < length (file_bytes s ROOT_DIR_SECTOR) div 20"
      "e = root_ents s ! j" "matches nm e" using r(5) by (cases x) auto
    define sec where "sec = unat (inode_sector e)"
    have nm: "root_names s nm = Some sec" using e(2) by (simp add: sec_def)
    have sec: "sec \<in> F" "sec \<noteq> ROOT_DIR_SECTOR" "sec \<noteq> FREE_MAP_SECTOR" using root ranI [of "root_names s" nm sec] nm by (auto simp: root_ok_def)
    obtain q s3 where q: "inode_open sec s2 = Some (q, s3)" "q \<noteq> NULL" "sector (inodes s3 q) = sec" "fs_inv F s3" "avail s3 = []"
      "same_store s2 s3" "opened q s2 s3" using inode_open_inv [OF r(3,4) sec(1)] by blast
    have st3: "same_store s s3" by (rule same_store_trans [OF st2 q(6)])
    note B3 = store_root_ents [OF st3] and H3 = same_store_bytes [OF st3]
    have lt: "dir_inode d < next_addr s2" using inodes_okD(2) [OF fs_invD(9) [OF d(2)] p(1)] R(7) by simp
    have P3: "dir_inode d \<in> set (open_inodes s3)" "sector (inodes s3 (dir_inode d)) = ROOT_DIR_SECTOR" "can_write s3 (dir_inode d)"
      "\<not> removed (inodes s3 (dir_inode d))"
      using p R(2,6) q(6,7) lt by (auto simp: opened_def same_store_def can_write_def)
    have ne: "q \<noteq> dir_inode d" using P3(2) q(3) sec(2) by auto
    obtain s4 where w: "inode_write_at (dir_inode d) (enc_entry (e\<lparr>in_use := False\<rparr>)) (int sizeof_entry) (s32 (int (20 * j))) s3 = Some (int sizeof_entry, s4)"
      "only_file F ROOT_DIR_SECTOR s3 s4" "dir_wf (root_ents s4)" "root_names s4 = (root_names s)(nm := None)"
      using clear_entry [OF q(4,5) P3(1,3,2), of j nm] wf1 B1 e(3-5) unfolding B3 H3 by auto
    have W: "same_fs s3 s4" "fs_inv F s4" "avail s4 = []" "keeps F {ROOT_DIR_SECTOR} s s4"
      using w(2) H3 by (simp_all add: only_file_def keeps_def)
    note F4 = same_fsD [OF W(1)]
    have op4: "opened q s2 s4" using q(7) F4 by (simp add: opened_def)
    have sq: "sector (inodes s4 q) = sec" using q(3) F4 by simp
    obtain s5 s6 where x: "inode_remove q s4 = Some s5" "inode_close q s5 = Some s6" "avail s6 = []" "files s6 = files s4"
      "set (open_inodes s6) = set (open_inodes s2)"
      "\<forall>p\<in>set (open_inodes s2). inodes s6 p = (if p = q then (inodes s2 p)\<lparr>removed := True\<rparr> else inodes s4 p)"
      "if q \<in> set (open_inodes s2) then fs_inv F s6 \<and> keeps F {} s4 s6 \<and> free_map s6 = free_map s4 \<and> disk s6 = disk s4
       else fs_inv (F - {sec}) s6 \<and> keeps (F - {sec}) {FREE_MAP_SECTOR} s4 s6 \<and> map_saved s6 \<and>
         (\<forall>x<length (disk s4). bm_bits (free_map s6) ! x \<longleftrightarrow> bm_bits (free_map s4) ! x \<and> x \<notin> extent s4 sec)"
      using remove_and_close [OF W(2,3) op4 fs_invD(9) [OF r(3)] q(2)] sec(3) unfolding sq by blast
    define G where "G = (if q \<in> set (open_inodes s2) then F else F - {sec})"
    have inv6: "fs_inv G s6" using x(7) by (simp add: G_def split: if_splits)
    have d6: "dir_inode d \<in> set (open_inodes s6)" "inodes s6 (dir_inode d) = inodes s3 (dir_inode d)"
      using x(5,6) p(1) R(6) ne F4 by auto
    obtain s' where c: "dir_close (Some d) s6 = Some s'" "fs_inv G s'" "avail s' = avail s6" "same_store s6 s'" "closed (dir_inode d) s6 s'"
      using dir_close_inv [OF inv6 d6(1)] P3 unfolding d6(2) by auto
    have run: "filesys_remove nm s = Some (True, s')"
      using d(1) r(1) e(1) q(1,2) w(1) x(1,2) c(1) by (simp add: filesys_remove_def dir_remove_def sec_def)
    have oar: "open_after_remove sec s s'"
      by (rule open_after_removeI [OF I(9) d(5) R(2,6) op4 sq ne fs_invD(9) [OF W(2)] x(5,6) c(5)])
    have k6: "keeps G {FREE_MAP_SECTOR} s4 s6" "root_ents s6 = root_ents s4"
      using x(7) sec(2) root unfolding G_def keeps_def root_ents_def by (auto simp: root_ok_def split: if_splits)
    have ents: "root_ents s' = root_ents s4" using store_root_ents [OF c(4)] k6(2) by simp
    have "root_ok G s'"
      by (rule root_ok_remove [OF root nm]) (use w(3,4) ents oar sec(2) root in \<open>auto simp: G_def root_ok_def open_after_remove_def can_write_def\<close>)
    then have okG: "fs_ok G s'" using c(2) by (simp add: fs_ok_def)
    have busy: "(\<exists>p\<in>set (open_inodes s). sector (inodes s p) = sec) \<longleftrightarrow> q \<in> set (open_inodes s2)"
      by (rule already_open(2) [OF d(5) R(2,6) op4 sq ne fs_invD(9) [OF W(2)]])
    have "keeps F {ROOT_DIR_SECTOR} s s' \<and> free_map s' = free_map s" if "q \<in> set (open_inodes s2)"
      using keeps_files_trans [OF keeps_files_trans [OF W(4), of "{}" s6] keeps_store [OF c(4)]] x(7) that c(4) F4 st3 by (simp add: same_store_def)
    moreover have "keeps (F - {sec}) {FREE_MAP_SECTOR, ROOT_DIR_SECTOR} s s' \<and> map_saved s' \<and>
        (\<forall>x<length (disk s). bm_bits (free_map s') ! x \<longleftrightarrow> bm_bits (free_map s) ! x \<and> x \<notin> extent s sec)" if "q \<notin> set (open_inodes s2)"
    proof -
      have "header s4 sec = header s sec" using W(4) sec(1) by (simp add: keeps_def)
      moreover have "length (disk s4) = length (disk s)" "free_map s4 = free_map s" using F4 st3 by (simp_all add: same_store_def)
      moreover have "keeps (F - {sec}) {ROOT_DIR_SECTOR} s s4" by (rule keeps_mono [OF W(4)]) auto
      then have "keeps (F - {sec}) {FREE_MAP_SECTOR, ROOT_DIR_SECTOR} s s'"
        using keeps_files_trans [OF keeps_files_trans [OF _ k6(1)] keeps_store [OF c(4)]] that by (simp add: G_def)
      ultimately show ?thesis using x(7) that same_store_bytes [OF c(4)] c(4) by (simp add: same_store_def del: bm_bits_nth)
    qed
    ultimately have "if \<exists>p\<in>set (open_inodes s). sector (inodes s p) = sec
        then fs_ok F s' \<and> keeps F {ROOT_DIR_SECTOR} s s' \<and> free_map s' = free_map s
        else fs_ok (F - {sec}) s' \<and> keeps (F - {sec}) {FREE_MAP_SECTOR, ROOT_DIR_SECTOR} s s' \<and> map_saved s' \<and>
          (\<forall>x<length (disk s). bm_bits (free_map s') ! x \<longleftrightarrow> bm_bits (free_map s) ! x \<and> x \<notin> extent s sec)"
      using okG unfolding busy G_def by presburger
    moreover have "files s' = files s" "root_names s' = (root_names s)(nm := None)" using x(4) c(4) F4 st3 ents w(4) by (simp_all add: same_store_def)
    ultimately show ?thesis unfolding nm option.case using run x(3) c(3) oar by (intro exI [of _ True] exI [of _ s']) (simp only: simp_thms)
  qed
qed

section \<open>Correctness of the file system\<close>

text \<open>A disk of sixteen sectors and a kernel that has just started.\<close>

definition blank_disk :: fs where
  "blank_disk = \<lparr>disk = replicate 16 (replicate 512 7), free_map = \<lparr>bit_cnt = 0, bits = []\<rparr>, free_map_file = NULL, open_inodes = [],
     inodes = (\<lambda>_. \<lparr>sector = 0, open_cnt = 0, removed = False, deny_write_cnt = 0, data = \<lparr>start = 0, len = 0, dmagic = 0\<rparr>\<rparr>),
     files = (\<lambda>_. \<lparr>file_inode = NULL, pos = 0, deny_write = False\<rparr>), avail = [], next_addr = 1\<rparr>"

lemma blank_start: "fresh_start [0xFFFF] blank_disk" "3 + map_sectors (length (disk blank_disk)) \<le> length (disk blank_disk)" "disk blank_disk = replicate 16 (replicate 512 7)"
  by (simp_all add: fresh_start_def blank_disk_def disk_wf_def elem_cnt_def size_add_def ELEM_BITS_def map_sectors_def byte_cnt_def
      bytes_to_sectors_eq [of 4, simplified])

text \<open>
  C10 Formatting. On a disk of any size with room for the free map and one more sector, whatever it contains, \<^verbatim>\<open>filesys_init\<close> with formatting
  returns, establishes the invariant with the two special files, an empty root directory of sixteen entries, and the free map on the disk.
\<close>

theorem filesys_init_formats:
  assumes "fresh_start w s" "3 + map_sectors (length (disk s)) \<le> length (disk s)"
  shows "\<exists>s'. filesys_init w True s = Some s' \<and> fs_ok {FREE_MAP_SECTOR, ROOT_DIR_SECTOR} s' \<and> root_names s' = Map.empty \<and>
    length (root_ents s') = 16 \<and> map_saved s'"
  using filesys_init_format [OF assms] by blast

theorem filesys_init_formats_witness:
  "\<exists>s'. filesys_init [0xFFFF] True blank_disk = Some s' \<and> fs_ok {FREE_MAP_SECTOR, ROOT_DIR_SECTOR} s' \<and> root_names s' = Map.empty"
  using filesys_init_formats [OF blank_start(1,2)] by blast

text \<open>A file of 600 bytes on that disk: of the thirteen sectors left, two next to each other are free whichever are taken.\<close>

lemma two_free:
  assumes "a < 16" "b < 16"
  shows "\<exists>i. group_at (set_range (set_range (set_range (True # True # replicate 14 False) 2 1 True) a 1 True) b 1 True) 2 False i"
proof -
  let ?B = "True # True # replicate 14 False"
  have free: "group_at (set_range (set_range (set_range ?B 2 1 True) a 1 True) b 1 True) 2 False i"
    if "a \<notin> {i, i + 1}" "b \<notin> {i, i + 1}" "3 \<le> i" "i < 15" for i
  proof -
    have nth: "?B ! k = False" if "3 \<le> k" "k < 16" for k using that by (auto simp: nth_Cons split: nat.splits)
    show ?thesis using that assms by (auto simp: group_at_def nth_set_range nth)
  qed
  have "\<exists>i\<in>{4, 6, 8 :: nat}. a \<notin> {i, i + 1} \<and> b \<notin> {i, i + 1}" by auto
  then obtain i where "i \<in> {4, 6, 8 :: nat}" "a \<notin> {i, i + 1}" "b \<notin> {i, i + 1}" by blast
  then show ?thesis using free [of i] by auto
qed

lemma demo_created:
  "\<exists>s0 s F sec. filesys_init [0xFFFF] True blank_disk = Some s0 \<and> filesys_create (replicate 20 0) [97, 98] 600 s0 = Some (True, s) \<and>
    fs_ok F s \<and> avail s = [] \<and> map_saved s \<and> root_names s [97, 98] = Some sec \<and> file_bytes s sec = replicate 600 0"
proof -
  let ?B = "True # True # replicate 14 False"
  have ms: "map_sectors 16 = 1" by (simp add: map_sectors_def byte_cnt_def elem_cnt_def size_add_def ELEM_BITS_def bytes_to_sectors_eq [of 4, simplified])
  obtain s0 st where i: "filesys_init [0xFFFF] True blank_disk = Some s0" "fs_ok {FREE_MAP_SECTOR, ROOT_DIR_SECTOR} s0" "root_names s0 = Map.empty"
    "avail s0 = []" "length (disk s0) = 16" "length (root_ents s0) = 16" "\<forall>e\<in>set (root_ents s0). \<not> in_use e" "st < 16"
    "bm_bits (free_map s0) = set_range (set_range ?B 2 1 True) st 1 True"
    using filesys_init_format [OF blank_start(1,2)] unfolding blank_start(3) length_replicate ms by auto
  have n: "bytes_to_sectors 600 = 2" using bytes_to_sectors_eq [of 600] by simp
  have two: "\<exists>i. group_at (set_range (bm_bits (free_map s0)) sec 1 True) 2 False i" if "sec < 16" for sec
    using two_free [OF i(8) that] unfolding i(9) .
  then obtain k where "group_at (set_range (bm_bits (free_map s0)) st 1 True) 2 False k" using i(8) by blast
  then have "group_at (bm_bits (free_map s0)) 1 False k" using i(8) unfolding i(9) by (auto simp: group_at_def nth_set_range split: if_splits)
  moreover obtain e where "e \<in> set (root_ents s0)" "\<not> in_use e" using i(6,7) by (cases "root_ents s0") auto
  moreover have prem: "0 \<notin> set [97, 98 :: u8]" "length (replicate 20 (0 :: u8)) = 20" "0 \<le> (600 :: int)" "(600 :: int) \<le> 2 ^ 31 - 512" by simp_all
  obtain r s' where r: "filesys_create (replicate 20 0) [97, 98] 600 s0 = Some (r, s')" "avail s' = []"
    and t: "r \<Longrightarrow> map_saved s' \<and> (\<exists>sec. fs_ok (insert sec {FREE_MAP_SECTOR, ROOT_DIR_SECTOR}) s' \<and>
      root_names s' = (root_names s0)([97, 98] \<mapsto> sec) \<and> file_bytes s' sec = replicate (nat 600) 0)"
    and f: "\<not> r \<Longrightarrow> [97, 98 :: u8] = [] \<or> length [97, 98 :: u8] > NAME_MAX \<or> root_names s0 [97, 98] \<noteq> None \<or> (\<forall>e\<in>set (root_ents s0). in_use e) \<or>
      (\<forall>i. \<not> group_at (bm_bits (free_map s0)) 1 False i) \<or>
      (\<exists>sec<length (disk s0). \<forall>i. \<not> group_at (set_range (bm_bits (free_map s0)) sec 1 True) (bytes_to_sectors 600) False i)"
    using filesys_create_inv [OF i(2,4) prem] by (metis (no_types, lifting))
  ultimately have "r" using two i(3) unfolding i(5) n NAME_MAX_def by auto
  then obtain sec where "map_saved s'" "fs_ok (insert sec {FREE_MAP_SECTOR, ROOT_DIR_SECTOR}) s'" "root_names s' [97, 98] = Some sec"
    "file_bytes s' sec = replicate 600 0" using t by auto
  then show ?thesis using i(1) r eqTrueI [OF \<open>r\<close>]
    by (intro exI [of _ s0] exI [of _ s'] exI [of _ "insert sec {FREE_MAP_SECTOR, ROOT_DIR_SECTOR}"] exI [of _ sec]) simp
qed

text \<open>
  C7 Creating a file. With memory available \<^verbatim>\<open>filesys_create\<close> returns for every name and size. When it reports success, the name was valid and
  new, the root directory has it in addition, for a file of zeros of that size in sectors that no other file uses, the free map on the disk is
  up to date, and the invariant holds with the new file. When it reports failure, the names are as before, and one of the reasons the code
  knows holds. In both cases all other files keep their contents, and what is open stays open.
\<close>

theorem filesys_create_correct:
  assumes "fs_ok F s" "avail s = []" "0 \<notin> set nm" "length e0 = 20" "0 \<le> l" "l \<le> 2 ^ 31 - 512"
  shows "\<exists>r s'. filesys_create e0 nm l s = Some (r, s') \<and> same_open s s' \<and> files s' = files s \<and>
    keeps F {FREE_MAP_SECTOR, ROOT_DIR_SECTOR} s s' \<and>
    (if r then nm \<noteq> [] \<and> length nm \<le> NAME_MAX \<and> root_names s nm = None \<and> map_saved s' \<and>
        (\<exists>sec. sec \<notin> F \<and> fs_ok (insert sec F) s' \<and> root_names s' = (root_names s)(nm \<mapsto> sec) \<and> file_bytes s' sec = replicate (nat l) 0)
     else fs_ok F s' \<and> root_names s' = root_names s \<and>
        (nm = [] \<or> length nm > NAME_MAX \<or> root_names s nm \<noteq> None \<or> (\<forall>e\<in>set (root_ents s). in_use e) \<or>
         (\<forall>i. \<not> group_at (bm_bits (free_map s)) 1 False i) \<or>
         (\<exists>sec<length (disk s). \<forall>i. \<not> group_at (set_range (bm_bits (free_map s)) sec 1 True) (bytes_to_sectors l) False i)))"
  using filesys_create_inv [OF assms] by blast

theorem filesys_create_correct_witness:
  "\<exists>s s'. filesys_init [0xFFFF] True blank_disk = Some s \<and> filesys_create (replicate 20 0) [97, 98] 600 s = Some (True, s') \<and>
    map_saved s' \<and> (\<exists>sec. root_names s' = (root_names s)([97, 98] \<mapsto> sec) \<and> file_bytes s' sec = replicate 600 0)"
proof -
  obtain s s' where s: "filesys_init [0xFFFF] True blank_disk = Some s" "filesys_create (replicate 20 0) [97, 98] 600 s = Some (True, s')"
    using demo_created by blast
  moreover have "fs_ok {FREE_MAP_SECTOR, ROOT_DIR_SECTOR} s" "avail s = []" using filesys_init_format [OF blank_start(1,2)] s(1) by auto
  ultimately show ?thesis using filesys_create_correct [of _ s "[97, 98]" "replicate 20 0" 600] by fastforce
qed

text \<open>
  C11 Opening a file by name. When the root directory has the name, \<^verbatim>\<open>filesys_open\<close> returns an open file at position 0 and reading from it delivers the
  bytes of the file with that name, whatever else is open; when it does not, the result is the null pointer. The invariant is kept and the disk is
  not changed.
\<close>

theorem filesys_open_reads:
  assumes "fs_ok F s" "avail s = []"
  shows "\<exists>f s'. filesys_open nm s = Some (f, s') \<and> fs_ok F s' \<and> disk s' = disk s \<and>
    (case root_names s nm of None \<Rightarrow> f = NULL \<and> same_open s s'
     | Some sec \<Rightarrow> f \<noteq> NULL \<and> (\<exists>s''. file_read f (int z) s' = Some (take z (file_bytes s sec), s'') \<and> disk s'' = disk s))"
proof -
  obtain f s' where f: "filesys_open nm s = Some (f, s')" "fs_ok F s'" "avail s' = []" "disk s' = disk s"
    "case root_names s nm of
       None \<Rightarrow> f = NULL \<and> same_open s s' \<and> files s' = files s
     | Some sec \<Rightarrow> f \<noteq> NULL \<and> f \<ge> next_addr s \<and> (\<exists>p. p \<in> set (open_inodes s') \<and> sector (inodes s' p) = sec \<and> opened p s s' \<and>
         files s' = (files s)(f := \<lparr>file_inode = p, pos = 0, deny_write = False\<rparr>))"
    using filesys_open_inv [OF assms, of nm] by blast
  show ?thesis
  proof (cases "root_names s nm")
    case None
    then show ?thesis using f by simp
  next
    case (Some sec)
    then obtain p where p: "f \<noteq> NULL" "p \<in> set (open_inodes s')" "sector (inodes s' p) = sec"
      "files s' f = \<lparr>file_inode = p, pos = 0, deny_write = False\<rparr>" using f(5) by auto
    have inv: "fs_inv F s'" using f(2) by (simp add: fs_ok_def)
    have c: "io_ok s' p" "contents s' p = file_bytes s sec"
      using open_inode_ok [OF inv p(2)] p(3) f(4) by (simp_all add: file_bytes_def header_def dbyte_def)
    obtain s2 where "inode_read_at p (int z) 0 s' = Some (take z (file_bytes s sec), s2)" "same_io s' s2"
      using inode_read_at_bytes [OF c(1), of 0 z] f(3) c(2) by auto
    then show ?thesis using f(1,2,4) p(1,4) Some same_ioD(1) [of s' s2] by (auto simp: file_read_def upd_file_def)
  qed
qed


theorem filesys_open_reads_witness:
  "\<exists>s0 s f s' s''. filesys_init [0xFFFF] True blank_disk = Some s0 \<and> filesys_create (replicate 20 0) [97, 98] 600 s0 = Some (True, s) \<and>
    filesys_open [97, 98] s = Some (f, s') \<and> f \<noteq> NULL \<and> file_read f (int 100) s' = Some (replicate 100 0, s'')"
proof -
  obtain s0 s F sec where s: "filesys_init [0xFFFF] True blank_disk = Some s0" "filesys_create (replicate 20 0) [97, 98] 600 s0 = Some (True, s)"
    "fs_ok F s" "avail s = []" "root_names s [97, 98] = Some sec" "file_bytes s sec = replicate 600 0" using demo_created by blast
  then show ?thesis using filesys_open_reads [OF s(3,4), of "[97, 98]" 100] by auto
qed

text \<open>
  C8 Removing a file. When the root directory has the name, \<^verbatim>\<open>filesys_remove\<close> succeeds and the name is gone, with all other names as before. If the
  file is open, it keeps its sectors and its contents and its inode is marked; if not, exactly its sectors become free, in memory and on the disk,
  and the invariant holds without it. All other files keep their contents. A name that is not there is reported and nothing changes.
\<close>

theorem filesys_remove_correct:
  assumes "fs_ok F s" "avail s = []"
  shows "\<exists>r s'. filesys_remove nm s = Some (r, s') \<and> files s' = files s \<and>
    (case root_names s nm of
       None \<Rightarrow> \<not> r \<and> fs_ok F s' \<and> disk s' = disk s \<and> same_open s s' \<and> free_map s' = free_map s
     | Some sec \<Rightarrow> r \<and> root_names s' = (root_names s)(nm := None) \<and> open_after_remove sec s s' \<and>
         (if \<exists>p\<in>set (open_inodes s). sector (inodes s p) = sec
          then fs_ok F s' \<and> keeps F {ROOT_DIR_SECTOR} s s' \<and> free_map s' = free_map s
          else fs_ok (F - {sec}) s' \<and> keeps (F - {sec}) {FREE_MAP_SECTOR, ROOT_DIR_SECTOR} s s' \<and> map_saved s' \<and>
            (\<forall>x<length (disk s). bm_bits (free_map s') ! x \<longleftrightarrow> bm_bits (free_map s) ! x \<and> x \<notin> extent s sec)))"
  using filesys_remove_inv [OF assms, of nm] by blast

theorem filesys_remove_correct_witness:
  "\<exists>s0 s s'. filesys_init [0xFFFF] True blank_disk = Some s0 \<and> filesys_create (replicate 20 0) [97, 98] 600 s0 = Some (True, s) \<and>
    root_names s [97, 98] \<noteq> None \<and> filesys_remove [97, 98] s = Some (True, s') \<and> root_names s' = (root_names s)([97, 98] := None)"
proof -
  obtain s0 s F sec where s: "filesys_init [0xFFFF] True blank_disk = Some s0" "filesys_create (replicate 20 0) [97, 98] 600 s0 = Some (True, s)"
    "fs_ok F s" "avail s = []" "root_names s [97, 98] = Some sec" using demo_created by blast
  then show ?thesis using filesys_remove_correct [OF s(3,4), of "[97, 98]"] by auto
qed

text \<open>
  C9 Restarting. When a kernel starts on the disk that another one left, without formatting, \<^verbatim>\<open>filesys_init\<close> loads the same free map, and finds the
  same names for the same files with the same contents; the invariant holds.
\<close>

theorem filesys_restart:
  assumes "fs_ok F s" "map_saved s" "fresh_start w t" "disk t = disk s"
  shows "\<exists>t'. filesys_init w False t = Some t' \<and> fs_ok F t' \<and> disk t' = disk s \<and> bm_bits (free_map t') = bm_bits (free_map s) \<and>
    root_names t' = root_names s \<and> file_bytes t' = file_bytes s"
  using filesys_init_mount [OF assms] by blast

theorem filesys_restart_witness:
  "\<exists>s0 s w t'. filesys_init [0xFFFF] True blank_disk = Some s0 \<and> filesys_create (replicate 20 0) [97, 98] 600 s0 = Some (True, s) \<and>
    filesys_init w False (blank_disk\<lparr>disk := disk s\<rparr>) = Some t' \<and> (\<exists>sec. root_names t' [97, 98] = Some sec \<and> file_bytes t' sec = replicate 600 0)"
proof -
  obtain s0 s F sec where s: "filesys_init [0xFFFF] True blank_disk = Some s0" "filesys_create (replicate 20 0) [97, 98] 600 s0 = Some (True, s)"
    "fs_ok F s" "map_saved s" "root_names s [97, 98] = Some sec" "file_bytes s sec = replicate 600 0" using demo_created by blast
  have inv: "fs_inv F s" "ROOT_DIR_SECTOR \<in> F" using s(3) by (simp_all add: fs_ok_def root_ok_def)
  note I = fs_invD [OF inv(1)]
  have "1 < length (disk s)" using files_okD(1) [OF I(8) inv(2)] by (simp add: ROOT_DIR_SECTOR_def)
  then have "fresh_start (replicate (elem_cnt (length (disk s))) 0) (blank_disk\<lparr>disk := disk s\<rparr>)"
    using I(1,2) by (simp add: fresh_start_def blank_disk_def disk_wf_def)
  then show ?thesis using filesys_restart [OF s(3,4)] s by fastforce
qed

section \<open>Two defects\<close>

text \<open>
  A failed allocation of the bounce buffer looks like the end of the file to the search of a directory: whatever name is looked for, it is not
  found. The comment in \<^verbatim>\<open>dir_add\<close> says that such short reads do not occur.
\<close>

lemma lookup_misses_name:
  assumes inv: "fs_inv F s" and low: "avail s = [False]" and p: "p \<in> set (open_inodes s)"
    and len: "20 \<le> length (file_bytes s (sector (inodes s p)))"
  shows "lookup p nm s = Some (None, s\<lparr>avail := []\<rparr>)"
proof -
  have io: "io_ok s p" "contents s p = file_bytes s (sector (inodes s p))" using open_inode_ok [OF inv p] by simp_all
  have l: "inode_length p s = int (length (contents s p))" "20 \<le> length (contents s p)" using io_ok_length [OF io(1)] len io(2) by auto
  have ok: "inode_ok s p" using io(1) by (simp add: io_ok_def)
  have "chunk p 20 0 s = 20" "byte_to_sector p 0 s = Some (unat (start (data (inodes s p))))"
    using chunk_in [OF ok l(1), of 0 20] to_sector [OF ok l(1), of 0] l(2) by simp_all
  then have "inode_read_at p 20 0 s = Some ([], s\<lparr>avail := []\<rparr>)"
    unfolding inode_read_at_def by (subst read_loop.simps) (simp add: fs_malloc_def low c_mod_def)
  then show ?thesis unfolding lookup_def by (subst lookup_loop.simps) (simp add: sizeof_entry_def s32_id in_s32_def)
qed

text \<open>
  When \<^verbatim>\<open>filesys_create\<close> fails because the name exists, it gives back the sector of the inode but not those of the data: they stay marked, and
  belong to no file.
\<close>

lemma create_in_root_leaks:
  assumes inv: "fs_inv F s" and mem: "avail s = []" and p: "dir_inode d \<in> set (open_inodes s)" "can_write s (dir_inode d)"
    "sector (inodes s (dir_inode d)) = ROOT_DIR_SECTOR" and wf: "dir_wf (root_ents s)"
    and nm: "0 \<notin> set nm" "root_names s nm \<noteq> None" and e0: "length e0 = 20"
    and l: "0 \<le> l" "l \<le> 2 ^ 31 - 512" and room: "group_at (bm_bits (free_map s)) 1 False i"
      "\<And>sec. sec < length (disk s) \<Longrightarrow> \<exists>i. group_at (set_range (bm_bits (free_map s)) sec 1 True) (bytes_to_sectors l) False i"
  shows "\<exists>s' st. create_in_root e0 d nm l s = Some (False, s') \<and>
    (\<forall>x. st \<le> x \<and> x < st + bytes_to_sectors l \<longrightarrow> \<not> bm_bits (free_map s) ! x \<and> bm_bits (free_map s') ! x)"
proof -
  note I = fs_invD [OF inv]
  let ?n = "bytes_to_sectors l" and ?B = "bm_bits (free_map s)"
  have root: "ROOT_DIR_SECTOR \<in> F" using inodes_okD(3) [OF I(9) p(1)] p(3) by simp
  obtain sec s1 where a: "free_map_allocate 1 s = Some (Some sec, s1)" "fs_inv F s1" "avail s1 = []" "\<forall>g\<in>F. header s1 g = header s g"
    "\<forall>g\<in>F. g \<noteq> FREE_MAP_SECTOR \<longrightarrow> file_bytes s1 g = file_bytes s g" "inodes s1 = inodes s" "open_inodes s1 = open_inodes s"
    "length (disk s1) = length (disk s)" "sec < length (disk s)" "\<not> ?B ! sec" "bm_bits (free_map s1) = set_range ?B sec 1 True"
    using free_map_allocate_inv [OF inv mem, of 1] room(1) by (fastforce simp: Suc_le_eq split: option.splits simp del: bm_bits_nth)
  have new: "sec \<notin> extent t f" if "f \<in> F" "header t f = header s f" for t f using markedD [OF inv that(1), of sec] a(10) that(2) by auto
  have sec1: "bm_bits (free_map s1) ! sec" using a(9,11) I(5) by (simp add: nth_set_range del: bm_bits_nth)
  have A: "sec < length (disk s1)" "\<And>f. f \<in> F \<Longrightarrow> sec \<notin> extent s1 f" using a(4,8,9) new by auto
  obtain ok s2 where c: "inode_create sec l s1 = Some (ok, s2)" "avail s2 = []" "same_objects s1 s2" "\<forall>g\<in>F. header s2 g = header s1 g"
    "\<forall>g\<in>F. g \<noteq> FREE_MAP_SECTOR \<longrightarrow> file_bytes s2 g = file_bytes s1 g" "fs_inv F s2" "bm_bits (free_map s2) ! sec"
    "if ok then \<exists>st. st + ?n \<le> length (disk s1) \<and> (\<forall>x. st \<le> x \<and> x < st + ?n \<longrightarrow> \<not> bm_bits (free_map s1) ! x) \<and>
        bm_bits (free_map s2) = set_range (bm_bits (free_map s1)) st ?n True
     else \<forall>i. \<not> group_at (bm_bits (free_map s1)) ?n False i"
    using inode_create_inv [OF a(2,3) A(1) sec1 A(2) l] by (metis (no_types, lifting))
  have ok: "ok" using c(8) room(2) [OF a(9)] unfolding a(11) by (metis (no_types, lifting))
  obtain st where st: "st + ?n \<le> length (disk s)" "\<And>x. st \<le> x \<Longrightarrow> x < st + ?n \<Longrightarrow> \<not> bm_bits (free_map s1) ! x"
    "bm_bits (free_map s2) = set_range (bm_bits (free_map s1)) st ?n True" using c(8) ok a(8) by auto
  have "root_ents s2 = root_ents s" using a(5) c(5) root by (simp add: root_ents_def)
  moreover have P: "dir_inode d \<in> set (open_inodes s2)" "can_write s2 (dir_inode d)" "sector (inodes s2 (dir_inode d)) = ROOT_DIR_SECTOR"
    using p a(6,7) c(3) by (simp_all add: same_objects_def can_write_def)
  moreover have "sec < 2 ^ 32" using a(9) I(2) by simp
  ultimately obtain s3 where s3: "dir_add e0 d nm sec s2 = Some (False, s3)" "only_file F ROOT_DIR_SECTOR s2 s3"
    using dir_add_inv [OF c(6,2) P(1,2) nm(1) e0, of sec] wf nm(2) unfolding P(3) root_ents_def [symmetric] by auto
  note S3 = s3(2) [unfolded only_file_def] and F3 = same_fsD [of s2 s3]
  have f3: "free_map s3 = free_map s2" "length (disk s3) = length (disk s)" using S3 F3 c(3) a(8) by (auto simp: same_objects_def)
  have "header s3 f = header s f" if "f \<in> F" for f using S3 c(4) a(4) that by simp
  then have dis: "extent s3 f \<inter> {sec ..< sec + 1} = {}" if "f \<in> F" for f using new [OF that, of s3] that by auto
  have "x = sec" if "sec \<le> x" "x < sec + 1" for x using that by linarith
  then obtain s' where r: "free_map_release sec 1 s3 = Some s'" "bm_bits (free_map s') = set_range (bm_bits (free_map s2)) sec 1 False"
    using free_map_release_inv [of F s3 sec 1] S3 f3 a(9) c(7) dis by (metis Suc_eq_plus1 Suc_leI)
  have "sec \<noteq> 0" using new [OF I(6), of s] by (auto simp: FREE_MAP_SECTOR_def)
  then have "create_in_root e0 d nm l s = Some (False, s')" using a(1) c(1) ok s3(1) r(1) by (simp add: create_in_root_def)
  moreover have "\<not> ?B ! x \<and> bm_bits (free_map s') ! x" if x: "st \<le> x" "x < st + ?n" for x
  proof -
    have lt: "x < length (disk s)" "x \<noteq> sec" using x st(1) st(2) [OF x] sec1 by auto
    then have "\<not> ?B ! x" using st(2) [OF x] a(9) I(5) unfolding a(11) by (auto simp: nth_set_range simp del: bm_bits_nth split: if_splits)
    then show ?thesis using lt x a(9) st(1) I(5) unfolding r(2) st(3) a(11) by (auto simp: nth_set_range simp del: bm_bits_nth)
  qed
  ultimately show ?thesis by blast
qed

lemma filesys_create_leaks:
  assumes ok: "fs_ok F s" and mem: "avail s = []" and nm: "0 \<notin> set nm" "root_names s nm \<noteq> None" and e0: "length e0 = 20"
    and l: "0 \<le> l" "l \<le> 2 ^ 31 - 512" and room: "group_at (bm_bits (free_map s)) 1 False i"
      "\<And>sec. sec < length (disk s) \<Longrightarrow> \<exists>i. group_at (set_range (bm_bits (free_map s)) sec 1 True) (bytes_to_sectors l) False i"
  shows "\<exists>s' st. filesys_create e0 nm l s = Some (False, s') \<and> fs_ok F s' \<and>
    (\<forall>x. st \<le> x \<and> x < st + bytes_to_sectors l \<longrightarrow> \<not> bm_bits (free_map s) ! x \<and> bm_bits (free_map s') ! x)"
proof -
  obtain d s1 where d: "dir_open_root s = Some (Some d, s1)" "fs_inv F s1" "avail s1 = []" "same_store s s1"
    and p: "dir_inode d \<in> set (open_inodes s1)" "can_write s1 (dir_inode d)" "sector (inodes s1 (dir_inode d)) = ROOT_DIR_SECTOR"
      "\<not> removed (inodes s1 (dir_inode d))"
    using dir_open_root_inv [OF ok mem] by auto
  note B1 = store_root_ents [OF d(4)] and st1 = d(4) [unfolded same_store_def]
  have wf1: "dir_wf (root_ents s1)" using ok B1 by (simp add: fs_ok_def root_ok_def)
  obtain s2 st where r: "create_in_root e0 d nm l s1 = Some (False, s2)"
    "\<forall>x. st \<le> x \<and> x < st + bytes_to_sectors l \<longrightarrow> \<not> bm_bits (free_map s) ! x \<and> bm_bits (free_map s2) ! x"
    using create_in_root_leaks [OF d(2,3) p(1-3) wf1 nm(1) _ e0 l, of i] nm(2) room B1 st1 by (auto simp del: bm_bits_nth)
  obtain r' s' where f: "filesys_create e0 nm l s = Some (r', s')" "\<not> r' \<Longrightarrow> fs_ok F s'"
    using filesys_create_inv [OF ok mem nm(1) e0 l] by (auto split: if_splits)
  then have c: "inode_close (dir_inode d) s2 = Some s'" "\<not> r'" using filesys_create_eq [OF d(1)] r(1) by (auto simp: dir_close_def split: bind_splits)
  have "same_objects s1 s2" using create_in_root_inv [OF d(2,3) p(1-3) wf1 nm(1) e0 l] r(1) by auto
  then have "\<not> removed (inodes s2 (dir_inode d))" using p(4) by (simp add: same_objects_def)
  then have "free_map s' = free_map s2" using c(1) by (auto simp: inode_close_def Let_def upd_inode_def split: if_splits bind_splits)
  then show ?thesis using f c(2) r(2) by auto
qed

end
