(* ===== verification/Elf_Load.thy ===== *)
theory Elf_Load
  imports Page_Dir_Free Filesys
begin

text \<open>
  Loading executables (\<^verbatim>\<open>userprog/process.c\<close>): headers, segments, stack, and giving everything back at exit. A process is its page directory together with
  the memory of \<open>Page_Dir\<close> and the file system of \<open>Filesys\<close>. Reading a file gives the bytes that \<^verbatim>\<open>file_read\<close> stores in the buffer. The kernel stack
  pointer that \<^verbatim>\<open>tss_update\<close> stores for the processor and the messages on the console are left out.
\<close>

section \<open>Headers\<close>

definition de16 :: "u8 list \<Rightarrow> 16 word" where
  "de16 bs = ucast (bs ! 0) OR push_bit 8 (ucast (bs ! 1))"

record elf_ehdr =
  e_ident :: "u8 list"
  e_type :: "16 word"
  e_machine :: "16 word"
  e_version :: u32
  e_entry :: u32
  e_phoff :: u32
  e_shoff :: u32
  e_flags :: u32
  e_ehsize :: "16 word"
  e_phentsize :: "16 word"
  e_phnum :: "16 word"
  e_shentsize :: "16 word"
  e_shnum :: "16 word"
  e_shstrndx :: "16 word"

definition half_at :: "u8 list \<Rightarrow> nat \<Rightarrow> 16 word" where
  "half_at bs i = de16 (drop i bs)"

definition word_at :: "u8 list \<Rightarrow> nat \<Rightarrow> u32" where
  "word_at bs i = de32 (drop i bs)"

definition dec_ehdr :: "u8 list \<Rightarrow> elf_ehdr" where
  "dec_ehdr bs = \<lparr>e_ident = take 16 bs, e_type = half_at bs 16, e_machine = half_at bs 18, e_version = word_at bs 20, e_entry = word_at bs 24,
     e_phoff = word_at bs 28, e_shoff = word_at bs 32, e_flags = word_at bs 36, e_ehsize = half_at bs 40, e_phentsize = half_at bs 42,
     e_phnum = half_at bs 44, e_shentsize = half_at bs 46, e_shnum = half_at bs 48, e_shstrndx = half_at bs 50\<rparr>"

record elf_phdr =
  p_type :: u32
  p_offset :: u32
  p_vaddr :: u32
  p_paddr :: u32
  p_filesz :: u32
  p_memsz :: u32
  p_flags :: u32
  p_align :: u32

definition dec_phdr :: "u8 list \<Rightarrow> elf_phdr" where
  "dec_phdr bs = \<lparr>p_type = word_at bs 0, p_offset = word_at bs 4, p_vaddr = word_at bs 8, p_paddr = word_at bs 12, p_filesz = word_at bs 16,
     p_memsz = word_at bs 20, p_flags = word_at bs 24, p_align = word_at bs 28\<rparr>"

definition EHDR_SIZE :: nat where "EHDR_SIZE = 52"
definition PHDR_SIZE :: nat where "PHDR_SIZE = 32"
definition PT_LOAD :: u32 where "PT_LOAD = 1"
definition PT_DYNAMIC :: u32 where "PT_DYNAMIC = 2"
definition PT_INTERP :: u32 where "PT_INTERP = 3"
definition PT_SHLIB :: u32 where "PT_SHLIB = 5"
definition PF_W :: u32 where "PF_W = 2"
definition PGMASK :: u32 where "PGMASK = 0xfff"

text \<open>\<^verbatim>\<open>ROUND_UP\<close> of \<^verbatim>\<open>lib/round.h\<close> on unsigned numbers.\<close>

definition ROUND_UP :: "u32 \<Rightarrow> u32 \<Rightarrow> u32" where
  "ROUND_UP x step = (x + step - 1) div step * step"

section \<open>Processes\<close>

record proc =
  mm :: mmu
  fsys :: fs
  pagedir :: addr

definition set_pgs :: "pages \<Rightarrow> proc \<Rightarrow> proc" where
  "set_pgs g s = s\<lparr>mm := (mm s)\<lparr>pgs := g\<rparr>\<rparr>"

definition set_mem :: "mem \<Rightarrow> proc \<Rightarrow> proc" where
  "set_mem m s = set_pgs ((pgs (mm s))\<lparr>pmem := m\<rparr>) s"

definition put_bytes :: "addr \<Rightarrow> u8 list \<Rightarrow> mem \<Rightarrow> mem" where
  "put_bytes p bs m = (\<lambda>a. if p \<le> a \<and> a < p + length bs then bs ! (a - p) else m a)"

definition install_page :: "addr \<Rightarrow> addr \<Rightarrow> bool \<Rightarrow> proc \<Rightarrow> (bool \<times> proc) option" where
  "install_page upage kpage writable s = do {
     p \<leftarrow> pagedir_get_page (pagedir s) upage (mm s);
     if p = NULL
     then do { (ok, m) \<leftarrow> pagedir_set_page (pagedir s) upage kpage writable (mm s); Some (ok, s\<lparr>mm := m\<rparr>) }
     else Some (False, s) }"

definition free_and_fail :: "addr \<Rightarrow> proc \<Rightarrow> (bool \<times> proc) option" where
  "free_and_fail kpage s = do { g \<leftarrow> palloc_free_page kpage (pgs (mm s)); Some (False, set_pgs g s) }"

text \<open>One round of the loop of \<^verbatim>\<open>load_segment\<close>.\<close>

definition load_one :: "addr \<Rightarrow> addr \<Rightarrow> nat \<Rightarrow> bool \<Rightarrow> proc \<Rightarrow> (bool \<times> proc) option" where
  "load_one fp upage page_read_bytes writable s = do {
     let page_zero_bytes = PGSIZE - page_read_bytes;
     (kpage, g) \<leftarrow> palloc_get_page PAL_USER (pgs (mm s));
     let s = set_pgs g s;
     if kpage = NULL then Some (False, s)
     else do {
       (bs, f) \<leftarrow> file_read fp (int page_read_bytes) (fsys s);
       let s = set_mem (put_bytes kpage bs (pmem (pgs (mm s)))) (s\<lparr>fsys := f\<rparr>);
       if length bs \<noteq> page_read_bytes then free_and_fail kpage s
       else do {
         (_, m) \<leftarrow> memset (kpage + page_read_bytes) 0 page_zero_bytes (pmem (pgs (mm s)));
         (ok, s) \<leftarrow> install_page upage kpage writable (set_mem m s);
         if \<not> ok then free_and_fail kpage s else Some (True, s) } } }"

text \<open>The assertion before the loop makes the sum of the two counts a multiple of the page size; the subtractions do not wrap around.\<close>

function (sequential) load_loop :: "addr \<Rightarrow> addr \<Rightarrow> nat \<Rightarrow> nat \<Rightarrow> bool \<Rightarrow> proc \<Rightarrow> (bool \<times> proc) option" where
  "load_loop fp upage read_bytes zero_bytes writable s =
     (if read_bytes > 0 \<or> zero_bytes > 0
      then do {
        let page_read_bytes = (if read_bytes < PGSIZE then read_bytes else PGSIZE);
        (ok, s) \<leftarrow> load_one fp upage page_read_bytes writable s;
        if ok
        then load_loop fp ((upage + PGSIZE) mod 2 ^ 32) (read_bytes - page_read_bytes) (zero_bytes - (PGSIZE - page_read_bytes)) writable s
        else Some (False, s) }
      else Some (True, s))"
  by pat_completeness auto

termination
  by (relation "measure (\<lambda>(f, u, r, z, w, s). r + z)") (auto split: if_splits)

declare load_loop.simps [simp del]

definition load_segment :: "addr \<Rightarrow> int \<Rightarrow> addr \<Rightarrow> nat \<Rightarrow> nat \<Rightarrow> bool \<Rightarrow> proc \<Rightarrow> (bool \<times> proc) option" where
  "load_segment fp ofs upage read_bytes zero_bytes writable s = do {
     ASSERT ((read_bytes + zero_bytes) mod PGSIZE = 0);
     ASSERT (pg_ofs upage = 0);
     ASSERT (c_mod ofs 4096 = 0);
     f \<leftarrow> file_seek fp ofs (fsys s);
     load_loop fp upage read_bytes zero_bytes writable (s\<lparr>fsys := f\<rparr>) }"

definition setup_stack :: "proc \<Rightarrow> (addr option \<times> proc) option" where
  "setup_stack s = do {
     (kpage, g) \<leftarrow> palloc_get_page (PAL_USER OR PAL_ZERO) (pgs (mm s));
     let s = set_pgs g s;
     if kpage \<noteq> NULL
     then do {
       (ok, s) \<leftarrow> install_page (PHYS_BASE - PGSIZE) kpage True s;
       if ok then Some (Some PHYS_BASE, s)
       else do { (_, s) \<leftarrow> free_and_fail kpage s; Some (None, s) } }
     else Some (None, s) }"

definition validate_segment :: "elf_phdr \<Rightarrow> addr \<Rightarrow> fs \<Rightarrow> bool option" where
  "validate_segment phdr fp s =
     (if p_offset phdr AND PGMASK \<noteq> p_vaddr phdr AND PGMASK then Some False
      else do {
        l \<leftarrow> file_length fp s;
        Some (\<not> p_offset phdr > word_of_int l \<and>
          \<not> p_memsz phdr < p_filesz phdr \<and>
          p_memsz phdr \<noteq> 0 \<and>
          is_user_vaddr (unat (p_vaddr phdr)) \<and>
          is_user_vaddr (unat (p_vaddr phdr + p_memsz phdr)) \<and>
          \<not> p_vaddr phdr + p_memsz phdr < p_vaddr phdr \<and>
          \<not> unat (p_vaddr phdr) < PGSIZE) })"

text \<open>One program header, the body of the switch.\<close>

definition load_phdr :: "elf_phdr \<Rightarrow> addr \<Rightarrow> proc \<Rightarrow> (bool \<times> proc) option" where
  "load_phdr phdr fp s =
     (if p_type phdr = PT_DYNAMIC \<or> p_type phdr = PT_INTERP \<or> p_type phdr = PT_SHLIB then Some (False, s)
      else if p_type phdr = PT_LOAD
      then do {
        valid \<leftarrow> validate_segment phdr fp (fsys s);
        if valid
        then do {
          let writable = (p_flags phdr AND PF_W \<noteq> 0);
          let file_page = p_offset phdr AND NOT PGMASK;
          let mem_page = p_vaddr phdr AND NOT PGMASK;
          let page_offset = p_vaddr phdr AND PGMASK;
          let read_bytes = (if p_filesz phdr > 0 then page_offset + p_filesz phdr else 0);
          let zero_bytes = (if p_filesz phdr > 0 then ROUND_UP (page_offset + p_memsz phdr) 0x1000 - read_bytes
                            else ROUND_UP (page_offset + p_memsz phdr) 0x1000);
          load_segment fp (sint file_page) (unat mem_page) (unat read_bytes) (unat zero_bytes) writable s }
        else Some (False, s) }
      else Some (True, s))"

text \<open>The loop over the program headers: \<open>n\<close> are left.\<close>

primrec load_phdrs :: "nat \<Rightarrow> addr \<Rightarrow> int \<Rightarrow> proc \<Rightarrow> (bool \<times> proc) option" where
  "load_phdrs 0 fp file_ofs s = Some (True, s)"
| "load_phdrs (Suc n) fp file_ofs s = do {
     l \<leftarrow> file_length fp (fsys s);
     if file_ofs < 0 \<or> file_ofs > l then Some (False, s)
     else do {
       f \<leftarrow> file_seek fp file_ofs (fsys s);
       (bs, f) \<leftarrow> file_read fp (int PHDR_SIZE) f;
       let s = s\<lparr>fsys := f\<rparr>;
       if length bs \<noteq> PHDR_SIZE then Some (False, s)
       else do {
         (ok, s) \<leftarrow> load_phdr (dec_phdr bs) fp s;
         if ok then load_phdrs n fp (s32 (file_ofs + int PHDR_SIZE)) s else Some (False, s) } } }"

definition ehdr_valid :: "elf_ehdr \<Rightarrow> bool" where
  "ehdr_valid h \<longleftrightarrow> take 7 (e_ident h) = [0x7f, 0x45, 0x4c, 0x46, 1, 1, 1] \<and> e_type h = 2 \<and> e_machine h = 3 \<and> e_version h = 1 \<and>
     e_phentsize h = of_nat PHDR_SIZE \<and> \<not> e_phnum h > 1024"

text \<open>The part of \<^verbatim>\<open>load\<close> with the file open; the result is the entry point and the stack pointer.\<close>

definition load_file :: "addr \<Rightarrow> proc \<Rightarrow> ((u32 \<times> addr) option \<times> proc) option" where
  "load_file fp s = do {
     (bs, f) \<leftarrow> file_read fp (int EHDR_SIZE) (fsys s);
     let s = s\<lparr>fsys := f\<rparr>;
     if length bs \<noteq> EHDR_SIZE \<or> \<not> ehdr_valid (dec_ehdr bs) then Some (None, s)
     else do {
       (ok, s) \<leftarrow> load_phdrs (unat (e_phnum (dec_ehdr bs))) fp (sint (e_phoff (dec_ehdr bs))) s;
       if \<not> ok then Some (None, s)
       else do {
         (esp, s) \<leftarrow> setup_stack s;
         Some (map_option (\<lambda>esp. (e_entry (dec_ehdr bs), esp)) esp, s) } } }"

definition process_activate :: "proc \<Rightarrow> proc option" where
  "process_activate s = do { m \<leftarrow> pagedir_activate (pagedir s) (mm s); Some (s\<lparr>mm := m\<rparr>) }"

definition load_elf :: "u8 list \<Rightarrow> proc \<Rightarrow> ((u32 \<times> addr) option \<times> proc) option" where
  "load_elf file_name s = do {
     (pd, m) \<leftarrow> pagedir_create (mm s);
     let s = s\<lparr>mm := m, pagedir := pd\<rparr>;
     if pd = NULL then Some (None, s)
     else do {
       s \<leftarrow> process_activate s;
       (fp, f) \<leftarrow> filesys_open file_name (fsys s);
       let s = s\<lparr>fsys := f\<rparr>;
       if fp = NULL then Some (None, s)
       else do {
         (r, s) \<leftarrow> load_file fp s;
         f \<leftarrow> file_close fp (fsys s);
         Some (r, s\<lparr>fsys := f\<rparr>) } } }"

definition process_exit :: "proc \<Rightarrow> proc option" where
  "process_exit s =
     (if pagedir s \<noteq> NULL
      then do {
        let pd = pagedir s;
        let s = s\<lparr>pagedir := NULL\<rparr>;
        m \<leftarrow> pagedir_activate NULL (mm s);
        m \<leftarrow> pagedir_destroy pd m;
        Some (s\<lparr>mm := m\<rparr>) }
      else Some s)"

section \<open>Address spaces\<close>

text \<open>
  The address space of a process: a directory with tables \<open>T\<close> that alone owns its frames, all from the user pool. \<open>uview\<close> is the memory that user code sees.
\<close>

definition space :: "addr \<Rightarrow> mmu \<Rightarrow> (nat \<Rightarrow> addr) \<Rightarrow> bool" where
  "space pd s T \<longleftrightarrow> dir_rep s pd T \<and> targets_ok s T \<and> exclusive s pd T \<and> frames s T \<subseteq> all_pages True (pgs s) \<and> pd \<noteq> init_page_dir s \<and>
     (\<forall>n\<in>all_pages True (pgs s). n < pg_no PHYS_BASE + init_ram_pages s)"

definition uview :: "addr \<Rightarrow> mmu \<Rightarrow> addr \<Rightarrow> u8 option" where
  "uview pd s va = (case pagedir_get_page pd va s of None \<Rightarrow> None | Some p \<Rightarrow> if p = NULL then None else Some (pmem (pgs s) p))"

text \<open>The pages of a pool that are free or belong to the address space. Operations on the address space keep them together.\<close>

definition budget :: "addr \<Rightarrow> mmu \<Rightarrow> (nat \<Rightarrow> addr) \<Rightarrow> bool \<Rightarrow> nat set" where
  "budget pd s T v = free_pages v (pgs s) \<union> all_pages v (pgs s) \<inter> insert (pg_no pd) (tables T \<union> frames s T)"

definition kept :: "addr \<Rightarrow> mmu \<Rightarrow> (nat \<Rightarrow> addr) \<Rightarrow> mmu \<Rightarrow> (nat \<Rightarrow> addr) \<Rightarrow> bool" where
  "kept pd s T s' T' \<longleftrightarrow> budget pd s' T' = budget pd s T \<and> init_page_dir s' = init_page_dir s \<and> cr3 s' = cr3 s \<and>
     (\<forall>v. all_pages v (pgs s') = all_pages v (pgs s))"

lemma kept_refl [simp]: "kept pd s T s T"
  by (simp add: kept_def)

lemma kept_trans: "kept pd s T s' T' \<Longrightarrow> kept pd s' T' s'' T'' \<Longrightarrow> kept pd s T s'' T''"
  by (simp add: kept_def)

lemma spaceD:
  assumes "space pd s T"
  shows "dir_rep s pd T" "targets_ok s T" "exclusive s pd T" "frames s T \<subseteq> all_pages True (pgs s)" "pd \<noteq> init_page_dir s"
    "n \<in> all_pages True (pgs s) \<Longrightarrow> n < pg_no PHYS_BASE + init_ram_pages s"
  using assms by (auto simp: space_def)

lemma pools_disjoint: "pages_ok g \<Longrightarrow> n \<in> all_pages False g \<Longrightarrow> n \<notin> all_pages True g"
  by (auto simp: pages_ok_sel)

text \<open>What user code sees, in terms of the entries.\<close>

lemma uview_rep:
  assumes r: "dir_rep s pd T" and T: "targets_ok s T" and va: "va < PHYS_BASE"
  shows "uview pd s va = (let e = pt_entry s T (pg_no va) in
    if e AND PTE_P = 0 then None else Some (pmem (pgs s) (PGSIZE * frame_no e + pg_ofs va)))"
proof (cases "pt_entry s T (pg_no va) AND PTE_P = 0")
  case True
  then show ?thesis by (simp add: uview_def get_page_rep [OF r va])
next
  case False
  have "target_ok (pt_entry s T (pg_no va))" using T user_page_index [OF va] by (simp add: targets_ok_def)
  then obtain p where p: "kernel_page p" "pte_get_page (pt_entry s T (pg_no va)) = Some p" "frame_no (pt_entry s T (pg_no va)) = pg_no p"
    using False by (rule target_frame)
  have "p = PGSIZE * pg_no p" using p(1) pg_split [of p] by (simp add: kernel_page_def)
  then show ?thesis using False p kernel_page_vtop(2) [OF p(1)] by (simp add: uview_def get_page_rep [OF r va])
qed

text \<open>A change of the user pool and of memory outside the kernel pool leaves the tables alone.\<close>

lemma user_change:
  assumes r: "dir_rep s pd T" and g: "pages_ok g" "\<And>v. all_pages v g = all_pages v (pgs s)" "free_pages False g = free_pages False (pgs s)"
    and m: "\<And>a. pg_no a \<in> all_pages False (pgs s) \<Longrightarrow> pmem g a = pmem (pgs s) a"
  shows "dir_rep (s\<lparr>pgs := g\<rparr>) pd T" "pt_entry (s\<lparr>pgs := g\<rparr>) T u = pt_entry s T u \<or> 768 * 1024 \<le> u"
proof -
  note D = dir_repD [OF r]
  have l: "load (q + 4 * j) (s\<lparr>pgs := g\<rparr>) = load (q + 4 * j) s" if "kernel_page q" "pg_no q \<in> all_pages False (pgs s)" "j < 1024" for q j
    unfolding load_def
  proof (rule rd32_cong)
    fix i :: nat assume "i < 4"
    then have "pg_no (q + 4 * j + i) = pg_no q" using that by (intro in_page) (auto simp: kernel_page_def PGSIZE_def)
    then show "pmem (pgs (s\<lparr>pgs := g\<rparr>)) (q + 4 * j + i) = pmem (pgs s) (q + 4 * j + i)" using m that(2) by simp
  qed
  have pd: "load (pd + 4 * j) (s\<lparr>pgs := g\<rparr>) = load (pd + 4 * j) s" if "j < 768" for j using l [OF D(3)] D(4) that by simp
  show "dir_rep (s\<lparr>pgs := g\<rparr>) pd T" using r g(1) unfolding dir_rep_def by (auto simp: pd g(2,3) split: if_splits)
  show "pt_entry (s\<lparr>pgs := g\<rparr>) T u = pt_entry s T u \<or> 768 * 1024 \<le> u"
  proof (cases "u < 768 * 1024 \<and> T (u div 1024) \<noteq> NULL")
    case True
    then have i: "u div 1024 < 768" "T (u div 1024) \<noteq> NULL" by auto
    then show ?thesis using l [OF D(6) [OF i], of "u mod 1024"] D(7) [OF i] by (simp add: pt_entry_def)
  qed (auto simp: pt_entry_def)
qed

lemma frames_cong: "(\<And>u. u < 768 * 1024 \<Longrightarrow> pt_entry s' T' u = pt_entry s T u) \<Longrightarrow> mapped s' T' = mapped s T \<and> frames s' T' = frames s T"
  by (auto simp: mapped_def frames_def)

text \<open>Such a change keeps an address space, and what user code sees of it, when the frames stay in use and keep their contents.\<close>

lemma space_change:
  assumes sp: "space pd s T" and g: "pages_ok g" "\<And>v. all_pages v g = all_pages v (pgs s)" "free_pages False g = free_pages False (pgs s)"
    and m: "\<And>a. pg_no a \<in> all_pages False (pgs s) \<union> frames s T \<Longrightarrow> pmem g a = pmem (pgs s) a"
    and fr: "frames s T \<inter> free_pages True g = {}"
  shows "space pd (s\<lparr>pgs := g\<rparr>) T" "va < PHYS_BASE \<Longrightarrow> uview pd (s\<lparr>pgs := g\<rparr>) va = uview pd s va" "frames (s\<lparr>pgs := g\<rparr>) T = frames s T"
proof -
  let ?s = "s\<lparr>pgs := g\<rparr>"
  note S = spaceD [OF sp]
  have c: "dir_rep ?s pd T" "\<And>u. u < 768 * 1024 \<Longrightarrow> pt_entry ?s T u = pt_entry s T u"
    using user_change [OF S(1) g] m by blast (metis (no_types) S(1) UnI1 g m not_le user_change(2))
  have f: "mapped ?s T = mapped s T" "frames ?s T = frames s T" using frames_cong [OF c(2)] by auto
  then show "frames ?s T = frames s T" by simp
  have t: "targets_ok ?s T" using S(2) c(2) by (simp add: targets_ok_def)
  have "inj_on (\<lambda>u. frame_no (pt_entry ?s T u)) (mapped s T)" using S(3) c(2) by (auto simp: exclusive_def inj_on_def mapped_def)
  moreover have "frames s T \<subseteq> used_pages g" using S(4) fr g(2) by blast
  ultimately have "exclusive ?s pd T" using S(3) by (simp add: exclusive_def f)
  then show "space pd ?s T" using S t c(1) by (simp add: space_def f g(2))
  show "uview pd ?s va = uview pd s va" if va: "va < PHYS_BASE"
  proof (cases "pt_entry s T (pg_no va) AND PTE_P = 0")
    case True
    then show ?thesis using c(2) [OF user_page_index [OF va]] by (simp add: uview_rep [OF S(1,2) va] uview_rep [OF c(1) t va])
  next
    case False
    let ?e = "pt_entry s T (pg_no va)"
    have "frame_no ?e \<in> frames s T" using False user_page_index [OF va] by (auto simp: frames_def mapped_def)
    moreover have "pg_no (PGSIZE * frame_no ?e + pg_ofs va) = frame_no ?e"
      using in_page [of "PGSIZE * frame_no ?e"] pg_ofs_less [of va] by simp
    ultimately have "pmem g (PGSIZE * frame_no ?e + pg_ofs va) = pmem (pgs s) (PGSIZE * frame_no ?e + pg_ofs va)" using m by simp
    then show ?thesis using False c(2) [OF user_page_index [OF va]] by (simp add: uview_rep [OF S(1,2) va] uview_rep [OF c(1) t va])
  qed
qed

text \<open>A page of the user pool has been taken and written to, but not yet mapped.\<close>

definition holding :: "mmu \<Rightarrow> addr \<Rightarrow> pages \<Rightarrow> bool" where
  "holding s kpage g \<longleftrightarrow> kernel_page kpage \<and> pg_no kpage \<in> free_pages True (pgs s) \<and> pages_ok g \<and> (\<forall>v. all_pages v g = all_pages v (pgs s)) \<and>
     free_pages False g = free_pages False (pgs s) \<and> free_pages True g = free_pages True (pgs s) - {pg_no kpage} \<and>
     (\<forall>a. pg_no a \<noteq> pg_no kpage \<longrightarrow> pmem g a = pmem (pgs s) a)"

lemma holdingD:
  assumes "holding s kpage g"
  shows "kernel_page kpage" "pg_no kpage \<in> free_pages True (pgs s)" "pages_ok g" "all_pages v g = all_pages v (pgs s)"
    "free_pages False g = free_pages False (pgs s)" "free_pages True g = free_pages True (pgs s) - {pg_no kpage}"
    "pg_no a \<noteq> pg_no kpage \<Longrightarrow> pmem g a = pmem (pgs s) a" "pg_no kpage \<in> all_pages True (pgs s)"
  using assms by (auto simp: holding_def pool_free_def)

lemma frames_not_free:
  assumes "space pd s T"
  shows "frames s T \<inter> free_pages True (pgs s) = {}"
proof (rule equals0I)
  fix x assume x: "x \<in> frames s T \<inter> free_pages True (pgs s)"
  then obtain v where v: "x \<in> all_pages v (pgs s)" "x \<notin> free_pages v (pgs s)" using spaceD(3) [OF assms] by (auto simp: exclusive_def)
  moreover have "x \<in> all_pages True (pgs s)" using spaceD(4) [OF assms] x by blast
  ultimately show False using x pools_disjoint [OF dir_repD(1) [OF spaceD(1) [OF assms]]] by (cases v) auto
qed

lemma holding_fresh:
  assumes sp: "space pd s T" and h: "holding s kpage g"
  shows "pg_no kpage \<notin> all_pages False (pgs s) \<union> frames s T"
  using frames_not_free [OF sp] holdingD(2,8) [OF h] pools_disjoint [OF dir_repD(1) [OF spaceD(1) [OF sp]]] by blast

lemma holding_space:
  assumes sp: "space pd s T" and h: "holding s kpage g"
  shows "space pd (s\<lparr>pgs := g\<rparr>) T" "va < PHYS_BASE \<Longrightarrow> uview pd (s\<lparr>pgs := g\<rparr>) va = uview pd s va" "frames (s\<lparr>pgs := g\<rparr>) T = frames s T"
proof -
  note H = holdingD [OF h] and n = holding_fresh [OF sp h]
  have m: "pmem g a = pmem (pgs s) a" if "pg_no a \<in> all_pages False (pgs s) \<union> frames s T" for a using that n by (intro H(7)) metis
  have f: "frames s T \<inter> free_pages True g = {}"
    using frames_not_free [OF sp] H(6) by blast
  show "space pd (s\<lparr>pgs := g\<rparr>) T" "frames (s\<lparr>pgs := g\<rparr>) T = frames s T" by (rule space_change [OF sp H(3,4,5) m f]; assumption)+
  show "uview pd (s\<lparr>pgs := g\<rparr>) va = uview pd s va" if "va < PHYS_BASE" by (rule space_change(2) [OF sp H(3,4,5) m f that])
qed

text \<open>Giving the page back restores the free pages.\<close>

lemma holding_free:
  assumes sp: "space pd s T" and h: "holding s kpage g"
  shows "\<exists>g'. palloc_free_page kpage g = Some g' \<and> space pd (s\<lparr>pgs := g'\<rparr>) T \<and> kept pd s T (s\<lparr>pgs := g'\<rparr>) T \<and>
    (\<forall>va<PHYS_BASE. uview pd (s\<lparr>pgs := g'\<rparr>) va = uview pd s va)"
proof -
  note H = holdingD [OF h] and n = holding_fresh [OF sp h]
  have "pg_no kpage \<in> used_pages g" using H(4,6,8) by blast
  then obtain g' where g': "palloc_free_page kpage g = Some g'" "freed {pg_no kpage} g g'" using free_page_freed [OF H(3,1)] by blast
  have F: "pages_ok g'" "\<And>v. all_pages v g' = all_pages v (pgs s)" "free_pages False g' = free_pages False (pgs s)" "free_pages True g' = free_pages True (pgs s)"
    "\<And>a. pg_no a \<noteq> pg_no kpage \<Longrightarrow> pmem g' a = pmem (pgs s) a"
    using g'(2) n H(2,4-8) unfolding freed_def by auto
  have m: "pmem g' a = pmem (pgs s) a" if "pg_no a \<in> all_pages False (pgs s) \<union> frames s T" for a using that n by (intro F(5)) metis
  have f: "frames s T \<inter> free_pages True g' = {}"
    using frames_not_free [OF sp] F(4) by blast
  note c = space_change [OF sp F(1-3) m f]
  have "free_pages v g' = free_pages v (pgs s)" for v using F(3,4) by (cases v) auto
  then have "kept pd s T (s\<lparr>pgs := g'\<rparr>) T" using c(3) F(2) by (simp add: kept_def budget_def fun_eq_iff)
  then show ?thesis using g'(1) c(1,2) by blast
qed

lemma tables_pool: "dir_rep s pd T \<Longrightarrow> insert (pg_no pd) (tables T) \<subseteq> all_pages False (pgs s)"
  using dir_repD(4,7) unfolding tables_def by blast

lemma exclusiveI:
  assumes r: "dir_rep s pd T" and f: "frames s T \<subseteq> all_pages True (pgs s)" "frames s T \<inter> free_pages True (pgs s) = {}"
    and i: "inj_on (\<lambda>u. frame_no (pt_entry s T u)) (mapped s T)"
  shows "exclusive s pd T"
proof -
  have "frames s T \<subseteq> used_pages (pgs s)" using f by blast
  moreover have "frames s T \<inter> insert (pg_no pd) (tables T) = {}"
    using tables_pool [OF r] f(1) pools_disjoint [OF dir_repD(1) [OF r]] by blast
  ultimately show ?thesis using i by (simp add: exclusive_def)
qed

lemma budget_eq:
  assumes "space pd s T"
  shows "budget pd s T v = (if v then free_pages True (pgs s) \<union> frames s T else free_pages False (pgs s) \<union> tables T \<union> {pg_no pd})"
proof -
  note r = spaceD(1) [OF assms]
  have "all_pages True (pgs s) \<inter> insert (pg_no pd) (tables T \<union> frames s T) = frames s T"
    "all_pages False (pgs s) \<inter> insert (pg_no pd) (tables T \<union> frames s T) = insert (pg_no pd) (tables T)"
    using tables_pool [OF r] spaceD(4) [OF assms] pools_disjoint [OF dir_repD(1) [OF r]] by blast+
  then show ?thesis unfolding budget_def by (cases v) auto
qed

lemma frame_pte_val: "kernel_page p \<Longrightarrow> frame_no (pte_val p w) = pg_no p"
  by (simp add: frame_no_def pte_val)

lemma kernel_page_bound: "kernel_page p \<Longrightarrow> pg_no p < pg_no PHYS_BASE + n \<Longrightarrow> (p - PHYS_BASE) div 2 ^ 12 < n"
  by (auto simp: kernel_page_def pg_no_def pg_ofs_def PGSIZE_def PGBITS_def PHYS_BASE_def elim!: dvdE)

text \<open>
  Mapping the page that is held: \<open>s'\<close> with tables \<open>T'\<close> is the state after the entry of the user page \<open>u\<close> has been written. \<open>added\<close> is what \<open>set_page_rep\<close> gives.
\<close>

definition added :: "addr \<Rightarrow> mmu \<Rightarrow> (nat \<Rightarrow> addr) \<Rightarrow> nat \<Rightarrow> u32 \<Rightarrow> mmu \<Rightarrow> (nat \<Rightarrow> addr) \<Rightarrow> bool" where
  "added pd s T u e s' T' \<longleftrightarrow> dir_rep s' pd T' \<and> targets_ok s' T' \<and> grown s T s' T' \<and>
     (\<forall>v<768 * 1024. pt_entry s' T' v = (if v = u then e else pt_entry s T v)) \<and> (\<exists>p. free_pages False (pgs s) \<subseteq> insert p (free_pages False (pgs s')))"

text \<open>The number of pages an operation takes at most from each pool.\<close>

definition costs :: "nat \<Rightarrow> mmu \<Rightarrow> mmu \<Rightarrow> bool" where
  "costs n s s' \<longleftrightarrow> (\<forall>v. card (free_pages v (pgs s)) \<le> card (free_pages v (pgs s')) + n)"

lemma finite_free: "finite (free_pages v g)"
  by (rule finite_subset [of _ "all_pages v g"]) (auto simp: pool_free_def pool_pages_def)

lemma card_one: "free_pages v (pgs s) \<subseteq> insert p (free_pages v (pgs s')) \<Longrightarrow> card (free_pages v (pgs s)) \<le> card (free_pages v (pgs s')) + 1"
proof -
  assume "free_pages v (pgs s) \<subseteq> insert p (free_pages v (pgs s'))"
  then have "card (free_pages v (pgs s)) \<le> card (insert p (free_pages v (pgs s')))" by (intro card_mono) (simp_all add: finite_free)
  also have "\<dots> \<le> card (free_pages v (pgs s')) + 1" by (simp add: card_insert_if [OF finite_free])
  finally show ?thesis .
qed

lemma addedD:
  assumes "added pd (s\<lparr>pgs := g\<rparr>) T u e s' T'" "holding s kpage g"
  shows "dir_rep s' pd T'" "targets_ok s' T'" "v < 768 * 1024 \<Longrightarrow> pt_entry s' T' v = (if v = u then e else pt_entry (s\<lparr>pgs := g\<rparr>) T v)"
    "all_pages b (pgs s') = all_pages b (pgs s)" "free_pages True (pgs s') = free_pages True (pgs s) - {pg_no kpage}"
    "free_pages False (pgs s') \<union> tables T' = free_pages False (pgs s) \<union> tables T"
    "pg_no a \<notin> all_pages False (pgs s) \<Longrightarrow> pmem (pgs s') a = pmem g a" "init_page_dir s' = init_page_dir s" "cr3 s' = cr3 s"
    "init_ram_pages s' = init_ram_pages s"
  using assms(1) holdingD(4-6) [OF assms(2)] by (auto simp: added_def grown_def)

lemma added_frames:
  assumes sp: "space pd s T" and h: "holding s kpage g" and u: "u < 768 * 1024" "pt_entry (s\<lparr>pgs := g\<rparr>) T u AND PTE_P = 0"
    and ad: "added pd (s\<lparr>pgs := g\<rparr>) T u (pte_val kpage w) s' T'"
  shows "frames s' T' = insert (pg_no kpage) (frames s T)" "inj_on (\<lambda>u. frame_no (pt_entry s' T' u)) (mapped s' T')"
proof -
  let ?s = "s\<lparr>pgs := g\<rparr>"
  note H = holdingD [OF h] and n = holding_fresh [OF sp h] and hs = holding_space [OF sp h] and e = addedD(3) [OF ad h]
  have M: "mapped s' T' = insert u (mapped ?s T)" "u \<notin> mapped ?s T"
    using e pte_val(3) [OF H(1), of w] u by (auto simp: mapped_def split: if_splits)
  have same: "frame_no (pt_entry s' T' v) = frame_no (pt_entry ?s T v)" if "v \<in> mapped ?s T" for v
    using e [of v] that M(2) by (auto simp: mapped_def)
  have "(\<lambda>u. frame_no (pt_entry s' T' u)) ` mapped ?s T = (\<lambda>u. frame_no (pt_entry ?s T u)) ` mapped ?s T"
    by (rule image_cong) (simp_all add: same)
  then show F: "frames s' T' = insert (pg_no kpage) (frames s T)" using e [OF u(1)] frame_pte_val [OF H(1)] hs(3) by (simp add: frames_def M(1))
  have "inj_on (\<lambda>u. frame_no (pt_entry s' T' u)) (mapped ?s T)" using spaceD(3) [OF hs(1)] same by (auto simp: exclusive_def inj_on_def)
  moreover have "frame_no (pt_entry s' T' u) \<notin> (\<lambda>u. frame_no (pt_entry s' T' u)) ` mapped ?s T"
    using e [OF u(1)] frame_pte_val [OF H(1)] n hs(3) same by (auto simp: frames_def)
  ultimately show "inj_on (\<lambda>u. frame_no (pt_entry s' T' u)) (mapped s' T')" unfolding M(1) inj_on_insert by auto
qed

lemma added_space:
  assumes sp: "space pd s T" and h: "holding s kpage g" and u: "u < 768 * 1024" "pt_entry (s\<lparr>pgs := g\<rparr>) T u AND PTE_P = 0"
    and ad: "added pd (s\<lparr>pgs := g\<rparr>) T u (pte_val kpage w) s' T'"
  shows "space pd s' T'" "kept pd s T s' T'" "costs 1 s s'"
proof -
  note H = holdingD [OF h] and G = addedD [OF ad h] and F = added_frames [OF assms]
  obtain p where "free_pages False (pgs s) \<subseteq> insert p (free_pages False (pgs s'))" using ad H(5) by (auto simp: added_def)
  moreover have "free_pages True (pgs s) \<subseteq> insert (pg_no kpage) (free_pages True (pgs s'))" using G(5) by blast
  ultimately have "card (free_pages v (pgs s)) \<le> card (free_pages v (pgs s')) + 1" for v by (cases v) (auto dest: card_one)
  then show "costs 1 s s'" by (simp add: costs_def)
  have "exclusive s' pd T'"
    using exclusiveI [OF G(1) _ _ F(2)] frames_not_free [OF sp] spaceD(4) [OF sp] H(8) G(4,5) F(1) by auto
  then show sp': "space pd s' T'" unfolding space_def using G(1,2) spaceD(4-6) [OF sp] H(8) by (simp add: F(1) G(4,8,10))
  show "kept pd s T s' T'" using G(4-6,8,9) H(2) F(1) by (auto simp: kept_def fun_eq_iff budget_eq [OF sp'] budget_eq [OF sp])
qed

lemma added_view:
  assumes sp: "space pd s T" and h: "holding s kpage g" and u: "u < 768 * 1024"
    and ad: "added pd (s\<lparr>pgs := g\<rparr>) T u (pte_val kpage w) s' T'" and va: "va < PHYS_BASE"
  shows "uview pd s' va = (if pg_no va = u then Some (pmem g (kpage + pg_ofs va)) else uview pd s va)"
proof -
  let ?s = "s\<lparr>pgs := g\<rparr>"
  note H = holdingD [OF h] and hs = holding_space [OF sp h] and G = addedD [OF ad h] and ui = user_page_index [OF va]
  note S = spaceD [OF hs(1)]
  have mem: "pmem (pgs s') (PGSIZE * f + pg_ofs va) = pmem g (PGSIZE * f + pg_ofs va)" if "f \<in> all_pages True (pgs s)" for f
    using G(7) [of "PGSIZE * f + pg_ofs va"] in_page [of "PGSIZE * f" "PGSIZE * f + pg_ofs va"] pg_ofs_less [of va] that
      pools_disjoint [OF dir_repD(1) [OF spaceD(1) [OF sp]], of f] by auto
  have k: "PGSIZE * pg_no kpage = kpage" using H(1) pg_split [of kpage] by (simp add: kernel_page_def)
  show ?thesis
  proof (cases "pg_no va = u")
    case True
    then show ?thesis using G(3) [OF u] pte_val(3) [OF H(1), of w] frame_pte_val [OF H(1), of w] mem [OF H(8)] k
      by (simp add: uview_rep [OF G(1,2) va])
  next
    case False
    have "frame_no (pt_entry ?s T (pg_no va)) \<in> all_pages True (pgs s)" if "pt_entry ?s T (pg_no va) AND PTE_P \<noteq> 0"
      using S(4) that ui H(4) by (auto simp: frames_def mapped_def)
    then have "uview pd s' va = uview pd ?s va" using False G(3) [OF ui] mem by (simp add: uview_rep [OF G(1,2) va] uview_rep [OF S(1,2) va] Let_def)
    then show ?thesis using False hs(2) [OF va] by simp
  qed
qed

lemma holding_map:
  assumes sp: "space pd s T" and h: "holding s kpage g" and up: "upage < PHYS_BASE" "pg_ofs upage = 0"
    and np: "pagedir_get_page pd upage (s\<lparr>pgs := g\<rparr>) = Some NULL"
  shows "(free_pages False (pgs s) = {} \<and> pagedir_set_page pd upage kpage w (s\<lparr>pgs := g\<rparr>) = Some (False, s\<lparr>pgs := g\<rparr>)) \<or>
    (\<exists>s' T'. pagedir_set_page pd upage kpage w (s\<lparr>pgs := g\<rparr>) = Some (True, s') \<and> space pd s' T' \<and> kept pd s T s' T' \<and> costs 1 s s' \<and>
       (\<forall>va<PHYS_BASE. uview pd s' va = (if pg_no va = pg_no upage then Some (pmem g (kpage + pg_ofs va)) else uview pd s va)))"
proof -
  let ?s = "s\<lparr>pgs := g\<rparr>"
  note H = holdingD [OF h] and S = spaceD [OF holding_space(1) [OF sp h]] and u = user_page_index [OF up(1)]
  have bound: "(kpage - PHYS_BASE) div 2 ^ 12 < init_ram_pages ?s"
    by (rule kernel_page_bound [OF H(1)]) (use S(6) [of "pg_no kpage"] H(4,8) in simp)
  have un: "pt_entry ?s T (pg_no upage) AND PTE_P = 0" using get_page_null [OF S(1) up(1) S(2)] np by simp
  from set_page_rep [OF S(1,2,5) H(1) bound up un, of w]
  consider "free_pages False (pgs s) = {}" "pagedir_set_page pd upage kpage w ?s = Some (False, ?s)"
    | s' T' where "pagedir_set_page pd upage kpage w ?s = Some (True, s')" "added pd ?s T (pg_no upage) (pte_val kpage w) s' T'"
    unfolding added_def using H(5) by auto
  then show ?thesis using added_space [OF sp h u un] added_view [OF sp h u] by cases blast+
qed

section \<open>Loading one page\<close>

lemma proc_upd [simp]: "s\<lparr>fsys := f, mm := m\<rparr> = s\<lparr>mm := m, fsys := f\<rparr>"
  by (cases s) simp

lemma get_page_total:
  assumes "space pd s T" "va < PHYS_BASE"
  shows "\<exists>p. pagedir_get_page pd va s = Some p"
proof -
  note S = spaceD [OF assms(1)]
  have "target_ok (pt_entry s T (pg_no va))" using S(2) user_page_index [OF assms(2)] by (simp add: targets_ok_def)
  then show ?thesis unfolding get_page_rep [OF S(1) assms(2)] target_ok_def by auto
qed

lemma install_page_spec:
  assumes sp: "space pd m T" and h: "holding m kpage g" and up: "upage < PHYS_BASE" "pg_ofs upage = 0" and s: "mm s = m\<lparr>pgs := g\<rparr>" "pagedir s = pd"
  shows "((free_pages False (pgs m) = {} \<or> uview pd m upage \<noteq> None) \<and> install_page upage kpage w s = Some (False, s)) \<or>
    (\<exists>m' T'. install_page upage kpage w s = Some (True, s\<lparr>mm := m'\<rparr>) \<and> space pd m' T' \<and> kept pd m T m' T' \<and> costs 1 m m' \<and>
       (\<forall>va<PHYS_BASE. uview pd m' va = (if pg_no va = pg_no upage then Some (pmem g (kpage + pg_ofs va)) else uview pd m va)))"
proof -
  obtain p where p: "pagedir_get_page pd upage (m\<lparr>pgs := g\<rparr>) = Some p" using get_page_total [OF holding_space(1) [OF sp h] up(1)] by blast
  have e: "s\<lparr>mm := m\<lparr>pgs := g\<rparr>\<rparr> = s" using s(1) by (cases s) simp
  show ?thesis
  proof (cases "p = NULL")
    case True
    then have i: "install_page upage kpage w s = do { (ok, m) \<leftarrow> pagedir_set_page pd upage kpage w (m\<lparr>pgs := g\<rparr>); Some (ok, s\<lparr>mm := m\<rparr>) }"
      using p s by (simp add: install_page_def)
    have "pagedir_get_page pd upage (m\<lparr>pgs := g\<rparr>) = Some NULL" using p True by simp
    from holding_map [OF sp h up this, of w] show ?thesis
    proof (elim disjE exE conjE)
      assume "free_pages False (pgs m) = {}" "pagedir_set_page pd upage kpage w (m\<lparr>pgs := g\<rparr>) = Some (False, m\<lparr>pgs := g\<rparr>)"
      then show ?thesis using i e by simp
    next
      fix m' T' assume "pagedir_set_page pd upage kpage w (m\<lparr>pgs := g\<rparr>) = Some (True, m')" "space pd m' T'" "kept pd m T m' T'" "costs 1 m m'"
        "\<forall>va<PHYS_BASE. uview pd m' va = (if pg_no va = pg_no upage then Some (pmem g (kpage + pg_ofs va)) else uview pd m va)"
      then show ?thesis using i by (intro disjI2 exI [of _ m'] exI [of _ T']) simp
    qed
  next
    case False
    then have "uview pd (m\<lparr>pgs := g\<rparr>) upage \<noteq> None" using p by (simp add: uview_def)
    then show ?thesis using False p s holding_space(2) [OF sp h up(1)] by (simp add: install_page_def)
  qed
qed

lemma taken_holding:
  assumes "page_taken True flg kpage (pgs m) g" "\<And>a. pg_no a \<noteq> pg_no kpage \<Longrightarrow> M a = pmem (pgs m) a"
  shows "holding m kpage (g\<lparr>pmem := M\<rparr>)"
proof -
  have "pages_ok (g\<lparr>pmem := M\<rparr>) \<longleftrightarrow> pages_ok g" by (simp add: pages_ok_def)
  then show ?thesis using assms unfolding page_taken_def holding_def by simp
qed

lemma free_and_fail_spec:
  assumes sp: "space pd m T" and h: "holding m kpage g" and s: "mm s = m\<lparr>pgs := g\<rparr>"
  shows "\<exists>m'. free_and_fail kpage s = Some (False, s\<lparr>mm := m'\<rparr>) \<and> space pd m' T \<and> kept pd m T m' T \<and> (\<forall>va<PHYS_BASE. uview pd m' va = uview pd m va)"
proof -
  obtain g' where g': "palloc_free_page kpage g = Some g'" "space pd (m\<lparr>pgs := g'\<rparr>) T" "kept pd m T (m\<lparr>pgs := g'\<rparr>) T"
    "\<forall>va<PHYS_BASE. uview pd (m\<lparr>pgs := g'\<rparr>) va = uview pd m va" using holding_free [OF sp h] by blast
  have "free_and_fail kpage s = Some (False, s\<lparr>mm := m\<lparr>pgs := g'\<rparr>\<rparr>)" using g'(1) s by (simp add: free_and_fail_def set_pgs_def)
  then show ?thesis using g'(2-4) by blast
qed

text \<open>Mapping the page that is held, or giving it back when that fails.\<close>

lemma install_or_free:
  assumes sp: "space pd m T" and h: "holding m kpage g" and up: "upage < PHYS_BASE" "pg_ofs upage = 0" and s: "mm s = m\<lparr>pgs := g\<rparr>" "pagedir s = pd"
  shows "\<exists>ok m' T'. do { (ok, s) \<leftarrow> install_page upage kpage w s; if \<not> ok then free_and_fail kpage s else Some (True, s) } = Some (ok, s\<lparr>mm := m'\<rparr>) \<and>
    space pd m' T' \<and> kept pd m T m' T' \<and> (if ok then costs 1 m m' else free_pages False (pgs m) = {} \<or> uview pd m upage \<noteq> None) \<and>
    (\<forall>va<PHYS_BASE. uview pd m' va = (if ok \<and> pg_no va = pg_no upage then Some (pmem g (kpage + pg_ofs va)) else uview pd m va))"
  using install_page_spec [OF assms, of w]
proof (elim disjE [where P = "_ \<and> _"] exE conjE)
  assume i: "install_page upage kpage w s = Some (False, s)" "free_pages False (pgs m) = {} \<or> uview pd m upage \<noteq> None"
  obtain m' where m': "free_and_fail kpage s = Some (False, s\<lparr>mm := m'\<rparr>)" "space pd m' T" "kept pd m T m' T"
    "\<forall>va<PHYS_BASE. uview pd m' va = uview pd m va" using free_and_fail_spec [OF sp h s(1)] by auto
  then show ?thesis using i by (intro exI [of _ False] exI [of _ m'] exI [of _ T]) simp
next
  fix m' T'
  assume "install_page upage kpage w s = Some (True, s\<lparr>mm := m'\<rparr>)" "space pd m' T'" "kept pd m T m' T'" "costs 1 m m'"
    "\<forall>va<PHYS_BASE. uview pd m' va = (if pg_no va = pg_no upage then Some (pmem g (kpage + pg_ofs va)) else uview pd m va)"
  then show ?thesis by (intro exI [of _ True] exI [of _ m'] exI [of _ T']) simp
qed

text \<open>What a page of a segment holds: the bytes read, then zeros.\<close>

definition page_image :: "u8 list \<Rightarrow> nat \<Rightarrow> u8" where
  "page_image bs i = (if i < length bs then bs ! i else 0)"

lemma filled_holding:
  assumes tk: "page_taken True flg kpage (pgs m) g" and z: "flg AND PAL_ZERO = 0" and n: "length bs \<le> n" "n \<le> PGSIZE"
  shows "holding m kpage (g\<lparr>pmem := put_bytes kpage bs (pmem g)\<rparr>)"
    "holding m kpage (g\<lparr>pmem := memset_loop (PGSIZE - n) (kpage + n) 0 (put_bytes kpage bs (pmem g))\<rparr>)"
proof -
  have kp: "pg_ofs kpage = 0" using tk by (simp add: page_taken_def kernel_page_def)
  have out: "a < kpage \<or> kpage + PGSIZE \<le> a" if "pg_no a \<noteq> pg_no kpage" for a using in_page [OF kp, of a] that by linarith
  have gm: "pmem g = pmem (pgs m)" using tk z by (simp add: page_taken_def fun_eq_iff)
  have M: "put_bytes kpage bs (pmem g) a = pmem (pgs m) a" if "pg_no a \<noteq> pg_no kpage" for a
    using out [OF that] n by (auto simp: put_bytes_def gm)
  show "holding m kpage (g\<lparr>pmem := put_bytes kpage bs (pmem g)\<rparr>)" by (rule taken_holding [OF tk M])
  have "memset_loop (PGSIZE - n) (kpage + n) 0 (put_bytes kpage bs (pmem g)) a = pmem (pgs m) a" if "pg_no a \<noteq> pg_no kpage" for a
    using out [OF that] n M [OF that] by (auto simp: memset_loop_eq)
  then show "holding m kpage (g\<lparr>pmem := memset_loop (PGSIZE - n) (kpage + n) 0 (put_bytes kpage bs (pmem g))\<rparr>)" by (rule taken_holding [OF tk])
qed

lemma load_one_spec:
  assumes sp: "space (pagedir s) (mm s) T" and up: "upage < PHYS_BASE" "pg_ofs upage = 0" and n: "n \<le> PGSIZE"
    and rd: "file_read fp (int n) (fsys s) = Some (bs, f)" "length bs \<le> n"
  shows "\<exists>ok m' f' T'. load_one fp upage n w s = Some (ok, s\<lparr>mm := m', fsys := f'\<rparr>) \<and> space (pagedir s) m' T' \<and> kept (pagedir s) (mm s) T m' T' \<and>
    f' \<in> {fsys s, f} \<and>
    (if ok then f' = f \<and> length bs = n \<and> costs 1 (mm s) m'
     else (\<exists>v. free_pages v (pgs (mm s)) = {}) \<or> uview (pagedir s) (mm s) upage \<noteq> None \<or> length bs \<noteq> n) \<and>
    (\<forall>va<PHYS_BASE. uview (pagedir s) m' va =
       (if ok \<and> pg_no va = pg_no upage then Some (page_image bs (pg_ofs va)) else uview (pagedir s) (mm s) va))"
proof -
  let ?m = "mm s" and ?pd = "pagedir s"
  note S = spaceD [OF sp]
  have f: "PAL_USER AND PAL_ASSERT = 0" "True \<longleftrightarrow> PAL_USER AND PAL_USER \<noteq> 0" "PAL_USER AND PAL_ZERO = 0"
    by (simp_all add: PAL_USER_def PAL_ASSERT_def PAL_ZERO_def)
  from page_alloc [OF dir_repD(1) [OF S(1)] dir_rep_pools [OF S(1)] f(1,2)] show ?thesis
  proof (elim disjE exE conjE)
    assume al: "palloc_get_page PAL_USER (pgs ?m) = Some (NULL, pgs ?m)" "free_pages True (pgs ?m) = {}"
    then have "load_one fp upage n w s = Some (False, s\<lparr>mm := ?m, fsys := fsys s\<rparr>)" by (simp add: load_one_def set_pgs_def)
    then show ?thesis using sp al(2) by (intro exI [of _ False] exI [of _ ?m] exI [of _ "fsys s"] exI [of _ T]) auto
  next
    fix kpage g
    assume al: "palloc_get_page PAL_USER (pgs ?m) = Some (kpage, g)" and tk: "page_taken True PAL_USER kpage (pgs ?m) g"
    have nn: "kpage \<noteq> NULL" using tk kernel_page_vtop(2) by (auto simp: page_taken_def)
    let ?M1 = "put_bytes kpage bs (pmem g)"
    let ?M2 = "memset_loop (PGSIZE - n) (kpage + n) 0 ?M1"
    note h = filled_holding [OF tk f(3) rd(2) n]
    let ?s1 = "s\<lparr>mm := ?m\<lparr>pgs := g\<lparr>pmem := ?M1\<rparr>\<rparr>, fsys := f\<rparr>" and ?s2 = "s\<lparr>mm := ?m\<lparr>pgs := g\<lparr>pmem := ?M2\<rparr>\<rparr>, fsys := f\<rparr>"
    show ?thesis
    proof (cases "length bs = n")
      case False
      obtain m' where m': "free_and_fail kpage ?s1 = Some (False, ?s1\<lparr>mm := m'\<rparr>)" "space ?pd m' T" "kept ?pd ?m T m' T"
        "\<forall>va<PHYS_BASE. uview ?pd m' va = uview ?pd ?m va" using free_and_fail_spec [OF sp h(1), of ?s1] by auto
      have "load_one fp upage n w s = free_and_fail kpage ?s1"
        using al nn rd(1) False by (simp add: load_one_def set_pgs_def set_mem_def)
      then show ?thesis using m' False by (intro exI [of _ False] exI [of _ m'] exI [of _ f] exI [of _ T]) simp
    next
      case True
      have ms: "memset (kpage + n) 0 (PGSIZE - n) ?M1 = Some (kpage + n, ?M2)" using nn by (simp add: memset_def)
      have l: "load_one fp upage n w s = do { (ok, s) \<leftarrow> install_page upage kpage w ?s2; if \<not> ok then free_and_fail kpage s else Some (True, s) }"
        using al nn rd(1) True ms by (simp add: load_one_def set_pgs_def set_mem_def)
      have pg: "?M2 (kpage + pg_ofs va) = page_image bs (pg_ofs va)" for va
        using pg_ofs_less [of va] True n by (auto simp: memset_loop_eq put_bytes_def page_image_def)
      obtain ok m' T' where i: "load_one fp upage n w s = Some (ok, ?s2\<lparr>mm := m'\<rparr>)" "space ?pd m' T'" "kept ?pd ?m T m' T'"
        "if ok then costs 1 ?m m' else free_pages False (pgs ?m) = {} \<or> uview ?pd ?m upage \<noteq> None"
        "\<forall>va<PHYS_BASE. uview ?pd m' va = (if ok \<and> pg_no va = pg_no upage then Some (?M2 (kpage + pg_ofs va)) else uview ?pd ?m va)"
        using install_or_free [OF sp h(2) up, of ?s2 w] l by auto
      then show ?thesis using True unfolding pg by (intro exI [of _ ok] exI [of _ m'] exI [of _ f] exI [of _ T']) (cases ok; auto)
    qed
  qed
qed

section \<open>Reading the executable\<close>

text \<open>The file \<open>fp\<close> is open, has the contents \<open>C\<close> and is at position \<open>k\<close>. Reading it leaves the rest of the file system alone.\<close>

definition has_file :: "fs \<Rightarrow> addr \<Rightarrow> u8 list \<Rightarrow> bool" where
  "has_file f fp C \<longleftrightarrow> fp \<noteq> NULL \<and> io_ok f (file_inode (files f fp)) \<and> contents f (file_inode (files f fp)) = C"

definition file_at :: "fs \<Rightarrow> addr \<Rightarrow> u8 list \<Rightarrow> nat \<Rightarrow> bool" where
  "file_at f fp C k \<longleftrightarrow> has_file f fp C \<and> pos (files f fp) = int k \<and> k < 2 ^ 31"

definition moved :: "addr \<Rightarrow> fs \<Rightarrow> fs \<Rightarrow> bool" where
  "moved fp f f' \<longleftrightarrow> (\<exists>k. same_io (upd_file fp (\<lambda>v. v\<lparr>pos := k\<rparr>) f) f')"

lemma moved_refl [simp]: "moved fp f f"
  unfolding moved_def by (intro exI [of _ "pos (files f fp)"]) (simp add: same_io_def upd_file_def)

lemma moved_trans:
  assumes "moved fp f f'" "moved fp f' f''"
  shows "moved fp f f''"
proof -
  obtain k k' where k: "same_io (upd_file fp (\<lambda>v. v\<lparr>pos := k\<rparr>) f) f'" "same_io (upd_file fp (\<lambda>v. v\<lparr>pos := k'\<rparr>) f') f''"
    using assms by (auto simp: moved_def)
  have "same_io (upd_file fp (\<lambda>v. v\<lparr>pos := k'\<rparr>) f) f''" using k by (simp add: same_io_def upd_file_def)
  then show ?thesis unfolding moved_def by blast
qed

lemma has_file_length: "has_file f fp C \<Longrightarrow> file_length fp f = Some (int (length C)) \<and> length C \<le> 2 ^ 31 - 512"
  by (auto simp: has_file_def file_length_def io_ok_def inode_ok_def)

lemma same_io_has_file: "same_io f f' \<Longrightarrow> has_file f fp C \<Longrightarrow> has_file f' fp C"
  by (auto simp: has_file_def same_io_def io_ok_def inode_ok_def disk_wf_def inode_length_def contents_def base_of_def dbyte_def)

lemma pos_has_file: "has_file (upd_file fp (\<lambda>v. v\<lparr>pos := h v\<rparr>) f) fp C \<longleftrightarrow> has_file f fp C"
  by (simp add: has_file_def upd_file_def io_ok_def inode_ok_def disk_wf_def inode_length_def contents_def base_of_def dbyte_def)

lemma moved_has_file: "moved fp f f' \<Longrightarrow> has_file f fp C \<Longrightarrow> has_file f' fp C"
  unfolding moved_def using same_io_has_file pos_has_file [of fp "\<lambda>_. _"] by blast

lemma file_seek_at:
  assumes "has_file f fp C" "j < 2 ^ 31"
  shows "\<exists>f'. file_seek fp (int j) f = Some f' \<and> file_at f' fp C j \<and> moved fp f f'"
proof (intro exI conjI)
  let ?f = "upd_file fp (\<lambda>v. v\<lparr>pos := int j\<rparr>) f"
  show "file_seek fp (int j) f = Some ?f" using assms by (simp add: has_file_def file_seek_def)
  show "moved fp f ?f" unfolding moved_def by (intro exI [of _ "int j"]) simp
  show "file_at ?f fp C j" using assms pos_has_file [of fp "\<lambda>_. int j" f C] unfolding file_at_def by (simp add: upd_file_def)
qed

lemma file_read_bytes:
  assumes a: "file_at f fp C k"
  shows "\<exists>bs f'. file_read fp (int n) f = Some (bs, f') \<and> length bs \<le> n \<and> moved fp f f' \<and> file_at f' fp C (k + length bs) \<and>
    (length bs = n \<longrightarrow> bs = take n (drop k C) \<and> (0 < n \<longrightarrow> k + n \<le> length C)) \<and> (avail f = [] \<longrightarrow> bs = take n (drop k C))"
proof -
  let ?p = "file_inode (files f fp)"
  have A: "has_file f fp C" "io_ok f ?p" "contents f ?p = C" "pos (files f fp) = int k" "k < 2 ^ 31" using a by (auto simp: file_at_def has_file_def)
  obtain j f1 where j: "inode_read_at ?p (int n) (int k) f = Some (take j (drop k C), f1)" "j \<le> n" "avail f = [] \<longrightarrow> j = n" "same_io f f1"
    using inode_read_at_bytes [OF A(2,5), of n] A(3) by auto
  let ?bs = "take j (drop k C)"
  let ?f = "upd_file fp (\<lambda>v. v\<lparr>pos := s32 (pos v + int (length ?bs))\<rparr>) f1"
  have "k + length ?bs < 2 ^ 31" using A(5) has_file_length [OF A(1)] by (auto simp: min_def)
  then have p: "s32 (int k + int (length ?bs)) = int (k + length ?bs)" by (subst s32_id) (auto simp: in_s32_def)
  have fl: "files f1 = files f" using j(4) by (simp add: same_io_def)
  have r: "file_read fp (int n) f = Some (?bs, ?f)" using j(1) A(4) by (simp add: file_read_def)
  moreover have "moved fp f ?f"
    unfolding moved_def using j(4) A(4) by (intro exI [of _ "s32 (int k + int (length ?bs))"]) (simp add: upd_file_def same_io_def)
  moreover have "has_file ?f fp C" using same_io_has_file [OF j(4) A(1)] by (simp only: pos_has_file)
  then have "file_at ?f fp C (k + length ?bs)" using p fl A(4) \<open>k + length ?bs < 2 ^ 31\<close> unfolding file_at_def by (simp add: upd_file_def)
  moreover have "?bs = take n (drop k C) \<and> (0 < n \<longrightarrow> k + n \<le> length C)" if "length ?bs = n"
    using that j(2) by (auto simp: min_def split: if_splits)
  ultimately show ?thesis using j(2,3) by (intro exI [of _ ?bs] exI [of _ ?f]) auto
qed

section \<open>Loading a segment\<close>

text \<open>User memory with a segment in it: \<open>r\<close> bytes of the file from position \<open>k\<close> on, then zeros.\<close>

definition segment :: "u8 list \<Rightarrow> nat \<Rightarrow> addr \<Rightarrow> nat \<Rightarrow> nat \<Rightarrow> (addr \<Rightarrow> u8 option) \<Rightarrow> addr \<Rightarrow> u8 option" where
  "segment C k upage r z V va =
     (if upage \<le> va \<and> va < upage + (r + z) then Some (if va - upage < r then C ! (k + (va - upage)) else 0) else V va)"

lemma same_page:
  assumes "pg_ofs upage = 0"
  shows "pg_no va = pg_no upage \<longleftrightarrow> upage \<le> va \<and> va < upage + PGSIZE" "pg_no va = pg_no upage \<Longrightarrow> pg_ofs va = va - upage"
proof -
  have "upage = PGSIZE * pg_no upage" using pg_split [of upage] assms by simp
  then show "pg_no va = pg_no upage \<longleftrightarrow> upage \<le> va \<and> va < upage + PGSIZE" "pg_no va = pg_no upage \<Longrightarrow> pg_ofs va = va - upage"
    using in_page [OF assms, of va] pg_split [of va] pg_ofs_less [of va] by (metis add_less_cancel_left le_add1, metis add_diff_cancel_left')
qed

text \<open>The first page, then the rest.\<close>

lemma segment_split:
  assumes up: "pg_ofs upage = 0" and n: "n = (if r < PGSIZE then r else PGSIZE)" and rz: "PGSIZE \<le> r + z" and bs: "bs = take n (drop k C)" "length bs = n"
  shows "segment C (k + n) (upage + PGSIZE) (r - n) (z - (PGSIZE - n)) (\<lambda>va. if pg_no va = pg_no upage then Some (page_image bs (pg_ofs va)) else V va) va =
    segment C k upage r z V va"
proof -
  have t: "upage + PGSIZE + (r - n + (z - (PGSIZE - n))) = upage + (r + z)" using n rz by auto
  show ?thesis
  proof (cases "pg_no va = pg_no upage")
    case True
    then have v: "upage \<le> va" "va - upage < PGSIZE" "pg_ofs va = va - upage" "va < upage + (r + z)" using same_page [OF up, of va] rz by auto
    have "page_image bs (va - upage) = (if va - upage < r then C ! (k + (va - upage)) else 0)"
      using v(2) n bs by (auto simp: page_image_def)
    then show ?thesis using True v t by (auto simp: segment_def)
  next
    case False
    then have v: "va < upage \<or> upage + PGSIZE \<le> va" using same_page(1) [OF up, of va] by linarith
    have "va - (upage + PGSIZE) < r - n \<longleftrightarrow> va - upage < r" "k + n + (va - (upage + PGSIZE)) = k + (va - upage) \<or> \<not> va - upage < r" if "upage + PGSIZE \<le> va"
      using that n by (auto split: if_splits)
    then show ?thesis using False v by (auto simp: segment_def t)
  qed
qed

text \<open>Enough for a load to succeed: memory for the reads, bytes in the file, no page mapped in the segment, and a free page of each pool for every page of it.\<close>

definition room :: "u8 list \<Rightarrow> nat \<Rightarrow> addr \<Rightarrow> nat \<Rightarrow> nat \<Rightarrow> addr \<Rightarrow> mmu \<Rightarrow> fs \<Rightarrow> bool" where
  "room C k upage r z pd m f \<longleftrightarrow> avail f = [] \<and> (0 < r \<longrightarrow> k + r \<le> length C) \<and> (\<forall>va. upage \<le> va \<and> va < upage + (r + z) \<longrightarrow> uview pd m va = None) \<and>
     (\<forall>v. (r + z) div PGSIZE \<le> card (free_pages v (pgs m)))"

lemma room_first:
  assumes "room C k upage r z pd m f" "PGSIZE \<le> r + z" "n \<le> r"
  shows "free_pages v (pgs m) \<noteq> {}" "uview pd m upage = None" "avail f = []" "length (take n (drop k C)) = n"
proof -
  have "1 \<le> (r + z) div PGSIZE" using assms(2) div_le_mono [OF assms(2), of PGSIZE] by simp
  moreover have "(r + z) div PGSIZE \<le> card (free_pages v (pgs m))" using assms(1) by (simp add: room_def)
  ultimately show "free_pages v (pgs m) \<noteq> {}" by auto
  have "upage < upage + (r + z)" using assms(2) PGSIZE_pos(1) by linarith
  then show "uview pd m upage = None" "avail f = []" "length (take n (drop k C)) = n" using assms(1,3) by (auto simp: room_def)
qed

lemma room_next:
  assumes "room C k upage r z pd m f" "PGSIZE \<le> r + z" "n \<le> r" "n \<le> PGSIZE" "r - n + (z - (PGSIZE - n)) = r + z - PGSIZE" "costs 1 m m'" "avail f' = []"
    and v: "\<And>va. upage + PGSIZE \<le> va \<Longrightarrow> va < upage + (r + z) \<Longrightarrow> uview pd m' va = uview pd m va"
  shows "room C (k + n) (upage + PGSIZE) (r - n) (z - (PGSIZE - n)) pd m' f'"
proof -
  have "(r + z - PGSIZE) div PGSIZE = (r + z) div PGSIZE - 1" using assms(2) by (simp add: div_if [of "r + z"])
  moreover have "(r + z) div PGSIZE \<le> card (free_pages v (pgs m')) + 1" for v
    using assms(1,6) by (meson costs_def le_trans room_def)
  ultimately have "(r + z - PGSIZE) div PGSIZE \<le> card (free_pages v (pgs m'))" for v by (simp add: le_diff_conv)
  then show ?thesis using assms(1-5,7) v unfolding room_def by auto
qed

text \<open>What a load of a segment does to an address space and the file, when it succeeds and when it does not.\<close>

definition seg_result :: "addr \<Rightarrow> addr \<Rightarrow> u8 list \<Rightarrow> nat \<Rightarrow> addr \<Rightarrow> nat \<Rightarrow> nat \<Rightarrow> mmu \<Rightarrow> (nat \<Rightarrow> addr) \<Rightarrow> fs \<Rightarrow> bool \<Rightarrow> mmu \<Rightarrow> (nat \<Rightarrow> addr) \<Rightarrow> fs \<Rightarrow> bool" where
  "seg_result pd fp C k upage r z m T f ok m' T' f' \<longleftrightarrow> space pd m' T' \<and> kept pd m T m' T' \<and> moved fp f f' \<and>
     (ok \<longrightarrow> (\<forall>va<PHYS_BASE. uview pd m' va = segment C k upage r z (uview pd m) va)) \<and> (room C k upage r z pd m f \<longrightarrow> ok) \<and>
     (\<forall>va<PHYS_BASE. va < upage \<or> upage + (r + z) \<le> va \<longrightarrow> uview pd m' va = uview pd m va)"

lemma load_one_file:
  assumes sp: "space (pagedir s) (mm s) T" and fa: "file_at (fsys s) fp C k" and up: "upage < PHYS_BASE" "pg_ofs upage = 0" and n: "n \<le> PGSIZE"
  shows "\<exists>ok m' f' T'. load_one fp upage n w s = Some (ok, s\<lparr>mm := m', fsys := f'\<rparr>) \<and> space (pagedir s) m' T' \<and> kept (pagedir s) (mm s) T m' T' \<and>
    moved fp (fsys s) f' \<and>
    (if ok then file_at f' fp C (k + n) \<and> length (take n (drop k C)) = n \<and> costs 1 (mm s) m'
     else (\<exists>v. free_pages v (pgs (mm s)) = {}) \<or> uview (pagedir s) (mm s) upage \<noteq> None \<or> avail (fsys s) \<noteq> [] \<or> length (take n (drop k C)) \<noteq> n) \<and>
    (\<forall>va<PHYS_BASE. uview (pagedir s) m' va =
       (if ok \<and> pg_no va = pg_no upage then Some (page_image (take n (drop k C)) (pg_ofs va)) else uview (pagedir s) (mm s) va))"
proof -
  obtain bs f where rd: "file_read fp (int n) (fsys s) = Some (bs, f)" "length bs \<le> n" "moved fp (fsys s) f" "file_at f fp C (k + length bs)"
    "length bs = n \<longrightarrow> bs = take n (drop k C)" "avail (fsys s) = [] \<longrightarrow> bs = take n (drop k C)" using file_read_bytes [OF fa, of n] by blast
  obtain ok m' f' T' where o: "load_one fp upage n w s = Some (ok, s\<lparr>mm := m', fsys := f'\<rparr>)" "space (pagedir s) m' T'" "kept (pagedir s) (mm s) T m' T'"
    "f' \<in> {fsys s, f}"
    "if ok then f' = f \<and> length bs = n \<and> costs 1 (mm s) m'
     else (\<exists>v. free_pages v (pgs (mm s)) = {}) \<or> uview (pagedir s) (mm s) upage \<noteq> None \<or> length bs \<noteq> n"
    "\<forall>va<PHYS_BASE. uview (pagedir s) m' va =
      (if ok \<and> pg_no va = pg_no upage then Some (page_image bs (pg_ofs va)) else uview (pagedir s) (mm s) va)"
    using load_one_spec [OF sp up n rd(1,2), of w] by metis
  have "moved fp (fsys s) f'" using o(4) rd(3) by auto
  then show ?thesis using o rd(4-6) by (intro exI [of _ ok] exI [of _ m'] exI [of _ f'] exI [of _ T']) (cases ok; auto)
qed

lemma moved_avail: "moved fp f f' \<Longrightarrow> avail f = [] \<Longrightarrow> avail f' = []"
  by (auto simp: moved_def same_io_def upd_file_def)

text \<open>The first page and the rest together.\<close>

lemma seg_result_step:
  assumes up: "pg_ofs upage = 0" and n: "n = (if r < PGSIZE then r else PGSIZE)" and rz: "PGSIZE \<le> r + z" and bd: "upage + (r + z) \<le> PHYS_BASE"
    and o: "kept pd m T m1 T1" "moved fp f f1" "length (take n (drop k C)) = n" "costs 1 m m1"
    and v1: "\<And>va. va < PHYS_BASE \<Longrightarrow> uview pd m1 va = (if pg_no va = pg_no upage then Some (page_image (take n (drop k C)) (pg_ofs va)) else uview pd m va)"
    and rest: "seg_result pd fp C (k + n) (upage + PGSIZE) (r - n) (z - (PGSIZE - n)) m1 T1 f1 ok m' T' f'"
  shows "seg_result pd fp C k upage r z m T f ok m' T' f'"
proof -
  let ?u = "upage + PGSIZE" and ?r = "r - n" and ?z = "z - (PGSIZE - n)"
  have t: "?u + (?r + ?z) = upage + (r + z)" "?r + ?z = r + z - PGSIZE" "n \<le> r" "n \<le> PGSIZE" using rz n by auto
  have i: "space pd m' T'" "kept pd m1 T1 m' T'" "moved fp f1 f'"
    "ok \<longrightarrow> (\<forall>va<PHYS_BASE. uview pd m' va = segment C (k + n) ?u ?r ?z (uview pd m1) va)" "room C (k + n) ?u ?r ?z pd m1 f1 \<longrightarrow> ok"
    "\<forall>va<PHYS_BASE. va < ?u \<or> ?u + (?r + ?z) \<le> va \<longrightarrow> uview pd m' va = uview pd m1 va" using rest by (simp_all add: seg_result_def)
  have "uview pd m' va = segment C k upage r z (uview pd m) va" if "ok" "va < PHYS_BASE" for va
  proof -
    have "uview pd m' va = segment C (k + n) ?u ?r ?z (uview pd m1) va" using i(4) that by blast
    also have "\<dots> = segment C (k + n) ?u ?r ?z (\<lambda>va. if pg_no va = pg_no upage then Some (page_image (take n (drop k C)) (pg_ofs va)) else uview pd m va) va"
      unfolding segment_def v1 [OF that(2)] by (rule refl)
    also have "\<dots> = segment C k upage r z (uview pd m) va" by (rule segment_split [OF up n rz refl o(3)])
    finally show ?thesis .
  qed
  moreover have "uview pd m' va = uview pd m va" if "va < PHYS_BASE" "va < upage \<or> upage + (r + z) \<le> va" for va
    using i(6) that t(1) v1 [OF that(1)] same_page(1) [OF up, of va] rz by auto
  moreover have "ok" if rm: "room C k upage r z pd m f"
  proof -
    have "uview pd m1 va = uview pd m va" if "?u \<le> va" "va < upage + (r + z)" for va
      using v1 [of va] that bd same_page(1) [OF up, of va] by simp
    moreover have "avail f1 = []" using moved_avail [OF o(2)] rm by (simp add: room_def)
    ultimately show ?thesis using room_next [OF rm rz t(3,4,2) o(4), of f1] i(5) by blast
  qed
  ultimately show ?thesis unfolding seg_result_def using i(1) kept_trans [OF o(1) i(2)] moved_trans [OF o(2) i(3)] by blast
qed

lemma load_loop_spec:
  assumes "space (pagedir s) (mm s) T" "file_at (fsys s) fp C k" "pg_ofs upage = 0" "upage + (r + z) \<le> PHYS_BASE" "(r + z) mod PGSIZE = 0"
  shows "\<exists>ok m' f' T'. load_loop fp upage r z w s = Some (ok, s\<lparr>mm := m', fsys := f'\<rparr>) \<and>
    seg_result (pagedir s) fp C k upage r z (mm s) T (fsys s) ok m' T' f'"
  using assms
proof (induction "r + z" arbitrary: upage r z s T k rule: less_induct)
  case (less r z upage s T k)
  note sp = less.prems(1) and fa = less.prems(2) and up = less.prems(3)
  let ?pd = "pagedir s"
  show ?case
  proof (cases "r > 0 \<or> z > 0")
    case False
    then have "load_loop fp upage r z w s = Some (True, s\<lparr>mm := mm s, fsys := fsys s\<rparr>)" by (subst load_loop.simps) simp
    then show ?thesis using sp False
      by (intro exI [of _ True] exI [of _ "mm s"] exI [of _ "fsys s"] exI [of _ T]) (auto simp: segment_def seg_result_def)
  next
    case True
    define n where "n = (if r < PGSIZE then r else PGSIZE)"
    have rz: "PGSIZE \<le> r + z" using True less.prems(5) by (metis add_is_0 mod_less not_gr_zero not_less)
    have n: "n \<le> PGSIZE" "upage < PHYS_BASE" "n \<le> r" using rz less.prems(4) True by (auto simp: n_def)
    let ?bs = "take n (drop k C)"
    obtain ok m1 f1 T1 where o: "load_one fp upage n w s = Some (ok, s\<lparr>mm := m1, fsys := f1\<rparr>)" "space ?pd m1 T1" "kept ?pd (mm s) T m1 T1"
      "moved fp (fsys s) f1"
      "if ok then file_at f1 fp C (k + n) \<and> length ?bs = n \<and> costs 1 (mm s) m1
       else (\<exists>v. free_pages v (pgs (mm s)) = {}) \<or> uview ?pd (mm s) upage \<noteq> None \<or> avail (fsys s) \<noteq> [] \<or> length ?bs \<noteq> n"
      "\<forall>va<PHYS_BASE. uview ?pd m1 va = (if ok \<and> pg_no va = pg_no upage then Some (page_image ?bs (pg_ofs va)) else uview ?pd (mm s) va)"
      using load_one_file [OF sp fa n(2) up n(1), of w] by (elim exE conjE) (rule that)
    show ?thesis
    proof (cases ok)
      case False
      then have "load_loop fp upage r z w s = Some (False, s\<lparr>mm := m1, fsys := f1\<rparr>)"
        using o(1) True by (simp add: load_loop.simps [of _ _ r] n_def)
      moreover have "\<not> room C k upage r z ?pd (mm s) (fsys s)" using room_first [OF _ rz n(3)] o(5) False by auto
      ultimately show ?thesis using o(2,3,4,6) False by (intro exI [of _ False] exI [of _ m1] exI [of _ f1] exI [of _ T1]) (auto simp: seg_result_def)
    next
      case ok: True
      let ?s = "s\<lparr>mm := m1, fsys := f1\<rparr>" and ?u = "upage + PGSIZE" and ?r = "r - n" and ?z = "z - (PGSIZE - n)"
      have um: "(upage + PGSIZE) mod 2 ^ 32 = ?u" using rz less.prems(4) by (simp add: PHYS_BASE_def)
      have t: "?u + (?r + ?z) = upage + (r + z)" "?r + ?z = r + z - PGSIZE" using rz by (auto simp: n_def)
      have l: "load_loop fp upage r z w s = load_loop fp ?u ?r ?z w ?s"
        using o(1) True ok um by (simp add: load_loop.simps [of _ _ r] n_def)
      have "(?r + ?z) mod PGSIZE = 0" using less.prems(5) rz unfolding t(2) by (simp add: mod_eq_0_iff_dvd dvd_diff_nat)
      moreover have "pg_ofs ?u = 0" using up by (simp add: pg_ofs_def)
      moreover have "?r + ?z < r + z" "space (pagedir ?s) (mm ?s) T1" "file_at (fsys ?s) fp C (k + n)" "?u + (?r + ?z) \<le> PHYS_BASE"
        using t rz o(2,5) ok less.prems(4) PGSIZE_pos(1) by (simp_all del: PGSIZE_pos)
      ultimately obtain ok' m' f' T' where l2: "load_loop fp ?u ?r ?z w ?s = Some (ok', ?s\<lparr>mm := m', fsys := f'\<rparr>)"
        and "seg_result (pagedir ?s) fp C (k + n) ?u ?r ?z (mm ?s) T1 (fsys ?s) ok' m' T' f'"
        using less.hyps [of ?r ?z ?s T1 "k + n" ?u] by metis
      then have "seg_result ?pd fp C k upage r z (mm s) T (fsys s) ok' m' T' f'"
        using seg_result_step [OF up n_def rz less.prems(4) o(3,4)] o(5,6) ok by simp
      then show ?thesis using l l2 by (intro exI [of _ ok'] exI [of _ m'] exI [of _ f'] exI [of _ T']) simp
    qed
  qed
qed

lemma load_segment_spec:
  assumes sp: "space (pagedir s) (mm s) T" and fa: "has_file (fsys s) fp C" and seg: "pg_ofs upage = 0" "upage + (r + z) \<le> PHYS_BASE" "(r + z) mod PGSIZE = 0"
    and ofs: "ofs < 2 ^ 31" "ofs mod 4096 = 0"
  shows "\<exists>ok m' f' T'. load_segment fp (int ofs) upage r z w s = Some (ok, s\<lparr>mm := m', fsys := f'\<rparr>) \<and>
    seg_result (pagedir s) fp C ofs upage r z (mm s) T (fsys s) ok m' T' f'"
proof -
  obtain f where f: "file_seek fp (int ofs) (fsys s) = Some f" "file_at f fp C ofs" "moved fp (fsys s) f" using file_seek_at [OF fa ofs(1)] by blast
  obtain q where q: "ofs = 4096 * q" using ofs(2) by (auto elim: dvdE)
  have "c_mod (int ofs) 4096 = 0" by (simp add: c_mod_def q)
  then have l: "load_segment fp (int ofs) upage r z w s = load_loop fp upage r z w (s\<lparr>fsys := f\<rparr>)"
    using f(1) seg by (simp add: load_segment_def)
  have "\<exists>ok m' f' T'. load_loop fp upage r z w (s\<lparr>fsys := f\<rparr>) = Some (ok, s\<lparr>fsys := f\<rparr>\<lparr>mm := m', fsys := f'\<rparr>) \<and>
    seg_result (pagedir (s\<lparr>fsys := f\<rparr>)) fp C ofs upage r z (mm (s\<lparr>fsys := f\<rparr>)) T (fsys (s\<lparr>fsys := f\<rparr>)) ok m' T' f'"
    by (rule load_loop_spec) (use sp f(2) seg in simp_all)
  then obtain ok m' f' T' where i: "load_loop fp upage r z w (s\<lparr>fsys := f\<rparr>) = Some (ok, s\<lparr>mm := m', fsys := f'\<rparr>)"
    "seg_result (pagedir s) fp C ofs upage r z (mm s) T f ok m' T' f'" by auto
  moreover have "seg_result (pagedir s) fp C ofs upage r z (mm s) T (fsys s) ok m' T' f'"
    using i(2) moved_trans [OF f(3)] moved_avail [OF f(3)] unfolding seg_result_def room_def by blast
  ultimately show ?thesis using l by auto
qed

text \<open>
  C23 Loading a segment of an executable. No assertion fails. On success user code sees, from the first page of the segment on, the bytes of the file from the
  given offset followed by zeros, and all its other memory as before; on failure memory outside of the segment is as before. The address
  space stays well formed. The load succeeds when the file has the bytes, no page of the segment is mapped, reads find their memory and both pools
  have a free page for each page of the segment.
\<close>

theorem load_segment_correct:
  assumes "space (pagedir s) (mm s) T" "has_file (fsys s) fp C" "pg_ofs upage = 0" "upage + (r + z) \<le> PHYS_BASE" "(r + z) mod PGSIZE = 0"
    "ofs < 2 ^ 31" "ofs mod 4096 = 0"
  shows "\<exists>ok s' T'. load_segment fp (int ofs) upage r z w s = Some (ok, s') \<and> pagedir s' = pagedir s \<and> space (pagedir s) (mm s') T' \<and>
    (\<forall>va. va < PHYS_BASE \<longrightarrow>
       (if ok then uview (pagedir s) (mm s') va =
          (if upage \<le> va \<and> va < upage + (r + z) then Some (if va - upage < r then C ! (ofs + (va - upage)) else 0) else uview (pagedir s) (mm s) va)
        else va < upage \<or> upage + (r + z) \<le> va \<longrightarrow> uview (pagedir s) (mm s') va = uview (pagedir s) (mm s) va)) \<and>
    (avail (fsys s) = [] \<and> ofs + r \<le> length C \<and> (\<forall>va. upage \<le> va \<and> va < upage + (r + z) \<longrightarrow> uview (pagedir s) (mm s) va = None) \<and>
      (\<forall>v. (r + z) div PGSIZE \<le> card (free_pages v (pgs (mm s)))) \<longrightarrow> ok)"
proof -
  obtain ok m' f' T' where l: "load_segment fp (int ofs) upage r z w s = Some (ok, s\<lparr>mm := m', fsys := f'\<rparr>)"
    and sr: "seg_result (pagedir s) fp C ofs upage r z (mm s) T (fsys s) ok m' T' f'"
    using load_segment_spec [OF assms] by metis
  show ?thesis using l sr unfolding seg_result_def segment_def room_def
    by (intro exI [of _ ok] exI [of _ "s\<lparr>mm := m', fsys := f'\<rparr>"] exI [of _ T']) auto
qed

section \<open>The stack and the program headers\<close>

text \<open>Every step of a load keeps the address space well formed, gives no page away and changes no file.\<close>

definition load_result :: "addr \<Rightarrow> proc \<Rightarrow> (nat \<Rightarrow> addr) \<Rightarrow> proc \<Rightarrow> bool" where
  "load_result fp s T s' \<longleftrightarrow> (\<exists>m' f' T'. s' = s\<lparr>mm := m', fsys := f'\<rparr> \<and> space (pagedir s) m' T' \<and> kept (pagedir s) (mm s) T m' T' \<and> moved fp (fsys s) f')"

lemma load_result_refl: "space (pagedir s) (mm s) T \<Longrightarrow> load_result fp s T s"
  unfolding load_result_def by (intro exI [of _ "mm s"] exI [of _ "fsys s"] exI [of _ T]) simp

lemma setup_stack_spec:
  assumes sp: "space (pagedir s) (mm s) T"
  shows "\<exists>r s'. setup_stack s = Some (r, s') \<and> load_result fp s T s'"
proof -
  note S = spaceD [OF sp]
  have f: "(PAL_USER OR PAL_ZERO) AND PAL_ASSERT = 0" "True \<longleftrightarrow> (PAL_USER OR PAL_ZERO) AND PAL_USER \<noteq> 0"
    by (simp_all add: PAL_USER_def PAL_ASSERT_def PAL_ZERO_def)
  have up: "PHYS_BASE - PGSIZE < PHYS_BASE" "pg_ofs (PHYS_BASE - PGSIZE) = 0" by (simp_all add: PHYS_BASE_def PGSIZE_def pg_ofs_def)
  from page_alloc [OF dir_repD(1) [OF S(1)] dir_rep_pools [OF S(1)] f] show ?thesis
  proof (elim disjE exE conjE)
    assume "palloc_get_page (PAL_USER OR PAL_ZERO) (pgs (mm s)) = Some (NULL, pgs (mm s))"
    then have "setup_stack s = Some (None, s)" by (simp add: setup_stack_def set_pgs_def)
    then show ?thesis using load_result_refl [OF sp] by blast
  next
    fix kpage g
    assume al: "palloc_get_page (PAL_USER OR PAL_ZERO) (pgs (mm s)) = Some (kpage, g)" and tk: "page_taken True (PAL_USER OR PAL_ZERO) kpage (pgs (mm s)) g"
    have kp: "kernel_page kpage" "pg_ofs kpage = 0" using tk by (simp_all add: page_taken_def kernel_page_def)
    have nn: "kpage \<noteq> NULL" by (rule kernel_page_vtop(2) [OF kp(1)])
    have "pmem g a = pmem (pgs (mm s)) a" if "pg_no a \<noteq> pg_no kpage" for a
      using tk in_page [OF kp(2), of a] that unfolding page_taken_def by meson
    then have h: "holding (mm s) kpage g" using taken_holding [OF tk, of "pmem g"] by simp
    let ?s = "s\<lparr>mm := (mm s)\<lparr>pgs := g\<rparr>\<rparr>"
    have st: "setup_stack s = do { (ok, s) \<leftarrow> install_page (PHYS_BASE - PGSIZE) kpage True ?s;
        if ok then Some (Some PHYS_BASE, s) else do { (_, s) \<leftarrow> free_and_fail kpage s; Some (None, s) } }"
      using al nn by (simp add: setup_stack_def set_pgs_def)
    have s: "mm ?s = (mm s)\<lparr>pgs := g\<rparr>" "pagedir ?s = pagedir s" by simp_all
    from install_page_spec [OF sp h up s, of True] show ?thesis
    proof (elim disjE [where P = "_ \<and> _"] exE conjE)
      assume i: "install_page (PHYS_BASE - PGSIZE) kpage True ?s = Some (False, ?s)"
      obtain m' where m': "free_and_fail kpage ?s = Some (False, ?s\<lparr>mm := m'\<rparr>)" "space (pagedir s) m' T" "kept (pagedir s) (mm s) T m' T"
        using free_and_fail_spec [OF sp h, of ?s] by auto
      have "load_result fp s T (s\<lparr>mm := m'\<rparr>)" unfolding load_result_def using m'(2,3) by (intro exI [of _ m'] exI [of _ "fsys s"] exI [of _ T]) simp
      then show ?thesis using st i m'(1) by simp
    next
      fix m' T' assume i: "install_page (PHYS_BASE - PGSIZE) kpage True ?s = Some (True, ?s\<lparr>mm := m'\<rparr>)" "space (pagedir s) m' T'"
        "kept (pagedir s) (mm s) T m' T'"
      have "load_result fp s T (s\<lparr>mm := m'\<rparr>)" unfolding load_result_def using i(2,3) by (intro exI [of _ m'] exI [of _ "fsys s"] exI [of _ T']) simp
      then show ?thesis using st i(1) by simp
    qed
  qed
qed

text \<open>The numbers that \<^verbatim>\<open>load\<close> computes from a valid header.\<close>

lemma unat_page_parts:
  fixes w :: u32
  shows "unat (w AND PGMASK) = unat w mod 4096" "unat (w AND NOT PGMASK) = unat w - unat w mod 4096"
proof -
  have m: "w AND PGMASK = take_bit 12 w" by (simp add: PGMASK_def take_bit_eq_mask mask_eq_exp_minus_1)
  show u: "unat (w AND PGMASK) = unat w mod 4096" unfolding m take_bit_eq_mod by (simp add: unat_mod)
  have "w - (w AND PGMASK) = w AND NOT (w AND PGMASK)" by (rule disjunctive_diff) (simp add: bit_simps)
  also have "\<dots> = w AND NOT PGMASK" by (intro bit_word_eqI) (auto simp: bit_simps)
  finally have "w AND NOT PGMASK = w - (w AND PGMASK)" by simp
  moreover have "unat (w - (w AND PGMASK)) = unat w - unat (w AND PGMASK)" by (rule unat_sub) (simp add: word_le_nat_alt u)
  ultimately show "unat (w AND NOT PGMASK) = unat w - unat w mod 4096" by (simp add: u)
qed

lemma segment_numbers:
  fixes v ms fs :: u32
  assumes a: "fs \<le> ms" "unat (v + ms) < PHYS_BASE" "\<not> v + ms < v"
  defines "R \<equiv> unat (ROUND_UP ((v AND PGMASK) + ms) 0x1000)"
  shows "pg_ofs (unat (v AND NOT PGMASK)) = 0" "R mod PGSIZE = 0" "unat (v AND NOT PGMASK) + R \<le> PHYS_BASE"
    "unat ((v AND PGMASK) + fs) + unat (ROUND_UP ((v AND PGMASK) + ms) 0x1000 - ((v AND PGMASK) + fs)) = R"
proof -
  let ?v = "unat v" and ?m = "unat ms" and ?f = "unat fs" and ?o = "unat v mod 4096"
  have vm: "unat (v + ms) = ?v + ?m" using a(3) unsigned_less [of ms, where 'a = nat] by (simp add: word_less_nat_alt unat_plus_if' split: if_splits)
  then have b: "?v + ?m < 3221225472" using a(2) by (simp add: PHYS_BASE_def)
  have fm: "?f \<le> ?m" using a(1) by (simp add: word_le_nat_alt)
  have o: "?o \<le> ?v" "?o < 4096" by simp_all
  have p: "unat ((v AND PGMASK) + ms) = ?o + ?m" "unat ((v AND PGMASK) + fs) = ?o + ?f"
    using b o fm by (simp_all add: unat_word_ariths(1) unat_page_parts)
  have "unat ((v AND PGMASK) + ms + 0x1000 - 1) = ?o + ?m + 4095"
    using b o by (simp add: add.assoc unat_word_ariths(1) unat_page_parts)
  then have R: "R = (?o + ?m + 4095) div 4096 * 4096"
    using b o unfolding R_def ROUND_UP_def by (simp add: unat_word_ariths(2) unat_div)
  show "pg_ofs (unat (v AND NOT PGMASK)) = 0" by (simp add: unat_page_parts pg_ofs_def PGSIZE_def minus_mod_eq_mult_div)
  show "R mod PGSIZE = 0" by (simp add: R PGSIZE_def)
  have le: "?o + ?m \<le> R"
    using div_mult_mod_eq [of "?o + ?m + 4095" 4096] mod_less_divisor [of 4096 "?o + ?m + 4095"] unfolding R by linarith
  then have "(v AND PGMASK) + fs \<le> ROUND_UP ((v AND PGMASK) + ms) 0x1000" using fm p(2) by (simp add: word_le_nat_alt R_def)
  then show "unat ((v AND PGMASK) + fs) + unat (ROUND_UP ((v AND PGMASK) + ms) 0x1000 - ((v AND PGMASK) + fs)) = R"
    by (simp add: unat_sub R_def word_le_nat_alt)
  obtain q where q: "?v = 4096 * q + ?o" by (metis mult_div_mod_eq)
  have "(?o + ?m + 4095) div 4096 \<le> 786432 - q" using b q by linarith
  then show "unat (v AND NOT PGMASK) + R \<le> PHYS_BASE" using b q unfolding R by (simp add: unat_page_parts PHYS_BASE_def)
qed

lemma sint_small:
  assumes "unat (w :: u32) < 2 ^ 31"
  shows "sint w = int (unat w)"
proof -
  have u: "uint w = int (unat w)" by (rule uint_nat)
  have "sint w = signed_take_bit 31 (uint w)" by (simp add: sint_uint)
  also have "\<dots> = int (unat w)" unfolding u
  proof (rule signed_take_bit_int_eq_self)
    have "int (unat w) < int (2 ^ 31)" using assms by (simp only: of_nat_less_iff)
    then show "int (unat w) < 2 ^ 31" by (simp only: of_nat_power of_nat_numeral)
    show "- (2 ^ 31) \<le> int (unat w)" by (rule order_trans [OF _ of_nat_0_le_iff]) simp
  qed
  finally show ?thesis .
qed

lemma load_result_next:
  assumes "load_result fp s T s'"
  shows "\<exists>T'. space (pagedir s') (mm s') T' \<and> (\<forall>s''. load_result fp s' T' s'' \<longrightarrow> load_result fp s T s'')"
proof -
  obtain m' f' T' where 1: "s' = s\<lparr>mm := m', fsys := f'\<rparr>" "space (pagedir s) m' T'" "kept (pagedir s) (mm s) T m' T'" "moved fp (fsys s) f'"
    using assms by (auto simp: load_result_def)
  have "load_result fp s T s''" if lr: "load_result fp s' T' s''" for s''
  proof -
    obtain m'' f'' T'' where 2: "s'' = s'\<lparr>mm := m'', fsys := f''\<rparr>" "space (pagedir s') m'' T''" "kept (pagedir s') (mm s') T' m'' T''" "moved fp (fsys s') f''"
      using lr by (auto simp: load_result_def)
    then show ?thesis unfolding load_result_def
      using 1 kept_trans [OF 1(3), of m'' T''] moved_trans [OF 1(4), of f''] by (intro exI [of _ m''] exI [of _ f''] exI [of _ T'']) simp
  qed
  then show ?thesis using 1 by (intro exI [of _ T']) simp
qed

lemma load_result_file: "load_result fp s T s' \<Longrightarrow> has_file (fsys s) fp C \<Longrightarrow> has_file (fsys s') fp C"
  by (auto simp: load_result_def intro: moved_has_file)

lemma moved_load_result: "space (pagedir s) (mm s) T \<Longrightarrow> moved fp (fsys s) f \<Longrightarrow> load_result fp s T (s\<lparr>fsys := f\<rparr>)"
  unfolding load_result_def by (intro exI [of _ "mm s"] exI [of _ f] exI [of _ T]) simp

lemma seg_load_result:
  "seg_result (pagedir s) fp C k upage r z (mm s) T (fsys s) ok m' T' f' \<Longrightarrow> load_result fp s T (s\<lparr>mm := m', fsys := f'\<rparr>)"
  unfolding load_result_def seg_result_def by blast

lemma load_phdr_spec:
  assumes sp: "space (pagedir s) (mm s) T" and hf: "has_file (fsys s) fp C"
  shows "\<exists>ok s'. load_phdr ph fp s = Some (ok, s') \<and> load_result fp s T s'"
proof -
  have fl: "file_length fp (fsys s) = Some (int (length C))" "length C \<le> 2 ^ 31 - 512" using has_file_length [OF hf] by auto
  obtain valid where v: "validate_segment ph fp (fsys s) = Some valid" 
    using fl(1) by (cases "p_offset ph AND PGMASK = p_vaddr ph AND PGMASK") (auto simp: validate_segment_def)
  show ?thesis
  proof (cases "p_type ph = PT_LOAD \<and> valid")
    case False
    then have "\<exists>ok. load_phdr ph fp s = Some (ok, s)" using v by (auto simp: load_phdr_def)
    then show ?thesis using load_result_refl [OF sp] by blast
  next
    case True
    have V: "\<not> p_offset ph > word_of_int (int (length C))" "p_filesz ph \<le> p_memsz ph" "unat (p_vaddr ph + p_memsz ph) < PHYS_BASE"
      "\<not> p_vaddr ph + p_memsz ph < p_vaddr ph"
      using True v fl(1) by (auto simp: validate_segment_def is_user_vaddr_def split: if_splits)
    note N = segment_numbers [OF V(2-4)]
    let ?R = "ROUND_UP ((p_vaddr ph AND PGMASK) + p_memsz ph) 0x1000" and ?o = "p_offset ph AND NOT PGMASK"
    define r z where "r = (if p_filesz ph > 0 then (p_vaddr ph AND PGMASK) + p_filesz ph else 0)" and "z = (if p_filesz ph > 0 then ?R - r else ?R)"
    have rz: "unat r + unat z = unat ?R" using N(4) by (simp add: r_def z_def)
    have "unat (p_offset ph) \<le> length C"
      using V(1) fl(2) by (simp add: word_less_nat_alt not_less unat_of_nat)
    then have o: "unat ?o < 2 ^ 31" "unat ?o mod 4096 = 0" using fl(2) by (simp_all add: unat_page_parts minus_mod_eq_mult_div)
    have "load_phdr ph fp s = load_segment fp (int (unat ?o)) (unat (p_vaddr ph AND NOT PGMASK)) (unat r) (unat z) (p_flags ph AND PF_W \<noteq> 0) s"
      using True v sint_small [OF o(1)] by (simp add: load_phdr_def r_def z_def Let_def PT_LOAD_def PT_DYNAMIC_def PT_INTERP_def PT_SHLIB_def)
    moreover obtain ok m' f' T' where "load_segment fp (int (unat ?o)) (unat (p_vaddr ph AND NOT PGMASK)) (unat r) (unat z) (p_flags ph AND PF_W \<noteq> 0) s =
        Some (ok, s\<lparr>mm := m', fsys := f'\<rparr>)" "seg_result (pagedir s) fp C (unat ?o) (unat (p_vaddr ph AND NOT PGMASK)) (unat r) (unat z) (mm s) T (fsys s) ok m' T' f'"
      using load_segment_spec [OF sp hf N(1), of "unat r" "unat z" "unat ?o"] N(2,3) rz o by metis
    ultimately show ?thesis using seg_load_result by simp
  qed
qed

lemma load_phdrs_spec:
  assumes "space (pagedir s) (mm s) T" "has_file (fsys s) fp C"
  shows "\<exists>ok s'. load_phdrs n fp ofs s = Some (ok, s') \<and> load_result fp s T s'"
  using assms
proof (induction n arbitrary: ofs s T)
  case 0
  then show ?case using load_result_refl by auto
next
  case (Suc n)
  have fl: "file_length fp (fsys s) = Some (int (length C))" "length C \<le> 2 ^ 31 - 512" using has_file_length [OF Suc.prems(2)] by auto
  show ?case
  proof (cases "ofs < 0 \<or> ofs > int (length C)")
    case True
    then show ?thesis using fl(1) load_result_refl [OF Suc.prems(1)] by auto
  next
    case False
    then obtain j where j: "ofs = int j" "j < 2 ^ 31" using fl(2) by (cases ofs) auto
    obtain f where f: "file_seek fp (int j) (fsys s) = Some f" "file_at f fp C j" "moved fp (fsys s) f" using file_seek_at [OF Suc.prems(2) j(2)] by blast
    obtain bs f' where r: "file_read fp (int PHDR_SIZE) f = Some (bs, f')" "moved fp f f'" using file_read_bytes [OF f(2), of PHDR_SIZE] by blast
    let ?s = "s\<lparr>fsys := f'\<rparr>"
    have lr: "load_result fp s T ?s" by (rule moved_load_result [OF Suc.prems(1) moved_trans [OF f(3) r(2)]])
    have l: "load_phdrs (Suc n) fp ofs s = (if length bs \<noteq> PHDR_SIZE then Some (False, ?s) else do {
        (ok, s) \<leftarrow> load_phdr (dec_phdr bs) fp ?s; if ok then load_phdrs n fp (s32 (int j + int PHDR_SIZE)) s else Some (False, s) })"
      using False fl(1) f(1) r(1) j(1) by simp
    show ?thesis
    proof (cases "length bs = PHDR_SIZE")
      case False
      then show ?thesis using l lr by auto
    next
      case True
      obtain T1 where T1: "space (pagedir ?s) (mm ?s) T1" "\<forall>s''. load_result fp ?s T1 s'' \<longrightarrow> load_result fp s T s''" using load_result_next [OF lr] by blast
      have hf: "has_file (fsys ?s) fp C" by (rule load_result_file [OF lr Suc.prems(2)])
      obtain ok s1 where p: "load_phdr (dec_phdr bs) fp ?s = Some (ok, s1)" "load_result fp ?s T1 s1" using load_phdr_spec [OF T1(1) hf] by blast
      obtain T2 where T2: "space (pagedir s1) (mm s1) T2" "\<forall>s''. load_result fp s1 T2 s'' \<longrightarrow> load_result fp s T s''"
        using load_result_next p(2) T1(2) by blast
      show ?thesis
      proof (cases ok)
        case False
        then show ?thesis using l True p T1(2) by (intro exI [of _ False] exI [of _ s1]) simp
      next
        case ok: True
        obtain ok' s2 where "load_phdrs n fp (s32 (int j + int PHDR_SIZE)) s1 = Some (ok', s2)" "load_result fp s1 T2 s2"
          using Suc.IH [OF T2(1) load_result_file [OF p(2) hf]] by blast
        then show ?thesis using l True p(1) ok T2(2) by simp
      qed
    qed
  qed
qed

lemma load_file_spec:
  assumes sp: "space (pagedir s) (mm s) T" and fa: "file_at (fsys s) fp C k"
  shows "\<exists>r s'. load_file fp s = Some (r, s') \<and> load_result fp s T s'"
proof -
  obtain bs f where r: "file_read fp (int EHDR_SIZE) (fsys s) = Some (bs, f)" "moved fp (fsys s) f" using file_read_bytes [OF fa, of EHDR_SIZE] by blast
  let ?s = "s\<lparr>fsys := f\<rparr>" and ?h = "dec_ehdr bs"
  have lr: "load_result fp s T ?s" by (rule moved_load_result [OF sp r(2)])
  have hf: "has_file (fsys ?s) fp C" using load_result_file [OF lr] fa by (simp add: file_at_def)
  show ?thesis
  proof (cases "length bs = EHDR_SIZE \<and> ehdr_valid ?h")
    case False
    then show ?thesis using r(1) lr by (auto simp: load_file_def)
  next
    case True
    obtain T1 where T1: "space (pagedir ?s) (mm ?s) T1" "\<forall>s''. load_result fp ?s T1 s'' \<longrightarrow> load_result fp s T s''" using load_result_next [OF lr] by blast
    obtain ok s1 where p: "load_phdrs (unat (e_phnum ?h)) fp (sint (e_phoff ?h)) ?s = Some (ok, s1)" "load_result fp ?s T1 s1"
      using load_phdrs_spec [OF T1(1) hf] by blast
    obtain T2 where T2: "space (pagedir s1) (mm s1) T2" "\<forall>s''. load_result fp s1 T2 s'' \<longrightarrow> load_result fp s T s''"
      using load_result_next p(2) T1(2) by blast
    obtain e s2 where "setup_stack s1 = Some (e, s2)" "load_result fp s1 T2 s2" using setup_stack_spec [OF T2(1)] by blast
    then show ?thesis using r(1) True p T1(2) T2(2) by (cases ok) (auto simp: load_file_def)
  qed
qed

section \<open>Loading an executable and exiting\<close>

text \<open>Loading \<^verbatim>\<open>cr3\<close> does not change an address space.\<close>

lemma space_cr3: "space pd (s\<lparr>cr3 := x, tlb := y\<rparr>) T \<longleftrightarrow> space pd s T" "budget pd (s\<lparr>cr3 := x, tlb := y\<rparr>) T = budget pd s T"
proof -
  have m: "mapped (s\<lparr>cr3 := x, tlb := y\<rparr>) T = mapped s T" by (simp add: mapped_def)
  then have f: "frames (s\<lparr>cr3 := x, tlb := y\<rparr>) T = frames s T" by (simp add: frames_def)
  show "space pd (s\<lparr>cr3 := x, tlb := y\<rparr>) T \<longleftrightarrow> space pd s T" by (simp add: space_def targets_ok_def exclusive_def m f)
  show "budget pd (s\<lparr>cr3 := x, tlb := y\<rparr>) T = budget pd s T" by (simp add: budget_def f fun_eq_iff)
qed

text \<open>The state in which programs are started: the kernel has its own directory with no user page, and the file system is mounted.\<close>

definition booted :: "mmu \<Rightarrow> bool" where
  "booted s \<longleftrightarrow> dir_rep s (init_page_dir s) (\<lambda>_. NULL) \<and> (\<forall>n\<in>all_pages True (pgs s). n < pg_no PHYS_BASE + init_ram_pages s)"

lemma create_space:
  assumes b: "booted s"
  shows "pagedir_create s = Some (NULL, s) \<or>
    (\<exists>pd s'. pagedir_create s = Some (pd, s') \<and> space pd s' (\<lambda>_. NULL) \<and> budget pd s' (\<lambda>_. NULL) = (\<lambda>v. free_pages v (pgs s)) \<and>
       init_page_dir s' = init_page_dir s \<and> (\<forall>v. all_pages v (pgs s') = all_pages v (pgs s)))"
proof -
  have r: "dir_rep s (init_page_dir s) (\<lambda>_. NULL)" and bd: "\<forall>n\<in>all_pages True (pgs s). n < pg_no PHYS_BASE + init_ram_pages s"
    using b by (simp_all add: booted_def)
  from create_rep [OF r] show ?thesis
  proof (elim disjE exE conjE)
    fix pd s'
    assume c: "pagedir_create s = Some (pd, s')" and r': "dir_rep s' pd (\<lambda>_. NULL)"
      and f: "pd \<noteq> init_page_dir s" "pg_no pd \<in> free_pages False (pgs s)" "free_pages False (pgs s') = free_pages False (pgs s) - {pg_no pd}"
        "free_pages True (pgs s') = free_pages True (pgs s)" "\<forall>v. all_pages v (pgs s') = all_pages v (pgs s)" "init_page_dir s' = init_page_dir s"
        "init_ram_pages s' = init_ram_pages s"
    have m: "mapped s' (\<lambda>_. NULL) = {}" "frames s' (\<lambda>_. NULL) = {}" "tables (\<lambda>_. NULL) = {}" by (simp_all add: mapped_def frames_def tables_def pt_entry_def)
    have sp: "space pd s' (\<lambda>_. NULL)"
      using r' f bd by (simp add: space_def exclusive_def m targets_ok_def target_ok_def pt_entry_def)
    have "budget pd s' (\<lambda>_. NULL) v = free_pages v (pgs s)" for v
      using f(2-4) by (cases v) (auto simp: budget_eq [OF sp] m)
    then show ?thesis using c sp f(5,6) by (intro disjI2 exI [of _ pd] exI [of _ s']) (simp add: fun_eq_iff)
  qed simp
qed

lemma close_after_load:
  assumes ok: "fs_ok F f0" and op: "opened p f0 f1" "p \<in> set (open_inodes f1)" "p \<noteq> NULL"
    and fl: "files f1 fp = \<lparr>file_inode = p, pos = k, deny_write = False\<rparr>" and mv: "moved fp f1 f2" and fp: "fp \<noteq> NULL"
  shows "\<exists>f3. file_close fp f2 = Some f3 \<and> disk f3 = disk f1"
proof -
  have f2: "inodes f2 = inodes f1" "open_inodes f2 = open_inodes f1" "disk f2 = disk f1" "file_inode (files f2 fp) = p" "\<not> deny_write (files f2 fp)"
    using mv fl by (auto simp: moved_def same_io_def upd_file_def)
  have c: "file_close fp f2 = inode_close p f2" using fp f2(4,5) by (simp add: file_close_def file_allow_write_def)
  have "open_cnt (inodes f1 p) \<noteq> 1 \<or> \<not> removed (inodes f1 p)"
  proof (cases "p \<in> set (open_inodes f0)")
    case True
    have "0 < open_cnt (inodes f0 p)" using ok inodes_okD(5) [OF coreD(9) True] unfolding fs_ok_def by blast
    then show ?thesis using op(1) True by (simp add: opened_def)
  next
    case False
    then show ?thesis using op(1) by (simp add: opened_def)
  qed
  then show ?thesis unfolding c inode_close_def using op(2,3) f2 by (cases "open_cnt (inodes f1 p) = 1") (auto simp: upd_inode_def Let_def)
qed

lemma load_elf_spec:
  assumes b: "booted (mm s)" and ok: "fs_ok F (fsys s)" "avail (fsys s) = []"
  shows "\<exists>r s'. load_elf nm s = Some (r, s') \<and> disk (fsys s') = disk (fsys s) \<and> init_page_dir (mm s') = init_page_dir (mm s) \<and>
    (\<forall>v. all_pages v (pgs (mm s')) = all_pages v (pgs (mm s))) \<and>
    (if pagedir s' = NULL then mm s' = mm s
     else \<exists>T. space (pagedir s') (mm s') T \<and> budget (pagedir s') (mm s') T = (\<lambda>v. free_pages v (pgs (mm s))))"
  using create_space [OF b]
proof (elim disjE exE conjE)
  assume "pagedir_create (mm s) = Some (NULL, mm s)"
  then have "load_elf nm s = Some (None, s\<lparr>pagedir := NULL\<rparr>)" by (simp add: load_elf_def)
  then show ?thesis by simp
next
  fix pd m1 assume c: "pagedir_create (mm s) = Some (pd, m1)" and sp: "space pd m1 (\<lambda>_. NULL)" and bu: "budget pd m1 (\<lambda>_. NULL) = (\<lambda>v. free_pages v (pgs (mm s)))"
    and i: "init_page_dir m1 = init_page_dir (mm s)" "\<forall>v. all_pages v (pgs m1) = all_pages v (pgs (mm s))"
  have kp: "kernel_page pd" "pd \<noteq> NULL" using dir_repD(3) [OF spaceD(1) [OF sp]] kernel_page_vtop(2) by auto
  let ?m = "m1\<lparr>cr3 := pd - PHYS_BASE, tlb := {}\<rparr>"
  let ?s = "s\<lparr>mm := ?m, pagedir := pd\<rparr>"
  have sp': "space pd ?m (\<lambda>_. NULL)" "budget pd ?m (\<lambda>_. NULL) = (\<lambda>v. free_pages v (pgs (mm s)))" using sp bu by (simp_all add: space_cr3)
  have act: "process_activate (s\<lparr>mm := m1, pagedir := pd\<rparr>) = Some ?s"
    using kp kernel_page_vtop(1) [OF kp(1)] by (simp add: process_activate_def pagedir_activate_def)
  obtain fp f1 where f: "filesys_open nm (fsys s) = Some (fp, f1)" "fs_ok F f1" "disk f1 = disk (fsys s)"
    "case root_names (fsys s) nm of
       None \<Rightarrow> fp = NULL \<and> same_open (fsys s) f1 \<and> files f1 = files (fsys s)
     | Some sec \<Rightarrow> fp \<noteq> NULL \<and> fp \<ge> next_addr (fsys s) \<and> (\<exists>p. p \<in> set (open_inodes f1) \<and> sector (inodes f1 p) = sec \<and> opened p (fsys s) f1 \<and>
         files f1 = (files (fsys s))(fp := \<lparr>file_inode = p, pos = 0, deny_write = False\<rparr>))"
    using filesys_open_inv [OF ok, of nm] by blast
  have l: "load_elf nm s = (let s = ?s\<lparr>fsys := f1\<rparr> in if fp = NULL then Some (None, s)
     else do { (r, s) \<leftarrow> load_file fp s; f \<leftarrow> file_close fp (fsys s); Some (r, s\<lparr>fsys := f\<rparr>) })"
    using c kp(2) act f(1) by (simp add: load_elf_def)
  show ?thesis
  proof (cases "fp = NULL")
    case True
    then show ?thesis using l f(3) sp' i kp(2) by auto
  next
    case False
    then obtain p where p: "p \<in> set (open_inodes f1)" "opened p (fsys s) f1" "files f1 fp = \<lparr>file_inode = p, pos = 0, deny_write = False\<rparr>"
      using f(4) by (auto split: option.splits)
    have inv: "fs_inv F f1" using f(2) by (simp add: fs_ok_def)
    have fa: "file_at (fsys (?s\<lparr>fsys := f1\<rparr>)) fp (contents f1 p) 0"
      using open_inode_ok(1) [OF inv p(1)] p(3) False by (simp add: file_at_def has_file_def)
    obtain r s1 where r: "load_file fp (?s\<lparr>fsys := f1\<rparr>) = Some (r, s1)" "load_result fp (?s\<lparr>fsys := f1\<rparr>) (\<lambda>_. NULL) s1"
      using load_file_spec [OF _ fa, of "\<lambda>_. NULL"] sp'(1) by auto
    obtain m' f2 T where s1: "s1 = ?s\<lparr>fsys := f1\<rparr>\<lparr>mm := m', fsys := f2\<rparr>" "space pd m' T" "kept pd ?m (\<lambda>_. NULL) m' T" "moved fp f1 f2"
      using r(2) by (auto simp: load_result_def)
    have "p \<noteq> NULL" by (rule inodes_okD(1) [OF coreD(9) [OF inv] p(1)])
    then obtain f3 where f3: "file_close fp f2 = Some f3" "disk f3 = disk f1" using close_after_load [OF ok(1) p(2,1) _ p(3) s1(4) False] by blast
    have k: "budget pd m' T = (\<lambda>v. free_pages v (pgs (mm s)))" "init_page_dir m' = init_page_dir (mm s)" "\<forall>v. all_pages v (pgs m') = all_pages v (pgs (mm s))"
      using s1(3) sp'(2) i by (simp_all add: kept_def)
    have "load_elf nm s = Some (r, s1\<lparr>fsys := f3\<rparr>)" using l False r(1) f3(1) s1(1) by simp
    then show ?thesis using s1(1,2) k f3(2) f(3) kp(2) by (intro exI [of _ r] exI [of _ "s1\<lparr>fsys := f3\<rparr>"]) auto
  qed
qed

lemma process_exit_spec:
  assumes sp: "space (pagedir s) (mm s) T" and i: "kernel_page (init_page_dir (mm s))"
  shows "\<exists>m'. process_exit s = Some (s\<lparr>mm := m', pagedir := NULL\<rparr>) \<and> pages_ok (pgs m') \<and> (\<forall>v. free_pages v (pgs m') = budget (pagedir s) (mm s) T v)"
proof -
  let ?m = "(mm s)\<lparr>cr3 := init_page_dir (mm s) - PHYS_BASE, tlb := {}\<rparr>"
  have sp': "space (pagedir s) ?m T" using sp by (simp add: space_cr3)
  note S = spaceD [OF sp']
  obtain m' where m': "pagedir_destroy (pagedir s) ?m = Some m'" "pages_ok (pgs m')"
    "\<forall>v. free_pages v (pgs m') = budget (pagedir s) ?m T v"
    using destroy_rep [OF S(1,2,3,5)] unfolding budget_def by blast
  have "pagedir s \<noteq> NULL" using dir_repD(3) [OF S(1)] kernel_page_vtop(2) by blast
  then have "process_exit s = Some (s\<lparr>mm := m', pagedir := NULL\<rparr>)"
    using m'(1) kernel_page_vtop [OF i] by (simp add: process_exit_def pagedir_activate_def)
  then show ?thesis using m'(2,3) by (auto simp: space_cr3)
qed

text \<open>
  C22 Running a program, whatever the bytes of the file with that name are, when the file system finds memory for its buffers: loading it makes no
  assertion of the loader, the page directory, the page allocator or the file system fail and does not change the disk, and when the process
  exits, after a load that succeeded or failed at any point (also for lack of pages), every page it was given is free again.
\<close>

theorem load_exit_no_leak:
  assumes "booted (mm s)" "fs_ok F (fsys s)" "avail (fsys s) = []"
  shows "\<exists>r s1 s2. load_elf file_name s = Some (r, s1) \<and> process_exit s1 = Some s2 \<and> disk (fsys s1) = disk (fsys s) \<and> pages_ok (pgs (mm s2)) \<and>
    (\<forall>v. free_pages v (pgs (mm s2)) = free_pages v (pgs (mm s)))"
proof -
  obtain r s1 where l: "load_elf file_name s = Some (r, s1)" "disk (fsys s1) = disk (fsys s)" "init_page_dir (mm s1) = init_page_dir (mm s)"
    "if pagedir s1 = NULL then mm s1 = mm s
     else \<exists>T. space (pagedir s1) (mm s1) T \<and> budget (pagedir s1) (mm s1) T = (\<lambda>v. free_pages v (pgs (mm s)))"
    using load_elf_spec [OF assms, of file_name] by blast
  have k: "kernel_page (init_page_dir (mm s))" "pages_ok (pgs (mm s))" using assms(1) by (simp_all add: booted_def dir_rep_def)
  show ?thesis
  proof (cases "pagedir s1 = NULL")
    case True
    then show ?thesis using l k(2) by (simp add: process_exit_def)
  next
    case False
    then obtain T where "space (pagedir s1) (mm s1) T" "budget (pagedir s1) (mm s1) T = (\<lambda>v. free_pages v (pgs (mm s)))" using l(4) by auto
    then show ?thesis using process_exit_spec [of s1 T] k(1) l(1-3) by auto
  qed
qed

section \<open>Examples\<close>

lemma demo_space: "space 0xc0001000 demo_mmu ((\<lambda>_. NULL)(0 := 0xc0002000))"
  using demo_rep(2) demo_targets demo_frames by (simp add: space_def demo_pool_sets page_numbers) (simp add: demo_mmu_def)

lemma demo_booted: "booted demo_mmu"
  using demo_rep(1) by (simp add: booted_def demo_pool_sets page_numbers) (simp add: demo_mmu_def)

lemma demo_bytes: "i < 1300 \<Longrightarrow> contents demo_fs 5 ! i = 7"
  by (simp add: contents_def demo_fs_def inode_length_def dbyte_def base_of_def)

lemma demo_uview: "va < PHYS_BASE \<Longrightarrow> pg_no va \<noteq> 1 \<Longrightarrow> uview 0xc0001000 demo_mmu va = None"
  by (simp add: uview_def demo_get_page)

theorem load_segment_correct_witness:
  "\<exists>s'. load_segment 9 0 0x402000 1000 3096 True \<lparr>mm = demo_mmu, fsys = demo_fs, pagedir = 0xc0001000\<rparr> = Some (True, s') \<and>
    uview 0xc0001000 (mm s') 0x402000 = Some 7 \<and> uview 0xc0001000 (mm s') 0x402fff = Some 0 \<and>
    uview 0xc0001000 (mm s') 0x1008 = uview 0xc0001000 demo_mmu 0x1008"
proof -
  let ?s = "\<lparr>mm = demo_mmu, fsys = demo_fs, pagedir = 0xc0001000\<rparr>"
  have sp: "space (pagedir ?s) (mm ?s) ((\<lambda>_. NULL)(0 := 0xc0002000))" using demo_space by simp
  have hf: "has_file (fsys ?s) 9 (contents demo_fs 5)" using demo_fs_ok(1) by (simp add: has_file_def) (simp add: demo_fs_def)
  have seg: "pg_ofs 0x402000 = 0" "0x402000 + (1000 + 3096) \<le> PHYS_BASE" "(1000 + 3096) mod PGSIZE = 0" by (simp_all add: page_numbers)
  have room: "avail (fsys ?s) = [] \<and> 0 + 1000 \<le> length (contents demo_fs 5) \<and>
    (\<forall>va. 0x402000 \<le> va \<and> va < 0x402000 + (1000 + 3096) \<longrightarrow> uview (pagedir ?s) (mm ?s) va = None) \<and>
    (\<forall>v. (1000 + 3096) div PGSIZE \<le> card (free_pages v (pgs (mm ?s))))"
  proof (intro conjI allI impI)
    fix va :: nat assume "0x402000 \<le> va \<and> va < 0x402000 + (1000 + 3096)"
    then have "va < PHYS_BASE" "pg_no va = pg_no 0x402000" using in_page [OF seg(1), of va] by (simp_all add: PHYS_BASE_def PGSIZE_def)
    then show "uview (pagedir ?s) (mm ?s) va = None" using demo_uview [of va] by (simp add: pg_no_def PGBITS_def)
  next
    fix v show "(1000 + 3096) div PGSIZE \<le> card (free_pages v (pgs (mm ?s)))" by (cases v) (simp_all add: demo_pool_sets PGSIZE_def)
  qed (use demo_fs_ok in simp_all)
  obtain ok s' T' where l: "load_segment 9 (int 0) 0x402000 1000 3096 True ?s = Some (ok, s')" and ok: ok
    and v: "\<And>va. va < PHYS_BASE \<Longrightarrow> uview 0xc0001000 (mm s') va = (if 0x402000 \<le> va \<and> va < 0x402000 + (1000 + 3096)
      then Some (if va - 0x402000 < 1000 then contents demo_fs 5 ! (0 + (va - 0x402000)) else 0) else uview 0xc0001000 demo_mmu va)"
    using load_segment_correct [OF sp hf seg, of 0 True] room by auto
  have "uview 0xc0001000 (mm s') 0x402000 = Some 7" "uview 0xc0001000 (mm s') 0x402fff = Some 0"
    "uview 0xc0001000 (mm s') 0x1008 = uview 0xc0001000 demo_mmu 0x1008"
    using v [of "0x402000"] v [of "0x402fff"] v [of "0x1008"] demo_bytes [of 0] by (simp_all add: PHYS_BASE_def)
  then show ?thesis using l ok by auto
qed

theorem load_exit_no_leak_witness:
  "\<exists>s0 f r s1 s2. filesys_init [0xFFFF] True blank_disk = Some s0 \<and> filesys_create (replicate 20 0) [97, 98] 600 s0 = Some (True, f) \<and>
    load_elf [97, 98] \<lparr>mm = demo_mmu, fsys = f, pagedir = NULL\<rparr> = Some (r, s1) \<and> process_exit s1 = Some s2 \<and>
    free_pages True (pgs (mm s2)) = {0xc0008 ..< 0xc0010} - {0xc0009}"
proof -
  obtain s0 f F where f: "filesys_init [0xFFFF] True blank_disk = Some s0" "filesys_create (replicate 20 0) [97, 98] 600 s0 = Some (True, f)"
    "fs_ok F f" "avail f = []" using demo_created by blast
  let ?s = "\<lparr>mm = demo_mmu, fsys = f, pagedir = NULL\<rparr>"
  have "booted (mm ?s)" "fs_ok F (fsys ?s)" "avail (fsys ?s) = []" using demo_booted f by simp_all
  from load_exit_no_leak [OF this, of "[97, 98]"] obtain r s1 s2 where "load_elf [97, 98] ?s = Some (r, s1)" "process_exit s1 = Some s2"
    "free_pages True (pgs (mm s2)) = free_pages True (pgs demo_mmu)" by auto
  then show ?thesis using f(1,2) by (auto simp: demo_pool_sets)
qed

end
