(* ===== verification/Spec2Isabelle.thy ===== *)
theory Spec2Isabelle
  imports Kernel_List_Sort Bitmap Fixed_Point Sleep_Theorems Scheduling Arith64 Prng Hash_Table C_Stdlib Ustar Elf_Load
begin

text \<open>
  \<^bold>\<open>A verification library for the Pintos kernel of this repository\<close> (\<^verbatim>\<open>src/pintos/src\<close>, the threads project: alarm clock, priority donation,
  feedback scheduler). All paths below are relative to that directory.

  \<^bold>\<open>The program.\<close> Pintos is a kernel for one 32-bit processor. Threads (\<^verbatim>\<open>threads/thread.c\<close>) are switched by a scheduler that a timer interrupt
  (\<^verbatim>\<open>devices/timer.c\<close>, \<^verbatim>\<open>threads/interrupt.c\<close>) drives; they synchronise with semaphores, locks and condition variables
  (\<^verbatim>\<open>threads/synch.c\<close>). All queues are the doubly linked lists of \<^verbatim>\<open>lib/kernel/list.c\<close>. Memory comes in pages from \<^verbatim>\<open>threads/palloc.c\<close>, which
  keeps bitmaps (\<^verbatim>\<open>lib/kernel/bitmap.c\<close>), and in blocks from \<^verbatim>\<open>threads/malloc.c\<close>. The file system (\<^verbatim>\<open>filesys/\<close>) keeps files as inodes on a block
  device, names in one root directory and free sectors in a bitmap that is a file itself. A user process runs an executable from it, which
  \<^verbatim>\<open>userprog/process.c\<close> loads into an address space of its own, kept in the page tables of \<^verbatim>\<open>userprog/pagedir.c\<close>. Under all of this is a small C library (\<^verbatim>\<open>lib/\<close>).

  \<^bold>\<open>Modelling.\<close> A structure of the source is a record with its fields, an enumeration a datatype, a function a definition of the same name
  that takes the state and returns the new one. \<open>None\<close> is a failed \<^verbatim>\<open>ASSERT\<close>, a \<^verbatim>\<open>PANIC\<close>, undefined behaviour of C, or (for a \<open>partial_function\<close>) a
  loop that does not end; a function that cannot do any of these has no option type. Machine integers are words, or integers reduced by \<open>s32\<close>.
  Pointers are natural numbers, \<open>NULL\<close> is 0. Where a call may fail for lack of memory, the state holds the list of the outcomes of the
  calls to come, so that a theorem for all states covers every pattern of failures.

  \<^bold>\<open>The theories.\<close>

  \<^item> \<open>Pintos_Prelude\<close>: machine types, assertions, the calculus \<open>wp\<close>, C division, ordered insertion and minima of lists, the locale \<open>less_func\<close> for
    comparison functions. \<open>Vaddr\<close>: \<^verbatim>\<open>threads/vaddr.h\<close>, \<^verbatim>\<open>lib/round.h\<close>.
  \<^item> \<open>Kernel_List\<close>, \<open>Kernel_List_Sort\<close>: \<^verbatim>\<open>list.c\<close> on a heap of \<^verbatim>\<open>prev\<close>/\<^verbatim>\<open>next\<close> fields. \<open>list_rep\<close> relates a heap to the list it represents; every operation is
    shown to do on the heap what its name says on lists. The locale \<open>kernel_list\<close> is the contract of the queues and is interpreted on the pointer
    operations; the kernel model works with lists on that ground. Sorting is a natural merge sort and is stable.
  \<^item> \<open>Bitmap\<close>: \<^verbatim>\<open>bitmap.c\<close> on words of 32 bits against lists of booleans. \<open>Fixed_Point\<close>: \<^verbatim>\<open>threads/fixed-point.h\<close> and the formulas of the feedback scheduler
    with their ranges.
  \<^item> \<open>Kernel_State\<close>, \<open>Synch\<close>, \<open>Threads\<close>, \<open>Timer\<close>, \<open>Kernel_Machine\<close>: the thread system. The record \<open>kstate\<close> holds the globals of \<^verbatim>\<open>thread.c\<close>, \<^verbatim>\<open>synch.c\<close>,
    \<^verbatim>\<open>timer.c\<close> and \<^verbatim>\<open>interrupt.c\<close>. An operation that may lose the processor in the middle leaves its return points on the stack of its thread (type
    \<open>frame\<close>); the machine \<open>step\<close> makes a call of a client, continues at a return point, or takes an interrupt whenever interrupts are on. \<open>reachable\<close> is
    what these steps reach from the start under the documented obligations of callers (\<open>legal\<close>).
  \<^item> \<open>Kernel_Invariant\<close>, \<open>Synch_Invariant\<close>, \<open>Kernel_Safety\<close>: the invariant \<open>kinv\<close> (queues and states agree, the possible stacks of a thread, one token
    per lock) and its preservation. \<open>Kernel_Theorems\<close>, \<open>Sleep_Theorems\<close>: no legal step halts the kernel, locks exclude, queues are disjoint, sleepers
    are woken on time. \<open>Donation\<close>: priorities under the priority scheduler as long as nobody calls \<^verbatim>\<open>thread_set_nice\<close>, for the threads registered as waiting
    for a lock. \<open>Ready_Order\<close>: without donations the ready list is in the order of priorities. \<open>Scheduling\<close>: which thread \<^verbatim>\<open>thread_yield\<close> and \<^verbatim>\<open>sema_up\<close> choose.
  \<^item> \<open>Arith64\<close> (\<^verbatim>\<open>lib/arithmetic.c\<close>, with the processor's 64-by-32 division), \<open>Prng\<close> (\<^verbatim>\<open>lib/random.c\<close>), \<open>Hash_Table\<close> (\<^verbatim>\<open>lib/kernel/hash.c\<close> as a refinement of
    maps), \<open>C_String\<close> (\<^verbatim>\<open>lib/string.c\<close> on a byte memory), \<open>C_Stdlib\<close> (\<^verbatim>\<open>lib/stdlib.c\<close>, heap sort and binary search), \<open>Printf\<close> (\<^verbatim>\<open>lib/stdio.c\<close>),
    \<open>Ustar\<close> (\<^verbatim>\<open>lib/ustar.c\<close>).
  \<^item> \<open>Page_Alloc\<close>, \<open>Block_Alloc\<close>: the allocators, refining sets of disjoint live blocks. \<open>Page_Dir\<close>, \<open>Page_Dir_Free\<close>: page tables in memory
    (\<^verbatim>\<open>threads/pte.h\<close>, \<^verbatim>\<open>userprog/pagedir.c\<close>), refining the map from user pages to frames with its flags.
  \<^item> \<open>Inode_IO\<close>, \<open>File_System\<close>, \<open>Directory\<close>, \<open>Filesys\<close>: block device, inodes, free map, directories, named files. \<open>fs_ok\<close> is the invariant of a mounted
    file system: files own disjoint sectors, the free map and its file agree, names are distinct. Creating, removing, reading and a restart are
    described by the map from names to contents.
  \<^item> \<open>Elf_Load\<close>: \<^verbatim>\<open>load\<close> and \<^verbatim>\<open>process_exit\<close> of \<^verbatim>\<open>userprog/process.c\<close>, over page tables, page allocator and file system. \<open>space\<close> is the invariant of an
    address space, \<open>uview\<close> the memory that user code sees, \<open>budget\<close> the pages that it holds or could get; loading keeps the budget, exiting frees it.

  \<^bold>\<open>Bounds.\<close> \<open>chain_ends\<close> bounds the chain of lock holders by the number of threads; it is the absence of deadlock among them, without which the C loop does
  not end. \<open>run_resume\<close> has the number of steps that the start of the kernel needs, computed in \<open>inited_eq\<close> and \<open>boot_eq\<close>. All other loops
  are recursions with a termination proof or partial functions that are shown to return.

  \<^bold>\<open>Not modelled.\<close> Assembly (boot, interrupt entry, context switch), the programming of hardware registers (IDE, keyboard, serial, VGA, timer chip,
  interrupt controller, descriptor tables), console output, starting a thread in user mode, system calls and exceptions (the handlers are stubs in this
  version), partition tables, test programs and host tools. Locks inside the allocators are taken for granted: their operations are single steps here.
\<close>

end
